(* ===== verification/Prelude.thy ===== *)
theory Prelude
  imports Main "HOL-Library.Sublist"
begin

text \<open>
  Shared vocabulary of the development: the Python built-ins the sources use on strings,
  lists and paths, written as executable HOL functions, together with the lemmas about
  them that the component theories rest on.

  A Python \<^verbatim>\<open>str\<close> is a \<open>string\<close> (a list of \<open>char\<close>): each \<open>char\<close> stands for one code
  point in the range U+0000 to U+00FF. The character classes below are those of CPython
  restricted to that range (so \<open>py_isdigit\<close> and \<open>re_digit\<close> really differ, on the three
  superscript digits). Paths are POSIX paths (\<^verbatim>\<open>os.path\<close> is \<^verbatim>\<open>posixpath\<close>). A Python
  \<^verbatim>\<open>frozenset\<close> of literals is the list of its elements, and only membership or an
  order-independent search is ever applied to it; a \<^verbatim>\<open>dict\<close> whose order matters is an
  association list.
\<close>

section \<open>Collections of facts\<close>

text \<open>
  \<open>py_str\<close> unfolds the string helpers; \<open>perm_simps\<close> the permission data types; \<open>advance\<close>
  collects the facts that a scanner never moves backwards.
\<close>

named_theorems py_str "definitions of the Python string helpers"
named_theorems perm_simps "constructors of permission results"
named_theorems advance "a scanner position never decreases"

type_synonym pystr = string
type_synonym argv = "string list"
type_synonym rules_by_source = "(string \<times> string list) list"

section \<open>Character classes\<close>

definition code :: "char \<Rightarrow> nat" where
  "code c = of_char c"

definition newline :: char where
  "newline = CHR 0x0A"

definition is_space :: "char \<Rightarrow> bool" where
  "is_space c = (let n = code c in (9 \<le> n \<and> n \<le> 13) \<or> (28 \<le> n \<and> n \<le> 32) \<or> n = 133 \<or> n = 160)"

definition re_digit :: "char \<Rightarrow> bool" where
  "re_digit c = (let n = code c in 48 \<le> n \<and> n \<le> 57)"

definition py_isdigit :: "char \<Rightarrow> bool" where
  "py_isdigit c = (let n = code c in (48 \<le> n \<and> n \<le> 57) \<or> n = 178 \<or> n = 179 \<or> n = 185)"

definition is_word :: "char \<Rightarrow> bool" where
  "is_word c = (let n = code c in
     (48 \<le> n \<and> n \<le> 57) \<or> (65 \<le> n \<and> n \<le> 90) \<or> n = 95 \<or> (97 \<le> n \<and> n \<le> 122)
     \<or> n = 170 \<or> n = 178 \<or> n = 179 \<or> n = 181 \<or> n = 185 \<or> n = 186 \<or> (188 \<le> n \<and> n \<le> 190)
     \<or> (192 \<le> n \<and> n \<le> 214) \<or> (216 \<le> n \<and> n \<le> 246) \<or> (248 \<le> n \<and> n \<le> 255))"

definition is_name_start :: "char \<Rightarrow> bool" where
  "is_name_start c = (let n = code c in (65 \<le> n \<and> n \<le> 90) \<or> (97 \<le> n \<and> n \<le> 122) \<or> n = 95)"

definition is_name_char :: "char \<Rightarrow> bool" where
  "is_name_char c = (is_name_start c \<or> re_digit c)"

definition not_newline :: "char \<Rightarrow> bool" where
  "not_newline c = (c \<noteq> newline)"

section \<open>String methods\<close>

definition lower_char :: "char \<Rightarrow> char" where
  \<comment> \<open>a character of \<^verbatim>\<open>s.lower()\<close>\<close>
  "lower_char c = (let n = code c in
     if (65 \<le> n \<and> n \<le> 90) \<or> (192 \<le> n \<and> n \<le> 222 \<and> n \<noteq> 215) then char_of (n + 32) else c)"

definition startswith :: "string \<Rightarrow> string \<Rightarrow> bool" where
  "startswith s p = (take (length p) s = p)"

definition endswith :: "string \<Rightarrow> string \<Rightarrow> bool" where
  "endswith s p = (length p \<le> length s \<and> drop (length s - length p) s = p)"

fun contains :: "string \<Rightarrow> string \<Rightarrow> bool" where
  "contains sub [] = (sub = [])"
| "contains sub (c # s) = (startswith (c # s) sub \<or> contains sub s)"

fun find_from :: "nat \<Rightarrow> string \<Rightarrow> string \<Rightarrow> nat option" where
  "find_from i sub [] = (if sub = [] then Some i else None)"
| "find_from i sub (c # s) =
     (if startswith (c # s) sub then Some i else find_from (Suc i) sub s)"

definition py_find :: "string \<Rightarrow> string \<Rightarrow> nat option" where
  \<comment> \<open>\<^verbatim>\<open>s.find(sub)\<close>, with \<open>None\<close> for -1\<close>
  "py_find s sub = find_from 0 sub s"

definition lstrip :: "string \<Rightarrow> string" where
  "lstrip s = dropWhile is_space s"

definition rstrip_by :: "(char \<Rightarrow> bool) \<Rightarrow> string \<Rightarrow> string" where
  "rstrip_by P s = rev (dropWhile P (rev s))"

definition strip :: "string \<Rightarrow> string" where
  "strip s = rstrip_by is_space (lstrip s)"

fun split_on :: "char \<Rightarrow> string \<Rightarrow> string list" where
  "split_on d [] = [[]]"
| "split_on d (c # s) =
     (if c = d then [] # split_on d s
      else (case split_on d s of [] \<Rightarrow> [[c]] | w # ws \<Rightarrow> (c # w) # ws))"

definition split1_head :: "char \<Rightarrow> string \<Rightarrow> string" where
  \<comment> \<open>\<^verbatim>\<open>s.split(d, 1)[0]\<close>\<close>
  "split1_head d s = takeWhile (\<lambda>c. c \<noteq> d) s"

definition split1_tail :: "char \<Rightarrow> string \<Rightarrow> string" where
  \<comment> \<open>\<^verbatim>\<open>s.split(d, 1)[1]\<close>, for a string that holds \<open>d\<close>\<close>
  "split1_tail d s = tl (dropWhile (\<lambda>c. c \<noteq> d) s)"

definition first_word :: "string \<Rightarrow> string" where
  \<comment> \<open>\<^verbatim>\<open>s.split(None, 1)[0]\<close>, for a string with a non-space character\<close>
  "first_word s = takeWhile (\<lambda>c. \<not> is_space c) (lstrip s)"

fun join_with :: "string \<Rightarrow> string list \<Rightarrow> string" where
  "join_with d [] = []"
| "join_with d [x] = x"
| "join_with d (x # y # xs) = x @ d @ join_with d (y # xs)"

definition replace_char :: "char \<Rightarrow> char \<Rightarrow> string \<Rightarrow> string" where
  "replace_char a b s = map (\<lambda>c. if c = a then b else c) s"

definition all_isdigit :: "string \<Rightarrow> bool" where
  \<comment> \<open>\<^verbatim>\<open>s.isdigit()\<close>\<close>
  "all_isdigit s = (s \<noteq> [] \<and> (\<forall>c \<in> set s. py_isdigit c))"

fun dict_fromkeys :: "'a list \<Rightarrow> 'a list" where
  \<comment> \<open>\<^verbatim>\<open>list(dict.fromkeys(xs))\<close>: first occurrences, in order\<close>
  "dict_fromkeys [] = []"
| "dict_fromkeys (x # xs) = x # filter (\<lambda>y. y \<noteq> x) (dict_fromkeys xs)"

fun first_some :: "('a \<Rightarrow> 'b option) \<Rightarrow> 'a list \<Rightarrow> 'b option" where
  "first_some f [] = None"
| "first_some f (x # xs) = (case f x of None \<Rightarrow> first_some f xs | Some y \<Rightarrow> Some y)"

section \<open>posixpath\<close>

definition slash :: char where
  "slash = CHR ''/''"

definition path_basename :: "string \<Rightarrow> string" where
  "path_basename p = rev (takeWhile (\<lambda>c. c \<noteq> slash) (rev p))"

definition path_isabs :: "string \<Rightarrow> bool" where
  "path_isabs p = startswith p ''/''"

definition path_join :: "string \<Rightarrow> string \<Rightarrow> string" where
  "path_join a b =
     (if startswith b ''/'' then b
      else if a = [] \<or> endswith a ''/'' then a @ b
      else a @ ''/'' @ b)"

fun norm_comps :: "bool \<Rightarrow> string list \<Rightarrow> string list \<Rightarrow> string list" where
  \<comment> \<open>the component loop of \<^verbatim>\<open>normpath\<close>; the accumulator is the stack, top first\<close>
  "norm_comps rooted stack [] = rev stack"
| "norm_comps rooted stack (part # parts) =
     (if part = [] \<or> part = ''.'' then norm_comps rooted stack parts
      else if part \<noteq> ''..'' \<or> (\<not> rooted \<and> stack = []) \<or> (stack \<noteq> [] \<and> hd stack = ''..'')
      then norm_comps rooted (part # stack) parts
      else norm_comps rooted (tl stack) parts)"

definition path_normpath :: "string \<Rightarrow> string" where
  "path_normpath p =
     (if p = [] then ''.''
      else
        let slashes = (if \<not> startswith p ''/'' then []
                       else if startswith p ''//'' \<and> \<not> startswith p ''///'' then ''//''
                       else ''/'');
            r = slashes @ join_with ''/'' (norm_comps (slashes \<noteq> []) [] (split_on slash p))
        in if r = [] then ''.'' else r)"

lemmas py_str_defs [py_str] =
  startswith_def endswith_def lstrip_def rstrip_by_def strip_def split1_head_def split1_tail_def
  first_word_def replace_char_def py_find_def

section \<open>Shared lemmas\<close>

lemma startswith_prefix: "startswith s p \<longleftrightarrow> prefix p s"
  unfolding startswith_def by (metis append_take_drop_id prefix_def append_eq_conv_conj)

lemma startswith_append [simp]: "startswith (p @ s) p"
  by (simp add: startswith_def)

lemma startswith_Nil [simp]: "startswith s []"
  by (simp add: startswith_def)

lemma contains_iff: "contains sub s \<longleftrightarrow> (\<exists>a b. s = a @ sub @ b)"
proof (induction s)
  case Nil
  then show ?case by simp
next
  case (Cons c s)
  show ?case
  proof
    assume "contains sub (c # s)"
    then consider "startswith (c # s) sub" | "contains sub s" by auto
    then show "\<exists>a b. c # s = a @ sub @ b"
    proof cases
      case 1
      then obtain b where "c # s = sub @ b" by (auto simp: startswith_prefix prefix_def)
      then show ?thesis by (metis append_Nil)
    next
      case 2
      with Cons.IH obtain a b where "s = a @ sub @ b" by blast
      then show ?thesis by (metis append_Cons)
    qed
  next
    assume "\<exists>a b. c # s = a @ sub @ b"
    then obtain a b where eq: "c # s = a @ sub @ b" by blast
    show "contains sub (c # s)"
    proof (cases a)
      case Nil
      with eq show ?thesis by (metis append_Nil contains.simps(2) startswith_append)
    next
      case (Cons x a')
      with eq have "s = a' @ sub @ b" by simp
      with Cons.IH show ?thesis by auto
    qed
  qed
qed

lemma contains_mono: "contains sub s \<Longrightarrow> contains sub (a @ s @ b)"
  unfolding contains_iff by (metis append.assoc)

lemma contains_singleton [simp]: "contains [c] s \<longleftrightarrow> c \<in> set s"
  by (induction s) (auto simp: startswith_def)

lemma set_dict_fromkeys [simp]: "set (dict_fromkeys xs) = set xs"
  by (induction xs) auto

lemma distinct_dict_fromkeys [simp]: "distinct (dict_fromkeys xs)"
  by (induction xs) auto

lemma dict_fromkeys_Nil_iff [simp]: "dict_fromkeys xs = [] \<longleftrightarrow> xs = []"
  by (cases xs) auto

lemma split_on_not_Nil [simp]: "split_on d s \<noteq> []"
  by (induction s) (auto split: list.splits)

lemma split_on_no_sep: "w \<in> set (split_on d s) \<Longrightarrow> d \<notin> set w"
  by (induction s arbitrary: w) (auto split: if_splits list.splits)

lemma join_split_on: "join_with [d] (split_on d s) = s"
proof (induction s)
  case Nil
  then show ?case by simp
next
  case (Cons c s)
  obtain w ws where "split_on d s = w # ws"
    by (cases "split_on d s") auto
  with Cons.IH show ?case by (cases ws) auto
qed

lemma first_some_SomeD:
  "first_some f xs = Some y \<Longrightarrow> \<exists>x \<in> set xs. f x = Some y"
  by (induction xs) (auto split: option.splits)

lemma first_some_None_iff: "first_some f xs = None \<longleftrightarrow> (\<forall>x \<in> set xs. f x = None)"
  by (induction xs) (auto split: option.splits)

lemma find_SomeD: "List.find P xs = Some x \<Longrightarrow> x \<in> set xs \<and> P x"
  by (auto simp: find_Some_iff)

lemma find_all_None: "\<forall>x \<in> set xs. \<not> P x \<Longrightarrow> List.find P xs = None"
  by (simp add: find_None_iff)

lemma path_basename_no_slash: "slash \<notin> set (path_basename p)"
  unfolding path_basename_def using set_takeWhileD by fastforce

lemma path_basename_id: "slash \<notin> set p \<Longrightarrow> path_basename p = p"
proof -
  assume "slash \<notin> set p"
  then have "takeWhile (\<lambda>c. c \<noteq> slash) (rev p) = rev p"
    by (simp add: takeWhile_eq_all_conv) (metis)
  then show ?thesis unfolding path_basename_def by (metis rev_rev_ident)
qed

end
