(* ===== verification/Py_Data.thy ===== *)
theory Py_Data
  imports Prelude
begin

text \<open>
  Python data and control that several components share: dynamic (JSON or YAML) values,
  dictionaries in insertion order, exceptions as values, \<^verbatim>\<open>list.index\<close> and the decimal text of
  an integer; and the contract of state that is saved to a snapshot and restored from it.
\<close>

section \<open>Dynamic values\<close>

text \<open>The values a JSON or YAML document can hold. A float is its literal text.\<close>

datatype pyval =
    PyNone
  | PyBool bool
  | PyInt int
  | PyFloat string
  | PyStr string
  | PyList "pyval list"
  | PyDict "(string \<times> pyval) list"

type_synonym pydict = "(string \<times> pyval) list"

fun dict_set :: "'k \<Rightarrow> 'v \<Rightarrow> ('k \<times> 'v) list \<Rightarrow> ('k \<times> 'v) list" where
  "dict_set k v [] = [(k, v)]"
| "dict_set k v ((k', v') # d) = (if k = k' then (k, v) # d else (k', v') # dict_set k v d)"

fun dict_update :: "('k \<times> 'v) list \<Rightarrow> ('k \<times> 'v) list \<Rightarrow> ('k \<times> 'v) list" where
  "dict_update d [] = d"
| "dict_update d ((k, v) # e) = dict_update (dict_set k v d) e"

lemma map_of_dict_set [simp]: "map_of (dict_set k v d) = (map_of d)(k \<mapsto> v)"
  by (induction d) (auto simp: fun_eq_iff)

lemma map_of_dict_set_other: "k \<noteq> k' \<Longrightarrow> map_of (dict_set k v d) k' = map_of d k'"
  by simp

lemma fst_dict_set: "fst ` set (dict_set k v d) = insert k (fst ` set d)"
  by (induction k v d rule: dict_set.induct) (simp_all add: insert_commute)

lemma distinct_dict_set: "distinct (map fst d) \<Longrightarrow> distinct (map fst (dict_set k v d))"
  by (induction d) (auto simp: fst_dict_set)

lemma dict_set_in: "(a, w) \<in> set (dict_set k v d) \<Longrightarrow> (a, w) = (k, v) \<or> (a, w) \<in> set d"
  by (induction d) (auto split: if_splits)

lemma dict_set_snoc: "k \<notin> fst ` set d \<Longrightarrow> dict_set k v d = d @ [(k, v)]"
  by (induction d) auto

fun dict_del :: "'k \<Rightarrow> ('k \<times> 'v) list \<Rightarrow> ('k \<times> 'v) list" where
  "dict_del k [] = []"
| "dict_del k ((k', v') # d) = (if k = k' then d else (k', v') # dict_del k d)"

lemma fst_dict_set_keys: "map fst (dict_set k v d) = (if k \<in> fst ` set d then map fst d else map fst d @ [k])"
proof (induction d)
  case (Cons p d)
  then show ?case by (cases p; cases "k \<in> fst ` set d") simp_all
qed simp

lemma dict_set_keys_same: "k \<in> set (map fst d) \<Longrightarrow> map fst (dict_set k v d) = map fst d"
  by (simp add: fst_dict_set_keys)

lemma map_of_dict_del:
  "distinct (map fst d) \<Longrightarrow> map_of (dict_del k d) = (map_of d)(k := None)"
proof (induction d)
  case (Cons p d)
  obtain a b where p: "p = (a, b)" by (cases p)
  show ?case
  proof (cases "k = a")
    case True
    then have "map_of d k = None" using Cons.prems p by (simp add: map_of_eq_None_iff)
    then show ?thesis using True p by (auto simp: fun_eq_iff)
  next
    case False
    then show ?thesis using Cons p by (auto simp: fun_eq_iff)
  qed
qed simp

lemma keys_dict_del: "distinct (map fst d) \<Longrightarrow> set (map fst (dict_del k d)) = set (map fst d) - {k}"
proof (induction d)
  case (Cons p d)
  obtain a b where "p = (a, b)" by (cases p)
  with Cons show ?case by (cases "k = a") (simp_all add: insert_Diff_if)
qed simp

lemma distinct_dict_del: "distinct (map fst d) \<Longrightarrow> distinct (map fst (dict_del k d))"
proof (induction d)
  case (Cons p d)
  obtain a b where "p = (a, b)" by (cases p)
  with Cons show ?case using keys_dict_del [of d k] by auto
qed simp

section \<open>Exceptions\<close>

text \<open>The exceptions the modelled code raises, with the message where the code writes one.\<close>

datatype py_error =
    ValueError string
  | KeyError string
  | IndexError
  | TypeError string
  | RuntimeError string

section \<open>Lists and numbers\<close>

fun list_index :: "'a list \<Rightarrow> 'a \<Rightarrow> nat option" where
  \<comment> \<open>\<^verbatim>\<open>xs.index(x)\<close>, which raises \<^verbatim>\<open>ValueError\<close> where this is \<open>None\<close>\<close>
  "list_index [] x = None"
| "list_index (y # ys) x = (if x = y then Some 0 else map_option Suc (list_index ys x))"

lemma list_index_None_iff [simp]: "list_index xs x = None \<longleftrightarrow> x \<notin> set xs"
  by (induction xs) auto

lemma list_index_SomeD: "list_index xs x = Some i \<Longrightarrow> i < length xs \<and> xs ! i = x"
  by (induction xs arbitrary: i) (auto split: if_splits)

lemma list_index_nth: "distinct xs \<Longrightarrow> i < length xs \<Longrightarrow> list_index xs (xs ! i) = Some i"
proof (induction xs arbitrary: i)
  case (Cons y ys)
  then show ?case by (cases i) auto
qed simp

lemma list_index_in: "x \<in> set xs \<Longrightarrow> \<exists>i < length xs. list_index xs x = Some i \<and> xs ! i = x"
  by (metis list_index_None_iff list_index_SomeD not_None_eq)

definition digit_char :: "nat \<Rightarrow> char" where
  "digit_char d = char_of (48 + d)"

fun nat_str :: "nat \<Rightarrow> string" where
  "nat_str n = (if n < 10 then [digit_char n] else nat_str (n div 10) @ [digit_char (n mod 10)])"

declare nat_str.simps [simp del]

section \<open>State that is saved and restored\<close>

text \<open>
  What a resumable computation relies on: the state of a valid run survives a round trip through
  its snapshot, and every operation keeps it valid. Then saving and restoring at any number of
  points of a run cannot be observed.
\<close>

locale resumable =
  fixes valid :: "'s \<Rightarrow> bool" and exec :: "'op \<Rightarrow> 's \<Rightarrow> 's" and save :: "'s \<Rightarrow> 'snap" and restore :: "'snap \<Rightarrow> 's"
  assumes restore_save: "valid s \<Longrightarrow> restore (save s) = s"
    and exec_valid: "valid s \<Longrightarrow> valid (exec op s)"
begin

lemma run_valid: "valid s \<Longrightarrow> valid (fold exec ops s)"
  by (induction ops arbitrary: s) (simp_all add: exec_valid)

lemma resume_anywhere:
  "valid s \<Longrightarrow> fold exec (xs @ ys) s = fold exec ys (restore (save (fold exec xs s)))"
  by (simp add: restore_save run_valid)

lemma resume_every_step:
  "valid s \<Longrightarrow> fold (\<lambda>op s. restore (save (exec op s))) ops s = fold exec ops s"
  by (induction ops arbitrary: s) (simp_all add: restore_save exec_valid)

end

end
