(* ===== verification/Perm_Types.thy ===== *)
theory Perm_Types
  imports Py_Data
begin

text \<open>
  The permission data model of \<^verbatim>\<open>src/src/iac_code/types/permissions.py\<close>, the audit scope of
  a rule source (\<^verbatim>\<open>services/permissions/rule_scope.py\<close>) and the session rules of
  \<^verbatim>\<open>services/permissions/storage.py\<close>. A dataclass is a record with the fields of the source
  under a short prefix, a string enum a datatype, a \<^verbatim>\<open>dict[str, list[str]]\<close> of rules an
  association list in insertion order. User-facing texts are those of the source language
  (the translation function \<^verbatim>\<open>_\<close> is the identity).
\<close>

section \<open>Modes, sources, behaviours\<close>

datatype PermissionMode = DEFAULT | ACCEPT_EDITS | BYPASS_PERMISSIONS | DONT_ASK

datatype PermissionRuleSource = USER_SETTINGS | PROJECT_SETTINGS | LOCAL_SETTINGS | CLI_ARG | SESSION

fun rule_source_value :: "PermissionRuleSource \<Rightarrow> string" where
  "rule_source_value USER_SETTINGS = ''user_settings''"
| "rule_source_value PROJECT_SETTINGS = ''project_settings''"
| "rule_source_value LOCAL_SETTINGS = ''local_settings''"
| "rule_source_value CLI_ARG = ''cli_arg''"
| "rule_source_value SESSION = ''session''"

datatype behavior = Allow | Deny | Ask | Passthrough

datatype ExecutionClass = Concurrent | Serial

section \<open>Records\<close>

record InvocationBinding =
  runtime_nonce :: string
  session_id :: string
  tool_use_id :: string
  binding_tool_name :: string
  canonical_input_sha256 :: string

record PermissionRuleValue =
  rv_tool_name :: string
  rv_rule_content :: string
  rv_display_text :: "string option"

definition display_label :: "PermissionRuleValue \<Rightarrow> string" where
  "display_label v =
     (case rv_display_text v of
        None \<Rightarrow> rv_rule_content v
      | Some t \<Rightarrow> if t = [] then rv_rule_content v else t)"

record PermissionDecisionReason =
  dr_type :: string
  dr_detail :: string

record PermissionAuditSettings =
  include_tool_input :: bool
  max_file_bytes :: int
  max_files :: int

record PermissionAuditMetadata =
  au_scope :: string
  au_source :: string
  au_rule_source :: "string option"
  au_rule :: "string option"
  au_reason_type :: "string option"
  au_reason_detail :: "string option"
  au_is_read_only :: "bool option"
  au_operation :: pydict

record PermissionResult =
  pr_behavior :: behavior
  pr_message :: string
  pr_reason :: "PermissionDecisionReason option"
  pr_reasons :: "PermissionDecisionReason list option"
  pr_suggestions :: "PermissionRuleValue list option"
  pr_audit :: "PermissionAuditMetadata option"
  pr_audit_items :: "PermissionAuditMetadata list"
  pr_invocation_binding :: "InvocationBinding option"
  pr_snapshot_id :: "string option"
  pr_security_digest :: "string option"
  pr_execution_class :: "ExecutionClass option"

record ToolPermissionContext =
  cx_mode :: PermissionMode
  cx_cwd :: string
  cx_invocation_binding :: "InvocationBinding option"
  cx_pipeline_mode :: bool
  cx_allow_rules :: rules_by_source
  cx_deny_rules :: rules_by_source
  cx_ask_rules :: rules_by_source
  cx_additional_directories :: "string list"
  cx_trusted_read_directories :: "string list"
  cx_relative_read_directories :: "string list"
  cx_strict_read_directories :: "string list"
  cx_read_path_violation_behavior :: behavior
  cx_audit_settings :: PermissionAuditSettings

text \<open>\<^verbatim>\<open>PermissionAuditSettings()\<close> and \<^verbatim>\<open>ToolPermissionContext()\<close>: the field defaults.\<close>

definition default_audit_settings :: PermissionAuditSettings where
  "default_audit_settings = \<lparr>include_tool_input = False, max_file_bytes = 10 * 1024 * 1024, max_files = 5\<rparr>"

definition default_context :: ToolPermissionContext where
  "default_context =
     \<lparr>cx_mode = DEFAULT, cx_cwd = [], cx_invocation_binding = None, cx_pipeline_mode = False,
      cx_allow_rules = [], cx_deny_rules = [], cx_ask_rules = [],
      cx_additional_directories = [], cx_trusted_read_directories = [],
      cx_relative_read_directories = [], cx_strict_read_directories = [],
      cx_read_path_violation_behavior = Ask, cx_audit_settings = default_audit_settings\<rparr>"

definition result_of :: "behavior \<Rightarrow> PermissionResult" where
  \<comment> \<open>\<^verbatim>\<open>PermissionResult(behavior=b)\<close>, every other field at its default\<close>
  "result_of b =
     \<lparr>pr_behavior = b, pr_message = [], pr_reason = None, pr_reasons = None, pr_suggestions = None,
      pr_audit = None, pr_audit_items = [], pr_invocation_binding = None, pr_snapshot_id = None,
      pr_security_digest = None, pr_execution_class = None\<rparr>"

definition mk_reason :: "string \<Rightarrow> string \<Rightarrow> PermissionDecisionReason" where
  "mk_reason t d = \<lparr>dr_type = t, dr_detail = d\<rparr>"

definition reason_result :: "behavior \<Rightarrow> string \<Rightarrow> string \<Rightarrow> PermissionResult" where
  \<comment> \<open>\<^verbatim>\<open>PermissionResult(behavior=b, message=detail, reason=PermissionDecisionReason(type, detail))\<close>\<close>
  "reason_result b t detail =
     (result_of b)\<lparr>pr_message := detail, pr_reason := Some (mk_reason t detail)\<rparr>"

lemma result_of_sel [perm_simps, simp]:
  "pr_behavior (result_of b) = b" "pr_audit (result_of b) = None"
  "pr_reason (result_of b) = None" "pr_suggestions (result_of b) = None"
  "pr_message (result_of b) = []" "pr_reasons (result_of b) = None"
  by (simp_all add: result_of_def)

lemma reason_result_sel [perm_simps, simp]:
  "pr_behavior (reason_result b t d) = b" "pr_audit (reason_result b t d) = None"
  "pr_reason (reason_result b t d) = Some (mk_reason t d)" "pr_message (reason_result b t d) = d"
  "pr_suggestions (reason_result b t d) = None" "pr_reasons (reason_result b t d) = None"
  by (simp_all add: reason_result_def)

lemma mk_reason_sel [perm_simps, simp]: "dr_type (mk_reason t d) = t" "dr_detail (mk_reason t d) = d"
  by (simp_all add: mk_reason_def)

section \<open>Rule scopes and session rules\<close>

definition scope_for_rule_source :: "string \<Rightarrow> string" where
  "scope_for_rule_source source =
     (if source = ''cli_arg'' then ''cli_rule''
      else if source = ''session'' then ''session_rule''
      else if endswith source ''_settings'' then ''settings_rule''
      else source)"

definition SESSION_KEY :: string where
  "SESSION_KEY = ''session''"

definition format_rule :: "PermissionRuleValue \<Rightarrow> string" where
  "format_rule rv =
     (if rv_rule_content rv \<noteq> [] then rv_tool_name rv @ ''('' @ rv_rule_content rv @ '')''
      else rv_tool_name rv)"

definition bucket_append :: "string \<Rightarrow> rules_by_source \<Rightarrow> rules_by_source" where
  \<comment> \<open>\<^verbatim>\<open>rules.setdefault("session", []).append(rule)\<close>\<close>
  "bucket_append rule rules =
     dict_set SESSION_KEY ((case map_of rules SESSION_KEY of None \<Rightarrow> [] | Some rs \<Rightarrow> rs) @ [rule]) rules"

definition apply_session_rule ::
  "ToolPermissionContext \<Rightarrow> string \<Rightarrow> PermissionRuleValue \<Rightarrow> py_error + ToolPermissionContext" where
  "apply_session_rule ctx b rv =
     (let rule_str = format_rule rv in
      if b = ''allow'' then Inr (ctx\<lparr>cx_allow_rules := bucket_append rule_str (cx_allow_rules ctx)\<rparr>)
      else if b = ''deny'' then Inr (ctx\<lparr>cx_deny_rules := bucket_append rule_str (cx_deny_rules ctx)\<rparr>)
      else if b = ''ask'' then Inr (ctx\<lparr>cx_ask_rules := bucket_append rule_str (cx_ask_rules ctx)\<rparr>)
      else Inl (ValueError (''behavior must be allow, deny, or ask, got '' @ b)))"

text \<open>A session rule lands in the session bucket and every other bucket is unchanged.\<close>

lemma bucket_append_session:
  "map_of (bucket_append rule rules) SESSION_KEY =
     Some ((case map_of rules SESSION_KEY of None \<Rightarrow> [] | Some rs \<Rightarrow> rs) @ [rule])"
  by (simp add: bucket_append_def)

lemma bucket_append_other:
  "k \<noteq> SESSION_KEY \<Longrightarrow> map_of (bucket_append rule rules) k = map_of rules k"
  by (simp add: bucket_append_def)

end
