(* ===== verification/Path_Safety.thy ===== *)
theory Path_Safety
  imports Perm_Types
begin

text \<open>
  \<^verbatim>\<open>src/src/iac_code/tools/path_safety.py\<close> on a Linux host: which paths are sensitive, how a
  user-supplied path is resolved, and whether a read or a write of it is allowed, must be
  confirmed or is denied. What the code asks of the operating system (symbolic links, the
  existence of files, home directories, the directory of the installed package) is the
  record \<open>os_env\<close>, an argument of every function that uses it. On Linux
  \<^verbatim>\<open>normalize_user_path\<close> is the identity and paths are compared with their case.
\<close>

record os_env =
  env_realpath :: "string \<Rightarrow> string"
  env_exists :: "string \<Rightarrow> bool"
  env_expanduser :: "string \<Rightarrow> string"
  env_app_root :: string
  env_getcwd :: string

text \<open>A host without symbolic links, on which every file exists; concrete inputs are run on it.\<close>

definition plain_env :: os_env where
  "plain_env = \<lparr>env_realpath = path_normpath, env_exists = (\<lambda>_. True), env_expanduser = (\<lambda>p. p),
     env_app_root = ''/opt/iac-code'', env_getcwd = ''/work''\<rparr>"

section \<open>Sensitive paths\<close>

definition SENSITIVE_PATHS :: "string list" where
  "SENSITIVE_PATHS = [
     ''.git/'', ''.git'', ''.iac-code/'', ''.iac-code'', ''.iac-code/.credentials.yml'',
     ''.iac-code/.cloud-credentials.yml'', ''.bashrc'', ''.zshrc'', ''.profile'', ''.bash_profile'',
     ''.ssh/'', ''.ssh'', ''.env'', ''.aliyun/'', ''.aliyun'', ''.alibabacloud/'', ''.alibabacloud'',
     ''.aws/credentials'']"

definition normalize_for_platform :: "string \<Rightarrow> string" where
  "normalize_for_platform path = replace_char (CHR 0x5C) slash path"

definition rstrip_slash :: "string \<Rightarrow> string" where
  "rstrip_slash s = rstrip_by (\<lambda>c. c = slash) s"

fun build_sensitive_lookups :: "string list \<Rightarrow> string list \<times> string list" where
  "build_sensitive_lookups [] = ([], [])"
| "build_sensitive_lookups (entry # entries) =
     (let cleaned = normalize_for_platform (rstrip_slash entry);
          (single, multi) = build_sensitive_lookups entries
      in if cleaned = [] then (single, multi)
         else if slash \<in> set cleaned then (single, cleaned # multi)
         else (cleaned # single, multi))"

definition path_hits_sensitive :: "string \<Rightarrow> string list \<Rightarrow> bool" where
  "path_hits_sensitive abs_norm sensitive_paths =
     (let (sensitive_single, sensitive_multi) = build_sensitive_lookups sensitive_paths;
          normalized = normalize_for_platform abs_norm;
          parts = split_on slash normalized
      in list_ex (\<lambda>part. part \<in> set sensitive_single) parts
         \<or> list_ex (\<lambda>sub. contains sub normalized) sensitive_multi)"

section \<open>Resolution\<close>

definition resolve_normalized_candidate :: "os_env \<Rightarrow> string \<Rightarrow> string \<Rightarrow> string" where
  "resolve_normalized_candidate env normalized_path cwd =
     (if path_isabs normalized_path then env_realpath env normalized_path
      else env_realpath env (path_join cwd normalized_path))"

definition resolve_candidate :: "os_env \<Rightarrow> string \<Rightarrow> string \<Rightarrow> string" where
  "resolve_candidate env path cwd = resolve_normalized_candidate env (env_expanduser env path) cwd"

definition is_sensitive_path :: "os_env \<Rightarrow> string \<Rightarrow> bool" where
  "is_sensitive_path env path = path_hits_sensitive (resolve_candidate env path (env_getcwd env)) SENSITIVE_PATHS"

record ReadPathResolution =
  rr_path :: string
  rr_used_relative_root :: bool

definition resolve_read_path_with_source :: "os_env \<Rightarrow> string \<Rightarrow> string \<Rightarrow> string list \<Rightarrow> ReadPathResolution" where
  "resolve_read_path_with_source env path cwd relative_read_directories =
     (let normalized_path = env_expanduser env path;
          primary = resolve_normalized_candidate env normalized_path cwd
      in if path_isabs normalized_path \<or> env_exists env primary
         then \<lparr>rr_path = primary, rr_used_relative_root = False\<rparr>
         else (case first_some (\<lambda>root.
                      let candidate = resolve_normalized_candidate env normalized_path root
                      in if env_exists env candidate then Some candidate else None)
                    relative_read_directories of
                 Some candidate \<Rightarrow> \<lparr>rr_path = candidate, rr_used_relative_root = True\<rparr>
               | None \<Rightarrow> \<lparr>rr_path = primary, rr_used_relative_root = False\<rparr>))"

definition resolve_read_path :: "os_env \<Rightarrow> string \<Rightarrow> string \<Rightarrow> string list \<Rightarrow> string" where
  "resolve_read_path env path cwd relative_read_directories =
     rr_path (resolve_read_path_with_source env path cwd relative_read_directories)"

section \<open>Containment\<close>

definition path_is_under :: "os_env \<Rightarrow> string \<Rightarrow> string \<Rightarrow> bool" where
  "path_is_under env path root =
     (let path_r = normalize_for_platform (env_realpath env path);
          root_r = normalize_for_platform (env_realpath env root)
      in path_r = root_r \<or> startswith path_r (rstrip_slash root_r @ ''/''))"

definition is_in_allowed_roots :: "os_env \<Rightarrow> string \<Rightarrow> string list \<Rightarrow> bool" where
  "is_in_allowed_roots env path roots = list_ex (path_is_under env path) (filter (\<lambda>r. r \<noteq> []) roots)"

section \<open>Decisions\<close>

record ReadPathDecision =
  rd_behavior :: behavior
  rd_reason_type :: string
  rd_detail :: string

definition allow_decision :: ReadPathDecision where
  "allow_decision = \<lparr>rd_behavior = Allow, rd_reason_type = [], rd_detail = []\<rparr>"

definition to_permission_result :: "ReadPathDecision \<Rightarrow> PermissionResult" where
  "to_permission_result d =
     (if rd_behavior d = Allow then result_of Passthrough
      else if rd_behavior d = Deny then reason_result Deny (rd_reason_type d) (rd_detail d)
      else reason_result Ask (rd_reason_type d) (rd_detail d))"

definition check_resolved_read :: "os_env \<Rightarrow> string \<Rightarrow> string \<Rightarrow> string list \<Rightarrow> string list \<Rightarrow> string list
    \<Rightarrow> behavior \<Rightarrow> ReadPathDecision" where
  \<comment> \<open>the decision of \<^verbatim>\<open>check_read_path_with_resolution\<close> on the resolved path\<close>
  "check_resolved_read env resolved cwd additional trusted strict violation =
     (if strict \<noteq> [] then
        (if is_in_allowed_roots env resolved strict then allow_decision
         else \<lparr>rd_behavior = violation, rd_reason_type = ''path_constraint'',
               rd_detail = ''path outside allowed read directories''\<rparr>)
      else if is_in_allowed_roots env resolved trusted then allow_decision
      else if path_hits_sensitive resolved SENSITIVE_PATHS then
        \<lparr>rd_behavior = Ask, rd_reason_type = ''safety_check'', rd_detail = ''read touches a sensitive path''\<rparr>
      else if is_in_allowed_roots env resolved (cwd # additional @ [env_app_root env]) then allow_decision
      else \<lparr>rd_behavior = Ask, rd_reason_type = ''path_constraint'',
            rd_detail = ''path outside allowed directories''\<rparr>)"

definition check_read_path_with_resolution :: "os_env \<Rightarrow> string \<Rightarrow> string \<Rightarrow> string list \<Rightarrow> string list
    \<Rightarrow> string list \<Rightarrow> string list \<Rightarrow> behavior \<Rightarrow> ReadPathDecision \<times> ReadPathResolution" where
  "check_read_path_with_resolution env path cwd additional trusted relative strict violation =
     (let resolution = resolve_read_path_with_source env path cwd relative
      in (check_resolved_read env (rr_path resolution) cwd additional trusted strict violation, resolution))"

definition check_read_path :: "os_env \<Rightarrow> string \<Rightarrow> string \<Rightarrow> string list \<Rightarrow> string list
    \<Rightarrow> string list \<Rightarrow> string list \<Rightarrow> behavior \<Rightarrow> ReadPathDecision" where
  "check_read_path env path cwd additional trusted relative strict violation =
     fst (check_read_path_with_resolution env path cwd additional trusted relative strict violation)"

definition check_write_path :: "os_env \<Rightarrow> string \<Rightarrow> string \<Rightarrow> string list \<Rightarrow> ReadPathDecision" where
  "check_write_path env path cwd additional =
     (let resolved = resolve_candidate env path cwd in
      if path_hits_sensitive resolved SENSITIVE_PATHS then
        \<lparr>rd_behavior = Ask, rd_reason_type = ''safety_check'', rd_detail = ''write touches a sensitive path''\<rparr>
      else if is_in_allowed_roots env resolved (cwd # additional) then allow_decision
      else \<lparr>rd_behavior = Ask, rd_reason_type = ''path_constraint'',
            rd_detail = ''path outside allowed directories''\<rparr>)"

section \<open>Facts\<close>

lemma allow_decision_sel [simp]:
  "rd_behavior allow_decision = Allow"
  by (simp add: allow_decision_def)

lemma is_in_allowed_roots_iff:
  "is_in_allowed_roots env path roots \<longleftrightarrow> (\<exists>root \<in> set roots. root \<noteq> [] \<and> path_is_under env path root)"
  by (auto simp: is_in_allowed_roots_def list_ex_iff)

lemma is_in_allowed_roots_mono:
  "is_in_allowed_roots env path roots \<Longrightarrow> set roots \<subseteq> set roots' \<Longrightarrow> is_in_allowed_roots env path roots'"
  by (auto simp: is_in_allowed_roots_iff)

text \<open>What an allowed read means, case by case.\<close>

lemma check_resolved_read_allow_iff:
  "rd_behavior (check_resolved_read env p cwd additional trusted strict violation) = Allow \<longleftrightarrow>
     (if strict \<noteq> [] then is_in_allowed_roots env p strict \<or> violation = Allow
      else is_in_allowed_roots env p trusted
           \<or> (\<not> path_hits_sensitive p SENSITIVE_PATHS
              \<and> is_in_allowed_roots env p (cwd # additional @ [env_app_root env])))"
  by (auto simp: check_resolved_read_def)

lemma check_write_path_allow_iff:
  "rd_behavior (check_write_path env path cwd additional) = Allow \<longleftrightarrow>
     \<not> path_hits_sensitive (resolve_candidate env path cwd) SENSITIVE_PATHS
     \<and> is_in_allowed_roots env (resolve_candidate env path cwd) (cwd # additional)"
  by (simp add: check_write_path_def Let_def)

lemma sensitive_single_component:
  assumes "entry \<in> set paths" and "normalize_for_platform (rstrip_slash entry) = name"
    and "name \<noteq> []" and "slash \<notin> set name"
  shows "name \<in> set (fst (build_sensitive_lookups paths))"
  using assms by (induction paths) (auto simp: Let_def split: prod.splits)

text \<open>Every path with a component that is listed as a plain name is sensitive.\<close>

lemma path_hits_sensitive_component:
  assumes "name \<in> set (fst (build_sensitive_lookups paths))"
    and "name \<in> set (split_on slash (normalize_for_platform p))"
  shows "path_hits_sensitive p paths"
  using assms by (auto simp: path_hits_sensitive_def Let_def list_ex_iff split: prod.splits)

end
