(* ===== verification/Command_Parser.thy ===== *)
theory Command_Parser
  imports Perm_Types
begin

text \<open>
  \<^verbatim>\<open>src/src/iac_code/tools/bash/command_parser.py\<close>: from a syntax tree of the shell command
  to a list of simple commands. The tree itself comes from the third-party tree-sitter
  grammar, so \<open>parse_command\<close> takes the parser as an argument. A node carries what the code
  reads of it: its type, the text its byte range selects in the source (\<^verbatim>\<open>_node_text\<close>), the
  missing, error and named flags, and its children; \<^verbatim>\<open>named_children\<close> is the sublist of the
  named ones.
\<close>

datatype ts_node = Node
  (nd_type: string)
  (nd_text: string)
  (nd_missing: bool)
  (nd_has_error: bool)
  (nd_named: bool)
  (nd_children: "ts_node list")

definition named_children :: "ts_node \<Rightarrow> ts_node list" where
  "named_children n = filter nd_named (nd_children n)"

record SimpleCommand =
  sc_text :: string
  sc_argv :: argv
  sc_redirects :: "string list"
  sc_is_complex :: bool

datatype parse_kind = Simple | TooComplex | ParseError

record ParseResult =
  ps_kind :: parse_kind
  ps_commands :: "SimpleCommand list"
  ps_reason :: string

definition DANGEROUS_BUILTINS :: "string list" where
  "DANGEROUS_BUILTINS = [''eval'', ''exec'', ''source'', ''.'']"

definition TOO_COMPLEX_TYPES :: "string list" where
  "TOO_COMPLEX_TYPES = [''command_substitution'', ''process_substitution'', ''subshell'']"

definition backquote :: char where
  "backquote = CHR 0x60"

lemma named_children_size: "ch \<in> set (named_children n) \<Longrightarrow> size ch < size n"
  by (cases n) (auto simp: named_children_def dest: size_list_estimation' [where f = size and y = "size ch"])

lemma nd_children_size: "ch \<in> set (nd_children n) \<Longrightarrow> size ch < size n"
  by (cases n) (auto dest: size_list_estimation' [where f = size and y = "size ch"])

section \<open>Errors and complexity\<close>

function tree_contains_error :: "ts_node \<Rightarrow> bool" where
  "tree_contains_error node =
     (nd_type node = ''ERROR'' \<or> nd_missing node \<or> list_ex tree_contains_error (nd_children node))"
  by pat_completeness auto
termination
  by (relation "measure size") (auto intro: nd_children_size)

definition complex_here :: "ts_node \<Rightarrow> bool" where
  \<comment> \<open>the test made on a single node by every complexity check\<close>
  "complex_here node =
     (nd_type node \<in> set TOO_COMPLEX_TYPES
      \<or> (nd_type node = ''expansion'' \<and> backquote \<in> set (nd_text node)))"

function has_complex_descendant :: "ts_node \<Rightarrow> bool" where
  "has_complex_descendant node =
     (complex_here node \<or> list_ex has_complex_descendant (nd_children node))"
  by pat_completeness auto
termination
  by (relation "measure size") (auto intro: nd_children_size)

declare tree_contains_error.simps [simp del] has_complex_descendant.simps [simp del]

function scan_too_complex :: "ts_node \<Rightarrow> bool" where
  "scan_too_complex node =
     (if complex_here node then True
      else if nd_type node \<in> {''program'', ''list'', ''pipeline'', ''compound_statement''} then False
      else if nd_type node \<in> {''command'', ''declaration_command'', ''redirected_statement''} then False
      else list_ex scan_too_complex (nd_children node))"
  by pat_completeness auto
termination
  by (relation "measure size") (auto intro: nd_children_size)

declare scan_too_complex.simps [simp del]

section \<open>Argument vectors\<close>

definition strip_outer_quotes :: "string \<Rightarrow> string" where
  "strip_outer_quotes s =
     (if length s \<ge> 2 \<and> hd s = last s \<and> (hd s = CHR 0x22 \<or> hd s = CHR 0x27) then butlast (tl s) else s)"

function argv_text_from :: "ts_node \<Rightarrow> string" where
  "argv_text_from node =
     (if nd_type node = ''concatenation'' \<or> nd_type node = ''command_name'' then
        concat (map argv_text_from (named_children node))
      else if nd_type node = ''string'' \<or> nd_type node = ''raw_string'' then
        strip_outer_quotes (nd_text node)
      else if nd_type node \<in> {''word'', ''simple_expansion'', ''number'', ''declare''} then nd_text node
      else [])"
  by pat_completeness auto
termination
  by (relation "measure size") (auto intro: named_children_size)

declare argv_text_from.simps [simp del]

definition nonempty_frag :: "ts_node \<Rightarrow> string list" where
  "nonempty_frag ch = (let frag = argv_text_from ch in if frag \<noteq> [] then [frag] else [])"

definition command_argv :: "ts_node \<Rightarrow> argv" where
  "command_argv command_node =
     concat (map (\<lambda>ch.
       if nd_type ch = ''variable_assignment'' then []
       else if nd_type ch = ''command_name'' then nonempty_frag ch
       else if nd_type ch \<in> {''word'', ''string'', ''raw_string'', ''concatenation'', ''simple_expansion'', ''number''}
         then nonempty_frag ch
       else []) (named_children command_node))"

definition declaration_argv :: "ts_node \<Rightarrow> argv" where
  "declaration_argv decl_node =
     concat (map (\<lambda>ch.
       if nd_type ch = ''variable_assignment'' then [nd_text ch]
       else if nd_type ch \<in> {''declare'', ''word'', ''string'', ''raw_string'', ''concatenation'',
                             ''simple_expansion'', ''number''}
         then nonempty_frag ch
       else []) (named_children decl_node))"

definition command_invoked_name :: "ts_node \<Rightarrow> string option" where
  "command_invoked_name command_node =
     (case List.find (\<lambda>ch. nd_type ch = ''command_name'') (named_children command_node) of
        None \<Rightarrow> None
      | Some ch \<Rightarrow>
          let raw = strip (argv_text_from ch) in
          if raw = [] then None else Some (first_word raw))"

definition node_is_complex :: "ts_node \<Rightarrow> bool" where
  "node_is_complex node =
     ((nd_type node = ''command''
       \<and> (case command_invoked_name node of None \<Rightarrow> False | Some name \<Rightarrow> name \<in> set DANGEROUS_BUILTINS))
      \<or> list_ex (\<lambda>child. complex_here child \<or> has_complex_descendant child) (nd_children node))"

section \<open>Collecting the simple commands\<close>

definition build_simple_command :: "ts_node \<Rightarrow> string list \<Rightarrow> string option \<Rightarrow> bool \<Rightarrow> SimpleCommand" where
  "build_simple_command node redirects text_override is_complex =
     \<lparr>sc_text = (case text_override of None \<Rightarrow> nd_text node | Some t \<Rightarrow> t),
      sc_argv = command_argv node, sc_redirects = redirects, sc_is_complex = is_complex\<rparr>"

definition is_redirect_node :: "ts_node \<Rightarrow> bool" where
  "is_redirect_node ch = contains ''redirect'' (nd_type ch)"

definition redirect_texts :: "ts_node \<Rightarrow> string list" where
  "redirect_texts node = map nd_text (filter is_redirect_node (named_children node))"

definition redirected_body :: "ts_node \<Rightarrow> ts_node option" where
  "redirected_body node = List.find (\<lambda>ch. \<not> is_redirect_node ch) (named_children node)"

definition attach_redirects :: "SimpleCommand list \<Rightarrow> string list \<Rightarrow> SimpleCommand list" where
  "attach_redirects inner redirects =
     (if inner \<noteq> [] \<and> redirects \<noteq> [] then
        butlast inner @ [(last inner)\<lparr>sc_redirects := sc_redirects (last inner) @ redirects\<rparr>]
      else inner)"

lemma redirected_body_size: "redirected_body node = Some body \<Longrightarrow> size body < size node"
  by (auto simp: redirected_body_def find_Some_iff intro: named_children_size)

function collect_commands :: "ts_node \<Rightarrow> SimpleCommand list"
  and extract_redirected_statement :: "ts_node \<Rightarrow> SimpleCommand list" where
  "collect_commands node =
     (if nd_type node \<in> {''program'', ''list'', ''pipeline'', ''compound_statement''} then
        concat (map collect_commands (named_children node))
      else if nd_type node = ''redirected_statement'' then extract_redirected_statement node
      else if nd_type node = ''command'' then
        [build_simple_command node [] None (node_is_complex node)]
      else if nd_type node = ''declaration_command'' then
        [\<lparr>sc_text = nd_text node, sc_argv = declaration_argv node, sc_redirects = [], sc_is_complex = False\<rparr>]
      else concat (map collect_commands (named_children node)))"
| "extract_redirected_statement node =
     (let redirects = redirect_texts node in
      case redirected_body node of
        None \<Rightarrow> []
      | Some body \<Rightarrow>
          if nd_type body = ''command'' then
            [build_simple_command body redirects (Some (nd_text node)) (node_is_complex body)]
          else attach_redirects (collect_commands body) redirects)"
  by pat_completeness auto
termination
  by (relation "measure (case_sum (\<lambda>n. 2 * size n + 1) (\<lambda>n. 2 * size n))")
    (auto dest: named_children_size redirected_body_size)

declare collect_commands.simps [simp del] extract_redirected_statement.simps [simp del]

definition extract_simple_commands :: "ts_node \<Rightarrow> SimpleCommand list" where
  "extract_simple_commands root = collect_commands root"

definition parse_command :: "(string \<Rightarrow> ts_node) \<Rightarrow> string \<Rightarrow> ParseResult" where
  "parse_command ts_parse command =
     (let root = ts_parse command in
      if nd_has_error root \<or> tree_contains_error root then
        \<lparr>ps_kind = ParseError, ps_commands = [], ps_reason = ''parse error''\<rparr>
      else
        let commands = extract_simple_commands root in
        if commands = [] \<and> scan_too_complex root then
          \<lparr>ps_kind = TooComplex, ps_commands = [], ps_reason = ''unsupported shell construct''\<rparr>
        else \<lparr>ps_kind = Simple, ps_commands = commands, ps_reason = []\<rparr>)"

section \<open>Trees of plain commands\<close>

text \<open>The tree of a sequence of commands made of plain words, as concrete inputs need it.\<close>

definition leaf :: "string \<Rightarrow> string \<Rightarrow> ts_node" where
  "leaf ty s = Node ty s False False True []"

definition word_command :: "string list \<Rightarrow> ts_node" where
  "word_command ws = Node ''command'' (join_with '' '' ws) False False True
     (Node ''command_name'' (hd ws) False False True [leaf ''word'' (hd ws)] # map (leaf ''word'') (tl ws))"

definition program_of :: "string list list \<Rightarrow> ts_node" where
  "program_of cmds = Node ''program'' (join_with ''; '' (map (join_with '' '') cmds)) False False True
     (map word_command cmds)"

lemmas parse_eval = parse_command_def extract_simple_commands_def collect_commands.simps
  extract_redirected_statement.simps tree_contains_error.simps scan_too_complex.simps
  has_complex_descendant.simps argv_text_from.simps

lemma tree_contains_error_leaf [simp]: "ty \<noteq> ''ERROR'' \<Longrightarrow> tree_contains_error (leaf ty s) = False"
  by (simp add: tree_contains_error.simps leaf_def)

lemma nd_named_leaf [simp]: "nd_named (leaf ty s)"
  by (simp add: leaf_def)

lemma argv_text_word [simp]: "argv_text_from (leaf ''word'' s) = s"
  by (simp add: argv_text_from.simps leaf_def)

lemma command_argv_word_command:
  assumes "ws \<noteq> []" and "[] \<notin> set ws"
  shows "command_argv (word_command ws) = ws"
proof -
  obtain w vs where ws: "ws = w # vs" using assms by (cases ws) auto
  have "[] \<notin> set vs \<Longrightarrow> concat (map (\<lambda>ch.
       if nd_type ch = ''variable_assignment'' then []
       else if nd_type ch = ''command_name'' then nonempty_frag ch
       else if nd_type ch \<in> {''word'', ''string'', ''raw_string'', ''concatenation'', ''simple_expansion'', ''number''}
         then nonempty_frag ch
       else []) (map (leaf ''word'') vs)) = vs"
    by (induction vs) (auto simp: nonempty_frag_def leaf_def [of "''word''"] argv_text_from.simps)
  moreover have "filter nd_named (map (leaf ''word'') vs) = map (leaf ''word'') vs"
    by (induction vs) (auto simp: leaf_def)
  ultimately show ?thesis
    using assms by (auto simp: ws command_argv_def word_command_def named_children_def nonempty_frag_def
        argv_text_from.simps [of "Node _ _ _ _ _ _"])
qed

lemma node_is_complex_word_command:
  assumes "ws \<noteq> []"
  shows "node_is_complex (word_command ws) \<longleftrightarrow> strip (hd ws) \<noteq> [] \<and> first_word (strip (hd ws)) \<in> set DANGEROUS_BUILTINS"
proof -
  obtain w vs where ws: "ws = w # vs" using assms by (cases ws) auto
  have leaf: "\<not> complex_here (leaf ''word'' s)" "\<not> has_complex_descendant (leaf ''word'' s)" for s
    by (simp_all add: complex_here_def has_complex_descendant.simps leaf_def TOO_COMPLEX_TYPES_def)
  show ?thesis
    by (auto simp: ws node_is_complex_def word_command_def command_invoked_name_def named_children_def
        argv_text_from.simps [of "Node _ _ _ _ _ _"] list_ex_iff leaf has_complex_descendant.simps [of "Node _ _ _ _ _ _"]
        complex_here_def [of "Node _ _ _ _ _ _"] TOO_COMPLEX_TYPES_def Let_def leaf_def [of "''word''" w])
qed

text \<open>The parser recovers the words of a sequence of plain commands.\<close>

lemma parse_program_of:
  assumes "cmds \<noteq> []" and "\<forall>ws \<in> set cmds. ws \<noteq> [] \<and> [] \<notin> set ws"
  shows "parse_command (\<lambda>_. program_of cmds) text =
     \<lparr>ps_kind = Simple,
      ps_commands = map (\<lambda>ws. \<lparr>sc_text = join_with '' '' ws, sc_argv = ws, sc_redirects = [],
        sc_is_complex = (strip (hd ws) \<noteq> [] \<and> first_word (strip (hd ws)) \<in> set DANGEROUS_BUILTINS)\<rparr>) cmds,
      ps_reason = []\<rparr>"
proof -
  let ?sc = "\<lambda>ws. \<lparr>sc_text = join_with '' '' ws, sc_argv = ws, sc_redirects = [],
        sc_is_complex = (strip (hd ws) \<noteq> [] \<and> first_word (strip (hd ws)) \<in> set DANGEROUS_BUILTINS)\<rparr>"
  have one: "collect_commands (word_command ws) = [?sc ws]" if "ws \<in> set cmds" for ws
    using that assms
    by (simp add: collect_commands.simps [of "word_command ws"] build_simple_command_def
        command_argv_word_command node_is_complex_word_command) (simp add: word_command_def)
  have named: "filter nd_named (map word_command cmds) = map word_command cmds"
    by (induction cmds) (auto simp: word_command_def)
  have "concat (map collect_commands (map word_command cmds)) = map ?sc cmds"
    using one by (induction cmds) auto
  then have collect: "collect_commands (program_of cmds) = map ?sc cmds"
    by (simp add: collect_commands.simps [of "program_of cmds"])
       (simp add: program_of_def named_children_def named)
  have "\<not> tree_contains_error (word_command ws)" for ws
    by (auto simp: tree_contains_error.simps [of "Node _ _ _ _ _ _"] word_command_def list_ex_iff)
  then have "\<not> tree_contains_error (program_of cmds)"
    by (auto simp: tree_contains_error.simps [of "Node _ _ _ _ _ _"] program_of_def list_ex_iff)
  moreover have "\<not> nd_has_error (program_of cmds)" by (simp add: program_of_def)
  ultimately show ?thesis
    using assms by (simp add: parse_command_def extract_simple_commands_def collect)
qed

end
