(* ===== verification/Sed_Script.thy ===== *)
theory Sed_Script
  imports Prelude
begin

text \<open>
  The \<^verbatim>\<open>sed\<close> script scanner of \<^verbatim>\<open>src/src/iac_code/tools/bash/argv_safety.py\<close> (from
  \<^verbatim>\<open>_sed_script_executes_shell\<close> to the end of the file): the index-based skip functions,
  the two command loops that look for dangerous commands and for files a script reads, and
  the termination argument of both loops. An index is a \<open>nat\<close> into the script; a Python
  \<^verbatim>\<open>while i < len(script) and P(script[i]): i += 1\<close> is \<open>skip_while\<close>.
\<close>

section \<open>Index loops\<close>

function skip_while :: "(char \<Rightarrow> bool) \<Rightarrow> string \<Rightarrow> nat \<Rightarrow> nat" where
  "skip_while P s i = (if i < length s \<and> P (s ! i) then skip_while P s (Suc i) else i)"
  by pat_completeness auto
termination
  by (relation "measure (\<lambda>(P, s, i). length s - i)") auto

declare skip_while.simps [simp del]

lemma skip_while_ge [advance, simp]: "i \<le> skip_while P s i"
proof (induction P s i rule: skip_while.induct)
  case (1 P s i)
  then show ?case by (subst skip_while.simps) auto
qed

lemma skip_while_le: "i \<le> length s \<Longrightarrow> skip_while P s i \<le> length s"
proof (induction P s i rule: skip_while.induct)
  case (1 P s i)
  then show ?case by (subst skip_while.simps) auto
qed

lemma skip_while_gt: "i < length s \<Longrightarrow> P (s ! i) \<Longrightarrow> i < skip_while P s i"
  by (subst skip_while.simps) (auto simp: Suc_le_lessD)

lemma skip_while_stop:
  "skip_while P s i < length s \<Longrightarrow> \<not> P (s ! skip_while P s i)"
proof (induction P s i rule: skip_while.induct)
  case (1 P s i)
  show ?case
  proof (cases "i < length s \<and> P (s ! i)")
    case True
    with 1 show ?thesis by (simp add: skip_while.simps [of P s i])
  next
    case False
    with "1.prems" show ?thesis by (simp add: skip_while.simps [of P s i])
  qed
qed

text \<open>Scanning from the end of a known prefix is \<open>takeWhile\<close> on what follows.\<close>

lemma skip_while_append:
  "skip_while P (p @ q) (length p) = length p + length (takeWhile P q)"
proof (induction q arbitrary: p)
  case Nil
  then show ?case by (simp add: skip_while.simps)
next
  case (Cons c q)
  have "skip_while P ((p @ [c]) @ q) (length (p @ [c])) = length (p @ [c]) + length (takeWhile P q)"
    by (rule Cons.IH)
  then show ?case by (subst skip_while.simps) simp
qed

function skip_to_unescaped_from :: "bool \<Rightarrow> string \<Rightarrow> char \<Rightarrow> nat \<Rightarrow> nat option" where
  "skip_to_unescaped_from escaped s d i =
     (if i < length s then
        if escaped then skip_to_unescaped_from False s d (Suc i)
        else if s ! i = CHR 0x5C then skip_to_unescaped_from True s d (Suc i)
        else if s ! i = d then Some i
        else skip_to_unescaped_from False s d (Suc i)
      else None)"
  by pat_completeness auto
termination
  by (relation "measure (\<lambda>(e, s, d, i). length s - i)") auto

declare skip_to_unescaped_from.simps [simp del]

definition skip_to_unescaped_delimiter :: "string \<Rightarrow> nat \<Rightarrow> char \<Rightarrow> nat option" where
  "skip_to_unescaped_delimiter s start d = skip_to_unescaped_from False s d start"

lemma skip_to_unescaped_from_SomeD:
  "skip_to_unescaped_from e s d i = Some j \<Longrightarrow> i \<le> j \<and> j < length s \<and> s ! j = d"
proof (induction e s d i rule: skip_to_unescaped_from.induct)
  case (1 e s d i)
  from "1.prems" have i: "i < length s"
    by (subst (asm) skip_to_unescaped_from.simps) (simp split: if_splits)
  from "1.prems" i show ?case
    by (subst (asm) skip_to_unescaped_from.simps) (auto split: if_splits dest: "1.IH")
qed

lemma skip_to_unescaped_delimiter_SomeD:
  "skip_to_unescaped_delimiter s i d = Some j \<Longrightarrow> i \<le> j \<and> j < length s \<and> s ! j = d"
  unfolding skip_to_unescaped_delimiter_def by (rule skip_to_unescaped_from_SomeD)

lemma skip_to_unescaped_delimiter_append:
  "d \<noteq> CHR 0x5C \<Longrightarrow> d \<notin> set w \<Longrightarrow> CHR 0x5C \<notin> set w \<Longrightarrow>
   skip_to_unescaped_delimiter (p @ w @ d # q) (length p) d = Some (length p + length w)"
  unfolding skip_to_unescaped_delimiter_def
proof (induction w arbitrary: p)
  case Nil
  then show ?case by (subst skip_to_unescaped_from.simps) simp
next
  case (Cons c w)
  from Cons.prems have "skip_to_unescaped_from False ((p @ [c]) @ w @ d # q) d (length (p @ [c]))
      = Some (length (p @ [c]) + length w)"
    by (intro Cons.IH) auto
  with Cons.prems show ?case by (subst skip_to_unescaped_from.simps) auto
qed

section \<open>Character tables\<close>

definition SED_HORIZONTAL_SPACE :: string where
  "SED_HORIZONTAL_SPACE = [CHR 0x20, CHR 0x09, CHR 0x0D, CHR 0x0C, CHR 0x0B]"

definition SED_COMMAND_BOUNDARIES :: string where
  "SED_COMMAND_BOUNDARIES = [CHR '';'', CHR 0x0A, CHR ''{'', CHR ''}'']"

definition SED_ADDRESS_MODIFIERS :: string where
  "SED_ADDRESS_MODIFIERS = ''IM''"

definition SED_BOUNDARY_ARGUMENT_COMMANDS :: string where
  "SED_BOUNDARY_ARGUMENT_COMMANDS = '':btTqQl''"

definition SED_READ_FILE_COMMANDS :: string where
  "SED_READ_FILE_COMMANDS = ''rR''"

abbreviation hspace :: "char \<Rightarrow> bool" where
  "hspace c \<equiv> c \<in> set SED_HORIZONTAL_SPACE"

abbreviation cboundary :: "char \<Rightarrow> bool" where
  "cboundary c \<equiv> c \<in> set SED_COMMAND_BOUNDARIES"

lemmas sed_tables [py_str] =
  SED_HORIZONTAL_SPACE_def SED_COMMAND_BOUNDARIES_def SED_ADDRESS_MODIFIERS_def
  SED_BOUNDARY_ARGUMENT_COMMANDS_def SED_READ_FILE_COMMANDS_def

section \<open>Skip functions\<close>

definition sed_next_command_start :: "string \<Rightarrow> nat \<Rightarrow> nat" where
  "sed_next_command_start script start = skip_while (\<lambda>c. hspace c \<or> cboundary c) script start"

definition sed_skip_horizontal_space :: "string \<Rightarrow> nat \<Rightarrow> nat" where
  "sed_skip_horizontal_space script start = skip_while hspace script start"

definition sed_skip_address_modifiers :: "string \<Rightarrow> nat \<Rightarrow> nat" where
  "sed_skip_address_modifiers script start = skip_while (\<lambda>c. c \<in> set SED_ADDRESS_MODIFIERS) script start"

definition sed_skip_address :: "string \<Rightarrow> nat \<Rightarrow> nat option" where
  "sed_skip_address script start =
     (if start \<ge> length script then None
      else
        let char = script ! start in
        if py_isdigit char then
          let i = skip_while py_isdigit script start in
          if i < length script \<and> script ! i = CHR ''~'' then
            let step_start = Suc i; j = skip_while py_isdigit script step_start in
            if j = step_start then Some (step_start - 1) else Some j
          else Some i
        else if char = CHR ''$'' then Some (start + 1)
        else if char = CHR ''+'' \<or> char = CHR ''~'' then
          let i = start + 1 in
          if i \<ge> length script \<or> \<not> py_isdigit (script ! i) then None
          else Some (skip_while py_isdigit script i)
        else if char = CHR ''/'' then
          (case skip_to_unescaped_delimiter script (start + 1) char of
             None \<Rightarrow> None
           | Some e \<Rightarrow> Some (sed_skip_address_modifiers script (e + 1)))
        else if char = CHR 0x5C \<and> start + 1 < length script \<and> script ! (start + 1) \<noteq> newline then
          let delimiter = script ! (start + 1) in
          if delimiter = CHR 0x5C then None
          else (case skip_to_unescaped_delimiter script (start + 2) delimiter of
                  None \<Rightarrow> None
                | Some e \<Rightarrow> Some (sed_skip_address_modifiers script (e + 1)))
        else None)"

text \<open>The optional second address and the optional negation, the two inner parts of a prefix.\<close>

definition sed_skip_second_address :: "string \<Rightarrow> nat \<Rightarrow> nat" where
  "sed_skip_second_address script i =
     (if i < length script \<and> script ! i = CHR '','' then
        let second_start = sed_skip_horizontal_space script (i + 1) in
        case sed_skip_address script second_start of
          None \<Rightarrow> sed_skip_horizontal_space script second_start
        | Some e \<Rightarrow> sed_skip_horizontal_space script (if e = 0 then second_start else e)
      else i)"

definition sed_skip_negation :: "string \<Rightarrow> nat \<Rightarrow> nat" where
  "sed_skip_negation script i =
     (if i < length script \<and> script ! i = CHR ''!'' then sed_skip_horizontal_space script (i + 1)
      else i)"

definition sed_skip_command_prefix :: "string \<Rightarrow> nat \<Rightarrow> nat" where
  "sed_skip_command_prefix script start =
     (let i = sed_skip_horizontal_space script start in
      case sed_skip_address script i of
        Some first_address_end \<Rightarrow>
          sed_skip_negation script
            (sed_skip_second_address script (sed_skip_horizontal_space script first_address_end))
      | None \<Rightarrow> sed_skip_negation script i)"

definition sed_skip_to_command_boundary :: "string \<Rightarrow> nat \<Rightarrow> nat" where
  "sed_skip_to_command_boundary script start = skip_while (\<lambda>c. \<not> cboundary c) script start"

definition sed_find_line_end :: "string \<Rightarrow> nat \<Rightarrow> nat" where
  "sed_find_line_end script start =
     (if start \<le> length script then skip_while not_newline script start else length script)"

definition sed_after_line_end :: "string \<Rightarrow> nat \<Rightarrow> nat" where
  "sed_after_line_end script line_end =
     (if line_end < length script \<and> script ! line_end = newline then line_end + 1 else line_end)"

definition sed_skip_to_line_end :: "string \<Rightarrow> nat \<Rightarrow> nat" where
  "sed_skip_to_line_end script start = sed_after_line_end script (sed_find_line_end script start)"

definition slice :: "string \<Rightarrow> nat \<Rightarrow> nat \<Rightarrow> string" where
  "slice s i j = take (j - i) (drop i s)"

definition sed_only_horizontal_space :: "string \<Rightarrow> nat \<Rightarrow> nat \<Rightarrow> bool" where
  "sed_only_horizontal_space script start end' = (\<forall>c \<in> set (slice script start end'). hspace c)"

fun trailing_backslashes :: "string \<Rightarrow> nat \<Rightarrow> nat \<Rightarrow> nat" where
  \<comment> \<open>the second argument is the lower bound, the third one past the index\<close>
  "trailing_backslashes s start 0 = 0"
| "trailing_backslashes s start (Suc i) =
     (if start \<le> i \<and> s ! i = CHR 0x5C then Suc (trailing_backslashes s start i) else 0)"

definition sed_line_ends_with_unescaped_backslash :: "string \<Rightarrow> nat \<Rightarrow> nat \<Rightarrow> bool" where
  "sed_line_ends_with_unescaped_backslash script start end' =
     (trailing_backslashes script start end' mod 2 = 1)"

function sed_scan_flags :: "string \<Rightarrow> char \<Rightarrow> nat \<Rightarrow> bool \<times> nat" where
  "sed_scan_flags script flag i =
     (if i < length script \<and> \<not> cboundary (script ! i) \<and> \<not> hspace (script ! i) then
        if script ! i = flag then (True, i + 1) else sed_scan_flags script flag (Suc i)
      else (False, sed_skip_to_command_boundary script i))"
  by pat_completeness auto
termination
  by (relation "measure (\<lambda>(s, f, i). length s - i)") auto

declare sed_scan_flags.simps [simp del]

definition sed_substitute_has_flag_at :: "string \<Rightarrow> nat \<Rightarrow> char \<Rightarrow> bool \<times> nat" where
  "sed_substitute_has_flag_at script command_index flag =
     (if command_index + 1 \<ge> length script then (False, command_index + 1)
      else
        let delimiter = script ! (command_index + 1) in
        if delimiter = CHR 0x5C \<or> delimiter = newline then (False, command_index + 1)
        else (case skip_to_unescaped_delimiter script (command_index + 2) delimiter of
            None \<Rightarrow> (False, sed_skip_to_command_boundary script (command_index + 1))
          | Some pattern_end \<Rightarrow>
              (case skip_to_unescaped_delimiter script (pattern_end + 1) delimiter of
                 None \<Rightarrow> (False, sed_skip_to_command_boundary script (pattern_end + 1))
               | Some replacement_end \<Rightarrow> sed_scan_flags script flag (replacement_end + 1))))"

definition sed_skip_substitute_command :: "string \<Rightarrow> nat \<Rightarrow> nat" where
  "sed_skip_substitute_command script command_index =
     snd (sed_substitute_has_flag_at script command_index (CHR 0x00))"

definition sed_read_file_argument :: "string \<Rightarrow> nat \<Rightarrow> string \<times> nat" where
  "sed_read_file_argument script command_index =
     (let start = sed_skip_horizontal_space script (command_index + 1);
          line_end = sed_find_line_end script start
      in (strip (slice script start line_end), sed_after_line_end script line_end))"

lemma sed_find_line_end_ge: "i \<le> length s \<Longrightarrow> i \<le> sed_find_line_end s i"
  by (simp add: sed_find_line_end_def)

lemma sed_find_line_end_le: "sed_find_line_end s i \<le> length s"
  by (simp add: sed_find_line_end_def skip_while_le)

lemma sed_after_line_end_ge [simp]: "e \<le> sed_after_line_end s e"
  by (simp add: sed_after_line_end_def)

lemma sed_skip_to_line_end_ge: "i \<le> length s \<Longrightarrow> i \<le> sed_skip_to_line_end s i"
  unfolding sed_skip_to_line_end_def
  using sed_find_line_end_ge sed_after_line_end_ge order_trans by blast

text \<open>Going to the next line always makes progress inside the script.\<close>

lemma sed_skip_to_line_end_gt:
  assumes "i < length s"
  shows "i < sed_skip_to_line_end s i"
proof (cases "s ! i = newline")
  case True
  then have "skip_while not_newline s i = i"
    by (subst skip_while.simps) (simp add: not_newline_def)
  with assms True show ?thesis
    by (simp add: sed_skip_to_line_end_def sed_find_line_end_def sed_after_line_end_def)
next
  case False
  then have "i < sed_find_line_end s i"
    using assms by (auto simp: sed_find_line_end_def not_newline_def intro: skip_while_gt)
  then show ?thesis
    unfolding sed_skip_to_line_end_def by (meson less_le_trans sed_after_line_end_ge)
qed

function sed_skip_literal_lines :: "string \<Rightarrow> nat \<Rightarrow> nat" where
  "sed_skip_literal_lines script i =
     (if i < length script then
        let line_end = sed_find_line_end script i;
            continues = sed_line_ends_with_unescaped_backslash script i line_end;
            i' = sed_after_line_end script line_end
        in if continues then sed_skip_literal_lines script i' else i'
      else i)"
  by pat_completeness auto
termination
proof (relation "measure (\<lambda>(s, i). length s - i)", goal_cases)
  case 1
  then show ?case by simp
next
  case (2 script i line_end continues i')
  then have "i < i'"
    using sed_skip_to_line_end_gt [of i script] by (simp add: sed_skip_to_line_end_def)
  with 2 show ?case by auto
qed

declare sed_skip_literal_lines.simps [simp del]

definition sed_skip_text_command :: "string \<Rightarrow> nat \<Rightarrow> nat" where
  "sed_skip_text_command script command_index =
     (let i = skip_while hspace script (command_index + 1);
          line_end = sed_find_line_end script i;
          uses_literal_lines = (i < length script \<and> script ! i = CHR 0x5C
             \<and> sed_only_horizontal_space script (i + 1) line_end);
          i = sed_after_line_end script line_end
      in if \<not> uses_literal_lines then i else sed_skip_literal_lines script i)"

definition sed_skip_delimited_command :: "string \<Rightarrow> nat \<Rightarrow> nat" where
  "sed_skip_delimited_command script command_index =
     (if command_index + 1 \<ge> length script then command_index + 1
      else
        let delimiter = script ! (command_index + 1) in
        if delimiter = CHR 0x5C \<or> delimiter = newline then command_index + 1
        else (case skip_to_unescaped_delimiter script (command_index + 2) delimiter of
            None \<Rightarrow> sed_skip_to_command_boundary script (command_index + 1)
          | Some first_end \<Rightarrow>
              (case skip_to_unescaped_delimiter script (first_end + 1) delimiter of
                 None \<Rightarrow> sed_skip_to_command_boundary script (first_end + 1)
               | Some second_end \<Rightarrow> second_end + 1)))"

section \<open>Progress of the skip functions\<close>

text \<open>
  Every skip function returns an index that is not before the one it was given, and the
  functions that consume a command return one strictly after it: this is what makes the two
  command loops below terminate.
\<close>

lemma sed_skip_horizontal_space_ge [advance, simp]: "i \<le> sed_skip_horizontal_space s i"
  by (simp add: sed_skip_horizontal_space_def)

lemma sed_next_command_start_ge [advance, simp]: "i \<le> sed_next_command_start s i"
  by (simp add: sed_next_command_start_def)

lemma sed_skip_to_command_boundary_ge [advance, simp]: "i \<le> sed_skip_to_command_boundary s i"
  by (simp add: sed_skip_to_command_boundary_def)

lemma sed_skip_address_modifiers_ge [advance, simp]: "i \<le> sed_skip_address_modifiers s i"
  by (simp add: sed_skip_address_modifiers_def)

lemma delimiter_modifiers_gt:
  "skip_to_unescaped_delimiter s i d = Some e \<Longrightarrow> i < sed_skip_address_modifiers s (Suc e)"
  using skip_to_unescaped_delimiter_SomeD [of s i d e] sed_skip_address_modifiers_ge [of "Suc e" s]
  by linarith

lemma sed_skip_address_gt:
  assumes "sed_skip_address s i = Some j"
  shows "i < j"
proof -
  have i: "i < length s" using assms by (simp add: sed_skip_address_def split: if_splits)
  have after: "i < skip_while P s k" if "i < k" for P k
    using skip_while_ge [of k P s] that by linarith
  show ?thesis
  proof (cases "py_isdigit (s ! i)")
    case True
    let ?e = "skip_while py_isdigit s i"
    have "i < ?e" using i True by (rule skip_while_gt)
    moreover have "j = ?e \<or> j = skip_while py_isdigit s (Suc ?e)"
      using assms i True by (simp add: sed_skip_address_def Let_def split: if_splits)
    ultimately show ?thesis using after [of "Suc ?e"] by auto
  next
    case False
    then show ?thesis using assms i
      by (simp add: sed_skip_address_def Let_def after split: if_splits option.splits)
        (auto intro: after dest!: delimiter_modifiers_gt)
  qed
qed

lemma sed_skip_horizontal_space_trans: "k \<le> j \<Longrightarrow> k \<le> sed_skip_horizontal_space s j"
  using sed_skip_horizontal_space_ge [of j s] by linarith

lemma sed_skip_negation_ge: "k \<le> i \<Longrightarrow> k \<le> sed_skip_negation s i"
  by (auto simp: sed_skip_negation_def intro: sed_skip_horizontal_space_trans)

lemma sed_skip_second_address_ge: "i \<le> sed_skip_second_address s i"
proof -
  have "i \<le> sed_skip_horizontal_space s (Suc i)" by (rule sed_skip_horizontal_space_trans) simp
  then show ?thesis
    by (auto simp: sed_skip_second_address_def Let_def split: option.splits
        intro!: sed_skip_horizontal_space_trans dest!: sed_skip_address_gt)
qed

lemma sed_skip_command_prefix_ge [advance]: "i \<le> sed_skip_command_prefix s i"
proof -
  let ?i = "sed_skip_horizontal_space s i"
  have "?i \<le> sed_skip_second_address s (sed_skip_horizontal_space s e)"
    if "sed_skip_address s ?i = Some e" for e
    using sed_skip_address_gt [OF that] sed_skip_horizontal_space_ge [of e s]
      sed_skip_second_address_ge [of "sed_skip_horizontal_space s e" s] by linarith
  then have "?i \<le> sed_skip_command_prefix s i"
    by (auto simp: sed_skip_command_prefix_def Let_def split: option.splits intro!: sed_skip_negation_ge)
  then show ?thesis using sed_skip_horizontal_space_ge [of i s] by linarith
qed

lemma sed_scan_flags_ge: "i \<le> snd (sed_scan_flags s f i)"
proof (induction s f i rule: sed_scan_flags.induct)
  case (1 s f i)
  show ?case
  proof (cases "i < length s \<and> \<not> cboundary (s ! i) \<and> \<not> hspace (s ! i) \<and> s ! i \<noteq> f")
    case True
    then show ?thesis using "1.IH" by (simp add: sed_scan_flags.simps [of s f i])
  next
    case False
    then show ?thesis by (auto simp: sed_scan_flags.simps [of s f i])
  qed
qed

lemma sed_scan_flags_trans: "i < j \<Longrightarrow> i < snd (sed_scan_flags s f j)"
  using sed_scan_flags_ge [of j s f] by linarith

lemma sed_skip_to_command_boundary_trans: "i < j \<Longrightarrow> i < sed_skip_to_command_boundary s j"
  using sed_skip_to_command_boundary_ge [of j s] by linarith

lemma delimiter_trans: "skip_to_unescaped_delimiter s k d = Some e \<Longrightarrow> i < k \<Longrightarrow> i < Suc e"
  using skip_to_unescaped_delimiter_SomeD [of s k d e] by linarith

lemma sed_substitute_has_flag_at_gt [advance]: "i < snd (sed_substitute_has_flag_at s i f)"
proof -
  have "i < Suc (Suc i)" by simp
  note first = delimiter_trans [OF _ this]
  show ?thesis
    unfolding sed_substitute_has_flag_at_def Let_def
    by (simp add: sed_skip_to_command_boundary_trans sed_scan_flags_trans split: option.split)
      (meson delimiter_trans first less_SucI sed_scan_flags_trans sed_skip_to_command_boundary_trans)
qed

lemma sed_skip_substitute_command_gt [advance]: "i < sed_skip_substitute_command s i"
  unfolding sed_skip_substitute_command_def by (rule sed_substitute_has_flag_at_gt)

lemma sed_skip_delimited_command_gt [advance]: "i < sed_skip_delimited_command s i"
proof -
  have "i < Suc (Suc i)" by simp
  note first = delimiter_trans [OF _ this]
  show ?thesis
    unfolding sed_skip_delimited_command_def Let_def
    by (simp add: sed_skip_to_command_boundary_trans split: option.split)
      (meson delimiter_trans first less_SucI sed_skip_to_command_boundary_trans)
qed

lemma sed_skip_literal_lines_ge: "i \<le> sed_skip_literal_lines s i"
proof (induction s i rule: sed_skip_literal_lines.induct)
  case (1 s i)
  show ?case
  proof (cases "i < length s")
    case True
    then have "i < sed_after_line_end s (sed_find_line_end s i)"
      using sed_skip_to_line_end_gt by (simp add: sed_skip_to_line_end_def)
    with True show ?thesis using "1.IH" [OF True refl refl refl]
      by (subst sed_skip_literal_lines.simps) (auto simp: Let_def)
  next
    case False
    then show ?thesis by (subst sed_skip_literal_lines.simps) simp
  qed
qed

lemma line_after_space_gt:
  assumes "i < length s"
  shows "i < sed_after_line_end s (sed_find_line_end s (skip_while hspace s (Suc i)))"
proof -
  have "Suc i \<le> skip_while hspace s (Suc i)" by simp
  also have "\<dots> \<le> sed_find_line_end s (skip_while hspace s (Suc i))"
    using assms by (intro sed_find_line_end_ge skip_while_le) simp
  also have "\<dots> \<le> sed_after_line_end s (sed_find_line_end s (skip_while hspace s (Suc i)))" by simp
  finally show ?thesis by simp
qed

lemma sed_skip_text_command_gt [advance]: "i < length s \<Longrightarrow> i < sed_skip_text_command s i"
  using line_after_space_gt [of i s]
  by (auto simp: sed_skip_text_command_def Let_def intro: less_le_trans sed_skip_literal_lines_ge)

lemma sed_read_file_argument_gt [advance]: "i < length s \<Longrightarrow> i < snd (sed_read_file_argument s i)"
  using line_after_space_gt [of i s]
  by (simp add: sed_read_file_argument_def sed_skip_horizontal_space_def Let_def)

section \<open>The command loops\<close>

function sed_script_has_danger_from :: "string \<Rightarrow> char \<Rightarrow> nat \<Rightarrow> bool" where
  "sed_script_has_danger_from script danger i =
     (if i < length script then
        let i = sed_next_command_start script i in
        if i \<ge> length script then False
        else
          let command_index = sed_skip_command_prefix script i in
          if command_index \<ge> length script then False
          else
            let command = script ! command_index in
            if cboundary command then
              sed_script_has_danger_from script danger (command_index + 1)
            else if command = CHR ''#'' then
              sed_script_has_danger_from script danger (sed_skip_to_line_end script command_index)
            else if command = CHR ''e'' then
              (if danger = CHR ''e'' then True
               else sed_script_has_danger_from script danger
                      (sed_skip_to_command_boundary script (command_index + 1)))
            else if command = CHR ''w'' \<or> command = CHR ''W'' then
              (if danger = CHR ''w'' then True
               else sed_script_has_danger_from script danger
                      (sed_skip_to_command_boundary script (command_index + 1)))
            else if command \<in> set SED_READ_FILE_COMMANDS then
              sed_script_has_danger_from script danger (sed_skip_to_line_end script (command_index + 1))
            else if command = CHR ''s'' then
              (if fst (sed_substitute_has_flag_at script command_index danger) then True
               else sed_script_has_danger_from script danger
                      (snd (sed_substitute_has_flag_at script command_index danger)))
            else if command = CHR ''a'' \<or> command = CHR ''i'' \<or> command = CHR ''c'' then
              sed_script_has_danger_from script danger (sed_skip_text_command script command_index)
            else if command = CHR ''y'' then
              sed_script_has_danger_from script danger (sed_skip_delimited_command script command_index)
            else if command \<in> set SED_BOUNDARY_ARGUMENT_COMMANDS then
              sed_script_has_danger_from script danger
                (sed_skip_to_command_boundary script (command_index + 1))
            else sed_script_has_danger_from script danger (command_index + 1)
      else False)"
  by pat_completeness auto

text \<open>The index of the next command is at least the index the round started from.\<close>

lemma command_index_ge:
  "i \<le> sed_skip_command_prefix s (sed_next_command_start s i)"
  using sed_next_command_start_ge [of i s] sed_skip_command_prefix_ge [of "sed_next_command_start s i" s]
  by linarith

lemma boundary_round: "k < sed_skip_to_command_boundary s (Suc k)"
  using sed_skip_to_command_boundary_ge [of "Suc k" s] by linarith

lemma line_round: "k < length s \<Longrightarrow> k < sed_skip_to_line_end s (Suc k)"
  using sed_skip_to_line_end_ge [of "Suc k" s] by linarith

lemmas rounds = boundary_round line_round sed_skip_to_line_end_gt sed_substitute_has_flag_at_gt
  sed_skip_text_command_gt sed_skip_delimited_command_gt sed_skip_substitute_command_gt
  sed_read_file_argument_gt

lemmas rounds_from = rounds [THEN le_less_trans [OF command_index_ge]]
  le_imp_less_Suc [OF command_index_ge]

termination sed_script_has_danger_from
  by (relation "measure (\<lambda>(s, d, i). length s - i)")
    (simp_all add: not_le diff_less_mono2 rounds_from)

declare sed_script_has_danger_from.simps [simp del]

definition sed_script_has_danger :: "string \<Rightarrow> char \<Rightarrow> bool" where
  "sed_script_has_danger script danger = sed_script_has_danger_from script danger 0"

definition sed_script_executes_shell :: "string \<Rightarrow> bool" where
  "sed_script_executes_shell script = sed_script_has_danger script (CHR ''e'')"

definition sed_script_writes_file :: "string \<Rightarrow> bool" where
  "sed_script_writes_file script = sed_script_has_danger script (CHR ''w'')"

function sed_script_read_paths_from :: "string \<Rightarrow> nat \<Rightarrow> string list" where
  "sed_script_read_paths_from script i =
     (if i < length script then
        let i = sed_next_command_start script i in
        if i \<ge> length script then []
        else
          let command_index = sed_skip_command_prefix script i in
          if command_index \<ge> length script then []
          else
            let command = script ! command_index in
            if cboundary command then sed_script_read_paths_from script (command_index + 1)
            else if command = CHR ''#'' then
              sed_script_read_paths_from script (sed_skip_to_line_end script command_index)
            else if command \<in> set SED_READ_FILE_COMMANDS then
              (let read_path = fst (sed_read_file_argument script command_index) in
               (if read_path \<noteq> [] \<and> read_path \<noteq> ''-'' then [read_path] else []))
              @ sed_script_read_paths_from script (snd (sed_read_file_argument script command_index))
            else if command = CHR ''e'' \<or> command = CHR ''w'' \<or> command = CHR ''W'' then
              sed_script_read_paths_from script (sed_skip_to_command_boundary script (command_index + 1))
            else if command = CHR ''s'' then
              sed_script_read_paths_from script (sed_skip_substitute_command script command_index)
            else if command = CHR ''a'' \<or> command = CHR ''i'' \<or> command = CHR ''c'' then
              sed_script_read_paths_from script (sed_skip_text_command script command_index)
            else if command = CHR ''y'' then
              sed_script_read_paths_from script (sed_skip_delimited_command script command_index)
            else if command \<in> set SED_BOUNDARY_ARGUMENT_COMMANDS then
              sed_script_read_paths_from script (sed_skip_to_command_boundary script (command_index + 1))
            else sed_script_read_paths_from script (command_index + 1)
      else [])"
  by pat_completeness auto

termination sed_script_read_paths_from
  by (relation "measure (\<lambda>(s, i). length s - i)")
    (simp_all add: not_le diff_less_mono2 rounds_from)

declare sed_script_read_paths_from.simps [simp del]

definition sed_script_read_paths :: "string \<Rightarrow> string list" where
  "sed_script_read_paths script = sed_script_read_paths_from script 0"

end
