(* ===== verification/Py_Regex.thy ===== *)
theory Py_Regex
  imports Prelude
begin

text \<open>
  The part of Python's \<^verbatim>\<open>re\<close> module that the sources use: character classes, sequence,
  ordered alternative, greedy repetition, groups, \<^verbatim>\<open>$\<close> and \<^verbatim>\<open>\b\<close>, with the backtracking
  semantics of the module. A run of a pattern is the list of all the ways it can match
  from a position, in the order in which the backtracking matcher tries them; \<^verbatim>\<open>match\<close>,
  \<^verbatim>\<open>fullmatch\<close> and \<^verbatim>\<open>search\<close> take the first one that fits. Every pattern of the sources is
  then a value of \<open>rx\<close> that can be read against the original.
\<close>

datatype rx =
    RClass "char \<Rightarrow> bool"
  | REps
  | RSeq rx rx
  | RAlt rx rx
  | RStar rx
  | RGroup nat rx
  | REnd
  | RBoundary

text \<open>
  A matcher state: the text already consumed (last character first), the text still to be
  read, and the groups captured so far (latest first).
\<close>

type_synonym mstate = "string \<times> string \<times> (nat \<times> string) list"

definition ms_rest :: "mstate \<Rightarrow> string" where
  "ms_rest s = fst (snd s)"

fun at_boundary :: "string \<Rightarrow> string \<Rightarrow> bool" where
  "at_boundary before after =
     ((before \<noteq> [] \<and> is_word (hd before)) \<noteq> (after \<noteq> [] \<and> is_word (hd after)))"

text \<open>
  Greedy repetition: one more iteration first, stopping here last. An iteration that
  consumes nothing is not repeated, so the length of the rest bounds the iterations.
\<close>

primrec star_run :: "nat \<Rightarrow> (mstate \<Rightarrow> mstate list) \<Rightarrow> mstate \<Rightarrow> mstate list" where
  "star_run 0 f s = [s]"
| "star_run (Suc n) f s =
     concat (map (star_run n f) (filter (\<lambda>s'. length (ms_rest s') < length (ms_rest s)) (f s))) @ [s]"

primrec rx_run :: "rx \<Rightarrow> mstate \<Rightarrow> mstate list" where
  "rx_run (RClass P) = (\<lambda>(before, after, gs).
     case after of [] \<Rightarrow> [] | c # cs \<Rightarrow> if P c then [(c # before, cs, gs)] else [])"
| "rx_run REps = (\<lambda>s. [s])"
| "rx_run (RSeq r q) = (\<lambda>s. concat (map (rx_run q) (rx_run r s)))"
| "rx_run (RAlt r q) = (\<lambda>s. rx_run r s @ rx_run q s)"
| "rx_run (RStar r) = (\<lambda>s. star_run (length (ms_rest s)) (rx_run r) s)"
| "rx_run (RGroup k r) = (\<lambda>(before, after, gs).
     map (\<lambda>(before', after', gs').
            (before', after', (k, take (length after - length after') after) # gs'))
       (rx_run r (before, after, gs)))"
| "rx_run REnd = (\<lambda>(before, after, gs).
     if after = [] \<or> after = [newline] then [(before, after, gs)] else [])"
| "rx_run RBoundary = (\<lambda>(before, after, gs).
     if at_boundary before after then [(before, after, gs)] else [])"

text \<open>\<^verbatim>\<open>re.match\<close>, \<^verbatim>\<open>re.fullmatch\<close> and \<^verbatim>\<open>re.search\<close>: the first run that fits.\<close>

definition rx_match :: "rx \<Rightarrow> string \<Rightarrow> mstate option" where
  "rx_match r s = (case rx_run r ([], s, []) of [] \<Rightarrow> None | m # _ \<Rightarrow> Some m)"

definition rx_fullmatch :: "rx \<Rightarrow> string \<Rightarrow> mstate option" where
  "rx_fullmatch r s = List.find (\<lambda>m. ms_rest m = []) (rx_run r ([], s, []))"

fun rx_search_from :: "rx \<Rightarrow> string \<Rightarrow> string \<Rightarrow> bool" where
  "rx_search_from r before [] = (rx_run r (before, [], []) \<noteq> [])"
| "rx_search_from r before (c # cs) =
     (rx_run r (before, c # cs, []) \<noteq> [] \<or> rx_search_from r (c # before) cs)"

definition rx_search :: "rx \<Rightarrow> string \<Rightarrow> bool" where
  "rx_search r s = rx_search_from r [] s"

definition ms_group :: "nat \<Rightarrow> mstate \<Rightarrow> string" where
  "ms_group k m = (case map_of (snd (snd m)) k of None \<Rightarrow> [] | Some g \<Rightarrow> g)"

text \<open>Derived forms: a literal text, one-or-more, an optional part.\<close>

fun rx_lit :: "string \<Rightarrow> rx" where
  "rx_lit [] = REps"
| "rx_lit (c # cs) = RSeq (RClass (\<lambda>x. x = c)) (rx_lit cs)"

definition rx_plus :: "rx \<Rightarrow> rx" where
  "rx_plus r = RSeq r (RStar r)"

definition rx_opt :: "rx \<Rightarrow> rx" where
  "rx_opt r = RAlt r REps"

definition rx_dot :: rx where
  "rx_dot = RClass not_newline"

fun rx_seq :: "rx list \<Rightarrow> rx" where
  "rx_seq [] = REps"
| "rx_seq [r] = r"
| "rx_seq (r # q # rs) = RSeq r (rx_seq (q # rs))"

section \<open>Facts about runs\<close>

text \<open>A run only moves characters from the rest to the consumed text.\<close>

definition ms_text :: "mstate \<Rightarrow> string" where
  "ms_text s = rev (fst s) @ fst (snd s)"

lemma star_run_text:
  assumes "\<And>s s'. s' \<in> set (f s) \<Longrightarrow> ms_text s' = ms_text s"
  shows "s' \<in> set (star_run n f s) \<Longrightarrow> ms_text s' = ms_text s"
proof (induction n arbitrary: s)
  case 0
  then show ?case by simp
next
  case (Suc n)
  then show ?case by (auto dest: Suc.IH assms)
qed

lemma rx_run_text: "s' \<in> set (rx_run r s) \<Longrightarrow> ms_text s' = ms_text s"
proof (induction r arbitrary: s s')
  case (RStar r)
  from RStar.prems have "s' \<in> set (star_run (length (ms_rest s)) (rx_run r) s)" by simp
  then show ?case by (rule star_run_text [rotated]) (rule RStar.IH)
next
  case (RSeq r q)
  then obtain m where "m \<in> set (rx_run r s)" and "s' \<in> set (rx_run q m)" by auto
  then show ?case by (metis RSeq.IH)
next
  case (RAlt r q)
  then have "s' \<in> set (rx_run r s) \<or> s' \<in> set (rx_run q s)" by simp
  then show ?case by (metis RAlt.IH)
next
  case (RGroup k r)
  then show ?case by (fastforce simp: ms_text_def split: prod.splits)
qed (auto simp: ms_text_def split: list.splits if_splits prod.splits)

lemma rx_run_lit:
  "rx_run (rx_lit p) (before, s, gs) =
     (if startswith s p then [(rev p @ before, drop (length p) s, gs)] else [])"
proof (induction p arbitrary: before s)
  case Nil
  then show ?case by simp
next
  case (Cons c p)
  then show ?case by (cases s) (auto simp: startswith_def)
qed

text \<open>Greedy repetition of one character class: every split of the longest block, longest first.\<close>

lemma star_class_run:
  "length s \<le> n \<Longrightarrow>
   star_run n (rx_run (RClass P)) (before, s, gs) =
     map (\<lambda>k. (rev (take k s) @ before, drop k s, gs)) (rev [0..<Suc (length (takeWhile P s))])"
proof (induction n arbitrary: before s)
  case 0
  then show ?case by simp
next
  case (Suc n)
  show ?case
  proof (cases "s \<noteq> [] \<and> P (hd s)")
    case True
    then obtain c cs where s: "s = c # cs" and P: "P c" by (cases s) auto
    let ?m = "length (takeWhile P cs)"
    have "star_run (Suc n) (rx_run (RClass P)) (before, s, gs)
        = star_run n (rx_run (RClass P)) (c # before, cs, gs) @ [(before, s, gs)]"
      using s P by (simp add: ms_rest_def)
    also have "\<dots> = map (\<lambda>k. (rev (take k cs) @ c # before, drop k cs, gs)) (rev [0..<Suc ?m])
        @ [(before, s, gs)]"
      using Suc s by simp
    also have "\<dots> = map (\<lambda>k. (rev (take k s) @ before, drop k s, gs)) (map Suc (rev [0..<Suc ?m]) @ [0])"
      using s by simp
    also have "map Suc (rev [0..<Suc ?m]) @ [0] = rev [0..<Suc (Suc ?m)]"
      by (simp add: rev_map [symmetric] map_Suc_upt upt_conv_Cons del: upt_Suc)
    finally show ?thesis using s P by simp
  next
    case False
    then show ?thesis by (cases s) auto
  qed
qed

lemma rx_run_star_class:
  "rx_run (RStar (RClass P)) (before, s, gs) =
     map (\<lambda>k. (rev (take k s) @ before, drop k s, gs)) (rev [0..<Suc (length (takeWhile P s))])"
  using star_class_run [of s "length s"] by (simp add: ms_rest_def)

lemma rx_run_star_class_set:
  "set (rx_run (RStar (RClass P)) (before, s, gs)) =
     {(rev g @ before, r, gs) | g r. s = g @ r \<and> (\<forall>c \<in> set g. P c)}"
proof (intro set_eqI iffI)
  fix x assume "x \<in> set (rx_run (RStar (RClass P)) (before, s, gs))"
  then obtain k where k: "k \<le> length (takeWhile P s)"
    and x: "x = (rev (take k s) @ before, drop k s, gs)"
    unfolding rx_run_star_class set_map set_rev set_upt by (auto simp: less_Suc_eq_le)
  have "take k s = take k (takeWhile P s)"
    using k by (metis append_eq_conv_conj take_append takeWhile_dropWhile_id min.absorb1 take_take)
  then have "\<forall>c \<in> set (take k s). P c"
    by (metis in_set_takeD set_takeWhileD)
  with x show "x \<in> {(rev g @ before, r, gs) | g r. s = g @ r \<and> (\<forall>c \<in> set g. P c)}"
    by (intro CollectI exI [of _ "take k s"] exI [of _ "drop k s"]) simp
next
  fix x assume "x \<in> {(rev g @ before, r, gs) | g r. s = g @ r \<and> (\<forall>c \<in> set g. P c)}"
  then obtain g r where x: "x = (rev g @ before, r, gs)" and s: "s = g @ r" and P: "\<forall>c \<in> set g. P c"
    by auto
  have "length g \<le> length (takeWhile P s)"
    using P s by (simp add: takeWhile_append)
  then show "x \<in> set (rx_run (RStar (RClass P)) (before, s, gs))"
    using x s by (auto simp: rx_run_star_class image_iff simp del: upt_Suc rx_run.simps intro!: bexI [of _ "length g"])
qed

lemma rx_fullmatch_Some_iff:
  "rx_fullmatch r s \<noteq> None \<longleftrightarrow> (\<exists>m \<in> set (rx_run r ([], s, [])). ms_rest m = [])"
  unfolding rx_fullmatch_def by (auto simp: find_None_iff)

end
