(* ===== verification/Argv_Safety.thy ===== *)
theory Argv_Safety
  imports Sed_Script Py_Regex
begin

text \<open>
  The argument-vector half of \<^verbatim>\<open>src/src/iac_code/tools/bash/argv_safety.py\<close>: the tables of
  commands and options, the detection of arguments that make a read-only command dangerous
  (\<^verbatim>\<open>dangerous_readonly_argument\<close>), and the extraction of the paths a command reads
  (\<^verbatim>\<open>extract_read_paths\<close>). A loop \<^verbatim>\<open>while i < len(argv)\<close> that starts at 1 is a recursion on
  the arguments after the command name; \<^verbatim>\<open>i += 2\<close> drops the option's value as well. The
  accumulators of a loop are the arguments of its recursion.
\<close>

section \<open>Tables\<close>

definition FIND_DANGEROUS_ARGS :: "string list" where
  "FIND_DANGEROUS_ARGS = [
     ''-delete'', ''-exec'', ''-execdir'', ''-ok'', ''-okdir'']"

definition FD_DANGEROUS_ARGS :: "string list" where
  "FD_DANGEROUS_ARGS = [
     ''-x'', ''-X'', ''--exec'', ''--exec-batch'']"

definition SORT_DANGEROUS_ARGS :: "string list" where
  "SORT_DANGEROUS_ARGS = [
     ''-o'', ''--output'']"

definition READ_PATH_COMMANDS :: "string list" where
  "READ_PATH_COMMANDS = [
     ''ls'', ''ll'', ''la'', ''cat'', ''head'', ''tail'', ''less'', ''more'', ''wc'', ''file'',
     ''stat'', ''du'', ''df'', ''tree'', ''realpath'', ''readlink'', ''md5sum'', ''sha256sum'',
     ''grep'', ''egrep'', ''fgrep'', ''rg'', ''ag'', ''ack'', ''find'', ''fd'', ''sed'',
     ''sort'', ''uniq'', ''cut'', ''diff'', ''comm'', ''jq'', ''yq'']"

definition GREP_LIKE_COMMANDS :: "string list" where
  "GREP_LIKE_COMMANDS = [
     ''grep'', ''egrep'', ''fgrep'', ''rg'', ''ag'', ''ack'']"

definition FIRST_POSITIONAL_IS_PATTERN_COMMANDS :: "string list" where
  "FIRST_POSITIONAL_IS_PATTERN_COMMANDS = [
     ''fd'', ''sed'', ''jq'', ''yq'']"

definition IMPLICIT_CURRENT_DIRECTORY_READ_COMMANDS :: "string list" where
  "IMPLICIT_CURRENT_DIRECTORY_READ_COMMANDS = [
     ''ls'', ''ll'', ''la'', ''tree'', ''du'', ''rg'', ''ag'', ''ack'', ''fd'', ''find'']"

definition FIND_EXPRESSION_FLAGS :: "string list" where
  "FIND_EXPRESSION_FLAGS = [
     ''-amin'', ''-anewer'', ''-atime'', ''-cmin'', ''-cnewer'', ''-ctime'', ''-depth'',
     ''-empty'', ''-exec'', ''-execdir'', ''-false'', ''-gid'', ''-group'', ''-iname'',
     ''-inum'', ''-ipath'', ''-iregex'', ''-links'', ''-maxdepth'', ''-mindepth'', ''-mtime'',
     ''-name'', ''-newer'', ''-nogroup'', ''-nouser'', ''-path'', ''-perm'', ''-print'',
     ''-print0'', ''-prune'', ''-regex'', ''-samefile'', ''-size'', ''-true'', ''-type'',
     ''-uid'', ''-user'']"

definition FIND_GLOBAL_OPTIONS :: "string list" where
  "FIND_GLOBAL_OPTIONS = [
     ''-H'', ''-L'', ''-P'']"

definition FIND_GLOBAL_OPTIONS_WITH_VALUE :: "string list" where
  "FIND_GLOBAL_OPTIONS_WITH_VALUE = [
     ''-D'']"

definition GREP_NON_PATH_VALUE_FLAGS :: "string list" where
  "GREP_NON_PATH_VALUE_FLAGS = [
     ''-A'', ''-B'', ''-C'', ''-g'', ''-m'', ''-t'', ''--after-context'', ''--before-context'',
     ''--context'', ''--glob'', ''--iglob'', ''--max-count'', ''--type'', ''--type-not'']"

definition LS_NON_PATH_VALUE_FLAGS :: "string list" where
  "LS_NON_PATH_VALUE_FLAGS = [
     ''--block-size'', ''--format'', ''--hide'', ''--ignore'', ''--indicator-style'',
     ''--quoting-style'', ''--sort'', ''--time-style'']"

definition NON_PATH_VALUE_FLAGS_BY_COMMAND :: "(string \<times> string list) list" where
  "NON_PATH_VALUE_FLAGS_BY_COMMAND = [
     (''head'', [
        ''-c'', ''-n'', ''--bytes'', ''--lines'']),
     (''tail'', [
        ''-c'', ''-n'', ''-s'', ''--bytes'', ''--lines'', ''--pid'', ''--sleep-interval'']),
     (''du'', [
        ''-B'', ''-d'', ''-t'', ''--block-size'', ''--exclude'', ''--max-depth'',
        ''--threshold'']),
     (''df'', [
        ''-B'', ''-t'', ''-x'', ''--block-size'', ''--exclude-type'', ''--output'', ''--type'']),
     (''ls'', LS_NON_PATH_VALUE_FLAGS),
     (''ll'', LS_NON_PATH_VALUE_FLAGS),
     (''la'', LS_NON_PATH_VALUE_FLAGS),
     (''stat'', [
        ''-c'', ''--format'', ''--printf'']),
     (''sort'', [
        ''-k'', ''-S'', ''-T'', ''--batch-size'', ''--buffer-size'', ''--key'', ''--parallel'',
        ''--temporary-directory'']),
     (''uniq'', [
        ''-f'', ''-s'', ''-w'', ''--check-chars'', ''--skip-chars'', ''--skip-fields'']),
     (''cut'', [
        ''-b'', ''-c'', ''-d'', ''-f'', ''--bytes'', ''--characters'', ''--delimiter'',
        ''--fields'', ''--output-delimiter'']),
     (''fd'', [
        ''-d'', ''-e'', ''-E'', ''-g'', ''-j'', ''-t'', ''--changed-before'',
        ''--changed-within'', ''--exclude'', ''--extension'', ''--glob'', ''--max-depth'',
        ''--min-depth'', ''--threads'', ''--type'']),
     (''jq'', [
        ''--arg'', ''--argjson'', ''--indent'', ''--tab'']),
     (''yq'', [
        ''--indent'', ''--input-format'', ''--output-format'']),
     (''grep'', GREP_NON_PATH_VALUE_FLAGS),
     (''egrep'', GREP_NON_PATH_VALUE_FLAGS),
     (''fgrep'', GREP_NON_PATH_VALUE_FLAGS),
     (''rg'', GREP_NON_PATH_VALUE_FLAGS),
     (''ag'', GREP_NON_PATH_VALUE_FLAGS),
     (''ack'', GREP_NON_PATH_VALUE_FLAGS)]"

definition READ_PATH_VALUE_FLAGS_BY_COMMAND :: "(string \<times> string list) list" where
  "READ_PATH_VALUE_FLAGS_BY_COMMAND = [
     (''file'', [
        ''-f'', ''--files-from'']),
     (''grep'', [
        ''-f'', ''--file'']),
     (''egrep'', [
        ''-f'', ''--file'']),
     (''fgrep'', [
        ''-f'', ''--file'']),
     (''rg'', [
        ''-f'', ''--file'']),
     (''ag'', [
        ''-f'', ''--file'']),
     (''ack'', [
        ''-f'', ''--file'']),
     (''fd'', [
        ''--base-directory'', ''--search-path'']),
     (''sed'', [
        ''-f'', ''--file'']),
     (''jq'', [
        ''-f'', ''--from-file'']),
     (''yq'', [
        ''-f'', ''--from-file''])]"

definition DIRECT_FILE_COMMANDS :: "string list" where
  "DIRECT_FILE_COMMANDS =
     filter (\<lambda>c. c \<notin> set GREP_LIKE_COMMANDS \<and> c \<notin> set FIRST_POSITIONAL_IS_PATTERN_COMMANDS \<and> c \<noteq> ''find'')
       READ_PATH_COMMANDS"

lemmas argv_tables =
  FIND_DANGEROUS_ARGS_def FD_DANGEROUS_ARGS_def SORT_DANGEROUS_ARGS_def READ_PATH_COMMANDS_def
  GREP_LIKE_COMMANDS_def FIRST_POSITIONAL_IS_PATTERN_COMMANDS_def
  IMPLICIT_CURRENT_DIRECTORY_READ_COMMANDS_def FIND_EXPRESSION_FLAGS_def FIND_GLOBAL_OPTIONS_def
  FIND_GLOBAL_OPTIONS_WITH_VALUE_def GREP_NON_PATH_VALUE_FLAGS_def LS_NON_PATH_VALUE_FLAGS_def
  NON_PATH_VALUE_FLAGS_BY_COMMAND_def READ_PATH_VALUE_FLAGS_BY_COMMAND_def DIRECT_FILE_COMMANDS_def

section \<open>Option helpers\<close>

definition flags_with_value_for :: "string \<Rightarrow> string list" where
  "flags_with_value_for base =
     (case map_of NON_PATH_VALUE_FLAGS_BY_COMMAND base of None \<Rightarrow> [] | Some fs \<Rightarrow> fs)"

definition read_path_value_flags_for :: "string \<Rightarrow> string list" where
  "read_path_value_flags_for base =
     (case map_of READ_PATH_VALUE_FLAGS_BY_COMMAND base of None \<Rightarrow> [] | Some fs \<Rightarrow> fs)"

definition long_option_name :: "string \<Rightarrow> string option" where
  "long_option_name arg =
     (if \<not> startswith arg ''--'' \<or> CHR ''='' \<notin> set arg then None
      else Some (split1_head (CHR ''='') arg))"

definition option_in :: "string option \<Rightarrow> string list \<Rightarrow> bool" where
  \<comment> \<open>\<^verbatim>\<open>option in flags\<close>, where the option may be \<^verbatim>\<open>None\<close>\<close>
  "option_in opt flags = (case opt of None \<Rightarrow> False | Some f \<Rightarrow> f \<in> set flags)"

definition short_option_shape :: "string \<Rightarrow> bool" where
  "short_option_shape arg = (startswith arg ''-'' \<and> \<not> startswith arg ''--'' \<and> length arg > 2)"

definition attached_short_option :: "string \<Rightarrow> string list \<Rightarrow> string option" where
  "attached_short_option arg flags =
     (if \<not> short_option_shape arg then None
      else List.find (\<lambda>flag. length flag = 2 \<and> startswith arg flag) flags)"

definition attached_short_option_value :: "string \<Rightarrow> string list \<Rightarrow> string option" where
  "attached_short_option_value arg flags =
     (if \<not> short_option_shape arg then None
      else map_option (\<lambda>flag. drop (length flag) arg)
             (List.find (\<lambda>flag. length flag = 2 \<and> startswith arg flag) flags))"

definition first_matching_arg :: "argv \<Rightarrow> string list \<Rightarrow> string option" where
  "first_matching_arg args dangerous = List.find (\<lambda>arg. arg \<in> set dangerous) args"

definition option_or_assignment :: "argv \<Rightarrow> string \<Rightarrow> string option" where
  "option_or_assignment args opt = List.find (\<lambda>arg. arg = opt \<or> startswith arg (opt @ ''='')) args"

definition is_option :: "string \<Rightarrow> bool" where
  \<comment> \<open>\<^verbatim>\<open>arg.startswith("-") and arg != "-"\<close>\<close>
  "is_option arg = (startswith arg ''-'' \<and> arg \<noteq> ''-'')"

definition basename :: "string \<Rightarrow> string" where
  "basename argv0 = path_basename argv0"

definition PIP_BASE_RE :: rx where
  "PIP_BASE_RE = rx_seq [rx_lit ''pip'', rx_plus (RClass re_digit),
     RStar (RSeq (rx_lit ''.'') (rx_plus (RClass re_digit)))]"

definition pip_like_base :: "string \<Rightarrow> bool" where
  "pip_like_base base = (base = ''pip'' \<or> rx_fullmatch PIP_BASE_RE base \<noteq> None)"

section \<open>sed arguments\<close>

function sed_inplace_from :: "argv \<Rightarrow> bool" where
  "sed_inplace_from [] = False"
| "sed_inplace_from (arg # rest) =
     (if arg = ''--'' then False
      else if startswith arg ''--in-place'' then True
      else if arg = ''-i'' then True
      else if length arg > 2 \<and> startswith arg ''-i'' then True
      else if \<not> startswith arg ''-'' \<or> startswith arg ''--'' then sed_inplace_from rest
      else if arg = ''-e'' \<or> arg = ''-f'' then sed_inplace_from (drop 1 rest)
      else if startswith arg ''-e'' \<or> startswith arg ''-f'' then sed_inplace_from rest
      else if CHR ''i'' \<in> set (drop 1 arg) then True
      else sed_inplace_from rest)"
  by pat_completeness auto
termination
  by (relation "measure length") (simp_all (no_asm_simp))

definition sed_inplace_edit :: "argv \<Rightarrow> bool" where
  "sed_inplace_edit argv = sed_inplace_from (drop 1 argv)"

function sed_uses_script_file_from :: "argv \<Rightarrow> bool" where
  "sed_uses_script_file_from [] = False"
| "sed_uses_script_file_from (arg # rest) =
     (if arg = ''--'' then False
      else if arg = ''-e'' \<or> arg = ''--expression'' then sed_uses_script_file_from (drop 1 rest)
      else if startswith arg ''--expression='' then sed_uses_script_file_from rest
      else if startswith arg ''-e'' \<and> \<not> startswith arg ''--'' \<and> length arg > 2
        then sed_uses_script_file_from rest
      else if arg = ''-f'' \<or> arg = ''--file'' \<or> startswith arg ''--file='' then True
      else if startswith arg ''-'' \<and> \<not> startswith arg ''--'' \<and> CHR ''f'' \<in> set (drop 1 arg) then True
      else if \<not> startswith arg ''-'' \<or> arg = ''-'' then False
      else sed_uses_script_file_from rest)"
  by pat_completeness auto
termination
  by (relation "measure length") (simp_all (no_asm_simp))

definition sed_uses_script_file :: "argv \<Rightarrow> bool" where
  "sed_uses_script_file argv = sed_uses_script_file_from (drop 1 argv)"

definition sed_attached_short_expression :: "string \<Rightarrow> string option" where
  "sed_attached_short_expression arg =
     (if \<not> short_option_shape arg then None
      else
        let option_body = drop 1 arg in
        case py_find option_body ''e'' of
          None \<Rightarrow> None
        | Some expression_index \<Rightarrow>
            if expression_index = length option_body - 1 then None
            else (case py_find option_body ''f'' of
                Some file_index \<Rightarrow> if file_index < expression_index then None
                  else Some (drop (expression_index + 1) option_body)
              | None \<Rightarrow> Some (drop (expression_index + 1) option_body)))"

function sed_script_args_from :: "bool \<Rightarrow> argv \<Rightarrow> string list" where
  "sed_script_args_from has_script_option [] = []"
| "sed_script_args_from has_script_option (arg # rest) =
     (if arg = ''--'' then
        (case rest of
           [] \<Rightarrow> []
         | a # _ \<Rightarrow> if \<not> has_script_option then [a] else [])
      else if arg = ''-e'' \<or> arg = ''--expression'' then
        (case rest of
           [] \<Rightarrow> []
         | a # rest' \<Rightarrow> a # sed_script_args_from True rest')
      else if startswith arg ''--expression='' then
        split1_tail (CHR ''='') arg # sed_script_args_from True rest
      else if startswith arg ''-e'' \<and> length arg > 2 then
        drop 2 arg # sed_script_args_from True rest
      else (case sed_attached_short_expression arg of
          Some attached_script \<Rightarrow> attached_script # sed_script_args_from True rest
        | None \<Rightarrow>
            if arg = ''-f'' \<or> arg = ''--file'' then sed_script_args_from True (drop 1 rest)
            else if startswith arg ''--file='' \<or> (startswith arg ''-f'' \<and> length arg > 2)
              then sed_script_args_from True rest
            else if is_option arg then sed_script_args_from has_script_option rest
            else if \<not> has_script_option then [arg]
            else []))"
  by pat_completeness auto
termination
  by (relation "measure (\<lambda>(h, args). length args)") (simp_all (no_asm_simp))

definition sed_script_args :: "argv \<Rightarrow> string list" where
  "sed_script_args argv = sed_script_args_from False (drop 1 argv)"

definition sed_executes_shell :: "argv \<Rightarrow> bool" where
  "sed_executes_shell argv = list_ex sed_script_executes_shell (sed_script_args argv)"

definition sed_writes_file :: "argv \<Rightarrow> bool" where
  "sed_writes_file argv = list_ex sed_script_writes_file (sed_script_args argv)"

section \<open>Dangerous arguments of read-only commands\<close>

definition fd_dangerous :: "string \<Rightarrow> bool" where
  "fd_dangerous arg =
     (arg \<in> set FD_DANGEROUS_ARGS \<or> startswith arg ''--exec='' \<or> startswith arg ''--exec-batch=''
      \<or> (length arg > 2 \<and> (startswith arg ''-x'' \<or> startswith arg ''-X'')))"

definition sort_dangerous :: "string \<Rightarrow> bool" where
  "sort_dangerous arg = (arg \<in> set SORT_DANGEROUS_ARGS \<or> (startswith arg ''-o'' \<and> length arg > 2))"

definition dangerous_readonly_argument :: "argv \<Rightarrow> string option" where
  "dangerous_readonly_argument argv =
     (case argv of
        [] \<Rightarrow> None
      | argv0 # args \<Rightarrow>
          let base = basename argv0 in
          if base = ''find'' then first_matching_arg args FIND_DANGEROUS_ARGS
          else if base = ''fd'' then List.find fd_dangerous args
          else if base = ''sed'' then
            (if sed_inplace_edit argv then Some ''sed in-place edit''
             else if sed_uses_script_file argv then Some ''sed script file''
             else if sed_executes_shell argv then Some ''sed shell execution''
             else if sed_writes_file argv then Some ''sed file write''
             else None)
          else if base = ''rg'' then option_or_assignment args ''--pre''
          else if base = ''sort'' then
            (case option_or_assignment args ''--compress-program'' of
               Some d \<Rightarrow> Some d
             | None \<Rightarrow>
                 (case option_or_assignment args ''--output'' of
                    Some d \<Rightarrow> Some d
                  | None \<Rightarrow> List.find sort_dangerous args))
          else None)"

section \<open>Paths a command reads\<close>

definition looks_like_path :: "string \<Rightarrow> bool" where
  "looks_like_path token0 =
     (let token1 = strip token0;
          token = (if length token1 \<ge> 2 \<and> hd token1 = last token1 \<and> hd token1 \<in> {CHR 0x27, CHR 0x22}
                   then butlast (tl token1) else token1)
      in path_isabs token \<or> token = ''.'' \<or> token = ''..'' \<or> startswith token ''~/''
         \<or> startswith token ''./'' \<or> startswith token ''../'' \<or> slash \<in> set token)"

function read_positionals_from :: "string list \<Rightarrow> string list \<Rightarrow> argv \<Rightarrow> string list" where
  "read_positionals_from fv rf [] = []"
| "read_positionals_from fv rf (arg # rest) =
     (if arg = ''--'' then rest
      else
        let opt = long_option_name arg in
        if option_in opt rf then
          (let value = split1_tail (CHR ''='') arg in
           (if value \<noteq> ''-'' then [value] else []) @ read_positionals_from fv rf rest)
        else if option_in opt fv then read_positionals_from fv rf rest
        else (case attached_short_option_value arg rf of
            Some attached \<Rightarrow> (if attached \<noteq> ''-'' then [attached] else []) @ read_positionals_from fv rf rest
          | None \<Rightarrow>
              if attached_short_option arg fv \<noteq> None then read_positionals_from fv rf rest
              else if arg \<in> set rf then
                (case rest of
                   [] \<Rightarrow> []
                 | v # rest' \<Rightarrow> (if v \<noteq> ''-'' then [v] else []) @ read_positionals_from fv rf rest')
              else if arg \<in> set fv then read_positionals_from fv rf (drop 1 rest)
              else if is_option arg then read_positionals_from fv rf rest
              else arg # read_positionals_from fv rf rest))"
  by pat_completeness auto
termination
  by (relation "measure (\<lambda>(fv, rf, args). length args)") (simp_all (no_asm_simp))

definition read_positionals :: "argv \<Rightarrow> string \<Rightarrow> string list" where
  "read_positionals argv base =
     read_positionals_from (flags_with_value_for base) (read_path_value_flags_for base) (drop 1 argv)"

function find_skip_global :: "argv \<Rightarrow> argv" where
  "find_skip_global [] = []"
| "find_skip_global (arg # rest) =
     (if arg \<in> set FIND_GLOBAL_OPTIONS then find_skip_global rest
      else if arg \<in> set FIND_GLOBAL_OPTIONS_WITH_VALUE then find_skip_global (drop 1 rest)
      else if startswith arg ''-O'' \<and> length arg > 2 then find_skip_global rest
      else arg # rest)"
  by pat_completeness auto
termination
  by (relation "measure length") (simp_all (no_asm_simp))

definition is_find_expression_token :: "string \<Rightarrow> bool" where
  "is_find_expression_token arg =
     (arg = ''!'' \<or> arg = ''('' \<or> arg = '')'' \<or> arg \<in> set FIND_EXPRESSION_FLAGS \<or> startswith arg ''-'')"

fun find_roots :: "argv \<Rightarrow> string list" where
  "find_roots [] = []"
| "find_roots (arg # rest) =
     (if arg = ''--'' then find_roots rest
      else if is_find_expression_token arg then []
      else arg # find_roots rest)"

definition find_read_paths :: "argv \<Rightarrow> string list" where
  "find_read_paths argv = find_roots (find_skip_global (drop 1 argv))"

text \<open>
  The remaining extractors keep a flag (a pattern or script was given by an option, or, for
  \<^verbatim>\<open>rg --files\<close>, none is needed), the positional arguments and the paths given by options,
  in that order.
\<close>

type_synonym pat_state = "bool \<times> string list \<times> string list"

function grep_loop :: "string \<Rightarrow> string list \<Rightarrow> argv \<Rightarrow> pat_state \<Rightarrow> pat_state" where
  "grep_loop base fv [] st = st"
| "grep_loop base fv (arg # rest) (from_option, positionals, paths) =
     (if arg = ''--'' then (from_option, positionals @ rest, paths)
      else if base = ''rg'' \<and> arg = ''--files'' then grep_loop base fv rest (True, positionals, paths)
      else if startswith arg ''--file='' then
        grep_loop base fv rest (True, positionals, paths @ [split1_tail (CHR ''='') arg])
      else if startswith arg ''--regexp='' then grep_loop base fv rest (True, positionals, paths)
      else if option_in (long_option_name arg) fv then
        grep_loop base fv rest (from_option, positionals, paths)
      else if arg = ''-f'' \<or> arg = ''--file'' then
        (case rest of
           [] \<Rightarrow> (True, positionals, paths)
         | v # rest' \<Rightarrow> grep_loop base fv rest' (True, positionals, paths @ [v]))
      else if arg = ''-e'' \<or> arg = ''--regexp'' then
        grep_loop base fv (drop 1 rest) (True, positionals, paths)
      else if startswith arg ''-f'' \<and> length arg > 2 then
        grep_loop base fv rest (True, positionals, paths @ [drop 2 arg])
      else if startswith arg ''-e'' \<and> length arg > 2 then
        grep_loop base fv rest (True, positionals, paths)
      else if attached_short_option arg fv \<noteq> None then
        grep_loop base fv rest (from_option, positionals, paths)
      else if arg \<in> set fv then grep_loop base fv (drop 1 rest) (from_option, positionals, paths)
      else if is_option arg then grep_loop base fv rest (from_option, positionals, paths)
      else grep_loop base fv rest (from_option, positionals @ [arg], paths))"
  by pat_completeness auto
termination
  by (relation "measure (\<lambda>(b, fv, args, st). length args)") (simp_all (no_asm_simp))

definition finish_pattern_command :: "pat_state \<Rightarrow> string list" where
  \<comment> \<open>\<^verbatim>\<open>paths + (positionals if from_option else positionals[1:])\<close>\<close>
  "finish_pattern_command st =
     (case st of (from_option, positionals, paths) \<Rightarrow>
        paths @ (if from_option then positionals else drop 1 positionals))"

definition grep_read_paths :: "argv \<Rightarrow> string \<Rightarrow> string list" where
  "grep_read_paths argv base =
     finish_pattern_command (grep_loop base (flags_with_value_for base) (drop 1 argv) (False, [], []))"

function fd_loop :: "string list \<Rightarrow> string list \<Rightarrow> argv \<Rightarrow> string list \<times> string list \<Rightarrow> string list \<times> string list" where
  "fd_loop fv rf [] st = st"
| "fd_loop fv rf (arg # rest) (positionals, paths) =
     (if arg = ''--'' then (positionals @ rest, paths)
      else if option_in (long_option_name arg) rf then
        (let value = split1_tail (CHR ''='') arg in
         fd_loop fv rf rest (positionals, paths @ (if value \<noteq> ''-'' then [value] else [])))
      else if option_in (long_option_name arg) fv then fd_loop fv rf rest (positionals, paths)
      else if arg \<in> set rf then
        (case rest of
           [] \<Rightarrow> (positionals, paths)
         | v # rest' \<Rightarrow> fd_loop fv rf rest' (positionals, paths @ (if v \<noteq> ''-'' then [v] else [])))
      else if attached_short_option arg fv \<noteq> None then fd_loop fv rf rest (positionals, paths)
      else if arg \<in> set fv then fd_loop fv rf (drop 1 rest) (positionals, paths)
      else if is_option arg then fd_loop fv rf rest (positionals, paths)
      else fd_loop fv rf rest (positionals @ [arg], paths))"
  by pat_completeness auto
termination
  by (relation "measure (\<lambda>(fv, rf, args, st). length args)") (simp_all (no_asm_simp))

definition fd_read_paths :: "argv \<Rightarrow> string list" where
  "fd_read_paths argv =
     (case fd_loop (flags_with_value_for ''fd'') (read_path_value_flags_for ''fd'') (drop 1 argv) ([], []) of
        (positionals, paths) \<Rightarrow> paths @ drop 1 positionals)"

text \<open>For \<^verbatim>\<open>sed\<close> a fourth component collects the files the scripts themselves read.\<close>

type_synonym sed_state = "bool \<times> string list \<times> string list \<times> string list"

function sed_paths_loop :: "string list \<Rightarrow> argv \<Rightarrow> sed_state \<Rightarrow> sed_state" where
  "sed_paths_loop fv [] st = st"
| "sed_paths_loop fv (arg # rest) (from_option, positionals, paths, script_reads) =
     (if arg = ''--'' then (from_option, positionals @ rest, paths, script_reads)
      else if startswith arg ''--expression='' then
        sed_paths_loop fv rest (True, positionals, paths,
          script_reads @ sed_script_read_paths (split1_tail (CHR ''='') arg))
      else if startswith arg ''--file='' then
        sed_paths_loop fv rest (True, positionals, paths @ [split1_tail (CHR ''='') arg], script_reads)
      else if option_in (long_option_name arg) fv then
        sed_paths_loop fv rest (from_option, positionals, paths, script_reads)
      else if arg = ''-e'' \<or> arg = ''--expression'' then
        (case rest of
           [] \<Rightarrow> (True, positionals, paths, script_reads)
         | v # rest' \<Rightarrow> sed_paths_loop fv rest' (True, positionals, paths,
             script_reads @ sed_script_read_paths v))
      else if arg = ''-f'' \<or> arg = ''--file'' then
        (case rest of
           [] \<Rightarrow> (True, positionals, paths, script_reads)
         | v # rest' \<Rightarrow> sed_paths_loop fv rest' (True, positionals, paths @ [v], script_reads))
      else if startswith arg ''-e'' \<and> length arg > 2 then
        sed_paths_loop fv rest (True, positionals, paths, script_reads @ sed_script_read_paths (drop 2 arg))
      else (case sed_attached_short_expression arg of
          Some attached_script \<Rightarrow>
            sed_paths_loop fv rest (True, positionals, paths, script_reads @ sed_script_read_paths attached_script)
        | None \<Rightarrow>
            if startswith arg ''-f'' \<and> length arg > 2 then
              sed_paths_loop fv rest (True, positionals, paths @ [drop 2 arg], script_reads)
            else if attached_short_option arg fv \<noteq> None then
              sed_paths_loop fv rest (from_option, positionals, paths, script_reads)
            else if arg \<in> set fv then
              sed_paths_loop fv (drop 1 rest) (from_option, positionals, paths, script_reads)
            else if is_option arg then
              sed_paths_loop fv rest (from_option, positionals, paths, script_reads)
            else sed_paths_loop fv rest (from_option, positionals @ [arg], paths, script_reads)))"
  by pat_completeness auto
termination
  by (relation "measure (\<lambda>(fv, args, st). length args)") (simp_all (no_asm_simp))

definition sed_read_paths :: "argv \<Rightarrow> string list" where
  "sed_read_paths argv =
     (case sed_paths_loop (flags_with_value_for ''sed'') (drop 1 argv) (False, [], [], []) of
        (from_option, positionals, paths, script_reads) \<Rightarrow>
          paths
          @ script_reads
          @ (if \<not> from_option \<and> positionals \<noteq> [] then sed_script_read_paths (hd positionals) else [])
          @ (if from_option then positionals else drop 1 positionals))"

function jq_loop :: "string list \<Rightarrow> string list \<Rightarrow> argv \<Rightarrow> pat_state \<Rightarrow> pat_state" where
  "jq_loop fv rf [] st = st"
| "jq_loop fv rf (arg # rest) (from_option, positionals, paths) =
     (if arg = ''--'' then (from_option, positionals @ rest, paths)
      else if option_in (long_option_name arg) rf then
        jq_loop fv rf rest (True, positionals, paths @ [split1_tail (CHR ''='') arg])
      else if option_in (long_option_name arg) fv then
        jq_loop fv rf rest (from_option, positionals, paths)
      else (case attached_short_option_value arg rf of
          Some attached \<Rightarrow> jq_loop fv rf rest (True, positionals, paths @ [attached])
        | None \<Rightarrow>
            if arg \<in> set rf then
              (case rest of
                 [] \<Rightarrow> (True, positionals, paths)
               | v # rest' \<Rightarrow> jq_loop fv rf rest' (True, positionals, paths @ [v]))
            else if attached_short_option arg fv \<noteq> None then
              jq_loop fv rf rest (from_option, positionals, paths)
            else if arg \<in> set fv then jq_loop fv rf (drop 1 rest) (from_option, positionals, paths)
            else if is_option arg then jq_loop fv rf rest (from_option, positionals, paths)
            else jq_loop fv rf rest (from_option, positionals @ [arg], paths)))"
  by pat_completeness auto
termination
  by (relation "measure (\<lambda>(fv, rf, args, st). length args)") (simp_all (no_asm_simp))

definition jq_read_paths :: "argv \<Rightarrow> string \<Rightarrow> string list" where
  "jq_read_paths argv base =
     finish_pattern_command
       (jq_loop (flags_with_value_for base) (read_path_value_flags_for base) (drop 1 argv) (False, [], []))"

definition extract_read_paths :: "argv \<Rightarrow> string list" where
  "extract_read_paths argv =
     (case argv of
        [] \<Rightarrow> []
      | argv0 # _ \<Rightarrow>
          let base = basename argv0 in
          if base \<notin> set READ_PATH_COMMANDS then []
          else if base \<in> set DIRECT_FILE_COMMANDS then read_positionals argv base
          else if base \<in> set GREP_LIKE_COMMANDS then grep_read_paths argv base
          else if base = ''sed'' then sed_read_paths argv
          else if base = ''jq'' \<or> base = ''yq'' then jq_read_paths argv base
          else if base = ''fd'' then fd_read_paths argv
          else if base = ''find'' then find_read_paths argv
          else [])"

definition command_implicitly_reads_current_directory :: "argv \<Rightarrow> bool" where
  "command_implicitly_reads_current_directory argv =
     (case argv of
        [] \<Rightarrow> False
      | argv0 # _ \<Rightarrow> basename argv0 \<in> set IMPLICIT_CURRENT_DIRECTORY_READ_COMMANDS
                     \<and> extract_read_paths argv = [])"

end
