(* ===== verification/Path_Validation.thy ===== *)
theory Path_Validation
  imports Path_Safety Command_Parser Argv_Safety
begin

text \<open>
  \<^verbatim>\<open>src/src/iac_code/tools/bash/path_validation.py\<close>: the paths a simple command writes (redirect
  targets and the operands of file commands) and reads, and the checks that keep them inside
  the working directory and the additional directories.
\<close>

section \<open>Containment of a resolved path\<close>

definition validate_path :: "os_env \<Rightarrow> string \<Rightarrow> string \<Rightarrow> string list \<Rightarrow> behavior" where
  "validate_path env resolved_path cwd additional_directories =
     (let path_r = env_realpath env resolved_path;
          allowed_roots = env_realpath env cwd # map (env_realpath env) additional_directories
      in if list_ex (\<lambda>root. path_r = root \<or> startswith path_r (root @ ''/'')) allowed_roots
         then Allow else Deny)"

definition validation_resolve_candidate :: "os_env \<Rightarrow> string \<Rightarrow> string \<Rightarrow> string" where
  "validation_resolve_candidate env path0 cwd =
     (let path = env_expanduser env path0 in
      if path_isabs path then path_normpath path else path_normpath (path_join cwd path))"

section \<open>Redirects\<close>

definition WRITE_REDIRECT_TARGET :: rx where
  \<comment> \<open>the pattern: optional digits, one of the three write operators in this order, optional
      space, then the target up to the end of the text\<close>
  "WRITE_REDIRECT_TARGET = rx_seq
     [RStar (RClass re_digit),
      RAlt (RSeq (rx_lit ''>'') (rx_opt (rx_lit ''>''))) (RAlt (rx_lit ''>|'') (rx_lit ''<>'')),
      RStar (RClass is_space), RGroup 1 (rx_plus rx_dot), REnd]"

definition READ_REDIRECT_TARGET :: rx where
  "READ_REDIRECT_TARGET = rx_seq
     [RStar (RClass re_digit), RAlt (rx_lit ''<>'') (rx_lit ''<''),
      RStar (RClass is_space), RGroup 1 (rx_plus rx_dot), REnd]"

definition HERE_REDIRECT :: rx where
  "HERE_REDIRECT = rx_seq [RStar (RClass re_digit), rx_lit ''<<'', rx_opt (rx_lit ''<'')]"

definition DUP_REDIRECT :: rx where
  "DUP_REDIRECT = rx_seq [RStar (RClass re_digit), rx_lit ''<&'']"

definition redirect_target :: "rx \<Rightarrow> string \<Rightarrow> string option" where
  "redirect_target r line = map_option (\<lambda>m. strip_outer_quotes (strip (ms_group 1 m))) (rx_match r line)"

definition POSIX_PSEUDO_DEVICES :: "string list" where
  "POSIX_PSEUDO_DEVICES = [
     ''/dev/null'', ''/dev/zero'', ''/dev/random'', ''/dev/urandom'', ''/dev/stdin'', ''/dev/stdout'',
     ''/dev/stderr'', ''/dev/fd/0'', ''/dev/fd/1'', ''/dev/fd/2'']"

definition write_redirect_paths :: "string list \<Rightarrow> string list" where
  "write_redirect_paths redirects =
     List.map_filter (\<lambda>raw. redirect_target WRITE_REDIRECT_TARGET (strip raw)) redirects"

definition read_redirect_paths :: "string list \<Rightarrow> string list" where
  "read_redirect_paths redirects =
     List.map_filter (\<lambda>raw.
       let line = strip raw in
       if rx_match HERE_REDIRECT line \<noteq> None \<or> rx_match DUP_REDIRECT line \<noteq> None then None
       else redirect_target READ_REDIRECT_TARGET line) redirects"

definition has_unresolved_shell_expansion :: "string \<Rightarrow> bool" where
  "has_unresolved_shell_expansion path = (CHR ''$'' \<in> set path \<or> backquote \<in> set path)"

section \<open>Operands of file commands\<close>

definition PATH_COMMANDS :: "string list" where
  "PATH_COMMANDS = [''cp'', ''mv'', ''rm'', ''mkdir'', ''rmdir'', ''ln'', ''install'']"

definition PATH_VALUE_OPTIONS_BY_COMMAND :: "(string \<times> string list) list" where
  "PATH_VALUE_OPTIONS_BY_COMMAND =
     map (\<lambda>c. (c, [''-t'', ''--target-directory''])) [''cp'', ''mv'', ''ln'', ''install'']"

text \<open>
  An option that takes a path: the outer \<open>option\<close> tells whether the search ended here (a Python
  \<^verbatim>\<open>return\<close>), the inner one whether a value was found, with the arguments that follow it.
\<close>

definition next_value :: "argv \<Rightarrow> (string \<times> argv) option" where
  "next_value rest = (case rest of [] \<Rightarrow> None | v # rest' \<Rightarrow> Some (v, rest'))"

fun path_value_scan :: "string list \<Rightarrow> string \<Rightarrow> argv \<Rightarrow> (string \<times> argv) option option" where
  "path_value_scan [] arg rest = None"
| "path_value_scan (opt # opts) arg rest =
     (if startswith opt ''--'' then
        (if arg = opt then Some (next_value rest)
         else if startswith arg (opt @ ''='') then Some (Some (split1_tail (CHR ''='') arg, rest))
         else path_value_scan opts arg rest)
      else if arg = opt then Some (next_value rest)
      else if startswith arg opt \<and> length arg > length opt then Some (Some (drop (length opt) arg, rest))
      else path_value_scan opts arg rest)"

fun path_value_cluster :: "string list \<Rightarrow> string \<Rightarrow> argv \<Rightarrow> (string \<times> argv) option" where
  "path_value_cluster [] cluster rest = None"
| "path_value_cluster (opt # opts) cluster rest =
     (case py_find cluster opt of
        None \<Rightarrow> path_value_cluster opts cluster rest
      | Some option_index \<Rightarrow>
          let attached_value = drop (option_index + length opt) cluster in
          if attached_value \<noteq> [] then Some (attached_value, rest) else next_value rest)"

definition path_value_option :: "string \<Rightarrow> string \<Rightarrow> argv \<Rightarrow> (string \<times> argv) option" where
  "path_value_option base arg rest =
     (let options = (case map_of PATH_VALUE_OPTIONS_BY_COMMAND base of None \<Rightarrow> [] | Some os \<Rightarrow> os);
          short_options = map (drop 1) (filter (\<lambda>opt. startswith opt ''-'' \<and> \<not> startswith opt ''--'') options)
      in if options = [] then None
         else (case path_value_scan options arg rest of
             Some r \<Rightarrow> r
           | None \<Rightarrow> if short_option_shape arg then path_value_cluster short_options (drop 1 arg) rest
                     else None))"

lemma next_value_shorter: "next_value rest = Some (v, rest') \<Longrightarrow> length rest' \<le> length rest"
  by (auto simp: next_value_def split: list.splits)

lemma path_value_scan_shorter:
  "path_value_scan opts arg rest = Some (Some (v, rest')) \<Longrightarrow> length rest' \<le> length rest"
  by (induction opts) (auto split: if_splits dest: next_value_shorter)

lemma path_value_cluster_shorter:
  "path_value_cluster opts cluster rest = Some (v, rest') \<Longrightarrow> length rest' \<le> length rest"
  by (induction opts) (auto simp: Let_def split: if_splits option.splits dest: next_value_shorter)

lemma path_value_option_shorter:
  "path_value_option base arg rest = Some (v, rest') \<Longrightarrow> length rest' \<le> length rest"
  by (auto simp: path_value_option_def Let_def split: if_splits option.splits
      dest: path_value_scan_shorter path_value_cluster_shorter)

function argv_paths_from :: "string \<Rightarrow> argv \<Rightarrow> string list" where
  "argv_paths_from base [] = []"
| "argv_paths_from base (arg # rest) =
     (if arg = ''--'' then rest
      else (case path_value_option base arg rest of
          Some (v, rest') \<Rightarrow> v # argv_paths_from base rest'
        | None \<Rightarrow>
            if startswith arg ''-'' \<and> length arg > 1 then argv_paths_from base rest
            else arg # argv_paths_from base rest))"
  by pat_completeness auto
termination
  by (relation "measure (\<lambda>(b, args). length args)")
    (auto dest: path_value_option_shorter simp: le_imp_less_Suc)

definition argv_paths :: "argv \<Rightarrow> string list" where
  "argv_paths argv =
     (case argv of
        [] \<Rightarrow> []
      | argv0 # args \<Rightarrow>
          let base = path_basename argv0 in
          if base \<notin> set PATH_COMMANDS then [] else argv_paths_from base args)"

section \<open>The two checks\<close>

definition check_write_candidate :: "os_env \<Rightarrow> string list \<Rightarrow> string \<Rightarrow> string list \<Rightarrow> string
    \<Rightarrow> PermissionResult option" where
  \<comment> \<open>one round of the loop of \<^verbatim>\<open>check_path_constraints\<close>; \<open>Some\<close> is an early return\<close>
  "check_write_candidate env redirect_paths cwd additional rel_or_abs =
     (if rel_or_abs \<in> set POSIX_PSEUDO_DEVICES \<and> rel_or_abs \<in> set redirect_paths then None
      else if has_unresolved_shell_expansion rel_or_abs then
        Some (reason_result Ask ''path_constraint'' (''path uses shell expansion: '' @ rel_or_abs))
      else if validate_path env (validation_resolve_candidate env rel_or_abs cwd) cwd additional = Deny then
        Some (reason_result Ask ''path_constraint'' (''path outside allowed directories: '' @ rel_or_abs))
      else None)"

definition write_candidates :: "SimpleCommand \<Rightarrow> string list" where
  "write_candidates cmd = dict_fromkeys (write_redirect_paths (sc_redirects cmd) @ argv_paths (sc_argv cmd))"

definition check_path_constraints :: "os_env \<Rightarrow> SimpleCommand \<Rightarrow> string \<Rightarrow> string list \<Rightarrow> PermissionResult" where
  "check_path_constraints env cmd cwd additional_directories =
     (case first_some
         (check_write_candidate env (write_redirect_paths (sc_redirects cmd)) cwd additional_directories)
         (write_candidates cmd) of
        Some r \<Rightarrow> r
      | None \<Rightarrow> result_of Passthrough)"

definition is_relative_read_path :: "string \<Rightarrow> bool" where
  "is_relative_read_path path = (\<not> path_isabs (strip_outer_quotes (strip path)))"

definition read_candidates :: "SimpleCommand \<Rightarrow> string list" where
  "read_candidates cmd = dict_fromkeys (read_redirect_paths (sc_redirects cmd) @ extract_read_paths (sc_argv cmd))"

definition check_read_candidate :: "os_env \<Rightarrow> string \<Rightarrow> string list \<Rightarrow> string list \<Rightarrow> string list \<Rightarrow> behavior
    \<Rightarrow> string \<Rightarrow> PermissionResult option" where
  "check_read_candidate env cwd additional trusted strict violation rel_or_abs =
     (if has_unresolved_shell_expansion rel_or_abs then
        Some (reason_result Ask ''path_constraint'' (''read path uses shell expansion: '' @ rel_or_abs))
      else
        let decision = check_read_path env rel_or_abs cwd additional trusted [] strict violation in
        if rd_behavior decision \<noteq> Allow then Some (to_permission_result decision) else None)"

definition check_read_path_constraints :: "os_env \<Rightarrow> SimpleCommand \<Rightarrow> string \<Rightarrow> string list \<Rightarrow> string list
    \<Rightarrow> string list \<Rightarrow> behavior \<Rightarrow> bool \<Rightarrow> PermissionResult" where
  "check_read_path_constraints env cmd cwd additional trusted strict violation compound_has_cd =
     (let candidates = read_candidates cmd in
      if candidates = [] then
        (if compound_has_cd \<and> command_implicitly_reads_current_directory (sc_argv cmd) then
           reason_result Ask ''path_constraint'' ''read path after cd requires confirmation: current directory''
         else result_of Passthrough)
      else
        let cd_stop = (if compound_has_cd then List.find is_relative_read_path candidates else None) in
        case cd_stop of
          Some rel_or_abs \<Rightarrow>
            reason_result Ask ''path_constraint'' (''read path after cd requires confirmation: '' @ rel_or_abs)
        | None \<Rightarrow>
            (case first_some (check_read_candidate env cwd additional trusted strict violation) candidates of
               Some r \<Rightarrow> r
             | None \<Rightarrow> result_of Passthrough))"

section \<open>What a passed check guarantees\<close>

lemma check_write_candidate_behavior:
  "check_write_candidate env rs cwd ds p = Some r \<Longrightarrow> pr_behavior r = Ask"
  by (auto simp: check_write_candidate_def split: if_splits)

lemma check_path_constraints_passthrough_iff:
  "pr_behavior (check_path_constraints env cmd cwd ds) = Passthrough \<longleftrightarrow>
     (\<forall>p \<in> set (write_candidates cmd).
        check_write_candidate env (write_redirect_paths (sc_redirects cmd)) cwd ds p = None)"
proof (cases "first_some (check_write_candidate env (write_redirect_paths (sc_redirects cmd)) cwd ds)
    (write_candidates cmd)")
  case None
  moreover from None have "\<forall>p \<in> set (write_candidates cmd).
      check_write_candidate env (write_redirect_paths (sc_redirects cmd)) cwd ds p = None"
    by (simp add: first_some_None_iff)
  ultimately show ?thesis by (simp add: check_path_constraints_def)
next
  case (Some r)
  then obtain p where "p \<in> set (write_candidates cmd)"
    and p: "check_write_candidate env (write_redirect_paths (sc_redirects cmd)) cwd ds p = Some r"
    by (auto dest: first_some_SomeD)
  moreover have "pr_behavior r = Ask" using p by (rule check_write_candidate_behavior)
  ultimately show ?thesis using Some by (auto simp: check_path_constraints_def)
qed

lemma check_path_constraints_behavior:
  "pr_behavior (check_path_constraints env cmd cwd ds) \<in> {Passthrough, Ask}"
  by (auto simp: check_path_constraints_def split: option.splits
      dest!: first_some_SomeD dest: check_write_candidate_behavior)

lemma validate_path_allow_iff:
  "validate_path env p cwd ds = Allow \<longleftrightarrow>
     (\<exists>root \<in> set (cwd # ds). env_realpath env p = env_realpath env root
        \<or> startswith (env_realpath env p) (env_realpath env root @ ''/''))"
  by (auto simp: validate_path_def Let_def list_ex_iff)

lemma validate_path_not_Deny: "validate_path env p cwd ds \<noteq> Deny \<longleftrightarrow> validate_path env p cwd ds = Allow"
  by (simp add: validate_path_def Let_def)

lemma check_read_candidate_behavior:
  "check_read_candidate env cwd ds tr st v p = Some r \<Longrightarrow> pr_behavior r \<in> {Ask, Deny}"
  by (auto simp: check_read_candidate_def to_permission_result_def Let_def split: if_splits)

lemma check_read_path_constraints_behavior:
  "pr_behavior (check_read_path_constraints env cmd cwd ds tr st v cd) \<in> {Passthrough, Ask, Deny}"
  by (auto simp: check_read_path_constraints_def Let_def split: option.splits if_splits
      dest!: first_some_SomeD dest: check_read_candidate_behavior)

text \<open>A write candidate that passes is a redirect to a pseudo device or lies below a permitted root.\<close>

definition write_contained :: "os_env \<Rightarrow> SimpleCommand \<Rightarrow> string \<Rightarrow> string list \<Rightarrow> string \<Rightarrow> bool" where
  "write_contained env cmd cwd additional p \<longleftrightarrow>
     (p \<in> set POSIX_PSEUDO_DEVICES \<and> p \<in> set (write_redirect_paths (sc_redirects cmd)))
     \<or> (\<not> has_unresolved_shell_expansion p
        \<and> (\<exists>root \<in> set (cwd # additional).
             let target = env_realpath env (validation_resolve_candidate env p cwd) in
             target = env_realpath env root \<or> startswith target (env_realpath env root @ ''/'')))"

lemma check_write_candidate_None_iff:
  "check_write_candidate env (write_redirect_paths (sc_redirects cmd)) cwd ds p = None \<longleftrightarrow>
     write_contained env cmd cwd ds p"
proof -
  have "validate_path env (validation_resolve_candidate env p cwd) cwd ds = Deny \<longleftrightarrow>
      \<not> (validate_path env (validation_resolve_candidate env p cwd) cwd ds = Allow)"
    using validate_path_not_Deny by blast
  then show ?thesis
    unfolding check_write_candidate_def write_contained_def Let_def validate_path_allow_iff
    by (simp only: if_split option.distinct) auto
qed

text \<open>A read candidate that passes, by the policy that is active.\<close>

definition read_contained :: "os_env \<Rightarrow> string \<Rightarrow> string list \<Rightarrow> string list \<Rightarrow> string list \<Rightarrow> string \<Rightarrow> bool" where
  "read_contained env cwd additional trusted strict p \<longleftrightarrow>
     \<not> has_unresolved_shell_expansion p
     \<and> (let target = resolve_read_path env p cwd [] in
        if strict \<noteq> [] then is_in_allowed_roots env target strict
        else is_in_allowed_roots env target trusted
             \<or> (\<not> path_hits_sensitive target SENSITIVE_PATHS
                \<and> is_in_allowed_roots env target (cwd # additional @ [env_app_root env])))"

lemma check_read_candidate_None_iff:
  assumes "violation \<noteq> Allow"
  shows "check_read_candidate env cwd additional trusted strict violation p = None \<longleftrightarrow>
     read_contained env cwd additional trusted strict p"
  using assms
  by (simp add: check_read_candidate_def read_contained_def Let_def check_read_path_def
      check_read_path_with_resolution_def check_resolved_read_allow_iff resolve_read_path_def)

lemma check_read_path_constraints_passthroughD:
  assumes "pr_behavior (check_read_path_constraints env cmd cwd ds tr st v cd) = Passthrough"
    and "p \<in> set (read_candidates cmd)"
  shows "check_read_candidate env cwd ds tr st v p = None \<and> (cd \<longrightarrow> \<not> is_relative_read_path p)"
proof -
  have ne: "read_candidates cmd \<noteq> []" using assms(2) by auto
  let ?stop = "if cd then List.find is_relative_read_path (read_candidates cmd) else None"
  have stop: "?stop = None"
    using assms(1) ne by (auto simp: check_read_path_constraints_def Let_def split: option.splits)
  with assms(1) ne have "first_some (check_read_candidate env cwd ds tr st v) (read_candidates cmd) = None"
    by (auto simp: check_read_path_constraints_def Let_def split: option.splits
        dest!: first_some_SomeD dest: check_read_candidate_behavior)
  moreover have "cd \<longrightarrow> \<not> is_relative_read_path p"
    using stop assms(2) by (auto simp: find_None_iff split: if_splits)
  ultimately show ?thesis using assms(2) by (simp add: first_some_None_iff)
qed

end
