(* ===== verification/Bash_Checks.thy ===== *)
theory Bash_Checks
  imports Path_Validation
begin

text \<open>
  The remaining checks on one simple command: \<^verbatim>\<open>safety_checks.py\<close> (writes to sensitive paths,
  control characters and unbalanced quotes), \<^verbatim>\<open>readonly_commands.py\<close> (commands that may run
  without a prompt) and \<^verbatim>\<open>mode_validation.py\<close> (the accept-edits mode), all under
  \<^verbatim>\<open>src/src/iac_code/tools/bash/\<close>.
\<close>

section \<open>Writes to sensitive paths\<close>

definition WRITE_COMMANDS :: "string list" where
  "WRITE_COMMANDS = [''rm'', ''mv'', ''cp'', ''mkdir'', ''rmdir'', ''touch'', ''chmod'', ''chown'', ''ln'']"

definition REDIRECT_TARGET :: rx where
  "REDIRECT_TARGET = rx_seq
     [RAlt (rx_lit ''>>'') (rx_lit ''>''), RStar (RClass is_space), RGroup 1 (rx_plus rx_dot), REnd]"

definition resolve_for_check :: "os_env \<Rightarrow> string \<Rightarrow> string \<Rightarrow> string" where
  "resolve_for_check env token cwd =
     (if path_isabs token then env_realpath env token else env_realpath env (path_join cwd token))"

definition redirect_targets :: "string list \<Rightarrow> string list" where
  "redirect_targets redirects =
     List.map_filter (\<lambda>raw. redirect_target REDIRECT_TARGET (strip raw)) redirects"

fun positionals_from :: "argv \<Rightarrow> string list" where
  "positionals_from [] = []"
| "positionals_from (arg # rest) =
     (if arg = ''--'' then rest
      else if startswith arg ''-'' \<and> length arg > 1 then positionals_from rest
      else arg # positionals_from rest)"

definition positional_paths_after_flags :: "argv \<Rightarrow> string list" where
  "positional_paths_after_flags argv = (if length argv < 2 then [] else positionals_from (drop 1 argv))"

definition chmod_chown_paths :: "argv \<Rightarrow> string list" where
  "chmod_chown_paths argv =
     filter (\<lambda>tok. \<not> (all_isdigit tok \<and> length tok \<le> 4)
       \<and> \<not> (CHR '':'' \<in> set tok \<and> slash \<notin> set tok \<and> \<not> startswith tok ''.''))
       (positional_paths_after_flags argv)"

definition argv_paths_for_safety :: "argv \<Rightarrow> string list" where
  "argv_paths_for_safety argv =
     (case argv of
        [] \<Rightarrow> []
      | argv0 # _ \<Rightarrow>
          let base = path_basename argv0 in
          if base \<notin> set WRITE_COMMANDS then []
          else if base = ''chmod'' \<or> base = ''chown'' then chmod_chown_paths argv
          else positional_paths_after_flags argv)"

definition safety_tokens :: "SimpleCommand \<Rightarrow> string list" where
  "safety_tokens cmd = dict_fromkeys (argv_paths_for_safety (sc_argv cmd) @ redirect_targets (sc_redirects cmd))"

definition touches_sensitive :: "os_env \<Rightarrow> string \<Rightarrow> string \<Rightarrow> bool" where
  "touches_sensitive env cwd tok =
     path_hits_sensitive (replace_char (CHR 0x5C) slash (resolve_for_check env tok cwd)) SENSITIVE_PATHS"

definition check_safety :: "os_env \<Rightarrow> SimpleCommand \<Rightarrow> string \<Rightarrow> PermissionResult" where
  "check_safety env cmd cwd =
     (case List.find (touches_sensitive env cwd) (safety_tokens cmd) of
        Some tok \<Rightarrow> reason_result Ask ''safety_check'' (''operation touches a sensitive path: '' @ tok)
      | None \<Rightarrow> result_of Passthrough)"

section \<open>The command text\<close>

fun quotes_balanced_from :: "bool \<Rightarrow> bool \<Rightarrow> bool \<Rightarrow> string \<Rightarrow> bool" where
  \<comment> \<open>the flags are \<^verbatim>\<open>in_single\<close>, \<^verbatim>\<open>in_double\<close> and \<^verbatim>\<open>escape\<close>\<close>
  "quotes_balanced_from in_single in_double escape [] = (\<not> in_single \<and> \<not> in_double)"
| "quotes_balanced_from in_single in_double escape (c # cs) =
     (if escape then quotes_balanced_from in_single in_double False cs
      else if c = CHR 0x5C then quotes_balanced_from in_single in_double True cs
      else if in_single then quotes_balanced_from (c \<noteq> CHR 0x27) in_double False cs
      else if in_double then quotes_balanced_from in_single (c \<noteq> CHR 0x22) False cs
      else if c = CHR 0x27 then quotes_balanced_from True in_double False cs
      else if c = CHR 0x22 then quotes_balanced_from in_single True False cs
      else quotes_balanced_from in_single in_double False cs)"

definition quotes_balanced :: "string \<Rightarrow> bool" where
  "quotes_balanced command = quotes_balanced_from False False False command"

definition has_disallowed_control_chars :: "string \<Rightarrow> bool" where
  "has_disallowed_control_chars command =
     list_ex (\<lambda>c. let n = code c in n = 0 \<or> n \<le> 8 \<or> (14 \<le> n \<and> n \<le> 31) \<or> n = 127) command"

definition check_command_safety :: "string \<Rightarrow> bool" where
  "check_command_safety command =
     (if CHR 0x00 \<in> set command then False
      else if has_disallowed_control_chars command then False
      else if \<not> quotes_balanced command then False
      else True)"

section \<open>Read-only commands\<close>

definition READONLY_BASE_COMMANDS :: "string list" where
  "READONLY_BASE_COMMANDS = [
     ''ls'', ''ll'', ''la'', ''cat'', ''head'', ''tail'', ''less'', ''more'', ''wc'', ''file'', ''stat'',
     ''du'', ''df'', ''tree'', ''realpath'', ''readlink'', ''basename'', ''dirname'', ''md5sum'',
     ''sha256sum'', ''grep'', ''egrep'', ''fgrep'', ''rg'', ''find'', ''fd'', ''ag'', ''ack'', ''locate'',
     ''which'', ''whereis'', ''type'', ''pwd'', ''env'', ''printenv'', ''echo'', ''printf'', ''whoami'',
     ''id'', ''hostname'', ''uname'', ''date'', ''uptime'', ''free'', ''ps'', ''top'', ''lsof'',
     ''netstat'', ''ss'', ''sort'', ''uniq'', ''cut'', ''tr'', ''diff'', ''comm'', ''jq'', ''yq'',
     ''true'', ''false'', ''test'', ''sed'']"

definition GIT_READONLY_SUBCOMMANDS :: "string list" where
  "GIT_READONLY_SUBCOMMANDS = [
     ''status'', ''log'', ''diff'', ''show'', ''branch'', ''tag'', ''remote'', ''describe'',
     ''rev-parse'', ''ls-files'', ''ls-tree'', ''cat-file'', ''blame'', ''shortlog'']"

definition PIP_READONLY_VERBS :: "string list" where
  "PIP_READONLY_VERBS = [''list'', ''show'', ''freeze'']"

definition NPM_READONLY_VERBS :: "string list" where
  "NPM_READONLY_VERBS = [''list'', ''ls'', ''info'', ''view'', ''outdated'']"

definition YARN_READONLY_VERBS :: "string list" where
  "YARN_READONLY_VERBS = [''list'', ''info'', ''why'']"

definition PNPM_READONLY_VERBS :: "string list" where
  "PNPM_READONLY_VERBS = [''list'', ''ls'']"

definition BREW_READONLY_VERBS :: "string list" where
  "BREW_READONLY_VERBS = [''list'', ''info'']"

definition rx_word :: "string \<Rightarrow> rx" where
  \<comment> \<open>\<^verbatim>\<open>\bword\b\<close>\<close>
  "rx_word w = rx_seq [RBoundary, rx_lit w, RBoundary]"

definition RE_GIT_STASH_LIST :: rx where
  "RE_GIT_STASH_LIST =
     rx_seq [rx_word ''git'', RStar rx_dot, rx_word ''stash'', RStar rx_dot, rx_word ''list'']"

definition RE_GIT_CONFIG_GET :: rx where
  "RE_GIT_CONFIG_GET =
     rx_seq [rx_word ''git'', RStar rx_dot, rx_word ''config'', RStar rx_dot,
       RAlt (RSeq (rx_lit ''--get'') RBoundary)
         (RAlt (RSeq (rx_lit ''--list'') RBoundary)
           (rx_seq [RClass is_space, rx_lit ''-l'', RBoundary]))]"

function skip_git_global_options :: "argv \<Rightarrow> argv" where
  \<comment> \<open>the arguments from the first one that is not a global option\<close>
  "skip_git_global_options [] = []"
| "skip_git_global_options (arg # rest) =
     (if (arg = ''-C'' \<or> arg = ''--git-dir'' \<or> arg = ''--work-tree'') \<and> rest \<noteq> []
        then skip_git_global_options (drop 1 rest)
      else if arg = ''-c'' \<and> rest \<noteq> [] then skip_git_global_options (drop 1 rest)
      else if startswith arg ''-'' \<and> arg \<noteq> ''--'' then skip_git_global_options rest
      else arg # rest)"
  by pat_completeness auto
termination
  by (relation "measure length") (simp_all (no_asm_simp))

definition git_remaining_argv :: "argv \<Rightarrow> argv" where
  "git_remaining_argv argv = skip_git_global_options (drop 1 argv)"

definition is_git_readonly :: "argv \<Rightarrow> bool" where
  "is_git_readonly argv =
     (case git_remaining_argv argv of
        [] \<Rightarrow> False
      | sub # rest \<Rightarrow>
          if sub = ''stash'' \<and> rest \<noteq> [] \<and> hd rest = ''list'' then True
          else if sub = ''config'' then
            ''--get'' \<in> set rest \<or> ''--list'' \<in> set rest \<or> ''-l'' \<in> set rest
          else sub \<in> set GIT_READONLY_SUBCOMMANDS)"

definition is_package_manager_readonly :: "argv \<Rightarrow> bool" where
  "is_package_manager_readonly argv =
     (if length argv < 2 then False
      else
        let base = basename (argv ! 0); verb = argv ! 1 in
        (pip_like_base base \<and> verb \<in> set PIP_READONLY_VERBS)
        \<or> (base = ''uv'' \<and> length argv \<ge> 3 \<and> argv ! 1 = ''pip'' \<and> argv ! 2 \<in> set PIP_READONLY_VERBS)
        \<or> (base = ''npm'' \<and> verb \<in> set NPM_READONLY_VERBS)
        \<or> (base = ''yarn'' \<and> verb \<in> set YARN_READONLY_VERBS)
        \<or> (base = ''pnpm'' \<and> verb \<in> set PNPM_READONLY_VERBS)
        \<or> (base = ''cargo'' \<and> verb = ''metadata'')
        \<or> (base = ''go'' \<and> verb = ''list'')
        \<or> (base = ''gem'' \<and> verb = ''list'')
        \<or> (base = ''brew'' \<and> verb \<in> set BREW_READONLY_VERBS))"

definition regex_git_readonly :: "string \<Rightarrow> bool" where
  "regex_git_readonly text = (rx_search RE_GIT_STASH_LIST text \<or> rx_search RE_GIT_CONFIG_GET text)"

definition is_command_readonly :: "SimpleCommand \<Rightarrow> bool" where
  "is_command_readonly cmd =
     (let argv = sc_argv cmd in
      if sc_redirects cmd \<noteq> [] then False
      else if argv = [] then False
      else if last argv = ''--version'' \<or> last argv = ''-V'' then True
      else
        let base = basename (hd argv) in
        if base = ''command'' \<and> ''-v'' \<in> set (drop 1 argv) then True
        else if regex_git_readonly (sc_text cmd) then True
        else if base = ''sed'' \<and> sed_inplace_edit argv then False
        else if dangerous_readonly_argument argv \<noteq> None then False
        else if base = ''git'' \<and> is_git_readonly argv then True
        else if is_package_manager_readonly argv then True
        else base \<in> set READONLY_BASE_COMMANDS)"

section \<open>Permission modes\<close>

definition FILESYSTEM_COMMANDS :: "string list" where
  "FILESYSTEM_COMMANDS = [''mkdir'', ''touch'', ''rm'', ''rmdir'', ''mv'', ''cp'', ''sed'']"

definition is_filesystem_command :: "string \<Rightarrow> bool" where
  "is_filesystem_command base_cmd = (base_cmd \<in> set FILESYSTEM_COMMANDS)"

definition check_permission_mode :: "SimpleCommand \<Rightarrow> PermissionMode \<Rightarrow> PermissionResult" where
  "check_permission_mode cmd mode =
     (if mode \<noteq> ACCEPT_EDITS then result_of Passthrough
      else
        let base = (case sc_argv cmd of [] \<Rightarrow> [] | a # _ \<Rightarrow> a); detail = ''accept_edits mode'' in
        if is_filesystem_command base then
          (result_of Allow)\<lparr>
            pr_reason := Some (mk_reason ''accept_edits'' detail),
            pr_audit := Some
              \<lparr>au_scope = ''mode'', au_source = ''permission_pipeline'', au_rule_source = Some ''mode'',
               au_rule = None, au_reason_type = Some ''accept_edits'', au_reason_detail = Some detail,
               au_is_read_only = Some False, au_operation = [(''is_read_only'', PyBool False)]\<rparr>\<rparr>
        else result_of Passthrough)"

section \<open>Facts\<close>

lemma check_permission_mode_behavior:
  "pr_behavior (check_permission_mode cmd m) =
     (if m = ACCEPT_EDITS \<and> (\<exists>a as. sc_argv cmd = a # as \<and> a \<in> set FILESYSTEM_COMMANDS)
      then Allow else Passthrough)"
  by (auto simp: check_permission_mode_def is_filesystem_command_def Let_def FILESYSTEM_COMMANDS_def
      split: list.splits)

lemma check_safety_behavior: "pr_behavior (check_safety env cmd cwd) \<in> {Ask, Passthrough}"
  by (auto simp: check_safety_def split: option.splits)

lemma check_safety_passthrough_iff:
  "pr_behavior (check_safety env cmd cwd) = Passthrough \<longleftrightarrow>
     (\<forall>tok \<in> set (safety_tokens cmd). \<not> touches_sensitive env cwd tok)"
  by (auto simp: check_safety_def find_None_iff split: option.splits dest: find_SomeD)

text \<open>A read-only verdict always means a command with no redirect and with arguments.\<close>

lemma is_command_readonlyD:
  "is_command_readonly cmd \<Longrightarrow> sc_redirects cmd = [] \<and> sc_argv cmd \<noteq> []"
  by (auto simp: is_command_readonly_def Let_def split: if_splits)

end
