(* ===== verification/Rule_Matching.thy ===== *)
theory Rule_Matching
  imports Py_Regex Perm_Types
begin

text \<open>
  \<^verbatim>\<open>src/src/iac_code/tools/bash/rule_matching.py\<close>: how a shell permission rule such as
  \<^verbatim>\<open>bash(git status:*)\<close> is parsed and matched against a command text. The wildcard matcher is
  shown equivalent to a declarative reading of the pattern, and the normalisation of a
  command (environment assignments stripped from the front) is shown to terminate in a
  text that starts with no further assignment.
\<close>

section \<open>Definitions\<close>

definition ENV_ASSIGNMENT_PREFIX :: rx where
  \<comment> \<open>\<^verbatim>\<open>^[A-Za-z_][A-Za-z0-9_]*=\S+\s+\<close>\<close>
  "ENV_ASSIGNMENT_PREFIX = rx_seq
     [RClass is_name_start, RStar (RClass is_name_char), rx_lit ''='',
      rx_plus (RClass (\<lambda>c. \<not> is_space c)), rx_plus (RClass is_space)]"

definition extract_prefix :: "string \<Rightarrow> string option" where
  "extract_prefix rule_content =
     (if endswith rule_content '':*'' then Some (take (length rule_content - 2) rule_content) else None)"

fun wildcard_rx :: "string list \<Rightarrow> rx" where
  \<comment> \<open>\<^verbatim>\<open>".*".join(re.escape(part) for part in parts)\<close>\<close>
  "wildcard_rx [] = REps"
| "wildcard_rx [p] = rx_lit p"
| "wildcard_rx (p # q # ps) = RSeq (rx_lit p) (RSeq (RStar rx_dot) (wildcard_rx (q # ps)))"

definition match_wildcard :: "string \<Rightarrow> string \<Rightarrow> bool" where
  "match_wildcard pat command = (rx_fullmatch (wildcard_rx (split_on (CHR ''*'') pat)) command \<noteq> None)"

definition match_rule :: "string \<Rightarrow> string \<Rightarrow> bool" where
  "match_rule rule_content command =
     (if rule_content = [] then False
      else
        let cmd = strip command in
        case extract_prefix rule_content of
          Some p \<Rightarrow> if cmd = p then True else startswith cmd (p @ '' '')
        | None \<Rightarrow>
            if CHR ''*'' \<in> set rule_content then match_wildcard rule_content cmd
            else cmd = rule_content)"

definition strip_one_assignment :: "string \<Rightarrow> string option" where
  "strip_one_assignment rest = map_option ms_rest (rx_match ENV_ASSIGNMENT_PREFIX rest)"

text \<open>The loop of \<^verbatim>\<open>normalize_command\<close> stops because each match consumes text.\<close>

lemma rx_run_class_shorter:
  "s' \<in> set (rx_run (RClass P) s) \<Longrightarrow> length (ms_rest s') < length (ms_rest s)"
  by (auto simp: ms_rest_def split: list.splits if_splits prod.splits)

lemma ms_text_rest_le:
  assumes "ms_text s' = ms_text s" and "length (fst s) \<le> length (fst s')"
  shows "length (ms_rest s') \<le> length (ms_rest s)"
proof -
  have "length (fst s') + length (ms_rest s') = length (fst s) + length (ms_rest s)"
    using arg_cong [OF assms(1), of length] by (simp add: ms_text_def ms_rest_def)
  with assms(2) show ?thesis by linarith
qed

lemma star_run_rest_le: "s' \<in> set (star_run n f s) \<Longrightarrow> length (ms_rest s') \<le> length (ms_rest s)"
  by (induction n arbitrary: s) fastforce+

lemma rx_run_rest_le: "s' \<in> set (rx_run r s) \<Longrightarrow> length (ms_rest s') \<le> length (ms_rest s)"
proof (induction r arbitrary: s s')
  case (RClass P)
  then show ?case using rx_run_class_shorter less_imp_le by blast
next
  case (RSeq r q)
  then obtain m where "m \<in> set (rx_run r s)" and "s' \<in> set (rx_run q m)" by auto
  then show ?case using RSeq.IH order_trans by blast
next
  case (RAlt r q)
  then have "s' \<in> set (rx_run r s) \<or> s' \<in> set (rx_run q s)" by simp
  then show ?case using RAlt.IH by blast
next
  case (RStar r)
  then show ?case by (simp add: star_run_rest_le)
next
  case (RGroup k r)
  obtain before after gs where s: "s = (before, after, gs)" by (cases s)
  from RGroup.prems obtain m where "m \<in> set (rx_run r s)" and "ms_rest s' = ms_rest m"
    by (auto simp: s ms_rest_def)
  then show ?case using RGroup.IH by metis
qed (auto split: prod.splits if_splits)

lemma rx_run_seq_class_shorter:
  assumes "s' \<in> set (rx_run (RSeq (RClass P) r) s)"
  shows "length (ms_rest s') < length (ms_rest s)"
proof -
  from assms obtain m where "m \<in> set (rx_run (RClass P) s)" and "s' \<in> set (rx_run r m)" by auto
  then show ?thesis using rx_run_class_shorter rx_run_rest_le le_less_trans by blast
qed

lemma strip_one_assignment_shorter:
  assumes "strip_one_assignment s = Some s'"
  shows "length s' < length s"
proof -
  from assms obtain m where m: "rx_match ENV_ASSIGNMENT_PREFIX s = Some m" and s': "s' = ms_rest m"
    by (auto simp: strip_one_assignment_def)
  from m have "m \<in> set (rx_run ENV_ASSIGNMENT_PREFIX ([], s, []))"
    by (auto simp: rx_match_def split: list.splits)
  then have "length (ms_rest m) < length (ms_rest ([], s, []))"
    unfolding ENV_ASSIGNMENT_PREFIX_def rx_seq.simps by (rule rx_run_seq_class_shorter)
  then show ?thesis by (simp add: s' ms_rest_def)
qed

function strip_assignments :: "string \<Rightarrow> string" where
  "strip_assignments rest =
     (case strip_one_assignment rest of None \<Rightarrow> rest | Some rest' \<Rightarrow> strip_assignments rest')"
  by pat_completeness auto
termination
  by (relation "measure length") (auto intro: strip_one_assignment_shorter)

declare strip_assignments.simps [simp del]

definition normalize_command :: "string \<Rightarrow> string" where
  "normalize_command command =
     (let s = strip command; rest_stripped = strip (strip_assignments s)
      in if rest_stripped \<noteq> [] then rest_stripped else s)"

definition RULE_STRING_RE :: rx where
  \<comment> \<open>\<^verbatim>\<open>(\w+)\((.*)\)\<close>\<close>
  "RULE_STRING_RE = rx_seq
     [RGroup 1 (rx_plus (RClass is_word)), rx_lit ''('', RGroup 2 (RStar rx_dot), rx_lit '')'']"

definition parse_rule_string :: "string \<Rightarrow> py_error + (string \<times> string)" where
  "parse_rule_string rule_string =
     (case rx_fullmatch RULE_STRING_RE (strip rule_string) of
        None \<Rightarrow> Inl (ValueError (''invalid rule string: '' @ rule_string))
      | Some m \<Rightarrow> Inr (ms_group 1 m, ms_group 2 m))"

definition rule_applies :: "string \<Rightarrow> string \<Rightarrow> bool" where
  \<comment> \<open>the body shared by the three loops of \<^verbatim>\<open>find_matching_rules\<close>\<close>
  "rule_applies rule command =
     (case parse_rule_string rule of
        Inl _ \<Rightarrow> False
      | Inr (shell, content) \<Rightarrow> shell = ''bash'' \<and> match_rule content command)"

record matched_rules =
  mr_allow :: "string list"
  mr_deny :: "string list"
  mr_ask :: "string list"

definition find_matching_rules :: "string \<Rightarrow> string list \<Rightarrow> string list \<Rightarrow> string list \<Rightarrow> matched_rules" where
  "find_matching_rules command allow_rules deny_rules ask_rules =
     (let normalized = normalize_command command in
      \<lparr>mr_allow = filter (\<lambda>rule. rule_applies rule command) allow_rules,
       mr_deny = filter (\<lambda>rule. rule_applies rule normalized) deny_rules,
       mr_ask = filter (\<lambda>rule. rule_applies rule normalized) ask_rules\<rparr>)"

section \<open>The wildcard matcher against its declarative reading\<close>

text \<open>
  A pattern with \<open>n\<close> stars is the literal parts \<open>p\<^sub>0, \<dots>, p\<^sub>n\<close>; it accepts exactly the texts
  \<open>p\<^sub>0 g\<^sub>1 p\<^sub>1 \<dots> g\<^sub>n p\<^sub>n\<close> whose gaps hold no newline.
\<close>

fun wildcard_language :: "string list \<Rightarrow> string \<Rightarrow> bool" where
  "wildcard_language [] s = (s = [])"
| "wildcard_language [p] s = (s = p)"
| "wildcard_language (p # q # ps) s =
     (\<exists>g r. s = p @ g @ r \<and> newline \<notin> set g \<and> wildcard_language (q # ps) r)"

lemma rx_run_seq_set: "set (rx_run (RSeq r q) s) = (\<Union>m \<in> set (rx_run r s). set (rx_run q m))"
  by simp

lemma wildcard_rx_run:
  "(\<exists>m \<in> set (rx_run (wildcard_rx ps) (before, s, gs)). ms_rest m = []) \<longleftrightarrow> wildcard_language ps s"
proof (induction ps arbitrary: before s rule: wildcard_rx.induct)
  case 1
  then show ?case by (simp add: ms_rest_def)
next
  case (2 p)
  have "s = p \<longleftrightarrow> startswith s p \<and> drop (length p) s = []"
    by (auto simp: startswith_def)
  then show ?case by (simp only: wildcard_rx.simps rx_run_lit wildcard_language.simps) (simp add: ms_rest_def)
next
  case (3 p q ps)
  let ?good = "\<lambda>st. \<exists>m \<in> set (rx_run (wildcard_rx (q # ps)) st). ms_rest m = []"
  have star: "(\<exists>st \<in> set (rx_run (RStar rx_dot) (b, t, gs)). ?good st)
      \<longleftrightarrow> (\<exists>g r. t = g @ r \<and> newline \<notin> set g \<and> wildcard_language (q # ps) r)" for b t
    unfolding rx_dot_def rx_run_star_class_set using 3 by (fastforce simp: not_newline_def)
  have "(\<exists>m \<in> set (rx_run (wildcard_rx (p # q # ps)) (before, s, gs)). ms_rest m = [])
      \<longleftrightarrow> (\<exists>s1 \<in> set (rx_run (rx_lit p) (before, s, gs)). \<exists>st \<in> set (rx_run (RStar rx_dot) s1). ?good st)"
    by (simp only: wildcard_rx.simps rx_run_seq_set) blast
  also have "\<dots> \<longleftrightarrow> startswith s p
      \<and> (\<exists>st \<in> set (rx_run (RStar rx_dot) (rev p @ before, drop (length p) s, gs)). ?good st)"
    by (simp only: rx_run_lit) (simp del: rx_run.simps)
  also have "\<dots> \<longleftrightarrow> startswith s p
      \<and> (\<exists>g r. drop (length p) s = g @ r \<and> newline \<notin> set g \<and> wildcard_language (q # ps) r)"
    by (simp only: star)
  also have "\<dots> \<longleftrightarrow> wildcard_language (p # q # ps) s"
    by (auto simp: startswith_prefix prefix_def) blast+
  finally show ?case .
qed

lemma match_wildcard_iff:
  "match_wildcard pat command \<longleftrightarrow> wildcard_language (split_on (CHR ''*'') pat) command"
  unfolding match_wildcard_def rx_fullmatch_Some_iff by (rule wildcard_rx_run)

end
