(* ===== verification/Bash_Permissions.thy ===== *)
theory Bash_Permissions
  imports Bash_Checks Rule_Matching
begin

text \<open>
  \<^verbatim>\<open>src/src/iac_code/tools/bash/permissions.py\<close>: the permission engine of the shell tool. It
  combines the rules, the path checks, the safety checks, the read-only classification and
  the permission mode into one \<open>PermissionResult\<close> per simple command
  (\<open>bash_tool_check_permission\<close>) and merges those of a compound command
  (\<open>bash_tool_has_permission\<close>).
\<close>

section \<open>Definitions\<close>

definition MAX_SUBCOMMANDS :: nat where
  "MAX_SUBCOMMANDS = 10"

definition BASH_BLANKET_ALLOW_RULE :: string where
  "BASH_BLANKET_ALLOW_RULE = ''bash(**)''"

definition BASH_BLANKET_ALLOW_SOURCES :: "string list" where
  "BASH_BLANKET_ALLOW_SOURCES = [''user_settings'', ''project_settings'', ''local_settings'', ''cli_arg'']"

fun behavior_order :: "behavior \<Rightarrow> nat" where
  "behavior_order Deny = 0"
| "behavior_order Ask = 1"
| "behavior_order Passthrough = 2"
| "behavior_order Allow = 3"

definition matching_rules_with_sources :: "string \<Rightarrow> rules_by_source \<Rightarrow> behavior \<Rightarrow> (string \<times> string) list" where
  "matching_rules_with_sources command rules_by_source b =
     concat (map (\<lambda>(source, rules).
       let matched = (if b = Allow then mr_allow (find_matching_rules command rules [] [])
                      else if b = Deny then mr_deny (find_matching_rules command [] rules [])
                      else mr_ask (find_matching_rules command [] [] rules))
       in map (\<lambda>rule. (source, rule)) matched) rules_by_source)"

definition rule_audit :: "(string \<times> string) list \<Rightarrow> string \<Rightarrow> bool \<Rightarrow> PermissionAuditMetadata option" where
  "rule_audit matches reason_detail is_read_only =
     (case matches of
        [] \<Rightarrow> None
      | (source, rule) # _ \<Rightarrow> Some
          \<lparr>au_scope = scope_for_rule_source source, au_source = ''permission_pipeline'',
           au_rule_source = Some source, au_rule = Some rule, au_reason_type = Some ''rule'',
           au_reason_detail = Some reason_detail, au_is_read_only = Some is_read_only,
           au_operation = [(''is_read_only'', PyBool is_read_only)]\<rparr>)"

definition command_text_is_readonly :: "(string \<Rightarrow> ts_node) \<Rightarrow> string \<Rightarrow> bool" where
  "command_text_is_readonly ts_parse command =
     (let parsed = parse_command ts_parse command in
      if ps_kind parsed \<noteq> Simple \<or> ps_commands parsed = [] then False
      else list_all is_command_readonly (ps_commands parsed))"

fun configured_bash_blanket_allow :: "rules_by_source \<Rightarrow> (string \<times> string) option" where
  "configured_bash_blanket_allow [] = None"
| "configured_bash_blanket_allow ((source, rules) # rest) =
     (if source \<notin> set BASH_BLANKET_ALLOW_SOURCES then configured_bash_blanket_allow rest
      else (case List.find (\<lambda>rule. strip rule = BASH_BLANKET_ALLOW_RULE) rules of
          Some rule \<Rightarrow> Some (source, rule)
        | None \<Rightarrow> configured_bash_blanket_allow rest))"

definition safe_mode_path_policy_active :: "ToolPermissionContext \<Rightarrow> bool" where
  "safe_mode_path_policy_active ctx =
     (cx_strict_read_directories ctx \<noteq> [] \<or> cx_read_path_violation_behavior ctx = Deny)"

definition blanket_allow_result :: "string \<times> string \<Rightarrow> PermissionResult" where
  "blanket_allow_result rule_match =
     (case rule_match of (source, rule) \<Rightarrow>
        let detail = ''matched allow rule(s): '' @ rule in
        (reason_result Allow ''rule'' detail)\<lparr>pr_audit := Some
          \<lparr>au_scope = scope_for_rule_source source, au_source = ''permission_pipeline'',
           au_rule_source = Some source, au_rule = Some rule, au_reason_type = Some ''rule'',
           au_reason_detail = Some detail, au_is_read_only = Some False,
           au_operation = [(''is_read_only'', PyBool False), (''blanket_bash_allow'', PyBool True)]\<rparr>\<rparr>)"

definition bash_rule_value :: "string \<Rightarrow> PermissionRuleValue" where
  "bash_rule_value content = \<lparr>rv_tool_name = ''bash'', rv_rule_content = content, rv_display_text = None\<rparr>"

fun suggestions_loop :: "SimpleCommand list \<Rightarrow> PermissionResult list \<Rightarrow> string list \<Rightarrow> PermissionRuleValue list" where
  \<comment> \<open>the results still to be paired with the commands, and the rules already suggested\<close>
  "suggestions_loop [] subs seen = []"
| "suggestions_loop (cmd # cmds) subs seen =
     (let allowed = (case subs of [] \<Rightarrow> False | r # _ \<Rightarrow> pr_behavior r = Allow);
          subs' = drop 1 subs
      in if sc_argv cmd = [] then suggestions_loop cmds subs' seen
         else if allowed then suggestions_loop cmds subs' seen
         else
           let base = path_basename (hd (sc_argv cmd)) in
           if base = [] then suggestions_loop cmds subs' seen
           else if base \<in> set DANGEROUS_BUILTINS then suggestions_loop cmds subs' seen
           else
             let rule = base @ '':*'' in
             if rule \<notin> set seen then bash_rule_value rule # suggestions_loop cmds subs' (rule # seen)
             else suggestions_loop cmds subs' seen)"

definition generate_suggestions :: "SimpleCommand list \<Rightarrow> PermissionResult list \<Rightarrow> PermissionRuleValue list" where
  "generate_suggestions commands sub_results = suggestions_loop commands sub_results []"

definition generate_suggestions_from_text :: "string \<Rightarrow> PermissionRuleValue list" where
  "generate_suggestions_from_text command =
     (let normalized = normalize_command (strip command);
          first = (if normalized \<noteq> [] then first_word normalized else [])
      in if first = [] then [] else [bash_rule_value (path_basename first @ '':*'')])"

fun best_result :: "PermissionResult \<Rightarrow> PermissionResult list \<Rightarrow> PermissionResult" where
  \<comment> \<open>\<^verbatim>\<open>min\<close> by behaviour, the earliest on a tie\<close>
  "best_result best [] = best"
| "best_result best (r # rs) =
     (if behavior_order (pr_behavior r) < behavior_order (pr_behavior best) then best_result r rs
      else best_result best rs)"

definition merge_results :: "PermissionResult list \<Rightarrow> PermissionResult" where
  "merge_results results =
     (case results of
        [] \<Rightarrow> result_of Passthrough
      | r # rs \<Rightarrow>
          let best = best_result r rs;
              audit = (if pr_audit best = None \<and> pr_behavior best = Allow
                       then first_some (\<lambda>r. if pr_behavior r = Allow then pr_audit r else None) results
                       else pr_audit best)
          in (result_of (pr_behavior best))\<lparr>
               pr_message := pr_message best, pr_reason := pr_reason best,
               pr_suggestions := pr_suggestions best, pr_audit := audit\<rparr>)"

definition with_suggestions_if_needed ::
  "PermissionResult \<Rightarrow> string \<Rightarrow> SimpleCommand list \<Rightarrow> PermissionResult list \<Rightarrow> PermissionResult" where
  \<comment> \<open>absent \<^verbatim>\<open>commands\<close> and \<^verbatim>\<open>sub_results\<close> are empty lists, which the code treats alike\<close>
  "with_suggestions_if_needed result command commands sub_results =
     (if pr_suggestions result \<noteq> None \<and> pr_suggestions result \<noteq> Some [] then result
      else if (case pr_reason result of None \<Rightarrow> False | Some r \<Rightarrow> dr_type r = ''dangerous_readonly_argument'')
        then result
      else
        let sug = (if commands \<noteq> [] then generate_suggestions commands sub_results
                   else generate_suggestions_from_text command)
        in if sug = [] then result
           else (result_of (pr_behavior result))\<lparr>
                  pr_message := pr_message result, pr_reason := pr_reason result,
                  pr_suggestions := Some sug, pr_audit := pr_audit result\<rparr>)"

definition command_base :: "SimpleCommand \<Rightarrow> string option" where
  "command_base cmd = (case sc_argv cmd of [] \<Rightarrow> None | a # _ \<Rightarrow> Some (path_basename a))"

definition dangerous_arg_label :: "string \<Rightarrow> string" where
  "dangerous_arg_label arg =
     (if arg = ''sed in-place edit'' then ''sed in-place edit''
      else if arg = ''sed script file'' then ''sed script file''
      else if arg = ''sed shell execution'' then ''sed shell execution''
      else if arg = ''sed file write'' then ''sed file write''
      else arg)"

definition rule_list_text :: "(string \<times> string) list \<Rightarrow> string" where
  "rule_list_text matches = join_with '', '' (map snd matches)"

definition bash_tool_check_permission ::
  "os_env \<Rightarrow> SimpleCommand \<Rightarrow> ToolPermissionContext \<Rightarrow> bool \<Rightarrow> (string \<times> string) option \<Rightarrow> PermissionResult" where
  "bash_tool_check_permission env cmd ctx compound_has_cd blanket_allow =
     (if sc_argv cmd = [] then
        (if blanket_allow \<noteq> None \<and> \<not> safe_mode_path_policy_active ctx
           then blanket_allow_result (the blanket_allow)
         else if sc_is_complex cmd then
           reason_result Ask ''complex_command'' ''complex command requires confirmation''
         else result_of Passthrough)
      else
        let allow_m = matching_rules_with_sources (sc_text cmd) (cx_allow_rules ctx) Allow;
            deny_m = matching_rules_with_sources (sc_text cmd) (cx_deny_rules ctx) Deny;
            ask_m = matching_rules_with_sources (sc_text cmd) (cx_ask_rules ctx) Ask
        in
        if deny_m \<noteq> [] then
          let detail = ''matched deny rule(s): '' @ rule_list_text deny_m in
          (reason_result Deny ''rule'' detail)\<lparr>pr_audit := rule_audit deny_m detail (is_command_readonly cmd)\<rparr>
        else if ask_m \<noteq> [] then
          let detail = ''matched ask rule(s): '' @ rule_list_text ask_m in
          (reason_result Ask ''rule'' detail)\<lparr>pr_audit := rule_audit ask_m detail (is_command_readonly cmd)\<rparr>
        else
          let strict = (blanket_allow = None \<or> safe_mode_path_policy_active ctx);
              path_res = check_path_constraints env cmd (cx_cwd ctx) (cx_additional_directories ctx)
          in
          if pr_behavior path_res \<noteq> Passthrough \<and> (pr_behavior path_res = Deny \<or> strict) then path_res
          else if dangerous_readonly_argument (sc_argv cmd) \<noteq> None \<and> strict then
            reason_result Ask ''dangerous_readonly_argument''
              (''dangerous readonly argument requires confirmation: ''
               @ dangerous_arg_label (the (dangerous_readonly_argument (sc_argv cmd))))
          else
            let read_path_res = check_read_path_constraints env cmd (cx_cwd ctx) (cx_additional_directories ctx)
                  (cx_trusted_read_directories ctx) (cx_strict_read_directories ctx)
                  (cx_read_path_violation_behavior ctx) compound_has_cd
            in
            if pr_behavior read_path_res \<noteq> Passthrough \<and> (pr_behavior read_path_res = Deny \<or> strict)
              then read_path_res
            else if sc_is_complex cmd \<and> strict then
              reason_result Ask ''complex_command'' ''complex command requires confirmation''
            else (case blanket_allow of
                Some b \<Rightarrow> blanket_allow_result b
              | None \<Rightarrow>
                  if allow_m \<noteq> [] then
                    (let detail = ''matched allow rule(s): '' @ rule_list_text allow_m in
                     (reason_result Allow ''rule'' detail)\<lparr>
                       pr_audit := rule_audit allow_m detail (is_command_readonly cmd)\<rparr>)
                  else
                    let mode_res = check_permission_mode cmd (cx_mode ctx) in
                    if pr_behavior mode_res \<noteq> Passthrough then mode_res
                    else if is_command_readonly cmd then result_of Allow
                    else
                      let safety_res = check_safety env cmd (cx_cwd ctx) in
                      if pr_behavior safety_res \<noteq> Passthrough then safety_res
                      else result_of Passthrough))"

definition parse_kind_name :: "parse_kind \<Rightarrow> string" where
  "parse_kind_name k =
     (case k of Simple \<Rightarrow> ''simple'' | TooComplex \<Rightarrow> ''too_complex'' | ParseError \<Rightarrow> ''parse_error'')"

definition check_subcommands ::
  "os_env \<Rightarrow> string \<Rightarrow> ToolPermissionContext \<Rightarrow> (string \<times> string) option \<Rightarrow> SimpleCommand list \<Rightarrow> PermissionResult" where
  \<comment> \<open>the part of \<^verbatim>\<open>bash_tool_has_permission\<close> after the command was parsed into subcommands\<close>
  "check_subcommands env command ctx blanket_allow subcommands =
     (let strict = (blanket_allow = None \<or> safe_mode_path_policy_active ctx);
          cd_bases = filter (\<lambda>c. command_base c = Some ''cd'') subcommands;
          has_git = list_ex (\<lambda>c. command_base c = Some ''git'') subcommands
      in
      if length subcommands > MAX_SUBCOMMANDS \<and> strict then
        with_suggestions_if_needed
          (reason_result Ask ''compound_limit'' ''too many subcommands (>10)'') command subcommands []
      else if length cd_bases > 1 \<and> strict then
        with_suggestions_if_needed
          (reason_result Ask ''compound_cd'' ''multiple cd commands in compound command'') command subcommands []
      else if cd_bases \<noteq> [] \<and> has_git \<and> strict then
        with_suggestions_if_needed
          (reason_result Ask ''compound_cd_git'' ''cd combined with git in compound command'') command subcommands []
      else
        let sub_results = map (\<lambda>sc. bash_tool_check_permission env sc ctx (cd_bases \<noteq> []) blanket_allow) subcommands
        in with_suggestions_if_needed (merge_results sub_results) command subcommands sub_results)"

definition bash_tool_has_permission ::
  "(string \<Rightarrow> ts_node) \<Rightarrow> os_env \<Rightarrow> string \<Rightarrow> ToolPermissionContext \<Rightarrow> PermissionResult" where
  "bash_tool_has_permission ts_parse env command ctx =
     (if \<not> check_command_safety command then
        with_suggestions_if_needed
          (reason_result Ask ''safety_check'' ''command failed basic safety checks'') command [] []
      else
        let blanket_allow = configured_bash_blanket_allow (cx_allow_rules ctx);
            full_deny = matching_rules_with_sources command (cx_deny_rules ctx) Deny;
            full_ask = matching_rules_with_sources command (cx_ask_rules ctx) Ask
        in
        if full_deny \<noteq> [] then
          let detail = ''matched deny rule(s) on full command: '' @ rule_list_text full_deny in
          (reason_result Deny ''rule'' detail)\<lparr>
            pr_audit := rule_audit full_deny detail (command_text_is_readonly ts_parse command)\<rparr>
        else if blanket_allow \<noteq> None \<and> full_ask \<noteq> [] then
          let detail = ''matched ask rule(s): '' @ rule_list_text full_ask in
          (reason_result Ask ''rule'' detail)\<lparr>
            pr_audit := rule_audit full_ask detail (command_text_is_readonly ts_parse command)\<rparr>
        else
          let parsed = parse_command ts_parse command in
          if ps_kind parsed = TooComplex \<or> ps_kind parsed = ParseError then
            (if blanket_allow \<noteq> None \<and> \<not> safe_mode_path_policy_active ctx
               then blanket_allow_result (the blanket_allow)
             else
               let kind_label = (if ps_kind parsed = TooComplex then ''command too complex to analyze''
                                 else ''could not parse command'');
                   detail = (if ps_reason parsed \<noteq> [] then ps_reason parsed else kind_label)
               in with_suggestions_if_needed
                    (reason_result Ask (parse_kind_name (ps_kind parsed)) detail) command [] [])
          else if ps_commands parsed = [] then
            (if blanket_allow \<noteq> None \<and> \<not> safe_mode_path_policy_active ctx
               then blanket_allow_result (the blanket_allow)
             else with_suggestions_if_needed (result_of Passthrough) command [] [])
          else check_subcommands env command ctx blanket_allow (ps_commands parsed))"


section \<open>Behaviours, ordered from the most to the least restrictive\<close>

instantiation behavior :: linorder
begin

definition less_eq_behavior :: "behavior \<Rightarrow> behavior \<Rightarrow> bool" where
  "less_eq_behavior b c \<longleftrightarrow> behavior_order b \<le> behavior_order c"

definition less_behavior :: "behavior \<Rightarrow> behavior \<Rightarrow> bool" where
  "less_behavior b c \<longleftrightarrow> behavior_order b < behavior_order c"

instance
proof
  fix a b c :: behavior
  show "a < b \<longleftrightarrow> a \<le> b \<and> \<not> b \<le> a" by (auto simp: less_eq_behavior_def less_behavior_def)
  show "a \<le> a" by (simp add: less_eq_behavior_def)
  show "a \<le> b \<Longrightarrow> b \<le> c \<Longrightarrow> a \<le> c" by (simp add: less_eq_behavior_def)
  show "a \<le> b \<Longrightarrow> b \<le> a \<Longrightarrow> a = b" by (cases a; cases b) (simp_all add: less_eq_behavior_def)
  show "a \<le> b \<or> b \<le> a" by (auto simp: less_eq_behavior_def)
qed

end

lemma Deny_least [simp]: "Deny \<le> b"
  by (cases b) (simp_all add: less_eq_behavior_def)

lemma Allow_greatest [simp]: "b \<le> Allow"
  by (cases b) (simp_all add: less_eq_behavior_def)

lemma le_Deny_iff [simp]: "b \<le> Deny \<longleftrightarrow> b = Deny"
  by (cases b) (simp_all add: less_eq_behavior_def)

lemma Allow_le_iff [simp]: "Allow \<le> b \<longleftrightarrow> b = Allow"
  by (cases b) (simp_all add: less_eq_behavior_def)

text \<open>
  The contract of a combinator of partial verdicts: it answers with the verdict of one of its
  arguments, and with none that is weaker than another argument's.
\<close>

locale restrictive_merge =
  fixes verdict :: "'r \<Rightarrow> behavior" and merge :: "'r list \<Rightarrow> 'r"
  assumes merge_in: "rs \<noteq> [] \<Longrightarrow> \<exists>r \<in> set rs. verdict (merge rs) = verdict r"
    and merge_le: "r \<in> set rs \<Longrightarrow> verdict (merge rs) \<le> verdict r"
begin

lemma merge_Min: "rs \<noteq> [] \<Longrightarrow> verdict (merge rs) = Min (verdict ` set rs)"
  using merge_in [of rs] merge_le by (intro Min_eqI [symmetric]) (auto simp: image_iff)

lemma merge_Deny_iff: "rs \<noteq> [] \<Longrightarrow> verdict (merge rs) = Deny \<longleftrightarrow> (\<exists>r \<in> set rs. verdict r = Deny)"
  using merge_in merge_le by (metis le_Deny_iff)

lemma merge_Allow_iff: "rs \<noteq> [] \<Longrightarrow> verdict (merge rs) = Allow \<longleftrightarrow> (\<forall>r \<in> set rs. verdict r = Allow)"
  using merge_in merge_le by (metis Allow_le_iff)

lemma merge_set_cong: "rs \<noteq> [] \<Longrightarrow> set rs = set rs' \<Longrightarrow> verdict (merge rs) = verdict (merge rs')"
  by (metis merge_Min empty_set set_empty)

lemma merge_append: "rs \<noteq> [] \<Longrightarrow> rs' \<noteq> [] \<Longrightarrow>
    verdict (merge (rs @ rs')) = min (verdict (merge rs)) (verdict (merge rs'))"
  by (simp add: merge_Min image_Un Min_Un)

end

lemma best_result_in: "best_result best rs \<in> set (best # rs)"
  by (induction rs arbitrary: best) auto

lemma best_result_le:
  "r \<in> set (best # rs) \<Longrightarrow> pr_behavior (best_result best rs) \<le> pr_behavior r"
proof (induction rs arbitrary: best r)
  case (Cons x xs)
  show ?case
  proof (cases "pr_behavior x < pr_behavior best")
    case True
    then have eq: "best_result best (x # xs) = best_result x xs" by (simp add: less_behavior_def)
    from Cons.IH [of x x] have "pr_behavior (best_result x xs) \<le> pr_behavior x" by simp
    with Cons.prems Cons.IH [of r x] True show ?thesis unfolding eq by auto
  next
    case False
    then have eq: "best_result best (x # xs) = best_result best xs" by (simp add: less_behavior_def)
    from Cons.IH [of best best] have "pr_behavior (best_result best xs) \<le> pr_behavior best" by simp
    with Cons.prems Cons.IH [of r best] False show ?thesis unfolding eq by auto
  qed
qed simp

lemma merge_results_behavior:
  "pr_behavior (merge_results (r # rs)) = pr_behavior (best_result r rs)"
  by (simp add: merge_results_def Let_def result_of_def)

interpretation bash_merge: restrictive_merge pr_behavior merge_results
proof
  fix rs :: "PermissionResult list"
  assume "rs \<noteq> []"
  then obtain x xs where "rs = x # xs" by (cases rs) auto
  then show "\<exists>r \<in> set rs. pr_behavior (merge_results rs) = pr_behavior r"
    using best_result_in [of x xs] by (auto simp: merge_results_behavior)
next
  fix r :: PermissionResult and rs
  assume "r \<in> set rs"
  then obtain x xs where rs: "rs = x # xs" by (cases rs) auto
  from \<open>r \<in> set rs\<close> show "pr_behavior (merge_results rs) \<le> pr_behavior r"
    unfolding rs merge_results_behavior by (rule best_result_le)
qed

section \<open>Facts on rules\<close>

lemma with_suggestions_sel [simp, perm_simps]:
  "pr_behavior (with_suggestions_if_needed r c cs rs) = pr_behavior r"
  "pr_reason (with_suggestions_if_needed r c cs rs) = pr_reason r"
  "pr_audit (with_suggestions_if_needed r c cs rs) = pr_audit r"
  by (simp_all add: with_suggestions_if_needed_def Let_def result_of_def)

lemma blanket_allow_result_sel [simp, perm_simps]: "pr_behavior (blanket_allow_result b) = Allow"
  by (simp add: blanket_allow_result_def Let_def split: prod.splits)

text \<open>Deny and ask rules are matched against the command without its leading assignments.\<close>

definition rules_hit :: "string \<Rightarrow> rules_by_source \<Rightarrow> bool" where
  "rules_hit command rules = list_ex (\<lambda>(source, rs). list_ex (\<lambda>rule. rule_applies rule command) rs) rules"

lemma rules_hit_iff:
  "rules_hit command rules \<longleftrightarrow> (\<exists>(source, rs) \<in> set rules. \<exists>rule \<in> set rs. rule_applies rule command)"
  by (auto simp: rules_hit_def list_ex_iff)

lemma matching_rules_nonempty:
  "matching_rules_with_sources c rules Deny \<noteq> [] \<longleftrightarrow> rules_hit (normalize_command c) rules"
  "matching_rules_with_sources c rules Ask \<noteq> [] \<longleftrightarrow> rules_hit (normalize_command c) rules"
  "matching_rules_with_sources c rules Allow \<noteq> [] \<longleftrightarrow> rules_hit c rules"
  by (auto simp: matching_rules_with_sources_def rules_hit_iff find_matching_rules_def Let_def
      filter_empty_conv split: prod.splits)

lemma matching_rules_empty:
  "matching_rules_with_sources c rules Deny = [] \<longleftrightarrow> \<not> rules_hit (normalize_command c) rules"
  "matching_rules_with_sources c rules Ask = [] \<longleftrightarrow> \<not> rules_hit (normalize_command c) rules"
  "matching_rules_with_sources c rules Allow = [] \<longleftrightarrow> \<not> rules_hit c rules"
  using matching_rules_nonempty by blast+

lemma configured_bash_blanket_allow_SomeD:
  "configured_bash_blanket_allow rules = Some (source, rule) \<Longrightarrow>
     source \<in> set BASH_BLANKET_ALLOW_SOURCES \<and> strip rule = BASH_BLANKET_ALLOW_RULE
     \<and> (\<exists>rs. (source, rs) \<in> set rules \<and> rule \<in> set rs)"
  by (induction rules rule: configured_bash_blanket_allow.induct)
     (auto split: if_splits option.splits dest: find_SomeD)

lemma configured_bash_blanket_allow_iff:
  "configured_bash_blanket_allow rules = None \<longleftrightarrow>
     (\<forall>(source, rs) \<in> set rules. source \<in> set BASH_BLANKET_ALLOW_SOURCES \<longrightarrow>
        (\<forall>rule \<in> set rs. strip rule \<noteq> BASH_BLANKET_ALLOW_RULE))"
  by (induction rules rule: configured_bash_blanket_allow.induct)
     (auto split: option.splits simp: find_None_iff dest: find_SomeD)


section \<open>What an allowed command has passed\<close>

text \<open>
  The specification of a grant for one simple command without a blanket rule: it has words,
  no deny or ask rule applies, every path it writes or reads is inside the permitted roots, it
  has neither a dangerous argument nor a construct that hides commands, and either a rule, the
  accept-edits mode or its read-only nature grants it.
\<close>

definition subcommand_cleared :: "os_env \<Rightarrow> SimpleCommand \<Rightarrow> ToolPermissionContext \<Rightarrow> bool \<Rightarrow> bool" where
  "subcommand_cleared env cmd ctx cd \<longleftrightarrow>
     sc_argv cmd \<noteq> []
     \<and> \<not> rules_hit (normalize_command (sc_text cmd)) (cx_deny_rules ctx)
     \<and> \<not> rules_hit (normalize_command (sc_text cmd)) (cx_ask_rules ctx)
     \<and> pr_behavior (check_path_constraints env cmd (cx_cwd ctx) (cx_additional_directories ctx)) = Passthrough
     \<and> dangerous_readonly_argument (sc_argv cmd) = None
     \<and> pr_behavior (check_read_path_constraints env cmd (cx_cwd ctx) (cx_additional_directories ctx)
          (cx_trusted_read_directories ctx) (cx_strict_read_directories ctx)
          (cx_read_path_violation_behavior ctx) cd) = Passthrough
     \<and> \<not> sc_is_complex cmd"

definition subcommand_granted :: "SimpleCommand \<Rightarrow> ToolPermissionContext \<Rightarrow> bool" where
  "subcommand_granted cmd ctx \<longleftrightarrow>
     rules_hit (sc_text cmd) (cx_allow_rules ctx)
     \<or> (cx_mode ctx = ACCEPT_EDITS \<and> hd (sc_argv cmd) \<in> set FILESYSTEM_COMMANDS)
     \<or> is_command_readonly cmd"

lemma bash_check_permission_allow_iff:
  "pr_behavior (bash_tool_check_permission env cmd ctx cd None) = Allow \<longleftrightarrow>
     subcommand_cleared env cmd ctx cd \<and> subcommand_granted cmd ctx"
proof (cases "sc_argv cmd")
  case Nil
  then show ?thesis by (simp add: bash_tool_check_permission_def subcommand_cleared_def)
next
  case (Cons a as)
  have mode: "pr_behavior (check_permission_mode cmd (cx_mode ctx)) =
      (if cx_mode ctx = ACCEPT_EDITS \<and> a \<in> set FILESYSTEM_COMMANDS then Allow else Passthrough)"
    by (simp add: check_permission_mode_behavior Cons)
  have path: "pr_behavior (check_path_constraints env cmd (cx_cwd ctx) (cx_additional_directories ctx)) \<noteq> Allow"
    using check_path_constraints_behavior [of env cmd] by (metis behavior.distinct(3,5) empty_iff insertE)
  have rd: "pr_behavior (check_read_path_constraints env cmd (cx_cwd ctx) (cx_additional_directories ctx)
      (cx_trusted_read_directories ctx) (cx_strict_read_directories ctx)
      (cx_read_path_violation_behavior ctx) cd) \<noteq> Allow"
    using check_read_path_constraints_behavior [of env cmd] by (metis behavior.distinct(1,3,5) empty_iff insertE)
  have safe: "pr_behavior (check_safety env cmd (cx_cwd ctx)) \<noteq> Allow"
    using check_safety_behavior [of env cmd] by (metis behavior.distinct(3,5) empty_iff insertE)
  show ?thesis
    using path rd safe
    by (simp add: bash_tool_check_permission_def subcommand_cleared_def subcommand_granted_def Let_def
        matching_rules_empty Cons mode)
qed

text \<open>A deny rule that applies to a subcommand with words decides it, whatever else holds.\<close>

lemma bash_check_permission_deny_rule:
  assumes "sc_argv cmd \<noteq> []" and "rules_hit (normalize_command (sc_text cmd)) (cx_deny_rules ctx)"
  shows "pr_behavior (bash_tool_check_permission env cmd ctx cd blanket) = Deny"
  using assms by (simp add: bash_tool_check_permission_def matching_rules_empty Let_def)

lemma check_subcommands_cases:
  "pr_behavior (check_subcommands env command ctx blanket subs) =
     (let strict = (blanket = None \<or> safe_mode_path_policy_active ctx);
          cds = filter (\<lambda>c. command_base c = Some ''cd'') subs;
          git = list_ex (\<lambda>c. command_base c = Some ''git'') subs
      in if strict \<and> (length subs > MAX_SUBCOMMANDS \<or> length cds > 1 \<or> (cds \<noteq> [] \<and> git)) then Ask
         else pr_behavior (merge_results
           (map (\<lambda>sc. bash_tool_check_permission env sc ctx (cds \<noteq> []) blanket) subs)))"
  unfolding check_subcommands_def Let_def
  by (cases "blanket = None"; cases "safe_mode_path_policy_active ctx") (auto simp: with_suggestions_sel)

definition has_cd :: "SimpleCommand list \<Rightarrow> bool" where
  "has_cd subs \<longleftrightarrow> (\<exists>c \<in> set subs. command_base c = Some ''cd'')"

lemma check_subcommands_allow_iff:
  assumes "subs \<noteq> []"
  shows "pr_behavior (check_subcommands env command ctx None subs) = Allow \<longleftrightarrow>
     length subs \<le> MAX_SUBCOMMANDS
     \<and> length (filter (\<lambda>c. command_base c = Some ''cd'') subs) \<le> 1
     \<and> \<not> (has_cd subs \<and> (\<exists>c \<in> set subs. command_base c = Some ''git''))
     \<and> (\<forall>c \<in> set subs. subcommand_cleared env c ctx (has_cd subs) \<and> subcommand_granted c ctx)"
proof -
  have cd: "(filter (\<lambda>c. command_base c = Some ''cd'') subs \<noteq> []) = has_cd subs"
    by (simp add: has_cd_def filter_empty_conv)
  have merge: "pr_behavior (merge_results (map (\<lambda>sc. bash_tool_check_permission env sc ctx (has_cd subs) None) subs))
      = Allow \<longleftrightarrow> (\<forall>c \<in> set subs. subcommand_cleared env c ctx (has_cd subs) \<and> subcommand_granted c ctx)"
    using assms by (simp add: bash_merge.merge_Allow_iff bash_check_permission_allow_iff)
  show ?thesis
    unfolding check_subcommands_cases Let_def cd
    using merge by (auto simp: list_ex_iff not_less)
qed

lemma check_subcommands_deny_rule:
  assumes "sc \<in> set subs" and "sc_argv sc \<noteq> []"
    and "rules_hit (normalize_command (sc_text sc)) (cx_deny_rules ctx)"
  shows "pr_behavior (check_subcommands env command ctx blanket subs) \<in> {Ask, Deny}"
proof -
  have "subs \<noteq> []" using assms(1) by auto
  then have "pr_behavior (merge_results
      (map (\<lambda>sc. bash_tool_check_permission env sc ctx cd blanket) subs)) = Deny" for cd
    using assms by (auto simp: bash_merge.merge_Deny_iff intro!: bexI [of _ sc] bash_check_permission_deny_rule)
  then show ?thesis by (simp add: check_subcommands_cases Let_def)
qed

section \<open>Properties of the shell permission engine\<close>

lemma bash_has_permission_no_blanket:
  assumes "configured_bash_blanket_allow (cx_allow_rules ctx) = None"
  shows "pr_behavior (bash_tool_has_permission ts_parse env command ctx) =
     (if \<not> check_command_safety command then Ask
      else if rules_hit (normalize_command command) (cx_deny_rules ctx) then Deny
      else if ps_kind (parse_command ts_parse command) \<noteq> Simple then Ask
      else if ps_commands (parse_command ts_parse command) = [] then Passthrough
      else pr_behavior (check_subcommands env command ctx None (ps_commands (parse_command ts_parse command))))"
  using assms
  by (cases "ps_kind (parse_command ts_parse command)")
     (simp_all add: bash_tool_has_permission_def matching_rules_empty Let_def)

text \<open>
  C1: without a configured \<^verbatim>\<open>bash(**)\<close> rule the shell tool runs a command without a prompt exactly
  when its text is well formed, no deny rule applies to the full text, the parser understood it, it
  has one to ten subcommands with at most one \<^verbatim>\<open>cd\<close> and no \<^verbatim>\<open>cd\<close> beside \<^verbatim>\<open>git\<close>, and every subcommand
  passed each check and is granted by a rule, by the accept-edits mode or as read-only.
\<close>

theorem bash_allow_iff:
  assumes "configured_bash_blanket_allow (cx_allow_rules ctx) = None"
  shows "pr_behavior (bash_tool_has_permission ts_parse env command ctx) = Allow \<longleftrightarrow>
     (let parsed = parse_command ts_parse command; subs = ps_commands parsed in
      check_command_safety command
      \<and> \<not> rules_hit (normalize_command command) (cx_deny_rules ctx)
      \<and> ps_kind parsed = Simple \<and> subs \<noteq> [] \<and> length subs \<le> MAX_SUBCOMMANDS
      \<and> length (filter (\<lambda>c. command_base c = Some ''cd'') subs) \<le> 1
      \<and> \<not> (has_cd subs \<and> (\<exists>c \<in> set subs. command_base c = Some ''git''))
      \<and> (\<forall>c \<in> set subs. subcommand_cleared env c ctx (has_cd subs) \<and> subcommand_granted c ctx))"
  unfolding Let_def bash_has_permission_no_blanket [OF assms]
  by (cases "ps_commands (parse_command ts_parse command) = []") (auto simp: check_subcommands_allow_iff)

theorem bash_allow_iff_witness:
  "pr_behavior (bash_tool_has_permission (\<lambda>_. program_of [[''ls'']]) plain_env ''ls'' default_context) = Allow \<longleftrightarrow>
     (let parsed = parse_command (\<lambda>_. program_of [[''ls'']]) ''ls''; subs = ps_commands parsed in
      check_command_safety ''ls''
      \<and> \<not> rules_hit (normalize_command ''ls'') (cx_deny_rules default_context)
      \<and> ps_kind parsed = Simple \<and> subs \<noteq> [] \<and> length subs \<le> MAX_SUBCOMMANDS
      \<and> length (filter (\<lambda>c. command_base c = Some ''cd'') subs) \<le> 1
      \<and> \<not> (has_cd subs \<and> (\<exists>c \<in> set subs. command_base c = Some ''git''))
      \<and> (\<forall>c \<in> set subs. subcommand_cleared plain_env c default_context (has_cd subs)
           \<and> subcommand_granted c default_context))"
  by (rule bash_allow_iff) (simp add: default_context_def)

text \<open>
  C2: a deny rule is not overridden by an allow rule or a mode. The command is not allowed if a deny rule
  applies to its full text; nor is it, when the parser understood it, if a deny rule applies to the text of
  a subcommand that has words, whatever allow rules there are, even a configured \<^verbatim>\<open>bash(**)\<close>; nor if a deny
  rule applies to a subcommand without words (such as a bare command substitution) and no \<^verbatim>\<open>bash(**)\<close> is
  configured. In the first two cases the verdict is ask or deny, and on a well-formed text that matches
  as a whole it is deny. (A configured \<^verbatim>\<open>bash(**)\<close> does grant a subcommand without words before its deny rules
  are looked at: \<open>blanket_skips_deny_without_words\<close>.)
\<close>

theorem bash_deny_rule_wins:
  assumes hit: "rules_hit (normalize_command command) (cx_deny_rules ctx)
      \<or> (ps_kind (parse_command ts_parse command) = Simple
         \<and> (\<exists>sc \<in> set (ps_commands (parse_command ts_parse command)).
              (sc_argv sc \<noteq> [] \<or> configured_bash_blanket_allow (cx_allow_rules ctx) = None)
              \<and> rules_hit (normalize_command (sc_text sc)) (cx_deny_rules ctx)))"
  shows "pr_behavior (bash_tool_has_permission ts_parse env command ctx) \<noteq> Allow
     \<and> (rules_hit (normalize_command command) (cx_deny_rules ctx)
          \<or> (\<exists>sc \<in> set (ps_commands (parse_command ts_parse command)). ps_kind (parse_command ts_parse command) = Simple
               \<and> sc_argv sc \<noteq> [] \<and> rules_hit (normalize_command (sc_text sc)) (cx_deny_rules ctx))
          \<longrightarrow> pr_behavior (bash_tool_has_permission ts_parse env command ctx) \<in> {Ask, Deny})
     \<and> (check_command_safety command \<and> rules_hit (normalize_command command) (cx_deny_rules ctx) \<longrightarrow>
          pr_behavior (bash_tool_has_permission ts_parse env command ctx) = Deny)"
proof (cases "rules_hit (normalize_command command) (cx_deny_rules ctx)")
  case True
  then show ?thesis by (simp add: bash_tool_has_permission_def matching_rules_empty Let_def)
next
  case False
  let ?subs = "ps_commands (parse_command ts_parse command)"
  have words: "pr_behavior (bash_tool_has_permission ts_parse env command ctx) \<in> {Ask, Deny}"
    if "sc \<in> set ?subs" "ps_kind (parse_command ts_parse command) = Simple" "sc_argv sc \<noteq> []"
      "rules_hit (normalize_command (sc_text sc)) (cx_deny_rules ctx)" for sc
  proof -
    have "pr_behavior (check_subcommands env command ctx blanket ?subs) \<in> {Ask, Deny}" for blanket
      using that by (metis check_subcommands_deny_rule)
    moreover have "?subs \<noteq> []" using that(1) by auto
    ultimately show ?thesis
      using False that(2) by (simp add: bash_tool_has_permission_def matching_rules_empty Let_def)
  qed
  from hit False obtain sc where sc: "sc \<in> set ?subs" "ps_kind (parse_command ts_parse command) = Simple"
      "rules_hit (normalize_command (sc_text sc)) (cx_deny_rules ctx)"
      "sc_argv sc \<noteq> [] \<or> configured_bash_blanket_allow (cx_allow_rules ctx) = None"
    by blast
  have "pr_behavior (bash_tool_has_permission ts_parse env command ctx) \<noteq> Allow"
  proof (cases "sc_argv sc = []")
    case True
    then show ?thesis
      using sc by (auto simp: bash_has_permission_no_blanket check_subcommands_allow_iff subcommand_cleared_def)
  next
    case False
    then show ?thesis using words [OF sc(1,2) _ sc(3)] by auto
  qed
  then show ?thesis using words False by blast
qed

definition deny_rm_context :: ToolPermissionContext where
  "deny_rm_context = default_context\<lparr>cx_allow_rules := [(''user_settings'', [''bash(**)''])],
     cx_deny_rules := [(''user_settings'', [''bash(rm:*)''])]\<rparr>"

theorem bash_deny_rule_wins_witness:
  "pr_behavior (bash_tool_has_permission (\<lambda>_. program_of [[''ls''], [''rm'', ''x'']]) plain_env
      ''ls; rm x'' deny_rm_context) \<in> {Ask, Deny}"
proof -
  have hit: "rules_hit (normalize_command ''rm x'') (cx_deny_rules deny_rm_context)"
    by code_simp
  have "\<exists>sc \<in> set (ps_commands (parse_command (\<lambda>_. program_of [[''ls''], [''rm'', ''x'']]) ''ls; rm x'')).
      ps_kind (parse_command (\<lambda>_. program_of [[''ls''], [''rm'', ''x'']]) ''ls; rm x'') = Simple
      \<and> sc_argv sc \<noteq> [] \<and> rules_hit (normalize_command (sc_text sc)) (cx_deny_rules deny_rm_context)"
    using hit by (simp add: parse_program_of)
  then show ?thesis
    using bash_deny_rule_wins [of "''ls; rm x''" deny_rm_context "\<lambda>_. program_of [[''ls''], [''rm'', ''x'']]" plain_env]
    by blast
qed

lemma bash_allow_subcommand_cleared:
  assumes "configured_bash_blanket_allow (cx_allow_rules ctx) = None"
    and "pr_behavior (bash_tool_has_permission ts_parse env command ctx) = Allow"
    and "sc \<in> set (ps_commands (parse_command ts_parse command))"
  shows "subcommand_cleared env sc ctx (has_cd (ps_commands (parse_command ts_parse command)))
     \<and> subcommand_granted sc ctx"
  using assms by (auto simp: bash_has_permission_no_blanket check_subcommands_allow_iff split: if_splits)

text \<open>
  C3: when no \<^verbatim>\<open>bash(**)\<close> rule is configured, every write target that the path scanner extracts from a
  subcommand of an allowed command (\<open>write_candidates\<close>: the operands of the file commands it knows and the
  targets of the output redirects it recognises) is a pseudo device or resolves below the working
  directory or one of the additional directories. The scanner does not see every write of a shell:
  \<open>accept_edits_touch_anywhere\<close> and \<open>clobber_redirect_escapes\<close> are writes it misses.
\<close>

theorem bash_allow_writes_contained:
  assumes "configured_bash_blanket_allow (cx_allow_rules ctx) = None"
    and "pr_behavior (bash_tool_has_permission ts_parse env command ctx) = Allow"
    and "sc \<in> set (ps_commands (parse_command ts_parse command))"
    and "p \<in> set (write_candidates sc)"
  shows "write_contained env sc (cx_cwd ctx) (cx_additional_directories ctx) p"
  using bash_allow_subcommand_cleared [OF assms(1-3)] assms(4)
  by (simp add: subcommand_cleared_def check_path_constraints_passthrough_iff check_write_candidate_None_iff)

definition edit_context :: ToolPermissionContext where
  "edit_context = default_context\<lparr>cx_mode := ACCEPT_EDITS, cx_cwd := ''/work''\<rparr>"

lemma plain_command_eval:
  assumes "ws \<noteq> []" and "[] \<notin> set ws" and "ctx_blanket = configured_bash_blanket_allow (cx_allow_rules ctx)"
    and "check_command_safety text" and "ctx_blanket = None"
    and "\<not> rules_hit (normalize_command text) (cx_deny_rules ctx)"
  shows "pr_behavior (bash_tool_has_permission (\<lambda>_. program_of [ws]) env text ctx) =
     pr_behavior (check_subcommands env text ctx None
       [\<lparr>sc_text = join_with '' '' ws, sc_argv = ws, sc_redirects = [],
         sc_is_complex = (strip (hd ws) \<noteq> [] \<and> first_word (strip (hd ws)) \<in> set DANGEROUS_BUILTINS)\<rparr>])"
  using assms by (simp add: bash_has_permission_no_blanket parse_program_of)

theorem bash_allow_writes_contained_witness:
  "write_contained plain_env
     \<lparr>sc_text = ''mkdir sub/a'', sc_argv = [''mkdir'', ''sub/a''], sc_redirects = [], sc_is_complex = False\<rparr>
     ''/work'' [] ''sub/a''"
proof -
  let ?ts = "\<lambda>_::string. program_of [[''mkdir'', ''sub/a'']]"
  let ?sc = "\<lparr>sc_text = ''mkdir sub/a'', sc_argv = [''mkdir'', ''sub/a''], sc_redirects = [], sc_is_complex = False\<rparr>"
  have none: "configured_bash_blanket_allow (cx_allow_rules edit_context) = None"
    by code_simp
  have parsed: "ps_commands (parse_command ?ts ''mkdir sub/a'') = [?sc]"
    by code_simp
  have allow: "pr_behavior (bash_tool_has_permission ?ts plain_env ''mkdir sub/a'' edit_context) = Allow"
    by code_simp
  have "''sub/a'' \<in> set (write_candidates ?sc)" by code_simp
  with bash_allow_writes_contained [OF none allow, of ?sc "''sub/a''"]
  show ?thesis by (simp add: parsed edit_context_def default_context_def)
qed

text \<open>
  C4: when no \<^verbatim>\<open>bash(**)\<close> rule is configured and the configured reaction to a read outside the permitted
  directories is not to allow it, every read path that the scanner extracts from a subcommand of an allowed
  command (\<open>read_candidates\<close>: the operands of the reading commands it knows and the sources of the input
  redirects it recognises; reads of other programs are not seen) resolves inside the strict read directories
  when there are any, and otherwise inside a trusted directory or, not being sensitive, inside the working
  directory, the additional directories or the installed package; if the command contains a \<^verbatim>\<open>cd\<close> it is an
  absolute path.
\<close>

theorem bash_allow_reads_contained:
  assumes "configured_bash_blanket_allow (cx_allow_rules ctx) = None"
    and "pr_behavior (bash_tool_has_permission ts_parse env command ctx) = Allow"
    and "sc \<in> set (ps_commands (parse_command ts_parse command))"
    and "p \<in> set (read_candidates sc)"
    and "cx_read_path_violation_behavior ctx \<noteq> Allow"
  shows "read_contained env (cx_cwd ctx) (cx_additional_directories ctx) (cx_trusted_read_directories ctx)
           (cx_strict_read_directories ctx) p
     \<and> (has_cd (ps_commands (parse_command ts_parse command)) \<longrightarrow> \<not> is_relative_read_path p)"
  using bash_allow_subcommand_cleared [OF assms(1-3)] assms(4,5)
  by (auto simp: subcommand_cleared_def check_read_candidate_None_iff
      dest: check_read_path_constraints_passthroughD)

definition work_context :: ToolPermissionContext where
  "work_context = default_context\<lparr>cx_cwd := ''/work''\<rparr>"

theorem bash_allow_reads_contained_witness:
  "read_contained plain_env ''/work'' [] [] [] ''src/main.tf''"
proof -
  let ?ts = "\<lambda>_::string. program_of [[''cat'', ''src/main.tf'']]"
  let ?sc = "\<lparr>sc_text = ''cat src/main.tf'', sc_argv = [''cat'', ''src/main.tf''], sc_redirects = [], sc_is_complex = False\<rparr>"
  have none: "configured_bash_blanket_allow (cx_allow_rules work_context) = None"
    by code_simp
  have parsed: "ps_commands (parse_command ?ts ''cat src/main.tf'') = [?sc]"
    by code_simp
  have allow: "pr_behavior (bash_tool_has_permission ?ts plain_env ''cat src/main.tf'' work_context) = Allow"
    by code_simp
  have "''src/main.tf'' \<in> set (read_candidates ?sc)" by code_simp
  with bash_allow_reads_contained [OF none allow, of ?sc "''src/main.tf''"]
  show ?thesis by (simp add: parsed work_context_def default_context_def)
qed

text \<open>
  In a context without allow rules and outside the accept-edits mode, a command that runs without
  a prompt consists of subcommands that are classified read-only, have no redirect and none of the
  arguments that make such a command write or execute.
\<close>

theorem bash_allow_without_rules_readonly:
  assumes "cx_allow_rules ctx = []" and "cx_mode ctx \<noteq> ACCEPT_EDITS"
    and "pr_behavior (bash_tool_has_permission ts_parse env command ctx) = Allow"
    and "sc \<in> set (ps_commands (parse_command ts_parse command))"
  shows "is_command_readonly sc \<and> sc_redirects sc = [] \<and> \<not> sc_is_complex sc
     \<and> dangerous_readonly_argument (sc_argv sc) = None"
proof -
  have "configured_bash_blanket_allow (cx_allow_rules ctx) = None" by (simp add: assms(1))
  from bash_allow_subcommand_cleared [OF this assms(3,4)] assms(1,2)
  show ?thesis
    by (auto simp: subcommand_cleared_def subcommand_granted_def rules_hit_def dest: is_command_readonlyD)
qed

theorem bash_allow_without_rules_readonly_witness:
  "is_command_readonly
     \<lparr>sc_text = ''git log'', sc_argv = [''git'', ''log''], sc_redirects = [], sc_is_complex = False\<rparr>"
proof -
  let ?ts = "\<lambda>_::string. program_of [[''git'', ''log'']]"
  have parsed: "ps_commands (parse_command ?ts ''git log'') =
      [\<lparr>sc_text = ''git log'', sc_argv = [''git'', ''log''], sc_redirects = [], sc_is_complex = False\<rparr>]"
    by code_simp
  have allow: "pr_behavior (bash_tool_has_permission ?ts plain_env ''git log'' work_context) = Allow"
    by code_simp
  have rules: "cx_allow_rules work_context = []" and mode: "cx_mode work_context \<noteq> ACCEPT_EDITS"
    by (simp_all add: work_context_def default_context_def)
  show ?thesis
    using bash_allow_without_rules_readonly [OF rules mode allow] by (simp add: parsed)
qed

lemma configured_blanket_dict_set_session:
  "configured_bash_blanket_allow (dict_set SESSION_KEY rs rules) = configured_bash_blanket_allow rules"
  by (induction rules)
     (auto simp: SESSION_KEY_def BASH_BLANKET_ALLOW_SOURCES_def split: option.splits)

text \<open>
  a rule granted during the session, whatever its text, never becomes a blanket grant: the
  configured blanket rule is the same before and after it is stored.
\<close>

theorem session_rule_keeps_blanket:
  assumes "apply_session_rule ctx b rv = Inr ctx'"
  shows "configured_bash_blanket_allow (cx_allow_rules ctx') = configured_bash_blanket_allow (cx_allow_rules ctx)"
  using assms
  by (auto simp: apply_session_rule_def Let_def bucket_append_def configured_blanket_dict_set_session
      split: if_splits)

theorem session_rule_keeps_blanket_witness:
  "configured_bash_blanket_allow (cx_allow_rules
     (default_context\<lparr>cx_allow_rules := [(''session'', [''bash(**)''])]\<rparr>)) = None"
  using session_rule_keeps_blanket [of default_context "''allow''" "bash_rule_value ''**''"
      "default_context\<lparr>cx_allow_rules := [(''session'', [''bash(**)''])]\<rparr>"]
  by (simp add: apply_session_rule_def bucket_append_def SESSION_KEY_def format_rule_def
      bash_rule_value_def default_context_def)

end
