(* ===== verification/Bash_Boundaries.thy ===== *)
theory Bash_Boundaries
  imports Bash_Permissions
begin

text \<open>
  Where the shell permission engine of \<^verbatim>\<open>src/src/iac_code/tools/bash/\<close> grants more than its
  documentation promises. Each statement is a theorem about the model of the preceding
  theories, most of them for all inputs of a shape.
\<close>

section \<open>Version flags\<close>

definition plain_command :: "argv \<Rightarrow> SimpleCommand" where
  "plain_command ws = \<lparr>sc_text = join_with '' '' ws, sc_argv = ws, sc_redirects = [], sc_is_complex = False\<rparr>"

lemma plain_command_sel [simp]:
  "sc_text (plain_command ws) = join_with '' '' ws" "sc_argv (plain_command ws) = ws"
  "sc_redirects (plain_command ws) = []" "sc_is_complex (plain_command ws) = False"
  by (simp_all add: plain_command_def)

lemma version_flag_is_readonly:
  "is_command_readonly (plain_command (ws @ [''--version'']))"
  by (simp add: is_command_readonly_def)

definition ruleless :: "ToolPermissionContext \<Rightarrow> bool" where
  "ruleless ctx \<longleftrightarrow> cx_allow_rules ctx = [] \<and> cx_deny_rules ctx = [] \<and> cx_ask_rules ctx = []"

lemma ruleless_single_allow_iff:
  assumes "ruleless ctx" and "ws \<noteq> []"
  shows "pr_behavior (bash_tool_check_permission env (plain_command ws) ctx cd None) = Allow \<longleftrightarrow>
     (\<forall>p \<in> set (write_candidates (plain_command ws)).
        write_contained env (plain_command ws) (cx_cwd ctx) (cx_additional_directories ctx) p)
     \<and> dangerous_readonly_argument ws = None
     \<and> pr_behavior (check_read_path_constraints env (plain_command ws) (cx_cwd ctx) (cx_additional_directories ctx)
          (cx_trusted_read_directories ctx) (cx_strict_read_directories ctx)
          (cx_read_path_violation_behavior ctx) cd) = Passthrough
     \<and> ((cx_mode ctx = ACCEPT_EDITS \<and> hd ws \<in> set FILESYSTEM_COMMANDS) \<or> is_command_readonly (plain_command ws))"
  using assms
  by (auto simp: bash_check_permission_allow_iff subcommand_cleared_def subcommand_granted_def ruleless_def
      rules_hit_def check_path_constraints_passthrough_iff
      check_write_candidate_None_iff [of env "plain_command ws", simplified])

text \<open>A command outside the tables of file and read commands has no candidate path at all.\<close>

lemma write_candidates_untracked:
  assumes "path_basename cmd \<notin> set PATH_COMMANDS"
  shows "write_candidates (plain_command (cmd # args)) = []"
  using assms
  by (simp add: write_candidates_def argv_paths_def write_redirect_paths_def
      map_filter_def)

lemma read_check_untracked:
  assumes "basename cmd \<notin> set READ_PATH_COMMANDS" and "basename cmd \<notin> set IMPLICIT_CURRENT_DIRECTORY_READ_COMMANDS"
  shows "pr_behavior (check_read_path_constraints env (plain_command (cmd # args)) cwd ds tr st v cd) = Passthrough"
  using assms
  by (simp add: check_read_path_constraints_def read_candidates_def extract_read_paths_def
      read_redirect_paths_def map_filter_def command_implicitly_reads_current_directory_def Let_def)

text \<open>
  The words after a command do not matter to the classification once the last one is a version flag:
  any program that is neither a file command nor a read command, such as a shell with a script as its
  argument, runs without a prompt in a context without rules.
\<close>

theorem version_flag_grants_any_command:
  assumes "ruleless ctx"
    and "path_basename cmd \<notin> set PATH_COMMANDS" "path_basename cmd \<notin> set READ_PATH_COMMANDS"
    and "path_basename cmd \<notin> set IMPLICIT_CURRENT_DIRECTORY_READ_COMMANDS"
  shows "pr_behavior (bash_tool_check_permission env (plain_command (cmd # args @ [''--version''])) ctx cd None)
     = Allow"
proof -
  have "path_basename cmd \<notin> {''find'', ''fd'', ''sed'', ''rg'', ''sort''}"
    using assms(3) by (auto simp: READ_PATH_COMMANDS_def)
  then have "dangerous_readonly_argument (cmd # args @ [''--version'']) = None"
    by (simp add: dangerous_readonly_argument_def basename_def)
  then show ?thesis
    using assms version_flag_is_readonly [of "cmd # args"]
    by (simp add: ruleless_single_allow_iff write_candidates_untracked read_check_untracked basename_def)
qed

theorem version_flag_grants_any_command_witness:
  "pr_behavior (bash_tool_check_permission plain_env
     (plain_command [''bash'', ''-c'', ''rm -rf /srv'', ''--version'']) work_context False None) = Allow"
  using version_flag_grants_any_command [of work_context "''bash''" plain_env "[''-c'', ''rm -rf /srv'']" False]
  by (simp add: ruleless_def work_context_def default_context_def path_basename_id PATH_COMMANDS_def READ_PATH_COMMANDS_def
      IMPLICIT_CURRENT_DIRECTORY_READ_COMMANDS_def slash_def)

section \<open>A blanket rule and subcommands without words\<close>

text \<open>
  a configured \<^verbatim>\<open>bash(**)\<close> grants a subcommand without words, such as a bare command substitution, before the
  deny rules for it are looked at, although every subcommand with words is checked against them first.
\<close>

theorem blanket_skips_deny_without_words:
  assumes "sc_argv cmd = []" and "\<not> safe_mode_path_policy_active ctx"
  shows "pr_behavior (bash_tool_check_permission env cmd ctx cd (Some blanket)) = Allow"
  using assms by (cases blanket) (simp add: bash_tool_check_permission_def blanket_allow_result_def Let_def)

section \<open>The accept-edits mode\<close>

text \<open>
  in the accept-edits mode \<^verbatim>\<open>touch\<close> runs without a prompt on any path whatsoever, outside the
  working directory and on sensitive files too: the path check does not know the command and the
  sensitive-path check comes after the mode.
\<close>

theorem accept_edits_touch_anywhere:
  assumes "ruleless ctx" and "cx_mode ctx = ACCEPT_EDITS"
  shows "pr_behavior (bash_tool_check_permission env (plain_command (''touch'' # paths)) ctx cd None) = Allow"
proof -
  have base: "path_basename ''touch'' = ''touch''" by code_simp
  then have "dangerous_readonly_argument (''touch'' # paths) = None"
    by (simp add: dangerous_readonly_argument_def basename_def)
  moreover have "write_candidates (plain_command (''touch'' # paths)) = []"
    by (rule write_candidates_untracked) (simp add: base PATH_COMMANDS_def)
  moreover have "pr_behavior (check_read_path_constraints env (plain_command (''touch'' # paths)) (cx_cwd ctx)
      (cx_additional_directories ctx) (cx_trusted_read_directories ctx) (cx_strict_read_directories ctx)
      (cx_read_path_violation_behavior ctx) cd) = Passthrough"
    by (rule read_check_untracked)
       (simp_all add: basename_def base READ_PATH_COMMANDS_def IMPLICIT_CURRENT_DIRECTORY_READ_COMMANDS_def)
  ultimately show ?thesis
    using assms by (simp add: ruleless_single_allow_iff FILESYSTEM_COMMANDS_def)
qed

theorem accept_edits_touch_anywhere_witness:
  "pr_behavior (bash_tool_check_permission plain_env (plain_command [''touch'', ''/home/u/.ssh/authorized_keys''])
     edit_context False None) = Allow \<and> path_hits_sensitive ''/home/u/.ssh/authorized_keys'' SENSITIVE_PATHS"
proof -
  have "path_hits_sensitive ''/home/u/.ssh/authorized_keys'' SENSITIVE_PATHS" by code_simp
  then show ?thesis
    using accept_edits_touch_anywhere [of edit_context plain_env "[''/home/u/.ssh/authorized_keys'']" False]
    by (simp add: ruleless_def edit_context_def default_context_def)
qed

section \<open>Constructs the scanners miss\<close>

definition allow_context :: "string \<Rightarrow> ToolPermissionContext" where
  "allow_context rule = work_context\<lparr>cx_allow_rules := [(''user_settings'', [rule])]\<rparr>"

text \<open>
  the clobbering redirect \<^verbatim>\<open>>|\<close> hides its target. With a rule that allows \<^verbatim>\<open>echo\<close>, writing a
  system file through \<^verbatim>\<open>>\<close> asks for confirmation and the same write through \<^verbatim>\<open>>|\<close> does not: the target
  is read with the bar and taken for a relative path.
\<close>

theorem clobber_redirect_escapes:
  "write_redirect_paths [''>| /etc/passwd''] = [''| /etc/passwd'']
   \<and> pr_behavior (bash_tool_check_permission plain_env
        \<lparr>sc_text = ''echo x > /etc/passwd'', sc_argv = [''echo'', ''x''], sc_redirects = [''> /etc/passwd''],
         sc_is_complex = False\<rparr> (allow_context ''bash(echo:*)'') False None) = Ask
   \<and> pr_behavior (bash_tool_check_permission plain_env
        \<lparr>sc_text = ''echo x >| /etc/passwd'', sc_argv = [''echo'', ''x''], sc_redirects = [''>| /etc/passwd''],
         sc_is_complex = False\<rparr> (allow_context ''bash(echo:*)'') False None) = Allow"
proof (intro conjI)
  show "write_redirect_paths [''>| /etc/passwd''] = [''| /etc/passwd'']" by code_simp
  show "pr_behavior (bash_tool_check_permission plain_env
        \<lparr>sc_text = ''echo x > /etc/passwd'', sc_argv = [''echo'', ''x''], sc_redirects = [''> /etc/passwd''],
         sc_is_complex = False\<rparr> (allow_context ''bash(echo:*)'') False None) = Ask" by code_simp
  show "pr_behavior (bash_tool_check_permission plain_env
        \<lparr>sc_text = ''echo x >| /etc/passwd'', sc_argv = [''echo'', ''x''], sc_redirects = [''>| /etc/passwd''],
         sc_is_complex = False\<rparr> (allow_context ''bash(echo:*)'') False None) = Allow" by code_simp
qed

text \<open>
  the search for a script file of \<^verbatim>\<open>sed\<close> ends at the first operand, although the path scanner of the
  same module goes on: a script file named before it is flagged as dangerous, one named after it is
  not, and the command counts as read-only.
\<close>

theorem sed_script_file_after_operand:
  "dangerous_readonly_argument [''sed'', ''-f'', ''a.sed'', ''p''] = Some ''sed script file''
   \<and> dangerous_readonly_argument [''sed'', ''p'', ''-f'', ''a.sed''] = None
   \<and> is_command_readonly (plain_command [''sed'', ''p'', ''-f'', ''a.sed''])
   \<and> ''a.sed'' \<in> set (extract_read_paths [''sed'', ''p'', ''-f'', ''a.sed''])"
proof (intro conjI)
  show "dangerous_readonly_argument [''sed'', ''-f'', ''a.sed'', ''p''] = Some ''sed script file''" by code_simp
  show "dangerous_readonly_argument [''sed'', ''p'', ''-f'', ''a.sed''] = None" by code_simp
  show "is_command_readonly (plain_command [''sed'', ''p'', ''-f'', ''a.sed''])" by code_simp
  show "''a.sed'' \<in> set (extract_read_paths [''sed'', ''p'', ''-f'', ''a.sed''])" by code_simp
qed

text \<open>
  A declaration such as \<^verbatim>\<open>export X=$(cmd)\<close> is recorded as a plain command whatever it contains, while
  an ordinary command is recorded as complex as soon as one of its children holds a substitution.
\<close>

theorem declaration_never_complex:
  assumes "nd_type node = ''declaration_command''" and "nd_type cmd = ''command''"
    and "ch \<in> set (nd_children cmd)" and "has_complex_descendant ch"
  shows "map sc_is_complex (collect_commands node) = [False]
     \<and> map sc_is_complex (collect_commands cmd) = [True]"
  using assms
  by (auto simp: collect_commands.simps [of node] collect_commands.simps [of cmd] build_simple_command_def
      node_is_complex_def list_ex_iff)

theorem declaration_never_complex_witness:
  "map sc_is_complex (collect_commands (Node ''declaration_command'' ''export X=$(id)'' False False True
     [Node ''variable_assignment'' ''X=$(id)'' False False True [leaf ''command_substitution'' ''$(id)'']])) = [False]"
  using declaration_never_complex [of "Node ''declaration_command'' ''export X=$(id)'' False False True
     [Node ''variable_assignment'' ''X=$(id)'' False False True [leaf ''command_substitution'' ''$(id)'']]"
     "Node ''command'' ''echo $(id)'' False False True [leaf ''command_substitution'' ''$(id)'']"
     "leaf ''command_substitution'' ''$(id)''"]
  by (simp add: has_complex_descendant.simps complex_here_def TOO_COMPLEX_TYPES_def leaf_def)

end
