(* ===== verification/Permission_Pipeline.thy ===== *)
theory Permission_Pipeline
  imports Bash_Permissions
begin

text \<open>
  \<^verbatim>\<open>src/src/iac_code/services/permissions/pipeline.py\<close>: the decision every tool call goes
  through, and the permission side of the built-in tools it is applied to
  (\<^verbatim>\<open>tools/base.py\<close>, \<^verbatim>\<open>tools/bash/bash_tool.py\<close>, \<^verbatim>\<open>tools/read_file.py\<close>,
  \<^verbatim>\<open>tools/write_file.py\<close>, \<^verbatim>\<open>tools/edit_file.py\<close>). A tool is the record of the members the
  pipeline reads; a tool input is a dictionary whose values have the types of the tool's
  \<^verbatim>\<open>input_schema\<close>.
\<close>

section \<open>Tools\<close>

record Tool =
  tl_name :: string
  tl_is_read_only :: "pydict \<Rightarrow> bool"
  tl_check_permissions :: "pydict \<Rightarrow> ToolPermissionContext \<Rightarrow> PermissionResult"
  tl_permission_audit_operation :: "pydict \<Rightarrow> pydict"
  tl_supports_blanket_allow :: bool
  tl_uses_operation_scoped_permissions :: bool
  tl_user_facing_name :: "pydict \<Rightarrow> string"

definition allow_question :: "string \<Rightarrow> string" where
  "allow_question name = ''Allow '' @ name @ ''?''"

definition base_check_permissions :: "bool \<Rightarrow> string \<Rightarrow> PermissionResult" where
  \<comment> \<open>\<^verbatim>\<open>Tool.check_permissions\<close>, given \<^verbatim>\<open>is_read_only(input)\<close> and \<^verbatim>\<open>user_facing_name(input)\<close>\<close>
  "base_check_permissions read_only name =
     (if read_only then result_of Allow else (result_of Ask)\<lparr>pr_message := allow_question name\<rparr>)"

definition get_str :: "pydict \<Rightarrow> string \<Rightarrow> string" where
  \<comment> \<open>\<^verbatim>\<open>input.get(key, "")\<close> of a string-valued parameter\<close>
  "get_str input key = (case map_of input key of Some (PyStr s) \<Rightarrow> s | _ \<Rightarrow> [])"

definition bash_check_permissions ::
  "(string \<Rightarrow> ts_node) \<Rightarrow> os_env \<Rightarrow> pydict \<Rightarrow> ToolPermissionContext \<Rightarrow> PermissionResult" where
  "bash_check_permissions ts_parse env input ctx =
     (let command = get_str input ''command'' in
      if command = [] then result_of Allow
      else bash_tool_has_permission ts_parse env command ctx)"

definition input_path :: "pydict \<Rightarrow> string" where
  \<comment> \<open>\<^verbatim>\<open>input.get("path") or input.get("file_path")\<close>\<close>
  "input_path input =
     (if get_str input ''path'' \<noteq> [] then get_str input ''path'' else get_str input ''file_path'')"

definition read_file_check_permissions :: "os_env \<Rightarrow> pydict \<Rightarrow> ToolPermissionContext \<Rightarrow> PermissionResult" where
  "read_file_check_permissions env input ctx =
     (let path = input_path input in
      if path = [] then reason_result Ask ''path_constraint'' ''Read file path is required.''
      else
        let decision = check_read_path env path (cx_cwd ctx) (cx_additional_directories ctx)
              (cx_trusted_read_directories ctx) (cx_relative_read_directories ctx)
              (cx_strict_read_directories ctx) (cx_read_path_violation_behavior ctx)
        in if rd_behavior decision = Allow then result_of Allow else to_permission_result decision)"

definition write_file_check_permissions :: "os_env \<Rightarrow> pydict \<Rightarrow> ToolPermissionContext \<Rightarrow> PermissionResult" where
  "write_file_check_permissions env input ctx =
     (let path = input_path input in
      if path = [] then reason_result Ask ''path_constraint'' ''write file path is required''
      else
        let decision = check_write_path env path (cx_cwd ctx) (cx_additional_directories ctx)
        in if rd_behavior decision = Ask then to_permission_result decision
           else base_check_permissions False ''Write'')"

definition edit_user_facing_name :: "pydict \<Rightarrow> string" where
  "edit_user_facing_name input =
     (case map_of input ''old_string'' of
        None \<Rightarrow> ''Edit''
      | Some v \<Rightarrow> if v = PyStr [] then ''Create'' else ''Update'')"

definition edit_file_check_permissions :: "os_env \<Rightarrow> pydict \<Rightarrow> ToolPermissionContext \<Rightarrow> PermissionResult" where
  "edit_file_check_permissions env input ctx =
     (let path = input_path input in
      if path = [] then reason_result Ask ''path_constraint'' ''edit file path is required''
      else
        let decision = check_write_path env path (cx_cwd ctx) (cx_additional_directories ctx)
        in if rd_behavior decision = Ask then to_permission_result decision
           else base_check_permissions False (edit_user_facing_name input))"

definition BashTool :: "(string \<Rightarrow> ts_node) \<Rightarrow> os_env \<Rightarrow> Tool" where
  "BashTool ts_parse env =
     \<lparr>tl_name = ''bash'', tl_is_read_only = (\<lambda>_. False),
      tl_check_permissions = bash_check_permissions ts_parse env,
      tl_permission_audit_operation = (\<lambda>_. []), tl_supports_blanket_allow = False,
      tl_uses_operation_scoped_permissions = False, tl_user_facing_name = (\<lambda>_. ''Bash'')\<rparr>"

definition ReadFileTool :: "os_env \<Rightarrow> Tool" where
  "ReadFileTool env =
     \<lparr>tl_name = ''read_file'', tl_is_read_only = (\<lambda>_. True),
      tl_check_permissions = read_file_check_permissions env,
      tl_permission_audit_operation = (\<lambda>_. []), tl_supports_blanket_allow = False,
      tl_uses_operation_scoped_permissions = False, tl_user_facing_name = (\<lambda>_. ''Read'')\<rparr>"

definition WriteFileTool :: "os_env \<Rightarrow> Tool" where
  "WriteFileTool env =
     \<lparr>tl_name = ''write_file'', tl_is_read_only = (\<lambda>_. False),
      tl_check_permissions = write_file_check_permissions env,
      tl_permission_audit_operation = (\<lambda>_. []), tl_supports_blanket_allow = True,
      tl_uses_operation_scoped_permissions = False, tl_user_facing_name = (\<lambda>_. ''Write'')\<rparr>"

definition EditFileTool :: "os_env \<Rightarrow> Tool" where
  "EditFileTool env =
     \<lparr>tl_name = ''edit_file'', tl_is_read_only = (\<lambda>_. False),
      tl_check_permissions = edit_file_check_permissions env,
      tl_permission_audit_operation = (\<lambda>_. []), tl_supports_blanket_allow = True,
      tl_uses_operation_scoped_permissions = False, tl_user_facing_name = edit_user_facing_name\<rparr>"

section \<open>The pipeline\<close>

definition STICKY_ASK_REASONS :: "string list" where
  "STICKY_ASK_REASONS =
     [''safety_check'', ''path_constraint'', ''dangerous_readonly_argument'', ''complex_command'',
      ''compound_cd'', ''compound_cd_git'', ''compound_limit'', ''parse_error'', ''too_complex'']"

definition audit_reason_is_rule :: "PermissionResult \<Rightarrow> bool" where
  "audit_reason_is_rule r =
     (case pr_audit r of None \<Rightarrow> False | Some a \<Rightarrow> au_reason_type a = Some ''rule'')"

definition is_explicit_operation_write_allow :: "PermissionResult \<Rightarrow> Tool \<Rightarrow> bool" where
  "is_explicit_operation_write_allow r tool =
     (tl_uses_operation_scoped_permissions tool \<and> pr_behavior r = Allow
      \<and> (case pr_audit r of None \<Rightarrow> False
         | Some a \<Rightarrow> au_is_read_only a \<noteq> Some True \<and> au_reason_type a = Some ''rule''))"

definition is_explicit_operation_ask :: "PermissionResult \<Rightarrow> Tool \<Rightarrow> bool" where
  "is_explicit_operation_ask r tool =
     (tl_uses_operation_scoped_permissions tool \<and> pr_behavior r = Ask \<and> audit_reason_is_rule r)"

definition is_read_only_operation_allow :: "PermissionResult \<Rightarrow> Tool \<Rightarrow> bool" where
  "is_read_only_operation_allow r tool =
     (tl_uses_operation_scoped_permissions tool \<and> pr_behavior r = Allow
      \<and> (case pr_audit r of None \<Rightarrow> False | Some a \<Rightarrow> au_is_read_only a = Some True))"

fun get_tool_rule :: "string \<Rightarrow> rules_by_source \<Rightarrow> (string \<times> string) option" where
  "get_tool_rule tool_name [] = None"
| "get_tool_rule tool_name ((source, rules) # rest) =
     (if tool_name \<in> set rules then Some (source, tool_name) else get_tool_rule tool_name rest)"

definition audit :: "string \<Rightarrow> string option \<Rightarrow> string option \<Rightarrow> string \<Rightarrow> string \<Rightarrow> bool \<Rightarrow> pydict
    \<Rightarrow> PermissionAuditMetadata option \<Rightarrow> PermissionAuditMetadata" where
  \<comment> \<open>scope, rule source, rule, reason type and detail, read-only flag, operation, inherited audit\<close>
  "audit scope rule_source rule reason_type reason_detail is_read_only operation inherit =
     \<lparr>au_scope = scope, au_source = ''permission_pipeline'', au_rule_source = rule_source, au_rule = rule,
      au_reason_type = Some reason_type, au_reason_detail = Some reason_detail,
      au_is_read_only = (case inherit of
          None \<Rightarrow> Some is_read_only
        | Some a \<Rightarrow> (case au_is_read_only a of None \<Rightarrow> Some is_read_only | Some b \<Rightarrow> Some b)),
      au_operation = (case inherit of None \<Rightarrow> operation | Some a \<Rightarrow> dict_update operation (au_operation a))\<rparr>"

definition structured_reason_types :: "PermissionResult \<Rightarrow> string list" where
  "structured_reason_types r =
     map dr_type ((case pr_reason r of None \<Rightarrow> [] | Some x \<Rightarrow> [x])
                  @ (case pr_reasons r of None \<Rightarrow> [] | Some xs \<Rightarrow> xs))"

definition is_safety_check_ask :: "PermissionResult \<Rightarrow> bool" where
  "is_safety_check_ask r = (pr_behavior r = Ask \<and> ''safety_check'' \<in> set (structured_reason_types r))"

definition is_sticky_ask :: "PermissionResult \<Rightarrow> bool" where
  "is_sticky_ask r =
     (pr_behavior r = Ask \<and> list_ex (\<lambda>t. t \<in> set STICKY_ASK_REASONS) (structured_reason_types r))"

definition with_prompt_audit :: "Tool \<Rightarrow> pydict \<Rightarrow> PermissionResult \<Rightarrow> PermissionResult" where
  "with_prompt_audit tool input r =
     (if pr_audit r \<noteq> None \<or> pr_behavior r \<noteq> Ask then r
      else
        let reason_type = (case pr_reason r of None \<Rightarrow> ''prompt_required'' | Some x \<Rightarrow> dr_type x) in
        r\<lparr>pr_audit := Some (audit ''once'' None None reason_type reason_type
            (tl_is_read_only tool input) (tl_permission_audit_operation tool input) None)\<rparr>)"

definition cleared :: "behavior \<Rightarrow> PermissionAuditMetadata \<Rightarrow> PermissionResult \<Rightarrow> PermissionResult" where
  \<comment> \<open>\<^verbatim>\<open>replace(result, behavior=b, message="", reason=None, reasons=None, suggestions=None, audit=a)\<close>\<close>
  "cleared b a r = r\<lparr>pr_behavior := b, pr_message := [], pr_reason := None, pr_reasons := None,
     pr_suggestions := None, pr_audit := Some a\<rparr>"

definition check_tool_permission :: "Tool \<Rightarrow> pydict \<Rightarrow> ToolPermissionContext \<Rightarrow> PermissionResult" where
  "check_tool_permission tool input ctx =
     (let ask_rule = get_tool_rule (tl_name tool) (cx_ask_rules ctx);
          ro = tl_is_read_only tool input;
          oper = tl_permission_audit_operation tool input
      in
      case get_tool_rule (tl_name tool) (cx_deny_rules ctx) of
        Some (source, rule) \<Rightarrow>
          (result_of Deny)\<lparr>pr_audit := Some (audit (scope_for_rule_source source) (Some source) (Some rule)
             ''rule'' (''matched deny rule: '' @ rule) ro oper None)\<rparr>
      | None \<Rightarrow>
      let result = tl_check_permissions tool input ctx in
      if pr_behavior result = Deny then result
      else if is_safety_check_ask result \<and> cx_mode ctx \<noteq> BYPASS_PERMISSIONS then
        with_prompt_audit tool input result
      else if pr_behavior result = Ask \<and> ask_rule \<noteq> None then
        (case the ask_rule of (source, rule) \<Rightarrow>
           result\<lparr>pr_behavior := Ask,
             pr_audit := Some (audit (scope_for_rule_source source) (Some source) (Some rule)
               ''rule'' (''matched ask rule(s): '' @ rule) ro oper (pr_audit result))\<rparr>)
      else if pr_behavior result = Allow \<and> ask_rule \<noteq> None \<and> \<not> is_read_only_operation_allow result tool then
        (case the ask_rule of (source, rule) \<Rightarrow>
           let detail = ''matched ask rule(s): '' @ tl_name tool in
           result\<lparr>pr_behavior := Ask, pr_message := detail, pr_reason := Some (mk_reason ''rule'' detail),
             pr_audit := Some (audit (scope_for_rule_source source) (Some source) (Some rule)
               ''rule'' (''matched ask rule(s): '' @ rule) ro oper (pr_audit result))\<rparr>)
      else if is_explicit_operation_ask result tool
              \<or> (cx_mode ctx \<noteq> BYPASS_PERMISSIONS \<and> tl_uses_operation_scoped_permissions tool
                 \<and> is_sticky_ask result) then
        with_prompt_audit tool input result
      else if cx_mode ctx = BYPASS_PERMISSIONS \<and> \<not> is_explicit_operation_write_allow result tool then
        cleared Allow (audit ''mode'' (Some ''mode'') None ''bypass_permissions'' ''bypass_permissions mode''
          ro oper (pr_audit result)) result
      else if is_sticky_ask result then with_prompt_audit tool input result
      else
        let allow_rule = get_tool_rule (tl_name tool) (cx_allow_rules ctx) in
        if allow_rule \<noteq> None \<and> (pr_behavior result = Passthrough \<or> pr_behavior result = Ask)
           \<and> tl_supports_blanket_allow tool then
          (case the allow_rule of (source, rule) \<Rightarrow>
             cleared Allow (audit (scope_for_rule_source source) (Some source) (Some rule)
               ''rule'' (''matched allow rule: '' @ rule) ro oper (pr_audit result)) result)
        else
          let result2 =
            (if pr_behavior result = Passthrough then
               result\<lparr>pr_behavior := Ask, pr_message := allow_question (tl_user_facing_name tool input),
                 pr_audit := Some (audit ''once'' None None ''prompt_required'' ''prompt_required'' ro oper None)\<rparr>
             else result)
          in
          if cx_mode ctx = DONT_ASK \<and> pr_behavior result2 = Ask then
            cleared Deny (audit ''mode'' (Some ''mode'') None ''dont_ask'' ''dont_ask converted ask to deny''
              ro oper (pr_audit result2)) result2
          else result2)"

section \<open>The verdict of the pipeline\<close>

lemma with_prompt_audit_sel [simp, perm_simps]:
  "pr_behavior (with_prompt_audit tool input r) = pr_behavior r"
  "pr_reason (with_prompt_audit tool input r) = pr_reason r"
  by (simp_all add: with_prompt_audit_def Let_def)

lemma cleared_sel [simp, perm_simps]: "pr_behavior (cleared b a r) = b" "pr_audit (cleared b a r) = Some a"
  by (simp_all add: cleared_def)

lemma sticky_askD: "is_sticky_ask r \<Longrightarrow> pr_behavior r = Ask"
  by (simp add: is_sticky_ask_def)

lemma safety_ask_sticky: "is_safety_check_ask r \<Longrightarrow> is_sticky_ask r"
  by (auto simp: is_safety_check_ask_def is_sticky_ask_def STICKY_ASK_REASONS_def list_ex_iff)

lemma safety_askD: "is_safety_check_ask r \<Longrightarrow> pr_behavior r = Ask"
  by (simp add: is_safety_check_ask_def)

lemma explicit_askD: "is_explicit_operation_ask r tool \<Longrightarrow> pr_behavior r = Ask"
  by (simp add: is_explicit_operation_ask_def)

lemma explicit_write_allowD: "is_explicit_operation_write_allow r tool \<Longrightarrow> pr_behavior r = Allow"
  by (simp add: is_explicit_operation_write_allow_def)

definition pipeline_verdict :: "Tool \<Rightarrow> ToolPermissionContext \<Rightarrow> PermissionResult \<Rightarrow> behavior" where
  \<comment> \<open>the decision table of the pipeline on the result \<open>r\<close> of the tool's own check\<close>
  "pipeline_verdict tool ctx r =
     (let b = pr_behavior r; bypass = (cx_mode ctx = BYPASS_PERMISSIONS);
          rule = (\<lambda>rules. get_tool_rule (tl_name tool) rules \<noteq> None) in
      if rule (cx_deny_rules ctx) \<or> b = Deny then Deny
      else if rule (cx_ask_rules ctx) \<and> (b = Ask \<or> (b = Allow \<and> \<not> is_read_only_operation_allow r tool)) then Ask
      else if is_explicit_operation_ask r tool then Ask
      else if bypass then Allow
      else if is_sticky_ask r then Ask
      else if b = Allow \<or> (rule (cx_allow_rules ctx) \<and> tl_supports_blanket_allow tool) then Allow
      else if cx_mode ctx = DONT_ASK then Deny
      else Ask)"

lemma pipeline_verdict_correct:
  "pr_behavior (check_tool_permission tool input ctx) =
     pipeline_verdict tool ctx (tl_check_permissions tool input ctx)"
proof (cases "get_tool_rule (tl_name tool) (cx_deny_rules ctx)")
  case None
  let ?r = "tl_check_permissions tool input ctx"
  show ?thesis
  proof (cases "pr_behavior ?r")
    case Ask
    show ?thesis
    proof (cases "is_safety_check_ask ?r \<and> cx_mode ctx \<noteq> BYPASS_PERMISSIONS")
      case True
      then show ?thesis
        by (simp add: check_tool_permission_def pipeline_verdict_def Let_def None Ask safety_ask_sticky)
    next
      case False
      have "\<not> is_explicit_operation_write_allow ?r tool" using Ask explicit_write_allowD by force
      with False Ask None show ?thesis
        by (simp add: check_tool_permission_def pipeline_verdict_def Let_def split: prod.splits)
    qed
  next
    case Allow
    have "\<not> is_safety_check_ask ?r" "\<not> is_sticky_ask ?r" "\<not> is_explicit_operation_ask ?r tool"
      using Allow by (auto dest: sticky_askD safety_askD explicit_askD)
    with Allow None show ?thesis
      by (simp add: check_tool_permission_def pipeline_verdict_def Let_def split: prod.splits)
  next
    case Deny
    with None show ?thesis by (simp add: check_tool_permission_def pipeline_verdict_def Let_def)
  next
    case Passthrough
    have "\<not> is_safety_check_ask ?r" "\<not> is_sticky_ask ?r" "\<not> is_explicit_operation_ask ?r tool"
      "\<not> is_explicit_operation_write_allow ?r tool"
      using Passthrough by (auto dest: sticky_askD safety_askD explicit_askD explicit_write_allowD)
    with Passthrough None show ?thesis
      by (simp add: check_tool_permission_def pipeline_verdict_def Let_def split: prod.splits)
  qed
next
  case (Some p)
  then show ?thesis
    by (cases p) (simp add: check_tool_permission_def pipeline_verdict_def Let_def)
qed

lemmas pipeline_cases = pipeline_verdict_correct pipeline_verdict_def Let_def

section \<open>Properties of the pipeline\<close>






text \<open>
  every tool call gets a definite answer: whatever the tool's own check returns, the result is allow,
  deny or ask, and never the undecided passthrough.
\<close>

theorem pipeline_is_decisive:
  "pr_behavior (check_tool_permission tool input ctx) \<noteq> Passthrough"
  by (simp add: pipeline_cases)

text \<open>
  a bare deny rule for the tool denies every call of it, in every mode and whatever allow rules
  exist, and the audit record names that rule.
\<close>

theorem pipeline_deny_rule:
  assumes "get_tool_rule (tl_name tool) (cx_deny_rules ctx) = Some (source, rule)"
  shows "pr_behavior (check_tool_permission tool input ctx) = Deny
     \<and> map_option au_rule (pr_audit (check_tool_permission tool input ctx)) = Some (Some rule)
     \<and> map_option au_rule_source (pr_audit (check_tool_permission tool input ctx)) = Some (Some source)"
  using assms by (simp add: check_tool_permission_def Let_def audit_def)

definition deny_write_context :: ToolPermissionContext where
  "deny_write_context = work_context\<lparr>cx_mode := BYPASS_PERMISSIONS,
     cx_allow_rules := [(''cli_arg'', [''write_file''])],
     cx_deny_rules := [(''project_settings'', [''edit_file'', ''write_file''])]\<rparr>"

theorem pipeline_deny_rule_witness:
  "pr_behavior (check_tool_permission (WriteFileTool plain_env) [(''path'', PyStr ''a.tf'')] deny_write_context) = Deny"
  using pipeline_deny_rule [of "WriteFileTool plain_env" deny_write_context "''project_settings''" "''write_file''"]
  by (simp add: WriteFileTool_def deny_write_context_def)

text \<open>
  C22: a sticky ask, one that stems from a safety check, a path outside the permitted roots, a dangerous argument or a command
  that could not be analysed, is never turned into a grant outside the bypass mode, by an allow rule for the tool or by the
  mode. In the default and the accept-edits mode it reaches the user as a prompt, unless a bare deny rule for the tool
  denies the call before.
\<close>

theorem sticky_ask_prompts:
  assumes "cx_mode ctx \<noteq> BYPASS_PERMISSIONS" and "is_sticky_ask (tl_check_permissions tool input ctx)"
  shows "pr_behavior (check_tool_permission tool input ctx) \<in> {Ask, Deny}
    \<and> (cx_mode ctx \<noteq> DONT_ASK \<longrightarrow> pr_behavior (check_tool_permission tool input ctx) =
         (if get_tool_rule (tl_name tool) (cx_deny_rules ctx) = None then Ask else Deny))"
  using assms sticky_askD by (auto simp: pipeline_cases)

definition blanket_write_context :: ToolPermissionContext where
  "blanket_write_context = work_context\<lparr>cx_allow_rules := [(''cli_arg'', [''write_file''])]\<rparr>"

theorem sticky_ask_prompts_witness:
  "pr_behavior (check_tool_permission (WriteFileTool plain_env) [(''path'', PyStr ''.git/config'')]
     blanket_write_context) = Ask"
proof -
  have mode: "cx_mode blanket_write_context \<noteq> BYPASS_PERMISSIONS"
    by (simp add: blanket_write_context_def work_context_def default_context_def)
  have "is_sticky_ask (tl_check_permissions (WriteFileTool plain_env) [(''path'', PyStr ''.git/config'')]
      blanket_write_context)"
    by code_simp
  from sticky_ask_prompts [OF mode this] show ?thesis
    by (simp add: blanket_write_context_def work_context_def default_context_def)
qed

text \<open>
  In the bypass mode every call is granted except where the tool's own check denies it, a bare deny
  or ask rule names the tool, or an operation-scoped ask rule matched; in particular the asks of the
  safety checks are granted.
\<close>

theorem bypass_grants:
  assumes "cx_mode ctx = BYPASS_PERMISSIONS"
  shows "pr_behavior (check_tool_permission tool input ctx) = Allow \<longleftrightarrow>
     (let r = tl_check_permissions tool input ctx in
      get_tool_rule (tl_name tool) (cx_deny_rules ctx) = None \<and> pr_behavior r \<noteq> Deny
      \<and> \<not> is_explicit_operation_ask r tool
      \<and> (get_tool_rule (tl_name tool) (cx_ask_rules ctx) = None \<or> pr_behavior r = Passthrough
         \<or> is_read_only_operation_allow r tool))"
proof -
  have "is_read_only_operation_allow r t \<Longrightarrow> pr_behavior r = Allow" for r t
    by (simp add: is_read_only_operation_allow_def)
  then show ?thesis
    using assms by (cases "pr_behavior (tl_check_permissions tool input ctx)") (auto simp: pipeline_cases simp del: not_None_eq)
qed

definition bypass_context :: ToolPermissionContext where
  "bypass_context = work_context\<lparr>cx_mode := BYPASS_PERMISSIONS\<rparr>"

theorem bypass_grants_witness:
  "is_safety_check_ask (tl_check_permissions (WriteFileTool plain_env) [(''path'', PyStr ''/work/.git/config'')]
     bypass_context)
   \<and> pr_behavior (check_tool_permission (WriteFileTool plain_env) [(''path'', PyStr ''/work/.git/config'')]
     bypass_context) = Allow"
proof -
  let ?in = "[(''path'', PyStr ''/work/.git/config'')]"
  have mode: "cx_mode bypass_context = BYPASS_PERMISSIONS" by (simp add: bypass_context_def)
  have ask: "is_safety_check_ask (tl_check_permissions (WriteFileTool plain_env) ?in bypass_context)"
    by code_simp
  then show ?thesis
    using bypass_grants [OF mode, of "WriteFileTool plain_env" ?in] safety_askD [OF ask]
    by (simp add: bypass_context_def work_context_def default_context_def is_explicit_operation_ask_def
        WriteFileTool_def)
qed

text \<open>
  The don't-ask mode still asks. It turns into a denial only the plain prompts; a sticky ask, a bare
  ask rule and an operation-scoped ask rule still reach the user.
\<close>

theorem dont_ask_still_asks_iff:
  assumes "cx_mode ctx = DONT_ASK"
  shows "pr_behavior (check_tool_permission tool input ctx) = Ask \<longleftrightarrow>
     (let r = tl_check_permissions tool input ctx in
      get_tool_rule (tl_name tool) (cx_deny_rules ctx) = None \<and> pr_behavior r \<noteq> Deny
      \<and> (is_sticky_ask r \<or> is_explicit_operation_ask r tool
         \<or> (get_tool_rule (tl_name tool) (cx_ask_rules ctx) \<noteq> None \<and> pr_behavior r \<noteq> Passthrough
            \<and> \<not> is_read_only_operation_allow r tool)))"
proof -
  have "is_read_only_operation_allow r t \<Longrightarrow> pr_behavior r = Allow" for r t
    by (simp add: is_read_only_operation_allow_def)
  then show ?thesis
    using assms sticky_askD explicit_askD
    by (cases "pr_behavior (tl_check_permissions tool input ctx)") (auto simp: pipeline_cases simp del: not_None_eq)
qed

definition dont_ask_context :: ToolPermissionContext where
  "dont_ask_context = work_context\<lparr>cx_mode := DONT_ASK\<rparr>"

theorem dont_ask_still_asks_iff_witness:
  "pr_behavior (check_tool_permission (ReadFileTool plain_env) [(''path'', PyStr ''/etc/hosts'')] dont_ask_context) = Ask"
proof -
  let ?in = "[(''path'', PyStr ''/etc/hosts'')]"
  have mode: "cx_mode dont_ask_context = DONT_ASK" by (simp add: dont_ask_context_def)
  have sticky: "is_sticky_ask (tl_check_permissions (ReadFileTool plain_env) ?in dont_ask_context)"
    by code_simp
  then show ?thesis
    using dont_ask_still_asks_iff [OF mode, of "ReadFileTool plain_env" ?in] sticky_askD [OF sticky]
    by (simp add: dont_ask_context_def work_context_def default_context_def)
qed

section \<open>Tools that write files\<close>

text \<open>
  What the pipeline relies on in a tool that writes the file its input names: it is not an
  operation-scoped tool, it never decides alone, and a path that is missing, sensitive or outside the
  permitted roots makes its ask sticky.
\<close>

locale file_writing_tool =
  fixes tool :: Tool and env :: os_env
  assumes not_scoped: "\<not> tl_uses_operation_scoped_permissions tool"
    and asks: "pr_behavior (tl_check_permissions tool input ctx) = Ask"
    and sticky_outside: "input_path input = []
        \<or> rd_behavior (check_write_path env (input_path input) (cx_cwd ctx) (cx_additional_directories ctx)) \<noteq> Allow
        \<Longrightarrow> is_sticky_ask (tl_check_permissions tool input ctx)"
begin

lemma grant_contained:
  assumes "cx_mode ctx \<noteq> BYPASS_PERMISSIONS" and "pr_behavior (check_tool_permission tool input ctx) = Allow"
  shows "get_tool_rule (tl_name tool) (cx_allow_rules ctx) \<noteq> None \<and> input_path input \<noteq> []
     \<and> \<not> path_hits_sensitive (resolve_candidate env (input_path input) (cx_cwd ctx)) SENSITIVE_PATHS
     \<and> is_in_allowed_roots env (resolve_candidate env (input_path input) (cx_cwd ctx))
         (cx_cwd ctx # cx_additional_directories ctx)"
proof -
  from assms asks have ns: "\<not> is_sticky_ask (tl_check_permissions tool input ctx)"
      and rule: "get_tool_rule (tl_name tool) (cx_allow_rules ctx) \<noteq> None"
    by (auto simp: pipeline_cases split: if_splits)
  with sticky_outside have "input_path input \<noteq> []"
    and "rd_behavior (check_write_path env (input_path input) (cx_cwd ctx) (cx_additional_directories ctx)) = Allow"
    by blast+
  with rule show ?thesis by (simp add: check_write_path_allow_iff)
qed

lemma bypass_grants_everything:
  assumes "cx_mode ctx = BYPASS_PERMISSIONS" and "get_tool_rule (tl_name tool) (cx_deny_rules ctx) = None"
    and "get_tool_rule (tl_name tool) (cx_ask_rules ctx) = None"
  shows "pr_behavior (check_tool_permission tool input ctx) = Allow"
  using assms not_scoped asks
  by (simp add: pipeline_cases is_explicit_operation_ask_def)

end

lemma check_write_path_Ask:
  "rd_behavior (check_write_path env p cwd ds) \<noteq> Allow \<Longrightarrow>
     rd_behavior (check_write_path env p cwd ds) = Ask
     \<and> rd_reason_type (check_write_path env p cwd ds) \<in> {''safety_check'', ''path_constraint''}"
  by (auto simp: check_write_path_def Let_def split: if_splits)

lemma sticky_reason_result: "is_sticky_ask (reason_result Ask t d) \<longleftrightarrow> t \<in> set STICKY_ASK_REASONS"
  by (simp add: is_sticky_ask_def structured_reason_types_def)

lemma sticky_write_decision:
  assumes "rd_behavior (check_write_path env p cwd ds) \<noteq> Allow"
  shows "is_sticky_ask (to_permission_result (check_write_path env p cwd ds))"
  using check_write_path_Ask [OF assms]
  by (auto simp: to_permission_result_def sticky_reason_result STICKY_ASK_REASONS_def)

lemma to_permission_result_Ask:
  "rd_behavior d = Ask \<Longrightarrow> pr_behavior (to_permission_result d) = Ask"
  by (simp add: to_permission_result_def)

interpretation write_file: file_writing_tool "WriteFileTool env" env for env
proof
  show "\<not> tl_uses_operation_scoped_permissions (WriteFileTool env)" by (simp add: WriteFileTool_def)
  show "pr_behavior (tl_check_permissions (WriteFileTool env) input ctx) = Ask" for input ctx
    by (simp add: WriteFileTool_def write_file_check_permissions_def base_check_permissions_def Let_def
        to_permission_result_Ask)
  show "is_sticky_ask (tl_check_permissions (WriteFileTool env) input ctx)"
    if "input_path input = []
        \<or> rd_behavior (check_write_path env (input_path input) (cx_cwd ctx) (cx_additional_directories ctx)) \<noteq> Allow"
    for input ctx
    using that check_write_path_Ask sticky_write_decision
    by (auto simp: WriteFileTool_def write_file_check_permissions_def Let_def sticky_reason_result
        STICKY_ASK_REASONS_def)
qed

interpretation edit_file: file_writing_tool "EditFileTool env" env for env
proof
  show "\<not> tl_uses_operation_scoped_permissions (EditFileTool env)" by (simp add: EditFileTool_def)
  show "pr_behavior (tl_check_permissions (EditFileTool env) input ctx) = Ask" for input ctx
    by (simp add: EditFileTool_def edit_file_check_permissions_def base_check_permissions_def Let_def
        to_permission_result_Ask)
  show "is_sticky_ask (tl_check_permissions (EditFileTool env) input ctx)"
    if "input_path input = []
        \<or> rd_behavior (check_write_path env (input_path input) (cx_cwd ctx) (cx_additional_directories ctx)) \<noteq> Allow"
    for input ctx
    using that check_write_path_Ask sticky_write_decision
    by (auto simp: EditFileTool_def edit_file_check_permissions_def Let_def sticky_reason_result
        STICKY_ASK_REASONS_def)
qed

text \<open>
  Outside the bypass mode the file-writing tools write without a prompt only with an allow rule for
  the tool, to a path that is not sensitive and that resolves inside the working directory or an
  additional directory.
\<close>

theorem file_write_grant_contained:
  assumes "cx_mode ctx \<noteq> BYPASS_PERMISSIONS" and "tool = WriteFileTool env \<or> tool = EditFileTool env"
    and "pr_behavior (check_tool_permission tool input ctx) = Allow"
  shows "get_tool_rule (tl_name tool) (cx_allow_rules ctx) \<noteq> None \<and> input_path input \<noteq> []
     \<and> \<not> path_hits_sensitive (resolve_candidate env (input_path input) (cx_cwd ctx)) SENSITIVE_PATHS
     \<and> is_in_allowed_roots env (resolve_candidate env (input_path input) (cx_cwd ctx))
         (cx_cwd ctx # cx_additional_directories ctx)"
  using assms write_file.grant_contained edit_file.grant_contained by blast

theorem file_write_grant_contained_witness:
  "is_in_allowed_roots plain_env (resolve_candidate plain_env ''modules/vpc.tf'' ''/work'') [''/work'']"
proof -
  let ?in = "[(''path'', PyStr ''modules/vpc.tf'')]"
  have mode: "cx_mode blanket_write_context \<noteq> BYPASS_PERMISSIONS"
    by (simp add: blanket_write_context_def work_context_def default_context_def)
  have "pr_behavior (check_tool_permission (WriteFileTool plain_env) ?in blanket_write_context) = Allow"
    by code_simp
  from file_write_grant_contained [OF mode _ this, of plain_env] show ?thesis
    by (simp add: blanket_write_context_def work_context_def default_context_def input_path_def get_str_def)
qed

end
