(* ===== verification/Json.thy ===== *)
theory Json
  imports Py_Data
begin

text \<open>
  The part of Python's \<^verbatim>\<open>json\<close> module the program uses: \<^verbatim>\<open>dumps\<close> with compact and with default separators and
  \<^verbatim>\<open>ensure_ascii=False\<close>, the decoder with and without \<^verbatim>\<open>strict\<close>, \<^verbatim>\<open>raw_decode\<close> and \<^verbatim>\<open>loads\<close>, on texts over
  U+0000 to U+00FF. A float is represented by its literal.
\<close>

section \<open>Printing\<close>

definition hex_digit :: "nat \<Rightarrow> char" where
  "hex_digit n = char_of (if n < 10 then 48 + n else 87 + n)"

definition hex_val :: "char \<Rightarrow> nat option" where
  "hex_val c = (let n = of_char c in
     if 48 \<le> n \<and> n \<le> 57 then Some (n - 48)
     else if 97 \<le> n \<and> n \<le> 102 then Some (n - 87)
     else if 65 \<le> n \<and> n \<le> 70 then Some (n - 55)
     else None)"

definition json_escape :: "char \<Rightarrow> string" where
  "json_escape c =
     (if c = CHR 0x22 then [CHR 0x5C, CHR 0x22]
      else if c = CHR 0x5C then [CHR 0x5C, CHR 0x5C]
      else if c = CHR 0x08 then [CHR 0x5C, CHR ''b'']
      else if c = CHR 0x0C then [CHR 0x5C, CHR ''f'']
      else if c = CHR 0x0A then [CHR 0x5C, CHR ''n'']
      else if c = CHR 0x0D then [CHR 0x5C, CHR ''r'']
      else if c = CHR 0x09 then [CHR 0x5C, CHR ''t'']
      else if of_char c < (32 :: nat) then
        [CHR 0x5C, CHR ''u'', CHR ''0'', CHR ''0'', hex_digit (of_char c div 16), hex_digit (of_char c mod 16)]
      else [c])"

definition dumps_string :: "string \<Rightarrow> string" where
  "dumps_string s = [CHR 0x22] @ concat (map json_escape s) @ [CHR 0x22]"

definition int_str :: "int \<Rightarrow> string" where
  "int_str i = (if i < 0 then CHR ''-'' # nat_str (nat (- i)) else nat_str (nat i))"

fun json_dumps :: "pyval \<Rightarrow> string"
  and dumps_elems :: "pyval list \<Rightarrow> string"
  and dumps_members :: "(string \<times> pyval) list \<Rightarrow> string" where
  "json_dumps PyNone = ''null''"
| "json_dumps (PyBool b) = (if b then ''true'' else ''false'')"
| "json_dumps (PyInt i) = int_str i"
| "json_dumps (PyFloat t) = t"
| "json_dumps (PyStr s) = dumps_string s"
| "json_dumps (PyList vs) = CHR ''['' # dumps_elems vs @ '']''"
| "json_dumps (PyDict kvs) = CHR ''{'' # dumps_members kvs @ ''}''"
| "dumps_elems [] = []"
| "dumps_elems [v] = json_dumps v"
| "dumps_elems (v # w # vs) = json_dumps v @ CHR '','' # dumps_elems (w # vs)"
| "dumps_members [] = []"
| "dumps_members [(k, v)] = dumps_string k @ CHR '':'' # json_dumps v"
| "dumps_members ((k, v) # m # kvs) = dumps_string k @ CHR '':'' # json_dumps v @ CHR '','' # dumps_members (m # kvs)"

text \<open>
  The same with the text \<open>sp\<close> after every comma and colon: the default separators of \<^verbatim>\<open>dumps\<close> are a comma and a colon
  followed by one space.
\<close>

fun dumps_with :: "string \<Rightarrow> pyval \<Rightarrow> string"
  and elems_with :: "string \<Rightarrow> pyval list \<Rightarrow> string"
  and members_with :: "string \<Rightarrow> (string \<times> pyval) list \<Rightarrow> string" where
  "dumps_with sp PyNone = ''null''"
| "dumps_with sp (PyBool b) = (if b then ''true'' else ''false'')"
| "dumps_with sp (PyInt i) = int_str i"
| "dumps_with sp (PyFloat t) = t"
| "dumps_with sp (PyStr s) = dumps_string s"
| "dumps_with sp (PyList vs) = CHR ''['' # elems_with sp vs @ '']''"
| "dumps_with sp (PyDict kvs) = CHR ''{'' # members_with sp kvs @ ''}''"
| "elems_with sp [] = []"
| "elems_with sp [v] = dumps_with sp v"
| "elems_with sp (v # w # vs) = dumps_with sp v @ CHR '','' # sp @ elems_with sp (w # vs)"
| "members_with sp [] = []"
| "members_with sp [(k, v)] = dumps_string k @ CHR '':'' # sp @ dumps_with sp v"
| "members_with sp ((k, v) # m # kvs) = dumps_string k @ CHR '':'' # sp @ dumps_with sp v @ CHR '','' # sp @ members_with sp (m # kvs)"

abbreviation dumps_default :: "pyval \<Rightarrow> string" where
  "dumps_default \<equiv> dumps_with '' ''"

section \<open>Parsing\<close>

definition json_space :: "char \<Rightarrow> bool" where
  "json_space c \<longleftrightarrow> c \<in> {CHR '' '', CHR 0x09, CHR 0x0A, CHR 0x0D}"

abbreviation skip_ws :: "string \<Rightarrow> string" where
  "skip_ws \<equiv> dropWhile json_space"

definition simple_escape :: "char \<Rightarrow> char option" where
  "simple_escape c = map_of
     [(CHR 0x22, CHR 0x22), (CHR 0x5C, CHR 0x5C), (CHR ''/'', CHR ''/''), (CHR ''b'', CHR 0x08),
      (CHR ''f'', CHR 0x0C), (CHR ''n'', CHR 0x0A), (CHR ''r'', CHR 0x0D), (CHR ''t'', CHR 0x09)] c"

definition unicode_escape :: "string \<Rightarrow> char option" where
  \<comment> \<open>four hexadecimal digits; a code point above U+00FF is outside the modelled alphabet\<close>
  "unicode_escape ds =
     (case map hex_val ds of
        [Some a, Some b, Some c, Some d] \<Rightarrow>
          let n = ((a * 16 + b) * 16 + c) * 16 + d in if n < 256 then Some (char_of n) else None
      | _ \<Rightarrow> None)"

fun scan_string :: "bool \<Rightarrow> string \<Rightarrow> (string \<times> string) option" where
  \<comment> \<open>the text after the opening quote: the string and what follows the closing quote\<close>
  "scan_string strict [] = None"
| "scan_string strict (c # s) =
     (if c = CHR 0x22 then Some ([], s)
      else if c = CHR 0x5C then
        (case s of
           [] \<Rightarrow> None
         | e # s1 \<Rightarrow>
             if e = CHR ''u'' then
               (case unicode_escape (take 4 s1) of
                  None \<Rightarrow> None
                | Some ch \<Rightarrow> map_option (apfst (Cons ch)) (scan_string strict (drop 4 s1)))
             else
               (case simple_escape e of
                  None \<Rightarrow> None
                | Some ch \<Rightarrow> map_option (apfst (Cons ch)) (scan_string strict s1)))
      else if strict \<and> of_char c < (32 :: nat) then None
      else map_option (apfst (Cons c)) (scan_string strict s))"

definition is_digit :: "char \<Rightarrow> bool" where
  "is_digit c \<longleftrightarrow> 48 \<le> (of_char c :: nat) \<and> of_char c \<le> (57 :: nat)"

definition digit_val :: "char \<Rightarrow> nat" where
  "digit_val c = of_char c - 48"

definition digits_val :: "string \<Rightarrow> nat" where
  "digits_val ds = foldl (\<lambda>n c. 10 * n + digit_val c) 0 ds"

definition py_int :: "string \<Rightarrow> int option" where
  \<comment> \<open>\<^verbatim>\<open>int(s)\<close> for a string: spaces around, a sign, digits with single underscores between them\<close>
  "py_int s =
     (let t = strip s;
          body = (if startswith t ''-'' \<or> startswith t ''+'' then tl t else t)
      in if body \<noteq> [] \<and> list_all (\<lambda>c. is_digit c \<or> c = CHR ''_'') body \<and> is_digit (hd body) \<and> is_digit (last body)
           \<and> \<not> contains ''__'' body
         then Some ((if startswith t ''-'' then - 1 else 1) * int (digits_val (filter is_digit body)))
         else None)"

definition scan_int :: "string \<Rightarrow> (string \<times> string) option" where
  \<comment> \<open>\<^verbatim>\<open>-?(?:0|[1-9][0-9]*)\<close>\<close>
  "scan_int s =
     (let (sign, r) = (if startswith s ''-'' then (''-'', tl s) else ([], s));
          ds = takeWhile is_digit r
      in if ds = [] then None
         else if hd ds = CHR ''0'' then Some (sign @ ''0'', tl r)
         else Some (sign @ ds, dropWhile is_digit r))"

definition scan_frac :: "string \<Rightarrow> string \<times> string" where
  "scan_frac s =
     (case s of
        [] \<Rightarrow> ([], s)
      | d # r \<Rightarrow>
          let ds = takeWhile is_digit r in
          if d \<noteq> CHR ''.'' \<or> ds = [] then ([], s) else (d # ds, dropWhile is_digit r))"

definition scan_exp :: "string \<Rightarrow> string \<times> string" where
  "scan_exp s =
     (case s of
        e # r \<Rightarrow>
          if e \<in> {CHR ''e'', CHR ''E''} then
            let (sign, r1) = (case r of x # r1 \<Rightarrow> if x \<in> {CHR ''+'', CHR ''-''} then ([x], r1) else ([], r) | [] \<Rightarrow> ([], r));
                ds = takeWhile is_digit r1
            in if ds = [] then ([], s) else (e # sign @ ds, dropWhile is_digit r1)
          else ([], s)
      | [] \<Rightarrow> ([], s))"

definition int_of_literal :: "string \<Rightarrow> int" where
  "int_of_literal t = (if startswith t ''-'' then - int (digits_val (tl t)) else int (digits_val t))"

definition scan_number :: "string \<Rightarrow> (pyval \<times> string) option" where
  "scan_number s =
     (case scan_int s of
        None \<Rightarrow> None
      | Some (i, r) \<Rightarrow>
          let (f, r1) = scan_frac r; (e, r2) = scan_exp r1 in
          if f = [] \<and> e = [] then Some (PyInt (int_of_literal i), r2) else Some (PyFloat (i @ f @ e), r2))"

definition json_words :: "(string \<times> pyval) list" where
  "json_words = [(''null'', PyNone), (''true'', PyBool True), (''false'', PyBool False),
     (''NaN'', PyFloat ''NaN''), (''Infinity'', PyFloat ''Infinity''), (''-Infinity'', PyFloat ''-Infinity'')]"

definition scan_word :: "string \<Rightarrow> (pyval \<times> string) option" where
  "scan_word s =
     (case List.find (\<lambda>(w, v). startswith s w) json_words of
        None \<Rightarrow> None
      | Some (w, v) \<Rightarrow> Some (v, drop (length w) s))"

definition scan_scalar :: "string \<Rightarrow> (pyval \<times> string) option" where
  "scan_scalar s = (case scan_number s of Some p \<Rightarrow> Some p | None \<Rightarrow> scan_word s)"

lemma skip_ws_length: "length (skip_ws s) \<le> length s"
  by (rule length_dropWhile_le)

lemma skip_ws_Cons_length: "skip_ws s = c # r \<Longrightarrow> length r < length s"
  using skip_ws_length [of s] by simp

function parse_value :: "bool \<Rightarrow> string \<Rightarrow> (pyval \<times> string) option"
  and parse_elems :: "bool \<Rightarrow> string \<Rightarrow> (pyval list \<times> string) option"
  and parse_members :: "bool \<Rightarrow> string \<Rightarrow> ((string \<times> pyval) list \<times> string) option" where
  \<comment> \<open>\<^verbatim>\<open>scan_once\<close>, \<^verbatim>\<open>JSONArray\<close> after \<^verbatim>\<open>[\<close> and \<^verbatim>\<open>JSONObject\<close> after \<^verbatim>\<open>{\<close> of \<^verbatim>\<open>json.scanner\<close> and \<^verbatim>\<open>json.decoder\<close>;
    the tests of the lengths always succeed (\<open>parse_shorter\<close>)\<close>
  "parse_value strict s =
     (case s of
        [] \<Rightarrow> None
      | c # r \<Rightarrow>
          if c = CHR 0x22 then map_option (apfst PyStr) (scan_string strict r)
          else if c = CHR ''['' then
            (if startswith (skip_ws r) '']'' then Some (PyList [], tl (skip_ws r))
             else map_option (apfst PyList) (parse_elems strict (skip_ws r)))
          else if c = CHR ''{'' then
            (if startswith (skip_ws r) ''}'' then Some (PyDict [], tl (skip_ws r))
             else map_option (apfst (\<lambda>kvs. PyDict (dict_update [] kvs))) (parse_members strict (skip_ws r)))
          else scan_scalar s)"
| "parse_elems strict s =
     (case parse_value strict s of
        None \<Rightarrow> None
      | Some (v, r) \<Rightarrow>
          (case skip_ws r of
             [] \<Rightarrow> None
           | d # r1 \<Rightarrow>
               if d = CHR '']'' then Some ([v], r1)
               else if d = CHR '','' \<and> length (skip_ws r1) < length s
               then map_option (apfst (Cons v)) (parse_elems strict (skip_ws r1))
               else None))"
| "parse_members strict s =
     (case s of
        [] \<Rightarrow> None
      | c # r \<Rightarrow>
          if c \<noteq> CHR 0x22 then None
          else (case scan_string strict r of
             None \<Rightarrow> None
           | Some (k, r1) \<Rightarrow>
               (case skip_ws r1 of
                  [] \<Rightarrow> None
                | d # r2 \<Rightarrow>
                    if d = CHR '':'' \<and> length (skip_ws r2) < length s then
                      (case parse_value strict (skip_ws r2) of
                         None \<Rightarrow> None
                       | Some (v, r3) \<Rightarrow>
                           (case skip_ws r3 of
                              [] \<Rightarrow> None
                            | e # r4 \<Rightarrow>
                                if e = CHR ''}'' then Some ([(k, v)], r4)
                                else if e = CHR '','' \<and> length (skip_ws r4) < length s
                                then map_option (apfst (Cons (k, v))) (parse_members strict (skip_ws r4))
                                else None))
                    else None)))"
  by pat_completeness auto

termination
  by (relation "measures [\<lambda>x. case x of Inl (_, s) \<Rightarrow> length s | Inr (Inl (_, s)) \<Rightarrow> length s | Inr (Inr (_, s)) \<Rightarrow> length s,
      \<lambda>x. case x of Inl _ \<Rightarrow> 0 | Inr _ \<Rightarrow> 1]") (auto simp: skip_ws_length le_imp_less_Suc)

declare parse_value.simps [simp del] parse_elems.simps [simp del] parse_members.simps [simp del]

definition raw_decode :: "string \<Rightarrow> (pyval \<times> string) option" where
  "raw_decode s = parse_value True s"

definition json_loads_with :: "bool \<Rightarrow> string \<Rightarrow> pyval option" where
  "json_loads_with strict s =
     (case parse_value strict (skip_ws s) of
        None \<Rightarrow> None
      | Some (v, r) \<Rightarrow> if skip_ws r = [] then Some v else None)"

abbreviation json_loads :: "string \<Rightarrow> pyval option" where
  "json_loads \<equiv> json_loads_with True"

section \<open>Strings and numbers read back\<close>

lemma hex_val_digit: "n < 16 \<Longrightarrow> hex_val (hex_digit n) = Some n"
  by (simp add: hex_val_def hex_digit_def Let_def of_char_of)

lemma unicode_escape_control:
  "of_char c < (32 :: nat) \<Longrightarrow>
     unicode_escape [CHR ''0'', CHR ''0'', hex_digit (of_char c div 16), hex_digit (of_char c mod 16)] = Some c"
  by (simp add: unicode_escape_def hex_val_digit) (simp add: hex_val_def Let_def mult.commute)

lemma scan_string_escape: "scan_string strict (json_escape c @ s) = map_option (apfst (Cons c)) (scan_string strict s)"
proof -
  consider "c \<in> {CHR 0x22, CHR 0x5C, CHR 0x08, CHR 0x0C, CHR 0x0A, CHR 0x0D, CHR 0x09}"
    | "c \<notin> {CHR 0x22, CHR 0x5C, CHR 0x08, CHR 0x0C, CHR 0x0A, CHR 0x0D, CHR 0x09}" "of_char c < (32 :: nat)"
    | "c \<notin> {CHR 0x22, CHR 0x5C, CHR 0x08, CHR 0x0C, CHR 0x0A, CHR 0x0D, CHR 0x09}" "\<not> of_char c < (32 :: nat)"
    by blast
  then show ?thesis
  proof cases
    case 1
    then show ?thesis by (auto simp: json_escape_def simple_escape_def)
  next
    case 2
    then show ?thesis using unicode_escape_control [of c] by (simp add: json_escape_def)
  next
    case 3
    then show ?thesis by (simp add: json_escape_def)
  qed
qed

lemma scan_string_dumps:
  "scan_string strict (concat (map json_escape s) @ CHR 0x22 # rest) = Some (s, rest)"
  by (induction s) (simp_all add: scan_string_escape)

lemma digit_char_digit: "n < 10 \<Longrightarrow> is_digit (digit_char n) \<and> digit_val (digit_char n) = n"
  by (simp add: is_digit_def digit_val_def digit_char_def)

lemma digits_val_snoc: "digits_val (ds @ [c]) = 10 * digits_val ds + digit_val c"
  by (simp add: digits_val_def)

lemma nat_str_digits: "list_all is_digit (nat_str n) \<and> nat_str n \<noteq> [] \<and> digits_val (nat_str n) = n"
proof (induction n rule: nat_str.induct)
  case (1 n)
  show ?case
  proof (cases "n < 10")
    case True
    then show ?thesis by (subst (1 2 3) nat_str.simps) (simp add: digit_char_digit digits_val_def)
  next
    case False
    then show ?thesis
      using 1 digit_char_digit [of "n mod 10"]
      by (subst (1 2 3) nat_str.simps) (simp add: digits_val_snoc)
  qed
qed

lemma nat_str_lead: "0 < n \<Longrightarrow> hd (nat_str n) \<noteq> CHR ''0''"
proof (induction n rule: nat_str.induct)
  case (1 n)
  show ?case
  proof (cases "n < 10")
    case True
    then have "digit_val (hd (nat_str n)) = n" by (subst nat_str.simps) (simp add: digit_char_digit)
    with 1(2) show ?thesis by (auto simp: digit_val_def)
  next
    case False
    then show ?thesis
      using 1(1) nat_str_digits [of "n div 10"] by (subst nat_str.simps) simp
  qed
qed

definition stops :: "string \<Rightarrow> bool" where
  \<comment> \<open>no number continues into the text\<close>
  "stops s \<longleftrightarrow> (case s of [] \<Rightarrow> True | c # _ \<Rightarrow> \<not> is_digit c \<and> c \<notin> {CHR ''.'', CHR ''e'', CHR ''E''})"

lemma stops_simps [simp]: "stops []" "stops (c # s) \<longleftrightarrow> \<not> is_digit c \<and> c \<notin> {CHR ''.'', CHR ''e'', CHR ''E''}"
  by (simp_all add: stops_def)

lemma digits_then_stop:
  assumes "list_all is_digit ds" and "\<And>c r. s = c # r \<Longrightarrow> \<not> is_digit c"
  shows "takeWhile is_digit (ds @ s) = ds \<and> dropWhile is_digit (ds @ s) = s"
proof -
  have "takeWhile is_digit s = [] \<and> dropWhile is_digit s = s" using assms(2) by (cases s) auto
  then show ?thesis using assms(1) by (simp add: takeWhile_append2 dropWhile_append2 list_all_iff)
qed

lemma minus_not_digit: "\<not> is_digit (CHR ''-'')" "\<not> is_digit (CHR ''.'')" "is_digit (CHR ''0'')"
  by (simp_all add: is_digit_def)

lemma scan_int_nat_str:
  assumes "stops s"
  shows "scan_int (nat_str n @ s) = Some (nat_str n, s) \<and> scan_int (CHR ''-'' # nat_str n @ s) = Some (CHR ''-'' # nat_str n, s)"
proof -
  note ds = nat_str_digits [of n]
  have "\<And>c r. s = c # r \<Longrightarrow> \<not> is_digit c" using assms by auto
  then have split: "takeWhile is_digit (nat_str n @ s) = nat_str n" "dropWhile is_digit (nat_str n @ s) = s"
    using digits_then_stop ds by blast+
  obtain d r where n: "nat_str n = d # r" using ds by (cases "nat_str n") auto
  have d: "is_digit d" "d \<noteq> CHR ''-''" using ds n minus_not_digit(1) by auto
  have zero: "d = CHR ''0'' \<Longrightarrow> r = []"
  proof -
    assume "d = CHR ''0''"
    then have "n = 0" using nat_str_lead [of n] n by (cases n) auto
    then show "r = []" using n by (simp add: nat_str.simps)
  qed
  show ?thesis
    using split n zero d by (auto simp: scan_int_def Let_def startswith_def)
qed

lemma int_of_literal_int_str: "int_of_literal (int_str i) = i"
proof -
  note ds = nat_str_digits [of "nat i"]
  obtain d r where n: "nat_str (nat i) = d # r" using ds by (cases "nat_str (nat i)") auto
  then have "is_digit d" using ds by auto
  then have "d \<noteq> CHR ''-''" using minus_not_digit(1) by auto
  then have "int_of_literal (d # r) = int (digits_val (d # r))"
    by (simp add: int_of_literal_def startswith_def)
  then show ?thesis using n ds nat_str_digits [of "nat (- i)"] by (auto simp: int_str_def int_of_literal_def startswith_def)
qed

lemma scan_number_int: "stops s \<Longrightarrow> scan_number (int_str i @ s) = Some (PyInt i, s)"
proof -
  assume s: "stops s"
  have "scan_frac s = ([], s) \<and> scan_exp s = ([], s)"
    using s by (cases s) (auto simp: scan_frac_def scan_exp_def Let_def)
  moreover have "scan_int (int_str i @ s) = Some (int_str i, s)"
    using scan_int_nat_str [OF s] by (simp add: int_str_def)
  ultimately show ?thesis by (simp add: scan_number_def int_of_literal_int_str)
qed

section \<open>More text after a number\<close>

definition no_digit :: "string \<Rightarrow> bool" where
  "no_digit s \<longleftrightarrow> takeWhile is_digit s = []"

lemma no_digit_simps [simp]: "no_digit []" "no_digit (c # s) \<longleftrightarrow> \<not> is_digit c"
  by (simp_all add: no_digit_def)

lemma stops_no_digit: "stops s \<Longrightarrow> no_digit s"
  by (cases s) simp_all

lemma digits_ext:
  assumes "dropWhile is_digit s = [] \<Longrightarrow> no_digit t"
  shows "takeWhile is_digit (s @ t) = takeWhile is_digit s \<and> dropWhile is_digit (s @ t) = dropWhile is_digit s @ t"
proof (cases "\<forall>c \<in> set s. is_digit c")
  case True
  then have "no_digit t" using assms by (simp add: dropWhile_eq_Nil_conv)
  then have "takeWhile is_digit t = [] \<and> dropWhile is_digit t = t"
    by (cases t) (simp_all add: no_digit_def split: if_splits)
  with True show ?thesis by (simp add: takeWhile_append2 dropWhile_append2 takeWhile_eq_all_conv [THEN iffD2] dropWhile_eq_Nil_conv [THEN iffD2])
next
  case False
  then show ?thesis by (auto simp: takeWhile_append1 dropWhile_append1)
qed

lemma scan_int_ext:
  assumes "scan_int s = Some (i, r)" and "r = [] \<Longrightarrow> no_digit t"
  shows "scan_int (s @ t) = Some (i, r @ t)"
proof -
  have ext: "takeWhile is_digit (u @ t) = takeWhile is_digit u \<and> dropWhile is_digit (u @ t) = dropWhile is_digit u @ t"
    if "dropWhile is_digit u = r" for u using digits_ext [of u t] that assms(2) by blast
  have lead: "hd (takeWhile is_digit (u @ t)) = hd u \<and> takeWhile is_digit (u @ t) \<noteq> []" if "takeWhile is_digit u \<noteq> []" for u
    using that by (cases u) (auto split: if_splits)
  have hd_take: "takeWhile is_digit u \<noteq> [] \<Longrightarrow> hd (takeWhile is_digit u) = hd u \<and> u \<noteq> []" for u
    by (cases u) (auto split: if_splits)
  show ?thesis
  proof (cases "startswith s ''-''")
    case True
    then obtain u where s: "s = CHR ''-'' # u" by (cases s) (auto simp: startswith_def)
    show ?thesis
      using assms(1) ext [of u] lead [of u] hd_take [of u]
      by (auto simp: s scan_int_def startswith_def Let_def split: if_splits)
  next
    case False
    have "s \<noteq> []" using assms(1) by (auto simp: scan_int_def startswith_def)
    then have "\<not> startswith (s @ t) ''-''" using False by (cases s) (auto simp: startswith_def)
    then show ?thesis
      using False assms(1) ext [of s] lead [of s] hd_take [of s]
      by (auto simp: scan_int_def Let_def split: if_splits)
  qed
qed

lemma scan_frac_ext:
  assumes "scan_frac s = (f, r)" and "r = [] \<Longrightarrow> no_digit t" and "\<And>c q. f = [] \<Longrightarrow> s @ t = c # q \<Longrightarrow> c \<noteq> CHR ''.''"
  shows "scan_frac (s @ t) = (f, r @ t)"
proof (cases s)
  case (Cons d q)
  show ?thesis
  proof (cases "d = CHR ''.'' \<and> takeWhile is_digit q \<noteq> []")
    case True
    then have "f = d # takeWhile is_digit q" "r = dropWhile is_digit q"
      using assms(1) Cons by (auto simp: scan_frac_def Let_def)
    then show ?thesis using True Cons digits_ext [of q t] assms(2) by (simp add: scan_frac_def Let_def)
  next
    case False
    then show ?thesis using assms Cons by (auto simp: scan_frac_def Let_def split: if_splits)
  qed
next
  case Nil
  then show ?thesis using assms by (cases t) (auto simp: scan_frac_def)
qed

lemma scan_exp_ext:
  assumes "scan_exp s = (e, r)" and "r = [] \<Longrightarrow> no_digit t" and "\<And>c q. e = [] \<Longrightarrow> s @ t = c # q \<Longrightarrow> c \<notin> {CHR ''e'', CHR ''E''}"
  shows "scan_exp (s @ t) = (e, r @ t)"
proof (cases s)
  case (Cons d q)
  show ?thesis
  proof (cases "d \<in> {CHR ''e'', CHR ''E''} \<and> e \<noteq> []")
    case True
    define sg where "sg = (case q of x # q1 \<Rightarrow> if x \<in> {CHR ''+'', CHR ''-''} then ([x], q1) else ([], q) | [] \<Rightarrow> ([], q))"
    obtain sign q1 where sq: "sg = (sign, q1)" by (cases sg)
    have e: "takeWhile is_digit q1 \<noteq> []" "e = d # sign @ takeWhile is_digit q1" "r = dropWhile is_digit q1"
      using assms(1) True Cons sq by (auto simp: scan_exp_def Let_def sg_def split: if_splits prod.splits)
    have "q \<noteq> []" using e(1) sq by (cases q) (auto simp: sg_def)
    then have "(case q @ t of x # q1 \<Rightarrow> if x \<in> {CHR ''+'', CHR ''-''} then ([x], q1) else ([], q @ t) | [] \<Rightarrow> ([], q @ t)) = (sign, q1 @ t)"
      using sq by (cases q) (auto simp: sg_def split: if_splits)
    then show ?thesis
      using True Cons e digits_ext [of q1 t] assms(2) by (simp add: scan_exp_def Let_def)
  next
    case False
    then have "e = [] \<or> d \<notin> {CHR ''e'', CHR ''E''}" by blast
    then have "d \<notin> {CHR ''e'', CHR ''E''}" using assms(3) Cons by auto
    then show ?thesis using assms(1) Cons by (auto simp: scan_exp_def)
  qed
next
  case Nil
  then show ?thesis using assms by (cases t) (auto simp: scan_exp_def)
qed

lemma scan_parts:
  "scan_frac s = (f, r) \<Longrightarrow> s = f @ r" "scan_exp s = (e, r) \<Longrightarrow> s = e @ r"
  by (auto simp: scan_frac_def scan_exp_def Let_def split: list.splits if_splits prod.splits)

lemma scan_exp_head: "scan_exp s = (c # e, r) \<Longrightarrow> c \<in> {CHR ''e'', CHR ''E''}"
  by (auto simp: scan_exp_def Let_def split: list.splits if_splits prod.splits)

lemma scan_number_ext:
  assumes "scan_number s = Some (v, r)" and stop: "stops (r @ t)"
  shows "scan_number (s @ t) = Some (v, r @ t)"
proof -
  obtain i r0 f r1 e where p: "scan_int s = Some (i, r0)" "scan_frac r0 = (f, r1)" "scan_exp r1 = (e, r)"
    and v: "v = (if f = [] \<and> e = [] then PyInt (int_of_literal i) else PyFloat (i @ f @ e))"
    using assms(1) by (auto simp: scan_number_def Let_def split: option.splits prod.splits if_splits)
  note parts = scan_parts(1) [OF p(2)] scan_parts(2) [OF p(3)]
  have nd: "r = [] \<Longrightarrow> no_digit t" using stop stops_no_digit by simp
  have "scan_exp (r1 @ t) = (e, r @ t)"
    using p(3) nd stop parts(2) by (intro scan_exp_ext) auto
  moreover have "c \<noteq> CHR ''.''" if "f = []" "r0 @ t = c # q" for c q
    using that parts stop scan_exp_head [of r1] p(3) by (cases e) auto
  then have "scan_frac (r0 @ t) = (f, r1 @ t)"
    using p(2) nd parts(2) by (intro scan_frac_ext) auto
  moreover have "scan_int (s @ t) = Some (i, r0 @ t)"
    using p(1) nd parts by (intro scan_int_ext) auto
  ultimately show ?thesis by (simp add: scan_number_def v)
qed

section \<open>A printed value reads back\<close>

fun json_ok :: "pyval \<Rightarrow> bool" where
  \<comment> \<open>float literals are numbers and the keys of an object differ\<close>
  "json_ok (PyFloat t) \<longleftrightarrow> scan_number t = Some (PyFloat t, [])"
| "json_ok (PyList vs) \<longleftrightarrow> list_all json_ok vs"
| "json_ok (PyDict kvs) \<longleftrightarrow> distinct (map fst kvs) \<and> list_all (\<lambda>kv. json_ok (snd kv)) kvs"
| "json_ok _ \<longleftrightarrow> True"

lemma dict_update_fresh:
  "distinct (map fst kvs) \<Longrightarrow> fst ` set kvs \<inter> fst ` set d = {} \<Longrightarrow> dict_update d kvs = d @ kvs"
proof (induction kvs arbitrary: d)
  case (Cons kv kvs)
  obtain k v where "kv = (k, v)" by fastforce
  with Cons show ?case by (simp add: dict_set_snoc)
qed simp

lemma scan_number_first:
  "scan_number s = Some (v, r) \<Longrightarrow> \<exists>c q. s = c # q \<and> (is_digit c \<or> c = CHR ''-'')"
proof -
  assume "scan_number s = Some (v, r)"
  then obtain i r0 where "scan_int s = Some (i, r0)" by (auto simp: scan_number_def split: option.splits)
  then show ?thesis
    by (cases s) (auto simp: scan_int_def startswith_def Let_def split: if_splits)
qed

lemma is_digit_not: "is_digit c \<or> c = CHR ''-'' \<Longrightarrow>
    \<not> json_space c \<and> c \<notin> {CHR 0x22, CHR ''['', CHR ''{'', CHR '']'', CHR ''}'', CHR '':'', CHR '',''}"
  by (auto simp: is_digit_def json_space_def)

lemma json_space_stops: "json_space c \<Longrightarrow> \<not> is_digit c \<and> c \<notin> {CHR ''.'', CHR ''e'', CHR ''E''}"
  by (auto simp: json_space_def is_digit_def)

lemma int_str_first: "\<exists>c q. int_str i = c # q \<and> (is_digit c \<or> c = CHR ''-'')"
  using nat_str_digits [of "nat i"] by (cases "nat_str (nat i)") (auto simp: int_str_def)

lemma dumps_first_with:
  "json_ok v \<Longrightarrow> \<exists>c q. dumps_with sp v = c # q \<and> \<not> json_space c \<and> c \<notin> {CHR '']'', CHR ''}'', CHR '',''}"
proof (cases v)
  case (PyInt i)
  then show ?thesis using int_str_first [of i] is_digit_not by auto
next
  case (PyFloat t)
  moreover assume "json_ok v"
  ultimately show ?thesis using scan_number_first [of t] is_digit_not by auto
qed (auto simp: dumps_string_def json_space_def)

lemma dumps_compact:
  "json_dumps v = dumps_with [] v" "dumps_elems vs = elems_with [] vs" "dumps_members kvs = members_with [] kvs"
  by (induction v and vs and kvs rule: json_dumps_dumps_elems_dumps_members.induct) simp_all

lemma dropWhile_all: "list_all P sp \<Longrightarrow> dropWhile P (sp @ s) = dropWhile P s"
  by (induction sp) simp_all

lemma skip_ws_printed: "json_ok v \<Longrightarrow> skip_ws (dumps_with sp v @ s) = dumps_with sp v @ s"
  using dumps_first_with [of v sp] by auto

lemma json_dumps_Cons: "json_ok v \<Longrightarrow> json_dumps v \<noteq> []"
  using dumps_first_with [of v "[]"] by (auto simp: dumps_compact)

lemma elems_first:
  "vs \<noteq> [] \<Longrightarrow> list_all json_ok vs \<Longrightarrow> \<exists>c q. elems_with sp vs = c # q \<and> \<not> json_space c \<and> c \<noteq> CHR '']''"
  using dumps_first_with [of "hd vs" sp] by (cases vs rule: dumps_elems.cases) auto

lemma members_first: "kvs \<noteq> [] \<Longrightarrow> \<exists>q. members_with sp kvs = CHR 0x22 # q"
  by (cases kvs rule: dumps_members.cases) (auto simp: dumps_string_def)

lemma json_space_punct [simp]:
  "\<not> json_space (CHR ''['')" "\<not> json_space (CHR '']'')" "\<not> json_space (CHR ''{'')" "\<not> json_space (CHR ''}'')"
  "\<not> json_space (CHR '','')" "\<not> json_space (CHR '':'')" "\<not> json_space (CHR 0x22)"
  by (simp_all add: json_space_def)

lemma skip_punct [simp]:
  "skip_ws (CHR ''['' # s) = CHR ''['' # s" "skip_ws (CHR '']'' # s) = CHR '']'' # s" "skip_ws (CHR ''{'' # s) = CHR ''{'' # s"
  "skip_ws (CHR ''}'' # s) = CHR ''}'' # s" "skip_ws (CHR '','' # s) = CHR '','' # s" "skip_ws (CHR '':'' # s) = CHR '':'' # s"
  "skip_ws (CHR 0x22 # s) = CHR 0x22 # s"
  by (simp_all add: json_space_def)

lemma is_digit_punct [simp]: "\<not> is_digit (CHR '']'')" "\<not> is_digit (CHR ''}'')" "\<not> is_digit (CHR '','')"
  by (simp_all add: is_digit_def)

lemma parse_scalar: "scan_number (c # q) = Some p \<Longrightarrow> parse_value strict (c # q) = Some p"
  using scan_number_first [of "c # q"] is_digit_not [of c]
  by (cases p) (auto simp: parse_value.simps scan_scalar_def)

lemma parse_number: "scan_number s = Some p \<Longrightarrow> parse_value strict s = Some p"
  using scan_number_first [of s] parse_scalar by (cases p) auto

lemma scan_number_letter: "\<not> is_digit c \<Longrightarrow> c \<noteq> CHR ''-'' \<Longrightarrow> scan_number (c # s) = None"
  using scan_number_first [of "c # s"] by (cases "scan_number (c # s)") auto

lemma parse_words:
  "parse_value strict (''null'' @ s) = Some (PyNone, s)"
  "parse_value strict (''true'' @ s) = Some (PyBool True, s)"
  "parse_value strict (''false'' @ s) = Some (PyBool False, s)"
  by (simp_all add: parse_value.simps scan_scalar_def scan_number_letter is_digit_def scan_word_def json_words_def startswith_def)

lemma scan_string_shorter: "scan_string strict s = Some (t, r) \<Longrightarrow> length r < length s"
proof (induction strict s arbitrary: t rule: scan_string.induct)
  case (2 strict c s)
  show ?case
  proof (cases "c = CHR 0x22 \<or> c \<noteq> CHR 0x5C")
    case True
    then show ?thesis using 2 by (fastforce split: if_splits)
  next
    case False
    then obtain e s1 where s: "s = e # s1" using 2(4) by (cases s) auto
    show ?thesis
    proof (cases "e = CHR ''u''")
      case True
      then obtain ch t' where "unicode_escape (take 4 s1) = Some ch" "scan_string strict (drop 4 s1) = Some (t', r)"
        using 2(4) False s by (auto split: option.splits)
      then have "length r < length (drop 4 s1)" using 2(1) False s True by blast
      then show ?thesis using s by simp
    next
      case u: False
      then obtain ch t' where "simple_escape e = Some ch" "scan_string strict s1 = Some (t', r)"
        using 2(4) False s by (auto split: option.splits)
      then have "length r < length s1" using 2(2) False s u by blast
      then show ?thesis using s by simp
    qed
  qed
qed simp

lemma scan_number_shorter: "scan_number s = Some (v, r) \<Longrightarrow> length r < length s"
proof -
  assume "scan_number s = Some (v, r)"
  then obtain i r0 f r1 e where p: "scan_int s = Some (i, r0)" "scan_frac r0 = (f, r1)" "scan_exp r1 = (e, r)"
    by (auto simp: scan_number_def Let_def split: option.splits prod.splits if_splits)
  have "length r0 < length s"
    using p(1) length_dropWhile_le [of is_digit s] length_dropWhile_le [of is_digit "tl s"]
    by (cases s) (auto simp: scan_int_def startswith_def Let_def split: if_splits)
  moreover have "length r \<le> length r0" using scan_parts(1) [OF p(2)] scan_parts(2) [OF p(3)] by simp
  ultimately show ?thesis by simp
qed

lemma scan_word_text: "scan_word s = Some (v, r) \<Longrightarrow> \<exists>w. s = w @ r \<and> (w, v) \<in> set json_words"
proof -
  assume "scan_word s = Some (v, r)"
  then obtain w where w: "List.find (\<lambda>(w, v). startswith s w) json_words = Some (w, v)" "r = drop (length w) s"
    by (auto simp: scan_word_def split: option.splits)
  have "(w, v) \<in> set json_words \<and> startswith s w" using find_SomeD [OF w(1)] by simp
  then show ?thesis using w(2) by (metis append_take_drop_id startswith_def)
qed

lemma json_words_nonempty: "(w, v) \<in> set json_words \<Longrightarrow> w \<noteq> []"
  by (auto simp: json_words_def)

lemma scan_scalar_shorter: "scan_scalar s = Some (v, r) \<Longrightarrow> length r < length s"
  using scan_number_shorter [of s v r] scan_word_text [of s v r] json_words_nonempty [of _ v]
  by (auto simp: scan_scalar_def split: option.splits)

lemma tl_less: "startswith s [c] \<Longrightarrow> length (tl s) < length s"
  by (cases s) (simp_all add: startswith_def)

lemma parse_elems_Some:
  assumes "parse_elems strict s = Some (vs, r)"
  shows "\<exists>v r0 d r1. parse_value strict s = Some (v, r0) \<and> skip_ws r0 = d # r1
    \<and> (d = CHR '']'' \<and> vs = [v] \<and> r = r1
       \<or> d = CHR '','' \<and> length (skip_ws r1) < length s
         \<and> (\<exists>vs'. parse_elems strict (skip_ws r1) = Some (vs', r) \<and> vs = v # vs'))"
  using assms by (subst (asm) parse_elems.simps) (auto split: option.splits list.splits if_splits)

lemma parse_members_Some:
  assumes "parse_members strict s = Some (kvs, r)"
  shows "\<exists>q k r1 r2 v r3 e r4. s = CHR 0x22 # q \<and> scan_string strict q = Some (k, r1) \<and> skip_ws r1 = CHR '':'' # r2
    \<and> length (skip_ws r2) < length s \<and> parse_value strict (skip_ws r2) = Some (v, r3) \<and> skip_ws r3 = e # r4
    \<and> (e = CHR ''}'' \<and> kvs = [(k, v)] \<and> r = r4
       \<or> e = CHR '','' \<and> length (skip_ws r4) < length s
         \<and> (\<exists>kvs'. parse_members strict (skip_ws r4) = Some (kvs', r) \<and> kvs = (k, v) # kvs'))"
  using assms by (subst (asm) parse_members.simps) (auto split: option.splits list.splits if_splits)

lemma parse_value_Some:
  assumes "parse_value strict s = Some (v, r)"
  shows "\<exists>c q. s = c # q \<and>
     (c = CHR 0x22 \<and> (\<exists>t. scan_string strict q = Some (t, r) \<and> v = PyStr t)
      \<or> c = CHR ''['' \<and> skip_ws q = CHR '']'' # r \<and> v = PyList []
      \<or> c = CHR ''['' \<and> \<not> startswith (skip_ws q) '']'' \<and> (\<exists>vs. parse_elems strict (skip_ws q) = Some (vs, r) \<and> v = PyList vs)
      \<or> c = CHR ''{'' \<and> skip_ws q = CHR ''}'' # r \<and> v = PyDict []
      \<or> c = CHR ''{'' \<and> \<not> startswith (skip_ws q) ''}''
          \<and> (\<exists>kvs. parse_members strict (skip_ws q) = Some (kvs, r) \<and> v = PyDict (dict_update [] kvs))
      \<or> c \<notin> {CHR 0x22, CHR ''['', CHR ''{''} \<and> scan_scalar s = Some (v, r))"
proof -
  have tl: "startswith t [d] \<Longrightarrow> t = d # tl t" for t d by (cases t) (auto simp: startswith_def)
  show ?thesis
    using assms tl by (auto simp: parse_value.simps split: list.splits if_splits)
qed

lemma parse_shorter_aux:
  "(\<forall>strict v r. parse_value strict s = Some (v, r) \<longrightarrow> length r < length s)
   \<and> (\<forall>strict vs r. parse_elems strict s = Some (vs, r) \<longrightarrow> length r < length s)
   \<and> (\<forall>strict kvs r. parse_members strict s = Some (kvs, r) \<longrightarrow> length r < length s)"
proof (induction "length s" arbitrary: s rule: less_induct)
  case less
  note ws = skip_ws_length
  have val: "length r < length s" if pv: "parse_value strict s = Some (v, r)" for strict v r
  proof -
    obtain c q where s: "s = c # q" using parse_value_Some [OF pv] by blast
    have "length (skip_ws q) < length s" using ws [of q] s by simp
    from less [OF this] show ?thesis
      using parse_value_Some [OF pv] s ws [of q] scan_string_shorter [of strict q _ r] scan_scalar_shorter [of s v r]
      by (fastforce simp del: dropWhile.simps)
  qed
  have "length r < length s" if pe: "parse_elems strict s = Some (vs, r)" for strict vs r
  proof -
    obtain v r0 d r1 where p: "parse_value strict s = Some (v, r0)" "skip_ws r0 = d # r1"
      and rest: "r = r1 \<or> length (skip_ws r1) < length s \<and> (\<exists>vs'. parse_elems strict (skip_ws r1) = Some (vs', r))"
      using parse_elems_Some [OF pe] by blast
    have "length r1 < length s" using val [OF p(1)] skip_ws_Cons_length [OF p(2)] by simp
    then show ?thesis using rest less [of "skip_ws r1"] ws [of r1] by fastforce
  qed
  moreover have "length r < length s" if pm: "parse_members strict s = Some (kvs, r)" for strict kvs r
  proof -
    obtain r2 v r3 e r4 where p: "length (skip_ws r2) < length s" "parse_value strict (skip_ws r2) = Some (v, r3)"
        "skip_ws r3 = e # r4"
      and rest: "r = r4 \<or> length (skip_ws r4) < length s \<and> (\<exists>kvs'. parse_members strict (skip_ws r4) = Some (kvs', r))"
      using parse_members_Some [OF pm] by blast
    have "length r3 < length (skip_ws r2)" using less [OF p(1)] p(2) by blast
    then have "length r4 < length s" using p(1) skip_ws_Cons_length [OF p(3)] by simp
    then show ?thesis using rest less [of "skip_ws r4"] ws [of r4] by fastforce
  qed
  ultimately show ?case using val by blast
qed

lemma parse_shorter:
  "parse_value strict s = Some (v, r) \<Longrightarrow> length r < length s"
  "parse_elems strict s = Some (vs, r) \<Longrightarrow> length r < length s"
  "parse_members strict s = Some (kvs, r) \<Longrightarrow> length r < length s"
  using parse_shorter_aux [of s] by blast+

lemma parse_elems_last:
  "parse_value strict s = Some (v, r0) \<Longrightarrow> skip_ws r0 = CHR '']'' # r \<Longrightarrow> parse_elems strict s = Some ([v], r)"
  by (subst parse_elems.simps) simp

lemma parse_elems_more:
  assumes "parse_value strict s = Some (v, r0)" and "skip_ws r0 = CHR '','' # r1"
    and "parse_elems strict (skip_ws r1) = Some (vs, r)"
  shows "parse_elems strict s = Some (v # vs, r)"
proof -
  have "length (skip_ws r1) < length s"
    using parse_shorter(1) [OF assms(1)] skip_ws_Cons_length [OF assms(2)] skip_ws_length [of r1] by simp
  then show ?thesis using assms by (subst parse_elems.simps) simp
qed

lemma parse_members_step:
  assumes "scan_string strict q = Some (k, r1)" and "skip_ws r1 = CHR '':'' # r2"
    and "parse_value strict (skip_ws r2) = Some (v, r3)"
  shows "skip_ws r3 = CHR ''}'' # r \<Longrightarrow> parse_members strict (CHR 0x22 # q) = Some ([(k, v)], r)"
    and "skip_ws r3 = CHR '','' # r4 \<Longrightarrow> parse_members strict (skip_ws r4) = Some (kvs, r) \<Longrightarrow>
      parse_members strict (CHR 0x22 # q) = Some ((k, v) # kvs, r)"
proof -
  have short: "length (skip_ws r2) < Suc (length q)"
    using scan_string_shorter [OF assms(1)] skip_ws_Cons_length [OF assms(2)] skip_ws_length [of r2] by simp
  then show "parse_members strict (CHR 0x22 # q) = Some ([(k, v)], r)" if "skip_ws r3 = CHR ''}'' # r"
    using assms that by (subst parse_members.simps) simp
  show "parse_members strict (CHR 0x22 # q) = Some ((k, v) # kvs, r)"
    if "skip_ws r3 = CHR '','' # r4" "parse_members strict (skip_ws r4) = Some (kvs, r)"
  proof -
    have "length (skip_ws r4) < Suc (length q)"
      using short parse_shorter(1) [OF assms(3)] skip_ws_Cons_length [OF that(1)] skip_ws_length [of r4] by simp
    then show ?thesis using assms that short by (subst parse_members.simps) simp
  qed
qed

lemma parse_dumps_with:
  assumes "list_all json_space sp"
  shows "json_ok v \<Longrightarrow> stops rest \<Longrightarrow> parse_value strict (dumps_with sp v @ rest) = Some (v, rest)"
    and "list_all json_ok vs \<Longrightarrow> vs \<noteq> [] \<Longrightarrow> parse_elems strict (elems_with sp vs @ CHR '']'' # rest) = Some (vs, rest)"
    and "list_all (\<lambda>kv. json_ok (snd kv)) kvs \<Longrightarrow> kvs \<noteq> [] \<Longrightarrow>
     parse_members strict (members_with sp kvs @ CHR ''}'' # rest) = Some (kvs, rest)"
proof (induction v and vs and kvs arbitrary: rest and rest and rest rule: json_dumps_dumps_elems_dumps_members.induct)
  case 1
  show ?case using parse_words(1) [of strict rest] by simp
next
  case (2 b)
  show ?case using parse_words(2,3) [of strict rest] by simp
next
  case (3 i)
  then show ?case by (simp add: parse_number scan_number_int)
next
  case (4 t)
  then show ?case using scan_number_ext [of t "PyFloat t" "[]" rest] by (simp add: parse_number)
next
  case (5 s)
  show ?case by (simp add: dumps_string_def parse_value.simps scan_string_dumps)
next
  case (6 vs)
  show ?case
  proof (cases "vs = []")
    case False
    then obtain c q where first: "elems_with sp vs = c # q" "\<not> json_space c" "c \<noteq> CHR '']''"
      using elems_first [of vs sp] 6(2) by auto
    then show ?thesis using 6 False by (simp add: parse_value.simps startswith_def)
  qed (simp add: parse_value.simps startswith_def json_space_def)
next
  case (7 kvs)
  show ?case
  proof (cases "kvs = []")
    case False
    then obtain q where "members_with sp kvs = CHR 0x22 # q" using members_first by blast
    then show ?thesis using 7 False by (simp add: parse_value.simps startswith_def dict_update_fresh)
  qed (simp add: parse_value.simps startswith_def json_space_def)
next
  case (9 v)
  then show ?case using parse_elems_last [of strict "dumps_with sp v @ CHR '']'' # rest" v "CHR '']'' # rest" rest] by simp
next
  case (10 v w vs)
  let ?r = "elems_with sp (w # vs) @ CHR '']'' # rest"
  obtain c q where "elems_with sp (w # vs) = c # q" "\<not> json_space c" using elems_first [of "w # vs" sp] 10(3) by auto
  then have "skip_ws (sp @ ?r) = ?r" using dropWhile_all [OF assms] by simp
  then have "parse_elems strict (skip_ws (sp @ ?r)) = Some (w # vs, rest)" using 10 by simp
  then show ?case
    using 10 parse_elems_more [of strict "dumps_with sp v @ CHR '','' # sp @ ?r" v "CHR '','' # sp @ ?r" "sp @ ?r" "w # vs" rest]
    by simp
next
  case (12 k v)
  then show ?case
    using parse_members_step(1) [where q = "concat (map json_escape k) @ CHR 0x22 # CHR '':'' # sp @ dumps_with sp v @ CHR ''}'' # rest"]
    by (simp add: dumps_string_def scan_string_dumps dropWhile_all [OF assms] skip_ws_printed)
next
  case (13 k v m kvs)
  let ?r = "members_with sp (m # kvs) @ CHR ''}'' # rest"
  obtain q where "members_with sp (m # kvs) = CHR 0x22 # q" using members_first by blast
  then have "skip_ws (sp @ ?r) = ?r" using dropWhile_all [OF assms] by simp
  then have "parse_members strict (skip_ws (sp @ ?r)) = Some (m # kvs, rest)" using 13 by simp
  then show ?case
    using 13 parse_members_step(2) [OF scan_string_dumps, of "CHR '':'' # sp @ dumps_with sp v @ CHR '','' # sp @ ?r"
        "sp @ dumps_with sp v @ CHR '','' # sp @ ?r" strict v "CHR '','' # sp @ ?r" "sp @ ?r" "m # kvs" rest k]
    by (simp add: dumps_string_def dropWhile_all [OF assms] skip_ws_printed)
qed simp_all

lemma parse_dumps: "json_ok v \<Longrightarrow> stops rest \<Longrightarrow> parse_value strict (json_dumps v @ rest) = Some (v, rest)"
  by (simp add: dumps_compact parse_dumps_with(1))

lemma loads_dumps_with:
  assumes "list_all json_space sp" and "json_ok v" and "skip_ws w = []"
  shows "json_loads_with strict (dumps_with sp v @ w) = Some v"
proof -
  have "stops w"
  proof (cases w)
    case (Cons c q)
    then have "json_space c" using assms(3) by (simp split: if_splits)
    then show ?thesis using Cons json_space_stops by simp
  qed simp
  then show ?thesis using assms by (simp add: json_loads_with_def skip_ws_printed parse_dumps_with(1))
qed

lemma loads_dumps_ws: "json_ok v \<Longrightarrow> skip_ws w = [] \<Longrightarrow> json_loads_with strict (json_dumps v @ w) = Some v"
  using loads_dumps_with [of "[]" v w strict] by (simp add: dumps_compact del: dropWhile_eq_Nil_conv)

section \<open>More text after a value, and proper prefixes\<close>

lemma skip_ws_ext: "skip_ws s = d # r \<Longrightarrow> skip_ws (s @ t) = d # r @ t"
  by (induction s) (auto split: if_splits)

lemma unicode_escape_length: "unicode_escape ds = Some c \<Longrightarrow> length ds = 4"
  by (auto simp: unicode_escape_def split: list.splits option.splits)

lemma scan_string_ext: "scan_string strict s = Some (x, r) \<Longrightarrow> scan_string strict (s @ t) = Some (x, r @ t)"
proof (induction strict s arbitrary: x rule: scan_string.induct)
  case (2 strict c s)
  show ?case
  proof (cases "c = CHR 0x22 \<or> c \<noteq> CHR 0x5C")
    case True
    then show ?thesis using 2 by (fastforce split: if_splits)
  next
    case False
    then obtain e s1 where s: "s = e # s1" using 2(4) by (cases s) auto
    show ?thesis
    proof (cases "e = CHR ''u''")
      case True
      then obtain ch x' where u: "unicode_escape (take 4 s1) = Some ch" and x: "scan_string strict (drop 4 s1) = Some (x', r)" "x = ch # x'"
        using 2(4) False s by (auto split: option.splits)
      have "4 \<le> length s1" using unicode_escape_length [OF u] by simp
      then have "take 4 (s1 @ t) = take 4 s1" "drop 4 (s1 @ t) = drop 4 s1 @ t" by simp_all
      moreover have "scan_string strict (drop 4 s1 @ t) = Some (x', r @ t)" using 2(1) False s True u x(1) by blast
      ultimately show ?thesis using False s True u x(2) by (simp del: take_append drop_append)
    next
      case nu: False
      then obtain ch x' where "simple_escape e = Some ch" "scan_string strict s1 = Some (x', r)" "x = ch # x'"
        using 2(4) False s by (auto split: option.splits)
      moreover from this have "scan_string strict (s1 @ t) = Some (x', r @ t)" using 2(2) False s nu by blast
      ultimately show ?thesis using False s nu by simp
    qed
  qed
qed simp

lemma scan_word_append: "(w, v) \<in> set json_words \<Longrightarrow> scan_word (w @ r) = Some (v, r) \<and> scan_number (w @ r) = None"
proof -
  have minus: "scan_number (CHR ''-'' # CHR ''I'' # q) = None" for q
    by (simp add: scan_number_def scan_int_def startswith_def is_digit_def)
  have "list_all (\<lambda>(w, v). scan_word (w @ r) = Some (v, r) \<and> scan_number (w @ r) = None) json_words"
    by (simp add: scan_word_def json_words_def startswith_def scan_number_letter is_digit_def minus)
  moreover assume "(w, v) \<in> set json_words"
  ultimately show ?thesis by (auto simp: list_all_iff)
qed

lemma scan_scalar_ext:
  assumes "scan_scalar s = Some (v, r)" and "stops (r @ t)"
  shows "scan_scalar (s @ t) = Some (v, r @ t)"
proof (cases "scan_number s")
  case (Some p)
  then show ?thesis using assms scan_number_ext [of s v r t] by (simp add: scan_scalar_def)
next
  case None
  then obtain w where "s = w @ r" "(w, v) \<in> set json_words" using assms(1) scan_word_text [of s v r] by (auto simp: scan_scalar_def)
  then show ?thesis using scan_word_append [of w v "r @ t"] by (simp add: scan_scalar_def)
qed

fun is_scalar :: "pyval \<Rightarrow> bool" where
  "is_scalar (PyStr s) = False"
| "is_scalar (PyList vs) = False"
| "is_scalar (PyDict kvs) = False"
| "is_scalar _ = True"

lemma scan_scalar_is_scalar: "scan_scalar s = Some (v, r) \<Longrightarrow> is_scalar v"
proof (cases "scan_number s")
  case None
  moreover assume "scan_scalar s = Some (v, r)"
  ultimately obtain w where "(w, v) \<in> set json_words" using scan_word_text [of s v r] by (auto simp: scan_scalar_def)
  then show ?thesis by (auto simp: json_words_def)
qed (auto simp: scan_scalar_def scan_number_def Let_def split: option.splits prod.splits if_splits)

lemma parse_ext_aux:
  "(\<forall>strict v r. parse_value strict s = Some (v, r) \<longrightarrow> (is_scalar v \<longrightarrow> stops (r @ t)) \<longrightarrow> parse_value strict (s @ t) = Some (v, r @ t))
   \<and> (\<forall>strict vs r. parse_elems strict s = Some (vs, r) \<longrightarrow> parse_elems strict (s @ t) = Some (vs, r @ t))
   \<and> (\<forall>strict kvs r. parse_members strict s = Some (kvs, r) \<longrightarrow> parse_members strict (s @ t) = Some (kvs, r @ t))"
proof (induction "length s" arbitrary: s rule: less_induct)
  case less
  have punct: "stops (r0 @ t)" if "skip_ws r0 = d # r1" "d \<in> {CHR '']'', CHR ''}'', CHR '',''}" for r0 d r1
  proof (cases r0)
    case (Cons c q)
    then have "json_space c \<or> c = d" using that(1) by (auto split: if_splits)
    then show ?thesis using Cons that(2) json_space_stops [of c] by (auto simp: is_digit_def)
  qed (use that in simp)
  have nonempty: "u \<noteq> []" if "parse_elems strict u = Some p \<or> parse_members strict u = Some p'" for strict u p p'
    using that by (cases p; cases p') (auto dest: parse_shorter(2,3))
  have val: "parse_value strict (s @ t) = Some (v, r @ t)"
    if pv: "parse_value strict s = Some (v, r)" and sc: "is_scalar v \<Longrightarrow> stops (r @ t)" for strict v r
  proof -
    obtain c q where s: "s = c # q" using parse_value_Some [OF pv] by blast
    have "length (skip_ws q) < length s" using skip_ws_length [of q] s by simp
    note IH = less [OF this]
    have ws: "skip_ws (q @ t) = skip_ws q @ t" if "skip_ws q \<noteq> []" using skip_ws_ext [of q] that by (cases "skip_ws q") auto
    have sw: "startswith (u @ t) [d] = startswith u [d]" if "u \<noteq> []" for u d using that by (cases u) (simp_all add: startswith_def)
    from parse_value_Some [OF pv] s consider
        (str) x where "c = CHR 0x22" "scan_string strict q = Some (x, r)" "v = PyStr x"
      | (arr0) "c = CHR ''[''" "skip_ws q = CHR '']'' # r" "v = PyList []"
      | (arr) vs where "c = CHR ''[''" "\<not> startswith (skip_ws q) '']''" "parse_elems strict (skip_ws q) = Some (vs, r)" "v = PyList vs"
      | (obj0) "c = CHR ''{''" "skip_ws q = CHR ''}'' # r" "v = PyDict []"
      | (obj) kvs where "c = CHR ''{''" "\<not> startswith (skip_ws q) ''}''" "parse_members strict (skip_ws q) = Some (kvs, r)" "v = PyDict (dict_update [] kvs)"
      | (scal) "c \<notin> {CHR 0x22, CHR ''['', CHR ''{''}" "scan_scalar s = Some (v, r)" by blast
    then show ?thesis
    proof cases
      case str
      then show ?thesis using s scan_string_ext by (simp add: parse_value.simps)
    next
      case arr0
      then show ?thesis using s skip_ws_ext [of q] by (simp add: parse_value.simps startswith_def)
    next
      case arr
      then have "skip_ws q \<noteq> []" using nonempty by blast
      then show ?thesis using arr s ws sw IH by (simp add: parse_value.simps)
    next
      case obj0
      then show ?thesis using s skip_ws_ext [of q] by (simp add: parse_value.simps startswith_def)
    next
      case obj
      then have "skip_ws q \<noteq> []" using nonempty by blast
      then show ?thesis using obj s ws sw IH by (simp add: parse_value.simps)
    next
      case scal
      then have "scan_scalar (s @ t) = Some (v, r @ t)" using sc scan_scalar_is_scalar scan_scalar_ext by blast
      then show ?thesis using scal(1) s by (simp add: parse_value.simps)
    qed
  qed
  have "parse_elems strict (s @ t) = Some (vs, r @ t)" if pe: "parse_elems strict s = Some (vs, r)" for strict vs r
  proof -
    obtain v r0 d r1 where p: "parse_value strict s = Some (v, r0)" "skip_ws r0 = d # r1"
      and rest: "d = CHR '']'' \<and> vs = [v] \<and> r = r1 \<or> d = CHR '','' \<and> length (skip_ws r1) < length s
         \<and> (\<exists>vs'. parse_elems strict (skip_ws r1) = Some (vs', r) \<and> vs = v # vs')"
      using parse_elems_Some [OF pe] by blast
    have v: "parse_value strict (s @ t) = Some (v, r0 @ t)" using val [OF p(1)] punct [OF p(2)] rest by blast
    have d: "skip_ws (r0 @ t) = d # r1 @ t" using skip_ws_ext [OF p(2)] .
    from rest show ?thesis
    proof
      assume "d = CHR '']'' \<and> vs = [v] \<and> r = r1"
      then show ?thesis using parse_elems_last [OF v] d by simp
    next
      assume m: "d = CHR '','' \<and> length (skip_ws r1) < length s
         \<and> (\<exists>vs'. parse_elems strict (skip_ws r1) = Some (vs', r) \<and> vs = v # vs')"
      then obtain vs' where vs': "parse_elems strict (skip_ws r1) = Some (vs', r)" "vs = v # vs'" by blast
      then have "skip_ws (r1 @ t) = skip_ws r1 @ t"
        using nonempty [of strict "skip_ws r1"] skip_ws_ext [of r1] by (cases "skip_ws r1") auto
      then have "parse_elems strict (skip_ws (r1 @ t)) = Some (vs', r @ t)" using less [of "skip_ws r1"] m vs'(1) by simp
      then show ?thesis using parse_elems_more [OF v] d m vs'(2) by simp
    qed
  qed
  moreover have "parse_members strict (s @ t) = Some (kvs, r @ t)" if pm: "parse_members strict s = Some (kvs, r)" for strict kvs r
  proof -
    obtain q k r1 r2 v r3 e r4 where s: "s = CHR 0x22 # q" and p: "scan_string strict q = Some (k, r1)" "skip_ws r1 = CHR '':'' # r2"
        "length (skip_ws r2) < length s" "parse_value strict (skip_ws r2) = Some (v, r3)" "skip_ws r3 = e # r4"
      and rest: "e = CHR ''}'' \<and> kvs = [(k, v)] \<and> r = r4 \<or> e = CHR '','' \<and> length (skip_ws r4) < length s
         \<and> (\<exists>kvs'. parse_members strict (skip_ws r4) = Some (kvs', r) \<and> kvs = (k, v) # kvs')"
      using parse_members_Some [OF pm] by blast
    have "skip_ws r2 \<noteq> []" using parse_shorter(1) [OF p(4)] by (auto simp del: dropWhile_eq_Nil_conv)
    then have "skip_ws (r2 @ t) = skip_ws r2 @ t" using skip_ws_ext [of r2] by (cases "skip_ws r2") auto
    moreover have "parse_value strict (skip_ws r2 @ t) = Some (v, r3 @ t)"
      using less [OF p(3)] p(4) punct [OF p(5)] rest by blast
    ultimately have v: "parse_value strict (skip_ws (r2 @ t)) = Some (v, r3 @ t)" by simp
    note step = parse_members_step [OF scan_string_ext [OF p(1), of t] skip_ws_ext [OF p(2), of t] v]
    from rest show ?thesis
    proof
      assume "e = CHR ''}'' \<and> kvs = [(k, v)] \<and> r = r4"
      then show ?thesis using step(1) skip_ws_ext [OF p(5), of t] s by simp
    next
      assume m: "e = CHR '','' \<and> length (skip_ws r4) < length s
         \<and> (\<exists>kvs'. parse_members strict (skip_ws r4) = Some (kvs', r) \<and> kvs = (k, v) # kvs')"
      then obtain kvs' where kvs': "parse_members strict (skip_ws r4) = Some (kvs', r)" "kvs = (k, v) # kvs'" by blast
      then have "skip_ws (r4 @ t) = skip_ws r4 @ t"
        using nonempty [of strict "skip_ws r4"] skip_ws_ext [of r4] by (cases "skip_ws r4") auto
      then have "parse_members strict (skip_ws (r4 @ t)) = Some (kvs', r @ t)" using less [of "skip_ws r4"] m kvs'(1) by simp
      then show ?thesis using step(2) skip_ws_ext [OF p(5), of t] m kvs'(2) s by simp
    qed
  qed
  ultimately show ?case using val by blast
qed

lemma parse_value_ext:
  "parse_value strict s = Some (v, r) \<Longrightarrow> \<not> is_scalar v \<Longrightarrow> parse_value strict (s @ t) = Some (v, r @ t)"
  using parse_ext_aux [of s t] by blast

text \<open>A proper prefix of the text of an object is not a JSON text.\<close>

lemma loads_prefix_with:
  assumes "list_all json_space sp" and "json_ok (PyDict kvs)" and "dumps_with sp (PyDict kvs) = p @ q" and "q \<noteq> []"
  shows "json_loads_with strict p = None"
proof (rule ccontr)
  assume "json_loads_with strict p \<noteq> None"
  then obtain v r where v: "parse_value strict (skip_ws p) = Some (v, r)" "skip_ws r = []"
    by (auto simp: json_loads_with_def split: option.splits if_splits)
  have "skip_ws p \<noteq> []" using parse_shorter(1) [OF v(1)] by (auto simp del: dropWhile_eq_Nil_conv)
  then obtain c p' where p: "p = c # p'" by (cases p) auto
  have c: "c = CHR ''{''" using assms(3) p by simp
  then have ws: "skip_ws p = p" using p by simp
  have "\<not> is_scalar v" using parse_value_Some [OF v(1)] ws p c by auto
  then have "parse_value strict (p @ q) = Some (v, r @ q)" using parse_value_ext v(1) ws by simp
  moreover have "parse_value strict (p @ q) = Some (PyDict kvs, [])"
    using parse_dumps_with(1) [OF assms(1,2), of "[]" strict] assms(3) by simp
  ultimately show False using assms(4) by simp
qed

lemma loads_prefix_None:
  "json_ok (PyDict kvs) \<Longrightarrow> json_dumps (PyDict kvs) = p @ q \<Longrightarrow> q \<noteq> [] \<Longrightarrow> json_loads_with strict p = None"
  using loads_prefix_with [of "[]" kvs p q strict] by (simp add: dumps_compact del: dumps_with.simps)

section \<open>The characters of a number\<close>

lemma takeWhile_digits: "c \<in> set (takeWhile is_digit s) \<Longrightarrow> is_digit c"
  by (rule set_takeWhileD [THEN conjunct2])

lemma scan_number_chars:
  assumes "scan_number t = Some (PyFloat t, [])" and "c \<in> set t"
  shows "is_digit c \<or> c \<in> {CHR ''-'', CHR ''+'', CHR ''.'', CHR ''e'', CHR ''E''}"
proof -
  obtain i r0 f r1 e where p: "scan_int t = Some (i, r0)" "scan_frac r0 = (f, r1)" "scan_exp r1 = (e, [])" and t: "t = i @ f @ e"
    using assms(1) by (auto simp: scan_number_def Let_def split: option.splits prod.splits if_splits)
  have "is_digit d \<or> d = CHR ''-''" if "d \<in> set i" for d
    using p(1) that minus_not_digit(3)
    by (auto simp: scan_int_def Let_def dest: takeWhile_digits split: if_splits)
  moreover have "is_digit d \<or> d = CHR ''.''" if "d \<in> set f" for d
    using p(2) that by (auto simp: scan_frac_def Let_def dest: takeWhile_digits split: list.splits if_splits)
  moreover have "is_digit d \<or> d \<in> {CHR ''-'', CHR ''+'', CHR ''e'', CHR ''E''}" if "d \<in> set e" for d
    using p(3) that by (auto simp: scan_exp_def Let_def dest: takeWhile_digits split: list.splits if_splits)
  ultimately show ?thesis using assms(2) t by auto
qed


end
