(* ===== verification/Settings_Loader.thy ===== *)
theory Settings_Loader
  imports Permission_Pipeline Json
begin

text \<open>
  How the permission context comes about (\<^verbatim>\<open>services/permissions/loader.py\<close>): the \<^verbatim>\<open>permissions\<close> section of the
  three settings files, the arguments of the command line and one environment variable are merged into a
  \<open>ToolPermissionContext\<close>. The file system is the argument \<open>fs\<close> (the text of an existing file), the YAML parser the
  argument \<open>yaml\<close> (\<open>None\<close> where it raises), \<^verbatim>\<open>str\<close> on a value that is not a string the argument \<open>str_of\<close>, the
  environment \<open>environ\<close>. A layer dictionary is the record \<open>settings_layer\<close>.
\<close>

section \<open>One settings file\<close>

record settings_layer =
  ly_allow :: "string list"
  ly_deny :: "string list"
  ly_ask :: "string list"
  ly_mode :: "string option"
  ly_additional_directories :: "string list"
  ly_audit :: pydict

datatype settings_error = Invalid_Permission_Mode string

definition empty_permissions_dict :: settings_layer where
  "empty_permissions_dict =
     \<lparr>ly_allow = [], ly_deny = [], ly_ask = [], ly_mode = None, ly_additional_directories = [], ly_audit = []\<rparr>"

fun str_items :: "(pyval \<Rightarrow> string) \<Rightarrow> pyval list \<Rightarrow> string list" where
  "str_items str_of [] = []"
| "str_items str_of (PyStr s # vs) = s # str_items str_of vs"
| "str_items str_of (PyNone # vs) = str_items str_of vs"
| "str_items str_of (v # vs) = str_of v # str_items str_of vs"

fun coerce_str_list :: "(pyval \<Rightarrow> string) \<Rightarrow> pyval option \<Rightarrow> string list" where
  "coerce_str_list str_of (Some (PyList vs)) = str_items str_of vs"
| "coerce_str_list str_of _ = []"

fun coerce_positive_int :: "pyval \<Rightarrow> int option" where
  "coerce_positive_int (PyInt n) = (if 0 < n then Some n else None)"
| "coerce_positive_int (PyStr s) = (case py_int s of Some n \<Rightarrow> if 0 < n then Some n else None | None \<Rightarrow> None)"
| "coerce_positive_int _ = None"

fun coerce_bool :: "pyval \<Rightarrow> bool option" where
  "coerce_bool (PyBool b) = Some b"
| "coerce_bool (PyStr s) =
     (let normalized = map lower_char (strip s) in
      if normalized \<in> set [''true'', ''yes'', ''1'', ''on''] then Some True
      else if normalized \<in> set [''false'', ''no'', ''0'', ''off''] then Some False
      else None)"
| "coerce_bool _ = None"

definition permission_mode_of :: "string \<Rightarrow> PermissionMode option" where
  \<comment> \<open>\<^verbatim>\<open>PermissionMode(value)\<close>, which raises \<^verbatim>\<open>ValueError\<close> where this is \<open>None\<close>\<close>
  "permission_mode_of v =
     (if v = ''default'' then Some DEFAULT
      else if v = ''accept_edits'' then Some ACCEPT_EDITS
      else if v = ''bypass_permissions'' then Some BYPASS_PERMISSIONS
      else if v = ''dont_ask'' then Some DONT_ASK
      else None)"

definition parse_cli_permission_mode :: "string \<Rightarrow> settings_error + PermissionMode" where
  "parse_cli_permission_mode v =
     (case permission_mode_of v of Some m \<Rightarrow> Inr m | None \<Rightarrow> Inl (Invalid_Permission_Mode v))"

definition load_settings_permissions ::
    "(string \<Rightarrow> string option) \<Rightarrow> (string \<Rightarrow> pyval option) \<Rightarrow> (pyval \<Rightarrow> string) \<Rightarrow> string \<Rightarrow> settings_layer" where
  "load_settings_permissions fs yaml str_of path =
     (case fs path of
        None \<Rightarrow> empty_permissions_dict
      | Some txt \<Rightarrow>
          let raw = (case yaml txt of Some (PyDict d) \<Rightarrow> d | _ \<Rightarrow> []) in
          (case map_of raw ''permissions'' of
             Some (PyDict perms) \<Rightarrow>
               \<lparr>ly_allow = coerce_str_list str_of (map_of perms ''allow''),
                ly_deny = coerce_str_list str_of (map_of perms ''deny''),
                ly_ask = coerce_str_list str_of (map_of perms ''ask''),
                ly_mode = (case map_of perms ''mode'' of
                             Some (PyStr m) \<Rightarrow> if strip m = [] then None else Some (strip m)
                           | _ \<Rightarrow> None),
                ly_additional_directories = coerce_str_list str_of (map_of perms ''additional_directories''),
                ly_audit = (case map_of perms ''audit'' of Some (PyDict a) \<Rightarrow> a | _ \<Rightarrow> [])\<rparr>
           | _ \<Rightarrow> empty_permissions_dict))"

section \<open>Merging\<close>

record merged =
  mg_allow :: rules_by_source
  mg_deny :: rules_by_source
  mg_ask :: rules_by_source
  mg_dirs :: "string list"
  mg_mode :: "PermissionMode option"
  mg_audit :: PermissionAuditSettings

definition set_rules :: "string \<Rightarrow> string list \<Rightarrow> rules_by_source \<Rightarrow> rules_by_source" where
  "set_rules source rules by_source = (if rules = [] then by_source else dict_set source rules by_source)"

definition apply_yaml_layer :: "settings_layer \<Rightarrow> string \<Rightarrow> merged \<Rightarrow> merged" where
  "apply_yaml_layer data source_key m =
     m\<lparr>mg_allow := set_rules source_key (ly_allow data) (mg_allow m),
       mg_deny := set_rules source_key (ly_deny data) (mg_deny m),
       mg_ask := set_rules source_key (ly_ask data) (mg_ask m),
       mg_dirs := mg_dirs m @ ly_additional_directories data,
       mg_mode := (case ly_mode data of
                     None \<Rightarrow> mg_mode m
                   | Some v \<Rightarrow> (case permission_mode_of v of Some mode \<Rightarrow> Some mode | None \<Rightarrow> mg_mode m))\<rparr>"

definition MAX_PERMISSION_AUDIT_FILES :: int where
  "MAX_PERMISSION_AUDIT_FILES = 100"

definition apply_audit_layer :: "settings_layer \<Rightarrow> PermissionAuditSettings \<Rightarrow> PermissionAuditSettings" where
  "apply_audit_layer data settings =
     (let audit = ly_audit data;
          s1 = (case map_of audit ''include_tool_input'' of
                  None \<Rightarrow> settings
                | Some v \<Rightarrow> (case coerce_bool v of Some b \<Rightarrow> settings\<lparr>include_tool_input := b\<rparr> | None \<Rightarrow> settings));
          s2 = (case map_of audit ''max_file_bytes'' of
                  None \<Rightarrow> s1
                | Some v \<Rightarrow> (case coerce_positive_int v of Some n \<Rightarrow> s1\<lparr>max_file_bytes := n\<rparr> | None \<Rightarrow> s1))
      in case map_of audit ''max_files'' of
           None \<Rightarrow> s2
         | Some v \<Rightarrow>
             (case coerce_positive_int v of
                Some n \<Rightarrow>
                  if MAX_PERMISSION_AUDIT_FILES < n then s2\<lparr>max_files := MAX_PERMISSION_AUDIT_FILES\<rparr>
                  else s2\<lparr>max_files := n\<rparr>
              | None \<Rightarrow> s2))"

definition apply_layer :: "string \<times> settings_layer \<Rightarrow> merged \<Rightarrow> merged" where
  "apply_layer sl m =
     (case sl of (source_key, layer) \<Rightarrow>
        let m1 = apply_yaml_layer layer source_key m in m1\<lparr>mg_audit := apply_audit_layer layer (mg_audit m1)\<rparr>)"

definition no_layers :: merged where
  "no_layers = \<lparr>mg_allow = [], mg_deny = [], mg_ask = [], mg_dirs = [], mg_mode = None, mg_audit = default_audit_settings\<rparr>"

definition settings_layers ::
    "(string \<Rightarrow> string option) \<Rightarrow> (string \<Rightarrow> pyval option) \<Rightarrow> (pyval \<Rightarrow> string) \<Rightarrow> string \<Rightarrow> string
      \<Rightarrow> (string \<times> settings_layer) list" where
  "settings_layers fs yaml str_of global_path cwd =
     map (\<lambda>(source_key, path). (source_key, load_settings_permissions fs yaml str_of path))
       [(''user_settings'', global_path),
        (''project_settings'', path_join (path_join cwd ''.iac-code'') ''settings.yml''),
        (''local_settings'', path_join (path_join cwd ''.iac-code'') ''settings.local.yml'')]"

definition merge_layers ::
    "(string \<times> settings_layer) list \<Rightarrow> string list \<Rightarrow> string list \<Rightarrow> string option \<Rightarrow> string option
      \<Rightarrow> settings_error + merged" where
  \<comment> \<open>the command line and the environment variable on top of the files\<close>
  "merge_layers layers cli_allowed cli_disallowed cli_mode include_tool_input_env =
     (let m = fold apply_layer layers no_layers;
          m1 = m\<lparr>mg_allow := set_rules ''cli_arg'' cli_allowed (mg_allow m),
                 mg_deny := set_rules ''cli_arg'' cli_disallowed (mg_deny m)\<rparr>;
          with_env = (\<lambda>m. case include_tool_input_env of
                            None \<Rightarrow> m
                          | Some v \<Rightarrow>
                              (case coerce_bool (PyStr v) of
                                 Some b \<Rightarrow> m\<lparr>mg_audit := (mg_audit m)\<lparr>include_tool_input := b\<rparr>\<rparr>
                               | None \<Rightarrow> m))
      in case cli_mode of
           None \<Rightarrow> Inr (with_env m1)
         | Some v \<Rightarrow>
             (case parse_cli_permission_mode v of
                Inl e \<Rightarrow> Inl e
              | Inr mode \<Rightarrow> Inr (with_env (m1\<lparr>mg_mode := Some mode\<rparr>))))"

definition load_permission_context ::
    "(string \<Rightarrow> string option) \<Rightarrow> (string \<Rightarrow> pyval option) \<Rightarrow> (pyval \<Rightarrow> string) \<Rightarrow> (string \<Rightarrow> string option) \<Rightarrow> string
      \<Rightarrow> string \<Rightarrow> string list \<Rightarrow> string list \<Rightarrow> string option \<Rightarrow> settings_error + ToolPermissionContext" where
  \<comment> \<open>an absent list of the command line is the empty one: the code tests both alike\<close>
  "load_permission_context fs yaml str_of environ global_path cwd cli_allowed cli_disallowed cli_mode =
     map_sum id
       (\<lambda>m. default_context
          \<lparr>cx_mode := (case mg_mode m of Some mode \<Rightarrow> mode | None \<Rightarrow> DEFAULT), cx_cwd := cwd,
           cx_allow_rules := mg_allow m, cx_deny_rules := mg_deny m, cx_ask_rules := mg_ask m,
           cx_additional_directories := mg_dirs m, cx_trusted_read_directories := [],
           cx_relative_read_directories := [], cx_audit_settings := mg_audit m\<rparr>)
       (merge_layers (settings_layers fs yaml str_of global_path cwd) cli_allowed cli_disallowed cli_mode
          (environ ''IAC_CODE_PERMISSION_AUDIT_INCLUDE_TOOL_INPUT''))"

section \<open>What the merge keeps\<close>

lemma set_rules_new: "k \<notin> fst ` set d \<Longrightarrow> set_rules k rs d = d @ filter (\<lambda>(_, rs). rs \<noteq> []) [(k, rs)]"
  by (simp add: set_rules_def dict_set_snoc)

lemma fold_set_rules:
  "distinct (map fst d @ map fst ls) \<Longrightarrow>
     fold (\<lambda>(k, l). set_rules k (f l)) ls d = d @ filter (\<lambda>(_, rs). rs \<noteq> []) (map (\<lambda>(k, l). (k, f l)) ls)"
proof (induction ls arbitrary: d)
  case (Cons kl ls)
  obtain k l where kl: "kl = (k, l)" by fastforce
  have "k \<notin> fst ` set d" using Cons.prems kl by auto
  then show ?case
    using Cons.IH [of d] Cons.IH [of "d @ [(k, f l)]"] Cons.prems kl by (cases "f l = []") (auto simp: set_rules_new)
qed simp

lemma fold_apply_layer:
  "mg_allow (fold apply_layer ls m) = fold (\<lambda>(k, l). set_rules k (ly_allow l)) ls (mg_allow m)"
  "mg_deny (fold apply_layer ls m) = fold (\<lambda>(k, l). set_rules k (ly_deny l)) ls (mg_deny m)"
  "mg_ask (fold apply_layer ls m) = fold (\<lambda>(k, l). set_rules k (ly_ask l)) ls (mg_ask m)"
  "mg_dirs (fold apply_layer ls m) = mg_dirs m @ concat (map (\<lambda>(k, l). ly_additional_directories l) ls)"
  by (induction ls arbitrary: m) (auto simp: apply_layer_def apply_yaml_layer_def Let_def)

definition valid_mode :: "settings_layer \<Rightarrow> PermissionMode option" where
  "valid_mode l = Option.bind (ly_mode l) permission_mode_of"

lemma fold_apply_layer_mode:
  "mg_mode (fold apply_layer ls m) =
     (case first_some (valid_mode \<circ> snd) (rev ls) of Some mode \<Rightarrow> Some mode | None \<Rightarrow> mg_mode m)"
proof (induction ls rule: rev_induct)
  case (snoc kl ls)
  obtain k l where "kl = (k, l)" by fastforce
  with snoc show ?case
    by (simp add: apply_layer_def apply_yaml_layer_def valid_mode_def Let_def split: option.splits)
qed simp

definition audit_ok :: "PermissionAuditSettings \<Rightarrow> bool" where
  "audit_ok a \<longleftrightarrow> 0 < max_file_bytes a \<and> 0 < max_files a \<and> max_files a \<le> MAX_PERMISSION_AUDIT_FILES"

lemma coerce_positive_int_pos: "coerce_positive_int v = Some n \<Longrightarrow> 0 < n"
  by (cases v) (auto split: if_splits option.splits)

lemma apply_audit_layer_ok: "audit_ok a \<Longrightarrow> audit_ok (apply_audit_layer l a)"
  by (auto simp: apply_audit_layer_def audit_ok_def Let_def MAX_PERMISSION_AUDIT_FILES_def dest: coerce_positive_int_pos
      split: option.splits)

lemma fold_apply_layer_audit: "audit_ok (mg_audit m) \<Longrightarrow> audit_ok (mg_audit (fold apply_layer ls m))"
  by (induction ls arbitrary: m) (auto simp: apply_layer_def apply_yaml_layer_def Let_def apply_audit_layer_ok)

lemma settings_layers_keys:
  "map fst (settings_layers fs yaml str_of g cwd) = [''user_settings'', ''project_settings'', ''local_settings'']"
  by (simp add: settings_layers_def)

lemma merge_layers_Inr:
  assumes "merge_layers ls allowed disallowed mode env = Inr m"
  shows "mg_deny m = set_rules ''cli_arg'' disallowed (mg_deny (fold apply_layer ls no_layers))"
    "mg_mode m = (case mode of None \<Rightarrow> mg_mode (fold apply_layer ls no_layers) | Some v \<Rightarrow> permission_mode_of v)"
    "mode \<noteq> None \<Longrightarrow> mg_mode m \<noteq> None" "audit_ok (mg_audit m)"
proof -
  have "audit_ok (mg_audit no_layers)"
    by (simp add: audit_ok_def no_layers_def default_audit_settings_def MAX_PERMISSION_AUDIT_FILES_def)
  then have a: "audit_ok (mg_audit (fold apply_layer ls no_layers))" by (rule fold_apply_layer_audit)
  show "audit_ok (mg_audit m)"
    using assms a by (auto simp: merge_layers_def parse_cli_permission_mode_def Let_def audit_ok_def split: option.splits)
qed (use assms in \<open>auto simp: merge_layers_def parse_cli_permission_mode_def Let_def split: option.splits\<close>)

lemma merge_mode:
  "map_sum id mg_mode (merge_layers ls allowed disallowed mode env) =
     (case mode of
        None \<Rightarrow> Inr (mg_mode (fold apply_layer ls no_layers))
      | Some v \<Rightarrow> (case permission_mode_of v of Some m \<Rightarrow> Inr (Some m) | None \<Rightarrow> Inl (Invalid_Permission_Mode v)))"
  by (cases env)
     (simp_all add: merge_layers_def parse_cli_permission_mode_def Let_def split: option.split)

lemma load_Inr:
  assumes "load_permission_context fs yaml str_of environ g cwd allowed disallowed mode = Inr ctx"
  obtains m where "merge_layers (settings_layers fs yaml str_of g cwd) allowed disallowed mode
      (environ ''IAC_CODE_PERMISSION_AUDIT_INCLUDE_TOOL_INPUT'') = Inr m"
    and "cx_deny_rules ctx = mg_deny m" and "cx_audit_settings ctx = mg_audit m"
    and "cx_mode ctx = (case mg_mode m of Some mode \<Rightarrow> mode | None \<Rightarrow> DEFAULT)"
  using assms by (auto simp: load_permission_context_def map_sum_def split: sum.splits)

lemma loaded_deny_rules:
  assumes "load_permission_context fs yaml str_of environ g cwd allowed disallowed mode = Inr ctx"
  shows "cx_deny_rules ctx = filter (\<lambda>(_, rs). rs \<noteq> [])
    (map (\<lambda>(k, l). (k, ly_deny l)) (settings_layers fs yaml str_of g cwd) @ [(''cli_arg'', disallowed)])"
proof -
  let ?ls = "settings_layers fs yaml str_of g cwd"
  obtain m where m: "merge_layers ?ls allowed disallowed mode (environ ''IAC_CODE_PERMISSION_AUDIT_INCLUDE_TOOL_INPUT'') = Inr m"
    and d: "cx_deny_rules ctx = mg_deny m" using load_Inr [OF assms] by metis
  let ?files = "filter (\<lambda>(_, rs). rs \<noteq> []) (map (\<lambda>(k, l). (k, ly_deny l)) ?ls)"
  have files: "mg_deny (fold apply_layer ?ls no_layers) = ?files"
    using fold_set_rules [of "[]" ?ls ly_deny] settings_layers_keys [of fs yaml str_of g cwd]
    by (simp add: fold_apply_layer no_layers_def)
  have "fst ` set ?files \<subseteq> set (map fst ?ls)" by force
  moreover have "''cli_arg'' \<notin> set (map fst ?ls)" by (simp only: settings_layers_keys) simp
  ultimately have "''cli_arg'' \<notin> fst ` set ?files" by blast
  then have "set_rules ''cli_arg'' disallowed ?files = ?files @ filter (\<lambda>(_, rs). rs \<noteq> []) [(''cli_arg'', disallowed)]"
    by (rule set_rules_new)
  then show ?thesis using d merge_layers_Inr(1) [OF m] files by simp
qed

lemma get_tool_rule_None: "get_tool_rule name rules = None \<longleftrightarrow> (\<forall>(s, rs) \<in> set rules. name \<notin> set rs)"
  by (induction name rules rule: get_tool_rule.induct) auto

lemma bare_deny_denies:
  "get_tool_rule (tl_name tool) (cx_deny_rules ctx) \<noteq> None \<Longrightarrow> pr_behavior (check_tool_permission tool input ctx) = Deny"
  by (auto simp: check_tool_permission_def Let_def)

section \<open>Properties of the loader\<close>

text \<open>
  C23: a tool that the deny list of any settings file or of the command line names is never run: whatever the other
  files and arguments allow and whichever mode results, the permission pipeline denies every call of it under the
  loaded context.
\<close>

theorem settings_deny_enforced:
  assumes "load_permission_context fs yaml str_of environ g cwd allowed disallowed mode = Inr ctx"
    and "tl_name tool \<in> set disallowed
      \<or> (\<exists>(source, layer) \<in> set (settings_layers fs yaml str_of g cwd). tl_name tool \<in> set (ly_deny layer))"
  shows "pr_behavior (check_tool_permission tool input ctx) = Deny"
proof (rule bare_deny_denies)
  have "\<exists>source rs. (source, rs) \<in> set (cx_deny_rules ctx) \<and> tl_name tool \<in> set rs"
    using assms(2)
  proof (elim disjE)
    assume "tl_name tool \<in> set disallowed"
    moreover from this have "(''cli_arg'', disallowed) \<in> set (cx_deny_rules ctx)"
      unfolding loaded_deny_rules [OF assms(1)] by force
    ultimately show ?thesis by blast
  next
    assume "\<exists>(source, layer) \<in> set (settings_layers fs yaml str_of g cwd). tl_name tool \<in> set (ly_deny layer)"
    then obtain source layer where l: "(source, layer) \<in> set (settings_layers fs yaml str_of g cwd)"
      "tl_name tool \<in> set (ly_deny layer)" by blast
    then have "(source, ly_deny layer) \<in> set (cx_deny_rules ctx)"
      unfolding loaded_deny_rules [OF assms(1)] by force
    then show ?thesis using l(2) by blast
  qed
  then show "get_tool_rule (tl_name tool) (cx_deny_rules ctx) \<noteq> None" by (auto simp: get_tool_rule_None)
qed

text \<open>
  The mode of the loaded context is that of the command line, else the one of the most specific settings file that
  names a valid mode (local, then project, then user), else \<^verbatim>\<open>default\<close>; a file without a mode or with an unknown
  one is passed over, and only an unknown mode on the command line is an error.
\<close>

theorem settings_mode_resolution:
  "map_sum id cx_mode (load_permission_context fs yaml str_of environ g cwd allowed disallowed cli_mode) =
     (case cli_mode of
        Some v \<Rightarrow> (case permission_mode_of v of Some mode \<Rightarrow> Inr mode | None \<Rightarrow> Inl (Invalid_Permission_Mode v))
      | None \<Rightarrow>
          Inr (case first_some (valid_mode \<circ> snd) (rev (settings_layers fs yaml str_of g cwd)) of
                 Some mode \<Rightarrow> mode
               | None \<Rightarrow> DEFAULT))"
proof -
  let ?m = "merge_layers (settings_layers fs yaml str_of g cwd) allowed disallowed cli_mode
    (environ ''IAC_CODE_PERMISSION_AUDIT_INCLUDE_TOOL_INPUT'')"
  have "map_sum id cx_mode (load_permission_context fs yaml str_of environ g cwd allowed disallowed cli_mode)
      = map_sum id (\<lambda>mode. case mode of Some mode \<Rightarrow> mode | None \<Rightarrow> DEFAULT) (map_sum id mg_mode ?m)"
    by (cases ?m) (simp_all add: load_permission_context_def)
  then show ?thesis unfolding merge_mode fold_apply_layer_mode by (simp add: no_layers_def split: option.split)
qed

text \<open>
  whatever the settings files and the environment hold, the loaded limits of the audit log are usable: both are
  positive and at most 100 files are kept.
\<close>

theorem settings_audit_bounds:
  assumes "load_permission_context fs yaml str_of environ g cwd allowed disallowed mode = Inr ctx"
  shows "0 < max_file_bytes (cx_audit_settings ctx) \<and> 0 < max_files (cx_audit_settings ctx)
    \<and> max_files (cx_audit_settings ctx) \<le> 100"
proof -
  obtain m where "merge_layers (settings_layers fs yaml str_of g cwd) allowed disallowed mode
      (environ ''IAC_CODE_PERMISSION_AUDIT_INCLUDE_TOOL_INPUT'') = Inr m" and a: "cx_audit_settings ctx = mg_audit m"
    using load_Inr [OF assms] by metis
  then have "audit_ok (mg_audit m)" using merge_layers_Inr(4) by blast
  then show ?thesis using a by (simp add: audit_ok_def MAX_PERMISSION_AUDIT_FILES_def)
qed

definition sample_settings :: "string \<Rightarrow> string option" where
  "sample_settings path =
     (if path = ''/home/u/settings.yml'' then Some ''user''
      else if path = ''/p/.iac-code/settings.local.yml'' then Some ''local''
      else None)"

definition sample_yaml :: "string \<Rightarrow> pyval option" where
  "sample_yaml txt =
     (if txt = ''user'' then
        Some (PyDict [(''permissions'', PyDict
          [(''mode'', PyStr ''bypass_permissions''), (''deny'', PyList [PyStr ''write_file''])])])
      else Some (PyDict [(''permissions'', PyDict
          [(''mode'', PyStr ''typo''), (''allow'', PyList [PyStr ''write_file'']),
           (''audit'', PyDict [(''max_files'', PyStr ''500'')])])]))"

definition sample_loaded :: "settings_error + ToolPermissionContext" where
  "sample_loaded = load_permission_context sample_settings sample_yaml (\<lambda>v. []) (\<lambda>v. None) ''/home/u/settings.yml'' ''/p''
     [''write_file''] [] None"

lemma sample_loaded_ok: "sample_loaded = Inr (projr sample_loaded)"
  by code_simp

theorem settings_deny_enforced_witness:
  "pr_behavior (check_tool_permission (WriteFileTool plain_env) [(''path'', PyStr ''a.tf'')] (projr sample_loaded)) = Deny"
proof (rule settings_deny_enforced [OF sample_loaded_ok [unfolded sample_loaded_def], folded sample_loaded_def])
  show "tl_name (WriteFileTool plain_env) \<in> set []
    \<or> (\<exists>(source, layer) \<in> set (settings_layers sample_settings sample_yaml (\<lambda>v. []) ''/home/u/settings.yml'' ''/p'').
         tl_name (WriteFileTool plain_env) \<in> set (ly_deny layer))"
    by code_simp
qed

theorem settings_audit_bounds_witness:
  "0 < max_file_bytes (cx_audit_settings (projr sample_loaded)) \<and> 0 < max_files (cx_audit_settings (projr sample_loaded))
    \<and> max_files (cx_audit_settings (projr sample_loaded)) \<le> 100"
  by (rule settings_audit_bounds [OF sample_loaded_ok [unfolded sample_loaded_def], folded sample_loaded_def])

end
