(* ===== verification/State_Machine.thy ===== *)
theory State_Machine
  imports Py_Data
begin

text \<open>
  \<^verbatim>\<open>src/src/iac_code/pipeline/engine/state_machine.py\<close>: the position of a pipeline run among its
  steps, the status of each step and the two rollback budgets. A method that mutates the object
  is a function from the state to its result and the new state, the result being an exception
  or a value; a method that raises after a first assignment returns the state it has reached.
  Of a \<^verbatim>\<open>StepSpec\<close> (\<^verbatim>\<open>step_spec.py\<close>) the record has the members this code and the loader's
  relinking read. Rollback limits are non-negative, a negative one behaving as zero.
\<close>

section \<open>State\<close>

datatype StepStatus = PENDING | RUNNING | COMPLETED | STALE | FAILED

fun status_value :: "StepStatus \<Rightarrow> string" where
  "status_value PENDING = ''pending''"
| "status_value RUNNING = ''running''"
| "status_value COMPLETED = ''completed''"
| "status_value STALE = ''stale''"
| "status_value FAILED = ''failed''"

definition status_of_value :: "string \<Rightarrow> py_error + StepStatus" where
  \<comment> \<open>\<^verbatim>\<open>StepStatus(v)\<close>\<close>
  "status_of_value v =
     (if v = ''pending'' then Inr PENDING
      else if v = ''running'' then Inr RUNNING
      else if v = ''completed'' then Inr COMPLETED
      else if v = ''stale'' then Inr STALE
      else if v = ''failed'' then Inr FAILED
      else Inl (ValueError (v @ '' is not a valid StepStatus'')))"

record StepSpec =
  st_step_id :: string
  st_description :: string
  st_forward :: "string option"
  st_enabled_when :: "string option"

record StateMachine =
  sm_steps :: "(string \<times> StepSpec) list"
  sm_order :: "string list"
  sm_current_index :: nat
  sm_rollback_count :: nat
  sm_max_rollbacks :: nat
  sm_step_statuses :: "(string \<times> StepStatus) list"
  sm_interrupt_rollback_count :: nat
  sm_max_interrupt_rollbacks :: nat

definition sm_init :: "StepSpec list \<Rightarrow> nat \<Rightarrow> nat \<Rightarrow> StateMachine" where
  "sm_init steps max_rollbacks max_interrupt_rollbacks =
     \<lparr>sm_steps = fold (\<lambda>s d. dict_set (st_step_id s) s d) steps [],
      sm_order = map st_step_id steps, sm_current_index = 0, sm_rollback_count = 0,
      sm_max_rollbacks = max_rollbacks,
      sm_step_statuses = fold (\<lambda>sid d. dict_set sid PENDING d) (map st_step_id steps) [],
      sm_interrupt_rollback_count = 0, sm_max_interrupt_rollbacks = max_interrupt_rollbacks\<rparr>"

section \<open>Queries\<close>

definition step_at :: "StateMachine \<Rightarrow> nat \<Rightarrow> py_error + StepSpec" where
  \<comment> \<open>\<^verbatim>\<open>self._steps[self._order[i]]\<close>\<close>
  "step_at sm i =
     (if i < length (sm_order sm) then
        (case map_of (sm_steps sm) (sm_order sm ! i) of
           Some s \<Rightarrow> Inr s
         | None \<Rightarrow> Inl (KeyError (sm_order sm ! i)))
      else Inl IndexError)"

definition current_step :: "StateMachine \<Rightarrow> py_error + StepSpec" where
  "current_step sm = step_at sm (sm_current_index sm)"

definition is_complete :: "StateMachine \<Rightarrow> bool" where
  "is_complete sm = (sm_current_index sm \<ge> length (sm_order sm))"

definition completed_non_future_rollback_targets :: "StateMachine \<Rightarrow> string list" where
  "completed_non_future_rollback_targets sm =
     filter (\<lambda>sid. map_of (sm_step_statuses sm) sid = Some COMPLETED)
       (take (Suc (sm_current_index sm)) (sm_order sm))"

definition can_rollback_to :: "StateMachine \<Rightarrow> string \<Rightarrow> bool" where
  "can_rollback_to sm target = (target \<in> set (completed_non_future_rollback_targets sm))"

definition can_interrupt_rollback_to :: "StateMachine \<Rightarrow> string \<Rightarrow> bool \<times> string option" where
  "can_interrupt_rollback_to sm target =
     (if target \<notin> fst ` set (sm_steps sm) then (False, Some ''unknown_step'')
      else if is_complete sm then (False, Some ''pipeline_complete'')
      else (case list_index (sm_order sm) target of
          None \<Rightarrow> (False, Some ''unknown_step'') \<comment> \<open>not reached: every step is in the order\<close>
        | Some target_index \<Rightarrow>
            if target_index > sm_current_index sm then (False, Some ''future_step'')
            else if sm_interrupt_rollback_count sm \<ge> sm_max_interrupt_rollbacks sm
              then (False, Some ''max_interrupt_rollbacks_exceeded'')
            else (True, None)))"

record rollback_option =
  ro_step_id :: string
  ro_description :: string
  ro_is_current :: bool

fun rollback_options_from :: "StateMachine \<Rightarrow> nat list \<Rightarrow> py_error + rollback_option list" where
  "rollback_options_from sm [] = Inr []"
| "rollback_options_from sm (i # is) =
     (case step_at sm i of
        Inl e \<Rightarrow> Inl e
      | Inr s \<Rightarrow>
          (case rollback_options_from sm is of
             Inl e \<Rightarrow> Inl e
           | Inr options \<Rightarrow> Inr (\<lparr>ro_step_id = st_step_id s, ro_description = st_description s,
               ro_is_current = (i = sm_current_index sm)\<rparr> # options)))"

definition get_interrupt_rollback_options :: "StateMachine \<Rightarrow> py_error + rollback_option list" where
  "get_interrupt_rollback_options sm = rollback_options_from sm [0..<Suc (sm_current_index sm)]"

section \<open>Transitions\<close>

definition set_statuses :: "StepStatus \<Rightarrow> string list \<Rightarrow> StateMachine \<Rightarrow> StateMachine" where
  "set_statuses st sids sm =
     sm\<lparr>sm_step_statuses := fold (\<lambda>sid d. dict_set sid st d) sids (sm_step_statuses sm)\<rparr>"

definition advance :: "StateMachine \<Rightarrow> (py_error + StepSpec option) \<times> StateMachine" where
  "advance sm =
     (case current_step sm of
        Inl e \<Rightarrow> (Inl e, sm)
      | Inr step \<Rightarrow>
          let sm1 = set_statuses COMPLETED [st_step_id step] sm in
          case st_forward step of
            None \<Rightarrow> (Inr None, sm1\<lparr>sm_current_index := length (sm_order sm)\<rparr>)
          | Some forward \<Rightarrow>
              (case list_index (sm_order sm) forward of
                 None \<Rightarrow> (Inl (ValueError (forward @ '' is not in list'')), sm1)
               | Some i \<Rightarrow>
                   let sm2 = set_statuses RUNNING [forward] (sm1\<lparr>sm_current_index := i\<rparr>)
                   in (map_sum id Some (current_step sm2), sm2)))"

definition move_back :: "StateMachine \<Rightarrow> string \<Rightarrow> nat \<Rightarrow> StateMachine" where
  \<comment> \<open>the assignments shared by both rollbacks: later steps become stale, the target runs\<close>
  "move_back sm target target_index =
     set_statuses RUNNING [target]
       ((set_statuses STALE (drop (Suc target_index) (sm_order sm)) sm)\<lparr>sm_current_index := target_index\<rparr>)"

definition rollback :: "StateMachine \<Rightarrow> string \<Rightarrow> (py_error + StepSpec) \<times> StateMachine" where
  "rollback sm target =
     (if \<not> can_rollback_to sm target then
        (case current_step sm of
           Inl e \<Rightarrow> (Inl e, sm)
         | Inr cur \<Rightarrow> (Inl (ValueError (''Cannot rollback from '' @ st_step_id cur @ '' to '' @ target)), sm))
      else if sm_rollback_count sm \<ge> sm_max_rollbacks sm then
        (Inl (ValueError (''Max rollbacks ('' @ nat_str (sm_max_rollbacks sm) @ '') exceeded'')), sm)
      else
        let sm1 = sm\<lparr>sm_rollback_count := sm_rollback_count sm + 1\<rparr> in
        case list_index (sm_order sm) target of
          None \<Rightarrow> (Inl (ValueError (target @ '' is not in list'')), sm1)
        | Some target_index \<Rightarrow> let sm2 = move_back sm1 target target_index in (current_step sm2, sm2))"

definition interrupt_rollback :: "StateMachine \<Rightarrow> string \<Rightarrow> (py_error + StepSpec) \<times> StateMachine" where
  "interrupt_rollback sm target =
     (case can_interrupt_rollback_to sm target of
        (False, err) \<Rightarrow>
          (Inl (ValueError
             (if err = Some ''unknown_step'' then ''Unknown step: '' @ target
              else if err = Some ''pipeline_complete'' then ''Cannot rollback completed pipeline to '' @ target
              else if err = Some ''future_step'' then ''Cannot rollback forward to '' @ target
              else ''Max interrupt rollbacks ('' @ nat_str (sm_max_interrupt_rollbacks sm) @ '') exceeded'')), sm)
      | (True, _) \<Rightarrow>
          let sm1 = sm\<lparr>sm_interrupt_rollback_count := sm_interrupt_rollback_count sm + 1\<rparr> in
          case list_index (sm_order sm) target of
            None \<Rightarrow> (Inl (ValueError (target @ '' is not in list'')), sm1)
          | Some target_index \<Rightarrow> let sm2 = move_back sm1 target target_index in (current_step sm2, sm2))"

definition jump_to :: "StateMachine \<Rightarrow> string \<Rightarrow> (py_error + unit) \<times> StateMachine" where
  "jump_to sm step_id =
     (if step_id \<notin> fst ` set (sm_steps sm) then (Inl (ValueError (''Unknown step: '' @ step_id)), sm)
      else (case list_index (sm_order sm) step_id of
          None \<Rightarrow> (Inl (ValueError (step_id @ '' is not in list'')), sm)
        | Some target_index \<Rightarrow>
            (Inr (), move_back (set_statuses COMPLETED (take target_index (sm_order sm)) sm) step_id target_index)))"

section \<open>Snapshots\<close>

record sm_snapshot =
  ss_current_index :: nat
  ss_rollback_count :: nat
  ss_interrupt_rollback_count :: "nat option" \<comment> \<open>absent in snapshots of older versions\<close>
  ss_step_statuses :: "(string \<times> string) list"

definition to_snapshot :: "StateMachine \<Rightarrow> sm_snapshot" where
  "to_snapshot sm =
     \<lparr>ss_current_index = sm_current_index sm, ss_rollback_count = sm_rollback_count sm,
      ss_interrupt_rollback_count = Some (sm_interrupt_rollback_count sm),
      ss_step_statuses = map (\<lambda>(k, v). (k, status_value v)) (sm_step_statuses sm)\<rparr>"

fun statuses_of_values :: "(string \<times> string) list \<Rightarrow> py_error + (string \<times> StepStatus) list" where
  "statuses_of_values [] = Inr []"
| "statuses_of_values ((k, v) # rest) =
     (case status_of_value v of
        Inl e \<Rightarrow> Inl e
      | Inr st \<Rightarrow> map_sum id (\<lambda>d. (k, st) # d) (statuses_of_values rest))"

definition from_snapshot :: "sm_snapshot \<Rightarrow> StepSpec list \<Rightarrow> nat \<Rightarrow> nat \<Rightarrow> py_error + StateMachine" where
  "from_snapshot snapshot steps max_rollbacks max_interrupt_rollbacks =
     (let sm = sm_init steps max_rollbacks max_interrupt_rollbacks in
      map_sum id (\<lambda>statuses.
        sm\<lparr>sm_current_index := ss_current_index snapshot,
           sm_rollback_count := ss_rollback_count snapshot,
           sm_interrupt_rollback_count :=
             (case ss_interrupt_rollback_count snapshot of None \<Rightarrow> 0 | Some n \<Rightarrow> n),
           sm_step_statuses := statuses\<rparr>)
        (statuses_of_values (ss_step_statuses snapshot)))"

section \<open>Facts on statuses\<close>

lemma map_of_fold_dict_set:
  "map_of (fold (\<lambda>sid d. dict_set sid st d) sids d) k = (if k \<in> set sids then Some st else map_of d k)"
  by (induction sids arbitrary: d) auto

lemma keys_fold_dict_set:
  "set sids \<subseteq> set (map fst d) \<Longrightarrow> map fst (fold (\<lambda>sid d. dict_set sid st d) sids d) = map fst d"
proof (induction sids arbitrary: d)
  case (Cons sid sids)
  then have eq: "map fst (dict_set sid st d) = map fst d" by (intro dict_set_keys_same) simp
  from Cons.prems have "set sids \<subseteq> set (map fst (dict_set sid st d))" unfolding eq by simp
  from Cons.IH [OF this] eq show ?case by simp
qed simp

lemma dict_set_fresh: "k \<notin> set (map fst d) \<Longrightarrow> dict_set k v d = d @ [(k, v)]"
  by (induction d) auto

lemma fold_dict_set_fresh:
  "distinct (map f xs) \<Longrightarrow> set (map f xs) \<inter> set (map fst d) = {} \<Longrightarrow>
     fold (\<lambda>x d. dict_set (f x) (g x) d) xs d = d @ map (\<lambda>x. (f x, g x)) xs"
  by (induction xs arbitrary: d) (auto simp: dict_set_fresh)

abbreviation status :: "StateMachine \<Rightarrow> string \<Rightarrow> StepStatus option" where
  "status sm \<equiv> map_of (sm_step_statuses sm)"

lemma set_statuses_sel [simp]:
  "sm_steps (set_statuses st sids sm) = sm_steps sm" "sm_order (set_statuses st sids sm) = sm_order sm"
  "sm_current_index (set_statuses st sids sm) = sm_current_index sm"
  "sm_rollback_count (set_statuses st sids sm) = sm_rollback_count sm"
  "sm_max_rollbacks (set_statuses st sids sm) = sm_max_rollbacks sm"
  "sm_interrupt_rollback_count (set_statuses st sids sm) = sm_interrupt_rollback_count sm"
  "sm_max_interrupt_rollbacks (set_statuses st sids sm) = sm_max_interrupt_rollbacks sm"
  "status (set_statuses st sids sm) k = (if k \<in> set sids then Some st else status sm k)"
  by (simp_all add: set_statuses_def map_of_fold_dict_set)

lemma keys_set_statuses:
  "set sids \<subseteq> set (map fst (sm_step_statuses sm)) \<Longrightarrow>
     map fst (sm_step_statuses (set_statuses st sids sm)) = map fst (sm_step_statuses sm)"
  by (simp add: set_statuses_def keys_fold_dict_set)

section \<open>Linear pipelines and their invariant\<close>

text \<open>The steps of a pipeline are linear when each one leads to the next and the last one to none.\<close>

definition linear :: "StepSpec list \<Rightarrow> bool" where
  "linear steps \<longleftrightarrow> distinct (map st_step_id steps)
     \<and> (\<forall>i < length steps. st_forward (steps ! i) =
          (if Suc i < length steps then Some (st_step_id (steps ! Suc i)) else None))"

text \<open>
  The invariant: every step before the current one is completed, the current one is about to run or
  running, every later one is pending or stale, and no budget is overdrawn.
\<close>

definition sm_shape :: "StepSpec list \<Rightarrow> StateMachine \<Rightarrow> bool" where
  "sm_shape steps sm \<longleftrightarrow>
     sm_order sm = map st_step_id steps \<and> sm_steps sm = map (\<lambda>s. (st_step_id s, s)) steps
     \<and> map fst (sm_step_statuses sm) = sm_order sm \<and> sm_current_index sm \<le> length steps
     \<and> sm_rollback_count sm \<le> sm_max_rollbacks sm
     \<and> sm_interrupt_rollback_count sm \<le> sm_max_interrupt_rollbacks sm"

definition sm_progress :: "StateMachine \<Rightarrow> bool" where
  "sm_progress sm \<longleftrightarrow> (\<forall>i < length (sm_order sm). \<exists>st. status sm (sm_order sm ! i) = Some st
     \<and> (if i < sm_current_index sm then st = COMPLETED
        else if i = sm_current_index sm then st \<in> {PENDING, RUNNING}
        else st \<in> {PENDING, STALE}))"

definition sm_inv :: "StepSpec list \<Rightarrow> StateMachine \<Rightarrow> bool" where
  "sm_inv steps sm \<longleftrightarrow> sm_shape steps sm \<and> sm_progress sm"

lemma sm_shapeD:
  assumes "sm_shape steps sm"
  shows "sm_order sm = map st_step_id steps" "sm_steps sm = map (\<lambda>s. (st_step_id s, s)) steps"
    "map fst (sm_step_statuses sm) = map st_step_id steps" "sm_current_index sm \<le> length steps"
  using assms by (simp_all add: sm_shape_def)

lemma map_of_steps:
  assumes "distinct (map st_step_id steps)" and "i < length steps"
  shows "map_of (map (\<lambda>s. (st_step_id s, s)) steps) (st_step_id (steps ! i)) = Some (steps ! i)"
proof -
  have "(st_step_id (steps ! i), steps ! i) \<in> set (map (\<lambda>s. (st_step_id s, s)) steps)"
    using assms(2) by auto
  then show ?thesis using assms(1) by (intro map_of_is_SomeI) (simp_all add: comp_def)
qed

lemma step_at_linear:
  assumes "linear steps" and "sm_shape steps sm"
  shows "step_at sm i = (if i < length steps then Inr (steps ! i) else Inl IndexError)"
  using assms by (simp add: step_at_def linear_def sm_shapeD map_of_steps)

lemma list_index_steps:
  "linear steps \<Longrightarrow> i < length steps \<Longrightarrow>
     list_index (map st_step_id steps) (st_step_id (steps ! i)) = Some i"
  using list_index_nth [of "map st_step_id steps" i] by (simp add: linear_def)

lemma sm_init_inv:
  assumes "linear steps"
  shows "sm_inv steps (sm_init steps mr mi)"
proof -
  have d: "distinct (map st_step_id steps)" using assms by (simp add: linear_def)
  have "map fst (fold (\<lambda>sid d. dict_set sid PENDING d) (map st_step_id steps) []) = map st_step_id steps"
    using fold_dict_set_fresh [of "\<lambda>x. x" "map st_step_id steps" "[]" "\<lambda>_. PENDING"] d
    by (simp add: comp_def)
  then have "sm_shape steps (sm_init steps mr mi)"
    using fold_dict_set_fresh [of st_step_id steps "[]" "\<lambda>s. s"] d by (simp add: sm_shape_def sm_init_def)
  moreover have "status (sm_init steps mr mi) k = (if k \<in> set (map st_step_id steps) then Some PENDING else None)" for k
    unfolding sm_init_def by (simp add: map_of_fold_dict_set)
  ultimately show ?thesis by (simp add: sm_inv_def sm_progress_def sm_shapeD) (simp add: sm_init_def)
qed

text \<open>The step reached by \<^verbatim>\<open>move_back\<close>, whichever transition uses it.\<close>

lemma move_back_sel [simp]:
  "sm_steps (move_back sm t i) = sm_steps sm" "sm_order (move_back sm t i) = sm_order sm"
  "sm_current_index (move_back sm t i) = i" "sm_rollback_count (move_back sm t i) = sm_rollback_count sm"
  "sm_max_rollbacks (move_back sm t i) = sm_max_rollbacks sm"
  "sm_interrupt_rollback_count (move_back sm t i) = sm_interrupt_rollback_count sm"
  "sm_max_interrupt_rollbacks (move_back sm t i) = sm_max_interrupt_rollbacks sm"
  "status (move_back sm t i) k = (if k = t then Some RUNNING
     else if k \<in> set (drop (Suc i) (sm_order sm)) then Some STALE else status sm k)"
  by (simp_all add: move_back_def set_statuses_def map_of_fold_dict_set)

lemma move_back_keys:
  assumes "map fst (sm_step_statuses sm) = sm_order sm" and "t \<in> set (sm_order sm)"
  shows "map fst (sm_step_statuses (move_back sm t i)) = sm_order sm"
proof -
  have "set (drop (Suc i) (sm_order sm)) \<subseteq> set (map fst (sm_step_statuses sm))"
    unfolding assms(1) by (rule set_drop_subset)
  then have "map fst (fold (\<lambda>sid d. dict_set sid STALE d) (drop (Suc i) (sm_order sm)) (sm_step_statuses sm))
      = sm_order sm"
    using assms(1) by (simp add: keys_fold_dict_set)
  then show ?thesis
    using assms(2) by (simp add: move_back_def set_statuses_def dict_set_keys_same)
qed

lemma in_drop_nth:
  assumes "distinct xs" and "j < length xs"
  shows "xs ! j \<in> set (drop i xs) \<longleftrightarrow> i \<le> j"
proof
  assume "xs ! j \<in> set (drop i xs)"
  then obtain k where "k < length xs - i" and "xs ! (i + k) = xs ! j" by (auto simp: in_set_conv_nth)
  with assms have "i + k = j" by (simp add: nth_eq_iff_index_eq)
  then show "i \<le> j" by simp
next
  assume "i \<le> j"
  with assms have "drop i xs ! (j - i) = xs ! j" and "j - i < length (drop i xs)" by auto
  then show "xs ! j \<in> set (drop i xs)" by (metis nth_mem)
qed

lemma move_back_progress:
  assumes "distinct (sm_order sm)" and "sm_order sm ! i = t" and "i < length (sm_order sm)"
    and "\<forall>j < i. status sm (sm_order sm ! j) = Some COMPLETED"
  shows "sm_progress (move_back sm t i)"
  unfolding sm_progress_def
proof (intro allI impI)
  fix j assume j: "j < length (sm_order (move_back sm t i))"
  have t: "sm_order sm ! j = t \<longleftrightarrow> j = i" using assms j by (auto simp: nth_eq_iff_index_eq)
  have later: "sm_order sm ! j \<in> set (drop (Suc i) (sm_order sm)) \<longleftrightarrow> i < j"
    using in_drop_nth [OF assms(1), of j "Suc i"] j by (simp add: Suc_le_eq)
  show "\<exists>st. status (move_back sm t i) (sm_order (move_back sm t i) ! j) = Some st \<and>
      (if j < sm_current_index (move_back sm t i) then st = COMPLETED
       else if j = sm_current_index (move_back sm t i) then st \<in> {PENDING, RUNNING} else st \<in> {PENDING, STALE})"
    using assms(4) t later by (cases j i rule: linorder_cases) auto
qed

lemma sm_invD:
  assumes "sm_inv steps sm"
  shows "sm_shape steps sm" and "sm_progress sm"
    and "i < sm_current_index sm \<Longrightarrow> i < length steps \<Longrightarrow> status sm (st_step_id (steps ! i)) = Some COMPLETED"
  using assms by (auto simp: sm_inv_def sm_progress_def sm_shapeD)

text \<open>The effect of a rollback, of either kind, once it is admitted.\<close>

lemma move_back_inv:
  assumes "linear steps" and "sm_inv steps sm" and "i \<le> sm_current_index sm" "i < length steps"
    and sm1: "sm_order sm1 = sm_order sm" "sm_steps sm1 = sm_steps sm"
      "sm_step_statuses sm1 = sm_step_statuses sm"
    and "sm_rollback_count sm1 \<le> sm_max_rollbacks sm1"
      "sm_interrupt_rollback_count sm1 \<le> sm_max_interrupt_rollbacks sm1"
  shows "sm_inv steps (move_back sm1 (st_step_id (steps ! i)) i)"
proof -
  have sh: "sm_shape steps sm" using assms(2) by (simp add: sm_inv_def)
  have d: "distinct (sm_order sm1)" using assms(1) sm1 sh by (simp add: linear_def sm_shapeD)
  have "map fst (sm_step_statuses (move_back sm1 (st_step_id (steps ! i)) i)) = sm_order sm1"
    using sm1 sh assms(4) by (intro move_back_keys) (simp_all add: sm_shapeD)
  then have "sm_shape steps (move_back sm1 (st_step_id (steps ! i)) i)"
    using assms sh by (simp add: sm_shape_def)
  moreover have "sm_progress (move_back sm1 (st_step_id (steps ! i)) i)"
    using sm1 sh assms(3,4) sm_invD(3) [OF assms(2)]
    by (intro move_back_progress d) (simp_all add: sm_shapeD)
  ultimately show ?thesis by (simp add: sm_inv_def)
qed

section \<open>Each operation on a linear pipeline\<close>

lemma current_step_linear:
  "linear steps \<Longrightarrow> sm_shape steps sm \<Longrightarrow>
     current_step sm = (if sm_current_index sm < length steps then Inr (steps ! sm_current_index sm) else Inl IndexError)"
  by (simp add: current_step_def step_at_linear)

definition advanced :: "StepSpec list \<Rightarrow> StateMachine \<Rightarrow> StateMachine" where
  \<comment> \<open>the state after an advance from a step that exists\<close>
  "advanced steps sm =
     (let i = sm_current_index sm; sm1 = set_statuses COMPLETED [st_step_id (steps ! i)] sm in
      if Suc i < length steps
      then set_statuses RUNNING [st_step_id (steps ! Suc i)] (sm1\<lparr>sm_current_index := Suc i\<rparr>)
      else sm1\<lparr>sm_current_index := length steps\<rparr>)"

lemma advanced_sel [simp]:
  "sm_steps (advanced steps sm) = sm_steps sm" "sm_order (advanced steps sm) = sm_order sm"
  "sm_rollback_count (advanced steps sm) = sm_rollback_count sm"
  "sm_max_rollbacks (advanced steps sm) = sm_max_rollbacks sm"
  "sm_interrupt_rollback_count (advanced steps sm) = sm_interrupt_rollback_count sm"
  "sm_max_interrupt_rollbacks (advanced steps sm) = sm_max_interrupt_rollbacks sm"
  "sm_current_index sm < length steps \<Longrightarrow> sm_current_index (advanced steps sm) = Suc (sm_current_index sm)"
  by (auto simp: advanced_def Let_def set_statuses_def)

lemma advanced_inv:
  assumes "linear steps" and "sm_inv steps sm" and "sm_current_index sm < length steps"
  shows "sm_inv steps (advanced steps sm)"
proof -
  let ?i = "sm_current_index sm"
  have sh: "sm_shape steps sm" and pr: "sm_progress sm" using assms(2) by (simp_all add: sm_inv_def)
  have keys: "map fst (sm_step_statuses (advanced steps sm)) = map st_step_id steps"
    using sh assms(3) by (auto simp: advanced_def Let_def set_statuses_def dict_set_keys_same sm_shapeD)
  have d: "distinct (map st_step_id steps)" using assms(1) by (simp add: linear_def)
  have eq: "st_step_id (steps ! j) = st_step_id (steps ! k) \<longleftrightarrow> j = k" if "j < length steps" "k < length steps" for j k
    using nth_eq_iff_index_eq [OF d, of j k] that by simp
  have stat: "status (advanced steps sm) (st_step_id (steps ! j)) =
      (if Suc ?i = j then Some RUNNING else if j = ?i then Some COMPLETED else status sm (st_step_id (steps ! j)))"
    if "j < length steps" for j
    using that assms(3) eq by (auto simp: advanced_def Let_def set_statuses_def)
  have "sm_progress (advanced steps sm)"
    unfolding sm_progress_def
  proof (intro allI impI)
    fix j assume "j < length (sm_order (advanced steps sm))"
    then have j: "j < length steps" using sh by (simp add: sm_shapeD)
    then obtain st where "status sm (st_step_id (steps ! j)) = Some st"
      and "if j < ?i then st = COMPLETED else if j = ?i then st \<in> {PENDING, RUNNING} else st \<in> {PENDING, STALE}"
      using pr sh unfolding sm_progress_def by (auto simp: sm_shapeD)
    then show "\<exists>st. status (advanced steps sm) (sm_order (advanced steps sm) ! j) = Some st \<and>
        (if j < sm_current_index (advanced steps sm) then st = COMPLETED
         else if j = sm_current_index (advanced steps sm) then st \<in> {PENDING, RUNNING} else st \<in> {PENDING, STALE})"
      using j sh assms(3) stat [OF j] by (auto simp: sm_shapeD split: if_splits)
  qed
  moreover have "sm_shape steps (advanced steps sm)"
    using sh keys assms(3) by (simp add: sm_shape_def)
  ultimately show ?thesis by (simp add: sm_inv_def)
qed

lemma advance_linear:
  assumes "linear steps" and "sm_inv steps sm"
  shows "advance sm =
     (if sm_current_index sm < length steps
      then (Inr (if Suc (sm_current_index sm) < length steps then Some (steps ! Suc (sm_current_index sm)) else None),
            advanced steps sm)
      else (Inl IndexError, sm))"
proof (cases "sm_current_index sm < length steps")
  case True
  let ?i = "sm_current_index sm"
  have sh: "sm_shape steps sm" using assms(2) by (simp add: sm_inv_def)
  have cur: "current_step sm = Inr (steps ! ?i)" using assms(1) sh True by (simp add: current_step_linear)
  have fwd: "st_forward (steps ! ?i) = (if Suc ?i < length steps then Some (st_step_id (steps ! Suc ?i)) else None)"
    using assms(1) True by (simp add: linear_def)
  show ?thesis
  proof (cases "Suc ?i < length steps")
    case Tr: True
    have "current_step (advanced steps sm) = Inr (steps ! Suc ?i)"
      using advanced_inv [OF assms True] assms(1) Tr True by (simp add: current_step_linear sm_inv_def)
    with Tr show ?thesis
      using True sh by (simp add: advance_def cur fwd Let_def sm_shapeD list_index_steps assms(1)) 
        (simp add: advanced_def Let_def)
  next
    case False
    then show ?thesis using True sh by (simp add: advance_def cur fwd Let_def sm_shapeD advanced_def)
  qed
next
  case False
  with assms show ?thesis by (simp add: advance_def current_step_linear sm_inv_def)
qed

lemma can_rollback_to_linear:
  assumes "linear steps" and "sm_inv steps sm"
  shows "can_rollback_to sm t \<longleftrightarrow> (\<exists>i < sm_current_index sm. i < length steps \<and> t = st_step_id (steps ! i))"
proof
  have sh: "sm_shape steps sm" and pr: "sm_progress sm" using assms(2) by (simp_all add: sm_inv_def)
  assume "can_rollback_to sm t"
  then obtain i where i: "i < length steps" "i < Suc (sm_current_index sm)" "t = st_step_id (steps ! i)"
      and c: "status sm t = Some COMPLETED"
    using sh by (auto simp: can_rollback_to_def completed_non_future_rollback_targets_def sm_shapeD in_set_conv_nth)
  from pr i c sh have "i \<noteq> sm_current_index sm"
    by (auto simp: sm_progress_def sm_shapeD)
  with i show "\<exists>i < sm_current_index sm. i < length steps \<and> t = st_step_id (steps ! i)"
    by (intro exI [of _ i]) simp
next
  have sh: "sm_shape steps sm" using assms(2) by (simp add: sm_inv_def)
  assume "\<exists>i < sm_current_index sm. i < length steps \<and> t = st_step_id (steps ! i)"
  then obtain i where i: "i < sm_current_index sm" "i < length steps" "t = st_step_id (steps ! i)" by blast
  then have "t = take (Suc (sm_current_index sm)) (map st_step_id steps) ! i"
    and "i < length (take (Suc (sm_current_index sm)) (map st_step_id steps))" by simp_all
  then have "t \<in> set (take (Suc (sm_current_index sm)) (sm_order sm))"
    using sh by (metis nth_mem sm_shapeD(1))
  with sm_invD(3) [OF assms(2) i(1,2)] i(3) show "can_rollback_to sm t"
    by (simp add: can_rollback_to_def completed_non_future_rollback_targets_def)
qed

lemma can_interrupt_rollback_linear:
  assumes "linear steps" and "sm_inv steps sm"
  shows "fst (can_interrupt_rollback_to sm t) \<longleftrightarrow>
     sm_current_index sm < length steps \<and> sm_interrupt_rollback_count sm < sm_max_interrupt_rollbacks sm
     \<and> (\<exists>i \<le> sm_current_index sm. i < length steps \<and> t = st_step_id (steps ! i))"
proof (cases "t \<in> set (map st_step_id steps)")
  case True
  then obtain k where k: "k < length steps" "t = st_step_id (steps ! k)" by (auto simp: in_set_conv_nth)
  have sh: "sm_shape steps sm" using assms(2) by (simp add: sm_inv_def)
  have inj: "t = st_step_id (steps ! i) \<longleftrightarrow> i = k" if "i < length steps" for i
    using nth_eq_iff_index_eq [of "map st_step_id steps" i k] assms(1) that k by (auto simp: linear_def)
  have idx: "list_index (sm_order sm) t = Some k" using sh k assms(1) by (simp add: sm_shapeD list_index_steps)
  have mem: "t \<in> fst ` set (sm_steps sm)" using sh True by (auto simp: sm_shapeD image_image)
  have len: "length (sm_order sm) = length steps" using sh by (simp add: sm_shapeD)
  have "fst (can_interrupt_rollback_to sm t) \<longleftrightarrow> sm_current_index sm < length steps
      \<and> sm_interrupt_rollback_count sm < sm_max_interrupt_rollbacks sm \<and> k \<le> sm_current_index sm"
    using mem by (auto simp: can_interrupt_rollback_to_def idx is_complete_def len not_less)
  also have "k \<le> sm_current_index sm \<longleftrightarrow> (\<exists>i \<le> sm_current_index sm. i < length steps \<and> t = st_step_id (steps ! i))"
    using k(1) inj by blast
  finally show ?thesis .
next
  case False
  then have "t \<notin> fst ` set (sm_steps sm)"
    using assms(2) by (auto simp: sm_inv_def sm_shapeD image_image)
  with False show ?thesis by (auto simp: can_interrupt_rollback_to_def)
qed

lemma rollback_admitted:
  assumes "linear steps" and "sm_inv steps sm" and "i < sm_current_index sm" "i < length steps"
  shows "rollback sm (st_step_id (steps ! i)) =
     (if sm_rollback_count sm < sm_max_rollbacks sm
      then (Inr (steps ! i), move_back (sm\<lparr>sm_rollback_count := sm_rollback_count sm + 1\<rparr>) (st_step_id (steps ! i)) i)
      else (Inl (ValueError (''Max rollbacks ('' @ nat_str (sm_max_rollbacks sm) @ '') exceeded'')), sm))"
proof -
  let ?sm1 = "sm\<lparr>sm_rollback_count := sm_rollback_count sm + 1\<rparr>"
  have sh: "sm_shape steps sm" using assms(2) by (simp add: sm_inv_def)
  have can: "can_rollback_to sm (st_step_id (steps ! i))" using assms by (auto simp: can_rollback_to_linear)
  have idx: "list_index (sm_order sm) (st_step_id (steps ! i)) = Some i"
    using sh assms by (simp add: sm_shapeD list_index_steps)
  have "current_step (move_back ?sm1 (st_step_id (steps ! i)) i) = Inr (steps ! i)"
    if "sm_rollback_count sm < sm_max_rollbacks sm"
  proof -
    have "sm_inv steps (move_back ?sm1 (st_step_id (steps ! i)) i)"
      using that sh assms by (intro move_back_inv [of steps sm]) (auto simp: sm_shape_def)
    then show ?thesis using assms(1,4) by (simp add: current_step_linear sm_inv_def)
  qed
  then show ?thesis by (auto simp: rollback_def can idx Let_def)
qed

lemma interrupt_admitted:
  assumes "linear steps" and "sm_inv steps sm" and "fst (can_interrupt_rollback_to sm t)"
  obtains i where "i \<le> sm_current_index sm" "i < length steps" "t = st_step_id (steps ! i)"
    "sm_interrupt_rollback_count sm < sm_max_interrupt_rollbacks sm"
    "interrupt_rollback sm t = (Inr (steps ! i),
       move_back (sm\<lparr>sm_interrupt_rollback_count := sm_interrupt_rollback_count sm + 1\<rparr>) t i)"
    "sm_inv steps (move_back (sm\<lparr>sm_interrupt_rollback_count := sm_interrupt_rollback_count sm + 1\<rparr>) t i)"
proof -
  let ?sm1 = "sm\<lparr>sm_interrupt_rollback_count := sm_interrupt_rollback_count sm + 1\<rparr>"
  have sh: "sm_shape steps sm" using assms(2) by (simp add: sm_inv_def)
  from assms obtain i where i: "i \<le> sm_current_index sm" "i < length steps" "t = st_step_id (steps ! i)"
    and lim: "sm_interrupt_rollback_count sm < sm_max_interrupt_rollbacks sm"
    by (auto simp: can_interrupt_rollback_linear)
  have inv: "sm_inv steps (move_back ?sm1 t i)"
    unfolding i(3) using lim sh assms i by (intro move_back_inv [of steps sm]) (auto simp: sm_shape_def)
  then have "current_step (move_back ?sm1 t i) = Inr (steps ! i)"
    using assms(1) i(2) by (simp add: current_step_linear sm_inv_def)
  moreover have "list_index (sm_order sm) t = Some i"
    using sh assms(1) i by (simp add: sm_shapeD list_index_steps)
  moreover obtain err where "can_interrupt_rollback_to sm t = (True, err)"
    using assms(3) by (cases "can_interrupt_rollback_to sm t") simp
  ultimately have "interrupt_rollback sm t = (Inr (steps ! i), move_back ?sm1 t i)"
    by (simp add: interrupt_rollback_def Let_def)
  with i lim inv that show ?thesis by blast
qed

lemma interrupt_refused:
  "\<not> fst (can_interrupt_rollback_to sm t) \<Longrightarrow> \<exists>e. interrupt_rollback sm t = (Inl e, sm)"
  by (cases "can_interrupt_rollback_to sm t") (simp add: interrupt_rollback_def)

lemma rollback_refused: "\<not> can_rollback_to sm t \<Longrightarrow> \<exists>e. rollback sm t = (Inl e, sm)"
  by (cases "current_step sm") (simp_all add: rollback_def)

lemma jump_inv:
  assumes "linear steps" and "sm_inv steps sm" and "i < length steps"
  shows "jump_to sm (st_step_id (steps ! i)) =
       (Inr (), move_back (set_statuses COMPLETED (take i (sm_order sm)) sm) (st_step_id (steps ! i)) i)
     \<and> sm_inv steps (move_back (set_statuses COMPLETED (take i (sm_order sm)) sm) (st_step_id (steps ! i)) i)"
proof
  let ?sm1 = "set_statuses COMPLETED (take i (sm_order sm)) sm"
  have sh: "sm_shape steps sm" using assms(2) by (simp add: sm_inv_def)
  have d: "distinct (map st_step_id steps)" using assms(1) by (simp add: linear_def)
  have "st_step_id (steps ! i) \<in> fst ` set (sm_steps sm)"
    using assms(3) sh by (auto simp: sm_shapeD image_image)
  then show "jump_to sm (st_step_id (steps ! i)) = (Inr (), move_back ?sm1 (st_step_id (steps ! i)) i)"
    using assms(1,3) sh by (simp add: jump_to_def sm_shapeD list_index_steps)
  have keys: "map fst (sm_step_statuses ?sm1) = sm_order sm"
  proof -
    have "set (take i (sm_order sm)) \<subseteq> set (map fst (sm_step_statuses sm))"
      using sh set_take_subset by (metis sm_shapeD(1,3))
    then show ?thesis using sh by (simp add: keys_set_statuses sm_shapeD)
  qed
  have "map fst (sm_step_statuses (move_back ?sm1 (st_step_id (steps ! i)) i)) = sm_order ?sm1"
    using keys assms(3) sh by (intro move_back_keys) (simp_all add: sm_shapeD)
  then have "sm_shape steps (move_back ?sm1 (st_step_id (steps ! i)) i)"
    using sh assms(3) by (simp add: sm_shape_def)
  moreover have "\<forall>j < i. status ?sm1 (sm_order ?sm1 ! j) = Some COMPLETED"
  proof (intro allI impI)
    fix j assume "j < i"
    with assms(3) sh have "take i (sm_order sm) ! j = sm_order sm ! j" "j < length (take i (sm_order sm))"
      by (auto simp: sm_shapeD)
    then have "sm_order sm ! j \<in> set (take i (sm_order sm))" by (metis nth_mem)
    then show "status ?sm1 (sm_order ?sm1 ! j) = Some COMPLETED" by simp
  qed
  then have "sm_progress (move_back ?sm1 (st_step_id (steps ! i)) i)"
    using d assms(3) sh by (intro move_back_progress) (simp_all add: sm_shapeD)
  ultimately show "sm_inv steps (move_back ?sm1 (st_step_id (steps ! i)) i)" by (simp add: sm_inv_def)
qed

section \<open>Runs\<close>

datatype sm_op = Advance | Rollback string | InterruptRollback string | JumpTo string

fun sm_exec :: "sm_op \<Rightarrow> StateMachine \<Rightarrow> StateMachine" where
  "sm_exec Advance sm = snd (advance sm)"
| "sm_exec (Rollback t) sm = snd (rollback sm t)"
| "sm_exec (InterruptRollback t) sm = snd (interrupt_rollback sm t)"
| "sm_exec (JumpTo t) sm = snd (jump_to sm t)"

lemma rollback_inv:
  assumes "linear steps" and "sm_inv steps sm"
  shows "sm_inv steps (snd (rollback sm t))"
proof (cases "can_rollback_to sm t")
  case True
  with assms obtain i where i: "i < sm_current_index sm" "i < length steps" "t = st_step_id (steps ! i)"
    by (auto simp: can_rollback_to_linear)
  have "sm_shape steps sm" using assms(2) by (simp add: sm_inv_def)
  then have "sm_inv steps (move_back (sm\<lparr>sm_rollback_count := sm_rollback_count sm + 1\<rparr>) t i)"
    if "sm_rollback_count sm < sm_max_rollbacks sm"
    unfolding i(3) using that assms i by (intro move_back_inv [of steps sm]) (auto simp: sm_shape_def)
  then show ?thesis using rollback_admitted [OF assms i(1,2)] assms(2) i(3) by simp
next
  case False
  with assms(2) show ?thesis using rollback_refused by fastforce
qed

lemma sm_exec_inv:
  assumes "linear steps" and "sm_inv steps sm"
  shows "sm_inv steps (sm_exec op sm)"
proof (cases op)
  case Advance
  then show ?thesis using assms by (simp add: advance_linear advanced_inv)
next
  case (Rollback t)
  then show ?thesis using assms by (simp add: rollback_inv)
next
  case (InterruptRollback t)
  show ?thesis
  proof (cases "fst (can_interrupt_rollback_to sm t)")
    case True
    from interrupt_admitted [OF assms this] obtain sm' r
      where "interrupt_rollback sm t = (r, sm')" and "sm_inv steps sm'" by metis
    then show ?thesis by (simp add: InterruptRollback)
  next
    case False
    with assms(2) show ?thesis using InterruptRollback interrupt_refused by fastforce
  qed
next
  case (JumpTo t)
  show ?thesis
  proof (cases "t \<in> set (map st_step_id steps)")
    case True
    then obtain i where "i < length steps" "t = st_step_id (steps ! i)" by (auto simp: in_set_conv_nth)
    with jump_inv [OF assms] show ?thesis by (simp add: JumpTo)
  next
    case False
    then have "t \<notin> fst ` set (sm_steps sm)" using assms(2) by (auto simp: sm_inv_def sm_shapeD image_image)
    then show ?thesis using assms(2) by (simp add: JumpTo jump_to_def)
  qed
qed

lemma sm_exec_limits [simp]:
  "sm_max_rollbacks (sm_exec op sm) = sm_max_rollbacks sm"
  "sm_max_interrupt_rollbacks (sm_exec op sm) = sm_max_interrupt_rollbacks sm"
  by (cases op; simp add: advance_def rollback_def interrupt_rollback_def jump_to_def Let_def
      split: sum.splits option.splits prod.splits bool.splits)+

text \<open>The successful moves of a run that no restart interferes with.\<close>

inductive sm_step :: "StateMachine \<Rightarrow> StateMachine \<Rightarrow> bool" where
  step_advance: "advance sm = (Inr r, sm') \<Longrightarrow> sm_step sm sm'"
| step_rollback: "rollback sm t = (Inr s, sm') \<Longrightarrow> sm_step sm sm'"
| step_interrupt: "interrupt_rollback sm t = (Inr s, sm') \<Longrightarrow> sm_step sm sm'"

inductive_cases sm_stepE: "sm_step sm sm'"

definition fuel :: "StateMachine \<Rightarrow> nat" where
  "fuel sm = (sm_max_rollbacks sm - sm_rollback_count sm
              + (sm_max_interrupt_rollbacks sm - sm_interrupt_rollback_count sm)) * Suc (length (sm_order sm))
             + (length (sm_order sm) - sm_current_index sm)"

lemma sm_step_exec: "sm_step sm sm' \<Longrightarrow> \<exists>op. sm' = sm_exec op sm"
  by (erule sm_stepE) (metis sm_exec.simps(1-3) snd_conv)+

lemma fuel_drop:
  assumes "a < (b :: nat)" and "y \<le> n"
  shows "(b - Suc a + c) * Suc n + y < (b - a + c) * Suc n + z"
proof -
  have "b - a + c = Suc (b - Suc a + c)" using assms(1) by simp
  then have "(b - a + c) * Suc n = (b - Suc a + c) * Suc n + Suc n" by (simp only: mult_Suc add.commute)
  with assms(2) show ?thesis by linarith
qed

lemma sm_step_fuel:
  assumes "linear steps" and "sm_inv steps sm" and "sm_step sm sm'"
  shows "fuel sm' < fuel sm"
  using assms(3)
proof (rule sm_stepE)
  fix r assume a: "advance sm = (Inr r, sm')"
  have sh: "sm_shape steps sm" using assms(2) by (simp add: sm_inv_def)
  from a advance_linear [OF assms(1,2)] have "sm_current_index sm < length steps" "sm' = advanced steps sm"
    by (auto split: if_splits)
  moreover from this have "length steps - sm_current_index sm' < length steps - sm_current_index sm" by simp
  ultimately show ?thesis using sh by (simp only: fuel_def advanced_sel sm_shapeD length_map add_strict_left_mono)
next
  fix t s assume r: "rollback sm t = (Inr s, sm')"
  then have "can_rollback_to sm t" using rollback_refused by fastforce
  with assms obtain i where i: "i < sm_current_index sm" "i < length steps" "t = st_step_id (steps ! i)"
    by (auto simp: can_rollback_to_linear)
  from r rollback_admitted [OF assms(1,2) i(1,2)] have "sm_rollback_count sm < sm_max_rollbacks sm"
    "sm' = move_back (sm\<lparr>sm_rollback_count := sm_rollback_count sm + 1\<rparr>) t i"
    by (auto simp: i(3) split: if_splits)
  then show ?thesis
    using fuel_drop [of "sm_rollback_count sm" "sm_max_rollbacks sm"
        "length (sm_order sm) - i" "length (sm_order sm)"
        "sm_max_interrupt_rollbacks sm - sm_interrupt_rollback_count sm"
        "length (sm_order sm) - sm_current_index sm"]
    by (simp add: fuel_def)
next
  fix t s assume r: "interrupt_rollback sm t = (Inr s, sm')"
  then have "fst (can_interrupt_rollback_to sm t)" using interrupt_refused by fastforce
  from interrupt_admitted [OF assms(1,2) this] r obtain i
    where "sm_interrupt_rollback_count sm < sm_max_interrupt_rollbacks sm"
      "sm' = move_back (sm\<lparr>sm_interrupt_rollback_count := sm_interrupt_rollback_count sm + 1\<rparr>) t i"
    by (metis prod.inject)
  then show ?thesis
    using fuel_drop [of "sm_interrupt_rollback_count sm" "sm_max_interrupt_rollbacks sm"
        "length (sm_order sm) - i" "length (sm_order sm)"
        "sm_max_rollbacks sm - sm_rollback_count sm" "length (sm_order sm) - sm_current_index sm"]
    by (simp add: fuel_def add.commute)
qed

section \<open>Properties\<close>

lemma sm_step_inv: "linear steps \<Longrightarrow> sm_inv steps sm \<Longrightarrow> sm_step sm sm' \<Longrightarrow> sm_inv steps sm'"
  using sm_step_exec sm_exec_inv by blast

lemma sm_runs_inv: "linear steps \<Longrightarrow> sm_inv steps sm \<Longrightarrow> sm_inv steps (fold sm_exec ops sm)"
  by (induction ops arbitrary: sm) (simp_all add: sm_exec_inv)

text \<open>
  C25: on a linear pipeline every state that any sequence of operations reaches, failing ones included, is
  in order: the steps before the current one are completed, the current one is pending or running, the
  later ones are pending or stale, the position is within the pipeline and no rollback budget is
  exceeded.
\<close>

theorem reachable_states_in_order:
  assumes "linear steps"
  shows "sm_inv steps (fold sm_exec ops (sm_init steps mr mi))"
  using assms by (simp add: sm_runs_inv sm_init_inv)

text \<open>The steps of \<^verbatim>\<open>src/src/iac_code/pipeline/selling/pipeline.yaml\<close>.\<close>

definition chain :: "string list \<Rightarrow> StepSpec list" where
  "chain ids = map (\<lambda>i. \<lparr>st_step_id = ids ! i, st_description = [],
     st_forward = (if Suc i < length ids then Some (ids ! Suc i) else None), st_enabled_when = None\<rparr>) [0..<length ids]"

lemma linear_chain: "distinct ids \<Longrightarrow> linear (chain ids)"
  by (simp add: linear_def chain_def comp_def map_nth)

definition selling_steps :: "StepSpec list" where
  "selling_steps = chain [''intent_parsing'', ''architecture_planning'', ''evaluate_candidates'',
     ''confirm_and_select'', ''deploying'']"

lemma linear_selling: "linear selling_steps"
  unfolding selling_steps_def by (rule linear_chain) simp

theorem reachable_states_in_order_witness:
  "sm_inv selling_steps
     (fold sm_exec [Advance, Advance, Rollback ''intent_parsing'', Advance, InterruptRollback ''deploying'']
       (sm_init selling_steps 3 10))"
  by (rule reachable_states_in_order) (rule linear_selling)

text \<open>
  C26: the run of a linear pipeline ends: one whose steps have distinct identifiers, each step leading to the next one
  and the last one to none (the loader does not check this, and \<open>cyclic_pipeline_runs_on\<close> shows that a pipeline that leads
  back to an earlier step can advance for ever). Between restarts at most
  \<open>(max_rollbacks + max_interrupt_rollbacks) * (n + 1) + n\<close> advances and rollbacks can succeed on a linear pipeline
  of \<open>n\<close> steps, and as long as the run is not complete the next advance succeeds.
\<close>

theorem pipeline_run_terminates:
  assumes "linear steps" and "(sm_step ^^ k) (sm_init steps mr mi) sm"
  shows "k \<le> (mr + mi) * Suc (length steps) + length steps
     \<and> (\<not> is_complete sm \<longrightarrow> (\<exists>r sm'. advance sm = (Inr r, sm')))"
proof
  have inv: "k + fuel sm' \<le> fuel (sm_init steps mr mi) \<and> sm_inv steps sm'"
    if "(sm_step ^^ k) (sm_init steps mr mi) sm'" for k sm'
    using that
  proof (induction k arbitrary: sm')
    case 0
    then show ?case using sm_init_inv [OF assms(1)] by auto
  next
    case (Suc k)
    then obtain smk where "(sm_step ^^ k) (sm_init steps mr mi) smk" and st: "sm_step smk sm'" by auto
    from Suc.IH [OF this(1)] have "k + fuel smk \<le> fuel (sm_init steps mr mi)" "sm_inv steps smk" by auto
    with sm_step_fuel [OF assms(1) _ st] sm_step_inv [OF assms(1) _ st] show ?case by auto
  qed
  from inv [OF assms(2)] show "k \<le> (mr + mi) * Suc (length steps) + length steps"
    by (simp add: fuel_def sm_init_def)
  from inv [OF assms(2)] show "\<not> is_complete sm \<longrightarrow> (\<exists>r sm'. advance sm = (Inr r, sm'))"
    using advance_linear [OF assms(1)] by (auto simp: is_complete_def sm_inv_def sm_shapeD)
qed

theorem pipeline_run_terminates_witness:
  "\<exists>sm. (sm_step ^^ 1) (sm_init selling_steps 3 10) sm \<and> (1::nat) \<le> (3 + 10) * Suc (length selling_steps) + length selling_steps"
proof -
  have "sm_step (sm_init selling_steps 3 10) (snd (advance (sm_init selling_steps 3 10)))"
    by (rule step_advance [where r = "Some (selling_steps ! 1)"]) code_simp
  then have one: "(sm_step ^^ 1) (sm_init selling_steps 3 10) (snd (advance (sm_init selling_steps 3 10)))"
    unfolding One_nat_def by (rule relpowp_Suc_I [OF relpowp_0_I])
  with pipeline_run_terminates [OF linear_selling one] show ?thesis by blast
qed

definition cyclic_steps :: "StepSpec list" where
  "cyclic_steps = [\<lparr>st_step_id = ''a'', st_description = [], st_forward = Some ''b'', st_enabled_when = None\<rparr>,
     \<lparr>st_step_id = ''b'', st_description = [], st_forward = Some ''a'', st_enabled_when = None\<rparr>]"

text \<open>
  A pipeline whose last step leads back to its first one advances for ever, without any rollback.
\<close>

theorem cyclic_pipeline_runs_on: "\<exists>sm. (sm_step ^^ k) (sm_init cyclic_steps 0 0) sm \<and> \<not> is_complete sm"
proof -
  define s0 where "s0 = sm_init cyclic_steps 0 0"
  define s1 where "s1 = snd (advance s0)"
  define s2 where "s2 = snd (advance s1)"
  let ?ok = "\<lambda>r. case r of Inl _ \<Rightarrow> False | Inr _ \<Rightarrow> True"
  have adv: "?ok (fst (advance s0)) \<and> ?ok (fst (advance s1)) \<and> ?ok (fst (advance s2)) \<and> snd (advance s2) = s1"
    and on: "\<not> is_complete s0" "\<not> is_complete s1" "\<not> is_complete s2"
    unfolding s0_def s1_def s2_def by code_simp+
  have step: "sm_step sm (snd (advance sm))" if "?ok (fst (advance sm))" for sm
    using that by (cases "advance sm") (auto intro: step_advance split: sum.splits)
  have "\<exists>sm \<in> {s0, s1, s2}. (sm_step ^^ k) s0 sm"
  proof (induction k)
    case 0
    show ?case by simp
  next
    case (Suc k)
    then obtain sm where "sm \<in> {s0, s1, s2}" "(sm_step ^^ k) s0 sm" by blast
    moreover from this(1) have "sm_step sm (snd (advance sm))" "snd (advance sm) \<in> {s0, s1, s2}"
      using adv step s1_def s2_def by auto
    ultimately show ?case by (intro bexI [of _ "snd (advance sm)"]) auto
  qed
  then show ?thesis using on s0_def by auto
qed

lemma rollback_effect_facts:
  assumes "linear steps" and "sm_inv steps sm" and "rollback sm t = (r, sm')"
  shows "(\<exists>s. r = Inr s) \<longleftrightarrow> sm_rollback_count sm < sm_max_rollbacks sm
       \<and> (\<exists>i < sm_current_index sm. i < length steps \<and> t = st_step_id (steps ! i))"
    and "\<forall>s. r = Inr s \<longrightarrow> st_step_id s = t \<and> sm_rollback_count sm' = Suc (sm_rollback_count sm)
       \<and> sm_order sm' ! sm_current_index sm' = t \<and> status sm' t = Some RUNNING
       \<and> (\<forall>j. sm_current_index sm' < j \<and> j < length steps \<longrightarrow> status sm' (st_step_id (steps ! j)) = Some STALE)"
    and "\<forall>e. r = Inl e \<longrightarrow> sm' = sm"
proof -
  have sh: "sm_shape steps sm" using assms(2) by (simp add: sm_inv_def)
  have d: "distinct (map st_step_id steps)" using assms(1) by (simp add: linear_def)
  show "(\<exists>s. r = Inr s) \<longleftrightarrow> sm_rollback_count sm < sm_max_rollbacks sm
       \<and> (\<exists>i < sm_current_index sm. i < length steps \<and> t = st_step_id (steps ! i))"
    using rollback_admitted [OF assms(1,2)] rollback_refused [of sm t] assms(3)
      can_rollback_to_linear [OF assms(1,2), of t]
    by (cases "can_rollback_to sm t") (fastforce split: if_splits)+
  show "\<forall>e. r = Inl e \<longrightarrow> sm' = sm"
    using rollback_admitted [OF assms(1,2)] rollback_refused [of sm t] assms(3)
      can_rollback_to_linear [OF assms(1,2), of t]
    by (cases "can_rollback_to sm t") (fastforce split: if_splits)+
  show "\<forall>s. r = Inr s \<longrightarrow> st_step_id s = t \<and> sm_rollback_count sm' = Suc (sm_rollback_count sm)
       \<and> sm_order sm' ! sm_current_index sm' = t \<and> status sm' t = Some RUNNING
       \<and> (\<forall>j. sm_current_index sm' < j \<and> j < length steps \<longrightarrow> status sm' (st_step_id (steps ! j)) = Some STALE)"
  proof (intro allI impI)
    fix s assume "r = Inr s"
    with assms(3) have "can_rollback_to sm t" using rollback_refused by fastforce
    with assms obtain i where i: "i < sm_current_index sm" "i < length steps" "t = st_step_id (steps ! i)"
      by (auto simp: can_rollback_to_linear)
    from rollback_admitted [OF assms(1,2) i(1,2)] assms(3) \<open>r = Inr s\<close>
    have s: "s = steps ! i" and sm': "sm' = move_back (sm\<lparr>sm_rollback_count := sm_rollback_count sm + 1\<rparr>) t i"
      by (auto simp: i(3) split: if_splits)
    have "status sm' (st_step_id (steps ! j)) = Some STALE" if "i < j" "j < length steps" for j
      using that sh in_drop_nth [OF d, of j "Suc i"] nth_eq_iff_index_eq [OF d, of j i] i
      by (simp add: sm' sm_shapeD)
    then show "st_step_id s = t \<and> sm_rollback_count sm' = Suc (sm_rollback_count sm)
       \<and> sm_order sm' ! sm_current_index sm' = t \<and> status sm' t = Some RUNNING
       \<and> (\<forall>j. sm_current_index sm' < j \<and> j < length steps \<longrightarrow> status sm' (st_step_id (steps ! j)) = Some STALE)"
      using s i sh by (simp add: sm' sm_shapeD)
  qed
qed

text \<open>
  On a linear pipeline a rollback is admitted exactly to the steps before the current one while the
  budget lasts. It then makes the target the running step, leaves the earlier steps completed, marks
  every later step stale and spends one unit of the budget; refused, it changes nothing.
\<close>

theorem rollback_effect:
  assumes "linear steps" and "sm_inv steps sm" and "rollback sm t = (r, sm')"
  shows "((\<exists>s. r = Inr s) \<longleftrightarrow> sm_rollback_count sm < sm_max_rollbacks sm
       \<and> (\<exists>i < sm_current_index sm. i < length steps \<and> t = st_step_id (steps ! i)))
     \<and> (\<forall>s. r = Inr s \<longrightarrow> st_step_id s = t \<and> sm_rollback_count sm' = Suc (sm_rollback_count sm)
          \<and> sm_order sm' ! sm_current_index sm' = t \<and> status sm' t = Some RUNNING
          \<and> (\<forall>j. sm_current_index sm' < j \<and> j < length steps \<longrightarrow> status sm' (st_step_id (steps ! j)) = Some STALE))
     \<and> (\<forall>e. r = Inl e \<longrightarrow> sm' = sm)"
  using rollback_effect_facts [OF assms] by blast

theorem rollback_effect_witness:
  "\<exists>s. fst (rollback (fold sm_exec [Advance, Advance] (sm_init selling_steps 3 10)) ''architecture_planning'') = Inr s"
proof -
  let ?sm = "fold sm_exec [Advance, Advance] (sm_init selling_steps 3 10)"
  have inv: "sm_inv selling_steps ?sm" by (rule sm_runs_inv [OF linear_selling sm_init_inv [OF linear_selling]])
  have r: "rollback ?sm ''architecture_planning'' = (fst (rollback ?sm ''architecture_planning''),
      snd (rollback ?sm ''architecture_planning''))" by simp
  have idx: "sm_current_index ?sm = 2" "sm_rollback_count ?sm < sm_max_rollbacks ?sm" by code_simp+
  have sid: "1 < length selling_steps" "''architecture_planning'' = st_step_id (selling_steps ! 1)" by code_simp+
  have "\<exists>i < sm_current_index ?sm. i < length selling_steps \<and> ''architecture_planning'' = st_step_id (selling_steps ! i)"
    unfolding idx(1) using sid by (intro exI [of _ 1]) simp
  then show ?thesis
    using rollback_effect [OF linear_selling inv r] idx(2) by blast
qed

text \<open>Snapshots: the status names are read back as written.\<close>

lemma status_round_trip: "status_of_value (status_value st) = Inr st"
  by (cases st) (simp_all add: status_of_value_def)

lemma statuses_round_trip: "statuses_of_values (map (\<lambda>(k, v). (k, status_value v)) d) = Inr d"
  by (induction d) (auto simp: status_round_trip)

definition sm_restore :: "StepSpec list \<Rightarrow> nat \<Rightarrow> nat \<Rightarrow> sm_snapshot \<Rightarrow> StateMachine" where
  "sm_restore steps mr mi ss = (case from_snapshot ss steps mr mi of Inr sm \<Rightarrow> sm | Inl _ \<Rightarrow> sm_init steps mr mi)"

definition sm_valid :: "StepSpec list \<Rightarrow> nat \<Rightarrow> nat \<Rightarrow> StateMachine \<Rightarrow> bool" where
  "sm_valid steps mr mi sm \<longleftrightarrow> linear steps \<and> sm_inv steps sm
     \<and> sm_max_rollbacks sm = mr \<and> sm_max_interrupt_rollbacks sm = mi"

lemma snapshot_round_trip:
  assumes "sm_valid steps mr mi sm"
  shows "from_snapshot (to_snapshot sm) steps mr mi = Inr sm"
proof -
  have sh: "sm_shape steps sm" and d: "distinct (map st_step_id steps)"
    using assms by (simp_all add: sm_valid_def sm_inv_def linear_def)
  have "sm_steps (sm_init steps mr mi) = sm_steps sm"
    using sh fold_dict_set_fresh [of st_step_id steps "[]" "\<lambda>s. s"] d by (simp add: sm_init_def sm_shapeD)
  then show ?thesis
    using sh assms by (simp add: from_snapshot_def to_snapshot_def statuses_round_trip Let_def sm_valid_def)
      (simp add: sm_init_def sm_shapeD)
qed

interpretation sm_run: resumable "sm_valid steps mr mi" sm_exec to_snapshot "sm_restore steps mr mi" for steps mr mi
proof
  show "sm_restore steps mr mi (to_snapshot s) = s" if "sm_valid steps mr mi s" for s
    using snapshot_round_trip [OF that] by (simp add: sm_restore_def)
  show "sm_valid steps mr mi (sm_exec op s)" if "sm_valid steps mr mi s" for s op
    using that by (simp add: sm_valid_def sm_exec_inv)
qed

text \<open>
  A pipeline run can be saved and resumed at any point without a difference: restoring the snapshot
  of any reachable state gives back that state, so the remaining operations lead to the same state as
  in an uninterrupted run.
\<close>

theorem state_machine_resume:
  assumes "linear steps"
  shows "from_snapshot (to_snapshot (fold sm_exec xs (sm_init steps mr mi))) steps mr mi
       = Inr (fold sm_exec xs (sm_init steps mr mi))
     \<and> fold sm_exec (xs @ ys) (sm_init steps mr mi)
       = fold sm_exec ys (sm_restore steps mr mi (to_snapshot (fold sm_exec xs (sm_init steps mr mi))))"
proof -
  have "sm_valid steps mr mi (sm_init steps mr mi)"
    using assms sm_init_inv [OF assms] by (simp add: sm_valid_def) (simp add: sm_init_def)
  then show ?thesis
    using sm_run.resume_anywhere snapshot_round_trip sm_run.run_valid by blast
qed

theorem state_machine_resume_witness:
  "from_snapshot (to_snapshot (fold sm_exec [Advance, Rollback ''intent_parsing''] (sm_init selling_steps 3 10)))
     selling_steps 3 10 = Inr (fold sm_exec [Advance, Rollback ''intent_parsing''] (sm_init selling_steps 3 10))"
  using state_machine_resume [OF linear_selling] by blast

lemma rollback_options_error:
  assumes "\<exists>i \<in> set is. \<exists>e. step_at sm i = Inl e" and "\<forall>i \<in> set is. \<forall>e. step_at sm i = Inl e \<longrightarrow> e = IndexError"
  shows "rollback_options_from sm is = Inl IndexError"
  using assms
proof (induction "is")
  case (Cons i "is")
  then show ?case by (cases "step_at sm i") auto
qed simp

text \<open>
  once a run is complete, asking for the interrupt rollback options raises an index error instead of
  returning a list, and so does a rollback to a step that cannot be rolled back to, whose error message
  names a current step that no longer exists.
\<close>

theorem complete_run_index_errors:
  assumes "linear steps" and "sm_inv steps sm" and "is_complete sm"
  shows "get_interrupt_rollback_options sm = Inl IndexError
     \<and> (t \<notin> set (map st_step_id steps) \<longrightarrow> rollback sm t = (Inl IndexError, sm))"
proof
  have sh: "sm_shape steps sm" using assms(2) by (simp add: sm_inv_def)
  then have idx: "sm_current_index sm = length steps" using assms(3) by (simp add: is_complete_def sm_shapeD le_antisym)
  then show "get_interrupt_rollback_options sm = Inl IndexError"
    unfolding get_interrupt_rollback_options_def
    using step_at_linear [OF assms(1) sh]
    by (intro rollback_options_error) (auto intro!: bexI [of _ "length steps"] split: if_splits)
  show "t \<notin> set (map st_step_id steps) \<longrightarrow> rollback sm t = (Inl IndexError, sm)"
    using can_rollback_to_linear [OF assms(1,2), of t] idx
    by (auto simp: rollback_def current_step_linear [OF assms(1) sh])
qed

theorem complete_run_index_errors_witness:
  "get_interrupt_rollback_options (fold sm_exec (replicate 5 Advance) (sm_init selling_steps 3 10)) = Inl IndexError"
proof -
  let ?sm = "fold sm_exec (replicate 5 Advance) (sm_init selling_steps 3 10)"
  have inv: "sm_inv selling_steps ?sm" by (rule sm_runs_inv [OF linear_selling sm_init_inv [OF linear_selling]])
  have "is_complete ?sm" by code_simp
  from complete_run_index_errors [OF linear_selling inv this] show ?thesis by blast
qed

end
