(* ===== verification/Pipeline_Loader.thy ===== *)
theory Pipeline_Loader
  imports State_Machine
begin

text \<open>
  The parts of \<^verbatim>\<open>src/src/iac_code/pipeline/engine/loader.py\<close> that compute rather than read files:
  the feature flags, the removal of disabled steps with the repair of the forward links, and the
  check that the context dependencies have no cycle. A loop that may run forever is a partial
  function whose value is then \<open>None\<close>.
\<close>

section \<open>Feature flags\<close>

record flag_spec =
  fl_default :: bool \<comment> \<open>\<^verbatim>\<open>bool(flag_spec.get("default", True))\<close>\<close>
  fl_env :: "string option"

definition resolve_flag :: "(string \<Rightarrow> string option) \<Rightarrow> flag_spec \<Rightarrow> bool" where
  "resolve_flag environ spec =
     (case fl_env spec of
        None \<Rightarrow> fl_default spec
      | Some env_var \<Rightarrow>
          if env_var = [] then fl_default spec
          else
            let env_val = map lower_char (case environ env_var of None \<Rightarrow> [] | Some v \<Rightarrow> v) in
            if env_val \<in> {''true'', ''1'', ''yes''} then True
            else if env_val \<in> {''false'', ''0'', ''no''} then False
            else fl_default spec)"

definition resolve_feature_flags :: "(string \<Rightarrow> string option) \<Rightarrow> (string \<times> flag_spec) list \<Rightarrow> (string \<times> bool) list" where
  "resolve_feature_flags environ raw_flags = map (\<lambda>(name, spec). (name, resolve_flag environ spec)) raw_flags"

section \<open>Disabled steps\<close>

definition is_enabled :: "StepSpec \<Rightarrow> (string \<times> bool) list \<Rightarrow> bool" where
  "is_enabled step flags =
     (case st_enabled_when step of
        None \<Rightarrow> True
      | Some flag \<Rightarrow> (case map_of flags flag of None \<Rightarrow> True | Some b \<Rightarrow> b))"

definition truthy_str :: "string option \<Rightarrow> bool" where
  "truthy_str v = (case v of None \<Rightarrow> False | Some s \<Rightarrow> s \<noteq> [])"

partial_function (option) walk_forward ::
  "(string \<times> StepSpec) list \<Rightarrow> string list \<Rightarrow> string option \<Rightarrow> string option option" where
  \<comment> \<open>the \<^verbatim>\<open>while\<close> loop of \<^verbatim>\<open>_find_next_enabled\<close>\<close>
  [code]: "walk_forward steps_by_id enabled_ids current =
     (if truthy_str current \<and> the current \<notin> set enabled_ids then
        (case map_of steps_by_id (the current) of
           None \<Rightarrow> Some None
         | Some step \<Rightarrow> walk_forward steps_by_id enabled_ids (st_forward step))
      else Some current)"

definition steps_by_id :: "StepSpec list \<Rightarrow> (string \<times> StepSpec) list" where
  "steps_by_id all_steps = fold (\<lambda>s d. dict_set (st_step_id s) s d) all_steps []"

definition find_next_enabled :: "StepSpec list \<Rightarrow> string \<Rightarrow> string list \<Rightarrow> string option option" where
  "find_next_enabled all_steps start_id enabled_ids = walk_forward (steps_by_id all_steps) enabled_ids (Some start_id)"

fun relink :: "StepSpec list \<Rightarrow> string list \<Rightarrow> StepSpec list \<Rightarrow> StepSpec list option" where
  \<comment> \<open>the loop over the enabled steps; the walk only visits disabled steps, which are not changed by it\<close>
  "relink all_steps enabled_ids [] = Some []"
| "relink all_steps enabled_ids (step # rest) =
     (case (if truthy_str (st_forward step) \<and> the (st_forward step) \<notin> set enabled_ids
            then find_next_enabled all_steps (the (st_forward step)) enabled_ids
            else Some (st_forward step)) of
        None \<Rightarrow> None
      | Some f \<Rightarrow> map_option (\<lambda>ss. step\<lparr>st_forward := f\<rparr> # ss) (relink all_steps enabled_ids rest))"

definition filter_and_relink :: "StepSpec list \<Rightarrow> (string \<times> bool) list \<Rightarrow> StepSpec list option" where
  "filter_and_relink steps feature_flags =
     (let enabled = filter (\<lambda>s. is_enabled s feature_flags) steps
      in relink steps (map st_step_id enabled) enabled)"

section \<open>Linear pipelines stay linear\<close>

fun linked :: "StepSpec list \<Rightarrow> bool" where
  "linked [] = True"
| "linked (s # rest) = (st_forward s = (case rest of [] \<Rightarrow> None | t # _ \<Rightarrow> Some (st_step_id t)) \<and> linked rest)"

lemma linked_iff:
  "linked steps \<longleftrightarrow> (\<forall>i < length steps. st_forward (steps ! i) =
     (if Suc i < length steps then Some (st_step_id (steps ! Suc i)) else None))"
proof (induction steps)
  case (Cons s rest)
  have "(\<forall>i < length (s # rest). st_forward ((s # rest) ! i) =
      (if Suc i < length (s # rest) then Some (st_step_id ((s # rest) ! Suc i)) else None))
    \<longleftrightarrow> st_forward s = (if rest \<noteq> [] then Some (st_step_id (rest ! 0)) else None)
      \<and> (\<forall>i < length rest. st_forward (rest ! i) =
           (if Suc i < length rest then Some (st_step_id (rest ! Suc i)) else None))"
    by (simp only: length_Cons All_less_Suc2) simp
  then show ?case using Cons.IH by (cases rest) (simp_all add: nth_Cons')
qed simp

lemma linear_linked: "linear steps \<longleftrightarrow> distinct (map st_step_id steps) \<and> linked steps"
  by (simp add: linear_def linked_iff)

lemma find_filter: "List.find P xs = (case filter P xs of [] \<Rightarrow> None | x # _ \<Rightarrow> Some x)"
  by (induction xs) auto

lemma map_of_steps_by_id:
  "distinct (map st_step_id steps) \<Longrightarrow> s \<in> set steps \<Longrightarrow> map_of (steps_by_id steps) (st_step_id s) = Some s"
  using fold_dict_set_fresh [of st_step_id steps "[]" "\<lambda>s. s"]
  by (simp add: steps_by_id_def map_of_is_SomeI comp_def image_iff)

text \<open>From any point of a linear pipeline the walk ends at the next enabled step.\<close>

lemma walk_forward_linked:
  assumes "distinct (map st_step_id steps)" and "[] \<notin> set (map st_step_id steps)"
    and "ids = map st_step_id (filter P steps)"
  shows "linked rest \<Longrightarrow> steps = front @ rest \<Longrightarrow> rest \<noteq> [] \<Longrightarrow>
     walk_forward (steps_by_id steps) ids (Some (st_step_id (hd rest))) =
       Some (map_option st_step_id (List.find P rest))"
proof (induction rest arbitrary: front)
  case (Cons s rest)
  have s: "s \<in> set steps" "st_step_id s \<noteq> []" using Cons.prems assms(2) by auto
  have mem: "st_step_id s \<in> set ids \<longleftrightarrow> P s"
  proof
    assume "st_step_id s \<in> set ids"
    then obtain s' where "s' \<in> set steps" "P s'" "st_step_id s' = st_step_id s" by (auto simp: assms(3))
    then show "P s" using assms(1) s(1) by (metis distinct_map inj_on_def)
  next
    assume "P s" then show "st_step_id s \<in> set ids" using s(1) by (simp add: assms(3))
  qed
  show ?case
  proof (cases "P s")
    case True
    then show ?thesis using mem s(2) by (simp add: walk_forward.simps truthy_str_def)
  next
    case False
    have step: "walk_forward (steps_by_id steps) ids (Some (st_step_id s)) =
        walk_forward (steps_by_id steps) ids (st_forward s)"
      using False mem s map_of_steps_by_id [OF assms(1) s(1)]
      by (simp add: walk_forward.simps [of _ _ "Some (st_step_id s)"] truthy_str_def)
    show ?thesis
    proof (cases rest)
      case Nil
      with Cons.prems have "st_forward s = None" by simp
      then show ?thesis using False step Nil by (simp add: walk_forward.simps truthy_str_def)
    next
      case (Cons t rest')
      with Cons.prems have "st_forward s = Some (st_step_id (hd rest))" by simp
      then show ?thesis using False step Cons.IH [of "front @ [s]"] Cons.prems Cons by simp
    qed
  qed
qed simp

lemma relink_linked:
  assumes "distinct (map st_step_id steps)" and "[] \<notin> set (map st_step_id steps)"
    and "ids = map st_step_id (filter P steps)"
  shows "linked rest \<Longrightarrow> steps = front @ rest \<Longrightarrow>
     \<exists>rs. relink steps ids (filter P rest) = Some rs \<and> linked rs \<and> map st_step_id rs = map st_step_id (filter P rest)"
proof (induction rest arbitrary: front)
  case (Cons s rest)
  from Cons.IH [of "front @ [s]"] Cons.prems obtain rs where
    rs: "relink steps ids (filter P rest) = Some rs" "linked rs" "map st_step_id rs = map st_step_id (filter P rest)"
    by auto
  have fwd: "(if truthy_str (st_forward s) \<and> the (st_forward s) \<notin> set ids
      then find_next_enabled steps (the (st_forward s)) ids else Some (st_forward s))
    = Some (map_option st_step_id (List.find P rest))" if "P s"
  proof (cases rest)
    case Nil
    with Cons.prems show ?thesis by (simp add: truthy_str_def)
  next
    case (Cons t rest')
    then have f: "st_forward s = Some (st_step_id t)" using Cons.prems by simp
    have w: "walk_forward (steps_by_id steps) ids (Some (st_step_id (hd rest))) =
        Some (map_option st_step_id (List.find P rest))"
      using Cons.prems Cons by (intro walk_forward_linked [OF assms, of rest "front @ [s]"]) simp_all
    show ?thesis
    proof (cases "st_step_id t \<in> set ids")
      case True
      then have "walk_forward (steps_by_id steps) ids (Some (st_step_id t)) = Some (Some (st_step_id t))"
        by (subst walk_forward.simps) simp
      then have "map_option st_step_id (List.find P rest) = Some (st_step_id t)"
        using w unfolding Cons by (metis list.sel(1) option.inject)
      with True f show ?thesis by (metis option.sel)
    next
      case False
      have "st_step_id t \<noteq> []" using assms(2) Cons.prems Cons by auto
      with False w f Cons show ?thesis by (simp add: truthy_str_def find_next_enabled_def)
    qed
  qed
  show ?case
  proof (cases "P s")
    case True
    have "map_option st_step_id (List.find P rest) = (case rs of [] \<Rightarrow> None | t # _ \<Rightarrow> Some (st_step_id t))"
      using rs(3) by (cases rs; cases "filter P rest") (auto simp: find_filter)
    with True rs fwd show ?thesis by simp
  next
    case False
    with rs show ?thesis by simp
  qed
qed simp

text \<open>
  The loader keeps a linear pipeline linear. With distinct, non-empty step ids the removal of the
  disabled steps ends, keeps exactly the enabled steps in order, and leaves forward links that lead
  from each of them to the next, so the state machine's invariant applies to what was loaded.
\<close>

theorem filter_and_relink_linear:
  assumes "linear steps" and "[] \<notin> set (map st_step_id steps)"
  shows "\<exists>rs. filter_and_relink steps flags = Some rs \<and> linear rs
     \<and> map st_step_id rs = map st_step_id (filter (\<lambda>s. is_enabled s flags) steps)"
proof -
  have d: "distinct (map st_step_id steps)" and l: "linked steps" using assms(1) by (simp_all add: linear_linked)
  from relink_linked [OF d assms(2) refl l, of "[]" "\<lambda>s. is_enabled s flags"] obtain rs where
    "filter_and_relink steps flags = Some rs" "linked rs"
    "map st_step_id rs = map st_step_id (filter (\<lambda>s. is_enabled s flags) steps)"
    by (auto simp: filter_and_relink_def Let_def)
  moreover have "distinct (map st_step_id (filter (\<lambda>s. is_enabled s flags) steps))"
    using d by (rule distinct_map_filter)
  ultimately show ?thesis by (auto simp: linear_linked)
qed

theorem filter_and_relink_linear_witness:
  "\<exists>rs. filter_and_relink selling_steps [(''x'', False)] = Some rs \<and> linear rs"
proof -
  have "[] \<notin> set (map st_step_id selling_steps)" by code_simp
  from filter_and_relink_linear [OF linear_selling this] show ?thesis by blast
qed

lemma walk_forward_diverges:
  assumes "b \<noteq> []" and "b \<notin> set ids" and "map_of tab b = Some step" and "st_forward step = Some b"
  shows "walk_forward tab ids (Some b) = None"
proof -
  have "\<not> (t = tab \<and> e = ids \<and> c = Some b)" if "walk_forward t e c = Some y" for t e c y
  proof (rule walk_forward.raw_induct [OF _ that])
    fix walk t e c y
    assume IH: "\<And>t e c y. walk t e c = Some y \<Longrightarrow> \<not> (t = tab \<and> e = ids \<and> c = Some b)"
      and step: "(if truthy_str c \<and> the c \<notin> set e
            then case map_of t (the c) of None \<Rightarrow> Some None | Some step \<Rightarrow> walk t e (st_forward step)
            else Some c) = Some y"
    show "\<not> (t = tab \<and> e = ids \<and> c = Some b)"
    proof
      assume "t = tab \<and> e = ids \<and> c = Some b"
      with step assms have "walk tab ids (Some b) = Some y" by (simp add: truthy_str_def)
      with IH show False by blast
    qed
  qed
  then show ?thesis by (metis not_None_eq)
qed

text \<open>
  Loading never ends when an enabled step leads to a disabled step that leads to itself: the walk for
  the next enabled step keeps no record of the steps it has visited.
\<close>

theorem relink_diverges_on_cycle:
  assumes "a \<noteq> []" "b \<noteq> []" "a \<noteq> b" and "map_of flags f = Some False"
  shows "filter_and_relink
     [\<lparr>st_step_id = a, st_description = d1, st_forward = Some b, st_enabled_when = None\<rparr>,
      \<lparr>st_step_id = b, st_description = d2, st_forward = Some b, st_enabled_when = Some f\<rparr>] flags = None"
  using assms walk_forward_diverges [of b "[a]"]
  by (simp add: filter_and_relink_def is_enabled_def truthy_str_def find_next_enabled_def steps_by_id_def)

theorem relink_diverges_on_cycle_witness:
  "filter_and_relink
     [\<lparr>st_step_id = ''plan'', st_description = [], st_forward = Some ''review'', st_enabled_when = None\<rparr>,
      \<lparr>st_step_id = ''review'', st_description = [], st_forward = Some ''review'', st_enabled_when = Some ''review''\<rparr>]
     [(''review'', False)] = None"
  by (rule relink_diverges_on_cycle) simp_all

section \<open>Context dependencies\<close>

type_synonym dependencies = "(string \<times> string list) list"

definition deps_of :: "dependencies \<Rightarrow> string \<Rightarrow> string list" where
  \<comment> \<open>\<^verbatim>\<open>dependencies.get(field_name, [])\<close>\<close>
  "deps_of deps f = (case map_of deps f of None \<Rightarrow> [] | Some ds \<Rightarrow> ds)"

definition cycle_error :: "string list \<Rightarrow> string \<Rightarrow> py_error" where
  "cycle_error visiting field_name =
     ValueError (''context dependency cycle: ''
       @ join_with '' -> '' (dropWhile (\<lambda>v. v \<noteq> field_name) visiting @ [field_name]))"

lemma visiting_shrinks:
  assumes "f \<in> fst ` set deps" and "f \<notin> set visiting"
  shows "card (fst ` set deps - insert f (set visiting)) < card (fst ` set deps - set visiting)"
  using assms by (intro psubset_card_mono) auto

function visit :: "dependencies \<Rightarrow> string list \<Rightarrow> string list \<Rightarrow> string \<Rightarrow> py_error + string list"
  and visit_all :: "dependencies \<Rightarrow> string list \<Rightarrow> string list \<Rightarrow> string list \<Rightarrow> py_error + string list" where
  \<comment> \<open>\<^verbatim>\<open>visiting\<close> is a stack that every call leaves as it was; the result is the new \<^verbatim>\<open>visited\<close>\<close>
  "visit deps visiting visited field_name =
     (if field_name \<in> set visited then Inr visited
      else if field_name \<in> set visiting then Inl (cycle_error visiting field_name)
      else (case visit_all deps (visiting @ [field_name]) visited (deps_of deps field_name) of
          Inl e \<Rightarrow> Inl e
        | Inr visited' \<Rightarrow> Inr (field_name # visited')))"
| "visit_all deps visiting visited [] = Inr visited"
| "visit_all deps visiting visited (d # ds) =
     (if d \<in> fst ` set deps then
        (case visit deps visiting visited d of
           Inl e \<Rightarrow> Inl e
         | Inr visited' \<Rightarrow> visit_all deps visiting visited' ds)
      else visit_all deps visiting visited ds)"
  by pat_completeness auto

termination
proof (relation "measures [case_sum (\<lambda>(deps, visiting, _, _). card (fst ` set deps - set visiting))
      (\<lambda>(deps, visiting, _, _). card (fst ` set deps - set visiting)),
    case_sum (\<lambda>_. 1) (\<lambda>(_, _, _, ds). 2 * length ds)]", goal_cases)
  case (2 deps visiting visited f)
  show ?case
  proof (cases "f \<in> fst ` set deps")
    case True
    with 2 show ?thesis using visiting_shrinks [OF True, of visiting] by (simp del: card_Diff_insert)
  next
    case False
    then have "deps_of deps f = []" by (simp add: deps_of_def map_of_eq_None_iff [THEN iffD2])
    moreover have "fst ` set deps - insert f (set visiting) = fst ` set deps - set visiting" using False by blast
    ultimately show ?thesis by simp
  qed
qed simp_all

declare visit.simps [simp del]

fun visit_roots :: "dependencies \<Rightarrow> string list \<Rightarrow> string list \<Rightarrow> py_error + string list" where
  "visit_roots deps visited [] = Inr visited"
| "visit_roots deps visited (f # fs) =
     (case visit deps [] visited f of Inl e \<Rightarrow> Inl e | Inr visited' \<Rightarrow> visit_roots deps visited' fs)"

definition validate_context_dependencies_acyclic :: "dependencies \<Rightarrow> py_error + unit" where
  "validate_context_dependencies_acyclic deps = map_sum id (\<lambda>_. ()) (visit_roots deps [] (map fst deps))"

text \<open>The graph the check is about: an edge leads from a field to a dependency that is itself a field.\<close>

definition dep_graph :: "dependencies \<Rightarrow> (string \<times> string) set" where
  "dep_graph deps = {(f, d). d \<in> set (deps_of deps f) \<and> d \<in> fst ` set deps}"

lemma visit_finds_cycle:
  "visit deps visiting visited f = Inl e \<Longrightarrow> \<forall>v \<in> set visiting. (v, f) \<in> (dep_graph deps)\<^sup>+ \<Longrightarrow>
     \<not> acyclic (dep_graph deps)"
  "visit_all deps visiting visited ds = Inl e \<Longrightarrow>
     \<forall>d \<in> set ds. d \<in> fst ` set deps \<longrightarrow> (\<forall>v \<in> set visiting. (v, d) \<in> (dep_graph deps)\<^sup>+) \<Longrightarrow>
     \<not> acyclic (dep_graph deps)"
proof (induction deps visiting visited f and deps visiting visited ds rule: visit_visit_all.induct)
  case (1 deps visiting visited f)
  show ?case
  proof (cases "f \<in> set visiting \<and> f \<notin> set visited")
    case True
    with 1 show ?thesis by (auto simp: acyclic_def)
  next
    case False
    with 1 have nv: "f \<notin> set visited" "f \<notin> set visiting"
      and all: "visit_all deps (visiting @ [f]) visited (deps_of deps f) = Inl e"
      by (auto simp: visit.simps [of deps visiting] split: if_splits sum.splits)
    have "(v, d) \<in> (dep_graph deps)\<^sup>+"
      if "d \<in> set (deps_of deps f)" "d \<in> fst ` set deps" "v \<in> set (visiting @ [f])" for d v
    proof -
      have "(f, d) \<in> dep_graph deps" using that by (simp add: dep_graph_def)
      then show ?thesis using that(3) 1(3) by (auto intro: trancl_into_trancl)
    qed
    with 1(1) [OF nv all] show ?thesis by blast
  qed
next
  case (3 deps visiting visited d ds)
  then show ?case by (auto split: if_splits sum.splits)
qed simp

text \<open>The visited fields, most recent first, are in topological order.\<close>

fun topo :: "dependencies \<Rightarrow> string list \<Rightarrow> bool" where
  "topo deps [] = True"
| "topo deps (f # fs) = (f \<notin> set fs \<and> (\<forall>d. (f, d) \<in> dep_graph deps \<longrightarrow> d \<in> set fs) \<and> topo deps fs)"

lemma visit_topo:
  "visit deps visiting visited f = Inr V \<Longrightarrow> topo deps visited \<Longrightarrow> set visited \<inter> set visiting = {} \<Longrightarrow>
     topo deps V \<and> set V \<inter> set visiting = {} \<and> insert f (set visited) \<subseteq> set V"
  "visit_all deps visiting visited ds = Inr V \<Longrightarrow> topo deps visited \<Longrightarrow> set visited \<inter> set visiting = {} \<Longrightarrow>
     topo deps V \<and> set V \<inter> set visiting = {} \<and> {d \<in> set ds. d \<in> fst ` set deps} \<union> set visited \<subseteq> set V"
proof (induction deps visiting visited f and deps visiting visited ds arbitrary: V and V rule: visit_visit_all.induct)
  case (1 deps visiting visited f)
  show ?case
  proof (cases "f \<in> set visited")
    case True
    with 1 show ?thesis by (simp add: visit.simps [of deps visiting])
  next
    case False
    with 1 obtain V' where nv: "f \<notin> set visiting"
      and all: "visit_all deps (visiting @ [f]) visited (deps_of deps f) = Inr V'" and V: "V = f # V'"
      by (auto simp: visit.simps [of deps visiting] split: if_splits sum.splits)
    have "topo deps V' \<and> set V' \<inter> set (visiting @ [f]) = {}
        \<and> {d \<in> set (deps_of deps f). d \<in> fst ` set deps} \<union> set visited \<subseteq> set V'"
      using 1(1) [OF False nv all 1(3)] 1(4) False by auto
    with V nv show ?thesis by (auto simp: dep_graph_def)
  qed
next
  case (3 deps visiting visited d ds)
  show ?case
  proof (cases "d \<in> fst ` set deps")
    case True
    with 3(4) obtain V1 where v1: "visit deps visiting visited d = Inr V1" and rest: "visit_all deps visiting V1 ds = Inr V"
      by (auto split: sum.splits)
    from 3(1) [OF True v1 3(5,6)] have "topo deps V1" "set V1 \<inter> set visiting = {}" "insert d (set visited) \<subseteq> set V1"
      by auto
    with 3(2) [OF True v1 rest] show ?thesis by auto
  next
    case False
    with 3 show ?thesis by auto
  qed
qed auto

lemma topo_closed: "topo deps W \<Longrightarrow> f \<in> set W \<Longrightarrow> (f, d) \<in> dep_graph deps \<Longrightarrow> d \<in> set W"
  by (induction W) auto

lemma topo_acyclic:
  assumes "topo deps V" and "fst ` set deps \<subseteq> set V"
  shows "acyclic (dep_graph deps)"
proof -
  define rk where "rk x = length (dropWhile (\<lambda>v. v \<noteq> x) V)" for x
  have "length (dropWhile (\<lambda>v. v \<noteq> d) W) < length (dropWhile (\<lambda>v. v \<noteq> f) W)"
    if "topo deps W" "f \<in> set W" "(f, d) \<in> dep_graph deps" for W f d
    using that
  proof (induction W)
    case (Cons w W)
    show ?case
    proof (cases "f = w")
      case True
      with Cons.prems have "d \<in> set W" "w \<notin> set W" by auto
      then have "d \<noteq> w" by auto
      then show ?thesis using True le_imp_less_Suc [OF length_dropWhile_le] by auto
    next
      case False
      then have "d \<in> set W" using Cons.prems topo_closed by auto
      then have "d \<noteq> w" using Cons.prems by auto
      with False Cons show ?thesis by auto
    qed
  qed simp
  then have "(f, d) \<in> dep_graph deps \<Longrightarrow> f \<in> set V \<Longrightarrow> rk d < rk f" for f d
    using assms(1) by (simp add: rk_def)
  moreover have "f \<in> set V" if "(f, d) \<in> dep_graph deps" for f d
  proof -
    have "map_of deps f \<noteq> None" using that by (cases "map_of deps f") (auto simp: dep_graph_def deps_of_def)
    then have "f \<in> fst ` set deps" by (simp add: map_of_eq_None_iff)
    with assms(2) show ?thesis by blast
  qed
  ultimately have "(dep_graph deps)\<inverse> \<subseteq> measure rk" by auto
  then have "wf ((dep_graph deps)\<inverse>)" by (rule wf_subset [OF wf_measure])
  then show ?thesis using wf_acyclic acyclic_converse by blast
qed

lemma visit_roots_topo:
  "visit_roots deps visited fs = Inr V \<Longrightarrow> topo deps visited \<Longrightarrow> topo deps V \<and> set fs \<union> set visited \<subseteq> set V"
proof (induction fs arbitrary: visited)
  case (Cons f fs)
  then obtain V1 where v1: "visit deps [] visited f = Inr V1" and rest: "visit_roots deps V1 fs = Inr V"
    by (auto split: sum.splits)
  from visit_topo(1) [OF v1 Cons.prems(2)] have "topo deps V1" "insert f (set visited) \<subseteq> set V1" by auto
  with Cons.IH [OF rest] show ?case by auto
qed simp

lemma visit_roots_error: "visit_roots deps visited fs = Inl e \<Longrightarrow> \<not> acyclic (dep_graph deps)"
proof (induction fs arbitrary: visited)
  case (Cons f fs)
  then show ?case using visit_finds_cycle(1) by (fastforce split: sum.splits)
qed simp

text \<open>
  C30: the loader accepts the context dependencies of a pipeline exactly when they have no cycle. The
  depth-first search always ends, raises an error on every cyclic graph, and on no other.
\<close>

theorem acyclic_check_exact:
  "(\<exists>u. validate_context_dependencies_acyclic deps = Inr u) \<longleftrightarrow> acyclic (dep_graph deps)"
proof (cases "visit_roots deps [] (map fst deps)")
  case (Inl e)
  with visit_roots_error show ?thesis by (auto simp: validate_context_dependencies_acyclic_def)
next
  case (Inr V)
  from visit_roots_topo [OF this] have "topo deps V" "fst ` set deps \<subseteq> set V" by auto
  with Inr topo_acyclic show ?thesis by (auto simp: validate_context_dependencies_acyclic_def)
qed

end
