(* ===== verification/Pipeline_Context.thy ===== *)
theory Pipeline_Context
  imports Pipeline_Loader
begin

text \<open>
  \<^verbatim>\<open>src/src/iac_code/pipeline/engine/context.py\<close>: the versioned fields the steps of a pipeline
  share, and the propagation of staleness along their dependencies. A field value is a dynamic
  value, \<open>PyNone\<close> standing for a field that is not set; the time an update is stamped with is an
  argument of the operation, since the code only stores it.
\<close>

section \<open>State\<close>

record VersionedField =
  vf_value :: pyval
  vf_version :: nat
  vf_stale :: bool
  vf_updated_at :: "int option"
  vf_history :: "(pyval \<times> nat) list" \<comment> \<open>entries \<^verbatim>\<open>{"value": v, "version": n}\<close>\<close>

record PipelineContext =
  pc_deps :: dependencies
  pc_fields :: "(string \<times> VersionedField) list"

definition empty_field :: VersionedField where
  "empty_field = \<lparr>vf_value = PyNone, vf_version = 0, vf_stale = False, vf_updated_at = None, vf_history = []\<rparr>"

definition pc_init :: "dependencies \<Rightarrow> PipelineContext" where
  "pc_init field_dependencies =
     \<lparr>pc_deps = field_dependencies, pc_fields = map (\<lambda>(name, _). (name, empty_field)) field_dependencies\<rparr>"

section \<open>Stale propagation\<close>

definition has_value :: "(string \<times> VersionedField) list \<Rightarrow> string \<Rightarrow> bool" where
  \<comment> \<open>\<^verbatim>\<open>self._fields[name].value is not None\<close>, of a name that is a field\<close>
  "has_value flds name = (case map_of flds name of None \<Rightarrow> False | Some f \<Rightarrow> vf_value f \<noteq> PyNone)"

definition set_stale :: "string \<Rightarrow> bool \<Rightarrow> (string \<times> VersionedField) list \<Rightarrow> (string \<times> VersionedField) list" where
  "set_stale name b flds =
     (case map_of flds name of None \<Rightarrow> flds | Some f \<Rightarrow> dict_set name (f\<lparr>vf_stale := b\<rparr>) flds)"

fun scan_dependents :: "dependencies \<Rightarrow> string \<Rightarrow> (string \<times> VersionedField) list \<Rightarrow> string list \<Rightarrow> string list
    \<Rightarrow> string list \<Rightarrow> (string \<times> VersionedField) list \<times> string list \<times> string list \<times> string list" where
  \<comment> \<open>the \<^verbatim>\<open>for\<close> loop: the fields, the stale list, the queue and the visited set\<close>
  "scan_dependents [] current flds stale_list queue visited = (flds, stale_list, queue, visited)"
| "scan_dependents ((name, ds) # rest) current flds stale_list queue visited =
     (if current \<in> set ds \<and> name \<notin> set visited then
        (if has_value flds name
         then scan_dependents rest current (set_stale name True flds) (stale_list @ [name]) (queue @ [name]) (name # visited)
         else scan_dependents rest current flds stale_list (queue @ [name]) (name # visited))
      else scan_dependents rest current flds stale_list queue visited)"

text \<open>The names a scan adds, in order.\<close>

fun newly_visited :: "dependencies \<Rightarrow> string \<Rightarrow> string list \<Rightarrow> string list" where
  "newly_visited [] current visited = []"
| "newly_visited ((name, ds) # rest) current visited =
     (if current \<in> set ds \<and> name \<notin> set visited
      then name # newly_visited rest current (name # visited) else newly_visited rest current visited)"

definition mark_all :: "string list \<Rightarrow> (string \<times> VersionedField) list \<Rightarrow> (string \<times> VersionedField) list" where
  "mark_all names flds = fold (\<lambda>name. set_stale name True) (filter (has_value flds) names) flds"

lemma map_of_set_stale:
  "map_of (set_stale name b flds) n =
     (if n = name then map_option (\<lambda>f. f\<lparr>vf_stale := b\<rparr>) (map_of flds n) else map_of flds n)"
  by (auto simp: set_stale_def split: option.splits)

lemma has_value_set_stale [simp]: "has_value (set_stale name b flds) = has_value flds"
  by (auto simp: fun_eq_iff has_value_def map_of_set_stale split: option.splits)

lemma keys_set_stale [simp]: "map fst (set_stale name b flds) = map fst flds"
proof (cases "map_of flds name")
  case (Some f)
  then have "name \<in> set (map fst flds)" by (metis map_of_eq_None_iff option.distinct(1) list.set_map)
  then show ?thesis using Some by (simp add: set_stale_def dict_set_keys_same)
qed (simp add: set_stale_def)

lemma scan_dependents_eq:
  "scan_dependents deps current flds stale_list queue visited =
     (let new = newly_visited deps current visited in
      (mark_all new flds, stale_list @ filter (has_value flds) new, queue @ new, rev new @ visited))"
  by (induction deps current flds stale_list queue visited rule: scan_dependents.induct)
     (auto simp: mark_all_def Let_def)

lemma newly_visited_set:
  "set (newly_visited deps current visited) =
     {name. \<exists>ds. (name, ds) \<in> set deps \<and> current \<in> set ds} - set visited"
  by (induction deps current visited rule: newly_visited.induct) auto

lemma newly_visited_distinct: "distinct (newly_visited deps current visited)"
  by (induction deps current visited rule: newly_visited.induct) (auto simp: newly_visited_set)

lemma newly_visited_keys: "set (newly_visited deps current visited) \<subseteq> fst ` set deps - set visited"
  by (force simp: newly_visited_set)

lemma unvisited_shrinks:
  assumes "newly_visited deps current visited \<noteq> []"
  shows "card (fst ` set deps - set (rev (newly_visited deps current visited) @ visited))
     < card (fst ` set deps - set visited)"
proof (rule psubset_card_mono)
  obtain n where "n \<in> set (newly_visited deps current visited)" using assms by (cases "newly_visited deps current visited") auto
  with newly_visited_keys [of deps current visited]
  show "fst ` set deps - set (rev (newly_visited deps current visited) @ visited) \<subset> fst ` set deps - set visited"
    by auto
qed simp

function propagate_loop :: "dependencies \<Rightarrow> (string \<times> VersionedField) list \<Rightarrow> string list \<Rightarrow> string list
    \<Rightarrow> string list \<Rightarrow> (string \<times> VersionedField) list \<times> string list" where
  "propagate_loop deps flds stale_list [] visited = (flds, stale_list)"
| "propagate_loop deps flds stale_list (current # queue) visited =
     (case scan_dependents deps current flds stale_list queue visited of
        (flds', stale_list', queue', visited') \<Rightarrow> propagate_loop deps flds' stale_list' queue' visited')"
  by pat_completeness auto
termination
proof (relation "measures [\<lambda>(deps, _, _, _, visited). card (fst ` set deps - set visited), \<lambda>(_, _, _, queue, _). length queue]",
    goal_cases)
  case (2 deps flds stale_list current queue visited)
  then show ?case
    using unvisited_shrinks [of deps current visited]
    by (cases "newly_visited deps current visited = []") (auto simp: scan_dependents_eq Let_def)
qed simp

definition propagate_stale :: "PipelineContext \<Rightarrow> string \<Rightarrow> string list \<times> PipelineContext" where
  "propagate_stale ctx changed_field =
     (case propagate_loop (pc_deps ctx) (pc_fields ctx) [] [changed_field] [changed_field] of
        (flds, stale_list) \<Rightarrow> (stale_list, ctx\<lparr>pc_fields := flds\<rparr>))"

section \<open>Operations\<close>

definition set_conclusion :: "PipelineContext \<Rightarrow> int \<Rightarrow> string \<Rightarrow> pyval \<Rightarrow> (py_error + string list) \<times> PipelineContext" where
  "set_conclusion ctx now field_name value =
     (case map_of (pc_fields ctx) field_name of
        None \<Rightarrow> (Inl (KeyError field_name), ctx)
      | Some f \<Rightarrow>
          let f1 = (if vf_value f \<noteq> PyNone then f\<lparr>vf_history := vf_history f @ [(vf_value f, vf_version f)]\<rparr> else f);
              f2 = f1\<lparr>vf_value := value, vf_version := vf_version f + 1, vf_stale := False, vf_updated_at := Some now\<rparr>;
              (stale, ctx') = propagate_stale (ctx\<lparr>pc_fields := dict_set field_name f2 (pc_fields ctx)\<rparr>) field_name
          in (Inr stale, ctx'))"

definition get_conclusion :: "PipelineContext \<Rightarrow> string \<Rightarrow> py_error + pyval" where
  "get_conclusion ctx field_name =
     (case map_of (pc_fields ctx) field_name of None \<Rightarrow> Inl (KeyError field_name) | Some f \<Rightarrow> Inr (vf_value f))"

definition get_field :: "PipelineContext \<Rightarrow> string \<Rightarrow> py_error + VersionedField" where
  "get_field ctx field_name =
     (case map_of (pc_fields ctx) field_name of None \<Rightarrow> Inl (KeyError field_name) | Some f \<Rightarrow> Inr f)"

definition get_conclusions_summary :: "PipelineContext \<Rightarrow> (string \<times> pyval \<times> nat \<times> bool) list" where
  "get_conclusions_summary ctx =
     map (\<lambda>(name, f). (name, vf_value f, vf_version f, vf_stale f))
       (filter (\<lambda>(name, f). vf_value f \<noteq> PyNone) (pc_fields ctx))"

definition get_stale_fields :: "PipelineContext \<Rightarrow> string list" where
  "get_stale_fields ctx = map fst (filter (\<lambda>(name, f). vf_stale f) (pc_fields ctx))"

definition mark_stale :: "PipelineContext \<Rightarrow> string \<Rightarrow> (py_error + string list) \<times> PipelineContext" where
  "mark_stale ctx field_name =
     (if map_of (pc_fields ctx) field_name = None then (Inl (KeyError field_name), ctx)
      else (case propagate_stale (ctx\<lparr>pc_fields := set_stale field_name True (pc_fields ctx)\<rparr>) field_name of
          (stale, ctx') \<Rightarrow> (Inr stale, ctx')))"

definition clear_stale :: "PipelineContext \<Rightarrow> string \<Rightarrow> (py_error + unit) \<times> PipelineContext" where
  "clear_stale ctx field_name =
     (if map_of (pc_fields ctx) field_name = None then (Inl (KeyError field_name), ctx)
      else (Inr (), ctx\<lparr>pc_fields := set_stale field_name False (pc_fields ctx)\<rparr>))"

definition context_values :: "PipelineContext \<Rightarrow> (string \<times> pyval) list" where
  \<comment> \<open>\<^verbatim>\<open>PipelineContext.snapshot\<close>\<close>
  "context_values ctx =
     map (\<lambda>(name, f). (name, vf_value f)) (filter (\<lambda>(name, f). vf_value f \<noteq> PyNone) (pc_fields ctx))"

section \<open>Snapshots\<close>

record field_snapshot =
  fs_value :: pyval
  fs_version :: nat
  fs_stale :: bool
  fs_updated_at :: "int option" \<comment> \<open>absent reads as \<^verbatim>\<open>None\<close>\<close>
  fs_history :: "(pyval \<times> nat) list option"

definition context_to_snapshot :: "PipelineContext \<Rightarrow> (string \<times> field_snapshot) list" where
  "context_to_snapshot ctx =
     map (\<lambda>(name, f). (name, \<lparr>fs_value = vf_value f, fs_version = vf_version f, fs_stale = vf_stale f,
       fs_updated_at = vf_updated_at f, fs_history = Some (vf_history f)\<rparr>)) (pc_fields ctx)"

definition field_of_snapshot :: "field_snapshot \<Rightarrow> VersionedField" where
  "field_of_snapshot d =
     \<lparr>vf_value = fs_value d, vf_version = fs_version d, vf_stale = fs_stale d, vf_updated_at = fs_updated_at d,
      vf_history = (case fs_history d of None \<Rightarrow> [] | Some h \<Rightarrow> h)\<rparr>"

definition context_from_snapshot :: "(string \<times> field_snapshot) list \<Rightarrow> dependencies \<Rightarrow> PipelineContext" where
  "context_from_snapshot snapshot field_dependencies =
     (let ctx = pc_init field_dependencies in
      ctx\<lparr>pc_fields := fold (\<lambda>(name, d) flds.
        if name \<in> fst ` set flds then dict_set name (field_of_snapshot d) flds else flds)
        snapshot (pc_fields ctx)\<rparr>)"

section \<open>The propagation is reachability\<close>

function bfs_order :: "dependencies \<Rightarrow> string list \<Rightarrow> string list \<Rightarrow> string list" where
  "bfs_order deps [] visited = []"
| "bfs_order deps (current # queue) visited =
     (let new = newly_visited deps current visited in new @ bfs_order deps (queue @ new) (rev new @ visited))"
  by pat_completeness auto
termination
proof (relation "measures [\<lambda>(deps, _, visited). card (fst ` set deps - set visited), \<lambda>(_, queue, _). length queue]",
    goal_cases)
  case (2 deps current queue visited)
  then show ?case
    using unvisited_shrinks [of deps current visited]
    by (cases "newly_visited deps current visited = []") auto
qed simp

definition dependents :: "dependencies \<Rightarrow> (string \<times> string) set" where
  "dependents deps = {(d, name). \<exists>ds. (name, ds) \<in> set deps \<and> d \<in> set ds}"

lemma newly_visited_dependents:
  "set (newly_visited deps current visited) = dependents deps `` {current} - set visited"
  by (auto simp: newly_visited_set dependents_def)

lemma has_value_fold_stale [simp]: "has_value (fold (\<lambda>name. set_stale name b) names flds) = has_value flds"
  by (induction names arbitrary: flds) simp_all

lemma has_value_mark_all [simp]: "has_value (mark_all names flds) = has_value flds"
  by (simp add: mark_all_def)

lemma mark_all_append: "mark_all (xs @ ys) flds = mark_all ys (mark_all xs flds)"
  by (simp add: mark_all_def)

lemma keys_mark_all [simp]: "map fst (mark_all names flds) = map fst flds"
proof -
  have "map fst (fold (\<lambda>name. set_stale name True) ns fs) = map fst fs" for ns fs
    by (induction ns arbitrary: fs) simp_all
  then show ?thesis by (simp add: mark_all_def)
qed

lemma map_of_mark_all:
  "map_of (mark_all names flds) n =
     (if n \<in> set names \<and> has_value flds n then map_option (\<lambda>f. f\<lparr>vf_stale := True\<rparr>) (map_of flds n) else map_of flds n)"
proof -
  have "map_of (fold (\<lambda>name. set_stale name True) ns fs) n =
      (if n \<in> set ns then map_option (\<lambda>f. f\<lparr>vf_stale := True\<rparr>) (map_of fs n) else map_of fs n)" for ns fs
    by (induction ns arbitrary: fs) (auto simp: map_of_set_stale option.map_comp comp_def)
  then show ?thesis by (simp add: mark_all_def)
qed

lemma propagate_loop_order:
  "propagate_loop deps flds stale_list queue visited =
     (mark_all (bfs_order deps queue visited) flds,
      stale_list @ filter (has_value flds) (bfs_order deps queue visited))"
proof (induction deps flds stale_list queue visited rule: propagate_loop.induct)
  case (1 deps flds stale_list visited)
  then show ?case by (simp add: mark_all_def)
next
  case (2 deps flds stale_list current queue visited)
  let ?new = "newly_visited deps current visited"
  have scan: "scan_dependents deps current flds stale_list queue visited =
      (mark_all ?new flds, stale_list @ filter (has_value flds) ?new, queue @ ?new, rev ?new @ visited)"
    by (simp add: scan_dependents_eq Let_def)
  show ?case
    using 2 [OF scan [symmetric] refl refl] by (simp add: scan mark_all_append Let_def)
qed

lemma bfs_order_fresh:
  "distinct (bfs_order deps queue visited) \<and> set (bfs_order deps queue visited) \<inter> set visited = {}"
  by (induction deps queue visited rule: bfs_order.induct)
     (auto simp: Let_def newly_visited_distinct newly_visited_dependents)

lemma bfs_order_sound: "set (bfs_order deps queue visited) \<subseteq> (dependents deps)\<^sup>+ `` set queue"
proof (induction deps queue visited rule: bfs_order.induct)
  case (2 deps current queue visited)
  let ?R = "dependents deps" and ?new = "newly_visited deps current visited"
  have new: "set ?new \<subseteq> ?R `` {current}" by (simp add: newly_visited_dependents)
  then have "?R\<^sup>+ `` set ?new \<subseteq> ?R\<^sup>+ `` {current}" by (blast intro: trancl_into_trancl2)
  moreover have "set ?new \<subseteq> ?R\<^sup>+ `` {current}" using new by auto
  moreover have "set (bfs_order deps (queue @ ?new) (rev ?new @ visited)) \<subseteq> ?R\<^sup>+ `` (set queue \<union> set ?new)"
    using 2 [OF refl] by simp
  ultimately show ?case by (simp add: Let_def) blast
qed simp

lemma bfs_order_closed:
  "set queue \<subseteq> set visited \<Longrightarrow> dependents deps `` (set visited - set queue) \<subseteq> set visited \<Longrightarrow>
     dependents deps `` (set visited \<union> set (bfs_order deps queue visited))
       \<subseteq> set visited \<union> set (bfs_order deps queue visited)"
proof (induction deps queue visited rule: bfs_order.induct)
  case (2 deps current queue visited)
  let ?new = "newly_visited deps current visited"
  have "dependents deps `` {current} \<subseteq> set visited \<union> set ?new" by (auto simp: newly_visited_dependents)
  then have "dependents deps `` (set (rev ?new @ visited) - set (queue @ ?new)) \<subseteq> set (rev ?new @ visited)"
    using 2(3) by auto
  moreover have "set (queue @ ?new) \<subseteq> set (rev ?new @ visited)" using 2(2) by auto
  ultimately have "dependents deps `` (set (rev ?new @ visited) \<union> set (bfs_order deps (queue @ ?new) (rev ?new @ visited)))
      \<subseteq> set (rev ?new @ visited) \<union> set (bfs_order deps (queue @ ?new) (rev ?new @ visited))"
    using 2(1) [OF refl] by blast
  then show ?case by (simp add: Let_def Un_ac)
qed simp

lemma bfs_from_one:
  "set (bfs_order deps [f] [f]) = (dependents deps)\<^sup>+ `` {f} - {f}"
proof
  show "set (bfs_order deps [f] [f]) \<subseteq> (dependents deps)\<^sup>+ `` {f} - {f}"
    using bfs_order_sound [of deps "[f]" "[f]"] bfs_order_fresh [of deps "[f]" "[f]"] by auto
  let ?V = "insert f (set (bfs_order deps [f] [f]))"
  have closed: "dependents deps `` ?V \<subseteq> ?V" using bfs_order_closed [of "[f]" "[f]" deps] by simp
  have "n \<in> ?V" if "(f, n) \<in> (dependents deps)\<^sup>+" for n
    using that closed by (induction rule: trancl_induct) auto
  then show "(dependents deps)\<^sup>+ `` {f} - {f} \<subseteq> set (bfs_order deps [f] [f])" by auto
qed

declare bfs_order.simps [simp del]

section \<open>Properties\<close>

abbreviation field :: "PipelineContext \<Rightarrow> string \<Rightarrow> VersionedField option" where
  "field ctx \<equiv> map_of (pc_fields ctx)"

definition history_ok :: "VersionedField \<Rightarrow> bool" where
  \<comment> \<open>the history lists earlier versions, oldest first\<close>
  "history_ok f \<longleftrightarrow> sorted_wrt (<) (map snd (vf_history f)) \<and> (\<forall>n \<in> set (map snd (vf_history f)). n < vf_version f)"

definition pc_inv :: "dependencies \<Rightarrow> PipelineContext \<Rightarrow> bool" where
  \<comment> \<open>the fields are those of the dependency table, each with a well-formed history\<close>
  "pc_inv deps ctx \<longleftrightarrow> distinct (map fst deps) \<and> pc_deps ctx = deps \<and> map fst (pc_fields ctx) = map fst deps
     \<and> (\<forall>name f. field ctx name = Some f \<longrightarrow> history_ok f)"

lemma propagate_stale_sel:
  "fst (propagate_stale ctx f) = filter (has_value (pc_fields ctx)) (bfs_order (pc_deps ctx) [f] [f])"
  "pc_fields (snd (propagate_stale ctx f)) = mark_all (bfs_order (pc_deps ctx) [f] [f]) (pc_fields ctx)"
  "pc_deps (snd (propagate_stale ctx f)) = pc_deps ctx"
  by (simp_all add: propagate_stale_def propagate_loop_order)

definition updated_field :: "VersionedField \<Rightarrow> int \<Rightarrow> pyval \<Rightarrow> VersionedField" where
  "updated_field f now value = f\<lparr>vf_value := value, vf_version := Suc (vf_version f), vf_stale := False,
     vf_updated_at := Some now,
     vf_history := (if vf_value f \<noteq> PyNone then vf_history f @ [(vf_value f, vf_version f)] else vf_history f)\<rparr>"

lemma set_conclusion_sel:
  assumes "field ctx name = Some f"
    and fs_def: "fs = dict_set name (updated_field f now value) (pc_fields ctx)"
  shows "fst (set_conclusion ctx now name value) =
       Inr (filter (has_value fs) (bfs_order (pc_deps ctx) [name] [name]))"
    and "pc_fields (snd (set_conclusion ctx now name value)) = mark_all (bfs_order (pc_deps ctx) [name] [name]) fs"
    and "pc_deps (snd (set_conclusion ctx now name value)) = pc_deps ctx"
proof -
  have f: "(if vf_value f \<noteq> PyNone then f\<lparr>vf_history := vf_history f @ [(vf_value f, vf_version f)]\<rparr> else f)
      \<lparr>vf_value := value, vf_version := vf_version f + 1, vf_stale := False, vf_updated_at := Some now\<rparr>
      = updated_field f now value"
    by (simp add: updated_field_def)
  let ?p = "propagate_stale (ctx\<lparr>pc_fields := fs\<rparr>) name"
  have "set_conclusion ctx now name value = (Inr (fst ?p), snd ?p)"
    using assms(1) f by (simp add: set_conclusion_def Let_def fs_def split: prod.splits)
  then show "fst (set_conclusion ctx now name value) =
       Inr (filter (has_value fs) (bfs_order (pc_deps ctx) [name] [name]))"
    and "pc_fields (snd (set_conclusion ctx now name value)) = mark_all (bfs_order (pc_deps ctx) [name] [name]) fs"
    and "pc_deps (snd (set_conclusion ctx now name value)) = pc_deps ctx"
    by (simp_all add: propagate_stale_sel)
qed

text \<open>
  C31: setting a field stores the value under the next version, keeps the replaced value in the history,
  and marks stale exactly the other fields that have a value and depend on it directly or through other
  fields; these are returned without repetition, and no other field changes.
\<close>

theorem set_conclusion_effect:
  assumes "field ctx name = Some f" and "set_conclusion ctx now name value = (r, ctx')"
  shows "\<exists>stale. r = Inr stale \<and> distinct stale
     \<and> set stale = {n. (name, n) \<in> (dependents (pc_deps ctx))\<^sup>+ \<and> n \<noteq> name \<and> has_value (pc_fields ctx) n}
     \<and> field ctx' name = Some (updated_field f now value)
     \<and> (\<forall>n. n \<noteq> name \<longrightarrow> field ctx' n =
          (if n \<in> set stale then map_option (\<lambda>g. g\<lparr>vf_stale := True\<rparr>) (field ctx n) else field ctx n))"
proof -
  let ?fs = "dict_set name (updated_field f now value) (pc_fields ctx)"
  let ?order = "bfs_order (pc_deps ctx) [name] [name]"
  note sel = set_conclusion_sel [OF assms(1) refl, of now "value", unfolded assms(2), simplified]
  have hv: "has_value ?fs n = has_value (pc_fields ctx) n" if "n \<noteq> name" for n
    using that by (simp add: has_value_def)
  have order: "set ?order = {n. (name, n) \<in> (dependents (pc_deps ctx))\<^sup>+ \<and> n \<noteq> name}"
    by (auto simp: bfs_from_one)
  have stale: "set (filter (has_value ?fs) ?order) =
      {n. (name, n) \<in> (dependents (pc_deps ctx))\<^sup>+ \<and> n \<noteq> name \<and> has_value (pc_fields ctx) n}"
    using hv by (auto simp: order)
  have "field ctx' name = Some (updated_field f now value)"
    by (simp add: sel(2) map_of_mark_all order)
  moreover have "field ctx' n = (if n \<in> set (filter (has_value ?fs) ?order)
      then map_option (\<lambda>g. g\<lparr>vf_stale := True\<rparr>) (field ctx n) else field ctx n)" if "n \<noteq> name" for n
    using that by (simp add: sel(2) map_of_mark_all)
  moreover have "distinct (filter (has_value ?fs) ?order)"
    using bfs_order_fresh by (intro distinct_filter) blast
  ultimately show ?thesis using sel(1) stale by blast
qed

definition selling_deps :: dependencies where
  "selling_deps = [(''intent'', []), (''plan'', [''intent'']), (''cost'', [''plan'']), (''deploy'', [''plan'', ''cost''])]"

theorem set_conclusion_effect_witness:
  "\<exists>stale. fst (set_conclusion (pc_init selling_deps) 7 ''intent'' (PyStr ''vpc'')) = Inr stale \<and> stale = []"
proof -
  have f: "field (pc_init selling_deps) ''intent'' = Some empty_field" by code_simp
  have empty: "\<not> has_value (pc_fields (pc_init selling_deps)) n" for n
    by (auto simp: has_value_def pc_init_def selling_deps_def empty_field_def)
  have "set_conclusion (pc_init selling_deps) 7 ''intent'' (PyStr ''vpc'') =
      (fst (set_conclusion (pc_init selling_deps) 7 ''intent'' (PyStr ''vpc'')),
       snd (set_conclusion (pc_init selling_deps) 7 ''intent'' (PyStr ''vpc'')))" by simp
  from set_conclusion_effect [OF f this] empty show ?thesis by auto
qed

text \<open>The operations of a run, a failing one leaving the context as it is.\<close>

datatype pc_op = SetConclusion int string pyval | MarkStale string | ClearStale string

fun pc_exec :: "pc_op \<Rightarrow> PipelineContext \<Rightarrow> PipelineContext" where
  "pc_exec (SetConclusion now name value) ctx = snd (set_conclusion ctx now name value)"
| "pc_exec (MarkStale name) ctx = snd (mark_stale ctx name)"
| "pc_exec (ClearStale name) ctx = snd (clear_stale ctx name)"

lemma history_ok_stale [simp]: "history_ok (f\<lparr>vf_stale := b\<rparr>) = history_ok f"
  by (simp add: history_ok_def)

lemma history_ok_updated: "history_ok f \<Longrightarrow> history_ok (updated_field f now v)"
  by (auto simp: history_ok_def updated_field_def sorted_wrt_append less_Suc_eq)

lemma history_ok_mark_all:
  "\<forall>n f. map_of flds n = Some f \<longrightarrow> history_ok f \<Longrightarrow> map_of (mark_all names flds) n = Some g \<Longrightarrow> history_ok g"
  by (auto simp: map_of_mark_all split: if_splits)

lemma set_conclusion_inv:
  assumes "pc_inv deps ctx"
  shows "pc_inv deps (snd (set_conclusion ctx now name v))"
proof (cases "field ctx name")
  case None
  then show ?thesis using assms by (simp add: set_conclusion_def)
next
  case (Some f)
  let ?fs = "dict_set name (updated_field f now v) (pc_fields ctx)"
  have "name \<in> set (map fst (pc_fields ctx))" using Some by (metis map_of_eq_None_iff option.distinct(1) list.set_map)
  then have "map fst ?fs = map fst (pc_fields ctx)" by (rule dict_set_keys_same)
  then have keys: "map fst ?fs = map fst deps" using assms by (simp add: pc_inv_def)
  have "\<forall>n g. map_of ?fs n = Some g \<longrightarrow> history_ok g"
    using assms Some by (auto simp: pc_inv_def history_ok_updated)
  then have "map_of (mark_all ns ?fs) n = Some g \<Longrightarrow> history_ok g" for ns n g
    by (rule history_ok_mark_all)
  moreover have "distinct (map fst deps)" "pc_deps ctx = deps" using assms by (simp_all add: pc_inv_def)
  ultimately show ?thesis
    unfolding pc_inv_def set_conclusion_sel [OF Some refl] keys_mark_all keys by blast
qed

lemma set_stale_inv:
  assumes "pc_inv deps ctx"
  shows "pc_inv deps (ctx\<lparr>pc_fields := set_stale name b (pc_fields ctx)\<rparr>)"
  using assms by (auto simp: pc_inv_def map_of_set_stale)

lemma pc_exec_inv:
  assumes "pc_inv deps ctx"
  shows "pc_inv deps (pc_exec op ctx)"
proof (cases op)
  case (SetConclusion now name v)
  then show ?thesis using assms by (simp add: set_conclusion_inv)
next
  case (MarkStale name)
  let ?c = "ctx\<lparr>pc_fields := set_stale name True (pc_fields ctx)\<rparr>"
  have c: "pc_inv deps ?c" using assms by (rule set_stale_inv)
  then have "pc_inv deps (snd (propagate_stale ?c name))"
    using propagate_stale_sel [of ?c name] by (auto simp: pc_inv_def dest: history_ok_mark_all)
  then show ?thesis using MarkStale assms by (auto simp: mark_stale_def split: prod.splits)
next
  case (ClearStale name)
  then show ?thesis using assms by (simp add: clear_stale_def set_stale_inv)
qed

lemma map_of_blank:
  "map_of (map (\<lambda>(name, _). (name, e)) d) n = (if n \<in> fst ` set d then Some e else None)"
  by (induction d) auto

lemma keys_blank: "map fst (map (\<lambda>(name, _). (name, e)) d) = map fst d"
  by (induction d) auto

lemma pc_init_inv:
  assumes "distinct (map fst deps)"
  shows "pc_inv deps (pc_init deps)"
proof -
  have "history_ok empty_field" by (simp add: history_ok_def empty_field_def)
  then show ?thesis
    using assms unfolding pc_inv_def pc_init_def by (simp add: map_of_blank keys_blank del: map_map)
qed

lemma pc_restore_save:
  assumes "pc_inv deps ctx"
  shows "context_from_snapshot (context_to_snapshot ctx) deps = ctx"
proof -
  define put where "put = (\<lambda>(name, d) flds :: (string \<times> VersionedField) list.
     if name \<in> fst ` set flds then dict_set name (field_of_snapshot d) flds else flds)"
  define snap where "snap = (\<lambda>(name :: string, f :: VersionedField). (name, \<lparr>fs_value = vf_value f, fs_version = vf_version f,
     fs_stale = vf_stale f, fs_updated_at = vf_updated_at f, fs_history = Some (vf_history f)\<rparr>))"
  have set_mid: "k \<notin> fst ` set pre \<Longrightarrow> dict_set k v (pre @ (k, e) # rest) = pre @ (k, v) # rest" for pre k v e rest
    by (induction pre) auto
  have "fold put (map snap cur) (pre @ map (\<lambda>(n, _). (n, empty_field)) cur) = pre @ cur"
    if "distinct (map fst (pre @ cur))" for pre cur
    using that
  proof (induction cur arbitrary: pre)
    case (Cons p cur)
    obtain n f where p: "p = (n, f)" by (cases p)
    have "put (snap p) (pre @ map (\<lambda>(n, _). (n, empty_field)) (p # cur)) =
        (pre @ [p]) @ map (\<lambda>(n, _). (n, empty_field)) cur"
      using Cons.prems by (simp add: put_def snap_def p field_of_snapshot_def set_mid)
    then show ?case using Cons.IH [of "pre @ [p]"] Cons.prems by simp
  qed simp
  from this [of "[]" "pc_fields ctx"] assms
  have "fold put (map snap (pc_fields ctx)) (map (\<lambda>(n, _). (n, empty_field)) (pc_fields ctx)) = pc_fields ctx"
    by (simp add: pc_inv_def)
  moreover have "map (\<lambda>(n, _). (n, empty_field)) (pc_fields ctx) = map (\<lambda>(n, _). (n, empty_field)) deps"
  proof -
    have "map (\<lambda>n. (n, empty_field)) (map fst (pc_fields ctx)) = map (\<lambda>n. (n, empty_field)) (map fst deps)"
      using assms by (simp only: pc_inv_def)
    then show ?thesis by (simp add: comp_def split_def)
  qed
  ultimately show ?thesis
    using assms by (simp add: context_from_snapshot_def context_to_snapshot_def pc_init_def pc_inv_def put_def snap_def)
qed

interpretation pc_run: resumable "pc_inv deps" pc_exec context_to_snapshot "\<lambda>ss. context_from_snapshot ss deps" for deps
  by unfold_locales (simp_all add: pc_restore_save pc_exec_inv)

text \<open>
  The context of a pipeline survives a save and a restore at every point of a run, and every reachable
  context has exactly the fields of the dependency table, each with a history of strictly increasing
  versions below its current one.
\<close>

theorem context_resume:
  assumes "distinct (map fst deps)"
  shows "context_from_snapshot (context_to_snapshot (fold pc_exec xs (pc_init deps))) deps = fold pc_exec xs (pc_init deps)
     \<and> pc_inv deps (fold pc_exec xs (pc_init deps))
     \<and> fold pc_exec (xs @ ys) (pc_init deps)
       = fold pc_exec ys (context_from_snapshot (context_to_snapshot (fold pc_exec xs (pc_init deps))) deps)"
  using pc_run.run_valid [OF pc_init_inv [OF assms]] pc_run.resume_anywhere [OF pc_init_inv [OF assms]]
  by (simp add: pc_restore_save)

theorem context_resume_witness:
  "pc_inv selling_deps (fold pc_exec [SetConclusion 1 ''intent'' (PyStr ''vpc''), SetConclusion 2 ''plan'' (PyInt 3),
     SetConclusion 3 ''intent'' (PyStr ''oss'')] (pc_init selling_deps))"
proof -
  have "distinct (map fst selling_deps)" by code_simp
  from context_resume [OF this] show ?thesis by blast
qed

end
