(* ===== verification/Tool_Executor.thy ===== *)
theory Tool_Executor
  imports Perm_Types "HOL-Library.Multiset"
begin

text \<open>
  \<^verbatim>\<open>src/src/iac_code/tools/tool_executor.py\<close>, the \<^verbatim>\<open>ToolRegistry\<close> and \<^verbatim>\<open>ToolResult\<close> of
  \<^verbatim>\<open>tools/base.py\<close>. What a tool does is an argument: its execution maps the state of the world to an
  outcome (a result, a timeout or an exception) and a new state. The calls of a concurrent batch compete
  for the semaphore of \<^verbatim>\<open>_execute_concurrent\<close>: a schedule is a sequence of acquire and release events, the
  effect and the result of a call falling at its release; results are gathered in the order of the
  calls. Telemetry and the context modifier a result may carry are not modelled.
\<close>

section \<open>Results, tools and the registry\<close>

record ToolResult =
  res_content :: string
  res_is_error :: bool
  res_new_messages :: "pydict list"
  res_metadata :: "pydict option"

definition result_error :: "string \<Rightarrow> ToolResult" where
  \<comment> \<open>\<^verbatim>\<open>ToolResult.error(message)\<close>\<close>
  "result_error message = \<lparr>res_content = message, res_is_error = True, res_new_messages = [], res_metadata = None\<rparr>"

datatype 'p outcome = Returned ToolResult | TimedOut "'p option" | Raised string "'p option"
  \<comment> \<open>a failed execution carries the preflight outcome the tool left in its context\<close>

record ('w, 'p) ExecTool =
  et_name :: string
  et_is_concurrency_safe :: "pydict \<Rightarrow> bool"
  et_requires_runtime_execution_class :: bool
  et_validate_input :: "pydict \<Rightarrow> bool \<times> string"
  et_validation_error_result :: "pydict \<Rightarrow> ToolResult option"
  et_execution_timeout :: "pydict \<Rightarrow> string option" \<comment> \<open>a duration is the decimal text of its seconds\<close>
  et_has_unbounded_execution_wait :: "pydict \<Rightarrow> bool"
  et_timeout_error_result :: "pydict \<Rightarrow> string \<Rightarrow> ToolResult option"
  et_execute :: "pydict \<Rightarrow> string option \<Rightarrow> 'w \<Rightarrow> 'p outcome \<times> 'w"

type_synonym ('w, 'p) ToolRegistry = "(string \<times> ('w, 'p) ExecTool) list"

definition registry_register :: "('w, 'p) ExecTool \<Rightarrow> ('w, 'p) ToolRegistry \<Rightarrow> ('w, 'p) ToolRegistry" where
  "registry_register tool reg = dict_set (et_name tool) tool reg"

definition registry_unregister :: "string \<Rightarrow> ('w, 'p) ToolRegistry \<Rightarrow> ('w, 'p) ToolRegistry" where
  "registry_unregister name reg = dict_del name reg"

definition registry_get :: "('w, 'p) ToolRegistry \<Rightarrow> string \<Rightarrow> ('w, 'p) ExecTool option" where
  "registry_get reg name = map_of reg name"

definition registry_list_tools :: "('w, 'p) ToolRegistry \<Rightarrow> ('w, 'p) ExecTool list" where
  "registry_list_tools reg = map snd reg"

definition registry_clone :: "('w, 'p) ToolRegistry \<Rightarrow> ('w, 'p) ToolRegistry" where
  "registry_clone reg = fold registry_register (registry_list_tools reg) []"

definition registry_filter :: "string list \<Rightarrow> ('w, 'p) ToolRegistry \<Rightarrow> ('w, 'p) ToolRegistry" where
  "registry_filter allowed_names reg =
     fold (\<lambda>name new_reg. case registry_get reg name of
       None \<Rightarrow> new_reg | Some tool \<Rightarrow> registry_register tool new_reg) allowed_names []"

definition registry_exclude :: "string list \<Rightarrow> ('w, 'p) ToolRegistry \<Rightarrow> ('w, 'p) ToolRegistry" where
  "registry_exclude names reg =
     fold (\<lambda>(name, tool) new_reg. if name \<notin> set names then registry_register tool new_reg else new_reg) reg []"

section \<open>One call\<close>

record ToolCallRequest =
  tc_id :: string
  tc_name :: string
  tc_input :: pydict
  tc_execution_class :: "ExecutionClass option"

definition is_concurrent :: "('w, 'p) ToolRegistry \<Rightarrow> ToolCallRequest \<Rightarrow> bool" where
  "is_concurrent reg call =
     (case registry_get reg (tc_name call) of
        None \<Rightarrow> False
      | Some tool \<Rightarrow>
          if et_requires_runtime_execution_class tool then tc_execution_class call = Some Concurrent
          else et_is_concurrency_safe tool (tc_input call))"

definition partition_calls :: "('w, 'p) ToolRegistry \<Rightarrow> ToolCallRequest list \<Rightarrow> ToolCallRequest list \<times> ToolCallRequest list" where
  "partition_calls reg calls = (filter (is_concurrent reg) calls, filter (\<lambda>c. \<not> is_concurrent reg c) calls)"

definition quoted :: "string \<Rightarrow> string" where
  "quoted s = [CHR 0x27] @ s @ [CHR 0x27]"

definition attach_ros_preflight :: "(ToolResult \<Rightarrow> 'p \<Rightarrow> ToolResult) \<Rightarrow> ToolResult \<Rightarrow> 'p option \<Rightarrow> ToolResult" where
  "attach_ros_preflight attach r outc = (case outc of None \<Rightarrow> r | Some p \<Rightarrow> attach r p)"

definition call_timeout :: "string \<Rightarrow> ('w, 'p) ExecTool \<Rightarrow> pydict \<Rightarrow> string option" where
  "call_timeout tool_timeout tool tool_input =
     (case et_execution_timeout tool tool_input of
        Some t \<Rightarrow> Some t
      | None \<Rightarrow> if et_has_unbounded_execution_wait tool tool_input then None else Some tool_timeout)"

definition validate_and_execute ::
  "(ToolResult \<Rightarrow> 'p \<Rightarrow> ToolResult) \<Rightarrow> string \<Rightarrow> ('w, 'p) ToolRegistry \<Rightarrow> ToolCallRequest \<Rightarrow> 'w \<Rightarrow> ToolResult \<times> 'w" where
  "validate_and_execute attach tool_timeout reg call w =
     (case registry_get reg (tc_name call) of
        None \<Rightarrow> (result_error (''Unknown tool: '' @ tc_name call), w)
      | Some tool \<Rightarrow>
          (case et_validate_input tool (tc_input call) of
             (False, err) \<Rightarrow>
               (case et_validation_error_result tool (tc_input call) of
                  Some r \<Rightarrow> (r, w)
                | None \<Rightarrow> (result_error (''Invalid input for tool '' @ quoted (tc_name call) @ '': '' @ err
                    @ ''. Please provide all required parameters as defined in the tool schema.''), w))
           | (True, _) \<Rightarrow>
               let timeout = call_timeout tool_timeout tool (tc_input call);
                   timeout_seconds = (case timeout of Some t \<Rightarrow> t | None \<Rightarrow> tool_timeout) in
               (case et_execute tool (tc_input call) timeout w of
                  (Returned r, w') \<Rightarrow> (r, w')
                | (TimedOut p, w') \<Rightarrow>
                    (attach_ros_preflight attach
                       (case et_timeout_error_result tool (tc_input call) timeout_seconds of
                          Some r \<Rightarrow> r
                        | None \<Rightarrow> result_error (''Tool '' @ quoted (tc_name call) @ '' timed out after ''
                            @ timeout_seconds @ ''s'')) p, w')
                | (Raised e p, w') \<Rightarrow>
                    (attach_ros_preflight attach
                       (result_error (''Tool '' @ quoted (tc_name call) @ '' failed: '' @ e)) p, w'))))"

section \<open>Batches\<close>

datatype conc_event = Acquire nat | Release nat
  \<comment> \<open>the task of the \<open>i\<close>-th call of a batch enters and leaves \<^verbatim>\<open>async with sem\<close>\<close>

type_synonym scheduler = "ToolCallRequest list \<Rightarrow> conc_event list"

fun sem_admits :: "nat \<Rightarrow> nat \<Rightarrow> conc_event list \<Rightarrow> nat list \<Rightarrow> nat list \<Rightarrow> bool" where
  \<comment> \<open>the events are possible under \<^verbatim>\<open>Semaphore(max_concurrency)\<close> and run all of the \<open>n\<close> tasks to their end\<close>
  "sem_admits max_concurrency n [] started running \<longleftrightarrow> running = [] \<and> list_all (\<lambda>i. i \<in> set started) [0..<n]"
| "sem_admits max_concurrency n (Acquire i # es) started running \<longleftrightarrow>
     i < n \<and> i \<notin> set started \<and> length running < max_concurrency
     \<and> sem_admits max_concurrency n es (i # started) (i # running)"
| "sem_admits max_concurrency n (Release i # es) started running \<longleftrightarrow>
     i \<in> set running \<and> sem_admits max_concurrency n es started (remove1 i running)"

fun run_tasks :: "(ToolCallRequest \<Rightarrow> 'w \<Rightarrow> ToolResult \<times> 'w) \<Rightarrow> ToolCallRequest list \<Rightarrow> conc_event list \<Rightarrow> 'w
    \<Rightarrow> (nat \<times> ToolResult) list \<times> 'w" where
  "run_tasks run calls [] w = ([], w)"
| "run_tasks run calls (Acquire i # es) w = run_tasks run calls es w"
| "run_tasks run calls (Release i # es) w =
     (let (r, w1) = run (calls ! i) w; (rs, w2) = run_tasks run calls es w1 in ((i, r) # rs, w2))"

definition execute_concurrent :: "(ToolCallRequest \<Rightarrow> 'w \<Rightarrow> ToolResult \<times> 'w) \<Rightarrow> scheduler
    \<Rightarrow> ToolCallRequest list \<Rightarrow> 'w \<Rightarrow> (string \<times> ToolResult) list \<times> 'w" where
  \<comment> \<open>\<^verbatim>\<open>gather\<close> returns the results in call order\<close>
  "execute_concurrent run sched calls w =
     (if calls = [] then ([], w)
      else
        let (rs, w') = run_tasks run calls (sched calls) w in
        (map (\<lambda>i. (tc_id (calls ! i), the (map_of rs i))) [0..<length calls], w'))"

fun execute_serial :: "(ToolCallRequest \<Rightarrow> 'w \<Rightarrow> ToolResult \<times> 'w) \<Rightarrow> ToolCallRequest list \<Rightarrow> 'w
    \<Rightarrow> (string \<times> ToolResult) list \<times> 'w" where
  "execute_serial run [] w = ([], w)"
| "execute_serial run (call # calls) w =
     (let (r, w1) = run call w; (rs, w2) = execute_serial run calls w1 in ((tc_id call, r) # rs, w2))"

definition store_results :: "(string \<times> ToolResult) list \<Rightarrow> (string \<times> ToolResult) list \<Rightarrow> (string \<times> ToolResult) list" where
  "store_results results result_map = fold (\<lambda>(call_id, r). dict_set call_id r) results result_map"

fun batch_loop :: "(ToolCallRequest \<Rightarrow> bool) \<Rightarrow> (ToolCallRequest \<Rightarrow> 'w \<Rightarrow> ToolResult \<times> 'w) \<Rightarrow> scheduler
    \<Rightarrow> ToolCallRequest list \<Rightarrow> ToolCallRequest list \<Rightarrow> (string \<times> ToolResult) list \<Rightarrow> 'w
    \<Rightarrow> (string \<times> ToolResult) list \<times> 'w" where
  \<comment> \<open>the loop of \<^verbatim>\<open>execute_batch\<close> with the pending concurrent batch, and the flush after it\<close>
  "batch_loop conc run sched [] batch result_map w =
     (let (rs, w') = execute_concurrent run sched batch w in (store_results rs result_map, w'))"
| "batch_loop conc run sched (call # calls) batch result_map w =
     (if conc call then batch_loop conc run sched calls (batch @ [call]) result_map w
      else
        let (rs, w1) = execute_concurrent run sched batch w;
            (r, w2) = run call w1
        in batch_loop conc run sched calls [] (dict_set (tc_id call) r (store_results rs result_map)) w2)"

definition execute_batch :: "(ToolResult \<Rightarrow> 'p \<Rightarrow> ToolResult) \<Rightarrow> string \<Rightarrow> ('w, 'p) ToolRegistry \<Rightarrow> scheduler
    \<Rightarrow> ToolCallRequest list \<Rightarrow> 'w \<Rightarrow> (py_error + ToolResult list) \<times> 'w" where
  "execute_batch attach tool_timeout reg sched calls w =
     (let (result_map, w') = batch_loop (is_concurrent reg) (validate_and_execute attach tool_timeout reg) sched calls [] [] w
      in (if list_all (\<lambda>c. map_of result_map (tc_id c) \<noteq> None) calls
          then Inr (map (\<lambda>c. the (map_of result_map (tc_id c))) calls)
          else Inl (KeyError []), w'))"

section \<open>The registry as a finite map\<close>

text \<open>What a client of a registry relies on.\<close>

locale tool_registry =
  fixes empty :: 'reg and put :: "'t \<Rightarrow> 'reg \<Rightarrow> 'reg" and del :: "string \<Rightarrow> 'reg \<Rightarrow> 'reg"
    and get :: "'reg \<Rightarrow> string \<Rightarrow> 't option" and key :: "'t \<Rightarrow> string" and wf_reg :: "'reg \<Rightarrow> bool"
  assumes wf_empty: "wf_reg empty" and wf_put: "wf_reg r \<Longrightarrow> wf_reg (put t r)" and wf_del: "wf_reg r \<Longrightarrow> wf_reg (del n r)"
    and get_empty: "get empty n = None"
    and get_put: "get (put t r) n = (if n = key t then Some t else get r n)"
    and get_del: "wf_reg r \<Longrightarrow> get (del m r) n = (if n = m then None else get r n)"
    and get_key: "wf_reg r \<Longrightarrow> get r n = Some t \<Longrightarrow> key t = n"
begin

lemma get_put_selected:
  assumes "wf_reg r"
  shows "get (fold (\<lambda>n acc. case get r n of None \<Rightarrow> acc | Some t \<Rightarrow> put t acc) ns acc) n
     = (if n \<in> set ns \<and> get r n \<noteq> None then get r n else get acc n)"
proof (induction ns arbitrary: acc)
  case (Cons m ns)
  then show ?case using get_key [OF assms, of m] by (auto simp: get_put split: option.splits)
qed simp

lemma get_put_items:
  "\<forall>(m, t) \<in> set items. key t = m \<Longrightarrow> distinct (map fst items) \<Longrightarrow>
   get (fold (\<lambda>(m, t) acc. if P m then put t acc else acc) items acc) n
     = (case map_of items n of Some t \<Rightarrow> if P n then Some t else get acc n | None \<Rightarrow> get acc n)"
proof (induction items arbitrary: acc)
  case (Cons i items)
  obtain m t where i: "i = (m, t)" by fastforce
  have "map_of items m = None" using Cons.prems i by (auto simp: map_of_eq_None_iff)
  then show ?case using Cons i by (auto simp: get_put split: option.splits)
qed simp

end

definition wf_registry :: "('w, 'p) ToolRegistry \<Rightarrow> bool" where
  "wf_registry reg \<longleftrightarrow> distinct (map fst reg) \<and> (\<forall>(n, t) \<in> set reg. et_name t = n)"

interpretation reg: tool_registry "[]" registry_register registry_unregister registry_get et_name wf_registry
proof
  show "wf_registry []" by (simp add: wf_registry_def)
next
  fix r :: "('a, 'b) ToolRegistry" and t
  assume "wf_registry r"
  then show "wf_registry (registry_register t r)"
    by (auto simp: wf_registry_def registry_register_def distinct_dict_set dest: dict_set_in)
next
  fix r :: "('a, 'b) ToolRegistry" and n
  have "set (dict_del n d) \<subseteq> set d" for d :: "('a, 'b) ToolRegistry"
    by (induction d) (auto split: if_splits)
  then have "set (dict_del n r) \<subseteq> set r" .
  moreover assume "wf_registry r"
  ultimately show "wf_registry (registry_unregister n r)"
    by (simp add: wf_registry_def registry_unregister_def distinct_dict_del) blast
next
  show "registry_get [] n = None" for n by (simp add: registry_get_def)
next
  show "registry_get (registry_register t r) n = (if n = et_name t then Some t else registry_get r n)" for t r n
    by (simp add: registry_get_def registry_register_def)
next
  show "registry_get (registry_unregister m r) n = (if n = m then None else registry_get r n)"
    if "wf_registry r" for m r n
    using that by (simp add: registry_get_def registry_unregister_def map_of_dict_del wf_registry_def)
next
  show "et_name t = n" if "wf_registry r" "registry_get r n = Some t" for r n t
    using that by (auto simp: registry_get_def wf_registry_def dest: map_of_SomeD)
qed

lemma fold_snd: "fold f (map snd items) acc = fold (\<lambda>(m, t) acc. if True then f t acc else acc) items acc"
  by (induction items arbitrary: acc) auto

text \<open>
  The copies a pipeline step builds of a registry: \<^verbatim>\<open>clone\<close> finds what the registry finds, \<^verbatim>\<open>filter\<close> finds
  exactly the registered tools among the allowed names, and \<^verbatim>\<open>exclude\<close> exactly those that are not named.
\<close>

theorem registry_views:
  assumes "wf_registry reg"
  shows "registry_get (registry_clone reg) n = registry_get reg n
    \<and> registry_get (registry_filter names reg) n = (if n \<in> set names then registry_get reg n else None)
    \<and> registry_get (registry_exclude names reg) n = (if n \<in> set names then None else registry_get reg n)"
proof -
  have items: "\<forall>(m, t) \<in> set reg. et_name t = m" "distinct (map fst reg)"
    using assms by (simp_all add: wf_registry_def)
  have "registry_get (registry_clone reg) n = registry_get reg n"
    using reg.get_put_items [OF items, of "\<lambda>_. True" "[]" n]
    by (simp add: registry_clone_def registry_list_tools_def fold_snd registry_get_def split: option.splits)
  moreover have "registry_get (registry_filter names reg) n = (if n \<in> set names then registry_get reg n else None)"
    by (simp add: registry_filter_def reg.get_put_selected [OF assms] reg.get_empty)
  moreover have "registry_get (registry_exclude names reg) n = (if n \<in> set names then None else registry_get reg n)"
    using reg.get_put_items [OF items, of "\<lambda>m. m \<notin> set names" "[]" n]
    by (simp add: registry_exclude_def registry_get_def split: option.splits)
  ultimately show ?thesis by blast
qed

section \<open>A batch behaves as its calls one after the other\<close>

definition fair :: "nat \<Rightarrow> scheduler \<Rightarrow> bool" where
  \<comment> \<open>a scheduler respects the semaphore and lets every task of a batch finish\<close>
  "fair max_concurrency sched \<longleftrightarrow> (\<forall>calls. sem_admits max_concurrency (length calls) (sched calls) [] [])"

fun releases :: "conc_event list \<Rightarrow> nat list" where
  "releases [] = []"
| "releases (Acquire i # es) = releases es"
| "releases (Release i # es) = i # releases es"

lemma upt_filter_remove:
  "i < n \<Longrightarrow> i \<notin> S \<Longrightarrow> mset (filter (\<lambda>j. j \<notin> S) [0..<n]) = add_mset i (mset (filter (\<lambda>j. j \<notin> insert i S) [0..<n]))"
proof (induction n)
  case (Suc n)
  then show ?case by (cases "i = n") (auto intro!: arg_cong [where f = mset] filter_cong)
qed simp

lemma sem_admits_releases:
  "sem_admits k n es started running \<Longrightarrow>
     mset (releases es) = mset running + mset (filter (\<lambda>i. i \<notin> set started) [0..<n])"
proof (induction es arbitrary: started running)
  case Nil
  then show ?case by (auto simp: list_all_iff filter_empty_conv)
next
  case (Cons e es)
  show ?case
  proof (cases e)
    case (Acquire i)
    then have "mset (releases es) = add_mset i (mset running) + mset (filter (\<lambda>j. j \<notin> insert i (set started)) [0..<n])"
      using Cons.IH [of "i # started" "i # running"] Cons.prems by (simp del: mset_filter)
    then show ?thesis
      using upt_filter_remove [of i n "set started"] Cons.prems Acquire by (simp del: mset_filter)
  next
    case (Release i)
    then show ?thesis using Cons.IH [of started "remove1 i running"] Cons.prems by simp
  qed
qed

lemma sem_admits_releases_first:
  "sem_admits k n (map Release running @ es) started running \<longleftrightarrow> sem_admits k n es started []"
  by (induction running) simp_all

lemma sem_admits_rest:
  assumes "0 < k" and "distinct is" and "set is \<inter> set started = {}" and "set is \<union> set started = {0..<n}"
  shows "sem_admits k n (concat (map (\<lambda>i. [Acquire i, Release i]) is)) started []"
  using assms(2-)
proof (induction "is" arbitrary: started)
  case Nil
  then show ?case by (simp add: list_all_iff)
next
  case (Cons i "is")
  have "i < n" using Cons.prems(3) by auto
  moreover have "sem_admits k n (concat (map (\<lambda>i. [Acquire i, Release i]) is)) (i # started) []"
    by (rule Cons.IH) (use Cons.prems in auto)
  ultimately show ?case using Cons.prems assms(1) by simp
qed

lemma fair_releases: "fair k sched \<Longrightarrow> mset (releases (sched calls)) = mset [0..<length calls]"
  using sem_admits_releases [of k "length calls" "sched calls" "[]" "[]"] by (simp add: fair_def)

lemma fair_set: "fair k sched \<Longrightarrow> set (releases (sched calls)) = {0..<length calls}"
  using mset_eq_setD [OF fair_releases [of k sched calls]] by simp

lemma run_tasks_fst: "map fst (fst (run_tasks run calls es w)) = releases es"
  by (induction es arbitrary: w rule: releases.induct) (simp_all add: Let_def split_beta)

lemma run_tasks_readonly:
  assumes "\<forall>i \<in> set (releases es). snd (run (calls ! i) w) = w"
  shows "run_tasks run calls es w = (map (\<lambda>i. (i, fst (run (calls ! i) w))) (releases es), w)"
  using assms by (induction es rule: releases.induct) (simp_all add: Let_def split_beta)

lemma execute_serial_readonly:
  assumes "\<forall>c \<in> set calls. snd (run c w) = w"
  shows "execute_serial run calls w = (map (\<lambda>c. (tc_id c, fst (run c w))) calls, w)"
  using assms by (induction calls) (simp_all add: Let_def split_beta)

lemma map_of_tabulate: "i \<in> set is \<Longrightarrow> map_of (map (\<lambda>i. (i, f i)) is) i = Some (f i)"
  by (induction "is") auto

lemma execute_concurrent_readonly:
  assumes "fair k sched" and "\<forall>c \<in> set calls. snd (run c w) = w"
  shows "execute_concurrent run sched calls w = execute_serial run calls w"
proof (cases "calls = []")
  case False
  let ?rs = "map (\<lambda>i. (i, fst (run (calls ! i) w))) (releases (sched calls))"
  have "\<forall>i \<in> set (releases (sched calls)). snd (run (calls ! i) w) = w"
    using assms fair_set [OF assms(1)] by auto
  then have tasks: "run_tasks run calls (sched calls) w = (?rs, w)" by (rule run_tasks_readonly)
  have "map (\<lambda>i. (tc_id (calls ! i), the (map_of ?rs i))) [0..<length calls]
      = map (\<lambda>i. (tc_id (calls ! i), fst (run (calls ! i) w))) [0..<length calls]"
    using fair_set [OF assms(1)] by (intro map_cong refl) (simp add: map_of_tabulate)
  also have "\<dots> = map (\<lambda>c. (tc_id c, fst (run c w))) calls"
    by (rule nth_equalityI) simp_all
  finally show ?thesis
    using False assms(2) by (simp add: execute_concurrent_def tasks execute_serial_readonly)
qed (simp add: execute_concurrent_def)

lemma execute_serial_append:
  "execute_serial run (xs @ ys) w =
     (let (rs, w1) = execute_serial run xs w; (rs', w2) = execute_serial run ys w1 in (rs @ rs', w2))"
  by (induction xs arbitrary: w) (simp_all add: Let_def split: prod.splits)

fun batch_results :: "(ToolCallRequest \<Rightarrow> bool) \<Rightarrow> (ToolCallRequest \<Rightarrow> 'w \<Rightarrow> ToolResult \<times> 'w) \<Rightarrow> scheduler
    \<Rightarrow> ToolCallRequest list \<Rightarrow> ToolCallRequest list \<Rightarrow> 'w \<Rightarrow> (string \<times> ToolResult) list \<times> 'w" where
  \<comment> \<open>the loop with the stored results as a list in call order instead of a dict\<close>
  "batch_results conc run sched [] batch w = execute_concurrent run sched batch w"
| "batch_results conc run sched (call # calls) batch w =
     (if conc call then batch_results conc run sched calls (batch @ [call]) w
      else
        let (rs, w1) = execute_concurrent run sched batch w;
            (r, w2) = run call w1;
            (rs', w3) = batch_results conc run sched calls [] w2
        in (rs @ (tc_id call, r) # rs', w3))"

lemma batch_loop_results:
  "batch_loop conc run sched calls batch m w =
     (let (rs, w') = batch_results conc run sched calls batch w in (store_results rs m, w'))"
  by (induction calls arbitrary: batch m w) (simp_all add: Let_def split_beta store_results_def)

lemma execute_concurrent_ids: "map fst (fst (execute_concurrent run sched calls w)) = map tc_id calls"
  by (auto simp: execute_concurrent_def Let_def split_beta intro: nth_equalityI)

lemma batch_results_ids: "map fst (fst (batch_results conc run sched calls batch w)) = map tc_id (batch @ calls)"
  by (induction calls arbitrary: batch w) (simp_all add: Let_def split_beta execute_concurrent_ids)

lemma batch_results_barrier:
  assumes "\<not> conc c"
  shows "batch_results conc run sched (xs @ c # ys) batch w =
     (let (rs, w1) = batch_results conc run sched xs batch w; (r, w2) = run c w1;
          (rs', w3) = batch_results conc run sched ys [] w2
      in (rs @ (tc_id c, r) # rs', w3))"
  by (induction xs arbitrary: batch w) (simp_all add: assms Let_def split_beta)

lemma batch_results_serial:
  assumes "fair k sched" and ro: "\<And>c w. conc c \<Longrightarrow> snd (run c w) = w"
  shows "\<forall>c \<in> set batch. conc c \<Longrightarrow> batch_results conc run sched calls batch w = execute_serial run (batch @ calls) w"
proof (induction calls arbitrary: batch w)
  case Nil
  then show ?case using execute_concurrent_readonly [OF assms(1), of batch run w] ro by simp
next
  case (Cons call calls)
  have conc: "execute_concurrent run sched batch w = execute_serial run batch w"
    using execute_concurrent_readonly [OF assms(1), of batch run w] ro Cons.prems by simp
  show ?case
    using Cons.IH [of "batch @ [call]"] Cons.IH [of "[]"] Cons.prems
    by (simp add: conc execute_serial_append Let_def split_beta)
qed

lemma map_of_store_results:
  "distinct (map fst rs) \<Longrightarrow> map_of (store_results rs m) k = (case map_of rs k of Some r \<Rightarrow> Some r | None \<Rightarrow> map_of m k)"
proof (induction rs arbitrary: m)
  case (Cons p rs)
  obtain a b where p: "p = (a, b)" by (cases p)
  have "map_of rs a = None" using Cons.prems p by (simp add: map_of_eq_None_iff)
  then show ?case using Cons p by (auto simp: store_results_def split: option.splits)
qed (simp add: store_results_def)

lemma lookup_all: "distinct (map fst rs) \<Longrightarrow> map (\<lambda>k. the (map_of rs k)) (map fst rs) = map snd rs"
  by (induction rs) (auto intro!: map_cong simp: rev_image_eqI split: if_splits)

lemma execute_batch_results:
  assumes "distinct (map tc_id calls)"
  shows "execute_batch attach tool_timeout reg sched calls w =
     (let (rs, w') = batch_results (is_concurrent reg) (validate_and_execute attach tool_timeout reg) sched calls [] w
      in (Inr (map snd rs), w'))"
proof -
  obtain rs w' where run: "batch_results (is_concurrent reg) (validate_and_execute attach tool_timeout reg) sched calls [] w = (rs, w')"
    by fastforce
  have ids: "map fst rs = map tc_id calls"
    using batch_results_ids [of "is_concurrent reg" "validate_and_execute attach tool_timeout reg" sched calls "[]" w] run by simp
  have look: "map_of (store_results rs []) k = map_of rs k" for k
    using map_of_store_results [of rs "[]" k] assms ids by (simp split: option.splits)
  have "map (\<lambda>c. the (map_of rs (tc_id c))) calls = map (\<lambda>k. the (map_of rs k)) (map tc_id calls)" by simp
  also have "\<dots> = map snd rs" using lookup_all [of rs] assms ids by metis
  finally have "map (\<lambda>c. the (map_of rs (tc_id c))) calls = map snd rs" .
  moreover have "\<forall>k \<in> set (map tc_id calls). map_of rs k \<noteq> None"
    unfolding ids [symmetric] by (simp add: map_of_eq_None_iff)
  ultimately show ?thesis by (simp add: execute_batch_def batch_loop_results run look list_all_iff)
qed

lemma validate_and_execute_readonly:
  assumes "wf_registry reg" and "\<forall>t \<in> set (registry_list_tools reg). \<forall>i. et_is_concurrency_safe t i
      \<or> et_requires_runtime_execution_class t \<longrightarrow> (\<forall>limit w. snd (et_execute t i limit w) = w)"
    and "is_concurrent reg c"
  shows "snd (validate_and_execute attach tool_timeout reg c w) = w"
proof -
  from assms(3) obtain t where t: "registry_get reg (tc_name c) = Some t"
    and safe: "et_requires_runtime_execution_class t \<or> et_is_concurrency_safe t (tc_input c)"
    by (auto simp: is_concurrent_def split: option.splits if_splits)
  then have "t \<in> set (registry_list_tools reg)"
    by (force simp: registry_get_def registry_list_tools_def dest: map_of_SomeD)
  with assms(2) safe have "snd (et_execute t (tc_input c) (call_timeout tool_timeout t (tc_input c)) w) = w" by blast
  then obtain out where out: "et_execute t (tc_input c) (call_timeout tool_timeout t (tc_input c)) w = (out, w)"
    by (metis prod.collapse)
  show ?thesis
    by (cases out) (auto simp: validate_and_execute_def t out Let_def split: prod.splits bool.splits option.splits)
qed

definition plain_tool :: "string \<Rightarrow> bool \<Rightarrow> (pydict \<Rightarrow> string option \<Rightarrow> nat \<Rightarrow> unit outcome \<times> nat) \<Rightarrow> (nat, unit) ExecTool" where
  "plain_tool name safe exec = \<lparr>et_name = name, et_is_concurrency_safe = (\<lambda>_. safe),
     et_requires_runtime_execution_class = False, et_validate_input = (\<lambda>_. (True, [])),
     et_validation_error_result = (\<lambda>_. None), et_execution_timeout = (\<lambda>_. None),
     et_has_unbounded_execution_wait = (\<lambda>_. False), et_timeout_error_result = (\<lambda>_ _. None), et_execute = exec\<rparr>"

definition counter_tools :: "(nat, unit) ToolRegistry" where
  \<comment> \<open>a tool that reads a counter and one that increments it and then fails\<close>
  "counter_tools = fold registry_register
     [plain_tool ''read'' True (\<lambda>_ _ w. (Returned \<lparr>res_content = nat_str w, res_is_error = False,
        res_new_messages = [], res_metadata = None\<rparr>, w)),
      plain_tool ''incr'' False (\<lambda>_ _ w. (Raised ''full'' None, Suc w))] []"

definition counter_calls :: "ToolCallRequest list" where
  "counter_calls = map (\<lambda>(i, n). \<lparr>tc_id = i, tc_name = n, tc_input = [], tc_execution_class = None\<rparr>)
     [(''t1'', ''read''), (''t2'', ''read''), (''t3'', ''incr''), (''t4'', ''read'')]"

definition last_first :: scheduler where
  "last_first calls = concat (map (\<lambda>i. [Acquire i, Release i]) (rev [0..<length calls]))"

lemma fair_last_first: "fair 10 last_first"
  unfolding fair_def last_first_def by (intro allI sem_admits_rest) auto

lemmas counter_eval = counter_tools_def counter_calls_def plain_tool_def registry_register_def registry_get_def
  registry_list_tools_def is_concurrent_def validate_and_execute_def attach_ros_preflight_def

theorem registry_views_witness:
  "wf_registry counter_tools
    \<and> map_option et_name (registry_get (registry_filter [''read'', ''bash''] counter_tools) ''read'') = Some ''read''
    \<and> registry_get (registry_exclude [''read''] counter_tools) ''read'' = None"
proof -
  have wf: "wf_registry counter_tools" by (simp add: counter_eval wf_registry_def)
  show ?thesis
    using wf registry_views [OF wf, of "''read''" "[''read'', ''bash'']"] registry_views [OF wf, of "''read''" "[''read'']"]
    by simp (simp add: counter_eval)
qed

text \<open>
  C34: running a batch gives the same results and the same final state as running its calls one after the
  other in the order requested, however the scheduler orders the concurrent calls, provided the tools that
  may run concurrently do not change the state; the results come back in the order of the calls.
\<close>

theorem execute_batch_sequential:
  assumes "fair k sched" and "wf_registry reg"
    and "\<forall>t \<in> set (registry_list_tools reg). \<forall>i. et_is_concurrency_safe t i
      \<or> et_requires_runtime_execution_class t \<longrightarrow> (\<forall>limit w. snd (et_execute t i limit w) = w)"
    and "distinct (map tc_id calls)"
  shows "execute_batch attach tool_timeout reg sched calls w =
     (let (rs, w') = execute_serial (validate_and_execute attach tool_timeout reg) calls w in (Inr (map snd rs), w'))"
  using batch_results_serial [OF assms(1) validate_and_execute_readonly [OF assms(2,3)],
      where batch = "[]" and calls = calls and w = w]
  by (simp add: execute_batch_results [OF assms(4)])

theorem execute_batch_sequential_witness:
  "fair 10 last_first \<and> (case execute_batch (\<lambda>r _. r) ''120.0'' counter_tools last_first counter_calls 7 of (Inr rs, w) \<Rightarrow>
     map res_content rs = [nat_str 7, nat_str 7, ''Tool '' @ quoted ''incr'' @ '' failed: full'', nat_str 8] \<and> w = 8 | _ \<Rightarrow> False)"
proof -
  have "wf_registry counter_tools" by (simp add: counter_eval wf_registry_def)
  moreover have "\<forall>t \<in> set (registry_list_tools counter_tools). \<forall>i. et_is_concurrency_safe t i
      \<or> et_requires_runtime_execution_class t \<longrightarrow> (\<forall>limit w. snd (et_execute t i limit w) = w)"
    by (simp add: counter_eval)
  moreover have "distinct (map tc_id counter_calls)" by (simp add: counter_calls_def)
  ultimately have "execute_batch (\<lambda>r _. r) ''120.0'' counter_tools last_first counter_calls 7 =
      (let (rs, w') = execute_serial (validate_and_execute (\<lambda>r _. r) ''120.0'' counter_tools) counter_calls 7 in (Inr (map snd rs), w'))"
    by (rule execute_batch_sequential [OF fair_last_first])
  then show ?thesis
    by (simp add: fair_last_first) (simp add: counter_eval result_error_def)
qed

text \<open>
  A call that is not concurrency-safe is a barrier: everything requested before it has finished before it
  runs, and everything after it starts from the state it leaves. This holds for every schedule and whatever
  the concurrent calls do, and the batch never fails to find a result.
\<close>

theorem execute_batch_barrier:
  assumes "\<not> is_concurrent reg c" and "distinct (map tc_id (before @ c # after))"
  shows "execute_batch attach tool_timeout reg sched (before @ c # after) w =
     (let (rs, w1) = execute_batch attach tool_timeout reg sched before w;
          (r, w2) = validate_and_execute attach tool_timeout reg c w1;
          (rs', w3) = execute_batch attach tool_timeout reg sched after w2
      in (Inr (projr rs @ r # projr rs'), w3))"
  using assms(2)
  by (simp add: execute_batch_results batch_results_barrier [where conc = "is_concurrent reg", OF assms(1)]
      Let_def split_beta)

theorem execute_batch_barrier_witness:
  "snd (execute_batch (\<lambda>r _. r) ''120.0'' counter_tools (\<lambda>_. []) counter_calls 7) = 8"
proof -
  have split: "counter_calls = take 2 counter_calls @ counter_calls ! 2 # drop 3 counter_calls"
    by (simp add: counter_calls_def)
  have "\<not> is_concurrent counter_tools (counter_calls ! 2)" by (simp add: counter_eval)
  moreover have "distinct (map tc_id (take 2 counter_calls @ counter_calls ! 2 # drop 3 counter_calls))"
    by (simp add: counter_calls_def)
  ultimately show ?thesis
    using execute_batch_barrier [of counter_tools "counter_calls ! 2" "take 2 counter_calls" "drop 3 counter_calls"
        "\<lambda>r _. r" "''120.0''" "\<lambda>_. []" 7]
    by (simp add: split [symmetric]) (simp add: counter_eval execute_batch_def execute_concurrent_def)
qed

text \<open>
  the semaphore never deadlocks: from every state of a batch in which some tasks have started and some of
  those are still running, the rest can be run to the end as soon as \<^verbatim>\<open>max_concurrency\<close> is positive; with
  \<^verbatim>\<open>max_concurrency\<close> 0 a batch with a call never finishes.
\<close>

theorem concurrent_batch_never_stuck:
  assumes "set running \<subseteq> set started" and "set started \<subseteq> {0..<n}"
  shows "(\<exists>es. sem_admits k n es started running) \<longleftrightarrow> 0 < k \<or> set started = {0..<n}"
proof
  assume "\<exists>es. sem_admits k n es started running"
  then obtain es where "sem_admits k n es started running" ..
  then show "0 < k \<or> set started = {0..<n}" using assms
  proof (induction es arbitrary: running)
    case Nil
    then show ?case by (auto simp: list_all_iff)
  next
    case (Cons e es)
    then show ?case using set_remove1_subset by (cases e) fastforce+
  qed
next
  assume "0 < k \<or> set started = {0..<n}"
  let ?is = "filter (\<lambda>i. i \<notin> set started) [0..<n]"
  have "sem_admits k n (concat (map (\<lambda>i. [Acquire i, Release i]) ?is)) started []"
  proof (cases "0 < k")
    case True
    then show ?thesis using assms by (intro sem_admits_rest) auto
  next
    case False
    then show ?thesis using \<open>0 < k \<or> set started = {0..<n}\<close> by (simp add: list_all_iff filter_empty_conv)
  qed
  then show "\<exists>es. sem_admits k n es started running"
    using sem_admits_releases_first by blast
qed

theorem concurrent_batch_never_stuck_witness:
  "\<exists>es. sem_admits 10 3 es [1, 0] [1]"
  using concurrent_batch_never_stuck [of "[1]" "[1, 0]" 3 10] by simp

end
