(* ===== verification/Tasks.thy ===== *)
theory Tasks
  imports Tool_Executor
begin

text \<open>
  Background agents: \<^verbatim>\<open>src/src/iac_code/tasks/task_state.py\<close>, \<^verbatim>\<open>tasks/notification_queue.py\<close>,
  \<^verbatim>\<open>tasks/task_tools.py\<close> and the launching and settling of a background agent in
  \<^verbatim>\<open>agent/agent_tool.py\<close>. An \<^verbatim>\<open>asyncio.Task\<close> is a handle (a number), the calls of its \<^verbatim>\<open>cancel()\<close> are
  recorded in the state, and what the sub-agent does is an outcome that the environment chooses.
  The task id of \<^verbatim>\<open>register\<close> (eight characters of a UUID) is an argument.
\<close>

section \<open>Tasks and their manager\<close>

datatype TaskStatus = RUNNING | COMPLETED | FAILED | STOPPED

fun task_status_value :: "TaskStatus \<Rightarrow> string" where
  "task_status_value RUNNING = ''running''"
| "task_status_value COMPLETED = ''completed''"
| "task_status_value FAILED = ''failed''"
| "task_status_value STOPPED = ''stopped''"

record TaskInfo =
  ti_id :: string
  ti_description :: string
  ti_agent_type :: string
  ti_status :: TaskStatus
  ti_result :: "string option"
  ti_error :: "string option"
  ti_tool_use_count :: nat
  ti_token_count :: nat
  ti_background_task :: "nat option"

type_synonym TaskManager = "(string \<times> TaskInfo) list"

definition tm_register :: "string \<Rightarrow> string \<Rightarrow> string \<Rightarrow> TaskManager \<Rightarrow> TaskManager" where
  "tm_register task_id description agent_type tm =
     dict_set task_id \<lparr>ti_id = task_id, ti_description = description, ti_agent_type = agent_type,
       ti_status = RUNNING, ti_result = None, ti_error = None, ti_tool_use_count = 0, ti_token_count = 0,
       ti_background_task = None\<rparr> tm"

definition tm_get :: "TaskManager \<Rightarrow> string \<Rightarrow> TaskInfo option" where
  "tm_get tm task_id = map_of tm task_id"

definition tm_complete :: "string \<Rightarrow> string \<Rightarrow> TaskManager \<Rightarrow> TaskManager" where
  "tm_complete task_id r tm =
     (case tm_get tm task_id of
        Some task \<Rightarrow>
          if ti_status task \<noteq> STOPPED
          then dict_set task_id (task\<lparr>ti_status := COMPLETED, ti_result := Some r, ti_background_task := None\<rparr>) tm
          else tm
      | None \<Rightarrow> tm)"

definition tm_fail :: "string \<Rightarrow> string \<Rightarrow> TaskManager \<Rightarrow> TaskManager" where
  "tm_fail task_id err tm =
     (case tm_get tm task_id of
        Some task \<Rightarrow>
          if ti_status task \<noteq> STOPPED
          then dict_set task_id (task\<lparr>ti_status := FAILED, ti_error := Some err, ti_background_task := None\<rparr>) tm
          else tm
      | None \<Rightarrow> tm)"

definition tm_stop :: "(nat \<Rightarrow> bool) \<Rightarrow> string \<Rightarrow> TaskManager \<Rightarrow> bool \<times> nat list \<times> TaskManager" where
  \<comment> \<open>the value returned, the handles cancelled and the new state; \<open>is_done\<close> is \<^verbatim>\<open>Task.done()\<close>\<close>
  "tm_stop is_done task_id tm =
     (case tm_get tm task_id of
        Some task \<Rightarrow>
          if ti_status task = RUNNING
          then (True,
                case ti_background_task task of None \<Rightarrow> [] | Some h \<Rightarrow> if is_done h then [] else [h],
                dict_set task_id (task\<lparr>ti_status := STOPPED, ti_background_task := None\<rparr>) tm)
          else (False, [], tm)
      | None \<Rightarrow> (False, [], tm))"

definition tm_attach_task :: "string \<Rightarrow> nat \<Rightarrow> TaskManager \<Rightarrow> TaskManager" where
  "tm_attach_task task_id background_task tm =
     (case tm_get tm task_id of
        Some task \<Rightarrow> dict_set task_id (task\<lparr>ti_background_task := Some background_task\<rparr>) tm
      | None \<Rightarrow> tm)"

definition tm_update_progress :: "string \<Rightarrow> nat \<Rightarrow> nat \<Rightarrow> TaskManager \<Rightarrow> TaskManager" where
  "tm_update_progress task_id tool_use_count token_count tm =
     (case tm_get tm task_id of
        Some task \<Rightarrow> dict_set task_id (task\<lparr>ti_tool_use_count := tool_use_count, ti_token_count := token_count\<rparr>) tm
      | None \<Rightarrow> tm)"

definition tm_list_all :: "TaskManager \<Rightarrow> TaskInfo list" where
  "tm_list_all tm = map snd tm"

section \<open>Notifications\<close>

record TaskNotification =
  tn_task_id :: string
  tn_message :: string

record NotificationQueue =
  nq_max_pending :: nat
  nq_queue :: "TaskNotification list"

definition nq_init :: "nat \<Rightarrow> NotificationQueue" where
  "nq_init max_pending = \<lparr>nq_max_pending = max_pending, nq_queue = []\<rparr>"

definition deque_append :: "nat \<Rightarrow> 'a \<Rightarrow> 'a list \<Rightarrow> 'a list" where
  \<comment> \<open>\<^verbatim>\<open>deque(maxlen=n).append(x)\<close>: the oldest entry goes when the deque is full\<close>
  "deque_append n x xs = drop (Suc (length xs) - n) (xs @ [x])"

definition nq_enqueue :: "TaskNotification \<Rightarrow> NotificationQueue \<Rightarrow> NotificationQueue" where
  "nq_enqueue n q = q\<lparr>nq_queue := deque_append (nq_max_pending q) n (nq_queue q)\<rparr>"

definition nq_dequeue :: "NotificationQueue \<Rightarrow> TaskNotification option \<times> NotificationQueue" where
  "nq_dequeue q = (case nq_queue q of [] \<Rightarrow> (None, q) | n # ns \<Rightarrow> (Some n, q\<lparr>nq_queue := ns\<rparr>))"

definition nq_has_pending :: "NotificationQueue \<Rightarrow> bool" where
  "nq_has_pending q \<longleftrightarrow> 0 < length (nq_queue q)"

section \<open>The task tools\<close>

definition text_line :: "string \<Rightarrow> string option \<Rightarrow> string list" where
  \<comment> \<open>\<^verbatim>\<open>if value: lines.append(label + value)\<close>\<close>
  "text_line label v = (case v of Some s \<Rightarrow> if s \<noteq> [] then [label @ s] else [] | None \<Rightarrow> [])"

definition result_success :: "string \<Rightarrow> ToolResult" where
  "result_success content = \<lparr>res_content = content, res_is_error = False, res_new_messages = [], res_metadata = None\<rparr>"

definition task_list_execute :: "TaskManager \<Rightarrow> ToolResult" where
  "task_list_execute tm =
     (if tm_list_all tm = [] then result_success ''No background tasks.''
      else result_success (join_with [CHR 0x0A] (concat (map (\<lambda>t.
        (''- ['' @ ti_id t @ ''] '' @ task_status_value (ti_status t) @ '' | ['' @ ti_agent_type t @ ''] '' @ ti_description t)
        # text_line ''  Result: '' (map_option (take 200) (ti_result t))
        @ text_line ''  Error: '' (map_option (take 200) (ti_error t))) (tm_list_all tm)))))"

definition task_missing :: "string \<Rightarrow> ToolResult" where
  "task_missing task_id = result_error (''Task '' @ quoted task_id @ '' not found.'')"

definition task_get_execute :: "string \<Rightarrow> TaskManager \<Rightarrow> ToolResult" where
  "task_get_execute task_id tm =
     (case tm_get tm task_id of
        None \<Rightarrow> task_missing task_id
      | Some t \<Rightarrow> result_success (join_with [CHR 0x0A]
          ([''ID: '' @ ti_id t, ''Description: '' @ ti_description t, ''Status: '' @ task_status_value (ti_status t),
            ''Agent type: '' @ ti_agent_type t, ''Tool uses: '' @ nat_str (ti_tool_use_count t),
            ''Tokens: '' @ nat_str (ti_token_count t)]
           @ text_line ''Result: '' (ti_result t) @ text_line ''Error: '' (ti_error t))))"

definition task_stop_execute :: "(nat \<Rightarrow> bool) \<Rightarrow> string \<Rightarrow> TaskManager \<Rightarrow> ToolResult \<times> nat list \<times> TaskManager" where
  "task_stop_execute is_done task_id tm =
     (case tm_get tm task_id of
        None \<Rightarrow> (task_missing task_id, [], tm)
      | Some t \<Rightarrow>
          (case tm_stop is_done task_id tm of (stopped, cancelled, tm') \<Rightarrow>
             (if stopped then result_success (''Task '' @ quoted task_id @ '' stopped.'')
              else result_success (''Task '' @ quoted task_id @ '' already '' @ task_status_value (ti_status t) @ ''.''),
              cancelled, tm')))"

section \<open>Launching and settling a background agent\<close>

datatype agent_outcome =
    Sub_Finished string nat nat \<comment> \<open>result text, tool calls, tokens\<close>
  | Sub_Cancelled
  | Sub_Failed string string \<comment> \<open>an \<^verbatim>\<open>Exception\<close>: its text and type name\<close>
  | Sub_Aborted string string \<comment> \<open>any other \<^verbatim>\<open>BaseException\<close>\<close>

definition format_base_exception :: "string \<Rightarrow> string \<Rightarrow> string" where
  "format_base_exception detail error_type = (if detail = [] then error_type else error_type @ '': '' @ detail)"

record background =
  bg_tasks :: TaskManager
  bg_queue :: NotificationQueue
  bg_live :: "(nat \<times> string) list" \<comment> \<open>handles whose coroutine has not finished, with their task id\<close>
  bg_cancelled :: "nat list" \<comment> \<open>handles whose \<^verbatim>\<open>cancel()\<close> was called\<close>

definition bg_is_done :: "background \<Rightarrow> nat \<Rightarrow> bool" where
  "bg_is_done bg h \<longleftrightarrow> h \<notin> fst ` set (bg_live bg)"

definition launch_background :: "string \<Rightarrow> nat \<Rightarrow> string \<Rightarrow> string \<Rightarrow> background \<Rightarrow> background" where
  \<comment> \<open>the background branch of \<^verbatim>\<open>AgentTool.execute\<close> up to its first \<^verbatim>\<open>await\<close>\<close>
  "launch_background task_id h description agent_type bg =
     bg\<lparr>bg_tasks := tm_attach_task task_id h (tm_register task_id description agent_type (bg_tasks bg)),
        bg_live := dict_set h task_id (bg_live bg)\<rparr>"

definition notify :: "string \<Rightarrow> string \<Rightarrow> background \<Rightarrow> background" where
  "notify task_id message bg = bg\<lparr>bg_queue := nq_enqueue \<lparr>tn_task_id = task_id, tn_message = message\<rparr> (bg_queue bg)\<rparr>"

fun run_background :: "string \<Rightarrow> agent_outcome \<Rightarrow> background \<Rightarrow> background" where
  \<comment> \<open>what follows the \<^verbatim>\<open>await\<close> of \<^verbatim>\<open>_run_background\<close>: no other coroutine runs in between\<close>
  "run_background task_id (Sub_Finished r tools tokens) bg =
     notify task_id (''Agent completed: '' @ nat_str tools @ (if tools = 1 then '' tool call'' else '' tool calls''))
       (bg\<lparr>bg_tasks := tm_update_progress task_id tools tokens (tm_complete task_id r (bg_tasks bg))\<rparr>)"
| "run_background task_id Sub_Cancelled bg =
     notify task_id ''Agent stopped''
       (case tm_stop (bg_is_done bg) task_id (bg_tasks bg) of (_, cancelled, tm') \<Rightarrow>
          bg\<lparr>bg_tasks := tm', bg_cancelled := bg_cancelled bg @ cancelled\<rparr>)"
| "run_background task_id (Sub_Failed detail error_type) bg =
     (let err = if detail \<noteq> [] then detail else error_type in
      notify task_id (''Agent failed: '' @ err) (bg\<lparr>bg_tasks := tm_fail task_id err (bg_tasks bg)\<rparr>))"
| "run_background task_id (Sub_Aborted detail error_type) bg =
     (let err = format_base_exception detail error_type in
      notify task_id (''Agent failed: '' @ err) (bg\<lparr>bg_tasks := tm_fail task_id err (bg_tasks bg)\<rparr>))"

text \<open>The interleavings of launches, settling agents, stop requests and a reader of the queue.\<close>

inductive bg_step :: "background \<Rightarrow> background \<Rightarrow> bool" where
  launch: "task_id \<notin> fst ` set (bg_tasks bg) \<Longrightarrow> bg_is_done bg h \<Longrightarrow>
     bg_step bg (launch_background task_id h description agent_type bg)"
| settle: "map_of (bg_live bg) h = Some task_id \<Longrightarrow>
     bg_step bg ((run_background task_id out bg)\<lparr>bg_live := dict_del h (bg_live bg)\<rparr>)"
| stop: "task_stop_execute (bg_is_done bg) task_id (bg_tasks bg) = (r, cancelled, tm') \<Longrightarrow>
     bg_step bg (bg\<lparr>bg_tasks := tm', bg_cancelled := bg_cancelled bg @ cancelled\<rparr>)"
| read: "nq_dequeue (bg_queue bg) = (n, q) \<Longrightarrow> bg_step bg (bg\<lparr>bg_queue := q\<rparr>)"

inductive_cases bg_stepE: "bg_step bg bg'"

definition bg_init :: "nat \<Rightarrow> background" where
  "bg_init max_pending = \<lparr>bg_tasks = [], bg_queue = nq_init max_pending, bg_live = [], bg_cancelled = []\<rparr>"

section \<open>The queue keeps the newest notifications in order\<close>

lemma keep_newest:
  "drop (Suc (length (drop (length ys - c) ys)) - c) (drop (length ys - c) ys @ [x])
     = drop (length (ys @ [x]) - c) (ys @ [x])"
proof (cases "length ys < c")
  case False
  have "drop (length ys - c) ys @ [x] = drop (length ys - c) (ys @ [x])" by simp
  moreover have "Suc (length (drop (length ys - c) ys)) - c + (length ys - c) = length (ys @ [x]) - c"
    using False by simp
  ultimately show ?thesis by (simp del: drop_append length_append length_drop)
qed simp

text \<open>What a reader of a bounded queue relies on.\<close>

locale bounded_queue =
  fixes contents :: "'q \<Rightarrow> 'a list" and cap :: "'q \<Rightarrow> nat" and enq :: "'a \<Rightarrow> 'q \<Rightarrow> 'q" and deq :: "'q \<Rightarrow> 'a option \<times> 'q"
  assumes enq_contents: "contents (enq x q) = drop (Suc (length (contents q)) - cap q) (contents q @ [x])"
    and enq_cap: "cap (enq x q) = cap q"
    and deq_empty: "contents q = [] \<Longrightarrow> deq q = (None, q)"
    and deq_front: "contents q = x # xs \<Longrightarrow> \<exists>q'. deq q = (Some x, q') \<and> contents q' = xs \<and> cap q' = cap q"
begin

lemma enq_all_cap: "cap (fold enq xs q) = cap q"
  by (induction xs arbitrary: q) (simp_all add: enq_cap)

lemma enq_all:
  "length (contents q) \<le> cap q \<Longrightarrow>
   contents (fold enq xs q) = drop (length (contents q @ xs) - cap q) (contents q @ xs)"
proof (induction xs rule: rev_induct)
  case (snoc x xs)
  then show ?case
    using keep_newest [of "contents q @ xs" "cap q" x] by (simp add: enq_contents enq_all_cap del: drop_append length_append)
qed simp

fun take_all :: "nat \<Rightarrow> 'q \<Rightarrow> 'a list" where
  "take_all 0 q = []"
| "take_all (Suc n) q = (case deq q of (Some x, q') \<Rightarrow> x # take_all n q' | (None, _) \<Rightarrow> [])"

lemma take_all_contents: "take_all (length (contents q)) q = contents q"
proof (induction "contents q" arbitrary: q)
  case (Cons x xs)
  then obtain q' where "deq q = (Some x, q')" "contents q' = xs" using deq_front [of q x xs] by auto
  then show ?case using Cons(1) [of q'] Cons(2) [symmetric] by simp
qed simp

end

interpretation nq: bounded_queue nq_queue nq_max_pending nq_enqueue nq_dequeue
  by unfold_locales (auto simp: nq_enqueue_def deque_append_def nq_dequeue_def)

text \<open>
  However many notifications arrive between two reads, a reader that drains the queue gets the newest
  \<^verbatim>\<open>max_pending\<close> of them, in the order they were sent, and only older ones are dropped.
\<close>

theorem notifications_newest_in_order:
  assumes "length (nq_queue q) \<le> nq_max_pending q"
  shows "nq.take_all (length (nq_queue (fold nq_enqueue ns q))) (fold nq_enqueue ns q)
    = drop (length (nq_queue q @ ns) - nq_max_pending q) (nq_queue q @ ns)"
  unfolding nq.take_all_contents by (rule nq.enq_all [OF assms])

theorem notifications_newest_in_order_witness:
  "nq.take_all 2 (fold nq_enqueue (map (\<lambda>i. \<lparr>tn_task_id = i, tn_message = ''done''\<rparr>) [''a'', ''b'', ''c'']) (nq_init 2))
    = map (\<lambda>i. \<lparr>tn_task_id = i, tn_message = ''done''\<rparr>) [''b'', ''c'']"
  using notifications_newest_in_order [of "nq_init 2" "map (\<lambda>i. \<lparr>tn_task_id = i, tn_message = ''done''\<rparr>) [''a'', ''b'', ''c'']"]
  by (simp add: nq_init_def nq_enqueue_def deque_append_def numeral_2_eq_2)

section \<open>A background task settles once\<close>

definition task_ok :: "TaskInfo \<Rightarrow> bool" where
  "task_ok t \<longleftrightarrow>
     (case ti_status t of
        RUNNING \<Rightarrow> ti_result t = None \<and> ti_error t = None \<and> ti_background_task t \<noteq> None
      | COMPLETED \<Rightarrow> ti_result t \<noteq> None \<and> ti_error t = None \<and> ti_background_task t = None
      | FAILED \<Rightarrow> ti_result t = None \<and> ti_error t \<noteq> None \<and> ti_background_task t = None
      | STOPPED \<Rightarrow> ti_result t = None \<and> ti_error t = None \<and> ti_background_task t = None)"

type_synonym live_map = "nat \<rightharpoonup> string"

definition live_ok :: "(string \<rightharpoonup> TaskInfo) \<Rightarrow> nat set \<Rightarrow> nat \<Rightarrow> string \<Rightarrow> bool" where
  \<comment> \<open>a live agent is one that runs, or one that was stopped and has been told so\<close>
  "live_ok G C h i \<longleftrightarrow> (case G i of None \<Rightarrow> False | Some t \<Rightarrow>
     ti_status t = RUNNING \<and> ti_background_task t = Some h \<or> ti_status t = STOPPED \<and> h \<in> C)"

definition settled_or_live :: "live_map \<Rightarrow> string \<Rightarrow> TaskInfo \<Rightarrow> bool" where
  "settled_or_live L i t \<longleftrightarrow> task_ok t \<and> (ti_status t = RUNNING \<longrightarrow> L (the (ti_background_task t)) = Some i)"

definition tasks_inv :: "live_map \<Rightarrow> (string \<rightharpoonup> TaskInfo) \<Rightarrow> nat set \<Rightarrow> bool" where
  \<comment> \<open>live handles, tasks and cancelled handles of a state\<close>
  "tasks_inv L G C \<longleftrightarrow> (\<forall>h h' i. L h = Some i \<longrightarrow> L h' = Some i \<longrightarrow> h = h')
     \<and> (\<forall>h i. L h = Some i \<longrightarrow> live_ok G C h i) \<and> (\<forall>i t. G i = Some t \<longrightarrow> settled_or_live L i t)"

definition bg_inv :: "background \<Rightarrow> bool" where
  "bg_inv bg \<longleftrightarrow> distinct (map fst (bg_live bg)) \<and> length (nq_queue (bg_queue bg)) \<le> nq_max_pending (bg_queue bg)
     \<and> tasks_inv (map_of (bg_live bg)) (map_of (bg_tasks bg)) (set (bg_cancelled bg))"

lemma nq_bound:
  "length (nq_queue q) \<le> nq_max_pending q \<Longrightarrow>
     length (nq_queue (nq_enqueue n q)) \<le> nq_max_pending (nq_enqueue n q)"
  by (simp add: nq_enqueue_def deque_append_def)

lemma tasks_inv_live: "tasks_inv L G C \<Longrightarrow> L h = Some i \<Longrightarrow> live_ok G C h i"
  by (simp add: tasks_inv_def)

lemma tasks_inv_same: "tasks_inv L G C \<Longrightarrow> L h = Some i \<Longrightarrow> L h' = Some i \<Longrightarrow> h' = h"
  by (simp add: tasks_inv_def)

lemma tasks_inv_task: "tasks_inv L G C \<Longrightarrow> G i = Some t \<Longrightarrow> settled_or_live L i t"
  by (simp add: tasks_inv_def)

lemma tasks_invI:
  assumes "\<And>h h' i. L h = Some i \<Longrightarrow> L h' = Some i \<Longrightarrow> h = h'" and "\<And>h i. L h = Some i \<Longrightarrow> live_ok G C h i"
    and "\<And>i t. G i = Some t \<Longrightarrow> settled_or_live L i t"
  shows "tasks_inv L G C"
  using assms by (simp add: tasks_inv_def)

lemma live_ok_other: "live_ok G C h j \<Longrightarrow> j \<noteq> i \<Longrightarrow> C \<subseteq> C' \<Longrightarrow> live_ok (G(i \<mapsto> t)) C' h j"
  by (auto simp: live_ok_def split: option.splits)

lemma running_handle: "settled_or_live L i t \<Longrightarrow> ti_status t = RUNNING \<Longrightarrow> \<exists>h. ti_background_task t = Some h \<and> L h = Some i"
  by (auto simp: settled_or_live_def task_ok_def)

lemma tasks_inv_launch:
  assumes inv: "tasks_inv L G C" and new: "G i = None" "L h = None"
    and t: "task_ok t" "ti_status t = RUNNING" "ti_background_task t = Some h"
  shows "tasks_inv (L(h \<mapsto> i)) (G(i \<mapsto> t)) C"
proof (rule tasks_invI)
  have other: "L h' = Some j \<Longrightarrow> j \<noteq> i" for h' j
    using tasks_inv_live [OF inv, of h' j] new(1) by (auto simp: live_ok_def)
  show "h' = h''" if "(L(h \<mapsto> i)) h' = Some j" "(L(h \<mapsto> i)) h'' = Some j" for h' h'' j
    using that other tasks_inv_same [OF inv] by (metis fun_upd_apply option.inject)
  show "live_ok (G(i \<mapsto> t)) C h' j" if "(L(h \<mapsto> i)) h' = Some j" for h' j
  proof (cases "h' = h")
    case True
    then show ?thesis using that t by (simp add: live_ok_def)
  next
    case False
    with that have "L h' = Some j" by simp
    then show ?thesis using other tasks_inv_live [OF inv] live_ok_other by blast
  qed
  show "settled_or_live (L(h \<mapsto> i)) j t'" if "(G(i \<mapsto> t)) j = Some t'" for j t'
    using that t tasks_inv_task [OF inv, of j t'] new(2) by (auto simp: settled_or_live_def split: if_splits)
qed

lemma tasks_inv_settle:
  assumes inv: "tasks_inv L G C" and h: "L h = Some i" and t: "task_ok t" "ti_status t \<noteq> RUNNING" and "C \<subseteq> C'"
  shows "tasks_inv (L(h := None)) (G(i \<mapsto> t)) C'"
proof (rule tasks_invI)
  have other: "L h' = Some j \<Longrightarrow> h' \<noteq> h \<Longrightarrow> j \<noteq> i" for h' j using tasks_inv_same [OF inv h] by blast
  show "h' = h''" if "(L(h := None)) h' = Some j" "(L(h := None)) h'' = Some j" for h' h'' j
    using that tasks_inv_same [OF inv, of h'' j h'] by (simp split: if_splits)
  show "live_ok (G(i \<mapsto> t)) C' h' j" if "(L(h := None)) h' = Some j" for h' j
    using that other [of h' j] tasks_inv_live [OF inv, of h' j] assms(5) by (simp add: live_ok_other split: if_splits)
  show "settled_or_live (L(h := None)) j t'" if "(G(i \<mapsto> t)) j = Some t'" for j t'
    using that t h tasks_inv_task [OF inv, of j t'] by (auto simp: settled_or_live_def split: if_splits)
qed

lemma tasks_inv_stop:
  assumes inv: "tasks_inv L G C" and t: "G i = Some t" "ti_status t = RUNNING" "ti_background_task t = Some h"
    and t': "task_ok t'" "ti_status t' = STOPPED"
  shows "tasks_inv L (G(i \<mapsto> t')) (insert h C)"
proof (rule tasks_invI)
  have "L h = Some i" using running_handle [OF tasks_inv_task [OF inv t(1)] t(2)] t(3) by simp
  then have same: "L h' = Some i \<Longrightarrow> h' = h" for h' using tasks_inv_same [OF inv] by blast
  show "h' = h''" if "L h' = Some j" "L h'' = Some j" for h' h'' j
    using that tasks_inv_same [OF inv, of h'' j h'] by simp
  show "live_ok (G(i \<mapsto> t')) (insert h C) h' j" if "L h' = Some j" for h' j
  proof (cases "j = i")
    case True
    then show ?thesis using that same t' by (simp add: live_ok_def)
  next
    case False
    then show ?thesis using that tasks_inv_live [OF inv] live_ok_other subset_insertI by metis
  qed
  show "settled_or_live L j t''" if "(G(i \<mapsto> t')) j = Some t''" for j t''
    using that t' tasks_inv_task [OF inv, of j t''] by (auto simp: settled_or_live_def split: if_splits)
qed

definition same_outcome :: "TaskInfo \<Rightarrow> TaskInfo \<Rightarrow> bool" where
  "same_outcome t t' \<longleftrightarrow> ti_status t' = ti_status t \<and> ti_result t' = ti_result t \<and> ti_error t' = ti_error t"

lemmas tm_defs = tm_get_def tm_complete_def tm_fail_def tm_stop_def tm_update_progress_def

lemma notify_simps [simp]:
  "bg_tasks (notify i m bg) = bg_tasks bg" "bg_live (notify i m bg) = bg_live bg"
  "bg_cancelled (notify i m bg) = bg_cancelled bg"
  "bg_queue (notify i m bg) = nq_enqueue \<lparr>tn_task_id = i, tn_message = m\<rparr> (bg_queue bg)"
  by (simp_all add: notify_def)

lemma run_background_frame:
  "bg_live (run_background i out bg) = bg_live bg
   \<and> (\<exists>m. bg_queue (run_background i out bg) = nq_enqueue \<lparr>tn_task_id = i, tn_message = m\<rparr> (bg_queue bg))
   \<and> set (bg_cancelled bg) \<subseteq> set (bg_cancelled (run_background i out bg))"
  by (cases out) (auto simp: Let_def split: prod.split)

lemma run_background_settles:
  assumes "map_of (bg_tasks bg) i = Some t" and "task_ok t" and "ti_status t \<in> {RUNNING, STOPPED}"
  shows "\<exists>t'. map_of (bg_tasks (run_background i out bg)) = (map_of (bg_tasks bg))(i \<mapsto> t')
      \<and> task_ok t' \<and> ti_status t' \<noteq> RUNNING \<and> (ti_status t \<noteq> RUNNING \<longrightarrow> same_outcome t t')"
proof -
  have [simp]: "(map_of (bg_tasks bg))(i \<mapsto> t) = map_of (bg_tasks bg)" using assms(1) by auto
  consider "ti_status t = RUNNING" | "ti_status t = STOPPED" using assms(3) by auto
  then show ?thesis
  proof cases
    case 1
    then show ?thesis using assms(1,2)
      by (cases out) (auto simp: tm_defs Let_def same_outcome_def task_ok_def intro!: exI)
  next
    case 2
    show ?thesis
    proof (cases out)
      case (Sub_Finished r n k)
      then show ?thesis using 2 assms(1,2)
        by (intro exI [of _ "t\<lparr>ti_tool_use_count := n, ti_token_count := k\<rparr>"])
          (simp add: tm_defs same_outcome_def task_ok_def)
    qed (use 2 assms(1,2) in \<open>auto simp: tm_defs Let_def same_outcome_def intro!: exI [of _ t]\<close>)
  qed
qed

definition keeps_settled :: "(string \<rightharpoonup> TaskInfo) \<Rightarrow> (string \<rightharpoonup> TaskInfo) \<Rightarrow> bool" where
  "keeps_settled G G' \<longleftrightarrow> (\<forall>i t. G i = Some t \<longrightarrow> ti_status t \<noteq> RUNNING \<longrightarrow> (\<exists>t'. G' i = Some t' \<and> same_outcome t t'))"

lemma keeps_settled_refl: "keeps_settled G G"
  by (simp add: keeps_settled_def same_outcome_def)

lemma keeps_settled_upd:
  "(\<And>t. G i = Some t \<Longrightarrow> ti_status t \<noteq> RUNNING \<Longrightarrow> same_outcome t t') \<Longrightarrow> keeps_settled G (G(i \<mapsto> t'))"
  by (auto simp: keeps_settled_def same_outcome_def)

lemma bg_launch_keeps:
  assumes "bg_inv bg" and "i \<notin> fst ` set (bg_tasks bg)" and "bg_is_done bg h"
  shows "bg_inv (launch_background i h d a bg)
    \<and> keeps_settled (map_of (bg_tasks bg)) (map_of (bg_tasks (launch_background i h d a bg)))"
proof -
  let ?t = "\<lparr>ti_id = i, ti_description = d, ti_agent_type = a, ti_status = RUNNING, ti_result = None, ti_error = None,
    ti_tool_use_count = 0, ti_token_count = 0, ti_background_task = Some h\<rparr>"
  have new: "map_of (bg_tasks bg) i = None" "map_of (bg_live bg) h = None"
    using assms(2,3) by (simp_all add: map_of_eq_None_iff bg_is_done_def)
  have tasks: "map_of (bg_tasks (launch_background i h d a bg)) = (map_of (bg_tasks bg))(i \<mapsto> ?t)"
    by (simp add: launch_background_def tm_attach_task_def tm_register_def tm_get_def)
  have "tasks_inv ((map_of (bg_live bg))(h \<mapsto> i)) ((map_of (bg_tasks bg))(i \<mapsto> ?t)) (set (bg_cancelled bg))"
    using assms(1) new by (intro tasks_inv_launch) (simp_all add: bg_inv_def task_ok_def)
  moreover have "keeps_settled (map_of (bg_tasks bg)) ((map_of (bg_tasks bg))(i \<mapsto> ?t))"
    using new by (intro keeps_settled_upd) simp
  ultimately show ?thesis
    using assms(1) unfolding tasks by (simp add: bg_inv_def tasks) (simp add: launch_background_def distinct_dict_set)
qed

lemma bg_settle_keeps:
  assumes inv: "bg_inv bg" and h: "map_of (bg_live bg) h = Some i"
  shows "bg_inv ((run_background i out bg)\<lparr>bg_live := dict_del h (bg_live bg)\<rparr>)
    \<and> keeps_settled (map_of (bg_tasks bg)) (map_of (bg_tasks (run_background i out bg)))"
proof -
  let ?bg = "run_background i out bg"
  have parts: "distinct (map fst (bg_live bg))" "length (nq_queue (bg_queue bg)) \<le> nq_max_pending (bg_queue bg)"
    and ti: "tasks_inv (map_of (bg_live bg)) (map_of (bg_tasks bg)) (set (bg_cancelled bg))"
    using inv by (simp_all add: bg_inv_def)
  obtain t where t: "map_of (bg_tasks bg) i = Some t" "ti_status t \<in> {RUNNING, STOPPED}"
    using tasks_inv_live [OF ti h] by (auto simp: live_ok_def split: option.splits)
  have "task_ok t" using tasks_inv_task [OF ti t(1)] by (simp add: settled_or_live_def)
  then obtain t' where t': "map_of (bg_tasks ?bg) = (map_of (bg_tasks bg))(i \<mapsto> t')" "task_ok t'" "ti_status t' \<noteq> RUNNING"
      "ti_status t \<noteq> RUNNING \<longrightarrow> same_outcome t t'"
    using run_background_settles [OF t(1) _ t(2)] by blast
  have "tasks_inv ((map_of (bg_live bg))(h := None)) ((map_of (bg_tasks bg))(i \<mapsto> t')) (set (bg_cancelled ?bg))"
    using run_background_frame by (intro tasks_inv_settle [OF ti h t'(2,3)]) blast
  then have "bg_inv (?bg\<lparr>bg_live := dict_del h (bg_live bg)\<rparr>)"
    using run_background_frame [of i out bg] parts t'(1)
    by (auto simp: bg_inv_def map_of_dict_del distinct_dict_del nq_bound)
  moreover have "keeps_settled (map_of (bg_tasks bg)) (map_of (bg_tasks ?bg))"
    unfolding t'(1) using t(1) t'(4) by (intro keeps_settled_upd) simp
  ultimately show ?thesis by blast
qed

lemma bg_stop_keeps:
  assumes inv: "bg_inv bg" and stop: "task_stop_execute (bg_is_done bg) i (bg_tasks bg) = (r, cs, tm')"
  shows "bg_inv (bg\<lparr>bg_tasks := tm', bg_cancelled := bg_cancelled bg @ cs\<rparr>)
    \<and> keeps_settled (map_of (bg_tasks bg)) (map_of tm')"
proof (cases "\<exists>t. map_of (bg_tasks bg) i = Some t \<and> ti_status t = RUNNING")
  case True
  then obtain t where t: "map_of (bg_tasks bg) i = Some t" "ti_status t = RUNNING" by blast
  have ti: "tasks_inv (map_of (bg_live bg)) (map_of (bg_tasks bg)) (set (bg_cancelled bg))"
    using inv by (simp add: bg_inv_def)
  have "settled_or_live (map_of (bg_live bg)) i t" using tasks_inv_task [OF ti t(1)] .
  then obtain h where h: "ti_background_task t = Some h" "map_of (bg_live bg) h = Some i" and ok: "task_ok t"
    using running_handle [OF _ t(2)] by (auto simp: settled_or_live_def)
  let ?t = "t\<lparr>ti_status := STOPPED, ti_background_task := None\<rparr>"
  have "\<not> bg_is_done bg h" using h(2) by (auto simp: bg_is_done_def map_of_eq_None_iff [symmetric])
  then have eff: "cs = [h]" "map_of tm' = (map_of (bg_tasks bg))(i \<mapsto> ?t)"
    using stop t h(1) by (auto simp: task_stop_execute_def tm_defs)
  have "task_ok ?t" using ok t(2) by (simp add: task_ok_def)
  then have "tasks_inv (map_of (bg_live bg)) ((map_of (bg_tasks bg))(i \<mapsto> ?t)) (insert h (set (bg_cancelled bg)))"
    by (intro tasks_inv_stop [OF ti t h(1)]) simp_all
  moreover have "keeps_settled (map_of (bg_tasks bg)) ((map_of (bg_tasks bg))(i \<mapsto> ?t))"
    using t by (intro keeps_settled_upd) simp
  ultimately show ?thesis using inv eff by (simp add: bg_inv_def)
next
  case False
  then have "cs = [] \<and> tm' = bg_tasks bg"
    using stop by (auto simp: task_stop_execute_def tm_defs split: option.splits)
  then show ?thesis using inv by (simp add: keeps_settled_refl)
qed

lemma bg_step_keeps:
  assumes "bg_inv bg" and "bg_step bg bg'"
  shows "bg_inv bg' \<and> keeps_settled (map_of (bg_tasks bg)) (map_of (bg_tasks bg'))"
  using assms(2)
proof cases
  case (launch i h d a)
  then show ?thesis using bg_launch_keeps [OF assms(1)] by simp
next
  case (settle h i out)
  then show ?thesis using bg_settle_keeps [OF assms(1)] by simp
next
  case (stop i r cs tm')
  then show ?thesis using bg_stop_keeps [OF assms(1)] by simp
next
  case (read n q)
  then show ?thesis
    using assms(1) by (auto simp: bg_inv_def keeps_settled_refl nq_dequeue_def split: list.splits)
qed

lemma bg_reachable_inv: "bg_step\<^sup>*\<^sup>* (bg_init n) bg \<Longrightarrow> bg_inv bg"
proof (induction rule: rtranclp_induct)
  case base
  show ?case by (simp add: bg_inv_def bg_init_def nq_init_def tasks_inv_def)
qed (use bg_step_keeps in blast)

definition bg_launched :: background where
  "bg_launched = launch_background ''3f2a91bc'' 1 ''review template'' ''explore'' (bg_init 100)"

definition bg_stopped :: background where
  "bg_stopped = bg_launched
     \<lparr>bg_tasks := snd (snd (task_stop_execute (bg_is_done bg_launched) ''3f2a91bc'' (bg_tasks bg_launched))),
      bg_cancelled := bg_cancelled bg_launched @ fst (snd (task_stop_execute (bg_is_done bg_launched) ''3f2a91bc'' (bg_tasks bg_launched)))\<rparr>"

definition bg_late :: background where
  \<comment> \<open>the stopped agent finishes all the same\<close>
  "bg_late = (run_background ''3f2a91bc'' (Sub_Finished ''ok'' 4 900) bg_stopped)\<lparr>bg_live := dict_del 1 (bg_live bg_stopped)\<rparr>"

lemmas bg_eval = bg_launched_def bg_stopped_def bg_late_def launch_background_def bg_init_def nq_init_def
  tm_attach_task_def tm_register_def tm_defs task_stop_execute_def bg_is_done_def

lemma bg_reaches_stopped: "bg_step\<^sup>*\<^sup>* (bg_init 100) bg_stopped"
proof -
  have "bg_step (bg_init 100) bg_launched"
    unfolding bg_launched_def by (rule bg_step.launch) (simp_all add: bg_init_def bg_is_done_def)
  moreover have "bg_step bg_launched bg_stopped"
    unfolding bg_stopped_def
    by (rule bg_step.stop [of bg_launched "''3f2a91bc''" _ _ "_"]) (simp only: prod.collapse, rule prod.collapse [symmetric])
  ultimately show ?thesis by simp
qed

lemma bg_stopped_late: "bg_step\<^sup>*\<^sup>* bg_stopped bg_late"
  unfolding bg_late_def by (intro r_into_rtranclp bg_step.settle) (simp add: bg_eval)

text \<open>
  C40: whatever the interleaving of launches, finishing agents, stop requests and queue reads, a task that has
  completed, failed or been stopped keeps that status and its result or error text for ever: an agent that
  finishes after it was stopped does not overwrite the stop.
\<close>

theorem task_settles_once:
  assumes "bg_step\<^sup>*\<^sup>* (bg_init n) bg" and "bg_step\<^sup>*\<^sup>* bg bg'"
    and "tm_get (bg_tasks bg) i = Some t" and "ti_status t \<noteq> RUNNING"
  shows "\<exists>t'. tm_get (bg_tasks bg') i = Some t' \<and> same_outcome t t'"
  using assms(2,3,4) bg_reachable_inv [OF assms(1)] unfolding tm_get_def
proof (induction arbitrary: t rule: converse_rtranclp_induct)
  case base
  then show ?case by (auto simp: same_outcome_def)
next
  case (step a b)
  then obtain t1 where "map_of (bg_tasks b) i = Some t1" "same_outcome t t1"
    using bg_step_keeps [OF step.prems(3) step.hyps(1)] unfolding keeps_settled_def by blast
  then show ?case
    using step.IH [of t1] step.prems bg_step_keeps [OF step.prems(3) step.hyps(1)] by (auto simp: same_outcome_def)
qed

theorem task_settles_once_witness:
  "\<exists>t'. tm_get (bg_tasks bg_late) ''3f2a91bc'' = Some t' \<and> ti_status t' = STOPPED \<and> ti_result t' = None"
proof -
  let ?t = "the (tm_get (bg_tasks bg_stopped) ''3f2a91bc'')"
  have "tm_get (bg_tasks bg_stopped) ''3f2a91bc'' = Some ?t" "ti_status ?t = STOPPED" "ti_result ?t = None"
    by (simp_all add: bg_eval)
  then show ?thesis
    using task_settles_once [OF bg_reaches_stopped bg_stopped_late, of "''3f2a91bc''" ?t]
    by (auto simp: same_outcome_def)
qed

text \<open>
  In every reachable state a task carries a result exactly when it completed and an error exactly when it
  failed; a task that is not settled has a live agent behind it, so it can still settle; and a live agent
  whose task was stopped has been cancelled.
\<close>

theorem task_state_consistent:
  assumes "bg_step\<^sup>*\<^sup>* (bg_init n) bg" and "tm_get (bg_tasks bg) i = Some t"
  shows "(ti_result t \<noteq> None \<longleftrightarrow> ti_status t = COMPLETED) \<and> (ti_error t \<noteq> None \<longleftrightarrow> ti_status t = FAILED)
    \<and> (ti_status t = RUNNING \<longrightarrow> (\<exists>h. ti_background_task t = Some h \<and> map_of (bg_live bg) h = Some i))
    \<and> (\<forall>h. map_of (bg_live bg) h = Some i \<and> ti_status t \<noteq> RUNNING \<longrightarrow> h \<in> set (bg_cancelled bg))"
proof -
  have ti: "tasks_inv (map_of (bg_live bg)) (map_of (bg_tasks bg)) (set (bg_cancelled bg))"
    using bg_reachable_inv [OF assms(1)] by (simp add: bg_inv_def)
  have t: "settled_or_live (map_of (bg_live bg)) i t" using tasks_inv_task [OF ti] assms(2) by (simp add: tm_get_def)
  have "map_of (bg_live bg) h = Some i \<Longrightarrow> ti_status t \<noteq> RUNNING \<Longrightarrow> h \<in> set (bg_cancelled bg)" for h
    using tasks_inv_live [OF ti, of h i] assms(2) by (simp add: live_ok_def tm_get_def)
  moreover have "(ti_result t \<noteq> None \<longleftrightarrow> ti_status t = COMPLETED) \<and> (ti_error t \<noteq> None \<longleftrightarrow> ti_status t = FAILED)"
    using t by (cases "ti_status t") (simp_all add: settled_or_live_def task_ok_def)
  ultimately show ?thesis using running_handle [OF t] by blast
qed

theorem task_state_consistent_witness:
  "map_of (bg_live bg_stopped) 1 = Some ''3f2a91bc'' \<and> 1 \<in> set (bg_cancelled bg_stopped)"
proof -
  let ?t = "the (tm_get (bg_tasks bg_stopped) ''3f2a91bc'')"
  have "tm_get (bg_tasks bg_stopped) ''3f2a91bc'' = Some ?t" "ti_status ?t = STOPPED"
    and live: "map_of (bg_live bg_stopped) 1 = Some ''3f2a91bc''"
    by (simp_all add: bg_eval)
  then show ?thesis
    using task_state_consistent [OF bg_reaches_stopped, of "''3f2a91bc''" ?t] by simp
qed

end
