(* ===== verification/Journal.thy ===== *)
theory Journal
  imports Json
begin

text \<open>
  The event journal of a pipeline run, \<^verbatim>\<open>src/src/iac_code/a2a/pipeline_journal.py\<close>: JSON lines in a file
  that a crash may cut in the middle of a write. A byte is a \<^typ>\<open>char\<close>; texts range over U+0000 to
  U+00FF, so UTF-8 uses one or two bytes. What the operating system does with a write (all of it, an
  exception after some bytes, a crash after some bytes) is an argument. The locks that serialise the
  writers and \<^verbatim>\<open>fsync\<close> are not modelled: one operation runs at a time.
\<close>

type_synonym bytes = "char list"

section \<open>Lines and UTF-8\<close>

definition str_break :: "char \<Rightarrow> bool" where
  \<comment> \<open>the line boundaries of \<^verbatim>\<open>str.splitlines\<close>\<close>
  "str_break c \<longleftrightarrow> c \<in> {CHR 0x0A, CHR 0x0D, CHR 0x0B, CHR 0x0C, CHR 0x1C, CHR 0x1D, CHR 0x1E, CHR 0x85}"

definition bytes_break :: "char \<Rightarrow> bool" where
  \<comment> \<open>the line boundaries of \<^verbatim>\<open>bytes.splitlines\<close>\<close>
  "bytes_break c \<longleftrightarrow> c \<in> {CHR 0x0A, CHR 0x0D}"

definition bytes_space :: "char \<Rightarrow> bool" where
  "bytes_space c \<longleftrightarrow> c \<in> {CHR '' '', CHR 0x09, CHR 0x0A, CHR 0x0B, CHR 0x0C, CHR 0x0D}"

function splitlines_keep :: "(char \<Rightarrow> bool) \<Rightarrow> string \<Rightarrow> string list" where
  \<comment> \<open>\<^verbatim>\<open>splitlines(keepends=True)\<close>; carriage return and newline together are one boundary\<close>
  "splitlines_keep brk s =
     (if s = [] then []
      else
        let l = takeWhile (\<lambda>c. \<not> brk c) s; r = dropWhile (\<lambda>c. \<not> brk c) s in
        if r = [] then [l]
        else if startswith r [CHR 0x0D, CHR 0x0A] then (l @ take 2 r) # splitlines_keep brk (drop 2 r)
        else (l @ [hd r]) # splitlines_keep brk (tl r))"
  by pat_completeness auto

termination
proof (relation "measure (length \<circ> snd)", goal_cases)
  case (2 brk s l r)
  have "length r \<le> length s" using 2(3) by (simp add: length_dropWhile_le)
  moreover have "0 < length r" using 2(4) by simp
  ultimately show ?case by (simp del: length_greater_0_conv)
next
  case (3 brk s l r)
  have "length r \<le> length s" using 3(3) by (simp add: length_dropWhile_le)
  moreover have "0 < length r" using 3(4) by simp
  ultimately show ?case by (simp del: length_greater_0_conv)
qed simp

declare splitlines_keep.simps [simp del]

definition splitlines :: "(char \<Rightarrow> bool) \<Rightarrow> string \<Rightarrow> string list" where
  "splitlines brk s = map (takeWhile (\<lambda>c. \<not> brk c)) (splitlines_keep brk s)"

definition utf8_char :: "char \<Rightarrow> bytes" where
  "utf8_char c = (let n = of_char c in if n < (128 :: nat) then [c] else [char_of (192 + n div 64), char_of (128 + n mod 64)])"

definition utf8_encode :: "string \<Rightarrow> bytes" where
  "utf8_encode s = concat (map utf8_char s)"

definition utf8_lead :: "char \<Rightarrow> bool" where
  \<comment> \<open>the lead bytes of U+0080 to U+00FF\<close>
  "utf8_lead b \<longleftrightarrow> (of_char b :: nat) \<in> {194, 195}"

definition utf8_cont :: "char \<Rightarrow> bool" where
  "utf8_cont b \<longleftrightarrow> 128 \<le> (of_char b :: nat) \<and> (of_char b :: nat) < 192"

definition utf8_pair :: "char \<Rightarrow> char \<Rightarrow> char" where
  "utf8_pair a b = char_of ((of_char a - 192) * 64 + (of_char b - 128) :: nat)"

fun utf8_decode_from :: "nat \<Rightarrow> bytes \<Rightarrow> nat + string" where
  \<comment> \<open>\<open>Inl\<close> is \<^verbatim>\<open>UnicodeDecodeError.start\<close>\<close>
  "utf8_decode_from pos [] = Inr []"
| "utf8_decode_from pos (a # s) =
     (if of_char a < (128 :: nat) then map_sum id (Cons a) (utf8_decode_from (Suc pos) s)
      else
        (case s of
           b # s1 \<Rightarrow>
             if utf8_lead a \<and> utf8_cont b then map_sum id (Cons (utf8_pair a b)) (utf8_decode_from (pos + 2) s1) else Inl pos
         | [] \<Rightarrow> Inl pos))"

definition utf8_decode :: "bytes \<Rightarrow> nat + string" where
  "utf8_decode s = utf8_decode_from 0 s"

fun utf8_decode_ignore :: "bytes \<Rightarrow> string" where
  \<comment> \<open>\<^verbatim>\<open>errors="ignore"\<close>\<close>
  "utf8_decode_ignore [] = []"
| "utf8_decode_ignore (a # s) =
     (if of_char a < (128 :: nat) then a # utf8_decode_ignore s
      else
        (case s of
           b # s1 \<Rightarrow> if utf8_lead a \<and> utf8_cont b then utf8_pair a b # utf8_decode_ignore s1 else utf8_decode_ignore s
         | [] \<Rightarrow> []))"

section \<open>Events and records\<close>

datatype journal_error =
    Invalid_Utf8
  | Partial_Line
  | Invalid_Line nat
  | Non_Object nat
  | Invalid_Group nat
  | Unrepairable_Tail
  | Write_Failed
  | Crashed

definition EVENT_GROUP_RECORD_TYPE :: string where
  "EVENT_GROUP_RECORD_TYPE = ''event_group''"

definition EVENT_GROUP_RECORD_KEY :: string where
  "EVENT_GROUP_RECORD_KEY = ''__iac_code_record_type''"

definition nonfinite :: "string \<Rightarrow> bool" where
  "nonfinite t \<longleftrightarrow> t \<in> {''NaN'', ''Infinity'', ''-Infinity''}"

fun to_json_safe :: "nat \<Rightarrow> pyval \<Rightarrow> pyval"
  and safe_elems :: "nat \<Rightarrow> pyval list \<Rightarrow> pyval list"
  and safe_members :: "nat \<Rightarrow> (string \<times> pyval) list \<Rightarrow> (string \<times> pyval) list" where
  "to_json_safe depth (PyList vs) = (if 64 \<le> depth then PyStr ''[truncated-depth]'' else PyList (safe_elems (Suc depth) vs))"
| "to_json_safe depth (PyDict kvs) = (if 64 \<le> depth then PyStr ''[truncated-depth]'' else PyDict (safe_members (Suc depth) kvs))"
| "to_json_safe depth (PyFloat t) =
     (if 64 \<le> depth then PyStr ''[truncated-depth]'' else if nonfinite t then PyNone else PyFloat t)"
| "to_json_safe depth v = (if 64 \<le> depth then PyStr ''[truncated-depth]'' else v)"
| "safe_elems depth [] = []"
| "safe_elems depth (v # vs) = to_json_safe depth v # safe_elems depth vs"
| "safe_members depth [] = []"
| "safe_members depth ((k, v) # kvs) = (k, to_json_safe depth v) # safe_members depth kvs"

definition float_trunc :: "string \<Rightarrow> int" where
  \<comment> \<open>\<^verbatim>\<open>int(x)\<close> of the decimal number a float literal denotes; 0 for \<^verbatim>\<open>NaN\<close> (the \<^verbatim>\<open>ValueError\<close> is caught).
    \<^verbatim>\<open>Infinity\<close>, for which \<^verbatim>\<open>int\<close> raises \<^verbatim>\<open>OverflowError\<close>, is never written (\<^verbatim>\<open>to_json_safe\<close>).\<close>
  "float_trunc t =
     (case scan_int t of
        None \<Rightarrow> 0
      | Some (i, r) \<Rightarrow>
          let (f, r1) = scan_frac r; (e, r2) = scan_exp r1;
              m = digits_val (filter is_digit i @ tl f);
              x = (if e = [] then 0 else case py_int (tl e) of None \<Rightarrow> 0 | Some x \<Rightarrow> x) - int (length (tl f))
          in (if startswith i ''-'' then - 1 else 1) *
             (if 0 \<le> x then int m * 10 ^ nat x else int (m div 10 ^ nat (- x))))"

fun int_of_value :: "pyval \<Rightarrow> int" where
  \<comment> \<open>\<^verbatim>\<open>int(value)\<close>, 0 where it raises \<^verbatim>\<open>TypeError\<close> or \<^verbatim>\<open>ValueError\<close>\<close>
  "int_of_value (PyInt n) = n"
| "int_of_value (PyBool b) = (if b then 1 else 0)"
| "int_of_value (PyStr s) = (case py_int s of Some n \<Rightarrow> n | None \<Rightarrow> 0)"
| "int_of_value (PyFloat t) = float_trunc t"
| "int_of_value _ = 0"

definition sequence_value :: "pydict \<Rightarrow> int" where
  "sequence_value event = (case map_of event ''sequence'' of None \<Rightarrow> 0 | Some v \<Rightarrow> int_of_value v)"

fun all_dicts :: "pyval list \<Rightarrow> pydict list option" where
  "all_dicts [] = Some []"
| "all_dicts (PyDict e # vs) = map_option (Cons e) (all_dicts vs)"
| "all_dicts (_ # vs) = None"

definition events_from_journal_record :: "bool \<Rightarrow> nat \<Rightarrow> pydict \<Rightarrow> journal_error + pydict list" where
  "events_from_journal_record strict line_number val =
     (if map_of val EVENT_GROUP_RECORD_KEY \<noteq> Some (PyStr EVENT_GROUP_RECORD_TYPE) then Inr [val]
      else
        (case map_of val ''events'' of
           Some (PyList vs) \<Rightarrow>
             (case all_dicts vs of
                Some es \<Rightarrow> Inr es
              | None \<Rightarrow> if strict then Inl (Invalid_Group line_number) else Inr [])
         | _ \<Rightarrow> if strict then Inl (Invalid_Group line_number) else Inr []))"

section \<open>Reading\<close>

fun read_lines :: "bool \<Rightarrow> nat \<Rightarrow> string list \<Rightarrow> journal_error + pydict list" where
  "read_lines strict n [] = Inr []"
| "read_lines strict n (l # ls) =
     (if strip l = [] then read_lines strict (Suc n) ls
      else
        (case json_loads l of
           None \<Rightarrow> if strict then Inl (Invalid_Line n) else read_lines strict (Suc n) ls
         | Some (PyDict val) \<Rightarrow>
             (case events_from_journal_record strict n val of
                Inl e \<Rightarrow> Inl e
              | Inr es \<Rightarrow> map_sum id (\<lambda>rest. es @ rest) (read_lines strict (Suc n) ls))
         | Some _ \<Rightarrow> if strict then Inl (Non_Object n) else read_lines strict (Suc n) ls))"

definition read_content :: "bool \<Rightarrow> bytes \<Rightarrow> journal_error + pydict list" where
  "read_content strict raw_content =
     (case utf8_decode raw_content of
        Inl _ \<Rightarrow> if strict then Inl Invalid_Utf8
                else map_sum id (sort_key sequence_value) (read_lines strict 1 (splitlines str_break (utf8_decode_ignore raw_content)))
      | Inr content \<Rightarrow>
          if strict \<and> content \<noteq> [] \<and> last content \<noteq> CHR 0x0A then Inl Partial_Line
          else map_sum id (sort_key sequence_value) (read_lines strict 1 (splitlines str_break content)))"

record journal =
  jr_file :: "bytes option" \<comment> \<open>\<^verbatim>\<open>a2a-events.jsonl\<close>\<close>
  jr_corrupt :: bytes \<comment> \<open>\<^verbatim>\<open>a2a-events.jsonl.corrupt\<close>\<close>

definition read_all_with :: "bool \<Rightarrow> journal \<Rightarrow> journal_error + pydict list" where
  "read_all_with strict j = (case jr_file j of None \<Rightarrow> Inr [] | Some raw \<Rightarrow> read_content strict raw)"

definition read_all :: "journal \<Rightarrow> journal_error + pydict list" where
  "read_all j = read_all_with False j"

definition read_all_strict :: "journal \<Rightarrow> journal_error + pydict list" where
  "read_all_strict j = read_all_with True j"

definition read_after :: "int \<Rightarrow> journal \<Rightarrow> journal_error + pydict list" where
  "read_after sequence j = map_sum id (filter (\<lambda>event. sequence_value event > sequence)) (read_all j)"

section \<open>Repairing the tail\<close>

definition record_text_valid :: "string \<Rightarrow> bool" where
  "record_text_valid text =
     (case json_loads text of
        Some (PyDict val) \<Rightarrow> (case events_from_journal_record True 0 val of Inr _ \<Rightarrow> True | Inl _ \<Rightarrow> False)
      | _ \<Rightarrow> False)"

definition record_bytes_valid :: "bytes \<Rightarrow> bool" where
  "record_bytes_valid line = (case utf8_decode line of Inl _ \<Rightarrow> False | Inr text \<Rightarrow> record_text_valid text)"

definition blank :: "string \<Rightarrow> bool" where
  "blank l \<longleftrightarrow> strip l = []"

definition bytes_blank :: "bytes \<Rightarrow> bool" where
  "bytes_blank l \<longleftrightarrow> list_all bytes_space l"

definition repairable_tail :: "string \<Rightarrow> (string \<times> string) option" where
  "repairable_tail content =
     (if content = [] then None
      else
        let lines = splitlines_keep str_break content;
            good = takeWhile (\<lambda>raw_line. blank raw_line \<or> record_text_valid (strip raw_line)) lines;
            bad = dropWhile (\<lambda>raw_line. blank raw_line \<or> record_text_valid (strip raw_line)) lines
        in if bad \<noteq> [] then
             (if list_ex (\<lambda>raw_line. \<not> blank raw_line) (tl bad) then None
              else
                let valid_content = concat good in
                Some (if valid_content \<noteq> [] \<and> last valid_content \<noteq> CHR 0x0A then valid_content @ [CHR 0x0A] else valid_content,
                      concat bad))
           else if last content \<noteq> CHR 0x0A then Some (content @ [CHR 0x0A], [])
           else None)"

definition contains_only_complete_json_records :: "string \<Rightarrow> bool" where
  "contains_only_complete_json_records content =
     ((content = [] \<or> last content = CHR 0x0A)
      \<and> list_all (\<lambda>line. blank line \<or> record_text_valid line) (splitlines str_break content))"

definition rfind_line_start :: "bytes \<Rightarrow> nat \<Rightarrow> nat" where
  \<comment> \<open>\<^verbatim>\<open>content.rfind(b"\n", 0, start) + 1\<close>\<close>
  "rfind_line_start content start = length (dropWhile (\<lambda>c. c \<noteq> CHR 0x0A) (rev (take start content)))"

definition repairable_tail_bytes :: "bytes \<Rightarrow> (bytes \<times> bytes) option" where
  "repairable_tail_bytes content =
     (if content = [] then None
      else
        (case utf8_decode content of
           Inl start \<Rightarrow>
             let line_start = rfind_line_start content start;
                 valid_bytes = take line_start content;
                 corrupt_bytes = drop line_start content
             in if list_ex (\<lambda>part. \<not> bytes_blank part) (tl (splitlines_keep bytes_break corrupt_bytes)) then None
                else (case utf8_decode valid_bytes of
                        Inl _ \<Rightarrow> None
                      | Inr valid_text \<Rightarrow>
                          if contains_only_complete_json_records valid_text then Some (valid_bytes, corrupt_bytes) else None)
         | Inr decoded \<Rightarrow> map_option (map_prod utf8_encode utf8_encode) (repairable_tail decoded)))"

definition repair_tail :: "journal \<Rightarrow> bool \<times> journal" where
  "repair_tail j =
     (case jr_file j of
        None \<Rightarrow> (False, j)
      | Some content \<Rightarrow>
          (case repairable_tail_bytes content of
             None \<Rightarrow> (False, j)
           | Some (valid_bytes, corrupt_bytes) \<Rightarrow>
               if valid_bytes = content then (False, j)
               else (True, j\<lparr>jr_file := Some valid_bytes,
                 jr_corrupt := jr_corrupt j @
                   (if corrupt_bytes = [] then []
                    else if last corrupt_bytes = CHR 0x0A then corrupt_bytes else corrupt_bytes @ [CHR 0x0A])\<rparr>)))"

definition read_all_repairing_tail :: "journal \<Rightarrow> (journal_error + pydict list) \<times> journal" where
  "read_all_repairing_tail j =
     (case read_all_strict j of
        Inr es \<Rightarrow> (Inr es, j)
      | Inl err \<Rightarrow>
          (case repair_tail j of
             (False, j') \<Rightarrow> (Inl err, j')
           | (True, j') \<Rightarrow> (read_all_strict j', j')))"

section \<open>Appending\<close>

datatype tail_state = Tail_Clean | Tail_Repairable | Tail_Unrepairable

definition APPEND_TAIL_SCAN_BYTES :: nat where
  "APPEND_TAIL_SCAN_BYTES = 1024 * 1024"

definition classify_tail :: "bytes \<Rightarrow> tail_state" where
  "classify_tail content =
     (let nonempty_lines = filter (\<lambda>l. \<not> bytes_blank l) (splitlines_keep bytes_break content) in
      if nonempty_lines = [] then Tail_Clean
      else if list_ex (\<lambda>l. \<not> record_bytes_valid l) (butlast nonempty_lines) then Tail_Unrepairable
      else if \<not> record_bytes_valid (last nonempty_lines) then Tail_Repairable
      else if last content \<noteq> CHR 0x0A then Tail_Repairable
      else Tail_Clean)"

definition append_tail_state :: "bytes \<Rightarrow> tail_state" where
  "append_tail_state whole =
     (if whole = [] then Tail_Clean
      else
        let read_size = min (length whole) APPEND_TAIL_SCAN_BYTES;
            content = drop (length whole - read_size) whole
        in if read_size < length whole then
             (if CHR 0x0A \<notin> set content then Tail_Unrepairable
              else classify_tail (tl (dropWhile (\<lambda>c. c \<noteq> CHR 0x0A) content)))
           else classify_tail content)"

lemma append_tail_state_code [code]:
  "append_tail_state whole =
     (if int (length whole) \<le> 1048576 then (if whole = [] then Tail_Clean else classify_tail whole)
      else
        let content = drop (length whole - APPEND_TAIL_SCAN_BYTES) whole
        in if CHR 0x0A \<notin> set content then Tail_Unrepairable
           else classify_tail (tl (dropWhile (\<lambda>c. c \<noteq> CHR 0x0A) content)))"
proof (cases "length whole \<le> APPEND_TAIL_SCAN_BYTES")
  case True
  then show ?thesis by (simp add: append_tail_state_def APPEND_TAIL_SCAN_BYTES_def)
next
  case False
  then have "whole \<noteq> []" "\<not> int (length whole) \<le> 1048576" by (auto simp: APPEND_TAIL_SCAN_BYTES_def)
  with False show ?thesis by (simp add: append_tail_state_def Let_def)
qed

definition repair_existing_tail_before_append :: "journal \<Rightarrow> (journal_error + unit) \<times> journal" where
  "repair_existing_tail_before_append j =
     (case jr_file j of
        None \<Rightarrow> (Inr (), j)
      | Some whole \<Rightarrow>
          (case append_tail_state whole of
             Tail_Clean \<Rightarrow> (Inr (), j)
           | Tail_Unrepairable \<Rightarrow> (Inl Unrepairable_Tail, j)
           | Tail_Repairable \<Rightarrow>
               (case repair_tail j of (True, j') \<Rightarrow> (Inr (), j') | (False, j') \<Rightarrow> (Inl Unrepairable_Tail, j'))))"

datatype write_fault = No_Fault | Fail_After nat | Crash_After nat
  \<comment> \<open>the write succeeds, raises after some bytes, or the process dies after some bytes\<close>

definition append_journal_bytes :: "write_fault \<Rightarrow> bytes \<Rightarrow> journal \<Rightarrow> (journal_error + unit) \<times> journal" where
  "append_journal_bytes fault payload j =
     (case repair_existing_tail_before_append j of
        (Inl err, j') \<Rightarrow> (Inl err, j')
      | (Inr _, j') \<Rightarrow>
          let before = (case jr_file j' of None \<Rightarrow> [] | Some b \<Rightarrow> b) in
          (case fault of
             No_Fault \<Rightarrow> (Inr (), j'\<lparr>jr_file := Some (before @ payload)\<rparr>)
           | Fail_After n \<Rightarrow> (Inl Write_Failed, j'\<lparr>jr_file := (if jr_file j' = None then None else Some before)\<rparr>)
           | Crash_After n \<Rightarrow> (Inl Crashed, j'\<lparr>jr_file := Some (before @ take n payload)\<rparr>)))"

definition payload_of :: "pyval \<Rightarrow> bytes" where
  "payload_of record = utf8_encode (json_dumps record @ [CHR 0x0A])"

definition append_event :: "write_fault \<Rightarrow> pydict \<Rightarrow> journal \<Rightarrow> (journal_error + unit) \<times> journal" where
  "append_event fault event j = append_journal_bytes fault (payload_of (to_json_safe 0 (PyDict event))) j"

definition group_record :: "string \<Rightarrow> pyval list \<Rightarrow> pyval" where
  "group_record group_id safe_events = PyDict
     [(EVENT_GROUP_RECORD_KEY, PyStr EVENT_GROUP_RECORD_TYPE), (''schemaVersion'', PyStr ''1.0''),
      (''groupId'', PyStr group_id), (''events'', PyList safe_events)]"

definition append_many :: "write_fault \<Rightarrow> string \<Rightarrow> pydict list \<Rightarrow> journal \<Rightarrow> (journal_error + unit) \<times> journal" where
  \<comment> \<open>\<open>group_id\<close> is the fresh UUID\<close>
  "append_many fault group_id events j =
     (if events = [] then (Inr (), j)
      else append_journal_bytes fault (payload_of (group_record group_id (map (\<lambda>e. to_json_safe 0 (PyDict e)) events))) j)"

section \<open>Printed records are single lines\<close>

definition printable :: "char \<Rightarrow> bool" where
  "printable c \<longleftrightarrow> 32 \<le> (of_char c :: nat)"

lemma printable_digit: "is_digit c \<Longrightarrow> printable c"
  by (simp add: printable_def is_digit_def)

lemma hex_digit_printable: "n < 16 \<Longrightarrow> printable (hex_digit n)"
  by (simp add: printable_def hex_digit_def)

lemma json_escape_printable: "list_all printable (json_escape c)"
proof -
  have "of_char c < (32 :: nat) \<Longrightarrow> of_char c div 16 < (16 :: nat)" by simp
  then show ?thesis by (simp add: json_escape_def hex_digit_printable) (simp add: printable_def)
qed

lemma dumps_string_printable: "list_all printable (dumps_string s)"
proof -
  have "list_all printable (concat (map json_escape s))"
    by (induction s) (simp_all add: json_escape_printable)
  then show ?thesis by (simp add: dumps_string_def) (simp add: printable_def)
qed

lemma int_str_printable: "list_all printable (int_str i)"
proof -
  have "list_all printable (nat_str n)" for n
    using nat_str_digits [of n] printable_digit by (auto simp: list_all_iff)
  then show ?thesis by (simp add: int_str_def) (simp add: printable_def)
qed

lemma dumps_printable_with:
  assumes "list_all printable sp"
  shows "json_ok v \<Longrightarrow> list_all printable (dumps_with sp v)"
    and "list_all json_ok vs \<Longrightarrow> list_all printable (elems_with sp vs)"
    and "list_all (\<lambda>kv. json_ok (snd kv)) kvs \<Longrightarrow> list_all printable (members_with sp kvs)"
proof (induction v and vs and kvs rule: json_dumps_dumps_elems_dumps_members.induct)
  case (4 t)
  have "printable c" if "c \<in> set t" for c
    using scan_number_chars [of t c] 4 that printable_digit by (auto simp: printable_def)
  then show ?case by (simp add: list_all_iff)
qed (simp_all add: int_str_printable dumps_string_printable assms, simp_all add: printable_def)

lemma dumps_printable: "json_ok v \<Longrightarrow> list_all printable (json_dumps v)"
  using dumps_printable_with(1) [of "[]" v] by (simp add: dumps_compact)

section \<open>Splitting lines\<close>

definition add_nl :: "string \<Rightarrow> string" where
  "add_nl t = t @ [CHR 0x0A]"

lemma splitlines_keep_line:
  assumes "list_all (\<lambda>c. \<not> brk c) t" and "brk (CHR 0x0A)"
  shows "splitlines_keep brk (add_nl t @ s) = add_nl t # splitlines_keep brk s"
proof -
  have "takeWhile (\<lambda>c. \<not> brk c) (add_nl t @ s) = t" "dropWhile (\<lambda>c. \<not> brk c) (add_nl t @ s) = CHR 0x0A # s"
    using assms by (simp_all add: add_nl_def takeWhile_append2 dropWhile_append2 list_all_iff)
  then show ?thesis
    by (subst splitlines_keep.simps) (simp add: Let_def startswith_def add_nl_def)
qed

lemma splitlines_keep_last:
  assumes "list_all (\<lambda>c. \<not> brk c) p"
  shows "splitlines_keep brk p = (if p = [] then [] else [p])"
proof -
  have "takeWhile (\<lambda>c. \<not> brk c) p = p" "dropWhile (\<lambda>c. \<not> brk c) p = []"
    using assms by (simp_all add: list_all_iff takeWhile_eq_all_conv dropWhile_eq_Nil_conv)
  then show ?thesis by (subst splitlines_keep.simps) (simp add: Let_def)
qed

lemma splitlines_keep_lines:
  assumes "brk (CHR 0x0A)" and "list_all (\<lambda>c. \<not> brk c) p"
  shows "list_all (\<lambda>t. list_all (\<lambda>c. \<not> brk c) t) ts \<Longrightarrow>
     splitlines_keep brk (concat (map add_nl ts) @ p) = map add_nl ts @ (if p = [] then [] else [p])"
  by (induction ts) (simp_all add: splitlines_keep_line assms splitlines_keep_last)

section \<open>UTF-8\<close>

lemma byte_quotient: "128 \<le> n \<Longrightarrow> n < 256 \<Longrightarrow> n div 64 = 2 \<or> n div 64 = (3 :: nat)"
proof -
  assume "128 \<le> n" "n < 256"
  then have "2 \<le> n div 64" "n div 64 < 4"
    using div_le_mono [of 128 n 64] less_mult_imp_div_less [of n 4 64] by simp_all
  then show ?thesis by linarith
qed

lemma utf8_char_pair:
  assumes "\<not> of_char c < (128 :: nat)"
  shows "\<exists>a b. utf8_char c = [a, b] \<and> utf8_lead a \<and> utf8_cont b \<and> utf8_pair a b = c
     \<and> \<not> of_char a < (128 :: nat) \<and> \<not> of_char b < (128 :: nat)"
proof -
  let ?n = "of_char c :: nat"
  have n: "128 \<le> ?n" "?n < 256" using assms nat_of_char_less_256 [of c] by linarith+
  then have q: "?n div 64 = 2 \<or> ?n div 64 = 3" by (rule byte_quotient)
  then have a: "of_char (char_of (192 + ?n div 64) :: char) = 192 + ?n div 64" by auto
  have "128 + ?n mod 64 < 256" using mod_less_divisor [of 64 ?n] by linarith
  then have b: "of_char (char_of (128 + ?n mod 64) :: char) = 128 + ?n mod 64" by (simp only: of_char_of mod_less)
  have lead: "utf8_lead (char_of (192 + ?n div 64))" using q unfolding utf8_lead_def a by auto
  have "utf8_cont (char_of (128 + ?n mod 64))" unfolding utf8_cont_def b by simp
  moreover have "(192 + ?n div 64 - 192) * 64 + (128 + ?n mod 64 - 128) = ?n" by simp
  then have "utf8_pair (char_of (192 + ?n div 64)) (char_of (128 + ?n mod 64)) = c"
    unfolding utf8_pair_def a b by simp
  ultimately show ?thesis using assms lead a b by (simp add: utf8_char_def Let_def)
qed

lemma utf8_encode_simps: "utf8_encode [] = []" "utf8_encode (c # t) = utf8_char c @ utf8_encode t"
  "utf8_encode (s @ t) = utf8_encode s @ utf8_encode t"
  by (simp_all add: utf8_encode_def)

lemma utf8_decode_char:
  "utf8_decode_from pos (utf8_char c @ s) = map_sum id (Cons c) (utf8_decode_from (pos + length (utf8_char c)) s)"
proof (cases "of_char c < (128 :: nat)")
  case False
  then obtain a b where "utf8_char c = [a, b]" "utf8_lead a" "utf8_cont b" "utf8_pair a b = c" "\<not> of_char a < (128 :: nat)"
    using utf8_char_pair by blast
  then show ?thesis by simp
qed (simp add: utf8_char_def)

lemma utf8_decode_append:
  "utf8_decode_from pos (utf8_encode t @ s) = map_sum id (append t) (utf8_decode_from (pos + length (utf8_encode t)) s)"
proof (induction t arbitrary: pos)
  case Nil
  show ?case by (cases "utf8_decode_from pos s") (simp_all add: utf8_encode_simps)
next
  case (Cons c t)
  then show ?case
    by (cases "utf8_decode_from (pos + (length (utf8_char c) + length (utf8_encode t))) s")
      (simp_all add: utf8_encode_simps utf8_decode_char add.assoc)
qed

lemma utf8_decode_encode: "utf8_decode (utf8_encode t) = Inr t"
  using utf8_decode_append [of 0 t "[]"] by (simp add: utf8_decode_def)

lemma utf8_decode_torn:
  "utf8_lead a \<Longrightarrow> utf8_decode (utf8_encode t @ [a]) = Inl (length (utf8_encode t))"
  using utf8_decode_append [of 0 t "[a]"] by (auto simp: utf8_decode_def utf8_lead_def)

lemma take_utf8_encode:
  "\<exists>m \<le> length t. take n (utf8_encode t) = utf8_encode (take m t)
     \<or> (\<exists>a. utf8_lead a \<and> m < length t \<and> take n (utf8_encode t) = utf8_encode (take m t) @ [a])"
proof (induction t arbitrary: n)
  case (Cons c t)
  show ?case
  proof (cases "length (utf8_char c) \<le> n")
    case True
    obtain m where "m \<le> length t" "take (n - length (utf8_char c)) (utf8_encode t) = utf8_encode (take m t)
       \<or> (\<exists>a. utf8_lead a \<and> m < length t \<and> take (n - length (utf8_char c)) (utf8_encode t) = utf8_encode (take m t) @ [a])"
      using Cons.IH by blast
    then show ?thesis using True by (intro exI [of _ "Suc m"]) (auto simp: utf8_encode_simps)
  next
    case False
    show ?thesis
    proof (cases "of_char c < (128 :: nat)")
      case True
      then show ?thesis using False by (intro exI [of _ 0]) (simp add: utf8_char_def utf8_encode_simps)
    next
      case two: False
      then obtain a b where "utf8_char c = [a, b]" "utf8_lead a" using utf8_char_pair by blast
      moreover from this have "n = 0 \<or> n = 1" using False by auto
      ultimately show ?thesis by (intro exI [of _ 0]) (auto simp: utf8_encode_simps)
    qed
  qed
qed (simp add: utf8_encode_simps)

lemma utf8_encode_plain:
  assumes "list_all printable t" and "c \<in> set (utf8_encode t)"
  shows "\<not> bytes_break c"
proof -
  obtain d where d: "d \<in> set t" "c \<in> set (utf8_char d)" using assms(2) by (auto simp: utf8_encode_def)
  show ?thesis
  proof (cases "of_char d < (128 :: nat)")
    case True
    then have "c = d" using d(2) by (simp add: utf8_char_def)
    then show ?thesis using d(1) assms(1) by (auto simp: bytes_break_def printable_def list_all_iff)
  next
    case False
    then obtain a b where "utf8_char d = [a, b]" "\<not> of_char a < (128 :: nat)" "\<not> of_char b < (128 :: nat)"
      using utf8_char_pair by blast
    then show ?thesis using d(2) by (auto simp: bytes_break_def)
  qed
qed

section \<open>A journal of complete records\<close>

type_synonym jrecord = "pydict \<times> pydict list" \<comment> \<open>the object of a line and the events it stands for\<close>

declare json_dumps.simps [simp del]

abbreviation rtext :: "jrecord \<Rightarrow> string" where
  "rtext r \<equiv> json_dumps (PyDict (fst r))"

definition rec_ok :: "jrecord \<Rightarrow> bool" where
  "rec_ok r \<longleftrightarrow> json_ok (PyDict (fst r)) \<and> CHR 0x85 \<notin> set (rtext r)
     \<and> (\<forall>strict n. events_from_journal_record strict n (fst r) = Inr (snd r))"

definition jtext :: "jrecord list \<Rightarrow> string" where
  "jtext rs = concat (map add_nl (map rtext rs))"

definition jbytes :: "jrecord list \<Rightarrow> bytes" where
  "jbytes rs = utf8_encode (jtext rs)"

lemma jtext_simps: "jtext [] = []" "jtext (r # rs) = rtext r @ CHR 0x0A # jtext rs" "jtext (rs @ qs) = jtext rs @ jtext qs"
  by (simp_all add: jtext_def add_nl_def)

lemma jtext_last: "rs \<noteq> [] \<Longrightarrow> jtext rs \<noteq> [] \<and> last (jtext rs) = CHR 0x0A"
  by (induction rs rule: rev_induct) (simp_all add: jtext_simps)

lemma rtext_printable: "rec_ok r \<Longrightarrow> list_all printable (rtext r)"
  unfolding rec_ok_def by (rule dumps_printable) blast

lemma printable_not_break: "printable c \<Longrightarrow> c \<noteq> CHR 0x85 \<Longrightarrow> \<not> str_break c"
  by (auto simp: str_break_def printable_def)

lemma rtext_no_break: "rec_ok r \<Longrightarrow> list_all (\<lambda>c. \<not> str_break c) (rtext r)"
  unfolding list_all_iff
proof
  fix c
  assume r: "rec_ok r" and c: "c \<in> set (rtext r)"
  have "printable c" using rtext_printable [OF r] c by (simp add: list_all_iff)
  moreover have "c \<noteq> CHR 0x85" using r c unfolding rec_ok_def by metis
  ultimately show "\<not> str_break c" by (rule printable_not_break)
qed

lemma str_break_newline: "str_break (CHR 0x0A)" "bytes_break (CHR 0x0A)"
  by (simp_all add: str_break_def bytes_break_def)

lemma is_space_braces [simp]: "\<not> is_space (CHR ''{'')" "\<not> is_space (CHR ''}'')" "is_space (CHR 0x0A)"
  by (simp_all add: is_space_def code_def)

lemma strip_record:
  assumes "rec_ok r"
  shows "strip (rtext r) = rtext r" "strip (add_nl (rtext r)) = rtext r" "rtext r \<noteq> []"
  by (simp_all add: strip_def lstrip_def rstrip_by_def add_nl_def json_dumps.simps)

lemma loads_record:
  assumes "rec_ok r"
  shows "json_loads (rtext r) = Some (PyDict (fst r))" "json_loads (add_nl (rtext r)) = Some (PyDict (fst r))"
proof -
  have "json_ok (PyDict (fst r))" using assms by (simp add: rec_ok_def)
  then show "json_loads (rtext r) = Some (PyDict (fst r))" "json_loads (add_nl (rtext r)) = Some (PyDict (fst r))"
    using loads_dumps_ws [of "PyDict (fst r)" "[]" True] loads_dumps_ws [of "PyDict (fst r)" "[CHR 0x0A]" True]
    by (simp_all add: add_nl_def json_space_def)
qed

lemma record_text_valid_record: "rec_ok r \<Longrightarrow> record_text_valid (rtext r) \<and> record_text_valid (add_nl (rtext r))"
  using loads_record [of r] by (simp add: record_text_valid_def rec_ok_def)

lemma read_lines_records:
  "list_all rec_ok rs \<Longrightarrow> read_lines strict n (map rtext rs) = Inr (concat (map snd rs))"
proof (induction rs arbitrary: n)
  case (Cons r rs)
  then show ?case
    using loads_record(1) [of r] strip_record(1,3) [of r] by (simp add: rec_ok_def)
qed simp

lemma splitlines_jtext:
  assumes "list_all rec_ok rs" and "list_all (\<lambda>c. \<not> str_break c) p"
  shows "splitlines_keep str_break (jtext rs @ p) = map (add_nl \<circ> rtext) rs @ (if p = [] then [] else [p])"
proof -
  have "list_all (\<lambda>t. list_all (\<lambda>c. \<not> str_break c) t) (map rtext rs)"
    using assms(1) rtext_no_break by (auto simp: list_all_iff)
  then show ?thesis
    using splitlines_keep_lines [of str_break p "map rtext rs"] assms(2) str_break_newline
    by (simp add: jtext_def comp_def)
qed

lemma line_body: "rec_ok r \<Longrightarrow> takeWhile (\<lambda>c. \<not> str_break c) (add_nl (rtext r)) = rtext r"
  using rtext_no_break [of r] str_break_newline(1)
  by (simp add: add_nl_def takeWhile_append2 list_all_iff)

lemma splitlines_records: "list_all rec_ok rs \<Longrightarrow> splitlines str_break (jtext rs) = map rtext rs"
  using splitlines_jtext [of rs "[]"] line_body
  by (auto simp: splitlines_def list_all_iff intro!: map_cong)

lemma read_content_records:
  assumes "list_all rec_ok rs"
  shows "read_content strict (jbytes rs) = Inr (sort_key sequence_value (concat (map snd rs)))"
proof -
  have "jtext rs = [] \<or> last (jtext rs) = CHR 0x0A" using jtext_last [of rs] by (cases "rs = []") (simp_all add: jtext_simps)
  then show ?thesis
    using assms by (auto simp: read_content_def jbytes_def utf8_decode_encode splitlines_records read_lines_records
       )
qed

section \<open>A torn last line\<close>

text \<open>What a crash leaves of a record: the first bytes of its line, without the newline.\<close>

definition torn_ok :: "jrecord \<Rightarrow> bytes \<Rightarrow> bool" where
  "torn_ok r torn \<longleftrightarrow> rec_ok r \<and> torn \<noteq> [] \<and> (\<exists>n. torn = take n (utf8_encode (rtext r)))"

definition salvaged :: "jrecord \<Rightarrow> bytes \<Rightarrow> jrecord list" where
  \<comment> \<open>a record of which only the newline is missing survives\<close>
  "salvaged r torn = (if torn = utf8_encode (rtext r) then [r] else [])"

lemma strip_prefix:
  assumes "p \<noteq> []" and "rtext r = p @ q"
  shows "\<exists>z. p = strip p @ z \<and> strip p \<noteq> []"
proof -
  obtain p' where p: "p = CHR ''{'' # p'" using assms by (cases p) (auto simp: json_dumps.simps)
  have "rstrip_by is_space p = rev (dropWhile is_space (rev p))" by (simp add: rstrip_by_def)
  moreover have "\<exists>z. p = rev (dropWhile is_space (rev p)) @ z"
    by (metis rev_append rev_rev_ident takeWhile_dropWhile_id)
  moreover have "rev (dropWhile is_space (rev p)) \<noteq> []" using p by (simp add: dropWhile_eq_Nil_conv)
  ultimately show ?thesis using p by (simp add: strip_def lstrip_def)
qed

lemma torn_text_invalid:
  assumes "rec_ok r" and "p \<noteq> []" and "rtext r = p @ q" and "q \<noteq> []"
  shows "\<not> blank p" "\<not> record_text_valid (strip p)" "\<not> record_text_valid p"
proof -
  obtain z where z: "p = strip p @ z" "strip p \<noteq> []" using strip_prefix assms(2,3) by blast
  have none: "json_loads u = None" if "rtext r = u @ v" "v \<noteq> []" for u v
    using loads_prefix_None [of "fst r" u v True] that assms(1) by (simp add: rec_ok_def del: json_ok.simps)
  have "rtext r = strip p @ z @ q" using assms(3) z(1) by (metis append_assoc)
  then have "json_loads (strip p) = None" using none assms(4) by blast
  moreover have "json_loads p = None" using none [OF assms(3,4)] .
  ultimately show "\<not> record_text_valid (strip p)" "\<not> record_text_valid p"
    by (simp_all add: record_text_valid_def)
  show "\<not> blank p" using z(2) by (simp add: blank_def)
qed

lemma jtext_valid_lines:
  "list_all rec_ok rs \<Longrightarrow>
     list_all (\<lambda>l. blank l \<or> record_text_valid (strip l)) (map (add_nl \<circ> rtext) rs)"
  using strip_record(2) record_text_valid_record by (auto simp: list_all_iff)

lemma concat_lines: "concat (map (add_nl \<circ> rtext) rs) = jtext rs"
  by (simp add: jtext_def)

lemma span_first_bad: "\<forall>x \<in> set xs. P x \<Longrightarrow> \<not> P y \<Longrightarrow> takeWhile P (xs @ [y]) = xs \<and> dropWhile P (xs @ [y]) = [y]"
  by (induction xs) simp_all

lemma repairable_tail_torn:
  assumes rs: "list_all rec_ok rs" and r: "rec_ok r" and p: "p \<noteq> []" "rtext r = p @ q"
  shows "repairable_tail (jtext rs @ p) = Some (if q = [] then (jtext (rs @ [r]), []) else (jtext rs, p))"
proof -
  let ?P = "\<lambda>l. blank l \<or> record_text_valid (strip l)"
  have nb: "list_all (\<lambda>c. \<not> str_break c) p" using rtext_no_break [OF r] p(2) by simp
  have lines: "splitlines_keep str_break (jtext rs @ p) = map (add_nl \<circ> rtext) rs @ [p]"
    using splitlines_jtext [OF rs nb] p(1) by simp
  have good: "\<forall>l \<in> set (map (add_nl \<circ> rtext) rs). ?P l"
    using jtext_valid_lines [OF rs] by (simp add: list_all_iff)
  show ?thesis
  proof (cases "q = []")
    case True
    then have "?P p" using p(2) strip_record(1) [OF r] record_text_valid_record [OF r] by simp
    then have "dropWhile ?P (map (add_nl \<circ> rtext) rs @ [p]) = []"
      using good by (auto simp: dropWhile_eq_Nil_conv)
    moreover have "last (jtext rs @ p) \<noteq> CHR 0x0A"
    proof -
      have "list_all (\<lambda>c. \<not> str_break c) p" by (rule nb)
      then have "CHR 0x0A \<notin> set p" using str_break_newline(1) by (auto simp: list_all_iff)
      then have "last p \<noteq> CHR 0x0A" using last_in_set [OF p(1)] by metis
      then show ?thesis using p(1) by simp
    qed
    ultimately show ?thesis
      using True p by (simp add: repairable_tail_def lines jtext_simps Let_def del: dropWhile_eq_Nil_conv)
  next
    case False
    then have "\<not> ?P p" using torn_text_invalid [OF r p False] by blast
    then have "takeWhile ?P (map (add_nl \<circ> rtext) rs @ [p]) = map (add_nl \<circ> rtext) rs"
      and "dropWhile ?P (map (add_nl \<circ> rtext) rs @ [p]) = [p]"
      using span_first_bad [OF good, of p] by blast+
    moreover have "jtext rs = [] \<or> last (jtext rs) = CHR 0x0A"
      using jtext_last [of rs] by (cases "rs = []") (simp_all add: jtext_simps)
    ultimately show ?thesis
      using False p(1) by (auto simp: repairable_tail_def lines concat_lines Let_def simp del: dropWhile_eq_Nil_conv)
  qed
qed

lemma complete_records: "list_all rec_ok rs \<Longrightarrow> contains_only_complete_json_records (jtext rs)"
proof -
  assume rs: "list_all rec_ok rs"
  have "jtext rs = [] \<or> last (jtext rs) = CHR 0x0A"
    using jtext_last [of rs] by (cases "rs = []") (simp_all add: jtext_simps)
  moreover have "list_all record_text_valid (map rtext rs)"
    using rs record_text_valid_record by (auto simp: list_all_iff)
  ultimately show ?thesis
    using splitlines_records [OF rs] by (auto simp: contains_only_complete_json_records_def list_all_iff)
qed

lemma rtext_utf8_no_break: "rec_ok r \<Longrightarrow> list_all (\<lambda>c. \<not> bytes_break c) (utf8_encode (rtext r))"
  using utf8_encode_plain [OF rtext_printable] by (auto simp: list_all_iff)

lemma torn_cases:
  assumes "torn_ok r torn"
  obtains (at_char) p q where "p \<noteq> []" "rtext r = p @ q" "torn = utf8_encode p"
  | (in_char) p a q where "utf8_lead a" "torn = utf8_encode p @ [a]" "rtext r = p @ q" "torn \<noteq> utf8_encode (rtext r)"
proof -
  obtain n where torn: "torn = take n (utf8_encode (rtext r))" "torn \<noteq> []" using assms by (auto simp: torn_ok_def)
  obtain m where m: "m \<le> length (rtext r)" "torn = utf8_encode (take m (rtext r))
     \<or> (\<exists>a. utf8_lead a \<and> m < length (rtext r) \<and> torn = utf8_encode (take m (rtext r)) @ [a])"
    using take_utf8_encode [of "rtext r" n] torn(1) by auto
  have parts: "rtext r = take m (rtext r) @ drop m (rtext r)" by simp
  from m(2) show thesis
  proof
    assume t: "torn = utf8_encode (take m (rtext r))"
    then have "take m (rtext r) \<noteq> []" using torn(2) by (metis utf8_encode_simps(1))
    then show thesis using that(1) parts t by blast
  next
    assume "\<exists>a. utf8_lead a \<and> m < length (rtext r) \<and> torn = utf8_encode (take m (rtext r)) @ [a]"
    then obtain a where a: "utf8_lead a" "torn = utf8_encode (take m (rtext r)) @ [a]" by blast
    have "utf8_decode torn \<noteq> Inr (rtext r)" using utf8_decode_torn [OF a(1)] a(2) by simp
    then have "torn \<noteq> utf8_encode (rtext r)" using utf8_decode_encode by auto
    then show thesis using that(2) a parts by blast
  qed
qed

lemma rfind_line_start_lines:
  assumes "CHR 0x0A \<notin> set p" and "b = [] \<or> last b = CHR 0x0A"
  shows "rfind_line_start (b @ p @ s) (length b + length p) = length b"
proof -
  have "dropWhile (\<lambda>c. c \<noteq> CHR 0x0A) (rev p @ rev b) = dropWhile (\<lambda>c. c \<noteq> CHR 0x0A) (rev b)"
    using assms(1) by (intro dropWhile_append2) auto
  also have "\<dots> = rev b" using assms(2) by (cases b rule: rev_cases) auto
  finally show ?thesis by (simp add: rfind_line_start_def)
qed

lemma jbytes_last: "jbytes rs = [] \<or> last (jbytes rs) = CHR 0x0A"
proof (cases rs rule: rev_cases)
  case (snoc qs r)
  have "utf8_char (CHR 0x0A) = [CHR 0x0A]" by (simp add: utf8_char_def)
  then show ?thesis by (simp add: snoc jbytes_def jtext_simps utf8_encode_simps)
qed (simp add: jbytes_def jtext_simps utf8_encode_simps)

lemma repairable_tail_bytes_torn:
  assumes rs: "list_all rec_ok rs" and torn: "torn_ok r torn"
  shows "repairable_tail_bytes (jbytes rs @ torn)
    = Some (jbytes (rs @ salvaged r torn), if salvaged r torn = [] then torn else [])"
proof -
  have r: "rec_ok r" and ne: "torn \<noteq> []" using torn by (auto simp: torn_ok_def)
  from torn show ?thesis
  proof (cases rule: torn_cases)
    case (at_char p q)
    have "utf8_decode (jbytes rs @ torn) = Inr (jtext rs @ p)"
      using utf8_decode_encode [of "jtext rs @ p"] at_char(3) by (simp add: jbytes_def utf8_encode_simps)
    moreover have "torn = utf8_encode (rtext r) \<longleftrightarrow> q = []"
      using at_char(2,3) utf8_decode_encode by (metis Inr_inject append_self_conv)
    ultimately show ?thesis
      using repairable_tail_torn [OF rs r at_char(1,2)] ne at_char
      by (auto simp: repairable_tail_bytes_def salvaged_def jbytes_def jtext_simps utf8_encode_simps)
  next
    case (in_char p a q)
    have dec: "utf8_decode (jbytes rs @ torn) = Inl (length (jbytes rs) + length (utf8_encode p))"
      using utf8_decode_torn [OF in_char(1), of "jtext rs @ p"] in_char(2) by (simp add: jbytes_def utf8_encode_simps)
    have sub: "set torn \<subseteq> set (utf8_encode (rtext r))" using torn by (auto simp: torn_ok_def dest: in_set_takeD)
    then have nb: "list_all (\<lambda>c. \<not> bytes_break c) torn"
      using rtext_utf8_no_break [OF r] by (auto simp: list_all_iff)
    then have "CHR 0x0A \<notin> set (utf8_encode p)" using in_char(2) str_break_newline(2) by (auto simp: list_all_iff)
    then have start: "rfind_line_start (jbytes rs @ torn) (length (jbytes rs) + length (utf8_encode p)) = length (jbytes rs)"
      using rfind_line_start_lines [of "utf8_encode p" "jbytes rs" "[a]"] jbytes_last in_char(2) by simp
    have "splitlines_keep bytes_break torn = [torn]" using splitlines_keep_last [OF nb] ne by simp
    moreover have "utf8_decode (jbytes rs) = Inr (jtext rs)" by (simp add: jbytes_def utf8_decode_encode)
    ultimately show ?thesis
      using dec start complete_records [OF rs] in_char(4) ne by (simp add: repairable_tail_bytes_def salvaged_def Let_def)
  qed
qed

section \<open>The state of the tail before an append\<close>

abbreviation rbytes :: "jrecord \<Rightarrow> bytes" where
  "rbytes r \<equiv> utf8_encode (rtext r)"

lemma utf8_add_nl: "utf8_encode (add_nl t) = add_nl (utf8_encode t)"
  by (simp add: add_nl_def utf8_encode_simps utf8_char_def)

lemma jbytes_lines: "jbytes rs = concat (map add_nl (map rbytes rs))"
  by (induction rs) (simp_all add: jbytes_def jtext_def utf8_encode_simps utf8_add_nl)

lemma rbytes_first: "\<exists>q. rbytes r = CHR ''{'' # q"
  by (simp add: json_dumps.simps utf8_encode_simps utf8_char_def)

lemma splitlines_jbytes:
  assumes "list_all rec_ok rs" and "list_all (\<lambda>c. \<not> bytes_break c) p"
  shows "splitlines_keep bytes_break (jbytes rs @ p) = map (add_nl \<circ> rbytes) rs @ (if p = [] then [] else [p])"
proof -
  have "list_all (\<lambda>t. list_all (\<lambda>c. \<not> bytes_break c) t) (map rbytes rs)"
    using assms(1) rtext_utf8_no_break by (auto simp: list_all_iff)
  then show ?thesis
    using splitlines_keep_lines [of bytes_break p "map rbytes rs"] assms(2) str_break_newline
    by (simp add: jbytes_lines comp_def)
qed

lemma record_line_facts:
  assumes "rec_ok r"
  shows "\<not> bytes_blank (add_nl (rbytes r))" "record_bytes_valid (add_nl (rbytes r))" "record_bytes_valid (rbytes r)"
proof -
  have "\<not> bytes_space (CHR ''{'')" by (simp add: bytes_space_def)
  then show "\<not> bytes_blank (add_nl (rbytes r))" using rbytes_first [of r] by (auto simp: bytes_blank_def add_nl_def)
  show "record_bytes_valid (add_nl (rbytes r))" "record_bytes_valid (rbytes r)"
    using record_text_valid_record [OF assms]
    by (simp_all add: record_bytes_valid_def utf8_decode_encode flip: utf8_add_nl)
qed

lemma lines_not_blank: "list_all rec_ok rs \<Longrightarrow> filter (\<lambda>l. \<not> bytes_blank l) (map (add_nl \<circ> rbytes) rs) = map (add_nl \<circ> rbytes) rs"
  using record_line_facts(1) by (auto simp: list_all_iff filter_id_conv)

lemma lines_valid: "list_all rec_ok rs \<Longrightarrow> \<not> list_ex (\<lambda>l. \<not> record_bytes_valid l) (map (add_nl \<circ> rbytes) rs)"
  using record_line_facts(2) by (auto simp: list_all_iff list_ex_iff)

lemma classify_clean:
  assumes "list_all rec_ok rs"
  shows "classify_tail (jbytes rs) = Tail_Clean"
proof (cases rs rule: rev_cases)
  case (snoc qs r)
  have "rec_ok r" "list_all rec_ok qs" using assms snoc by auto
  moreover have "last (jbytes rs) = CHR 0x0A" using jbytes_last [of rs] rbytes_first [of r] by (auto simp: snoc jbytes_lines add_nl_def)
  ultimately show ?thesis
    using splitlines_jbytes [OF assms, of "[]"] lines_not_blank [OF assms] lines_valid [of qs] record_line_facts(2) [of r] snoc
    by (simp add: classify_tail_def Let_def)
qed (simp add: classify_tail_def jbytes_def jtext_simps utf8_encode_simps splitlines_keep.simps [of _ "[]"])

lemma torn_plain: "torn_ok r torn \<Longrightarrow> list_all (\<lambda>c. \<not> bytes_break c) torn"
  using rtext_utf8_no_break [of r] by (auto simp: torn_ok_def list_all_iff dest: in_set_takeD)

lemma torn_no_newline: "torn_ok r torn \<Longrightarrow> CHR 0x0A \<notin> set torn \<and> last torn \<noteq> CHR 0x0A"
proof -
  assume torn: "torn_ok r torn"
  have "CHR 0x0A \<notin> set torn" using torn_plain [OF torn] str_break_newline(2) by (auto simp: list_all_iff)
  moreover have "torn \<noteq> []" using torn by (simp add: torn_ok_def)
  ultimately show ?thesis using last_in_set by metis
qed

lemma torn_first: "torn_ok r torn \<Longrightarrow> \<not> bytes_blank torn"
proof -
  assume "torn_ok r torn"
  then obtain n where "torn = take n (rbytes r)" "torn \<noteq> []" by (auto simp: torn_ok_def)
  then obtain q where "torn = CHR ''{'' # q" using rbytes_first [of r] by (cases n) auto
  then show ?thesis by (simp add: bytes_blank_def bytes_space_def)
qed

lemma classify_torn:
  assumes rs: "list_all rec_ok rs" and torn: "torn_ok r torn"
  shows "classify_tail (jbytes rs @ torn) = Tail_Repairable"
proof -
  have ne: "torn \<noteq> []" using torn by (simp add: torn_ok_def)
  have "last torn \<noteq> CHR 0x0A" using torn_no_newline [OF torn] by blast
  then show ?thesis
    using splitlines_jbytes [OF rs torn_plain [OF torn]] ne torn_first [OF torn] lines_not_blank [OF rs] lines_valid [OF rs]
    by (simp add: classify_tail_def Let_def)
qed

lemma skip_to_char: "c \<notin> set xs \<Longrightarrow> dropWhile (\<lambda>d. d \<noteq> c) (xs @ c # ys) = c # ys"
  by (induction xs) auto

lemma after_newline:
  "\<forall>b \<in> set bs. CHR 0x0A \<notin> set b \<Longrightarrow> CHR 0x0A \<notin> set p \<Longrightarrow> CHR 0x0A \<in> set (drop k (concat (map add_nl bs) @ p)) \<Longrightarrow>
   \<exists>j. tl (dropWhile (\<lambda>c. c \<noteq> CHR 0x0A) (drop k (concat (map add_nl bs) @ p))) = concat (map add_nl (drop j bs)) @ p"
proof (induction bs arbitrary: k)
  case Nil
  then show ?case by (auto dest: in_set_dropD)
next
  case (Cons b bs)
  let ?rest = "concat (map add_nl bs) @ p"
  show ?case
  proof (cases "k \<le> length b")
    case True
    then have "drop k (add_nl b @ ?rest) = drop k b @ CHR 0x0A # ?rest" by (simp add: add_nl_def)
    moreover have "CHR 0x0A \<notin> set (drop k b)" using Cons.prems(1) by (auto dest: in_set_dropD)
    ultimately have "tl (dropWhile (\<lambda>c. c \<noteq> CHR 0x0A) (drop k (add_nl b @ ?rest))) = ?rest"
      using skip_to_char [of "CHR 0x0A" "drop k b" ?rest] by simp
    then show ?thesis by (intro exI [of _ 1]) simp
  next
    case False
    then have "drop k (add_nl b @ ?rest) = drop (k - length (add_nl b)) ?rest" by (simp only: drop_append, simp add: add_nl_def)
    then have "drop k (add_nl b @ ?rest) = drop (k - Suc (length b)) ?rest" by (simp add: add_nl_def)
    then show ?thesis using Cons.IH [of "k - Suc (length b)"] Cons.prems by (auto intro: exI [of _ "Suc _"])
  qed
qed

lemma rbytes_no_newline: "rec_ok r \<Longrightarrow> CHR 0x0A \<notin> set (rbytes r)"
  using rtext_utf8_no_break [of r] str_break_newline(2) by (auto simp: list_all_iff)

lemma append_tail_state_window:
  assumes rs: "list_all rec_ok rs" and p: "CHR 0x0A \<notin> set p" and small: "length p < APPEND_TAIL_SCAN_BYTES"
    and all: "\<And>j. classify_tail (jbytes (drop j rs) @ p) = st" and ne: "jbytes rs @ p \<noteq> []"
  shows "append_tail_state (jbytes rs @ p) = st"
proof (cases "length (jbytes rs @ p) \<le> APPEND_TAIL_SCAN_BYTES")
  case True
  then show ?thesis using all [of 0] ne by (auto simp: append_tail_state_def Let_def min_def)
next
  case False
  let ?k = "length (jbytes rs @ p) - APPEND_TAIL_SCAN_BYTES"
  have k: "?k < length (jbytes rs)" using False small by simp
  then have "jbytes rs \<noteq> []" by auto
  then have "last (drop ?k (jbytes rs)) = CHR 0x0A" using jbytes_last [of rs] k by (simp add: last_drop)
  moreover have "drop ?k (jbytes rs) \<noteq> []" using k by simp
  ultimately have "CHR 0x0A \<in> set (drop ?k (jbytes rs))" using last_in_set by metis
  then have nl: "CHR 0x0A \<in> set (drop ?k (jbytes rs @ p))" by simp
  have "\<forall>b \<in> set (map rbytes rs). CHR 0x0A \<notin> set b" using rs rbytes_no_newline by (auto simp: list_all_iff)
  then obtain j where "tl (dropWhile (\<lambda>c. c \<noteq> CHR 0x0A) (drop ?k (jbytes rs @ p))) = jbytes (drop j rs) @ p"
    using after_newline [of "map rbytes rs" p ?k] p nl by (auto simp: jbytes_lines drop_map)
  then show ?thesis using False all [of j] nl ne by (auto simp: append_tail_state_def Let_def min_def)
qed

lemma list_all_drop: "list_all P xs \<Longrightarrow> list_all P (drop j xs)"
  by (auto simp: list_all_iff dest: in_set_dropD)

lemma append_tail_state_clean: "list_all rec_ok rs \<Longrightarrow> append_tail_state (jbytes rs) = Tail_Clean"
proof (cases "jbytes rs = []")
  case False
  assume rs: "list_all rec_ok rs"
  have "classify_tail (jbytes (drop j rs) @ []) = Tail_Clean" for j using classify_clean [OF list_all_drop [OF rs]] by simp
  then show ?thesis using append_tail_state_window [OF rs, of "[]" Tail_Clean] False by (simp add: APPEND_TAIL_SCAN_BYTES_def)
qed (simp add: append_tail_state_def)

lemma append_tail_state_torn:
  assumes rs: "list_all rec_ok rs" and torn: "torn_ok r torn" and "length torn < APPEND_TAIL_SCAN_BYTES"
  shows "append_tail_state (jbytes rs @ torn) = Tail_Repairable"
proof (rule append_tail_state_window [OF rs])
  show "CHR 0x0A \<notin> set torn" using torn_no_newline [OF torn] by blast
  show "classify_tail (jbytes (drop j rs) @ torn) = Tail_Repairable" for j
    using classify_torn [OF list_all_drop [OF rs] torn] .
  show "jbytes rs @ torn \<noteq> []" using torn by (simp add: torn_ok_def)
qed (rule assms(3))

section \<open>The journal refines a log of records\<close>

definition clean_state :: "journal \<Rightarrow> jrecord list \<Rightarrow> bool" where
  "clean_state j rs \<longleftrightarrow> list_all rec_ok rs \<and> (jr_file j = None \<and> rs = [] \<or> jr_file j = Some (jbytes rs))"

definition torn_state :: "journal \<Rightarrow> jrecord list \<Rightarrow> bool" where
  "torn_state j rs \<longleftrightarrow> (\<exists>qs r torn. list_all rec_ok qs \<and> torn_ok r torn \<and> length torn < APPEND_TAIL_SCAN_BYTES
     \<and> jr_file j = Some (jbytes qs @ torn) \<and> rs = qs @ salvaged r torn)"

definition log_state :: "journal \<Rightarrow> jrecord list \<Rightarrow> bool" where
  "log_state j rs \<longleftrightarrow> clean_state j rs \<or> torn_state j rs"

lemma repair_torn:
  assumes "torn_state j rs"
  shows "\<exists>j'. repair_tail j = (True, j') \<and> clean_state j' rs"
proof -
  obtain qs r torn where q: "list_all rec_ok qs" "torn_ok r torn" "jr_file j = Some (jbytes qs @ torn)" "rs = qs @ salvaged r torn"
    using assms by (auto simp: torn_state_def)
  have ok: "list_all rec_ok rs" using q by (auto simp: salvaged_def torn_ok_def)
  have "jbytes rs \<noteq> jbytes qs @ torn"
  proof
    assume same: "jbytes rs = jbytes qs @ torn"
    have "torn \<noteq> []" using q(2) by (simp add: torn_ok_def)
    then have "last (jbytes rs) \<noteq> CHR 0x0A"
      using same torn_no_newline [OF q(2)] by simp
    then show False using jbytes_last [of rs] same \<open>torn \<noteq> []\<close> by simp
  qed
  then show ?thesis
    using repairable_tail_bytes_torn [OF q(1,2)] q(3,4) ok by (simp add: repair_tail_def clean_state_def)
qed

lemma repair_before_append: "log_state j rs \<Longrightarrow> \<exists>j'. repair_existing_tail_before_append j = (Inr (), j') \<and> clean_state j' rs"
  unfolding log_state_def
proof (elim disjE)
  assume "clean_state j rs"
  then show ?thesis
    using append_tail_state_clean [of rs] by (auto simp: repair_existing_tail_before_append_def clean_state_def)
next
  assume torn: "torn_state j rs"
  then obtain whole where "jr_file j = Some whole" "append_tail_state whole = Tail_Repairable"
    using append_tail_state_torn by (auto simp: torn_state_def)
  then show ?thesis using repair_torn [OF torn] by (auto simp: repair_existing_tail_before_append_def)
qed

lemma read_clean: "clean_state j rs \<Longrightarrow> read_all_with strict j = Inr (sort_key sequence_value (concat (map snd rs)))"
  using read_content_records [of rs strict] by (auto simp: clean_state_def read_all_with_def)

lemma read_torn_fails: "torn_state j rs \<Longrightarrow> \<exists>e. read_all_strict j = Inl e"
proof -
  assume "torn_state j rs"
  then obtain qs r torn where torn: "torn_ok r torn" and jf: "jr_file j = Some (jbytes qs @ torn)"
    by (auto simp: torn_state_def)
  from torn show ?thesis
  proof (cases rule: torn_cases)
    case (at_char p q)
    have "utf8_decode (jbytes qs @ torn) = Inr (jtext qs @ p)"
      using utf8_decode_encode [of "jtext qs @ p"] at_char(3) by (simp add: jbytes_def utf8_encode_simps)
    moreover have "last p \<noteq> CHR 0x0A"
    proof -
      have "CHR 0x0A \<notin> set (rtext r)"
        using rtext_no_break [of r] torn str_break_newline(1) by (auto simp: torn_ok_def list_all_iff)
      then have "CHR 0x0A \<notin> set p" using at_char(2) by simp
      then show ?thesis using last_in_set [OF at_char(1)] by metis
    qed
    ultimately show ?thesis using jf at_char(1) by (auto simp: read_all_strict_def read_all_with_def read_content_def)
  next
    case (in_char p a q)
    have "utf8_decode (jbytes qs @ torn) = Inl (length (utf8_encode (jtext qs @ p)))"
      using utf8_decode_torn [OF in_char(1), of "jtext qs @ p"] in_char(2) by (simp add: jbytes_def utf8_encode_simps)
    then show ?thesis using jf by (simp add: read_all_strict_def read_all_with_def read_content_def)
  qed
qed

lemma read_repairing:
  assumes "log_state j rs"
  shows "\<exists>j'. read_all_repairing_tail j = (Inr (sort_key sequence_value (concat (map snd rs))), j') \<and> clean_state j' rs"
  using assms unfolding log_state_def
proof (elim disjE)
  assume "clean_state j rs"
  then show ?thesis using read_clean [of j rs True] by (simp add: read_all_repairing_tail_def read_all_strict_def)
next
  assume torn: "torn_state j rs"
  then obtain e where "read_all_strict j = Inl e" using read_torn_fails by blast
  then show ?thesis
    using repair_torn [OF torn] read_clean [of _ rs True] by (auto simp: read_all_repairing_tail_def read_all_strict_def)
qed

lemma payload_record: "payload_of (PyDict (fst r)) = add_nl (rbytes r)"
  by (simp add: payload_of_def utf8_encode_simps add_nl_def utf8_char_def)

definition log_append :: "write_fault \<Rightarrow> jrecord \<Rightarrow> jrecord list \<Rightarrow> jrecord list" where
  \<comment> \<open>a record is in the log once all its bytes but the newline are in the file\<close>
  "log_append fault r rs =
     (case fault of
        No_Fault \<Rightarrow> rs @ [r]
      | Fail_After n \<Rightarrow> rs
      | Crash_After n \<Rightarrow> if length (rbytes r) \<le> n then rs @ [r] else rs)"

lemma jbytes_snoc: "jbytes (rs @ [r]) = jbytes rs @ add_nl (rbytes r)"
  by (simp add: jbytes_lines)

lemma crash_state:
  assumes rs: "list_all rec_ok rs" and r: "rec_ok r" and small: "length (rbytes r) < APPEND_TAIL_SCAN_BYTES"
    and jf: "jr_file j = Some (jbytes rs @ take n (add_nl (rbytes r)))"
  shows "log_state j (log_append (Crash_After n) r rs)"
proof -
  consider "n = 0" | "0 < n" "n \<le> length (rbytes r)" | "length (rbytes r) < n" by linarith
  then show ?thesis
  proof cases
    case 1
    moreover have "rbytes r \<noteq> []" using rbytes_first [of r] by auto
    ultimately show ?thesis using rs jf by (simp add: log_state_def clean_state_def log_append_def)
  next
    case 2
    let ?torn = "take n (rbytes r)"
    have torn: "torn_ok r ?torn" unfolding torn_ok_def using r 2(1) rbytes_first [of r] by auto
    have t: "length ?torn < APPEND_TAIL_SCAN_BYTES" using small by simp
    have f: "jr_file j = Some (jbytes rs @ ?torn)" using jf 2 by (simp add: add_nl_def)
    have "salvaged r ?torn = (if length (rbytes r) \<le> n then [r] else [])"
      using 2(2) by (auto simp: salvaged_def take_all_iff)
    then have "log_append (Crash_After n) r rs = rs @ salvaged r ?torn" by (simp add: log_append_def)
    then have "torn_state j (log_append (Crash_After n) r rs)"
      unfolding torn_state_def using torn rs t f by blast
    then show ?thesis by (simp add: log_state_def)
  next
    case 3
    then have "take n (add_nl (rbytes r)) = add_nl (rbytes r)" by (simp add: add_nl_def)
    then show ?thesis using 3 rs r jf by (simp add: log_state_def clean_state_def log_append_def jbytes_snoc)
  qed
qed

lemma append_record:
  assumes st: "log_state j rs" and r: "rec_ok r" and small: "length (rbytes r) < APPEND_TAIL_SCAN_BYTES"
  shows "log_state (snd (append_journal_bytes fault (payload_of (PyDict (fst r))) j)) (log_append fault r rs)
    \<and> (fault = No_Fault \<longrightarrow> fst (append_journal_bytes fault (payload_of (PyDict (fst r))) j) = Inr ())"
proof -
  obtain j' where j': "repair_existing_tail_before_append j = (Inr (), j')" "clean_state j' rs"
    using repair_before_append [OF st] by blast
  have ok: "list_all rec_ok rs" using j'(2) by (simp add: clean_state_def)
  have before: "(case jr_file j' of None \<Rightarrow> [] | Some b \<Rightarrow> b) = jbytes rs"
    using j'(2) by (auto simp: clean_state_def jbytes_lines split: option.splits)
  show ?thesis
  proof (cases fault)
    case No_Fault
    then show ?thesis
      using j' ok r before
      by (simp add: append_journal_bytes_def payload_record log_state_def clean_state_def log_append_def jbytes_snoc)
  next
    case (Fail_After n)
    then show ?thesis
      using j' before by (auto simp: append_journal_bytes_def log_state_def clean_state_def log_append_def)
  next
    case (Crash_After n)
    then show ?thesis
      using j' before crash_state [OF ok r small, of "j'\<lparr>jr_file := Some (jbytes rs @ take n (add_nl (rbytes r)))\<rparr>" n]
      by (simp add: append_journal_bytes_def payload_record)
  qed
qed

datatype jop = Append write_fault pydict | Append_Many write_fault string "pydict list" | Recover

fun jexec :: "jop \<Rightarrow> journal \<Rightarrow> journal" where
  "jexec (Append fault e) j = snd (append_event fault e j)"
| "jexec (Append_Many fault g es) j = snd (append_many fault g es j)"
| "jexec Recover j = snd (read_all_repairing_tail j)"

definition safe_event :: "pydict \<Rightarrow> pydict" where
  "safe_event e = safe_members 1 e"

fun jrec :: "jop \<Rightarrow> jrecord" where
  "jrec (Append fault e) = (safe_event e, [safe_event e])"
| "jrec (Append_Many fault g es) =
     ([(EVENT_GROUP_RECORD_KEY, PyStr EVENT_GROUP_RECORD_TYPE), (''schemaVersion'', PyStr ''1.0''),
       (''groupId'', PyStr g), (''events'', PyList (map (\<lambda>e. PyDict (safe_event e)) es))], map safe_event es)"
| "jrec Recover = ([], [])"

fun jspec :: "jop \<Rightarrow> jrecord list \<Rightarrow> jrecord list" where
  "jspec (Append fault e) rs = log_append fault (jrec (Append fault e)) rs"
| "jspec (Append_Many fault g es) rs = (if es = [] then rs else log_append fault (jrec (Append_Many fault g es)) rs)"
| "jspec Recover rs = rs"

definition event_ok :: "pydict \<Rightarrow> bool" where
  "event_ok e \<longleftrightarrow> json_ok (PyDict (safe_event e)) \<and> map_of e EVENT_GROUP_RECORD_KEY \<noteq> Some (PyStr EVENT_GROUP_RECORD_TYPE)"

definition scannable :: "jrecord \<Rightarrow> bool" where
  \<comment> \<open>the line fits into the window \<^verbatim>\<open>_append_tail_state\<close> looks at\<close>
  "scannable r \<longleftrightarrow> length (rbytes r) < APPEND_TAIL_SCAN_BYTES"

lemma scannable_code [code]: "scannable r \<longleftrightarrow> int (length (rbytes r)) < 1048576"
  by (simp add: scannable_def APPEND_TAIL_SCAN_BYTES_def)

fun jop_ok :: "jop \<Rightarrow> bool" where
  "jop_ok (Append fault e) \<longleftrightarrow> event_ok e \<and> CHR 0x85 \<notin> set (rtext (jrec (Append fault e)))
     \<and> scannable (jrec (Append fault e))"
| "jop_ok (Append_Many fault g es) \<longleftrightarrow> list_all (\<lambda>e. json_ok (PyDict (safe_event e))) es
     \<and> CHR 0x85 \<notin> set (rtext (jrec (Append_Many fault g es)))
     \<and> scannable (jrec (Append_Many fault g es))"
| "jop_ok Recover \<longleftrightarrow> True"

lemma all_dicts_PyDict: "all_dicts (map PyDict es) = Some es"
  by (induction es) simp_all

lemma map_of_safe_marker:
  "map_of (safe_members 1 kvs) k = Some (PyStr s) \<Longrightarrow> map_of kvs k = Some (PyStr s)"
proof (induction kvs)
  case (Cons kv kvs)
  obtain a v where "kv = (a, v)" by fastforce
  with Cons show ?case by (cases v) (auto split: if_splits)
qed simp

lemma safe_event_dict: "to_json_safe 0 (PyDict e) = PyDict (safe_event e)"
  by (simp add: safe_event_def)

lemma rec_ok_jrec:
  assumes "jop_ok op" and "op \<noteq> Recover"
  shows "rec_ok (jrec op) \<and> length (rbytes (jrec op)) < APPEND_TAIL_SCAN_BYTES"
proof (cases op)
  case (Append fault e)
  then have "map_of (safe_event e) EVENT_GROUP_RECORD_KEY \<noteq> Some (PyStr EVENT_GROUP_RECORD_TYPE)"
    using assms(1) map_of_safe_marker [of e] by (auto simp: event_ok_def safe_event_def)
  then show ?thesis using assms(1) Append by (simp add: rec_ok_def event_ok_def scannable_def events_from_journal_record_def)
next
  case (Append_Many fault g es)
  have "list_all json_ok (map (\<lambda>e. PyDict (safe_event e)) es)"
    using assms(1) Append_Many by (simp add: list_all_iff)
  moreover have "all_dicts (map (\<lambda>e. PyDict (safe_event e)) es) = Some (map safe_event es)"
    using all_dicts_PyDict [of "map safe_event es"] by (simp add: comp_def)
  ultimately show ?thesis
    using assms(1) Append_Many by (simp add: rec_ok_def scannable_def events_from_journal_record_def EVENT_GROUP_RECORD_KEY_def)
qed (use assms in simp)

lemma append_effect:
  "append_event fault e j = append_journal_bytes fault (payload_of (PyDict (fst (jrec (Append fault e))))) j"
  "es \<noteq> [] \<Longrightarrow> append_many fault g es j
     = append_journal_bytes fault (payload_of (PyDict (fst (jrec (Append_Many fault g es))))) j"
  by (simp_all only: append_event_def append_many_def group_record_def safe_event_dict jrec.simps fst_conv if_False)

lemma jexec_refines:
  assumes st: "log_state j rs" and ok: "jop_ok op"
  shows "log_state (jexec op j) (jspec op rs)"
proof (cases op)
  case (Append fault e)
  then show ?thesis
    using append_record [OF st, of "jrec op" fault] rec_ok_jrec [OF ok] append_effect(1) [of fault e j] by simp
next
  case (Append_Many fault g es)
  show ?thesis
  proof (cases "es = []")
    case False
    then show ?thesis
      using append_record [OF st, of "jrec op" fault] rec_ok_jrec [OF ok] append_effect(2) [of es fault g j] Append_Many
      by simp
  qed (use st Append_Many in \<open>simp add: append_many_def\<close>)
next
  case Recover
  then show ?thesis using read_repairing [OF st] by (auto simp: log_state_def)
qed

lemma fold_jexec_refines:
  "log_state j rs \<Longrightarrow> list_all jop_ok ops \<Longrightarrow> log_state (fold jexec ops j) (fold jspec ops rs)"
  by (induction ops arbitrary: j rs) (simp_all add: jexec_refines)

abbreviation new_journal :: journal where
  "new_journal \<equiv> \<lparr>jr_file = None, jr_corrupt = []\<rparr>"

lemma log_state_new: "log_state new_journal []"
  by (simp add: log_state_def clean_state_def)

definition logged_events :: "jop list \<Rightarrow> pydict list" where
  "logged_events ops = sort_key sequence_value (concat (map snd (fold jspec ops [])))"

section \<open>Properties of the journal\<close>

text \<open>
  C35: the journal refines a log of records.  Hypothesis on every write (\<open>jop_ok\<close>): its values can be written as JSON,
  its record has no character U+0085 and is shorter than 1 MiB as bytes, and a single event does not carry the tag of
  a group (an event with U+0085 can be lost, see \<open>journal_nel_loses_event\<close>).  Then, after any sequence of such appends,
  group appends and recoveries, in which every write may succeed, fail and be rolled back, or be cut by a crash after
  any number of bytes, reading with repair returns exactly the events of the records that reached the file in full, in
  the order of their sequence numbers; a group is there in full or not at all, and a cut record never takes another
  one with it.
\<close>
theorem journal_refines_log:
  assumes "list_all jop_ok ops"
  shows "fst (read_all_repairing_tail (fold jexec ops new_journal)) = Inr (logged_events ops)"
  using read_repairing [OF fold_jexec_refines [OF log_state_new assms]] by (auto simp: logged_events_def)

theorem journal_refines_log_witness:
  "fst (read_all_repairing_tail (fold jexec [Append No_Fault [(''sequence'', PyInt 2)],
       Append (Crash_After 4) [(''sequence'', PyInt 3)],
       Append_Many (Crash_After 200) ''g'' [[(''sequence'', PyInt 1)], [(''s'', PyStr [CHR 0xE9])]]] new_journal))
     = Inr [[(''s'', PyStr [CHR 0xE9])], [(''sequence'', PyInt 1)], [(''sequence'', PyInt 2)]]"
proof -
  let ?ops = "[Append No_Fault [(''sequence'', PyInt 2)], Append (Crash_After 4) [(''sequence'', PyInt 3)],
       Append_Many (Crash_After 200) ''g'' [[(''sequence'', PyInt 1)], [(''s'', PyStr [CHR 0xE9])]]]"
  have ok: "list_all jop_ok ?ops" by code_simp
  have "concat (map snd (fold jspec ?ops []))
      = [[(''sequence'', PyInt 2)], [(''sequence'', PyInt 1)], [(''s'', PyStr [CHR 0xE9])]]" by code_simp
  then have "logged_events ?ops = [[(''s'', PyStr [CHR 0xE9])], [(''sequence'', PyInt 1)], [(''sequence'', PyInt 2)]]"
    by (simp only: logged_events_def) (simp add: sequence_value_def)
  then show ?thesis using journal_refines_log [OF ok] by (simp only:)
qed

text \<open>
  whatever crashes came before, an append that meets no fault succeeds, and the strict read that follows needs no
  repair and returns the events logged before with the new one among them, in the order of their sequence numbers.
\<close>
theorem append_after_crash:
  assumes "list_all jop_ok ops" and "jop_ok (Append No_Fault e)"
  shows "fst (append_event No_Fault e (fold jexec ops new_journal)) = Inr ()
    \<and> read_all_strict (snd (append_event No_Fault e (fold jexec ops new_journal)))
        = Inr (logged_events (ops @ [Append No_Fault e]))"
proof -
  let ?j = "fold jexec ops new_journal" and ?r = "jrec (Append No_Fault e)"
  have st: "log_state ?j (fold jspec ops [])" by (rule fold_jexec_refines [OF log_state_new assms(1)])
  obtain j' where j': "repair_existing_tail_before_append ?j = (Inr (), j')" "clean_state j' (fold jspec ops [])"
    using repair_before_append [OF st] by blast
  have r: "rec_ok ?r" using rec_ok_jrec [OF assms(2)] by simp
  have "clean_state (snd (append_journal_bytes No_Fault (payload_of (PyDict (fst ?r))) ?j)) (fold jspec ops [] @ [?r])"
    using j' r payload_record [of ?r]
    by (auto simp: append_journal_bytes_def clean_state_def jbytes_snoc jbytes_lines split: option.splits)
  moreover have "fst (append_journal_bytes No_Fault (payload_of (PyDict (fst ?r))) ?j) = Inr ()"
    using j' by (simp add: append_journal_bytes_def)
  moreover have "logged_events (ops @ [Append No_Fault e]) = sort_key sequence_value (concat (map snd (fold jspec ops [] @ [?r])))"
    by (simp add: logged_events_def log_append_def)
  ultimately show ?thesis
    using read_clean [of _ "fold jspec ops [] @ [?r]" True] by (simp only: append_effect(1) read_all_strict_def)
qed

theorem append_after_crash_witness:
  "read_all_strict (snd (append_event No_Fault [(''sequence'', PyInt 7)]
       (fold jexec [Append (Crash_After 9) [(''sequence'', PyInt 3)]] new_journal)))
     = Inr [[(''sequence'', PyInt 7)]]"
proof -
  let ?ops = "[Append (Crash_After 9) [(''sequence'', PyInt 3)]]" and ?e = "[(''sequence'', PyInt 7)]"
  have ok: "list_all jop_ok ?ops" by code_simp
  have new: "jop_ok (Append No_Fault ?e)" by code_simp
  have "concat (map snd (fold jspec (?ops @ [Append No_Fault ?e]) [])) = [?e]" by code_simp
  then have "logged_events (?ops @ [Append No_Fault ?e]) = [?e]" by (simp only: logged_events_def) simp
  then show ?thesis using append_after_crash [OF ok new] by (simp only:)
qed

lemma read_all_by_lines:
  "jr_file j = Some raw \<Longrightarrow> utf8_decode raw = Inr content \<Longrightarrow> read_lines False 1 (splitlines str_break content) = Inr es
    \<Longrightarrow> read_all j = Inr (sort_key sequence_value es)"
  by (simp add: read_all_def read_all_with_def read_content_def)

definition nel_event :: pydict where
  "nel_event = [(''t'', PyStr [CHR 0x85])]"

definition next_event :: pydict where
  "next_event = [(''sequence'', PyInt 1)]"

definition nel_journal :: journal where
  "nel_journal = snd (append_event No_Fault nel_event new_journal)"

text \<open>
  the text of a record is not always one line for the reader.  \<^verbatim>\<open>json.dumps(..., ensure_ascii=False)\<close>
  writes U+0085 as it is and \<^verbatim>\<open>str.splitlines\<close> breaks there, so an event with that character in a string is
  written without an error, and once another event follows it the lenient read returns only that other event, while
  the strict read and the repair both give up.
\<close>
theorem journal_nel_loses_event:
  "fst (append_event No_Fault nel_event new_journal) = Inr () \<and> fst (append_event No_Fault next_event nel_journal) = Inr ()
     \<and> read_all (snd (append_event No_Fault next_event nel_journal)) = Inr [next_event]
     \<and> isl (read_all_strict (snd (append_event No_Fault next_event nel_journal)))
     \<and> \<not> fst (repair_tail (snd (append_event No_Fault next_event nel_journal)))"
proof -
  let ?j = "snd (append_event No_Fault next_event nel_journal)"
  let ?text = "add_nl (json_dumps (PyDict nel_event)) @ add_nl (json_dumps (PyDict next_event))"
  have f: "jr_file ?j = Some (utf8_encode ?text)" by code_simp
  have d: "utf8_decode (utf8_encode ?text) = Inr ?text" by (rule utf8_decode_encode)
  have "read_lines False 1 (splitlines str_break ?text) = Inr [next_event]" by code_simp
  then have "read_all ?j = Inr [next_event]" using read_all_by_lines [OF f d] by simp
  moreover have "read_lines True 1 (splitlines str_break ?text) = Inl (Invalid_Line 1)" by code_simp
  then have "isl (read_all_strict ?j)"
    using f d by (simp add: read_all_strict_def read_all_with_def read_content_def add_nl_def)
  moreover have "\<not> fst (repair_tail ?j)" by code_simp
  moreover have "fst (append_event No_Fault nel_event new_journal) = Inr ()" by code_simp
  moreover have "fst (append_event No_Fault next_event nel_journal) = Inr ()" by code_simp
  ultimately show ?thesis by blast
qed

end
