(* ===== verification/Tool_Input.thy ===== *)
theory Tool_Input
  imports Json
begin

text \<open>
  The arguments of a tool call as the model writes them (\<^verbatim>\<open>utils/json_utils.py\<close>,
  \<^verbatim>\<open>utils/tool_input_parser.py\<close>): the tolerant parse, the recovery of several objects written one after the other,
  the events every provider emits for a call, and the fields read from arguments that are still being streamed. The text
  that describes a decoder error (\<^verbatim>\<open>describe_json_error\<close>, made of the message of the standard library's exception) is
  the argument \<open>describe\<close>, the fresh identifiers of \<^verbatim>\<open>uuid.uuid4().hex\<close> are the argument \<open>fresh\<close>.
\<close>

section \<open>Parsing\<close>

definition parse_json_tolerant :: "(string \<Rightarrow> string) \<Rightarrow> string \<Rightarrow> pyval \<times> string option" where
  "parse_json_tolerant describe raw =
     (if raw = [] then (PyNone, Some ''empty input'')
      else
        (case json_loads_with True raw of
           Some v \<Rightarrow> (v, None)
         | None \<Rightarrow>
             (case json_loads_with False raw of
                Some v \<Rightarrow> (v, None)
              | None \<Rightarrow> (PyNone, Some (describe raw)))))"

definition safe_parse_json :: "string option \<Rightarrow> pyval" where
  "safe_parse_json raw =
     (case raw of
        None \<Rightarrow> PyNone
      | Some r \<Rightarrow> if r = [] then PyNone else (case json_loads r of Some v \<Rightarrow> v | None \<Rightarrow> PyNone))"

lemma raw_decode_shorter: "raw_decode s = Some (v, r) \<Longrightarrow> length r < length s"
  unfolding raw_decode_def by (rule parse_shorter(1))

function parse_concatenated_json :: "string \<Rightarrow> pydict list" where
  \<comment> \<open>the text from \<^verbatim>\<open>pos\<close> on\<close>
  "parse_concatenated_json raw =
     (if skip_ws raw = [] then []
      else
        (case raw_decode (skip_ws raw) of
           None \<Rightarrow> []
         | Some (obj, rest) \<Rightarrow>
             (case obj of PyDict d \<Rightarrow> [d] | _ \<Rightarrow> []) @ parse_concatenated_json rest))"
  by pat_completeness auto
termination
proof (relation "measure length")
  fix raw x obj rest
  assume "raw_decode (skip_ws raw) = Some x" and "(obj, rest) = x"
  then have "length rest < length (skip_ws raw)" using raw_decode_shorter by blast
  also have "\<dots> \<le> length raw" by (rule skip_ws_length)
  finally show "(rest, raw) \<in> measure length" by simp
qed simp

declare parse_concatenated_json.simps [simp del]

section \<open>The events of a call\<close>

datatype tool_event =
    ToolUseStartEvent (te_tool_use_id: string) (te_name: string)
  | ToolUseEndEvent (te_tool_use_id: string) (te_name: string) (te_input: pydict) (te_input_error: "string option")

definition INVALID_TOOL_INPUT_MESSAGE :: "string \<Rightarrow> string" where
  "INVALID_TOOL_INPUT_MESSAGE detail =
     ''Tool arguments were not valid JSON, so this tool call was not executed ''
     @ ''(no arguments reached the tool). Details: '' @ detail @ ''. Resend the same tool call with the ''
     @ ''complete arguments as one valid JSON object: escape newlines, tabs and quotes inside ''
     @ ''string values, and do not truncate the JSON.''"

definition new_tool_use_id :: "string \<Rightarrow> string" where
  "new_tool_use_id hex = ''toolu_'' @ take 24 hex"

fun synthetic_calls :: "(nat \<Rightarrow> string) \<Rightarrow> nat \<Rightarrow> string \<Rightarrow> pydict list \<Rightarrow> tool_event list" where
  "synthetic_calls fresh n tool_name [] = []"
| "synthetic_calls fresh n tool_name (part # parts) =
     ToolUseStartEvent (new_tool_use_id (fresh n)) tool_name
     # ToolUseEndEvent (new_tool_use_id (fresh n)) tool_name part None
     # synthetic_calls fresh (Suc n) tool_name parts"

definition parse_tool_input_events ::
    "(string \<Rightarrow> string) \<Rightarrow> (nat \<Rightarrow> string) \<Rightarrow> string \<Rightarrow> string \<Rightarrow> string \<Rightarrow> tool_event list" where
  "parse_tool_input_events describe fresh tool_use_id tool_name raw_json =
     (case parse_json_tolerant describe raw_json of
        (PyDict parsed, _) \<Rightarrow> [ToolUseEndEvent tool_use_id tool_name parsed None]
      | (_, parse_error) \<Rightarrow>
          if raw_json \<noteq> [] then
            (case parse_concatenated_json raw_json of
               part # parts \<Rightarrow> ToolUseEndEvent tool_use_id tool_name part None # synthetic_calls fresh 0 tool_name parts
             | [] \<Rightarrow>
                 [ToolUseEndEvent tool_use_id tool_name []
                   (Some (INVALID_TOOL_INPUT_MESSAGE
                     (case parse_error of
                        Some e \<Rightarrow> if e = [] then ''unparseable arguments'' else e
                      | None \<Rightarrow> ''unparseable arguments'')))])
          else [ToolUseEndEvent tool_use_id tool_name [] None])"

section \<open>Fields of arguments that are still being streamed\<close>

fun partial_body :: "string \<Rightarrow> (string \<times> string) option" where
  \<comment> \<open>\<^verbatim>\<open>((?:[^"\\]|\\.)*)"\<close>: the group and the text behind the quote\<close>
  "partial_body [] = None"
| "partial_body (c # s) =
     (if c = CHR 0x22 then Some ([], s)
      else if c = CHR 0x5C then
        (case s of
           [] \<Rightarrow> None
         | d # s1 \<Rightarrow> if d = newline then None else map_option (apfst (\<lambda>g. c # d # g)) (partial_body s1))
      else map_option (apfst (Cons c)) (partial_body s))"

definition key_char :: "char \<Rightarrow> bool" where
  "key_char c \<longleftrightarrow> c \<noteq> CHR 0x22 \<and> c \<noteq> CHR 0x5C"

definition after_char :: "char \<Rightarrow> string \<Rightarrow> string option" where
  "after_char c s = (case s of [] \<Rightarrow> None | d # r \<Rightarrow> if d = c then Some r else None)"

definition after_colon :: "string \<Rightarrow> string option" where
  \<comment> \<open>\<^verbatim>\<open>\s*:\s*"\<close>\<close>
  "after_colon s =
     (case after_char (CHR '':'') (dropWhile is_space s) of
        None \<Rightarrow> None
      | Some r \<Rightarrow> after_char (CHR 0x22) (dropWhile is_space r))"

definition partial_match :: "string \<Rightarrow> ((string \<times> string) \<times> string) option" where
  \<comment> \<open>\<^verbatim>\<open>_PARTIAL_STRING_FIELD_RE\<close> at the start of the text: the two groups and the text behind the match\<close>
  "partial_match s =
     (case after_char (CHR 0x22) s of
        None \<Rightarrow> None
      | Some r \<Rightarrow>
          if takeWhile key_char r = [] then None
          else
            (case after_char (CHR 0x22) (dropWhile key_char r) of
               None \<Rightarrow> None
             | Some r1 \<Rightarrow>
                 (case after_colon r1 of
                    None \<Rightarrow> None
                  | Some r2 \<Rightarrow> map_option (\<lambda>(g, r3). ((takeWhile key_char r, g), r3)) (partial_body r2))))"

lemma partial_body_shorter: "partial_body s = Some (g, r) \<Longrightarrow> length r < length s"
proof (induction s arbitrary: g r rule: partial_body.induct)
  case (2 c s)
  then show ?case by (fastforce split: if_splits list.splits)
qed simp

lemma after_char_Some: "after_char c s = Some r \<longleftrightarrow> s = c # r"
  by (auto simp: after_char_def split: list.splits)

lemma after_char_same [simp]: "after_char c (c # r) = Some r"
  by (simp add: after_char_Some)

lemma span_stop: "list_all P a \<Longrightarrow> \<not> P c \<Longrightarrow> takeWhile P (a @ c # t) = a \<and> dropWhile P (a @ c # t) = c # t"
  by (induction a) simp_all

lemma span_parts: "list_all P (takeWhile P s) \<and> s = takeWhile P s @ dropWhile P s"
  by (metis Ball_set set_takeWhileD takeWhile_dropWhile_id)

lemma after_colon_Some:
  "after_colon s = Some r \<longleftrightarrow> (\<exists>a b. list_all is_space a \<and> list_all is_space b \<and> s = a @ CHR '':'' # b @ CHR 0x22 # r)"
proof
  assume "after_colon s = Some r"
  then obtain q where "dropWhile is_space s = CHR '':'' # q" "dropWhile is_space q = CHR 0x22 # r"
    by (auto simp: after_colon_def after_char_Some split: option.splits)
  then show "\<exists>a b. list_all is_space a \<and> list_all is_space b \<and> s = a @ CHR '':'' # b @ CHR 0x22 # r"
    using span_parts [of is_space s] span_parts [of is_space q] by metis
next
  assume "\<exists>a b. list_all is_space a \<and> list_all is_space b \<and> s = a @ CHR '':'' # b @ CHR 0x22 # r"
  then obtain a b where "list_all is_space a" "list_all is_space b" "s = a @ CHR '':'' # b @ CHR 0x22 # r" by blast
  moreover have "\<not> is_space (CHR '':'')" "\<not> is_space (CHR 0x22)" by code_simp+
  ultimately show "after_colon s = Some r" by (simp add: after_colon_def span_stop)
qed

text \<open>A match, as a decomposition of the text.\<close>

lemma partial_match_Some:
  "partial_match s = Some ((k, g), r) \<longleftrightarrow>
     (\<exists>a b v. k \<noteq> [] \<and> list_all key_char k \<and> list_all is_space a \<and> list_all is_space b
        \<and> s = CHR 0x22 # k @ CHR 0x22 # a @ CHR '':'' # b @ CHR 0x22 # v \<and> partial_body v = Some (g, r))"
proof
  assume "partial_match s = Some ((k, g), r)"
  then obtain t r1 v where t: "s = CHR 0x22 # t" "k = takeWhile key_char t" "k \<noteq> []" "dropWhile key_char t = CHR 0x22 # r1"
    and v: "after_colon r1 = Some v" "partial_body v = Some (g, r)"
    by (auto simp: partial_match_def after_char_Some split: option.splits if_splits)
  have "list_all key_char k" "t = k @ CHR 0x22 # r1" using span_parts [of key_char t] t by metis+
  then show "\<exists>a b v. k \<noteq> [] \<and> list_all key_char k \<and> list_all is_space a \<and> list_all is_space b
      \<and> s = CHR 0x22 # k @ CHR 0x22 # a @ CHR '':'' # b @ CHR 0x22 # v \<and> partial_body v = Some (g, r)"
    using t(1,3) v after_colon_Some [of r1 v] by blast
next
  assume "\<exists>a b v. k \<noteq> [] \<and> list_all key_char k \<and> list_all is_space a \<and> list_all is_space b
      \<and> s = CHR 0x22 # k @ CHR 0x22 # a @ CHR '':'' # b @ CHR 0x22 # v \<and> partial_body v = Some (g, r)"
  then obtain a b v where k: "k \<noteq> []" "list_all key_char k" and s: "s = CHR 0x22 # k @ CHR 0x22 # a @ CHR '':'' # b @ CHR 0x22 # v"
    and v: "after_colon (a @ CHR '':'' # b @ CHR 0x22 # v) = Some v" "partial_body v = Some (g, r)"
    using after_colon_Some by blast
  have "\<not> key_char (CHR 0x22)" by (simp add: key_char_def)
  then show "partial_match s = Some ((k, g), r)" using k v by (simp add: partial_match_def s span_stop)
qed

lemma partial_match_shorter: "partial_match s = Some (kg, r) \<Longrightarrow> length r < length s"
  using partial_body_shorter by (cases kg) (fastforce simp: partial_match_Some)

function partial_matches :: "string \<Rightarrow> (string \<times> string) list" where
  \<comment> \<open>\<^verbatim>\<open>finditer\<close>\<close>
  "partial_matches s =
     (case s of
        [] \<Rightarrow> []
      | c # s1 \<Rightarrow>
          (case partial_match s of
             None \<Rightarrow> partial_matches s1
           | Some (kg, r) \<Rightarrow> kg # partial_matches r))"
  by pat_completeness auto
termination by (relation "measure length") (auto dest: partial_match_shorter)

declare partial_matches.simps [simp del]

fun collect_fields :: "string list \<Rightarrow> (string \<times> string) list \<Rightarrow> (string \<times> string) list \<Rightarrow> (string \<times> string) list" where
  "collect_fields field_names result [] = result"
| "collect_fields field_names result ((key, raw) # ms) =
     collect_fields field_names
       (if key \<in> set field_names \<and> map_of result key = None then
          (case json_loads ([CHR 0x22] @ raw @ [CHR 0x22]) of
             Some (PyStr t) \<Rightarrow> result @ [(key, t)]
           | _ \<Rightarrow> result)
        else result) ms"

definition extract_partial_string_fields :: "string \<Rightarrow> string list \<Rightarrow> (string \<times> string) list" where
  "extract_partial_string_fields partial_json field_names =
     (if partial_json = [] \<or> field_names = [] then []
      else collect_fields field_names [] (partial_matches partial_json))"

section \<open>Objects written one after the other\<close>

declare json_dumps.simps [simp del] json_ok.simps [simp del] dropWhile_eq_Nil_conv [simp del]

fun written :: "(pydict \<times> string) list \<Rightarrow> string" where
  \<comment> \<open>objects, each with white space behind it\<close>
  "written [] = []"
| "written ((d, w) # dws) = json_dumps (PyDict d) @ w @ written dws"

fun part_ok :: "pydict \<times> string \<Rightarrow> bool" where
  "part_ok (d, w) \<longleftrightarrow> json_ok (PyDict d) \<and> list_all json_space w"

lemma skip_ws_all: "list_all json_space w \<Longrightarrow> skip_ws (w @ s) = skip_ws s"
  by (induction w) simp_all

lemma dumps_dict_first: "\<exists>q. json_dumps (PyDict d) = CHR ''{'' # q"
  by (simp add: json_dumps.simps)

lemma skip_ws_dict: "skip_ws (json_dumps (PyDict d) @ s) = json_dumps (PyDict d) @ s"
  using dumps_dict_first [of d] by auto

lemma parse_dict: "json_ok (PyDict d) \<Longrightarrow> parse_value strict (json_dumps (PyDict d) @ s) = Some (PyDict d, s)"
  using parse_value_ext [of strict "json_dumps (PyDict d)" "PyDict d" "[]" s] parse_dumps(1) [of "PyDict d" "[]" strict] by simp

lemma parse_concatenated_dict:
  assumes "json_ok (PyDict d)" and "list_all json_space w"
  shows "parse_concatenated_json (w @ json_dumps (PyDict d) @ s) = d # parse_concatenated_json s"
  using assms json_dumps_Cons [of "PyDict d"]
  by (subst parse_concatenated_json.simps) (simp add: skip_ws_all skip_ws_dict raw_decode_def parse_dict)

lemma parse_concatenated_blank: "list_all json_space w \<Longrightarrow> parse_concatenated_json w = []"
  using skip_ws_all [of w "[]"] by (subst parse_concatenated_json.simps) (simp)

lemma parse_concatenated_written:
  "list_all part_ok dws \<Longrightarrow> list_all json_space w \<Longrightarrow> parse_concatenated_json (w @ written dws) = map fst dws"
proof (induction dws arbitrary: w)
  case (Cons dw dws)
  obtain d v where "dw = (d, v)" by fastforce
  with Cons show ?case by (simp add: parse_concatenated_dict)
qed (simp add: parse_concatenated_blank)

lemma loads_dict_then:
  assumes "json_ok (PyDict d)" and "list_all json_space w"
  shows "json_loads_with strict (w @ json_dumps (PyDict d) @ s) = (if skip_ws s = [] then Some (PyDict d) else None)"
  using assms by (simp add: json_loads_with_def skip_ws_all skip_ws_dict parse_dict)

lemma events_dict_then:
  assumes "json_ok (PyDict d)" and "list_all json_space w"
  shows "parse_tool_input_events describe fresh i n (w @ json_dumps (PyDict d) @ s)
    = ToolUseEndEvent i n d None # (if skip_ws s = [] then [] else synthetic_calls fresh 0 n (parse_concatenated_json s))"
proof -
  have ne: "w @ json_dumps (PyDict d) @ s \<noteq> []" using dumps_dict_first [of d] by auto
  have "parse_json_tolerant describe (w @ json_dumps (PyDict d) @ s)
      = (if skip_ws s = [] then (PyDict d, None) else (PyNone, Some (describe (w @ json_dumps (PyDict d) @ s))))"
    using ne by (simp only: parse_json_tolerant_def loads_dict_then [OF assms]) simp
  then show ?thesis
    using ne parse_concatenated_dict [OF assms, of s]
    by (simp only: parse_tool_input_events_def) (simp)
qed

text \<open>
  Objects that a model writes one after the other, with any white space around them, are recovered as one call
  each: the first under the identifier of the call, each further one as a start and an end event under a fresh
  identifier, with the arguments exactly as they were printed and in their order. A single object is one call.
\<close>
theorem tool_input_concatenated:
  assumes "list_all part_ok ((d, w) # dws)" and "list_all json_space lead"
  shows "parse_tool_input_events describe fresh i n (lead @ written ((d, w) # dws))
    = ToolUseEndEvent i n d None # synthetic_calls fresh 0 n (map fst dws)"
proof -
  have d: "json_ok (PyDict d)" and w: "list_all json_space w" and dws: "list_all part_ok dws" using assms(1) by simp_all
  have "skip_ws (w @ written dws) = [] \<longleftrightarrow> dws = []"
  proof (cases dws)
    case (Cons dv rest)
    obtain e v where "dv = (e, v)" by fastforce
    then show ?thesis using Cons dumps_dict_first [of e] by (simp add: skip_ws_all [OF w] skip_ws_dict) auto
  qed (use skip_ws_all [OF w, of "[]"] in \<open>simp\<close>)
  then show ?thesis
    using events_dict_then [OF d assms(2), of describe fresh i n "w @ written dws"] parse_concatenated_written [OF dws w]
    by simp
qed

theorem tool_input_concatenated_witness:
  "parse_tool_input_events (\<lambda>r. ''bad'') (\<lambda>k. ''0123456789abcdef'') ''id'' ''bash''
     ('' {'' @ [CHR 0x22] @ ''a'' @ [CHR 0x22] @ '':1}'' @ [CHR 0x0A] @ ''{}'')
   = [ToolUseEndEvent ''id'' ''bash'' [(''a'', PyInt 1)] None, ToolUseStartEvent ''toolu_0123456789abcdef'' ''bash'',
      ToolUseEndEvent ''toolu_0123456789abcdef'' ''bash'' [] None]"
proof -
  have ok: "list_all part_ok [([(''a'', PyInt 1)], [CHR 0x0A]), ([], [])]" "list_all json_space '' ''" by code_simp+
  have "'' '' @ written [([(''a'', PyInt 1)], [CHR 0x0A]), ([], [])]
      = '' {'' @ [CHR 0x22] @ ''a'' @ [CHR 0x22] @ '':1}'' @ [CHR 0x0A] @ ''{}''" by code_simp
  then show ?thesis
    using tool_input_concatenated [OF ok, of "\<lambda>r. ''bad''" "\<lambda>k. ''0123456789abcdef''" "''id''" "''bash''"]
    by (simp add: new_tool_use_id_def)
qed

text \<open>
  What follows a first readable object is dropped without a report when it is not readable itself: the call runs
  with the arguments of the first object and no event carries an error, so a second call that was cut short, or that
  holds a literal control character, is lost.
\<close>
theorem unreadable_tail_dropped:
  assumes "json_ok (PyDict d)" and "skip_ws tail \<noteq> []" and "raw_decode (skip_ws tail) = None"
  shows "parse_tool_input_events describe fresh i n (json_dumps (PyDict d) @ tail) = [ToolUseEndEvent i n d None]"
proof -
  have "parse_concatenated_json tail = []"
    using assms(2,3) by (subst parse_concatenated_json.simps) simp
  then show ?thesis
    using events_dict_then [OF assms(1), of "[]" describe fresh i n tail] assms(2) by (simp)
qed

theorem unreadable_tail_dropped_witness:
  "parse_tool_input_events (\<lambda>r. ''bad'') (\<lambda>k. []) ''id'' ''bash''
     (json_dumps (PyDict [(''a'', PyInt 1)]) @ ''{'' @ [CHR 0x22] @ ''b'')
   = [ToolUseEndEvent ''id'' ''bash'' [(''a'', PyInt 1)] None]"
proof -
  have "json_ok (PyDict [(''a'', PyInt 1)])" "skip_ws (''{'' @ [CHR 0x22] @ ''b'') \<noteq> []"
    "raw_decode (skip_ws (''{'' @ [CHR 0x22] @ ''b'')) = None" by code_simp+
  then show ?thesis by (rule unreadable_tail_dropped)
qed

section \<open>A streamed field is never revised\<close>

lemma partial_body_ext: "partial_body s = Some (g, r) \<Longrightarrow> partial_body (s @ q) = Some (g, r @ q)"
proof (induction s arbitrary: g r rule: partial_body.induct)
  case (2 c s)
  then show ?case by (cases s) (auto simp: newline_def split: if_splits)
qed simp

lemma partial_match_ext: "partial_match s = Some (kg, r) \<Longrightarrow> partial_match (s @ q) = Some (kg, r @ q)"
proof -
  assume m: "partial_match s = Some (kg, r)"
  obtain k g where kg: "kg = (k, g)" by fastforce
  obtain a b v where "k \<noteq> []" "list_all key_char k" "list_all is_space a" "list_all is_space b" "partial_body v = Some (g, r)"
    and s: "s = CHR 0x22 # k @ CHR 0x22 # a @ CHR '':'' # b @ CHR 0x22 # v"
    using m unfolding kg partial_match_Some by blast
  then show ?thesis using partial_body_ext [of v g r q] unfolding kg partial_match_Some by fastforce
qed

fun escaped_quotes :: "bool \<Rightarrow> string \<Rightarrow> bool" where
  \<comment> \<open>every quote stands behind a backslash; the flag says whether the text itself does\<close>
  "escaped_quotes b [] \<longleftrightarrow> True"
| "escaped_quotes b (c # s) \<longleftrightarrow> (c = CHR 0x22 \<longrightarrow> b) \<and> escaped_quotes (c = CHR 0x5C) s"

lemma escaped_quotes_mono: "escaped_quotes False s \<Longrightarrow> escaped_quotes b s"
  by (cases s) auto

lemma no_quote_escaped: "CHR 0x22 \<notin> set s \<Longrightarrow> escaped_quotes b s"
  by (induction s arbitrary: b) auto

lemma open_body: "partial_body u = None \<Longrightarrow> partial_body (u @ q) = Some x \<Longrightarrow> escaped_quotes False u"
proof (induction u arbitrary: x rule: partial_body.induct)
  case (2 c s)
  show ?case
  proof (cases "c = CHR 0x5C")
    case True
    show ?thesis
    proof (cases s)
      case (Cons d s1)
      then have "escaped_quotes False s1" using "2.IH"(1) [of d s1] "2.prems" True by (auto split: if_splits)
      then show ?thesis using True Cons escaped_quotes_mono by auto
    qed (use True in simp)
  next
    case False
    then show ?thesis using "2.IH"(2) "2.prems" by (auto split: if_splits)
  qed
qed simp

lemma plain_then_quote: "escaped_quotes b (k @ CHR 0x22 # r) \<Longrightarrow> list_all key_char k \<Longrightarrow> k = []"
proof (induction k arbitrary: b)
  case (Cons c k)
  then have "k = []" by auto
  then show ?case using Cons.prems by (auto simp: key_char_def)
qed simp

lemma no_match_escaped: "escaped_quotes b s \<Longrightarrow> partial_match (CHR 0x22 # s) = None"
proof (rule ccontr)
  assume e: "escaped_quotes b s" and "partial_match (CHR 0x22 # s) \<noteq> None"
  then obtain k g r where "partial_match (CHR 0x22 # s) = Some ((k, g), r)" by auto
  then show False using plain_then_quote [of b k] e by (auto simp: partial_match_Some)
qed

lemma no_match_other: "c \<noteq> CHR 0x22 \<Longrightarrow> partial_match (c # s) = None"
  by (simp add: partial_match_def after_char_def)

lemma no_matches_escaped: "escaped_quotes b s \<Longrightarrow> partial_matches s = []"
proof (induction s arbitrary: b)
  case (Cons c s)
  then have "partial_match (c # s) = None" using no_match_other [of c s] no_match_escaped by (cases "c = CHR 0x22") auto
  moreover have "partial_matches s = []" using Cons.IH [of "c = CHR 0x5C"] Cons.prems by simp
  ultimately show ?case by (subst partial_matches.simps) simp
qed (simp add: partial_matches.simps)

lemma partial_matches_None: "partial_match (c # s) = None \<Longrightarrow> partial_matches (c # s) = partial_matches s"
  by (subst partial_matches.simps) simp

lemma no_matches_quote: "escaped_quotes b s \<Longrightarrow> partial_matches (CHR 0x22 # s) = []"
  using partial_matches_None no_match_escaped no_matches_escaped by metis

lemma partial_matches_plain: "CHR 0x22 \<notin> set k \<Longrightarrow> partial_matches (k @ s) = partial_matches s"
  by (induction k) (auto simp: partial_matches_None no_match_other)

lemma split_at_char: "p @ q = x @ c # y \<Longrightarrow> (\<exists>z. x = p @ z) \<or> (\<exists>z. p = x @ c # z \<and> y = z @ q)"
proof (induction p arbitrary: x)
  case (Cons d p)
  then show ?case by (cases x) auto
qed simp

lemma space_key_char: "is_space c \<Longrightarrow> key_char c"
  by (auto simp: key_char_def is_space_def code_def)

lemma key_char_no_quote: "list_all key_char k \<Longrightarrow> CHR 0x22 \<notin> set k"
  by (auto simp: list_all_iff key_char_def)

lemma late_match_alone:
  assumes none: "partial_match (c # p) = None" and some: "partial_match ((c # p) @ q) = Some ((k, g), r)"
  shows "partial_matches (c # p) = []"
proof -
  obtain a b v where k: "k \<noteq> []" "list_all key_char k" and ab: "list_all is_space a" "list_all is_space b"
    and eq: "(c # p) @ q = CHR 0x22 # k @ CHR 0x22 # a @ CHR '':'' # b @ CHR 0x22 # v" and v: "partial_body v = Some (g, r)"
    using some unfolding partial_match_Some by blast
  define w where "w = a @ CHR '':'' # b"
  have w: "list_all key_char w" "w \<noteq> []" using ab space_key_char by (auto simp: w_def list_all_iff key_char_def)
  have c: "c = CHR 0x22" and p: "p @ q = k @ CHR 0x22 # w @ CHR 0x22 # v" using eq by (simp_all add: w_def)
  from split_at_char [OF p] consider z where "k = p @ z" | z where "p = k @ CHR 0x22 # z" "z @ q = w @ CHR 0x22 # v" by metis
  then show ?thesis
  proof cases
    case 1
    then have "CHR 0x22 \<notin> set p" using key_char_no_quote [OF k(2)] by simp
    then show ?thesis using c no_matches_quote no_quote_escaped by metis
  next
    case 2
    have skip: "partial_matches (c # p) = partial_matches (CHR 0x22 # z)"
      using partial_matches_None [OF none] 2(1) partial_matches_plain [OF key_char_no_quote [OF k(2)]] by simp
    from split_at_char [OF 2(2)] consider y where "w = z @ y" | u where "z = w @ CHR 0x22 # u" "v = u @ q" by metis
    then show ?thesis
    proof cases
      case 1
      then have "CHR 0x22 \<notin> set z" using key_char_no_quote [OF w(1)] by simp
      then show ?thesis using skip no_matches_quote no_quote_escaped by metis
    next
      case u: 2
      have "partial_body u = None"
      proof (rule ccontr)
        assume "partial_body u \<noteq> None"
        then obtain g' r' where "partial_body u = Some (g', r')" by auto
        then have "partial_match (c # p) = Some ((k, g'), r')"
          unfolding partial_match_Some using k ab c 2(1) u(1) w_def by fastforce
        then show False using none by simp
      qed
      then have e: "escaped_quotes False u" using open_body v u(2) by metis
      have "partial_match (CHR 0x22 # w @ CHR 0x22 # u) = None"
      proof (rule ccontr)
        assume "partial_match (CHR 0x22 # w @ CHR 0x22 # u) \<noteq> None"
        then obtain k' g' r' where "partial_match (CHR 0x22 # w @ CHR 0x22 # u) = Some ((k', g'), r')" by auto
        then obtain a' b' v' where k': "list_all key_char k'" and ab': "list_all is_space a'" "list_all is_space b'"
          and u': "w @ CHR 0x22 # u = k' @ CHR 0x22 # a' @ CHR '':'' # b' @ CHR 0x22 # v'"
          unfolding partial_match_Some by auto
        have "\<not> key_char (CHR 0x22)" by (simp add: key_char_def)
        then have "u = (a' @ CHR '':'' # b') @ CHR 0x22 # v'"
          using u' span_stop [OF w(1)] span_stop [OF k'] by (metis append.assoc append_Cons list.inject)
        moreover have "list_all key_char (a' @ CHR '':'' # b')"
          using ab' space_key_char by (auto simp: list_all_iff key_char_def)
        ultimately show False using plain_then_quote e by blast
      qed
      then have "partial_matches (CHR 0x22 # z) = partial_matches (CHR 0x22 # u)"
        using u(1) partial_matches_None partial_matches_plain [OF key_char_no_quote [OF w(1)]] by simp
      then show ?thesis using skip no_matches_quote [OF e] by simp
    qed
  qed
qed

lemma partial_matches_prefix: "prefix (partial_matches p) (partial_matches (p @ q))"
proof (induction p rule: partial_matches.induct)
  case (1 s)
  show ?case
  proof (cases s)
    case (Cons c s1)
    show ?thesis
    proof (cases "partial_match s")
      case (Some m)
      obtain kg r where m: "m = (kg, r)" by fastforce
      then have "partial_matches s = kg # partial_matches r" "partial_matches (s @ q) = kg # partial_matches (r @ q)"
        using Some Cons partial_match_ext [of s kg r q] by (subst partial_matches.simps, simp)+
      then show ?thesis using "1.IH"(2) [OF Cons Some m [symmetric]] by simp
    next
      case None
      show ?thesis
      proof (cases "partial_match (s @ q)")
        case none: None
        then show ?thesis using "1.IH"(1) [OF Cons None] None Cons by (simp add: partial_matches_None)
      next
        case (Some m)
        then show ?thesis using late_match_alone [of c s1 q] None Cons by (cases m) auto
      qed
    qed
  qed (simp add: partial_matches.simps)
qed

lemma collect_fields_append:
  "collect_fields names result (ms @ ms') = collect_fields names (collect_fields names result ms) ms'"
  by (induction names result ms rule: collect_fields.induct) simp_all

lemma collect_fields_keeps: "map_of result k = Some v \<Longrightarrow> map_of (collect_fields names result ms) k = Some v"
proof (induction names result ms rule: collect_fields.induct)
  case (2 names result key raw ms)
  show ?case unfolding collect_fields.simps
    by (rule "2.IH") (use "2.prems" in \<open>auto split: option.splits pyval.splits\<close>)
qed simp

text \<open>
  A field shown while the arguments of a call are still arriving is never revised: once a field has been read from
  a part of the text, every longer part gives the same value for it, whatever the text is.
\<close>
theorem partial_fields_stable:
  assumes "map_of (extract_partial_string_fields p names) k = Some v"
  shows "map_of (extract_partial_string_fields (p @ q) names) k = Some v"
proof -
  have ne: "p \<noteq> []" "names \<noteq> []" using assms by (auto simp: extract_partial_string_fields_def)
  obtain ms where "partial_matches (p @ q) = partial_matches p @ ms" using partial_matches_prefix by (auto simp: prefix_def)
  then have "extract_partial_string_fields (p @ q) names
      = collect_fields names (extract_partial_string_fields p names) ms"
    using ne by (simp add: extract_partial_string_fields_def collect_fields_append)
  then show ?thesis using assms collect_fields_keeps by simp
qed

theorem partial_fields_stable_witness:
  "map_of (extract_partial_string_fields
     (([CHR 0x22] @ ''path'' @ [CHR 0x22] @ '': '' @ [CHR 0x22] @ ''a.tf'' @ [CHR 0x22]) @ '', '') [''path'']) ''path''
   = Some ''a.tf''"
proof -
  have "map_of (extract_partial_string_fields
     ([CHR 0x22] @ ''path'' @ [CHR 0x22] @ '': '' @ [CHR 0x22] @ ''a.tf'' @ [CHR 0x22]) [''path'']) ''path'' = Some ''a.tf''"
    by code_simp
  then show ?thesis by (rule partial_fields_stable)
qed

end
