(* ===== verification/Push_Queue.thy ===== *)
theory Push_Queue
  imports Json Complex_Main "HOL-Library.List_Lexorder" "HOL-Library.Char_ord"
begin

text \<open>
  The delivery of push notifications: the queue in a directory (\<^verbatim>\<open>LocalFileA2APushQueue\<close> of
  \<^verbatim>\<open>a2a/push_queue.py\<close>) and the worker that empties it (\<^verbatim>\<open>A2APushDeliveryWorker\<close> of
  \<^verbatim>\<open>a2a/push_worker.py\<close>).

  A directory is an association list from the stem of a file name to the file: a job, or a file that was opened for
  writing and not written. What is written and read back is the job with its secret headers redacted (\<open>stored\<close>):
  \<^verbatim>\<open>from_dict\<close> restores every other field that \<^verbatim>\<open>to_dict\<close> wrote. Every method of the queue is a list of file
  operations (unlink, rename, open for writing, write), so that a process can die between any two of them; a rename is
  atomic, a file that is only partly written counts as unreadable. Times are rational numbers of seconds. The worker
  works on any implementation of the protocol \<^verbatim>\<open>A2APushQueue\<close>, which is the record \<open>push_ops\<close> together with what a
  death within a call leaves behind. Arguments stand for the clock, \<^verbatim>\<open>random.uniform\<close>, the HTTP call (its outcome is
  a \<open>delivery\<close>) and the sanitised text of an exception. Metrics, the log alert, the encryption of the files and the
  queue in Redis are not modelled.
\<close>

section \<open>Jobs\<close>

record A2APushJob =
  pj_task_id :: string
  pj_config_id :: string
  pj_url :: string
  pj_payload :: pydict
  pj_headers :: "(string \<times> string) list"
  pj_job_id :: string
  pj_attempt :: int
  pj_next_attempt_at :: rat
  pj_last_error :: string

definition with_attempt :: "int \<Rightarrow> rat option \<Rightarrow> string \<Rightarrow> A2APushJob \<Rightarrow> A2APushJob" where
  "with_attempt attempt next_attempt_at last_error job =
     job\<lparr>pj_attempt := attempt,
         pj_next_attempt_at := (case next_attempt_at of None \<Rightarrow> pj_next_attempt_at job | Some t \<Rightarrow> t),
         pj_last_error := last_error\<rparr>"

definition REDACTED_HEADERS :: "string list" where
  "REDACTED_HEADERS = [''authorization'', ''x-a2a-notification-token'', ''x-api-key'', ''api-key'']"

definition redact_push_headers :: "(string \<times> string) list \<Rightarrow> (string \<times> string) list" where
  "redact_push_headers headers =
     map (\<lambda>(k, v). (k, if map lower_char k \<in> set REDACTED_HEADERS then ''[redacted]'' else v)) headers"

definition stored :: "A2APushJob \<Rightarrow> A2APushJob" where
  "stored job = job\<lparr>pj_headers := redact_push_headers (pj_headers job)\<rparr>"

record A2APushRetryPolicy =
  rp_initial_delay_seconds :: rat
  rp_max_delay_seconds :: rat
  rp_jitter_ratio :: rat
  rp_max_attempts :: int

definition delay_for_attempt :: "(rat \<Rightarrow> rat \<Rightarrow> rat) \<Rightarrow> A2APushRetryPolicy \<Rightarrow> int \<Rightarrow> rat" where
  "delay_for_attempt uniform p attempt =
     (let base = min (rp_max_delay_seconds p) (rp_initial_delay_seconds p * 2 ^ nat (max 0 (attempt - 1))) in
      if rp_jitter_ratio p \<le> 0 then base
      else
        let jitter = base * rp_jitter_ratio p in max 0 (base + uniform (- jitter) jitter))"

section \<open>The queue in a directory\<close>

datatype job_file =
    Whole A2APushJob
  | Torn \<comment> \<open>opened for writing (and emptied) by \<^verbatim>\<open>write_text\<close>, the job not written in full\<close>

type_synonym job_dir = "(string \<times> job_file) list"

record local_queue =
  lq_pending :: job_dir
  lq_inflight :: job_dir
  lq_dead :: job_dir

definition empty_queue :: local_queue where
  "empty_queue = \<lparr>lq_pending = [], lq_inflight = [], lq_dead = []\<rparr>"

datatype place = Pending | Inflight | Dead

primrec dir_of :: "place \<Rightarrow> local_queue \<Rightarrow> job_dir" where
  "dir_of Pending q = lq_pending q"
| "dir_of Inflight q = lq_inflight q"
| "dir_of Dead q = lq_dead q"

primrec on_dir :: "place \<Rightarrow> (job_dir \<Rightarrow> job_dir) \<Rightarrow> local_queue \<Rightarrow> local_queue" where
  "on_dir Pending f q = q\<lparr>lq_pending := f (lq_pending q)\<rparr>"
| "on_dir Inflight f q = q\<lparr>lq_inflight := f (lq_inflight q)\<rparr>"
| "on_dir Dead f q = q\<lparr>lq_dead := f (lq_dead q)\<rparr>"

text \<open>The effects on the file system, one by one: a process can die between any two of them.\<close>

datatype file_op =
    Unlink place string \<comment> \<open>\<^verbatim>\<open>unlink(missing_ok=True)\<close>\<close>
  | Replace place place string \<comment> \<open>\<^verbatim>\<open>path.replace(target)\<close>, atomic\<close>
  | Truncate place string \<comment> \<open>\<^verbatim>\<open>write_text\<close> opens the file\<close>
  | Fill place string A2APushJob \<comment> \<open>and writes the text\<close>

fun apply_op :: "file_op \<Rightarrow> local_queue \<Rightarrow> local_queue" where
  "apply_op (Unlink p name) q = on_dir p (dict_del name) q"
| "apply_op (Replace p p' name) q =
     (case map_of (dir_of p q) name of
        None \<Rightarrow> q
      | Some file \<Rightarrow> on_dir p' (dict_set name file) (on_dir p (dict_del name) q))"
| "apply_op (Truncate p name) q = on_dir p (dict_set name Torn) q"
| "apply_op (Fill p name job) q = on_dir p (dict_set name (Whole job)) q"

definition apply_ops :: "file_op list \<Rightarrow> local_queue \<Rightarrow> local_queue" where
  "apply_ops ops q = fold apply_op ops q"

datatype queue_error = FileNotFoundError | JSONDecodeError

definition read_job :: "place \<Rightarrow> string \<Rightarrow> local_queue \<Rightarrow> queue_error + A2APushJob" where
  "read_job p name q =
     (case map_of (dir_of p q) name of
        None \<Rightarrow> Inl FileNotFoundError
      | Some Torn \<Rightarrow> Inl JSONDecodeError
      | Some (Whole job) \<Rightarrow> Inr job)"

definition write_job :: "place \<Rightarrow> string \<Rightarrow> A2APushJob \<Rightarrow> file_op list" where
  "write_job p name job = [Truncate p name, Fill p name (stored job)]"

definition sorted_names :: "job_dir \<Rightarrow> string list" where
  \<comment> \<open>\<^verbatim>\<open>sorted(dir.glob("*.json"))\<close>\<close>
  "sorted_names dir = sort_key (\<lambda>name. name @ ''.json'') (map fst dir)"

text \<open>
  Every method of the queue is the list of its effects; \<open>claim\<close> and the recovery also depend on the files they read
  in between, so their effects are computed along with their result.
\<close>

definition enqueue_ops :: "A2APushJob \<Rightarrow> file_op list" where
  "enqueue_ops job = write_job Pending (pj_job_id job) job"

definition ack_ops :: "string \<Rightarrow> file_op list" where
  "ack_ops job_id = [Unlink Inflight job_id]"

definition retry_ops :: "A2APushJob \<Rightarrow> file_op list" where
  "retry_ops job = Unlink Inflight (pj_job_id job) # write_job Pending (pj_job_id job) job"

definition dead_letter_ops :: "A2APushJob \<Rightarrow> file_op list" where
  "dead_letter_ops job = Unlink Inflight (pj_job_id job) # write_job Dead (pj_job_id job) job"

fun recover_files :: "rat \<Rightarrow> string list \<Rightarrow> local_queue \<Rightarrow> (queue_error + unit) \<times> file_op list" where
  "recover_files now [] q = (Inr (), [])"
| "recover_files now (name # names) q =
     (case read_job Inflight name q of
        Inl e \<Rightarrow> (Inl e, [])
      | Inr job \<Rightarrow>
          if now < pj_next_attempt_at job then recover_files now names q
          else
            let ops = Replace Inflight Pending name #
                  write_job Pending name (with_attempt (pj_attempt job) (Some now) ''Delivery lease expired.'' job) in
            map_prod id ((@) ops) (recover_files now names (apply_ops ops q)))"

definition recover_expired_inflight :: "rat \<Rightarrow> local_queue \<Rightarrow> (queue_error + unit) \<times> file_op list" where
  "recover_expired_inflight now q = recover_files now (sorted_names (lq_inflight q)) q"

fun claim_files :: "rat \<Rightarrow> rat \<Rightarrow> string list \<Rightarrow> local_queue \<Rightarrow> (queue_error + A2APushJob option) \<times> file_op list" where
  "claim_files inflight_timeout now [] q = (Inr None, [])"
| "claim_files inflight_timeout now (name # names) q =
     (case read_job Pending name q of
        Inl FileNotFoundError \<Rightarrow> claim_files inflight_timeout now names q
      | Inl e \<Rightarrow> (Inl e, [])
      | Inr job \<Rightarrow>
          if now < pj_next_attempt_at job then claim_files inflight_timeout now names q
          else
            let leased = with_attempt (pj_attempt job) (Some (now + inflight_timeout)) (pj_last_error job) job;
                ops = Replace Pending Inflight name # write_job Inflight name leased in
            (map_sum id Some (read_job Inflight name (apply_ops ops q)), ops))"

definition claim_ops :: "rat \<Rightarrow> rat \<Rightarrow> local_queue \<Rightarrow> (queue_error + A2APushJob option) \<times> file_op list" where
  "claim_ops inflight_timeout now q =
     (case recover_expired_inflight now q of
        (Inl e, ops) \<Rightarrow> (Inl e, ops)
      | (Inr _, ops) \<Rightarrow>
          let q1 = apply_ops ops q in
          map_prod id ((@) ops) (claim_files inflight_timeout now (sorted_names (lq_pending q1)) q1))"

definition enqueue :: "A2APushJob \<Rightarrow> local_queue \<Rightarrow> local_queue" where
  "enqueue job q = apply_ops (enqueue_ops job) q"

definition claim :: "rat \<Rightarrow> rat \<Rightarrow> local_queue \<Rightarrow> (queue_error + A2APushJob option) \<times> local_queue" where
  "claim inflight_timeout now q = (case claim_ops inflight_timeout now q of (r, ops) \<Rightarrow> (r, apply_ops ops q))"

definition ack :: "string \<Rightarrow> local_queue \<Rightarrow> local_queue" where
  "ack job_id q = apply_ops (ack_ops job_id) q"

definition retry :: "A2APushJob \<Rightarrow> local_queue \<Rightarrow> local_queue" where
  "retry job q = apply_ops (retry_ops job) q"

definition dead_letter :: "A2APushJob \<Rightarrow> local_queue \<Rightarrow> local_queue" where
  "dead_letter job q = apply_ops (dead_letter_ops job) q"

text \<open>A process that dies during a call has done the first \<open>k\<close> effects of it.\<close>

datatype push_call = Put A2APushJob | Take rat | Again A2APushJob | Bury A2APushJob

definition call_ops :: "rat \<Rightarrow> push_call \<Rightarrow> local_queue \<Rightarrow> file_op list" where
  "call_ops inflight_timeout c q =
     (case c of
        Put job \<Rightarrow> enqueue_ops job
      | Take now \<Rightarrow> snd (claim_ops inflight_timeout now q)
      | Again job \<Rightarrow> retry_ops job
      | Bury job \<Rightarrow> dead_letter_ops job)"

definition exposed :: "file_op list \<Rightarrow> string set" where
  \<comment> \<open>the job whose file the last effect removed or emptied\<close>
  "exposed ops = (if ops = [] then {} else case last ops of Unlink _ name \<Rightarrow> {name} | Truncate _ name \<Rightarrow> {name} | _ \<Rightarrow> {})"

section \<open>The worker\<close>

record 'q push_ops =
  op_enqueue :: "A2APushJob \<Rightarrow> 'q \<Rightarrow> 'q"
  op_claim :: "rat \<Rightarrow> 'q \<Rightarrow> (queue_error + A2APushJob option) \<times> 'q"
  op_ack :: "string \<Rightarrow> 'q \<Rightarrow> 'q"
  op_retry :: "A2APushJob \<Rightarrow> 'q \<Rightarrow> 'q"
  op_dead_letter :: "A2APushJob \<Rightarrow> 'q \<Rightarrow> 'q"
  op_dies :: "nat \<Rightarrow> push_call \<Rightarrow> 'q \<Rightarrow> 'q" \<comment> \<open>what a process that dies during a call leaves behind\<close>
  op_at_risk :: "nat \<Rightarrow> push_call \<Rightarrow> 'q \<Rightarrow> string set" \<comment> \<open>and the job it had removed or emptied at that moment\<close>

definition local_ops :: "rat \<Rightarrow> local_queue push_ops" where
  "local_ops inflight_timeout =
     \<lparr>op_enqueue = enqueue, op_claim = claim inflight_timeout, op_ack = ack, op_retry = retry, op_dead_letter = dead_letter,
      op_dies = (\<lambda>k c q. apply_ops (take k (call_ops inflight_timeout c q)) q),
      op_at_risk = (\<lambda>k c q. exposed (take k (call_ops inflight_timeout c q)))\<rparr>"

record push_exception =
  ex_transport :: bool \<comment> \<open>a timeout, a transport error or an \<^verbatim>\<open>OSError\<close>\<close>
  ex_type :: string
  ex_text :: string

datatype delivery = Responded int | Raised push_exception

definition is_transient_delivery_error :: "push_exception \<Rightarrow> bool" where
  "is_transient_delivery_error exc \<longleftrightarrow>
     ex_transport exc \<or> list_ex (\<lambda>code. contains (''HTTP '' @ int_str code) (ex_text exc)) [408, 409, 425, 429, 500, 502, 503, 504]"

record push_env =
  pe_policy :: A2APushRetryPolicy
  pe_uniform :: "rat \<Rightarrow> rat \<Rightarrow> rat"
  pe_public_error :: "push_exception \<Rightarrow> string"

definition handle_failure :: "push_env \<Rightarrow> 'q push_ops \<Rightarrow> rat \<Rightarrow> A2APushJob \<Rightarrow> push_exception \<Rightarrow> 'q \<Rightarrow> 'q" where
  "handle_failure env ops now job exc q =
     (let next_attempt = pj_attempt job + 1 in
      if is_transient_delivery_error exc \<and> next_attempt < rp_max_attempts (pe_policy env) then
        op_retry ops
          (with_attempt next_attempt
             (Some (now + delay_for_attempt (pe_uniform env) (pe_policy env) next_attempt)) (pe_public_error env exc) job) q
      else op_dead_letter ops (with_attempt next_attempt None (pe_public_error env exc) job) q)"

definition finish_delivery ::
    "push_env \<Rightarrow> 'q push_ops \<Rightarrow> rat \<Rightarrow> A2APushJob \<Rightarrow> delivery \<Rightarrow> bool \<Rightarrow> 'q \<Rightarrow> bool \<times> 'q" where
  \<comment> \<open>\<^verbatim>\<open>run_once\<close> after the HTTP call; \<open>ack_ok\<close> says whether the acknowledgement returns\<close>
  "finish_delivery env ops now job outcome ack_ok q =
     (case outcome of
        Responded status_code \<Rightarrow>
          if 200 \<le> status_code \<and> status_code < 300 then
            (if ack_ok then (True, op_ack ops (pj_job_id job) q) else (False, q))
          else
            (False, handle_failure env ops now job
               \<lparr>ex_transport = False, ex_type = ''RuntimeError'', ex_text = ''HTTP '' @ int_str status_code\<rparr> q)
      | Raised exc \<Rightarrow> (False, handle_failure env ops now job exc q))"

definition run_once ::
    "push_env \<Rightarrow> 'q push_ops \<Rightarrow> rat \<Rightarrow> (A2APushJob \<Rightarrow> delivery) \<Rightarrow> rat \<Rightarrow> bool \<Rightarrow> 'q \<Rightarrow> (queue_error + bool) \<times> 'q" where
  "run_once env ops now post finished_at ack_ok q =
     (case op_claim ops now q of
        (Inl e, q1) \<Rightarrow> (Inl e, q1)
      | (Inr None, q1) \<Rightarrow> (Inr False, q1)
      | (Inr (Some job), q1) \<Rightarrow> map_prod Inr id (finish_delivery env ops finished_at job (post job) ack_ok q1))"

section \<open>Several workers on one queue\<close>

text \<open>
  Any number of workers of one event loop share the queue. No method of the queue awaits anything, so its calls do not
  interleave: a claim hands a job to a worker, and the end of its delivery is a later step, or never comes (the
  process died during the delivery). A process can also die within a call (\<open>Dies\<close>). \<open>sy_delivered\<close> records the
  jobs that were answered with a success status, \<open>sy_at_risk\<close> the jobs whose file a dying process had just removed or
  emptied.
\<close>

record 'q push_system =
  sy_queue :: 'q
  sy_held :: "A2APushJob list"
  sy_delivered :: "string set"
  sy_enqueued :: "string list"
  sy_at_risk :: "string set"

datatype push_step =
    Enqueue A2APushJob
  | Claim rat
  | Finish rat A2APushJob delivery bool
  | Dies nat push_call

definition success :: "delivery \<Rightarrow> bool" where
  "success outcome \<longleftrightarrow> (case outcome of Responded s \<Rightarrow> 200 \<le> s \<and> s < 300 | Raised _ \<Rightarrow> False)"

fun push_exec :: "push_env \<Rightarrow> 'q push_ops \<Rightarrow> push_step \<Rightarrow> 'q push_system \<Rightarrow> 'q push_system" where
  "push_exec env ops (Enqueue job) s =
     s\<lparr>sy_queue := op_enqueue ops job (sy_queue s), sy_enqueued := pj_job_id job # sy_enqueued s\<rparr>"
| "push_exec env ops (Claim now) s =
     (case op_claim ops now (sy_queue s) of
        (Inr (Some job), q) \<Rightarrow> s\<lparr>sy_queue := q, sy_held := job # sy_held s\<rparr>
      | (_, q) \<Rightarrow> s\<lparr>sy_queue := q\<rparr>)"
| "push_exec env ops (Finish now job outcome ack_ok) s =
     (if job \<in> set (sy_held s) then
        s\<lparr>sy_queue := snd (finish_delivery env ops now job outcome ack_ok (sy_queue s)),
          sy_held := remove1 job (sy_held s),
          sy_delivered := (if success outcome then insert (pj_job_id job) (sy_delivered s) else sy_delivered s)\<rparr>
      else s)"
| "push_exec env ops (Dies k c) s =
     s\<lparr>sy_queue := op_dies ops k c (sy_queue s), sy_at_risk := op_at_risk ops k c (sy_queue s) \<union> sy_at_risk s\<rparr>"

definition push_start :: "'q \<Rightarrow> 'q push_system" where
  "push_start q = \<lparr>sy_queue = q, sy_held = [], sy_delivered = {}, sy_enqueued = [], sy_at_risk = {}\<rparr>"

text \<open>
  What a worker relies on: no operation but the acknowledgement of a job makes the queue forget it, and a process that
  dies during a call takes no other job with it than the one at risk.\<close>

locale push_queue =
  fixes ops :: "'q push_ops" and valid :: "'q \<Rightarrow> bool" and accounted :: "'q \<Rightarrow> string set"
  assumes enqueue_keeps: "valid q \<Longrightarrow> valid (op_enqueue ops job q) \<and> insert (pj_job_id job) (accounted q) \<subseteq> accounted (op_enqueue ops job q)"
    and claim_keeps: "valid q \<Longrightarrow> op_claim ops now q = (r, q') \<Longrightarrow> valid q' \<and> accounted q \<subseteq> accounted q'"
    and ack_keeps: "valid q \<Longrightarrow> valid (op_ack ops i q) \<and> accounted q - {i} \<subseteq> accounted (op_ack ops i q)"
    and retry_keeps: "valid q \<Longrightarrow> valid (op_retry ops job q) \<and> insert (pj_job_id job) (accounted q) \<subseteq> accounted (op_retry ops job q)"
    and dead_letter_keeps:
      "valid q \<Longrightarrow> valid (op_dead_letter ops job q) \<and> insert (pj_job_id job) (accounted q) \<subseteq> accounted (op_dead_letter ops job q)"
    and dies_keeps: "valid q \<Longrightarrow> valid (op_dies ops k c q) \<and> accounted q - op_at_risk ops k c q \<subseteq> accounted (op_dies ops k c q)"
begin

lemma with_attempt_id: "pj_job_id (with_attempt a t e job) = pj_job_id job"
  by (simp add: with_attempt_def)

lemma handle_failure_keeps:
  "valid q \<Longrightarrow> valid (handle_failure env ops now job exc q) \<and> accounted q \<subseteq> accounted (handle_failure env ops now job exc q)"
  using retry_keeps dead_letter_keeps by (fastforce simp: handle_failure_def Let_def)

lemma finish_keeps:
  assumes "valid q"
  shows "valid (snd (finish_delivery env ops now job outcome ack_ok q))
    \<and> (if success outcome then accounted q - {pj_job_id job} else accounted q)
        \<subseteq> accounted (snd (finish_delivery env ops now job outcome ack_ok q))"
  using assms handle_failure_keeps ack_keeps
  by (auto simp: finish_delivery_def success_def split: delivery.splits)

definition nothing_lost :: "'q push_system \<Rightarrow> bool" where
  "nothing_lost s \<longleftrightarrow> valid (sy_queue s)
     \<and> set (sy_enqueued s) \<subseteq> accounted (sy_queue s) \<union> sy_delivered s \<union> sy_at_risk s"

lemma step_keeps:
  assumes "nothing_lost s"
  shows "nothing_lost (push_exec env ops st s)"
proof (cases st)
  case (Enqueue job)
  then show ?thesis using assms enqueue_keeps [of "sy_queue s" job] by (auto simp: nothing_lost_def)
next
  case (Claim now)
  obtain r q' where c: "op_claim ops now (sy_queue s) = (r, q')" by fastforce
  have "sy_queue (push_exec env ops st s) = q'" "sy_enqueued (push_exec env ops st s) = sy_enqueued s"
    "sy_delivered (push_exec env ops st s) = sy_delivered s" "sy_at_risk (push_exec env ops st s) = sy_at_risk s"
    using c Claim by (simp_all split: sum.split option.split)
  then show ?thesis using assms claim_keeps [OF _ c] by (auto simp: nothing_lost_def)
next
  case (Finish now job outcome ack_ok)
  then show ?thesis
    using assms finish_keeps [of "sy_queue s" env now job outcome ack_ok] by (auto simp: nothing_lost_def split: if_splits)
next
  case (Dies k c)
  then show ?thesis using assms dies_keeps [of "sy_queue s" k c] by (auto simp: nothing_lost_def)
qed

lemma no_job_forgotten:
  assumes "valid q"
  shows "set (sy_enqueued (fold (push_exec env ops) steps (push_start q)))
    \<subseteq> accounted (sy_queue (fold (push_exec env ops) steps (push_start q)))
       \<union> sy_delivered (fold (push_exec env ops) steps (push_start q)) \<union> sy_at_risk (fold (push_exec env ops) steps (push_start q))"
proof -
  have "nothing_lost s \<Longrightarrow> nothing_lost (fold (push_exec env ops) steps s)" for s
    using step_keeps by (induction steps arbitrary: s) simp_all
  moreover have "nothing_lost (push_start q)" using assms by (simp add: push_start_def nothing_lost_def)
  ultimately show ?thesis by (auto simp: nothing_lost_def)
qed

end

section \<open>The directory queue keeps its jobs\<close>

definition names :: "job_dir \<Rightarrow> string set" where
  \<comment> \<open>the files that hold a job\<close>
  "names d = {name. \<exists>job. map_of d name = Some (Whole job)}"

definition dir_ok :: "job_dir \<Rightarrow> bool" where
  "dir_ok d \<longleftrightarrow> distinct (map fst d) \<and> (\<forall>name job. map_of d name = Some (Whole job) \<longrightarrow> pj_job_id job = name)"

definition queue_ok :: "local_queue \<Rightarrow> bool" where
  "queue_ok q \<longleftrightarrow> (\<forall>p. dir_ok (dir_of p q))"

definition queue_names :: "local_queue \<Rightarrow> string set" where
  "queue_names q = (\<Union>p. names (dir_of p q))"

lemma stored_sel [simp]:
  "pj_job_id (stored j) = pj_job_id j" "pj_attempt (stored j) = pj_attempt j"
  "pj_next_attempt_at (stored j) = pj_next_attempt_at j" "pj_last_error (stored j) = pj_last_error j"
  by (simp_all add: stored_def)

lemma with_attempt_sel [simp]:
  "pj_job_id (with_attempt a t e j) = pj_job_id j" "pj_attempt (with_attempt a t e j) = a"
  "pj_next_attempt_at (with_attempt a (Some u) e j) = u" "pj_headers (with_attempt a t e j) = pj_headers j"
  by (simp_all add: with_attempt_def)

lemma redact_twice: "redact_push_headers (redact_push_headers h) = redact_push_headers h"
  by (auto simp: redact_push_headers_def)

lemma dir_of_on_dir [simp]: "dir_of p (on_dir p' f q) = (if p = p' then f (dir_of p q) else dir_of p q)"
  by (cases p; cases p') simp_all

lemma map_of_del: "dir_ok d \<Longrightarrow> map_of (dict_del name d) = (map_of d)(name := None)"
  by (simp add: dir_ok_def map_of_dict_del)

lemma dir_ok_del: "dir_ok d \<Longrightarrow> dir_ok (dict_del name d)"
  by (simp add: dir_ok_def map_of_dict_del distinct_dict_del)

lemma dir_ok_set: "dir_ok d \<Longrightarrow> (\<And>job. file = Whole job \<Longrightarrow> pj_job_id job = name) \<Longrightarrow> dir_ok (dict_set name file d)"
  by (auto simp: dir_ok_def distinct_dict_set)

lemma dir_ok_id: "dir_ok d \<Longrightarrow> map_of d name = Some (Whole job) \<Longrightarrow> pj_job_id job = name"
  by (simp add: dir_ok_def)

lemma apply_ops_simps [simp]:
  "apply_ops [] q = q" "apply_ops (op # ops) q = apply_ops ops (apply_op op q)"
  "apply_ops (ops @ ops') q = apply_ops ops' (apply_ops ops q)"
  by (simp_all add: apply_ops_def)

lemma read_job_iff:
  "read_job p name q = Inr job \<longleftrightarrow> map_of (dir_of p q) name = Some (Whole job)"
  "read_job p name q = Inl FileNotFoundError \<longleftrightarrow> map_of (dir_of p q) name = None"
  "read_job p name q = Inl JSONDecodeError \<longleftrightarrow> map_of (dir_of p q) name = Some Torn"
  by (simp_all add: read_job_def split: option.split job_file.split)

subsection \<open>Effects\<close>

fun op_name :: "file_op \<Rightarrow> string" where
  "op_name (Unlink p name) = name"
| "op_name (Replace p p' name) = name"
| "op_name (Truncate p name) = name"
| "op_name (Fill p name job) = name"

fun op_ok :: "file_op \<Rightarrow> bool" where
  "op_ok (Fill p name job) \<longleftrightarrow> pj_job_id job = name"
| "op_ok _ \<longleftrightarrow> True"

lemma queue_ok_dir [simp]: "queue_ok q \<Longrightarrow> dir_ok (dir_of p q)"
  by (simp add: queue_ok_def)

lemma apply_op_ok: "queue_ok q \<Longrightarrow> op_ok op \<Longrightarrow> queue_ok (apply_op op q)"
  by (cases op) (auto simp: queue_ok_def dir_ok_del intro!: dir_ok_set split: option.split, (metis dir_ok_id)+)

lemma apply_ops_ok: "queue_ok q \<Longrightarrow> list_all op_ok ops \<Longrightarrow> queue_ok (apply_ops ops q)"
  by (induction ops arbitrary: q) (simp_all add: apply_op_ok)

lemma apply_op_other:
  "queue_ok q \<Longrightarrow> op_name op \<noteq> i \<Longrightarrow> map_of (dir_of p (apply_op op q)) i = map_of (dir_of p q) i"
  by (cases op) (auto simp: map_of_del split: option.split)

lemma apply_ops_other:
  "queue_ok q \<Longrightarrow> list_all op_ok ops \<Longrightarrow> list_all (\<lambda>op. op_name op \<noteq> i) ops \<Longrightarrow>
     map_of (dir_of p (apply_ops ops q)) i = map_of (dir_of p q) i"
  by (induction ops arbitrary: q) (simp_all add: apply_op_ok apply_op_other)

definition careful :: "file_op list \<Rightarrow> local_queue \<Rightarrow> bool" where
  \<comment> \<open>in full, the effects keep every job; when they are cut, they lose at most the exposed one\<close>
  "careful ops q \<longleftrightarrow> list_all op_ok ops \<and> queue_names q \<subseteq> queue_names (apply_ops ops q)
     \<and> (\<forall>k. queue_names q - exposed (take k ops) \<subseteq> queue_names (apply_ops (take k ops) q))"

lemma carefulD:
  assumes "careful ops q"
  shows "list_all op_ok ops" "queue_names q \<subseteq> queue_names (apply_ops ops q)"
    "queue_names q - exposed (take k ops) \<subseteq> queue_names (apply_ops (take k ops) q)"
  using assms by (simp_all add: careful_def)

lemma careful_Nil: "careful [] q"
  by (simp add: careful_def)

lemma careful_append:
  assumes "careful ops q" and "careful ops' (apply_ops ops q)"
  shows "careful (ops @ ops') q"
proof -
  have "queue_names q - exposed (take k (ops @ ops')) \<subseteq> queue_names (apply_ops (take k (ops @ ops')) q)" for k
  proof (cases "take (k - length ops) ops' = []")
    case True
    show ?thesis unfolding take_append True append_Nil2 by (rule carefulD(3) [OF assms(1)])
  next
    case False
    then have "take k ops = ops" by (cases "k \<le> length ops") simp_all
    moreover have "exposed (ops @ take (k - length ops) ops') = exposed (take (k - length ops) ops')"
      using False by (simp add: exposed_def)
    ultimately show ?thesis
      using carefulD(2) [OF assms(1)] carefulD(3) [OF assms(2), of "k - length ops"] by auto
  qed
  then show ?thesis using carefulD [OF assms(1)] carefulD [OF assms(2)] by (auto simp: careful_def)
qed

lemma queue_names_iff: "i \<in> queue_names q \<longleftrightarrow> (\<exists>p job. map_of (dir_of p q) i = Some (Whole job))"
  by (simp add: queue_names_def names_def)

lemma exposed_sub: "list_all (\<lambda>op. op_name op = i) ops \<Longrightarrow> exposed ops = {} \<or> exposed ops = {i}"
  by (cases ops rule: rev_cases) (auto simp: exposed_def split: file_op.splits)

lemma apply_ops_others_stay:
  assumes "queue_ok q" and "list_all op_ok ops" and "list_all (\<lambda>op. op_name op = i) ops"
  shows "queue_names q - {i} \<subseteq> queue_names (apply_ops ops q)"
proof
  fix n assume n: "n \<in> queue_names q - {i}"
  then have "list_all (\<lambda>op. op_name op \<noteq> n) ops" using assms(3) by (auto simp: list_all_iff)
  then show "n \<in> queue_names (apply_ops ops q)" using n apply_ops_other [OF assms(1,2)] by (auto simp: queue_names_iff)
qed

lemma careful_single:
  assumes "queue_ok q" and "list_all op_ok ops" and "list_all (\<lambda>op. op_name op = i) ops" and "exposed ops = {}"
    and stays: "\<And>k. i \<in> queue_names q \<Longrightarrow> exposed (take k ops) = {} \<Longrightarrow> i \<in> queue_names (apply_ops (take k ops) q)"
  shows "careful ops q"
proof -
  have cut: "queue_names q - exposed (take k ops) \<subseteq> queue_names (apply_ops (take k ops) q)" for k
  proof -
    have t: "list_all op_ok (take k ops)" "list_all (\<lambda>op. op_name op = i) (take k ops)"
      using assms(2,3) by (auto simp: list_all_iff dest: in_set_takeD)
    then show ?thesis
      using exposed_sub [OF t(2)] apply_ops_others_stay [OF assms(1) t] stays [of k] by blast
  qed
  then show ?thesis using cut [of "length ops"] assms(2,4) by (simp add: careful_def)
qed

lemma file_written: "i \<in> queue_names (apply_ops (ops @ write_job p i job) q)"
  by (auto simp: write_job_def queue_names_iff intro: exI [of _ p])

lemma cut_write:
  obtains "k = 0" | "take k (write_job p i job) = [Truncate p i]" | "take k (write_job p i job) = write_job p i job"
  by (cases "k \<le> 1"; cases k) (auto simp: write_job_def)

lemma careful_write:
  assumes "queue_ok q" and "pj_job_id job = i"
  shows "careful (write_job p i job) q"
proof (rule careful_single [where i = i])
  fix k
  assume "i \<in> queue_names q" "exposed (take k (write_job p i job)) = {}"
  then show "i \<in> queue_names (apply_ops (take k (write_job p i job)) q)"
    using file_written [of i "[]" p job q] by (cases rule: cut_write [where k = k and p = p and i = i and job = job]) (simp_all add: exposed_def)
qed (use assms in \<open>simp_all add: write_job_def exposed_def\<close>)

lemma careful_segment:
  assumes "queue_ok q" and "pj_job_id job = i" and "op_ok m" and "op_name m = i"
    and first: "i \<in> queue_names q \<Longrightarrow> exposed [m] = {} \<Longrightarrow> i \<in> queue_names (apply_op m q)"
  shows "careful (m # write_job p i job) q"
proof (rule careful_single [where i = i])
  fix k
  assume here: "i \<in> queue_names q" "exposed (take k (m # write_job p i job)) = {}"
  show "i \<in> queue_names (apply_ops (take k (m # write_job p i job)) q)"
  proof (cases k)
    case (Suc n)
    from here Suc first show ?thesis
      using file_written [of i "[m]" p job q] by (cases rule: cut_write [where k = n and p = p and i = i and job = job]) (simp_all add: exposed_def)
  qed (use here in simp)
qed (use assms in \<open>simp_all add: write_job_def exposed_def\<close>)

lemma careful_move:
  assumes "queue_ok q" and "pj_job_id job = i" and "map_of (dir_of p q) i = Some (Whole old)"
  shows "careful (Replace p p' i # write_job p' i job) q"
  using assms by (intro careful_segment) (auto simp: queue_names_iff intro: exI [of _ p'])

lemma careful_rewrite:
  "queue_ok q \<Longrightarrow> pj_job_id job = i \<Longrightarrow> careful (Unlink p' i # write_job p i job) q"
  by (rule careful_segment) (simp_all add: exposed_def)

lemma recover_files_careful:
  "queue_ok q \<Longrightarrow> recover_files now ns q = (r, ops) \<Longrightarrow> careful ops q"
proof (induction now ns q arbitrary: ops rule: recover_files.induct)
  case (2 now name ns q)
  show ?case
  proof (cases "read_job Inflight name q")
    case (Inl e)
    then show ?thesis using "2.prems" by (simp add: careful_Nil)
  next
    case (Inr job)
    let ?seg = "Replace Inflight Pending name #
      write_job Pending name (with_attempt (pj_attempt job) (Some now) ''Delivery lease expired.'' job)"
    have f: "map_of (dir_of Inflight q) name = Some (Whole job)" using Inr by (simp add: read_job_iff)
    have seg: "careful ?seg q" using "2.prems"(1) f dir_ok_id [OF queue_ok_dir f] by (intro careful_move) simp_all
    then have ok: "queue_ok (apply_ops ?seg q)" using "2.prems"(1) apply_ops_ok carefulD(1) by blast
    show ?thesis
    proof (cases "now < pj_next_attempt_at job")
      case True
      then show ?thesis using "2.IH"(1) [OF Inr True "2.prems"(1)] "2.prems"(2) Inr by simp
    next
      case False
      obtain ops' where ops': "recover_files now ns (apply_ops ?seg q) = (r, ops')" "ops = ?seg @ ops'"
        using "2.prems"(2) Inr False by (auto simp: Let_def map_prod_def split: prod.splits)
      then have "careful ops' (apply_ops ?seg q)" using "2.IH"(2) [OF Inr False refl ok] by blast
      then show ?thesis using careful_append [OF seg] ops'(2) by simp
    qed
  qed
qed (simp add: careful_Nil)

lemma claim_files_careful:
  "queue_ok q \<Longrightarrow> claim_files t now ns q = (r, ops) \<Longrightarrow> careful ops q"
proof (induction t now ns q rule: claim_files.induct)
  case (2 t now name ns q)
  show ?case
  proof (cases "read_job Pending name q")
    case (Inl e)
    then show ?thesis using 2 by (cases e) (auto simp: careful_Nil)
  next
    case (Inr job)
    then have f: "map_of (dir_of Pending q) name = Some (Whole job)" by (simp add: read_job_iff)
    then have "pj_job_id job = name" using "2.prems"(1) dir_ok_id queue_ok_dir by blast
    then show ?thesis
      using "2.IH"(2) [OF Inr] "2.prems" Inr f by (auto simp: Let_def intro!: careful_move split: if_splits)
  qed
qed (simp add: careful_Nil)

lemma recover_careful: "queue_ok q \<Longrightarrow> recover_expired_inflight now q = (r, ops) \<Longrightarrow> careful ops q"
  by (simp add: recover_expired_inflight_def recover_files_careful)

lemma claim_ops_careful:
  assumes "queue_ok q" and "claim_ops t now q = (r, ops)"
  shows "careful ops q"
proof -
  obtain r1 ops1 where rec: "recover_expired_inflight now q = (r1, ops1)" by fastforce
  have one: "careful ops1 q" "queue_ok (apply_ops ops1 q)"
    using recover_careful [OF assms(1) rec] carefulD(1) apply_ops_ok assms(1) by blast+
  show ?thesis
  proof (cases r1)
    case (Inr u)
    obtain ops2 where "claim_files t now (sorted_names (lq_pending (apply_ops ops1 q))) (apply_ops ops1 q) = (r, ops2)" "ops = ops1 @ ops2"
      using assms(2) rec Inr by (auto simp: claim_ops_def Let_def map_prod_def split: prod.splits)
    then show ?thesis using careful_append [OF one(1)] claim_files_careful [OF one(2)] by blast
  qed (use assms(2) rec one in \<open>simp add: claim_ops_def\<close>)
qed

lemma call_ops_careful:
  assumes "queue_ok q"
  shows "careful (call_ops t c q) q"
proof (cases c)
  case (Take now)
  then show ?thesis using claim_ops_careful [OF assms] by (simp add: call_ops_def) (metis prod.collapse)
qed (use assms in \<open>simp_all add: call_ops_def enqueue_ops_def retry_ops_def dead_letter_ops_def careful_write careful_rewrite\<close>)

interpretation local_files: push_queue "local_ops t" queue_ok queue_names
proof unfold_locales
  fix q job i now r q' k c
  assume ok: "queue_ok q"
  note simps = local_ops_def enqueue_def ack_def retry_def dead_letter_def
  have call: "queue_ok (apply_ops (call_ops t c q) q)" "queue_names q \<subseteq> queue_names (apply_ops (call_ops t c q) q)" for c
    using call_ops_careful [OF ok, of t c] apply_ops_ok [OF ok] carefulD(1,2) by blast+
  show "queue_ok (op_enqueue (local_ops t) job q) \<and> insert (pj_job_id job) (queue_names q) \<subseteq> queue_names (op_enqueue (local_ops t) job q)"
    using call [of "Put job"] file_written [of "pj_job_id job" "[]"] by (simp add: simps call_ops_def enqueue_ops_def)
  show "queue_ok (op_retry (local_ops t) job q) \<and> insert (pj_job_id job) (queue_names q) \<subseteq> queue_names (op_retry (local_ops t) job q)"
    using call [of "Again job"] file_written [of "pj_job_id job" "[]"] by (simp add: simps call_ops_def retry_ops_def)
  show "queue_ok (op_dead_letter (local_ops t) job q)
      \<and> insert (pj_job_id job) (queue_names q) \<subseteq> queue_names (op_dead_letter (local_ops t) job q)"
    using call [of "Bury job"] file_written [of "pj_job_id job" "[]"] by (simp add: simps call_ops_def dead_letter_ops_def)
  show "queue_ok (op_ack (local_ops t) i q) \<and> queue_names q - {i} \<subseteq> queue_names (op_ack (local_ops t) i q)"
    using apply_ops_ok [OF ok, of "ack_ops i"] apply_ops_others_stay [OF ok, of "ack_ops i" i] by (simp add: simps ack_ops_def)
  show "queue_ok q' \<and> queue_names q \<subseteq> queue_names q'" if "op_claim (local_ops t) now q = (r, q')"
    using that call [of "Take now"] by (auto simp: simps claim_def call_ops_def split: prod.splits)
  show "queue_ok (op_dies (local_ops t) k c q)
      \<and> queue_names q - op_at_risk (local_ops t) k c q \<subseteq> queue_names (op_dies (local_ops t) k c q)"
  proof -
    have "list_all op_ok (take k (call_ops t c q))"
      using carefulD(1) [OF call_ops_careful [OF ok]] by (auto simp: list_all_iff dest: in_set_takeD)
    then show ?thesis using carefulD(3) [OF call_ops_careful [OF ok]] apply_ops_ok [OF ok] by (simp add: local_ops_def)
  qed
qed

section \<open>What a recovery and a claim do\<close>

definition expired :: "rat \<Rightarrow> local_queue \<Rightarrow> string \<Rightarrow> bool" where
  "expired now q name \<longleftrightarrow> (\<exists>job. map_of (lq_inflight q) name = Some (Whole job) \<and> pj_next_attempt_at job \<le> now)"

definition due :: "rat \<Rightarrow> local_queue \<Rightarrow> bool" where
  "due now q \<longleftrightarrow> (\<exists>name job. map_of (lq_pending q) name = Some (Whole job) \<and> pj_next_attempt_at job \<le> now)"

definition resting :: "rat \<Rightarrow> job_dir \<Rightarrow> string \<Rightarrow> bool" where
  \<comment> \<open>a readable job that is due later\<close>
  "resting now d name \<longleftrightarrow> (\<exists>job. map_of d name = Some (Whole job) \<and> now < pj_next_attempt_at job)"

lemma move_effect:
  assumes "queue_ok q" and "map_of (dir_of p q) i = Some f" and "p \<noteq> p'"
  shows "map_of (dir_of r (apply_ops (Replace p p' i # write_job p' i job) q))
    = (if r = p then (map_of (dir_of p q))(i := None)
       else if r = p' then (map_of (dir_of p' q))(i \<mapsto> Whole (stored job)) else map_of (dir_of r q))"
  using assms by (auto simp: write_job_def map_of_del)

lemmas recover_move = move_effect [where p = Inflight and p' = Pending, simplified]
lemmas claim_move = move_effect [where p = Pending and p' = Inflight, simplified]

lemma recover_files_step:
  assumes "queue_ok q" and "recover_files now (name # ns) q = (r, ops)"
  obtains "map_of (lq_inflight q) name = None" "r = Inl FileNotFoundError" "ops = []"
  | "map_of (lq_inflight q) name = Some Torn" "r = Inl JSONDecodeError" "ops = []"
  | "resting now (lq_inflight q) name" "recover_files now ns q = (r, ops)"
  | job seg ops' where "map_of (lq_inflight q) name = Some (Whole job)" "pj_next_attempt_at job \<le> now"
      "seg = Replace Inflight Pending name #
        write_job Pending name (with_attempt (pj_attempt job) (Some now) ''Delivery lease expired.'' job)"
      "ops = seg @ ops'" "recover_files now ns (apply_ops seg q) = (r, ops')" "queue_ok (apply_ops seg q)"
proof (cases "map_of (lq_inflight q) name")
  case None
  then show thesis using assms(2) that(1) by (simp add: read_job_def)
next
  case (Some f)
  show thesis
  proof (cases f)
    case (Whole job)
    show thesis
    proof (cases "now < pj_next_attempt_at job")
      case True
      then show thesis using assms(2) Some Whole that(3) by (simp add: read_job_def resting_def)
    next
      case False
      let ?seg = "Replace Inflight Pending name #
        write_job Pending name (with_attempt (pj_attempt job) (Some now) ''Delivery lease expired.'' job)"
      obtain ops' where "ops = ?seg @ ops'" "recover_files now ns (apply_ops ?seg q) = (r, ops')"
        using assms(2) Some Whole False by (auto simp: read_job_def Let_def map_prod_def split: prod.splits)
      moreover have "careful ?seg q"
        using assms(1) Some Whole dir_ok_id [of "lq_inflight q" name job] queue_ok_dir [OF assms(1), of Inflight]
        by (intro careful_move) simp_all
      then have "queue_ok (apply_ops ?seg q)" using assms(1) apply_ops_ok carefulD(1) by blast
      ultimately show thesis using that(4) [of job ?seg ops'] Some Whole False by simp
    qed
  qed (use assms(2) Some that(2) in \<open>simp add: read_job_def\<close>)
qed

lemma claim_files_step:
  assumes "claim_files t now (name # ns) q = (r, ops)"
  obtains "map_of (lq_pending q) name = Some Torn" "r = Inl JSONDecodeError" "ops = []"
  | "map_of (lq_pending q) name = None \<or> resting now (lq_pending q) name" "claim_files t now ns q = (r, ops)"
  | job leased where "map_of (lq_pending q) name = Some (Whole job)" "pj_next_attempt_at job \<le> now"
      "leased = with_attempt (pj_attempt job) (Some (now + t)) (pj_last_error job) job"
      "r = Inr (Some (stored leased))" "ops = Replace Pending Inflight name # write_job Inflight name leased"
proof (cases "map_of (lq_pending q) name")
  case None
  then show thesis using assms that(2) by (simp add: read_job_def)
next
  case (Some f)
  show thesis
  proof (cases f)
    case (Whole job)
    then show thesis
      using assms Some that(2) that(3) [of job "with_attempt (pj_attempt job) (Some (now + t)) (pj_last_error job) job"]
      by (cases "now < pj_next_attempt_at job") (simp_all add: read_job_def resting_def Let_def write_job_def)
  qed (use assms Some that(1) in \<open>simp add: read_job_def\<close>)
qed

lemma recover_files_names:
  "queue_ok q \<Longrightarrow> recover_files now ns q = (r, ops) \<Longrightarrow> op \<in> set ops \<Longrightarrow> expired now q (op_name op)"
proof (induction ns arbitrary: q ops)
  case (Cons name ns)
  from Cons.prems(1,2) show ?case
  proof (cases rule: recover_files_step)
    case (4 job seg ops')
    have later: "expired now (apply_ops seg q) n \<Longrightarrow> expired now q n" for n
      using recover_move [OF Cons.prems(1) 4(1), of Inflight] 4(3) by (auto simp: expired_def split: if_splits)
    have "expired now q name" using 4(1,2) by (auto simp: expired_def)
    then show ?thesis
      using Cons.IH [OF 4(6,5)] later Cons.prems(3) 4(3,4) by (auto simp: write_job_def)
  qed (use Cons in auto)
qed simp

lemma claim_files_names:
  "claim_files t now ns q = (r, ops) \<Longrightarrow> op \<in> set ops \<Longrightarrow> map_of (lq_pending q) (op_name op) \<noteq> None"
proof (induction ns)
  case (Cons name ns)
  from Cons.prems(1) show ?case
    by (cases rule: claim_files_step) (use Cons in \<open>auto simp: write_job_def\<close>)
qed simp

lemma claim_files_Some:
  assumes "queue_ok q" and "claim_files t now ns q = (Inr (Some job), ops)"
  shows "\<exists>j. map_of (lq_pending q) (pj_job_id job) = Some (Whole j) \<and> pj_attempt job = pj_attempt j
    \<and> pj_next_attempt_at job = now + t \<and> ops = Replace Pending Inflight (pj_job_id job) # write_job Inflight (pj_job_id job) job"
  using assms(2)
proof (induction ns)
  case (Cons name ns)
  from Cons.prems show ?case
  proof (cases rule: claim_files_step)
    case (3 j leased)
    have "pj_job_id j = name" using dir_ok_id [of "dir_of Pending q"] queue_ok_dir [OF assms(1), of Pending] 3(1) by simp
    then show ?thesis using 3 by (simp add: write_job_def stored_def redact_twice with_attempt_def)
  qed (use Cons in auto)
qed simp

lemma sorted_names_set: "n \<in> set (sorted_names d) \<longleftrightarrow> map_of d n \<noteq> None"
  by (simp add: sorted_names_def map_of_eq_None_iff)

lemma empty_queue_ok: "queue_ok empty_queue"
proof -
  have "dir_of p empty_queue = []" for p by (cases p) (simp_all add: empty_queue_def)
  then show ?thesis by (simp add: queue_ok_def dir_ok_def)
qed

section \<open>Properties of the delivery\<close>

text \<open>
  C38: which notifications can be lost. However puts, claims, deliveries, failures and expired leases of the workers
  interleave, and wherever processes die, during a delivery or after any number of file operations of a call, every job
  that was put into the queue is in a readable file of the waiting jobs, the jobs in flight or the dead letters, or was
  answered with a success status, or is a job whose file a dying process had removed or emptied as its very last
  file operation. A job is put in when \<^verbatim>\<open>enqueue\<close> has returned.
\<close>

theorem push_no_job_lost:
  "set (sy_enqueued (fold (push_exec env (local_ops t)) steps (push_start empty_queue)))
    \<subseteq> queue_names (sy_queue (fold (push_exec env (local_ops t)) steps (push_start empty_queue)))
       \<union> sy_delivered (fold (push_exec env (local_ops t)) steps (push_start empty_queue))
       \<union> sy_at_risk (fold (push_exec env (local_ops t)) steps (push_start empty_queue))"
  by (rule local_files.no_job_forgotten [OF empty_queue_ok])

text \<open>
  The queue is never idle while there is work: a claim returns no job exactly if every file of the waiting jobs and of
  the jobs in flight is readable and its job is due later or its lease still running.
\<close>

lemma recover_due: "queue_ok q \<Longrightarrow> recover_files now ns q = (r, ops) \<Longrightarrow> due now q \<or> ops \<noteq> [] \<Longrightarrow> due now (apply_ops ops q)"
proof (induction ns arbitrary: q ops)
  case (Cons name ns)
  from Cons.prems(1,2) show ?case
  proof (cases rule: recover_files_step)
    case (4 job seg ops')
    have "map_of (lq_pending (apply_ops seg q)) name
        = Some (Whole (stored (with_attempt (pj_attempt job) (Some now) ''Delivery lease expired.'' job)))"
      using recover_move [OF Cons.prems(1) 4(1), of Pending] 4(3) by simp
    then have "due now (apply_ops seg q)" unfolding due_def by fastforce
    then show ?thesis using Cons.IH [OF 4(6,5)] 4(4) by simp
  qed (use Cons in auto)
qed simp

lemma recover_idle: "queue_ok q \<Longrightarrow> recover_files now ns q = (Inr u, []) \<longleftrightarrow> (\<forall>n. n \<in> set ns \<longrightarrow> resting now (lq_inflight q) n)"
proof (induction ns)
  case (Cons name ns)
  obtain r ops where r: "recover_files now (name # ns) q = (r, ops)" by fastforce
  with Cons.prems show ?case
    by (cases rule: recover_files_step) (use r Cons in \<open>auto simp: resting_def\<close>)
qed simp

lemma claim_idle: "fst (claim_files t now ns q) = Inr None \<longleftrightarrow>
    (\<forall>n \<in> set ns. map_of (lq_pending q) n = None \<or> resting now (lq_pending q) n)"
proof (induction ns)
  case (Cons name ns)
  obtain r ops where r: "claim_files t now (name # ns) q = (r, ops)" by fastforce
  then show ?case
    by (cases rule: claim_files_step) (use r Cons in \<open>auto simp: resting_def\<close>)
qed simp

theorem push_claim_idle_iff:
  assumes "queue_ok q"
  shows "fst (claim t now q) = Inr None \<longleftrightarrow>
    (\<forall>n. (map_of (lq_pending q) n \<noteq> None \<longrightarrow> resting now (lq_pending q) n)
       \<and> (map_of (lq_inflight q) n \<noteq> None \<longrightarrow> resting now (lq_inflight q) n))"
proof -
  obtain r ops where rec: "recover_files now (sorted_names (lq_inflight q)) q = (r, ops)" by fastforce
  let ?q = "apply_ops ops q"
  have claim: "fst (claim t now q) = Inr None \<longleftrightarrow>
      (\<exists>u. r = Inr u) \<and> fst (claim_files t now (sorted_names (lq_pending ?q)) ?q) = Inr None"
    using rec by (cases r) (simp_all add: claim_def claim_ops_def recover_expired_inflight_def Let_def map_prod_def split_def)
  have pend: "fst (claim_files t now (sorted_names (lq_pending q')) q') = Inr None
      \<longleftrightarrow> (\<forall>n. map_of (lq_pending q') n \<noteq> None \<longrightarrow> resting now (lq_pending q') n)" for q'
    by (auto simp: claim_idle Ball_def sorted_names_set)
  have "ops = []" if "fst (claim_files t now (sorted_names (lq_pending ?q)) ?q) = Inr None"
    using that recover_due [OF assms rec] by (fastforce simp: pend due_def resting_def)
  moreover have "r = Inr () \<and> ops = [] \<longleftrightarrow> (\<forall>n. map_of (lq_inflight q) n \<noteq> None \<longrightarrow> resting now (lq_inflight q) n)"
    using recover_idle [OF assms, of now "sorted_names (lq_inflight q)" "()"] rec by (auto simp: sorted_names_set)
  ultimately show ?thesis unfolding claim using pend [of q] by auto
qed

text \<open>A lease: the job is in flight until the given time and waits nowhere else.\<close>

definition leased :: "string \<Rightarrow> rat \<Rightarrow> local_queue \<Rightarrow> bool" where
  "leased i until q \<longleftrightarrow> queue_ok q \<and> map_of (lq_pending q) i = None
     \<and> (\<exists>j. map_of (lq_inflight q) i = Some (Whole j) \<and> pj_next_attempt_at j = until)"

fun call_spares :: "string \<Rightarrow> rat \<Rightarrow> push_call \<Rightarrow> bool" where
  "call_spares i until (Take now) \<longleftrightarrow> now < until"
| "call_spares i until (Put job) \<longleftrightarrow> pj_job_id job \<noteq> i"
| "call_spares i until (Again job) \<longleftrightarrow> pj_job_id job \<noteq> i"
| "call_spares i until (Bury job) \<longleftrightarrow> pj_job_id job \<noteq> i"

fun undisturbed :: "string \<Rightarrow> rat \<Rightarrow> push_step \<Rightarrow> bool" where
  \<comment> \<open>a step before the lease ends that does not put the job in again or finish its delivery\<close>
  "undisturbed i until (Enqueue job) \<longleftrightarrow> pj_job_id job \<noteq> i"
| "undisturbed i until (Claim now) \<longleftrightarrow> now < until"
| "undisturbed i until (Finish now job outcome ack_ok) \<longleftrightarrow> pj_job_id job \<noteq> i"
| "undisturbed i until (Dies k c) \<longleftrightarrow> call_spares i until c"

lemma leased_ops:
  assumes "leased i until q" and "list_all op_ok ops" and "list_all (\<lambda>op. op_name op \<noteq> i) ops"
  shows "leased i until (apply_ops ops q)"
proof -
  have ok: "queue_ok q" using assms(1) by (simp add: leased_def)
  have same: "map_of (dir_of p (apply_ops ops q)) i = map_of (dir_of p q) i" for p by (rule apply_ops_other [OF ok assms(2,3)])
  show ?thesis
    using assms(1) same [of Pending] same [of Inflight] apply_ops_ok [OF ok assms(2)] by (simp add: leased_def)
qed

lemma claim_ops_leased:
  assumes l: "leased i until q" and "now < until" and c: "claim_ops t now q = (r, ops)"
  shows "list_all op_ok ops \<and> list_all (\<lambda>op. op_name op \<noteq> i) ops \<and> (\<forall>job. r = Inr (Some job) \<longrightarrow> pj_job_id job \<noteq> i)"
proof -
  have ok: "queue_ok q" using l by (simp add: leased_def)
  obtain r1 ops1 where rec: "recover_files now (sorted_names (lq_inflight q)) q = (r1, ops1)" by fastforce
  have "\<not> expired now q i" using l assms(2) by (auto simp: expired_def leased_def)
  then have one: "list_all (\<lambda>op. op_name op \<noteq> i) ops1" using recover_files_names [OF ok rec] by (auto simp: list_all_iff)
  have good: "list_all op_ok ops1" by (rule carefulD(1) [OF recover_files_careful [OF ok rec]])
  let ?q = "apply_ops ops1 q"
  have l1: "leased i until ?q" using leased_ops [OF l good one] .
  obtain r2 ops2 where cl: "claim_files t now (sorted_names (lq_pending ?q)) ?q = (r2, ops2)" by fastforce
  have two: "list_all (\<lambda>op. op_name op \<noteq> i) ops2"
    using claim_files_names [OF cl] l1 by (fastforce simp: list_all_iff leased_def)
  have res: "pj_job_id job \<noteq> i" if "r2 = Inr (Some job)" for job
    using claim_files_Some [of ?q t now _ job ops2] cl that l1 by (auto simp: leased_def)
  have "ops = ops1 \<and> isl r \<or> ops = ops1 @ ops2 \<and> r = r2"
    using c rec cl by (cases r1) (auto simp: claim_ops_def recover_expired_inflight_def Let_def)
  then show ?thesis using one two res carefulD(1) [OF claim_ops_careful [OF ok c]] by auto
qed

lemma call_ops_leased:
  assumes "leased i until q" and "call_spares i until c"
  shows "list_all op_ok (call_ops t c q) \<and> list_all (\<lambda>op. op_name op \<noteq> i) (call_ops t c q)"
proof (cases c)
  case (Take now)
  then show ?thesis
    using claim_ops_leased [OF assms(1), of now t "fst (claim_ops t now q)" "snd (claim_ops t now q)"] assms(2)
    by (simp add: call_ops_def)
qed (use assms(2) in \<open>simp_all add: call_ops_def enqueue_ops_def retry_ops_def dead_letter_ops_def write_job_def\<close>)

lemma calls_leased:
  assumes "leased i until q"
  shows "now < until \<Longrightarrow> claim t now q = (r, q') \<Longrightarrow> leased i until q' \<and> (\<forall>job. r = Inr (Some job) \<longrightarrow> pj_job_id job \<noteq> i)"
    and "pj_job_id job \<noteq> i \<Longrightarrow> leased i until (enqueue job q)" "pj_job_id job \<noteq> i \<Longrightarrow> leased i until (retry job q)"
    "pj_job_id job \<noteq> i \<Longrightarrow> leased i until (dead_letter job q)" "pj_job_id job \<noteq> i \<Longrightarrow> leased i until (ack (pj_job_id job) q)"
    and "call_spares i until c \<Longrightarrow> leased i until (apply_ops (take k (call_ops t c q)) q)"
proof -
  show "now < until \<Longrightarrow> claim t now q = (r, q') \<Longrightarrow> leased i until q' \<and> (\<forall>job. r = Inr (Some job) \<longrightarrow> pj_job_id job \<noteq> i)"
    using claim_ops_leased [OF assms] leased_ops [OF assms] by (auto simp: claim_def split: prod.splits)
  show cut: "call_spares i until c \<Longrightarrow> leased i until (apply_ops (take k (call_ops t c q)) q)" for k c
    using call_ops_leased [OF assms, of c t] leased_ops [OF assms] by (auto simp: list_all_iff dest: in_set_takeD)
  have full: "call_spares i until c \<Longrightarrow> leased i until (apply_ops (call_ops t c q) q)" for c
    using cut [of c "length (call_ops t c q)"] by simp
  show "pj_job_id job \<noteq> i \<Longrightarrow> leased i until (enqueue job q)" "pj_job_id job \<noteq> i \<Longrightarrow> leased i until (retry job q)"
    "pj_job_id job \<noteq> i \<Longrightarrow> leased i until (dead_letter job q)"
    using full [of "Put job"] full [of "Again job"] full [of "Bury job"]
    by (simp_all add: enqueue_def retry_def dead_letter_def call_ops_def)
  show "pj_job_id job \<noteq> i \<Longrightarrow> leased i until (ack (pj_job_id job) q)"
    unfolding ack_def by (rule leased_ops [OF assms]) (simp_all add: ack_ops_def)
qed

lemma finish_leased:
  "leased i until q \<Longrightarrow> pj_job_id job \<noteq> i \<Longrightarrow>
     leased i until (snd (finish_delivery env (local_ops t) now job outcome ack_ok q))"
  using calls_leased(3,4) [of i until q "with_attempt _ _ _ job"] calls_leased(5) [of i until q job]
  by (auto simp: finish_delivery_def handle_failure_def local_ops_def Let_def split: delivery.splits)

lemma undisturbed_step:
  assumes "leased i until (sy_queue s)" and "undisturbed i until st"
  shows "leased i until (sy_queue (push_exec env (local_ops t) st s))
    \<and> filter (\<lambda>j. pj_job_id j = i) (sy_held (push_exec env (local_ops t) st s)) = filter (\<lambda>j. pj_job_id j = i) (sy_held s)"
proof (cases st)
  case (Enqueue job)
  then show ?thesis using assms calls_leased(2) by (simp add: local_ops_def)
next
  case (Claim now)
  obtain r q' where c: "claim t now (sy_queue s) = (r, q')" by fastforce
  then show ?thesis
    using calls_leased(1) [OF assms(1) _ c] assms(2) Claim by (simp add: local_ops_def split: sum.split option.split)
next
  case (Finish now job outcome ack_ok)
  then show ?thesis
    using assms finish_leased [of i until "sy_queue s" job env t now outcome ack_ok] by (simp add: filter_remove1)
next
  case (Dies k c)
  then show ?thesis using assms calls_leased(6) by (simp add: local_ops_def)
qed

text \<open>
  C39: a lease is exclusive. From the moment a job is in flight until its lease ends, no claim of any worker returns it:
  whatever other jobs are put in, claimed and finished meanwhile, nobody else comes to hold it and the lease stands.
  The workers run in one event loop, where no other call falls between the two file operations of a claim.
\<close>

theorem push_lease_exclusive:
  assumes "leased i until (sy_queue s)" and "list_all (undisturbed i until) steps"
  shows "leased i until (sy_queue (fold (push_exec env (local_ops t)) steps s))
    \<and> filter (\<lambda>j. pj_job_id j = i) (sy_held (fold (push_exec env (local_ops t)) steps s))
        = filter (\<lambda>j. pj_job_id j = i) (sy_held s)"
  using assms
proof (induction steps arbitrary: s)
  case (Cons st steps)
  then show ?case using undisturbed_step [of i until s st env t] by simp
qed simp

text \<open>A claim that returns a job has given it a lease from the time of the claim.\<close>

theorem push_claim_leases:
  assumes "queue_ok q" and "claim t now q = (Inr (Some job), q')"
  shows "leased (pj_job_id job) (now + t) q' \<and> pj_next_attempt_at job = now + t"
proof -
  obtain r1 ops1 where rec: "recover_files now (sorted_names (lq_inflight q)) q = (r1, ops1)" by fastforce
  let ?q = "apply_ops ops1 q"
  obtain ops2 where cl: "claim_files t now (sorted_names (lq_pending ?q)) ?q = (Inr (Some job), ops2)" and q': "q' = apply_ops ops2 ?q"
    using assms(2) rec
    by (cases r1) (auto simp: claim_def claim_ops_def recover_expired_inflight_def Let_def map_prod_def split: prod.splits)
  have ok: "queue_ok ?q" using apply_ops_ok [OF assms(1)] carefulD(1) [OF recover_files_careful [OF assms(1) rec]] .
  obtain j where j: "map_of (dir_of Pending ?q) (pj_job_id job) = Some (Whole j)" "pj_next_attempt_at job = now + t"
      "ops2 = Replace Pending Inflight (pj_job_id job) # write_job Inflight (pj_job_id job) job"
    using claim_files_Some [OF ok cl] by auto
  have "queue_ok q'" unfolding q' by (rule apply_ops_ok [OF ok carefulD(1) [OF claim_files_careful [OF ok cl]]])
  then show ?thesis
    using claim_move [OF ok, of "pj_job_id job" "Whole j" Pending job] claim_move [OF ok, of "pj_job_id job" "Whole j" Inflight job] j
    by (simp add: leased_def q')
qed

section \<open>Attempts\<close>

definition all_jobs :: "(A2APushJob \<Rightarrow> bool) \<Rightarrow> job_dir \<Rightarrow> bool" where
  "all_jobs P d \<longleftrightarrow> (\<forall>n j. map_of d n = Some (Whole j) \<longrightarrow> P j)"

definition attempts_ok :: "int \<Rightarrow> local_queue \<Rightarrow> bool" where
  "attempts_ok m q \<longleftrightarrow> queue_ok q \<and> all_jobs (\<lambda>j. pj_attempt j < m) (lq_pending q)
     \<and> all_jobs (\<lambda>j. pj_attempt j < m) (lq_inflight q) \<and> all_jobs (\<lambda>j. pj_attempt j \<le> m) (lq_dead q)"

fun op_attempts :: "int \<Rightarrow> file_op \<Rightarrow> bool" where
  "op_attempts m (Fill p name job) \<longleftrightarrow> (if p = Dead then pj_attempt job \<le> m else pj_attempt job < m)"
| "op_attempts m (Replace p p' name) \<longleftrightarrow> p \<noteq> Dead"
| "op_attempts m _ \<longleftrightarrow> True"

definition limit_at :: "int \<Rightarrow> place \<Rightarrow> int" where
  "limit_at m p = (if p = Dead then m else m - 1)"

lemma attempts_ok_alt: "attempts_ok m q \<longleftrightarrow> queue_ok q \<and> (\<forall>p. all_jobs (\<lambda>j. pj_attempt j \<le> limit_at m p) (dir_of p q))"
proof -
  have "(\<forall>p. P p) \<longleftrightarrow> P Pending \<and> P Inflight \<and> P Dead" for P by (metis place.exhaust)
  then show ?thesis by (auto simp: attempts_ok_def limit_at_def)
qed

lemma op_attempts_ok:
  assumes "attempts_ok m q" and "op_ok op" and "op_attempts m op"
  shows "attempts_ok m (apply_op op q)"
proof -
  have q: "queue_ok q" "\<And>p n j. map_of (dir_of p q) n = Some (Whole j) \<Longrightarrow> pj_attempt j \<le> limit_at m p"
    using assms(1) by (auto simp: attempts_ok_alt all_jobs_def)
  have "pj_attempt j \<le> limit_at m p" if "map_of (dir_of p (apply_op op q)) n = Some (Whole j)" for p n j
    using that q(2) [of p n j] assms(3) q(2) [of _ n j] q(2) [of Dead n j]
    by (cases op) (auto simp: map_of_del q(1) limit_at_def split: if_splits option.splits dest: q(2))
  then show ?thesis using apply_op_ok [OF q(1) assms(2)] by (auto simp: attempts_ok_alt all_jobs_def)
qed

lemma ops_attempts_ok:
  "attempts_ok m q \<Longrightarrow> list_all op_ok ops \<Longrightarrow> list_all (op_attempts m) ops \<Longrightarrow> attempts_ok m (apply_ops ops q)"
  by (induction ops arbitrary: q) (simp_all add: op_attempts_ok)

lemma recover_attempts:
  "attempts_ok m q \<Longrightarrow> recover_files now ns q = (r, ops) \<Longrightarrow> list_all (op_attempts m) ops \<and> attempts_ok m (apply_ops ops q)"
proof (induction ns arbitrary: q ops)
  case (Cons name ns)
  have ok: "queue_ok q" using Cons.prems(1) by (simp add: attempts_ok_def)
  from ok Cons.prems(2) show ?case
  proof (cases rule: recover_files_step)
    case (4 job seg ops')
    have "pj_attempt job < m" using Cons.prems(1) 4(1) by (auto simp: attempts_ok_def all_jobs_def)
    moreover have "pj_job_id job = name" using dir_ok_id [of "dir_of Inflight q"] queue_ok_dir [OF ok, of Inflight] 4(1) by simp
    ultimately have seg: "list_all op_ok seg" "list_all (op_attempts m) seg" by (simp_all add: 4(3) write_job_def)
    then show ?thesis using Cons.IH [OF ops_attempts_ok [OF Cons.prems(1) seg] 4(5)] 4(4) by simp
  qed (use Cons in auto)
qed simp

lemma claim_ops_attempts:
  assumes "attempts_ok m q" and "claim_ops t now q = (r, ops)"
  shows "list_all (op_attempts m) ops \<and> (\<forall>job. r = Inr (Some job) \<longrightarrow> pj_attempt job < m)"
proof -
  have ok: "queue_ok q" using assms(1) by (simp add: attempts_ok_def)
  obtain r1 ops1 where rec: "recover_files now (sorted_names (lq_inflight q)) q = (r1, ops1)" by fastforce
  let ?q = "apply_ops ops1 q"
  have one: "list_all (op_attempts m) ops1" "attempts_ok m ?q" using recover_attempts [OF assms(1) rec] by simp_all
  obtain r2 ops2 where cl: "claim_files t now (sorted_names (lq_pending ?q)) ?q = (r2, ops2)" by fastforce
  have files: "list_all (op_attempts m) ops \<and> (\<forall>job. r = Inr (Some job) \<longrightarrow> pj_attempt job < m)"
    if "claim_files t now ns ?q = (r, ops)" for ns r ops
    using that
  proof (induction ns)
    case (Cons name ns)
    from Cons.prems show ?case
      by (cases rule: claim_files_step) (use Cons one(2) in \<open>auto simp: write_job_def attempts_ok_def all_jobs_def\<close>)
  qed auto
  have "ops = ops1 \<and> isl r \<or> ops = ops1 @ ops2 \<and> r = r2"
    using assms(2) rec cl by (cases r1) (auto simp: claim_ops_def recover_expired_inflight_def Let_def)
  then show ?thesis using one(1) files [OF cl] by auto
qed

fun call_attempts :: "int \<Rightarrow> push_call \<Rightarrow> bool" where
  "call_attempts m (Bury job) \<longleftrightarrow> pj_attempt job \<le> m"
| "call_attempts m (Put job) \<longleftrightarrow> pj_attempt job < m"
| "call_attempts m (Again job) \<longleftrightarrow> pj_attempt job < m"
| "call_attempts m (Take now) \<longleftrightarrow> True"

lemma call_attempts_ok:
  assumes "attempts_ok m q" and "call_attempts m c"
  shows "attempts_ok m (apply_ops (take k (call_ops t c q)) q)"
proof -
  have "list_all op_ok (call_ops t c q)"
    using call_ops_careful [of q t c] carefulD(1) assms(1) by (auto simp: attempts_ok_def)
  moreover have "list_all (op_attempts m) (call_ops t c q)"
  proof (cases c)
    case (Take now)
    then show ?thesis
      using claim_ops_attempts [OF assms(1), of t now "fst (claim_ops t now q)" "snd (claim_ops t now q)"] by (simp add: call_ops_def)
  qed (use assms(2) in \<open>simp_all add: call_ops_def enqueue_ops_def retry_ops_def dead_letter_ops_def write_job_def\<close>)
  ultimately show ?thesis
    by (intro ops_attempts_ok [OF assms(1)]) (auto simp: list_all_iff dest: in_set_takeD)
qed

lemma calls_attempts:
  assumes "attempts_ok m q"
  shows "pj_attempt job < m \<Longrightarrow> attempts_ok m (enqueue job q)" "attempts_ok m (ack i q)"
    "pj_attempt job < m \<Longrightarrow> attempts_ok m (retry job q)" "pj_attempt job \<le> m \<Longrightarrow> attempts_ok m (dead_letter job q)"
    "claim t now q = (r, q') \<Longrightarrow> attempts_ok m q' \<and> (\<forall>job. r = Inr (Some job) \<longrightarrow> pj_attempt job < m)"
proof -
  have full: "call_attempts m c \<Longrightarrow> attempts_ok m (apply_ops (call_ops t c q) q)" for c
    using call_attempts_ok [OF assms, of c "length (call_ops t c q)" t] by simp
  show "pj_attempt job < m \<Longrightarrow> attempts_ok m (enqueue job q)" "pj_attempt job < m \<Longrightarrow> attempts_ok m (retry job q)"
    "pj_attempt job \<le> m \<Longrightarrow> attempts_ok m (dead_letter job q)"
    using full [of "Put job"] full [of "Again job"] full [of "Bury job"]
    by (simp_all add: enqueue_def retry_def dead_letter_def call_ops_def)
  show "attempts_ok m (ack i q)" unfolding ack_def by (rule ops_attempts_ok [OF assms]) (simp_all add: ack_ops_def)
  show "claim t now q = (r, q') \<Longrightarrow> attempts_ok m q' \<and> (\<forall>job. r = Inr (Some job) \<longrightarrow> pj_attempt job < m)"
    using full [of "Take now"] claim_ops_attempts [OF assms, of t now]
    by (auto simp: claim_def call_ops_def split: prod.splits)
qed

lemma finish_attempts:
  "attempts_ok (rp_max_attempts (pe_policy env)) q \<Longrightarrow> pj_attempt job < rp_max_attempts (pe_policy env) \<Longrightarrow>
     attempts_ok (rp_max_attempts (pe_policy env)) (snd (finish_delivery env (local_ops t) now job outcome ack_ok q))"
  by (auto simp: finish_delivery_def handle_failure_def local_ops_def Let_def calls_attempts split: delivery.splits)

fun fresh_step :: "int \<Rightarrow> push_step \<Rightarrow> bool" where
  "fresh_step m (Enqueue job) \<longleftrightarrow> pj_attempt job < m"
| "fresh_step m (Dies k c) \<longleftrightarrow> call_attempts m c"
| "fresh_step m _ \<longleftrightarrow> True"

lemma step_attempts:
  assumes "attempts_ok (rp_max_attempts (pe_policy env)) (sy_queue s)"
    and "\<forall>j \<in> set (sy_held s). pj_attempt j < rp_max_attempts (pe_policy env)" and "fresh_step (rp_max_attempts (pe_policy env)) st"
  shows "attempts_ok (rp_max_attempts (pe_policy env)) (sy_queue (push_exec env (local_ops t) st s))
    \<and> (\<forall>j \<in> set (sy_held (push_exec env (local_ops t) st s)). pj_attempt j < rp_max_attempts (pe_policy env))"
proof (cases st)
  case (Enqueue job)
  then show ?thesis using assms calls_attempts(1) by (simp add: local_ops_def)
next
  case (Claim now)
  obtain r q' where c: "claim t now (sy_queue s) = (r, q')" by fastforce
  then show ?thesis
    using calls_attempts(5) [OF assms(1) c] assms(2) Claim by (simp add: local_ops_def split: sum.split option.split)
next
  case (Finish now job outcome ack_ok)
  show ?thesis
  proof (cases "job \<in> set (sy_held s)")
    case True
    then have "pj_attempt job < rp_max_attempts (pe_policy env)" using assms(2) by blast
    then show ?thesis
      using finish_attempts [OF assms(1), of job t now outcome ack_ok] assms(2) set_remove1_subset [of job "sy_held s"]
        Finish True by (auto simp del: set_remove1_eq)
  qed (use Finish assms in simp)
next
  case (Dies k c)
  then show ?thesis using assms call_attempts_ok by (simp add: local_ops_def)
qed

text \<open>
  The attempts of a job are bounded by the policy: every waiting or leased job has fewer failed attempts than
  \<^verbatim>\<open>max_attempts\<close>, and a job goes to the dead letters with at most that many.
\<close>

theorem push_attempts_bounded:
  assumes "list_all (fresh_step (rp_max_attempts (pe_policy env))) steps"
  shows "attempts_ok (rp_max_attempts (pe_policy env)) (sy_queue (fold (push_exec env (local_ops t)) steps (push_start empty_queue)))"
proof -
  let ?m = "rp_max_attempts (pe_policy env)"
  have ind: "attempts_ok ?m (sy_queue s) \<Longrightarrow> \<forall>j \<in> set (sy_held s). pj_attempt j < ?m \<Longrightarrow>
      attempts_ok ?m (sy_queue (fold (push_exec env (local_ops t)) steps s))" for s
    using assms
  proof (induction steps arbitrary: s)
    case (Cons st steps)
    then show ?case using step_attempts [of env s st t] by simp
  qed simp
  show ?thesis
    by (rule ind) (simp_all add: push_start_def attempts_ok_def empty_queue_ok, simp_all add: empty_queue_def all_jobs_def)
qed

text \<open>
  the time until the next attempt is never negative and stays below the configured maximum plus its jitter,
  whatever \<^verbatim>\<open>random.uniform\<close> returns within its bounds.
\<close>

theorem push_delay_bounds:
  assumes "\<And>lo hi. lo \<le> hi \<Longrightarrow> lo \<le> uniform lo hi \<and> uniform lo hi \<le> hi"
    and "0 \<le> rp_initial_delay_seconds p" and "0 \<le> rp_max_delay_seconds p" and "0 \<le> rp_jitter_ratio p"
  shows "0 \<le> delay_for_attempt uniform p attempt
    \<and> delay_for_attempt uniform p attempt \<le> rp_max_delay_seconds p * (1 + rp_jitter_ratio p)"
proof -
  define base where "base = min (rp_max_delay_seconds p) (rp_initial_delay_seconds p * 2 ^ nat (max 0 (attempt - 1)))"
  let ?j = "base * rp_jitter_ratio p"
  have base: "0 \<le> base" "base \<le> rp_max_delay_seconds p" using assms(2,3) by (auto simp: base_def)
  then have j: "0 \<le> ?j" "?j \<le> rp_max_delay_seconds p * rp_jitter_ratio p"
    using assms(4) by (simp_all add: mult_right_mono)
  then have u: "uniform (- ?j) ?j \<le> ?j" using assms(1) [of "- ?j" ?j] by simp
  have d: "delay_for_attempt uniform p attempt = (if rp_jitter_ratio p \<le> 0 then base else max 0 (base + uniform (- ?j) ?j))"
    by (simp add: delay_for_attempt_def Let_def base_def)
  show ?thesis using base j u by (auto simp: d algebra_simps)
qed

section \<open>Workers that never finish\<close>

definition lone_job :: A2APushJob where
  "lone_job = \<lparr>pj_task_id = ''t'', pj_config_id = ''c'', pj_url = ''https://cb'', pj_payload = [], pj_headers = [],
     pj_job_id = ''j1'', pj_attempt = 0, pj_next_attempt_at = 0, pj_last_error = []\<rparr>"

fun crash_loop :: "rat \<Rightarrow> nat \<Rightarrow> local_queue" where
  \<comment> \<open>a worker claims the job at every expiry of the lease and dies\<close>
  "crash_loop t 0 = enqueue lone_job empty_queue"
| "crash_loop t (Suc n) = snd (claim t (of_nat n * t) (crash_loop t n))"

lemmas queue_eval = claim_def claim_ops_def recover_expired_inflight_def sorted_names_def write_job_def with_attempt_def
  stored_def redact_push_headers_def lone_job_def Let_def enqueue_def enqueue_ops_def empty_queue_def read_job_def

definition lone_leased :: "rat \<Rightarrow> string \<Rightarrow> local_queue \<Rightarrow> bool" where
  "lone_leased until e q \<longleftrightarrow> lq_pending q = [] \<and> lq_dead q = []
     \<and> lq_inflight q = [(''j1'', Whole (lone_job\<lparr>pj_next_attempt_at := until, pj_last_error := e\<rparr>))]"

lemma lone_claim:
  assumes "lone_leased now e q"
  shows "fst (claim t now q) = Inr (Some (lone_job\<lparr>pj_next_attempt_at := now + t, pj_last_error := ''Delivery lease expired.''\<rparr>))
    \<and> lone_leased (now + t) ''Delivery lease expired.'' (snd (claim t now q))"
  using assms by (simp add: lone_leased_def queue_eval)

lemma crash_loop_leased: "\<exists>e. lone_leased (of_nat (Suc n) * t) e (crash_loop t (Suc n))"
proof (induction n)
  case 0
  show ?case by (simp add: lone_leased_def queue_eval)
next
  case (Suc n)
  then obtain e where "lone_leased (of_nat (Suc n) * t) e (crash_loop t (Suc n))" by blast
  from lone_claim [OF this, of t] have "lone_leased (of_nat (Suc n) * t + t) ''Delivery lease expired.'' (crash_loop t (Suc (Suc n)))"
    by simp
  moreover have "of_nat (Suc n) * t + t = of_nat (Suc (Suc n)) * t" by (simp add: algebra_simps)
  ultimately show ?case by metis
qed

text \<open>
  The bound on attempts only counts deliveries that report a failure. When the worker dies during the delivery, or
  the delivery outlasts the lease, the recovery puts the job back with the same attempt number: such a job is handed
  out again at every expiry, for ever, and never reaches the dead letters.
\<close>

theorem push_crash_loop_unbounded:
  "\<exists>job. fst (claim t (of_nat (Suc n) * t) (crash_loop t (Suc n))) = Inr (Some job)
     \<and> pj_job_id job = ''j1'' \<and> pj_attempt job = 0 \<and> lq_dead (crash_loop t (Suc n)) = []"
proof -
  obtain e where l: "lone_leased (of_nat (Suc n) * t) e (crash_loop t (Suc n))" using crash_loop_leased by blast
  then show ?thesis using lone_claim [OF l, of t] by (simp add: lone_leased_def lone_job_def)
qed

section \<open>Processes that die within a call\<close>

text \<open>
  The file in flight is removed before the new file is written: a process that dies after the removal, or after the new
  file was opened, while it schedules a retry or files a dead letter leaves no readable file of the job.
\<close>

theorem push_death_loses_job:
  assumes "leased (pj_job_id job) until q" and "map_of (lq_dead q) (pj_job_id job) = None" and "k = 1 \<or> k = 2"
  shows "pj_job_id job \<notin> queue_names (op_dies (local_ops t) k (Again job) q)
    \<and> pj_job_id job \<notin> queue_names (op_dies (local_ops t) k (Bury job) q)"
proof -
  have q: "dir_ok (lq_inflight q)" "map_of (lq_pending q) (pj_job_id job) = None"
    using assms(1) queue_ok_dir [of q Inflight] by (simp_all add: leased_def)
  have all: "(\<exists>p. P p) \<longleftrightarrow> P Pending \<or> P Inflight \<or> P Dead" for P by (metis place.exhaust)
  show ?thesis
    using assms(3) q assms(2)
    by (auto simp: queue_names_iff all local_ops_def call_ops_def retry_ops_def dead_letter_ops_def write_job_def map_of_del)
qed

lemma torn_recovery:
  "queue_ok q \<Longrightarrow> recover_files now ns q = (r, ops) \<Longrightarrow> n \<in> set ns \<Longrightarrow> map_of (lq_inflight q) n = Some Torn \<Longrightarrow> isl r"
proof (induction ns arbitrary: q ops)
  case (Cons name ns)
  from Cons.prems(1,2) show ?case
  proof (cases rule: recover_files_step)
    case (4 job seg ops')
    have "map_of (lq_inflight (apply_ops seg q)) n = Some Torn" "n \<in> set ns"
      using recover_move [OF Cons.prems(1) 4(1), of Inflight] 4(1,3) Cons.prems(3,4) by auto
    then show ?thesis using Cons.IH [OF 4(6,5)] by blast
  qed (use Cons in \<open>auto simp: resting_def\<close>)
qed simp

text \<open>
  A process that dies while it writes a lease leaves a file in flight that cannot be read. From then on every claim of
  every worker raises, whatever other jobs wait, and leaves the file where it is.
\<close>

theorem push_torn_file_blocks:
  assumes "queue_ok q" and "map_of (lq_inflight q) n = Some Torn"
  shows "isl (fst (claim t now q)) \<and> map_of (lq_inflight (snd (claim t now q))) n = Some Torn"
proof -
  obtain r ops where rec: "recover_files now (sorted_names (lq_inflight q)) q = (r, ops)" by fastforce
  have "isl r" using torn_recovery [OF assms(1) rec _ assms(2)] assms(2) by (simp add: sorted_names_set)
  then have c: "claim t now q = (Inl (projl r), apply_ops ops q)"
    using rec by (cases r) (simp_all add: claim_def claim_ops_def recover_expired_inflight_def)
  have "\<not> expired now q n" using assms(2) by (simp add: expired_def)
  then have "list_all (\<lambda>op. op_name op \<noteq> n) ops" using recover_files_names [OF assms(1) rec] by (auto simp: list_all_iff)
  then have "map_of (dir_of Inflight (apply_ops ops q)) n = map_of (dir_of Inflight q) n"
    by (rule apply_ops_other [OF assms(1) carefulD(1) [OF recover_files_careful [OF assms(1) rec]]])
  then show ?thesis using c assms(2) by simp
qed

section \<open>Witnesses\<close>

definition sample_env :: push_env where
  "sample_env = \<lparr>pe_policy = \<lparr>rp_initial_delay_seconds = 1, rp_max_delay_seconds = 60, rp_jitter_ratio = 1/5, rp_max_attempts = 5\<rparr>,
     pe_uniform = (\<lambda>lo hi. lo), pe_public_error = ex_text\<rparr>"

definition later_job :: A2APushJob where
  "later_job = lone_job\<lparr>pj_next_attempt_at := 9\<rparr>"

lemma enqueue_empty_ok: "queue_ok (enqueue job empty_queue)"
  unfolding enqueue_def by (rule apply_ops_ok [OF empty_queue_ok]) (simp add: enqueue_ops_def write_job_def)

theorem push_claim_idle_iff_witness:
  "fst (claim 300 3 (enqueue later_job empty_queue)) = Inr None"
  using push_claim_idle_iff [OF enqueue_empty_ok, of 300 3 later_job]
  by (simp add: resting_def later_job_def queue_eval)

definition leased_system :: "local_queue push_system" where
  "leased_system = fold (push_exec sample_env (local_ops 300)) [Enqueue lone_job, Claim 3] (push_start empty_queue)"

lemma leased_system_queue:
  "lq_pending (sy_queue leased_system) = []" "lq_dead (sy_queue leased_system) = []"
  "lq_inflight (sy_queue leased_system) = [(''j1'', Whole (lone_job\<lparr>pj_next_attempt_at := 303\<rparr>))]"
  "sy_held leased_system = [lone_job\<lparr>pj_next_attempt_at := 303\<rparr>]"
  by (simp_all add: leased_system_def push_start_def local_ops_def queue_eval)

lemma leased_system_leased: "leased ''j1'' 303 (sy_queue leased_system)"
proof -
  have "dir_ok (dir_of p (sy_queue leased_system))" for p
    by (cases p) (simp_all add: dir_ok_def leased_system_queue lone_job_def)
  then show ?thesis by (simp add: leased_def queue_ok_def leased_system_queue)
qed

theorem push_claim_leases_witness:
  "leased ''j1'' 303 (snd (claim 300 3 (enqueue lone_job empty_queue)))"
proof -
  have "fst (claim 300 3 (enqueue lone_job empty_queue)) = Inr (Some (lone_job\<lparr>pj_next_attempt_at := 303\<rparr>))"
    by (simp add: queue_eval)
  then have "claim 300 3 (enqueue lone_job empty_queue)
      = (Inr (Some (lone_job\<lparr>pj_next_attempt_at := 303\<rparr>)), snd (claim 300 3 (enqueue lone_job empty_queue)))"
    by (metis prod.collapse)
  from push_claim_leases [OF enqueue_empty_ok this] show ?thesis by (simp add: lone_job_def)
qed

theorem push_death_loses_job_witness:
  "''j1'' \<notin> queue_names (op_dies (local_ops 300) 1 (Again lone_job) (sy_queue leased_system))"
  using push_death_loses_job [of lone_job 303 "sy_queue leased_system" 1 300] leased_system_leased
  by (simp add: leased_system_queue) (simp add: lone_job_def)

text \<open>The state that blocks: a process dies within its claim, after it opened the file of the lease.\<close>

theorem push_torn_file_blocks_witness:
  "isl (fst (claim 300 1000 (op_dies (local_ops 300) 2 (Take 3) (enqueue lone_job empty_queue))))"
proof -
  let ?q = "op_dies (local_ops 300) 2 (Take 3) (enqueue lone_job empty_queue)"
  have "queue_ok ?q" using local_files.dies_keeps [OF enqueue_empty_ok] by blast
  moreover have "map_of (lq_inflight ?q) ''j1'' = Some Torn" by (simp add: local_ops_def call_ops_def queue_eval)
  ultimately show ?thesis using push_torn_file_blocks by blast
qed

text \<open>
  Between the two file operations of a claim the file in flight still carries the old time: another process that
  claims at that moment takes the job too.
\<close>

theorem push_claim_window:
  "\<exists>job. fst (claim 300 3 (op_dies (local_ops 300) 1 (Take 3) (enqueue lone_job empty_queue))) = Inr (Some job)
     \<and> pj_job_id job = ''j1''"
  by (simp add: local_ops_def call_ops_def queue_eval)

theorem push_lease_exclusive_witness:
  "filter (\<lambda>j. pj_job_id j = ''j1'')
     (sy_held (fold (push_exec sample_env (local_ops 300)) [Claim 50, Claim 302] leased_system))
   = [lone_job\<lparr>pj_next_attempt_at := 303\<rparr>]"
proof -
  note leased_system_leased
  moreover have "list_all (undisturbed ''j1'' 303) [Claim 50, Claim 302]" by simp
  ultimately have "filter (\<lambda>j. pj_job_id j = ''j1'')
      (sy_held (fold (push_exec sample_env (local_ops 300)) [Claim 50, Claim 302] leased_system))
    = filter (\<lambda>j. pj_job_id j = ''j1'') (sy_held leased_system)"
    using push_lease_exclusive by blast
  then show ?thesis by (simp only: leased_system_queue) (simp add: lone_job_def)
qed

theorem push_attempts_bounded_witness:
  "attempts_ok 5 (sy_queue (fold (push_exec sample_env (local_ops 300))
     [Enqueue lone_job, Claim 3, Finish 4 (lone_job\<lparr>pj_next_attempt_at := 303\<rparr>) (Responded 503) True] (push_start empty_queue)))"
  using push_attempts_bounded [of sample_env
      "[Enqueue lone_job, Claim 3, Finish 4 (lone_job\<lparr>pj_next_attempt_at := 303\<rparr>) (Responded 503) True]" 300]
  by (simp add: sample_env_def lone_job_def)

theorem push_delay_bounds_witness:
  "0 \<le> delay_for_attempt (\<lambda>lo hi. lo) (pe_policy sample_env) 7
    \<and> delay_for_attempt (\<lambda>lo hi. lo) (pe_policy sample_env) 7 \<le> 72"
  using push_delay_bounds [of "\<lambda>lo hi. lo" "pe_policy sample_env" 7] by (simp add: sample_env_def)

end
