(* ===== verification/File_Tools.thy ===== *)
theory File_Tools
  imports Permission_Pipeline Tool_Executor
begin

text \<open>
  What the file-writing tools do once they are permitted (\<^verbatim>\<open>execute\<close> of \<^verbatim>\<open>tools/write_file.py\<close> and
  \<^verbatim>\<open>tools/edit_file.py\<close>), and how that fits the permission check of the same call.

  The file system maps the real path of a file to its text; a path is opened at its real path (\<open>env_realpath\<close>), and the
  directories on the way are not modelled. Files are opened in text mode: reading translates line ends
  (\<open>universal_newlines\<close>), writing does not (Linux). Faults of the host are the fields \<open>fe_read_fault\<close> and
  \<open>fe_write_fault\<close>: a write may fail when the file is opened, or after it was truncated and a part was written. The
  parameters of a call are strings (the schema was validated before).
\<close>

section \<open>Text files\<close>

type_synonym filesystem = "string \<Rightarrow> string option"

datatype file_fault = Open_Fault bool string | Partial_Write nat string
  \<comment> \<open>the flag says that the exception is a \<^verbatim>\<open>PermissionError\<close>\<close>

record file_env =
  fe_os :: os_env
  fe_guess_type :: "string \<Rightarrow> string option"
  fe_read_fault :: "string \<Rightarrow> string option"
  fe_write_fault :: "string \<Rightarrow> file_fault option"

fun universal_newlines :: "string \<Rightarrow> string" where
  "universal_newlines [] = []"
| "universal_newlines [c] = [if c = CHR 0x0D then CHR 0x0A else c]"
| "universal_newlines (c # d # s) =
     (if c = CHR 0x0D \<and> d = CHR 0x0A then CHR 0x0A # universal_newlines s
      else (if c = CHR 0x0D then CHR 0x0A else c) # universal_newlines (d # s))"

fun count_from :: "string \<Rightarrow> string \<Rightarrow> nat" where
  \<comment> \<open>occurrences that do not overlap, from the left\<close>
  "count_from sub [] = 0"
| "count_from sub (c # s) =
     (if startswith (c # s) sub then Suc (count_from sub (drop (length sub - 1) s)) else count_from sub s)"

definition str_count :: "string \<Rightarrow> string \<Rightarrow> nat" where
  \<comment> \<open>\<^verbatim>\<open>s.count(sub)\<close>\<close>
  "str_count s sub = (if sub = [] then Suc (length s) else count_from sub s)"

fun replace_first :: "string \<Rightarrow> string \<Rightarrow> string \<Rightarrow> string" where
  \<comment> \<open>\<^verbatim>\<open>s.replace(old, new, 1)\<close>\<close>
  "replace_first old new [] = (if old = [] then new else [])"
| "replace_first old new (c # s) =
     (if startswith (c # s) old then new @ drop (length old) (c # s) else c # replace_first old new s)"

definition open_path :: "string \<Rightarrow> string \<Rightarrow> string" where
  "open_path cwd path = (if path_isabs path then path else path_join cwd path)"

definition write_text :: "file_env \<Rightarrow> string \<Rightarrow> string \<Rightarrow> filesystem \<Rightarrow> filesystem" where
  \<comment> \<open>\<^verbatim>\<open>with open(path, "w") as f: f.write(content)\<close>\<close>
  "write_text env path content fs =
     (let real = env_realpath (fe_os env) path in
      case fe_write_fault env path of
        None \<Rightarrow> fs(real := Some content)
      | Some (Open_Fault _ _) \<Rightarrow> fs
      | Some (Partial_Write n _) \<Rightarrow> fs(real := Some (take n content)))"

section \<open>The tools\<close>

definition artifact_result :: "file_env \<Rightarrow> string \<Rightarrow> string \<Rightarrow> ToolResult" where
  "artifact_result env path content =
     \<lparr>res_content = content, res_is_error = False, res_new_messages = [],
      res_metadata = Some [(''artifact'', PyDict
        [(''filename'', PyStr (path_basename path)),
         (''mediaType'', PyStr (case fe_guess_type env path of
            Some t \<Rightarrow> if t = [] then ''text/plain'' else t | None \<Rightarrow> ''text/plain'')),
         (''path'', PyStr path)])]\<rparr>"

definition write_file_execute :: "file_env \<Rightarrow> string \<Rightarrow> pydict \<Rightarrow> filesystem \<Rightarrow> ToolResult \<times> filesystem" where
  "write_file_execute env cwd input fs =
     (let path = open_path cwd (get_str input ''path''); content = get_str input ''content'';
          fs1 = write_text env path content fs
      in case fe_write_fault env path of
           Some (Open_Fault True _) \<Rightarrow> (result_error (''Permission denied: '' @ path), fs1)
         | Some (Open_Fault False e) \<Rightarrow> (result_error (''Error writing file: '' @ e), fs1)
         | Some (Partial_Write _ e) \<Rightarrow> (result_error (''Error writing file: '' @ e), fs1)
         | None \<Rightarrow>
             let lines = str_count content [CHR 0x0A] + (if content \<noteq> [] \<and> last content \<noteq> CHR 0x0A then 1 else 0)
             in (artifact_result env path (''Successfully wrote '' @ nat_str lines @ '' lines to '' @ path), fs1))"

definition edit_file_execute :: "file_env \<Rightarrow> string \<Rightarrow> pydict \<Rightarrow> filesystem \<Rightarrow> ToolResult \<times> filesystem" where
  "edit_file_execute env cwd input fs =
     (let path = open_path cwd (get_str input ''path'');
          old_string = get_str input ''old_string''; new_string = get_str input ''new_string''
      in case fs (env_realpath (fe_os env) path) of
           None \<Rightarrow> (result_error (''File not found: '' @ path), fs)
         | Some raw \<Rightarrow>
             (case fe_read_fault env path of
                Some e \<Rightarrow> (result_error (''Error reading file: '' @ e), fs)
              | None \<Rightarrow>
                  let content = universal_newlines raw; count = str_count content old_string in
                  if count = 0 then
                    (result_error (''old_string not found in '' @ path @ ''. Make sure the string matches exactly, ''
                       @ ''including whitespace and indentation.''), fs)
                  else if 1 < count then
                    (result_error (''old_string found '' @ nat_str count @ '' times in '' @ path
                       @ ''. It must match exactly once. '' @ ''Include more surrounding context to make the match unique.''), fs)
                  else
                    let fs1 = write_text env path (replace_first old_string new_string content) fs in
                    (case fe_write_fault env path of
                       Some (Open_Fault _ e) \<Rightarrow> (result_error (''Error writing file: '' @ e), fs1)
                     | Some (Partial_Write _ e) \<Rightarrow> (result_error (''Error writing file: '' @ e), fs1)
                     | None \<Rightarrow> (artifact_result env path (''Successfully edited '' @ path), fs1))))"

section \<open>Counting and replacing\<close>

lemma startswith_Cons_iff: "startswith s sub \<longleftrightarrow> (\<exists>t. s = sub @ t)"
  by (auto simp: startswith_prefix prefix_def)

lemma count_from_zero: "sub \<noteq> [] \<Longrightarrow> count_from sub s = 0 \<longleftrightarrow> \<not> contains sub s"
  by (induction sub s rule: count_from.induct) auto

lemma replace_first_split:
  assumes "contains old s"
  shows "\<exists>a b. s = a @ old @ b \<and> replace_first old new s = a @ new @ b
    \<and> (\<forall>a' b'. s = a' @ old @ b' \<longrightarrow> length a \<le> length a') \<and> (old \<noteq> [] \<longrightarrow> count_from old s = Suc (count_from old b))"
  using assms
proof (induction s)
  case Nil
  then show ?case by simp
next
  case (Cons c s)
  show ?case
  proof (cases "startswith (c # s) old")
    case True
    then obtain t where t: "c # s = old @ t" by (auto simp: startswith_Cons_iff)
    then have "replace_first old new (c # s) = new @ t"
      using True by (metis append_eq_conv_conj replace_first.simps(2))
    moreover have "drop (length old - 1) s = t" if "old \<noteq> []" using t that by (cases old) auto
    then have "old \<noteq> [] \<longrightarrow> count_from old (c # s) = Suc (count_from old t)" using True by simp
    ultimately have "c # s = [] @ old @ t \<and> replace_first old new (c # s) = [] @ new @ t
        \<and> (\<forall>a' b'. c # s = a' @ old @ b' \<longrightarrow> length [] \<le> length a') \<and> (old \<noteq> [] \<longrightarrow> count_from old (c # s) = Suc (count_from old t))"
      using t by simp
    then show ?thesis by blast
  next
    case False
    then obtain a b where ab: "s = a @ old @ b" "replace_first old new s = a @ new @ b"
      "\<forall>a' b'. s = a' @ old @ b' \<longrightarrow> length a \<le> length a'" "old \<noteq> [] \<longrightarrow> count_from old s = Suc (count_from old b)"
      using Cons by auto
    have "length (c # a) \<le> length a'" if "c # s = a' @ old @ b'" for a' b'
      using that False ab(3) by (cases a') (auto simp: startswith_Cons_iff)
    then show ?thesis using ab False by (intro exI [of _ "c # a"] exI [of _ b]) auto
  qed
qed

lemma str_count_one:
  assumes "str_count s old = 1"
  shows "\<exists>a b. s = a @ old @ b \<and> replace_first old new s = a @ new @ b
    \<and> (\<forall>a' b'. s = a' @ old @ b' \<longrightarrow> length a \<le> length a') \<and> (old \<noteq> [] \<longrightarrow> \<not> contains old b)"
proof -
  have "contains old s" using assms count_from_zero [of old s] by (cases "old = []") (auto simp: str_count_def)
  then obtain a b where ab: "s = a @ old @ b" "replace_first old new s = a @ new @ b"
    "\<forall>a' b'. s = a' @ old @ b' \<longrightarrow> length a \<le> length a'" "old \<noteq> [] \<longrightarrow> count_from old s = Suc (count_from old b)"
    using replace_first_split [of old s new] by blast
  then have "old \<noteq> [] \<longrightarrow> \<not> contains old b" using assms count_from_zero [of old b] by (auto simp: str_count_def)
  then show ?thesis using ab by blast
qed

lemma universal_newlines_no_cr: "CHR 0x0D \<notin> set (universal_newlines s)"
  by (induction s rule: universal_newlines.induct) auto

lemma universal_newlines_id: "CHR 0x0D \<notin> set s \<Longrightarrow> universal_newlines s = s"
  by (induction s rule: universal_newlines.induct) auto

lemma edit_file_ok:
  assumes "\<not> res_is_error (fst (edit_file_execute env cwd input fs))"
  shows "\<exists>raw. fs (env_realpath (fe_os env) (open_path cwd (get_str input ''path''))) = Some raw
    \<and> str_count (universal_newlines raw) (get_str input ''old_string'') = 1
    \<and> snd (edit_file_execute env cwd input fs) = fs(env_realpath (fe_os env) (open_path cwd (get_str input ''path'')) :=
        Some (replace_first (get_str input ''old_string'') (get_str input ''new_string'') (universal_newlines raw)))"
  using assms
  by (auto simp: edit_file_execute_def write_text_def result_error_def Let_def split: option.splits if_splits file_fault.splits)

lemma edit_file_error:
  "res_is_error (fst (edit_file_execute env cwd input fs)) \<Longrightarrow>
     snd (edit_file_execute env cwd input fs) = fs
     \<or> (\<exists>n e. fe_write_fault env (open_path cwd (get_str input ''path'')) = Some (Partial_Write n e))"
  by (auto simp: edit_file_execute_def write_text_def artifact_result_def Let_def split: option.splits if_splits file_fault.splits)

lemma write_text_changes: "write_text env path content fs p \<noteq> fs p \<Longrightarrow> p = env_realpath (fe_os env) path"
  by (auto simp: write_text_def Let_def split: option.splits file_fault.splits if_splits)

lemma write_file_changes:
  "snd (write_file_execute env cwd input fs) p \<noteq> fs p \<Longrightarrow> p = env_realpath (fe_os env) (open_path cwd (get_str input ''path''))"
  by (rule write_text_changes) (auto simp: write_file_execute_def Let_def split: option.splits file_fault.splits bool.splits)

lemma edit_file_changes:
  "snd (edit_file_execute env cwd input fs) p \<noteq> fs p \<Longrightarrow> p = env_realpath (fe_os env) (open_path cwd (get_str input ''path''))"
  using write_text_changes
  by (fastforce simp: edit_file_execute_def Let_def split: option.splits file_fault.splits if_splits)

lemma open_path_resolved: "env_expanduser os path = path \<Longrightarrow> env_realpath os (open_path cwd path) = resolve_candidate os path cwd"
  by (simp add: open_path_def resolve_candidate_def resolve_normalized_candidate_def)

section \<open>Properties\<close>

text \<open>
  An edit replaces one place and nothing else. When \<^verbatim>\<open>edit_file\<close> reports success, the text of the file (with its
  line ends translated) splits around \<^verbatim>\<open>old_string\<close>, at its first occurrence, with no further occurrence behind it; the
  file then holds the same text with \<^verbatim>\<open>new_string\<close> there, and no other file has changed. When it reports an error,
  no file has changed at all, unless the host failed in the middle of the write.
\<close>

theorem edit_file_effect:
  "(\<not> res_is_error (fst (edit_file_execute env cwd input fs)) \<longrightarrow>
      (\<exists>raw a b. fs (env_realpath (fe_os env) (open_path cwd (get_str input ''path''))) = Some raw
         \<and> universal_newlines raw = a @ get_str input ''old_string'' @ b
         \<and> (get_str input ''old_string'' \<noteq> [] \<longrightarrow> \<not> contains (get_str input ''old_string'') b)
         \<and> (\<forall>a' b'. universal_newlines raw = a' @ get_str input ''old_string'' @ b' \<longrightarrow> length a \<le> length a')
         \<and> snd (edit_file_execute env cwd input fs)
             = fs(env_realpath (fe_os env) (open_path cwd (get_str input ''path'')) := Some (a @ get_str input ''new_string'' @ b))))
   \<and> (res_is_error (fst (edit_file_execute env cwd input fs)) \<longrightarrow>
       snd (edit_file_execute env cwd input fs) = fs
       \<or> (\<exists>n e. fe_write_fault env (open_path cwd (get_str input ''path'')) = Some (Partial_Write n e)))"
proof (intro conjI impI)
  let ?old = "get_str input ''old_string''" and ?new = "get_str input ''new_string''"
  assume "\<not> res_is_error (fst (edit_file_execute env cwd input fs))"
  then obtain raw where raw: "fs (env_realpath (fe_os env) (open_path cwd (get_str input ''path''))) = Some raw"
    "str_count (universal_newlines raw) ?old = 1"
    "snd (edit_file_execute env cwd input fs) = fs(env_realpath (fe_os env) (open_path cwd (get_str input ''path'')) :=
        Some (replace_first ?old ?new (universal_newlines raw)))" using edit_file_ok by blast
  obtain a b where "universal_newlines raw = a @ ?old @ b" "replace_first ?old ?new (universal_newlines raw) = a @ ?new @ b"
    "\<forall>a' b'. universal_newlines raw = a' @ ?old @ b' \<longrightarrow> length a \<le> length a'" "?old \<noteq> [] \<longrightarrow> \<not> contains ?old b"
    using str_count_one [OF raw(2), of ?new] by blast
  then show "\<exists>raw a b. fs (env_realpath (fe_os env) (open_path cwd (get_str input ''path''))) = Some raw
      \<and> universal_newlines raw = a @ ?old @ b \<and> (?old \<noteq> [] \<longrightarrow> \<not> contains ?old b)
      \<and> (\<forall>a' b'. universal_newlines raw = a' @ ?old @ b' \<longrightarrow> length a \<le> length a')
      \<and> snd (edit_file_execute env cwd input fs)
          = fs(env_realpath (fe_os env) (open_path cwd (get_str input ''path'')) := Some (a @ ?new @ b))"
    using raw(1,3) by metis
qed (rule edit_file_error)

text \<open>
  C24: a granted write stays where it was checked. Outside the bypass mode, when the pipeline allows a call of a
  file-writing tool whose path is not rewritten by \<^verbatim>\<open>expanduser\<close>, executing that call changes at most one file, and
  that file is not sensitive and lies inside the working directory or an additional directory.
\<close>

theorem granted_write_contained:
  assumes "cx_mode ctx \<noteq> BYPASS_PERMISSIONS"
    and "tool = WriteFileTool (fe_os env) \<and> run = write_file_execute \<or> tool = EditFileTool (fe_os env) \<and> run = edit_file_execute"
    and "pr_behavior (check_tool_permission tool input ctx) = Allow"
    and "get_str input ''path'' \<noteq> []" and "env_expanduser (fe_os env) (get_str input ''path'') = get_str input ''path''"
    and "snd (run env (cx_cwd ctx) input fs) p \<noteq> fs p"
  shows "p = resolve_candidate (fe_os env) (get_str input ''path'') (cx_cwd ctx)
    \<and> \<not> path_hits_sensitive p SENSITIVE_PATHS \<and> is_in_allowed_roots (fe_os env) p (cx_cwd ctx # cx_additional_directories ctx)"
proof -
  have "p = env_realpath (fe_os env) (open_path (cx_cwd ctx) (get_str input ''path''))"
    using assms(2,6) write_file_changes edit_file_changes by blast
  then have p: "p = resolve_candidate (fe_os env) (get_str input ''path'') (cx_cwd ctx)"
    using open_path_resolved [OF assms(5)] by simp
  have "input_path input = get_str input ''path''" using assms(4) by (simp add: input_path_def)
  then show ?thesis
    using p assms(1,2,3) write_file.grant_contained [of ctx "fe_os env" input] edit_file.grant_contained [of ctx "fe_os env" input]
    by metis
qed

section \<open>Witnesses and boundary cases\<close>

definition plain_files :: file_env where
  "plain_files = \<lparr>fe_os = plain_env, fe_guess_type = (\<lambda>p. None), fe_read_fault = (\<lambda>p. None), fe_write_fault = (\<lambda>p. None)\<rparr>"

definition one_file :: "string \<Rightarrow> string \<Rightarrow> filesystem" where
  "one_file path content = (\<lambda>p. if p = path then Some content else None)"

definition edit_input :: "string \<Rightarrow> string \<Rightarrow> string \<Rightarrow> pydict" where
  "edit_input path old new = [(''path'', PyStr path), (''old_string'', PyStr old), (''new_string'', PyStr new)]"

theorem edit_file_effect_witness:
  "\<not> res_is_error (fst (edit_file_execute plain_files ''/work'' (edit_input ''a.tf'' ''vpc'' ''vsw'') (one_file ''/work/a.tf'' ''x vpc y'')))
   \<and> (\<exists>raw a b. one_file ''/work/a.tf'' ''x vpc y'' ''/work/a.tf'' = Some raw \<and> universal_newlines raw = a @ ''vpc'' @ b
        \<and> \<not> contains ''vpc'' b
        \<and> snd (edit_file_execute plain_files ''/work'' (edit_input ''a.tf'' ''vpc'' ''vsw'') (one_file ''/work/a.tf'' ''x vpc y''))
            = (one_file ''/work/a.tf'' ''x vpc y'')(''/work/a.tf'' := Some (a @ ''vsw'' @ b)))"
proof -
  let ?in = "edit_input ''a.tf'' ''vpc'' ''vsw''" and ?fs = "one_file ''/work/a.tf'' ''x vpc y''"
  have ok: "\<not> res_is_error (fst (edit_file_execute plain_files ''/work'' ?in ?fs))" by code_simp
  have real: "env_realpath (fe_os plain_files) (open_path ''/work'' (get_str ?in ''path'')) = ''/work/a.tf''" by code_simp
  have strs: "get_str ?in ''old_string'' = ''vpc''" "get_str ?in ''new_string'' = ''vsw''" by code_simp+
  show ?thesis
    using ok edit_file_effect [of plain_files "''/work''" ?in ?fs] unfolding real strs by fastforce
qed

theorem granted_write_contained_witness:
  "is_in_allowed_roots plain_env ''/work/modules/vpc.tf'' [''/work'']"
proof -
  let ?in = "[(''path'', PyStr ''modules/vpc.tf''), (''content'', PyStr ''x'')]"
  have mode: "cx_mode blanket_write_context \<noteq> BYPASS_PERMISSIONS"
    by (simp add: blanket_write_context_def work_context_def default_context_def)
  have ctx: "cx_cwd blanket_write_context = ''/work''" "cx_additional_directories blanket_write_context = []"
    by code_simp+
  have os: "fe_os plain_files = plain_env" by (simp add: plain_files_def)
  have allow: "pr_behavior (check_tool_permission (WriteFileTool (fe_os plain_files)) ?in blanket_write_context) = Allow" by code_simp
  have path: "get_str ?in ''path'' \<noteq> []"
    "env_expanduser (fe_os plain_files) (get_str ?in ''path'') = get_str ?in ''path''" by code_simp+
  have changed: "snd (write_file_execute plain_files (cx_cwd blanket_write_context) ?in (\<lambda>p. None)) ''/work/modules/vpc.tf''
      \<noteq> (\<lambda>p. None) ''/work/modules/vpc.tf''" by code_simp
  have "is_in_allowed_roots (fe_os plain_files) ''/work/modules/vpc.tf''
      (cx_cwd blanket_write_context # cx_additional_directories blanket_write_context)"
    using granted_write_contained [of blanket_write_context "WriteFileTool (fe_os plain_files)" plain_files write_file_execute ?in
        "\<lambda>p. None" "''/work/modules/vpc.tf''"] mode allow path changed by blast
  then show ?thesis by (simp only: ctx os)
qed

text \<open>
  Editing a file removes all its carriage returns: text mode translates them when reading, and the whole text is
  written back. So an edit of one place in a file with Windows line ends changes every line of it.
\<close>

theorem edit_drops_carriage_returns:
  assumes "\<not> res_is_error (fst (edit_file_execute env cwd input fs))" and "CHR 0x0D \<notin> set (get_str input ''new_string'')"
    and "snd (edit_file_execute env cwd input fs) (env_realpath (fe_os env) (open_path cwd (get_str input ''path''))) = Some content"
  shows "CHR 0x0D \<notin> set content"
proof -
  obtain raw where raw: "str_count (universal_newlines raw) (get_str input ''old_string'') = 1"
    "snd (edit_file_execute env cwd input fs) = fs(env_realpath (fe_os env) (open_path cwd (get_str input ''path'')) :=
        Some (replace_first (get_str input ''old_string'') (get_str input ''new_string'') (universal_newlines raw)))"
    using edit_file_ok [OF assms(1)] by blast
  then have content: "content = replace_first (get_str input ''old_string'') (get_str input ''new_string'') (universal_newlines raw)"
    using assms(3) by simp
  obtain a b where "universal_newlines raw = a @ get_str input ''old_string'' @ b" "content = a @ get_str input ''new_string'' @ b"
    using str_count_one [OF raw(1)] content by blast
  then show ?thesis using universal_newlines_no_cr [of raw] assms(2) by simp
qed

text \<open>
  Occurrences are counted without overlap: \<^verbatim>\<open>"aa"\<close> is found once in \<^verbatim>\<open>"aaa"\<close> although it matches at two
  locations, so the edit goes ahead.
\<close>

theorem edit_overlapping_match:
  "\<not> res_is_error (fst (edit_file_execute plain_files ''/work'' (edit_input ''f'' ''aa'' ''b'') (one_file ''/work/f'' ''aaa'')))
   \<and> contains ''aa'' ''aaa'' \<and> contains ''aa'' (tl ''aaa'')"
  by code_simp

definition home_env :: os_env where
  "home_env = plain_env\<lparr>env_expanduser := (\<lambda>p. if startswith p ''~/'' then ''/home/u'' @ tl p else p)\<rparr>"

definition home_context :: ToolPermissionContext where
  "home_context = blanket_write_context\<lparr>cx_cwd := ''/home/u/proj''\<rparr>"

text \<open>
  The check expands \<^verbatim>\<open>~\<close> and the execution does not: the check sees a file inside the project, and the write goes to
  another one outside of it.
\<close>

theorem tilde_write_escapes:
  "let input = [(''path'', PyStr ''~/../../home/u/proj/f''), (''content'', PyStr ''x'')] in
   pr_behavior (check_tool_permission (WriteFileTool home_env) input home_context) = Allow
   \<and> snd (write_file_execute (plain_files\<lparr>fe_os := home_env\<rparr>) ''/home/u/proj'' input (\<lambda>p. None)) ''/home/u/home/u/proj/f'' = Some ''x''
   \<and> \<not> is_in_allowed_roots home_env ''/home/u/home/u/proj/f'' [''/home/u/proj'']"
  by code_simp

end
