(* ===== verification/Tool_Calls.thy ===== *)
theory Tool_Calls
  imports Json
begin

text \<open>
  The strict assembler of streamed tool calls (\<^verbatim>\<open>providers/qwen_tool_call_parser.py\<close>): fragments of several calls
  arrive interleaved, most of them without an identity, and are put together into calls or refused. A fragment carries
  the raw fields of the response (a missing \<^verbatim>\<open>arguments\<close> field is \<open>None\<close>); a slot is addressed by its place in the list.
  The recovery of calls written as XML (\<^verbatim>\<open>recover_xml_tool_calls\<close>) is not modelled.
\<close>

section \<open>Arguments\<close>

definition strict_tool_arguments :: "pyval option \<Rightarrow> string + pydict" where
  \<comment> \<open>\<open>None\<close> is an absent field; \<open>Inl\<close> is the message of the \<^verbatim>\<open>ToolCallProtocolError\<close>\<close>
  "strict_tool_arguments raw =
     (case raw of
        None \<Rightarrow> Inr []
      | Some PyNone \<Rightarrow> Inr []
      | Some (PyStr s) \<Rightarrow>
          if s = [] then Inr []
          else if strip s = [] then Inl ''Qwen tool arguments must be a non-empty JSON object.''
          else
            (case json_loads s of
               None \<Rightarrow> Inl ''Qwen tool arguments are malformed JSON.''
             | Some (PyDict d) \<Rightarrow> Inr d
             | Some _ \<Rightarrow> Inl ''Qwen tool arguments must decode to an object.'')
      | Some _ \<Rightarrow> Inl ''Qwen tool arguments must be a non-empty JSON object.'')"

definition loads_object :: "string \<Rightarrow> bool" where
  \<comment> \<open>\<^verbatim>\<open>isinstance(json.loads(s), dict)\<close>, false where it raises\<close>
  "loads_object s = (case json_loads s of Some (PyDict _) \<Rightarrow> True | _ \<Rightarrow> False)"

fun is_complete_argument_object :: "pyval option \<Rightarrow> bool" where
  "is_complete_argument_object (Some (PyStr s)) \<longleftrightarrow> strip s \<noteq> [] \<and> loads_object s"
| "is_complete_argument_object _ \<longleftrightarrow> False"

fun string_or_empty :: "pyval \<Rightarrow> string" where
  "string_or_empty (PyStr s) = s"
| "string_or_empty _ = []"

section \<open>Slots and the scan of their text\<close>

record scan_state =
  sc_depth :: int
  sc_in_string :: bool
  sc_escape :: bool
  sc_bad :: bool \<comment> \<open>the depth went below zero in the last fragment\<close>

definition scan_char :: "char \<Rightarrow> scan_state \<Rightarrow> scan_state" where
  "scan_char c st =
     (let d = (if sc_in_string st then sc_depth st
               else if c = CHR ''['' \<or> c = CHR ''{'' then sc_depth st + 1
               else if c = CHR '']'' \<or> c = CHR ''}'' then sc_depth st - 1
               else sc_depth st)
      in \<lparr>sc_depth = d,
          sc_in_string = (if c = CHR 0x22 \<and> \<not> sc_escape st then \<not> sc_in_string st else sc_in_string st),
          sc_escape = (c = CHR 0x5C \<and> \<not> sc_escape st),
          sc_bad = (sc_bad st \<or> (\<not> sc_in_string st \<and> (c = CHR '']'' \<or> c = CHR ''}'') \<and> d < 0))\<rparr>)"

definition scan_start :: scan_state where
  "scan_start = \<lparr>sc_depth = 0, sc_in_string = False, sc_escape = False, sc_bad = False\<rparr>"

record slot =
  sl_order :: nat
  sl_index :: int
  sl_call_id :: string
  sl_name :: string
  sl_arguments :: string
  sl_present :: bool
  sl_scan :: scan_state

definition has_complete_object :: "slot \<Rightarrow> bool" where
  "has_complete_object s \<longleftrightarrow>
     (if \<not> sl_present s \<or> sl_arguments s = [] then True
      else if sc_depth (sl_scan s) \<noteq> 0 \<or> sc_in_string (sl_scan s) then False
      else loads_object (sl_arguments s))"

definition can_accept_anonymous_arguments :: "slot \<Rightarrow> bool" where
  "can_accept_anonymous_arguments s \<longleftrightarrow> \<not> sl_present s \<or> sl_arguments s = [] \<or> \<not> has_complete_object s"

section \<open>The assembler\<close>

record assembler =
  as_slots :: "slot list"
  as_invalid_reason :: "string option"

definition empty_assembler :: assembler where
  "empty_assembler = \<lparr>as_slots = [], as_invalid_reason = None\<rparr>"

definition has_fragments :: "assembler \<Rightarrow> bool" where
  "has_fragments a \<longleftrightarrow> as_slots a \<noteq> [] \<or> as_invalid_reason a \<noteq> None"

definition refuse :: "string \<Rightarrow> assembler \<Rightarrow> assembler" where
  "refuse reason a = a\<lparr>as_invalid_reason := Some reason\<rparr>"

definition positions :: "(slot \<Rightarrow> bool) \<Rightarrow> slot list \<Rightarrow> nat list" where
  "positions P slots = filter (\<lambda>i. P (slots ! i)) [0..<length slots]"

definition new_slot :: "int \<Rightarrow> assembler \<Rightarrow> nat option \<times> assembler" where
  "new_slot index a =
     (Some (length (as_slots a)),
      a\<lparr>as_slots := as_slots a @
        [\<lparr>sl_order = length (as_slots a), sl_index = index, sl_call_id = [], sl_name = [], sl_arguments = [],
          sl_present = False, sl_scan = scan_start\<rparr>]\<rparr>)"

definition pick_one :: "nat list \<Rightarrow> string \<Rightarrow> assembler \<Rightarrow> nat option \<times> assembler \<Rightarrow> nat option \<times> assembler" where
  \<comment> \<open>the only candidate; several are refused; none leads to the next rule\<close>
  "pick_one candidates reason a otherwise =
     (if length candidates = 1 then (Some (hd candidates), a)
      else if 1 < length candidates then (None, refuse reason a)
      else otherwise)"

definition select_slot :: "int \<Rightarrow> string \<Rightarrow> string \<Rightarrow> pyval option \<Rightarrow> assembler \<Rightarrow> nat option \<times> assembler" where
  "select_slot index call_id name arguments a =
     (let slots = as_slots a;
          name_fits = (\<lambda>s. name = [] \<or> sl_name s = [] \<or> sl_name s = name)
      in
      if call_id \<noteq> [] then
        pick_one (positions (\<lambda>s. sl_call_id s = call_id) slots) ''Duplicate Qwen tool-call identity.'' a
          (pick_one (positions (\<lambda>s. sl_index s = index \<and> sl_call_id s = [] \<and> name_fits s) slots)
             ''Ambiguous anonymous Qwen tool-call identity.'' a
             (pick_one
                (if is_complete_argument_object arguments then []
                 else positions (\<lambda>s. sl_call_id s = [] \<and> can_accept_anonymous_arguments s \<and> name_fits s) slots)
                ''Ambiguous anonymous Qwen tool-call identity.'' a
                (new_slot index
                   (if list_ex (\<lambda>s. sl_index s = index \<and> sl_call_id s \<noteq> [] \<and> sl_call_id s \<noteq> call_id
                                    \<and> \<not> has_complete_object s) slots
                    then refuse ''Conflicting Qwen tool-call identity.'' a else a))))
      else
        let named = positions (\<lambda>s. sl_index s = index \<and> sl_name s = name) slots;
            unnamed = positions (\<lambda>s. sl_index s = index \<and> sl_name s = []) slots
        in
        if name \<noteq> [] \<and> length named = 1 then (Some (hd named), a)
        else if name \<noteq> [] \<and> length unnamed = 1 then (Some (hd unnamed), a)
        else if name \<noteq> [] \<and> (1 < length named \<or> 1 < length unnamed) then
          (None, refuse ''Ambiguous anonymous Qwen tool-call identity.'' a)
        else if name \<noteq> [] \<and> list_ex (\<lambda>s. sl_index s = index \<and> \<not> has_complete_object s) slots then
          (None, refuse ''Conflicting Qwen tool-call name.'' a)
        else
          pick_one (positions (\<lambda>s. sl_index s = index \<and> can_accept_anonymous_arguments s) slots)
            ''Ambiguous anonymous Qwen tool-call fragment.'' a
            (pick_one (positions can_accept_anonymous_arguments slots)
               ''Ambiguous anonymous Qwen tool-call fragment.'' a
               (new_slot index a)))"

definition scan_argument_fragment :: "string \<Rightarrow> slot \<Rightarrow> slot" where
  "scan_argument_fragment fragment s = s\<lparr>sl_scan := fold scan_char fragment ((sl_scan s)\<lparr>sc_bad := False\<rparr>)\<rparr>"

record fragment =
  fr_index :: pyval
  fr_id :: pyval
  fr_name :: pyval
  fr_arguments :: "pyval option"

definition update_slot :: "nat \<Rightarrow> (slot \<Rightarrow> slot) \<Rightarrow> assembler \<Rightarrow> assembler" where
  "update_slot i f a = a\<lparr>as_slots := (as_slots a)[i := f (as_slots a ! i)]\<rparr>"

definition add_arguments :: "nat \<Rightarrow> string \<Rightarrow> pyval option \<Rightarrow> assembler \<Rightarrow> assembler" where
  "add_arguments i call_id arguments a =
     (case arguments of
        None \<Rightarrow> a
      | Some PyNone \<Rightarrow> a
      | Some (PyStr text_part) \<Rightarrow>
          let s = as_slots a ! i in
          if call_id \<noteq> [] \<and> sl_call_id s = call_id \<and> sl_arguments s \<noteq> [] \<and> has_complete_object s then a
          else
            let s1 = scan_argument_fragment text_part (s\<lparr>sl_present := True, sl_arguments := sl_arguments s @ text_part\<rparr>);
                a1 = update_slot i (\<lambda>_. s1) a
            in if sc_bad (sl_scan s1) then refuse ''Invalid Qwen tool-call JSON structure.'' a1 else a1
      | Some _ \<Rightarrow> refuse ''Qwen tool-call arguments must be a string.'' a)"

definition feed_fragment :: "fragment \<Rightarrow> assembler \<Rightarrow> assembler" where
  "feed_fragment f a =
     (case fr_index f of
        PyInt index \<Rightarrow>
          if index < 0 then refuse ''Invalid Qwen tool-call index.'' a
          else
            let call_id = string_or_empty (fr_id f); name = string_or_empty (fr_name f); arguments = fr_arguments f in
            if call_id = [] \<and> name = [] \<and> arguments \<in> set [None, Some PyNone, Some (PyStr [])] then a
            else
              (case select_slot index call_id name arguments a of
                 (None, a1) \<Rightarrow> a1
               | (Some i, a1) \<Rightarrow>
                   if call_id \<noteq> [] \<and> sl_call_id (as_slots a1 ! i) \<noteq> [] \<and> sl_call_id (as_slots a1 ! i) \<noteq> call_id then
                     refuse ''Conflicting Qwen tool-call identity.'' a1
                   else
                     let a2 = (if call_id \<noteq> [] then update_slot i (\<lambda>s. s\<lparr>sl_call_id := call_id\<rparr>) a1 else a1) in
                     if name \<noteq> [] \<and> sl_name (as_slots a2 ! i) \<noteq> [] \<and> sl_name (as_slots a2 ! i) \<noteq> name then
                       refuse ''Conflicting Qwen tool-call name.'' a2
                     else
                       let a3 = (if name \<noteq> [] then update_slot i (\<lambda>s. s\<lparr>sl_name := name\<rparr>) a2 else a2) in
                       add_arguments i call_id arguments a3)
      | _ \<Rightarrow> refuse ''Invalid Qwen tool-call index.'' a)"

definition feed :: "fragment list \<Rightarrow> assembler \<Rightarrow> assembler" where
  "feed fragments a = fold feed_fragment fragments a"

record tool_call =
  ca_id :: string
  ca_name :: string
  ca_raw_arguments :: string
  ca_input :: pydict

fun finalize_slots :: "string list \<Rightarrow> slot list \<Rightarrow> string + tool_call list" where
  "finalize_slots seen_ids [] = Inr []"
| "finalize_slots seen_ids (s # slots) =
     (if sl_call_id s = [] \<or> sl_name s = [] then Inl ''Qwen tool call is anonymous or nameless.''
      else if sl_call_id s \<in> set seen_ids then Inl ''Duplicate Qwen tool-call ID.''
      else if sc_depth (sl_scan s) \<noteq> 0 \<or> sc_in_string (sl_scan s) then
        Inl ''Qwen tool-call arguments ended before JSON was complete.''
      else
        (case strict_tool_arguments (if sl_present s then Some (PyStr (sl_arguments s)) else None) of
           Inl e \<Rightarrow> Inl e
         | Inr d \<Rightarrow>
             map_sum id
               (Cons \<lparr>ca_id = sl_call_id s, ca_name = sl_name s, ca_raw_arguments = sl_arguments s, ca_input = d\<rparr>)
               (finalize_slots (sl_call_id s # seen_ids) slots)))"

definition finalize :: "string option \<Rightarrow> assembler \<Rightarrow> string + tool_call list" where
  "finalize finish_reason a =
     (case as_invalid_reason a of
        Some reason \<Rightarrow> Inl reason
      | None \<Rightarrow>
          if finish_reason = Some ''tool_calls'' \<and> as_slots a = [] then
            Inl ''Qwen response ended with tool_calls but no complete tool call.''
          else finalize_slots [] (sort_key sl_order (as_slots a)))"

section \<open>What is accepted\<close>

definition slot_ok :: "slot \<Rightarrow> bool" where
  "slot_ok s \<longleftrightarrow> sl_present s \<or> sl_arguments s = []"

definition asm_ok :: "assembler \<Rightarrow> bool" where
  "asm_ok a \<longleftrightarrow> list_all slot_ok (as_slots a)"

lemma finalize_slots_sound:
  "finalize_slots seen slots = Inr calls \<Longrightarrow> list_all slot_ok slots \<Longrightarrow>
     distinct (map ca_id calls) \<and> set (map ca_id calls) \<inter> set seen = {}
     \<and> list_all (\<lambda>c. ca_id c \<noteq> [] \<and> ca_name c \<noteq> []
          \<and> (if ca_raw_arguments c = [] then ca_input c = [] else json_loads (ca_raw_arguments c) = Some (PyDict (ca_input c)))) calls"
proof (induction seen slots arbitrary: calls rule: finalize_slots.induct)
  case (2 seen s slots)
  obtain d where s: "sl_call_id s \<noteq> []" "sl_name s \<noteq> []" "sl_call_id s \<notin> set seen"
      "strict_tool_arguments (if sl_present s then Some (PyStr (sl_arguments s)) else None) = Inr d"
    using "2.prems"(1) by (auto split: if_splits sum.splits)
  obtain cs where cs: "finalize_slots (sl_call_id s # seen) slots = Inr cs"
      "calls = \<lparr>ca_id = sl_call_id s, ca_name = sl_name s, ca_raw_arguments = sl_arguments s, ca_input = d\<rparr> # cs"
    using "2.prems"(1) s by (cases "finalize_slots (sl_call_id s # seen) slots") (auto split: if_splits)
  have d: "if sl_arguments s = [] then d = [] else json_loads (sl_arguments s) = Some (PyDict d)"
    using s(4) "2.prems"(2)
    by (auto simp: strict_tool_arguments_def slot_ok_def split: if_splits option.splits pyval.splits)
  have "sc_depth (sl_scan s) = 0" "\<not> sc_in_string (sl_scan s)" using "2.prems"(1) s by (auto split: if_splits)
  then have "distinct (map ca_id cs) \<and> set (map ca_id cs) \<inter> set (sl_call_id s # seen) = {}
      \<and> list_all (\<lambda>c. ca_id c \<noteq> [] \<and> ca_name c \<noteq> []
          \<and> (if ca_raw_arguments c = [] then ca_input c = [] else json_loads (ca_raw_arguments c) = Some (PyDict (ca_input c)))) cs"
    using "2.IH" [OF _ _ _ s(4) cs(1)] s "2.prems"(2) by simp
  then show ?case using s cs(2) d by auto
qed simp

lemma asm_ok_refuse: "asm_ok (refuse r a) = asm_ok a"
  by (simp add: asm_ok_def refuse_def)

lemma asm_ok_update: "asm_ok a \<Longrightarrow> (i < length (as_slots a) \<Longrightarrow> slot_ok (f (as_slots a ! i))) \<Longrightarrow> asm_ok (update_slot i f a)"
  using set_update_subset_insert [of "as_slots a" i "f (as_slots a ! i)"]
  by (cases "i < length (as_slots a)") (auto simp: asm_ok_def update_slot_def list_all_iff list_update_beyond)

lemma asm_ok_new: "asm_ok a \<Longrightarrow> asm_ok (snd (new_slot i a))"
  by (simp add: asm_ok_def new_slot_def slot_ok_def)

lemma asm_ok_nth: "asm_ok a \<Longrightarrow> i < length (as_slots a) \<Longrightarrow> slot_ok (as_slots a ! i)"
  by (simp add: asm_ok_def list_all_length)

lemma asm_ok_pick: "asm_ok a \<Longrightarrow> asm_ok (snd other) \<Longrightarrow> asm_ok (snd (pick_one cs r a other))"
  by (simp add: pick_one_def asm_ok_refuse)

lemma asm_ok_select: "asm_ok a \<Longrightarrow> asm_ok (snd (select_slot index call_id name arguments a))"
  by (simp add: select_slot_def Let_def asm_ok_pick asm_ok_refuse asm_ok_new)

lemma asm_ok_add: "asm_ok a \<Longrightarrow> asm_ok (add_arguments i call_id arguments a)"
  by (auto simp: add_arguments_def Let_def asm_ok_refuse scan_argument_fragment_def slot_ok_def
      intro!: asm_ok_update split: option.splits pyval.splits)

lemma asm_ok_feed_fragment: "asm_ok a \<Longrightarrow> asm_ok (feed_fragment f a)"
proof (cases "fr_index f")
  case (PyInt index)
  assume a: "asm_ok a"
  let ?id = "string_or_empty (fr_id f)" and ?name = "string_or_empty (fr_name f)"
  obtain r a1 where sel: "select_slot index ?id ?name (fr_arguments f) a = (r, a1)" by fastforce
  then have a1: "asm_ok a1" using asm_ok_select [OF a, of index ?id ?name "fr_arguments f"] by simp
  have id: "asm_ok (update_slot i (\<lambda>s. s\<lparr>sl_call_id := ?id\<rparr>) a1)" for i
    using a1 asm_ok_nth by (intro asm_ok_update) (auto simp: slot_ok_def)
  have name: "asm_ok (update_slot i (\<lambda>s. s\<lparr>sl_name := ?name\<rparr>) b)" if "asm_ok b" for i b
    using that asm_ok_nth by (intro asm_ok_update) (auto simp: slot_ok_def)
  show ?thesis
    using PyInt sel a a1 id name
    by (auto simp: feed_fragment_def Let_def asm_ok_refuse asm_ok_add split: option.splits)
qed (simp_all add: feed_fragment_def asm_ok_refuse)

lemma asm_ok_feed: "asm_ok a \<Longrightarrow> asm_ok (feed fragments a)"
  unfolding feed_def by (induction fragments arbitrary: a) (simp_all add: asm_ok_feed_fragment)

text \<open>
  C37: whatever fragments arrive, the calls that are accepted are well formed: their identifiers are not empty and differ
  from each other, every call has a name, and its arguments are the JSON object its raw text denotes (the empty object
  for an empty text), never a guess.
\<close>
theorem assembled_calls_well_formed:
  assumes "finalize finish_reason (feed fragments empty_assembler) = Inr calls"
  shows "distinct (map ca_id calls)
    \<and> list_all (\<lambda>c. ca_id c \<noteq> [] \<and> ca_name c \<noteq> []
         \<and> (if ca_raw_arguments c = [] then ca_input c = [] else json_loads (ca_raw_arguments c) = Some (PyDict (ca_input c)))) calls"
proof -
  let ?a = "feed fragments empty_assembler"
  have "asm_ok ?a" by (rule asm_ok_feed) (simp add: asm_ok_def empty_assembler_def)
  then have "list_all slot_ok (sort_key sl_order (as_slots ?a))" by (simp add: asm_ok_def list_all_iff)
  moreover have "finalize_slots [] (sort_key sl_order (as_slots ?a)) = Inr calls"
    using assms by (auto simp: finalize_def split: option.splits if_splits)
  ultimately show ?thesis using finalize_slots_sound by blast
qed

section \<open>The scan of a printed object\<close>

definition at_depth :: "int \<Rightarrow> scan_state" where
  "at_depth d = \<lparr>sc_depth = d, sc_in_string = False, sc_escape = False, sc_bad = False\<rparr>"

definition in_text :: "int \<Rightarrow> scan_state" where
  "in_text d = \<lparr>sc_depth = d, sc_in_string = True, sc_escape = False, sc_bad = False\<rparr>"

definition plain_char :: "char \<Rightarrow> bool" where
  "plain_char c \<longleftrightarrow> c \<notin> {CHR ''['', CHR '']'', CHR ''{'', CHR ''}'', CHR 0x22, CHR 0x5C}"

lemma scan_plain: "list_all plain_char s \<Longrightarrow> fold scan_char s (at_depth d) = at_depth d"
  by (induction s) (simp_all add: scan_char_def at_depth_def plain_char_def)

lemma scan_in_text: "c \<noteq> CHR 0x22 \<Longrightarrow> c \<noteq> CHR 0x5C \<Longrightarrow> scan_char c (in_text d) = in_text d"
  by (simp add: scan_char_def in_text_def)

lemma hex_digit_plain: "n < 16 \<Longrightarrow> hex_digit n \<noteq> CHR 0x22 \<and> hex_digit n \<noteq> CHR 0x5C"
proof -
  assume "n < 16"
  then have "of_char (hex_digit n) \<in> {48..57} \<union> {97..(102 :: nat)}" by (auto simp: hex_digit_def of_char_of)
  then show ?thesis by auto
qed

lemma scan_escape: "fold scan_char (json_escape c) (in_text d) = in_text d"
proof -
  have e: "scan_char x (scan_char (CHR 0x5C) (in_text d)) = in_text d" for x
    by (simp add: scan_char_def in_text_def)
  have h: "scan_char (hex_digit (of_char c div 16)) (in_text d) = in_text d" "scan_char (hex_digit (of_char c mod 16)) (in_text d) = in_text d"
    if "of_char c < (32 :: nat)" using that hex_digit_plain by (auto intro!: scan_in_text)
  show ?thesis using e h by (auto simp: json_escape_def scan_in_text)
qed

lemma scan_escapes: "fold scan_char (concat (map json_escape s)) (in_text d) = in_text d"
  by (induction s) (simp_all add: scan_escape)

lemma scan_string: "fold scan_char (dumps_string s) (at_depth d) = at_depth d"
proof -
  have "scan_char (CHR 0x22) (at_depth d) = in_text d" "scan_char (CHR 0x22) (in_text d) = at_depth d"
    by (simp_all add: scan_char_def at_depth_def in_text_def)
  then show ?thesis by (simp add: dumps_string_def scan_escapes)
qed

lemma scan_brackets:
  "scan_char (CHR ''['') (at_depth d) = at_depth (d + 1)" "scan_char (CHR ''{'') (at_depth d) = at_depth (d + 1)"
  "0 \<le> d \<Longrightarrow> scan_char (CHR '']'') (at_depth (d + 1)) = at_depth d"
  "0 \<le> d \<Longrightarrow> scan_char (CHR ''}'') (at_depth (d + 1)) = at_depth d"
  "scan_char (CHR '','') (at_depth d) = at_depth d" "scan_char (CHR '':'') (at_depth d) = at_depth d"
  by (simp_all add: scan_char_def at_depth_def)

lemma digits_plain: "list_all is_digit s \<Longrightarrow> list_all plain_char s"
  by (auto simp: list_all_iff plain_char_def is_digit_def)

lemma int_str_plain: "list_all plain_char (int_str i)"
  using digits_plain nat_str_digits by (auto simp: int_str_def plain_char_def)

lemma number_plain: "scan_number t = Some (PyFloat t, []) \<Longrightarrow> list_all plain_char t"
  using scan_number_chars [of t] by (fastforce simp: list_all_iff plain_char_def is_digit_def)

lemma scan_dumps:
  "json_ok v \<Longrightarrow> 0 \<le> d \<Longrightarrow> fold scan_char (json_dumps v) (at_depth d) = at_depth d"
  "list_all json_ok vs \<Longrightarrow> 0 \<le> d \<Longrightarrow> fold scan_char (dumps_elems vs) (at_depth d) = at_depth d"
  "list_all (\<lambda>kv. json_ok (snd kv)) kvs \<Longrightarrow> 0 \<le> d \<Longrightarrow> fold scan_char (dumps_members kvs) (at_depth d) = at_depth d"
proof (induction v and vs and kvs arbitrary: d and d and d rule: json_dumps_dumps_elems_dumps_members.induct)
  case 1
  show ?case using scan_plain [of "''null''" d] by (simp add: plain_char_def)
next
  case (2 b)
  show ?case using scan_plain [of "''true''" d] scan_plain [of "''false''" d] by (simp add: plain_char_def)
next
  case (3 i)
  show ?case by (simp add: scan_plain int_str_plain)
next
  case (4 t)
  then show ?case by (simp add: scan_plain number_plain)
qed (simp_all add: scan_string scan_brackets)

lemma scan_bad_mono: "sc_bad st \<Longrightarrow> sc_bad (fold scan_char s st)"
  by (induction s arbitrary: st) (simp_all add: scan_char_def Let_def)

lemma at_depth_0: "at_depth 0 = scan_start"
  by (simp add: at_depth_def scan_start_def)

lemma scan_object: "json_ok (PyDict d) \<Longrightarrow> fold scan_char (json_dumps (PyDict d)) scan_start = scan_start"
  using scan_dumps(1) [of "PyDict d" 0] by (simp only: at_depth_0)

lemma scan_prefix_good:
  assumes "json_ok (PyDict d)" and "json_dumps (PyDict d) = p @ q"
  shows "\<not> sc_bad (fold scan_char p scan_start)"
proof
  assume "sc_bad (fold scan_char p scan_start)"
  then have "sc_bad (fold scan_char q (fold scan_char p scan_start))" by (rule scan_bad_mono)
  then have "sc_bad (fold scan_char (json_dumps (PyDict d)) scan_start)" unfolding assms(2) by simp
  then show False using scan_object [OF assms(1)] by (simp add: scan_start_def)
qed

section \<open>Interleaved calls\<close>

text \<open>
  What a provider sends: several calls, each with its own index, cut into chunks anywhere. The first chunk of a call
  carries its identifier and its name, the others only the index. An event is the number of a call and a chunk.
\<close>

record planned_call =
  pl_index :: int
  pl_id :: string
  pl_name :: string
  pl_args :: pydict

type_synonym call_event = "nat \<times> string"

definition first_chunk :: "planned_call \<Rightarrow> string \<Rightarrow> fragment" where
  "first_chunk c chunk = \<lparr>fr_index = PyInt (pl_index c), fr_id = PyStr (pl_id c), fr_name = PyStr (pl_name c), fr_arguments = Some (PyStr chunk)\<rparr>"

definition next_chunk :: "planned_call \<Rightarrow> string \<Rightarrow> fragment" where
  "next_chunk c chunk = \<lparr>fr_index = PyInt (pl_index c), fr_id = PyNone, fr_name = PyNone, fr_arguments = Some (PyStr chunk)\<rparr>"

fun render :: "planned_call list \<Rightarrow> nat list \<Rightarrow> call_event list \<Rightarrow> fragment list" where
  "render cs seen [] = []"
| "render cs seen ((k, chunk) # es) =
     (if k \<in> set seen then next_chunk (cs ! k) chunk else first_chunk (cs ! k) chunk) # render cs (k # seen) es"

definition sent :: "nat \<Rightarrow> call_event list \<Rightarrow> string" where
  "sent k es = concat (map snd (filter (\<lambda>e. fst e = k) es))"

definition call_text :: "planned_call list \<Rightarrow> nat \<Rightarrow> string" where
  "call_text cs k = json_dumps (PyDict (pl_args (cs ! k)))"

definition calls_ok :: "planned_call list \<Rightarrow> bool" where
  "calls_ok cs \<longleftrightarrow> distinct (map pl_index cs) \<and> distinct (map pl_id cs)
     \<and> list_all (\<lambda>c. 0 \<le> pl_index c \<and> pl_id c \<noteq> [] \<and> pl_name c \<noteq> [] \<and> json_ok (PyDict (pl_args c))) cs"

definition stream_ok :: "planned_call list \<Rightarrow> call_event list \<Rightarrow> bool" where
  "stream_ok cs es \<longleftrightarrow> calls_ok cs \<and> list_all (\<lambda>e. fst e < length cs) es
     \<and> list_all (\<lambda>k. sent k es = call_text cs k) [0..<length cs]"

definition order_of :: "call_event list \<Rightarrow> nat list" where
  \<comment> \<open>the calls in the order of their first chunk\<close>
  "order_of es = dict_fromkeys (map fst es)"

definition slot_of :: "planned_call list \<Rightarrow> nat \<Rightarrow> nat \<Rightarrow> string \<Rightarrow> slot" where
  "slot_of cs i k t = \<lparr>sl_order = i, sl_index = pl_index (cs ! k), sl_call_id = pl_id (cs ! k), sl_name = pl_name (cs ! k),
     sl_arguments = t, sl_present = True, sl_scan = fold scan_char t scan_start\<rparr>"

definition slots_of :: "planned_call list \<Rightarrow> call_event list \<Rightarrow> slot list" where
  "slots_of cs es = map (\<lambda>i. slot_of cs i (order_of es ! i) (sent (order_of es ! i) es)) [0..<length (order_of es)]"

lemma dict_fromkeys_snoc: "dict_fromkeys (xs @ [x]) = (if x \<in> set xs then dict_fromkeys xs else dict_fromkeys xs @ [x])"
  by (induction xs) auto

lemma order_of_snoc: "order_of (es @ [(k, chunk)]) = (if k \<in> fst ` set es then order_of es else order_of es @ [k])"
  by (simp add: order_of_def dict_fromkeys_snoc)

lemma order_of_facts: "distinct (order_of es)" "set (order_of es) = fst ` set es"
  by (simp_all add: order_of_def)

lemma sent_snoc: "sent k (es @ [(j, chunk)]) = (if j = k then sent k es @ chunk else sent k es)"
  by (simp add: sent_def)

lemma sent_none: "k \<notin> fst ` set es \<Longrightarrow> sent k es = []"
  by (induction es) (auto simp: sent_def)

lemma slots_of_length [simp]: "length (slots_of cs es) = length (order_of es)"
  by (simp add: slots_of_def)

lemma slots_of_nth: "i < length (order_of es) \<Longrightarrow> slots_of cs es ! i = slot_of cs i (order_of es ! i) (sent (order_of es ! i) es)"
  by (simp add: slots_of_def)

lemma positions_none: "(\<And>i. i < length xs \<Longrightarrow> \<not> P (xs ! i)) \<Longrightarrow> positions P xs = []"
  by (simp add: positions_def filter_empty_conv)

lemma filter_one: "i < n \<Longrightarrow> filter (\<lambda>j. j = i) [0..<n] = [i]"
  by (induction n) auto

lemma positions_one:
  assumes "i < length xs" and "P (xs ! i)" and "\<And>j. j < length xs \<Longrightarrow> P (xs ! j) \<Longrightarrow> j = i"
  shows "positions P xs = [i]"
proof -
  have "filter (\<lambda>j. P (xs ! j)) [0..<length xs] = filter (\<lambda>j. j = i) [0..<length xs]"
  proof (rule filter_cong)
    fix j assume "j \<in> set [0..<length xs]"
    then show "P (xs ! j) = (j = i)" using assms(2,3) by auto
  qed simp
  then show ?thesis using filter_one [OF assms(1)] by (simp add: positions_def)
qed

lemma calls_okD:
  assumes "calls_ok cs" and "k < length cs"
  shows "0 \<le> pl_index (cs ! k)" "pl_id (cs ! k) \<noteq> []" "pl_name (cs ! k) \<noteq> []" "json_ok (PyDict (pl_args (cs ! k)))"
    "j < length cs \<Longrightarrow> pl_index (cs ! j) = pl_index (cs ! k) \<longleftrightarrow> j = k"
    "j < length cs \<Longrightarrow> pl_id (cs ! j) = pl_id (cs ! k) \<longleftrightarrow> j = k"
proof -
  have "distinct (map pl_index cs)" "distinct (map pl_id cs)" using assms(1) by (simp_all add: calls_ok_def)
  then show "j < length cs \<Longrightarrow> pl_index (cs ! j) = pl_index (cs ! k) \<longleftrightarrow> j = k"
    "j < length cs \<Longrightarrow> pl_id (cs ! j) = pl_id (cs ! k) \<longleftrightarrow> j = k"
    using assms(2) by (metis length_map nth_eq_iff_index_eq nth_map)+
qed (use assms in \<open>auto simp: calls_ok_def list_all_length\<close>)

lemma incomplete_prefix:
  assumes "json_ok (PyDict d)" and "json_dumps (PyDict d) = p @ q" and "q \<noteq> []"
  shows "\<not> loads_object p"
  using loads_prefix_None [OF assms, of True] by (simp add: loads_object_def)

definition asm_of :: "planned_call list \<Rightarrow> call_event list \<Rightarrow> assembler" where
  "asm_of cs es = \<lparr>as_slots = slots_of cs es, as_invalid_reason = None\<rparr>"

lemma slot_of_sel [simp]:
  "sl_order (slot_of cs i k t) = i" "sl_index (slot_of cs i k t) = pl_index (cs ! k)" "sl_call_id (slot_of cs i k t) = pl_id (cs ! k)"
  "sl_name (slot_of cs i k t) = pl_name (cs ! k)" "sl_arguments (slot_of cs i k t) = t" "sl_present (slot_of cs i k t)"
  "sl_scan (slot_of cs i k t) = fold scan_char t scan_start"
  by (simp_all add: slot_of_def)

lemma feed_next_chunk:
  assumes ok: "calls_ok cs" and k: "k < length cs" and bound: "\<And>e. e \<in> set es \<Longrightarrow> fst e < length cs"
    and seen: "k \<in> fst ` set es" and full: "call_text cs k = sent k es @ chunk @ rest"
  shows "feed_fragment (next_chunk (cs ! k) chunk) (asm_of cs es) = asm_of cs (es @ [(k, chunk)])"
proof (cases "chunk = []")
  case True
  have "order_of (es @ [(k, [])]) = order_of es" using seen by (simp add: order_of_snoc)
  moreover have "sent j (es @ [(k, [])]) = sent j es" for j by (simp add: sent_snoc)
  ultimately have "slots_of cs (es @ [(k, [])]) = slots_of cs es" by (simp add: slots_of_def)
  then show ?thesis using True calls_okD(1) [OF ok k] by (simp add: feed_fragment_def next_chunk_def asm_of_def)
next
  case False
  note o = order_of_facts [of es]
  obtain i where i: "i < length (order_of es)" "order_of es ! i = k" using seen o(2) by (metis in_set_conv_nth)
  have in_cs: "order_of es ! j < length cs" if "j < length (order_of es)" for j
    using that o(2) bound by (metis imageE nth_mem)
  let ?s = "slots_of cs es ! i"
  have s: "?s = slot_of cs i k (sent k es)" using slots_of_nth [OF i(1)] i(2) by simp
  have open_slot: "can_accept_anonymous_arguments ?s"
    using incomplete_prefix [OF calls_okD(4) [OF ok k], of "sent k es" "chunk @ rest"] full False
    by (simp add: s can_accept_anonymous_arguments_def has_complete_object_def call_text_def)
  have "positions (\<lambda>s. sl_index s = pl_index (cs ! k) \<and> can_accept_anonymous_arguments s) (slots_of cs es) = [i]"
  proof (rule positions_one)
    fix j assume j: "j < length (slots_of cs es)"
      "sl_index (slots_of cs es ! j) = pl_index (cs ! k) \<and> can_accept_anonymous_arguments (slots_of cs es ! j)"
    then have "order_of es ! j = k" using calls_okD(5) [OF ok k] in_cs by (simp add: slots_of_nth)
    then show "j = i" using o(1) i j(1) by (metis nth_eq_iff_index_eq slots_of_length)
  qed (use i open_slot s in simp_all)
  then have sel: "select_slot (pl_index (cs ! k)) [] [] (Some (PyStr chunk)) (asm_of cs es) = (Some i, asm_of cs es)"
    by (simp add: select_slot_def asm_of_def pick_one_def)
  have good: "\<not> sc_bad (fold scan_char (sent k es @ chunk) scan_start)" "\<not> sc_bad (fold scan_char (sent k es) scan_start)"
    using scan_prefix_good [OF calls_okD(4) [OF ok k], of "sent k es @ chunk" rest]
      scan_prefix_good [OF calls_okD(4) [OF ok k], of "sent k es" "chunk @ rest"] full by (simp_all add: call_text_def)
  then have keep: "(fold scan_char (sent k es) scan_start)\<lparr>sc_bad := False\<rparr> = fold scan_char (sent k es) scan_start" by simp
  have "(slots_of cs es)[i := slot_of cs i k (sent k es @ chunk)] = slots_of cs (es @ [(k, chunk)])"
  proof (rule nth_equalityI)
    fix j assume "j < length ((slots_of cs es)[i := slot_of cs i k (sent k es @ chunk)])"
    then have j: "j < length (order_of es)" by simp
    have "order_of es ! j = k \<longleftrightarrow> j = i" using o(1) i j by (metis nth_eq_iff_index_eq)
    then show "(slots_of cs es)[i := slot_of cs i k (sent k es @ chunk)] ! j = slots_of cs (es @ [(k, chunk)]) ! j"
      using j seen i by (auto simp: slots_of_nth order_of_snoc sent_snoc nth_list_update)
  qed (use seen in \<open>simp add: order_of_snoc\<close>)
  then have upd: "update_slot i (\<lambda>_. slot_of cs i k (sent k es @ chunk)) (asm_of cs es) = asm_of cs (es @ [(k, chunk)])"
    by (simp add: update_slot_def asm_of_def)
  have "scan_argument_fragment chunk (?s\<lparr>sl_present := True, sl_arguments := sl_arguments ?s @ chunk\<rparr>) = slot_of cs i k (sent k es @ chunk)"
    unfolding s using keep by (simp add: scan_argument_fragment_def slot_of_def)
  then have "add_arguments i [] (Some (PyStr chunk)) (asm_of cs es) = asm_of cs (es @ [(k, chunk)])"
    using good(1) upd by (simp add: add_arguments_def Let_def asm_of_def)
  then show ?thesis using False calls_okD(1) [OF ok k] sel by (simp add: feed_fragment_def next_chunk_def Let_def)
qed

lemma feed_first_chunk:
  assumes ok: "calls_ok cs" and k: "k < length cs" and bound: "\<And>e. e \<in> set es \<Longrightarrow> fst e < length cs"
    and new: "k \<notin> fst ` set es" and full: "call_text cs k = chunk @ rest"
  shows "feed_fragment (first_chunk (cs ! k) chunk) (asm_of cs es) = asm_of cs (es @ [(k, chunk)])"
proof -
  note o = order_of_facts [of es]
  let ?n = "length (order_of es)"
  have at: "order_of es ! j < length cs" "order_of es ! j \<noteq> k" if "j < ?n" for j
    using that o(2) bound new by (metis imageE nth_mem, metis nth_mem)
  have ids: "sl_call_id (slots_of cs es ! j) \<noteq> []" "sl_call_id (slots_of cs es ! j) \<noteq> pl_id (cs ! k)"
    "sl_index (slots_of cs es ! j) \<noteq> pl_index (cs ! k)" if "j < ?n" for j
    using at [OF that] that calls_okD(2) [OF ok] calls_okD(5,6) [OF ok k] by (simp_all add: slots_of_nth)
  have none: "positions (\<lambda>s. sl_call_id s = pl_id (cs ! k)) (slots_of cs es) = []"
      "positions (\<lambda>s. sl_index s = pl_index (cs ! k) \<and> sl_call_id s = [] \<and> P s) (slots_of cs es) = []"
      "positions (\<lambda>s. sl_call_id s = [] \<and> P s) (slots_of cs es) = []" for P
    using ids by (intro positions_none; simp)+
  have "\<not> list_ex (\<lambda>s. sl_index s = pl_index (cs ! k) \<and> sl_call_id s \<noteq> [] \<and> sl_call_id s \<noteq> pl_id (cs ! k)
      \<and> \<not> has_complete_object s) (slots_of cs es)"
    using ids(3) by (auto simp: list_ex_length)
  then have sel: "select_slot (pl_index (cs ! k)) (pl_id (cs ! k)) (pl_name (cs ! k)) (Some (PyStr chunk)) (asm_of cs es)
      = new_slot (pl_index (cs ! k)) (asm_of cs es)"
    using calls_okD(2) [OF ok k] by (simp add: select_slot_def asm_of_def pick_one_def none Let_def del: is_complete_argument_object.simps)
  have good: "\<not> sc_bad (fold scan_char chunk scan_start)"
    using scan_prefix_good [OF calls_okD(4) [OF ok k], of chunk rest] full by (simp add: call_text_def)
  have keep: "scan_start\<lparr>sc_bad := False\<rparr> = scan_start" by (simp add: scan_start_def)
  have "sent k es = []" by (rule sent_none [OF new])
  moreover have "\<forall>j < ?n. k \<noteq> order_of es ! j" using at(2) by blast
  ultimately have slots: "slots_of cs (es @ [(k, chunk)]) = slots_of cs es @ [slot_of cs ?n k chunk]"
    using new by (simp add: slots_of_def order_of_snoc nth_append sent_snoc)
  have "add_arguments ?n (pl_id (cs ! k)) (Some (PyStr chunk))
      \<lparr>as_slots = slots_of cs es @ [(slot_of cs ?n k [])\<lparr>sl_present := False\<rparr>], as_invalid_reason = None\<rparr>
    = asm_of cs (es @ [(k, chunk)])"
    using good keep
    by (simp add: add_arguments_def scan_argument_fragment_def update_slot_def asm_of_def slots nth_append list_update_append
        slot_of_def Let_def)
  then show ?thesis
    using calls_okD(1,2,3) [OF ok k] sel
    by (simp add: feed_fragment_def first_chunk_def new_slot_def update_slot_def asm_of_def nth_append list_update_append slot_of_def Let_def)
qed

lemma feed_render:
  assumes ok: "calls_ok cs" and "\<And>e. e \<in> set (es @ fs) \<Longrightarrow> fst e < length cs"
    and "\<And>k. k < length cs \<Longrightarrow> \<exists>rest. call_text cs k = sent k (es @ fs) @ rest" and "set seen = fst ` set es"
  shows "feed (render cs seen fs) (asm_of cs es) = asm_of cs (es @ fs)"
  using assms(2-)
proof (induction fs arbitrary: es seen)
  case Nil
  then show ?case by (simp add: feed_def)
next
  case (Cons e fs)
  obtain k chunk where e: "e = (k, chunk)" by fastforce
  have k: "k < length cs" using Cons.prems(1) [of e] e by simp
  have bound: "\<And>x. x \<in> set es \<Longrightarrow> fst x < length cs" using Cons.prems(1) by simp
  obtain rest where rest: "call_text cs k = sent k es @ chunk @ rest"
    using Cons.prems(2) [OF k] e by (auto simp: sent_def)
  have "feed_fragment (if k \<in> set seen then next_chunk (cs ! k) chunk else first_chunk (cs ! k) chunk) (asm_of cs es)
      = asm_of cs (es @ [(k, chunk)])"
  proof (cases "k \<in> set seen")
    case True
    then show ?thesis using feed_next_chunk [OF ok k bound _ rest] Cons.prems(3) by simp
  next
    case False
    then have "sent k es = []" using Cons.prems(3) sent_none by simp
    then show ?thesis using feed_first_chunk [OF ok k bound] False Cons.prems(3) rest by simp
  qed
  moreover have "feed (render cs (k # seen) fs) (asm_of cs (es @ [(k, chunk)])) = asm_of cs ((es @ [(k, chunk)]) @ fs)"
    using Cons.prems e by (intro Cons.IH) auto
  ultimately show ?case using e by (simp add: feed_def)
qed

definition call_of :: "planned_call list \<Rightarrow> nat \<Rightarrow> tool_call" where
  "call_of cs k = \<lparr>ca_id = pl_id (cs ! k), ca_name = pl_name (cs ! k), ca_raw_arguments = call_text cs k, ca_input = pl_args (cs ! k)\<rparr>"

lemma object_arguments:
  assumes "json_ok (PyDict d)"
  shows "strict_tool_arguments (Some (PyStr (json_dumps (PyDict d)))) = Inr d"
proof -
  obtain q where q: "json_dumps (PyDict d) = CHR ''{'' # q" by (simp add: json_dumps.simps)
  have "\<not> is_space (CHR ''{'')" by code_simp
  then have "strip (json_dumps (PyDict d)) \<noteq> []"
    unfolding q by (simp add: strip_def lstrip_def rstrip_by_def dropWhile_eq_Nil_conv)
  moreover have "json_loads (json_dumps (PyDict d)) = Some (PyDict d)" using loads_dumps_ws [OF assms, of "[]" True] by simp
  ultimately show ?thesis using q by (simp add: strict_tool_arguments_def)
qed

lemma finalize_planned:
  assumes ok: "calls_ok cs"
  shows "list_all (\<lambda>(i, k). k < length cs) iks \<Longrightarrow> distinct (map snd iks) \<Longrightarrow>
     (\<forall>(i, k) \<in> set iks. pl_id (cs ! k) \<notin> set seen) \<Longrightarrow>
     finalize_slots seen (map (\<lambda>(i, k). slot_of cs i k (call_text cs k)) iks) = Inr (map (call_of cs \<circ> snd) iks)"
proof (induction iks arbitrary: seen)
  case (Cons ik iks)
  obtain i k where ik: "ik = (i, k)" by fastforce
  have k: "k < length cs" using Cons.prems(1) ik by simp
  have rest: "finalize_slots (pl_id (cs ! k) # seen) (map (\<lambda>(i, k). slot_of cs i k (call_text cs k)) iks) = Inr (map (call_of cs \<circ> snd) iks)"
  proof (rule Cons.IH)
    show "\<forall>(i, j) \<in> set iks. pl_id (cs ! j) \<notin> set (pl_id (cs ! k) # seen)"
    proof (clarify)
      fix i' j assume j: "(i', j) \<in> set iks"
      then have "j < length cs" using Cons.prems(1) by (auto simp: list_all_iff)
      moreover have "j \<in> set (map snd iks)" using j by force
      then have "j \<noteq> k" using Cons.prems(2) ik by auto
      ultimately have "pl_id (cs ! j) \<noteq> pl_id (cs ! k)" using calls_okD(6) [OF ok k] by blast
      moreover have "pl_id (cs ! j) \<notin> set seen" using Cons.prems(3) j by auto
      moreover assume "pl_id (cs ! j) \<in> set (pl_id (cs ! k) # seen)"
      ultimately show False by simp
    qed
  qed (use Cons.prems ik in simp_all)
  have "fold scan_char (call_text cs k) scan_start = scan_start"
    using scan_object [OF calls_okD(4) [OF ok k]] by (simp add: call_text_def)
  moreover have "strict_tool_arguments (Some (PyStr (call_text cs k))) = Inr (pl_args (cs ! k))"
    using object_arguments [OF calls_okD(4) [OF ok k]] by (simp add: call_text_def)
  ultimately show ?case
    using rest ik calls_okD(2,3) [OF ok k] Cons.prems(3) by (auto simp: scan_start_def call_of_def)
qed simp

text \<open>
  C36: streamed calls come out as they were sent. However the printed arguments of any number of calls are cut into chunks
  and however the chunks of different calls interleave (empty delimiter chunks included), when the first chunk of each call
  carries its identifier and name and the rest only its index, the assembler returns exactly these calls, with their
  arguments, in the order in which they were opened.
\<close>
theorem interleaved_calls_assembled:
  assumes "stream_ok cs es" and "cs \<noteq> []"
  shows "finalize finish_reason (feed (render cs [] es) empty_assembler) = Inr (map (call_of cs) (order_of es))"
proof -
  have ok: "calls_ok cs" and bound: "\<And>e. e \<in> set es \<Longrightarrow> fst e < length cs"
    and sent: "\<And>k. k < length cs \<Longrightarrow> sent k es = call_text cs k"
    using assms by (auto simp: stream_ok_def list_all_iff)
  have start: "asm_of cs [] = empty_assembler" by (simp add: asm_of_def empty_assembler_def slots_of_def order_of_def)
  have fed: "feed (render cs [] es) empty_assembler = asm_of cs es"
    using feed_render [OF ok, of "[]" es "[]"] bound sent start by simp
  note o = order_of_facts [of es]
  let ?iks = "map (\<lambda>i. (i, order_of es ! i)) [0..<length (order_of es)]"
  have in_cs: "order_of es ! i < length cs" if "i < length (order_of es)" for i
    using that o(2) bound by (metis imageE nth_mem)
  have snd: "map snd ?iks = order_of es" by (simp add: comp_def map_nth)
  have slots: "slots_of cs es = map (\<lambda>(i, k). slot_of cs i k (call_text cs k)) ?iks"
    using in_cs sent by (simp add: slots_of_def)
  have "finalize_slots [] (map (\<lambda>(i, k). slot_of cs i k (call_text cs k)) ?iks) = Inr (map (call_of cs \<circ> snd) ?iks)"
    by (rule finalize_planned [OF ok]) (use in_cs o(1) snd in \<open>auto simp: list_all_iff\<close>)
  also have "map (call_of cs \<circ> snd) ?iks = map (call_of cs) (order_of es)" using snd by (metis map_map)
  finally have fin: "finalize_slots [] (slots_of cs es) = Inr (map (call_of cs) (order_of es))" unfolding slots .
  have "map sl_order (slots_of cs es) = [0..<length (order_of es)]" by (simp add: slots_of_def comp_def)
  then have sorted: "sort_key sl_order (slots_of cs es) = slots_of cs es" by (simp add: sort_key_id_if_sorted)
  have "sent 0 es \<noteq> []" using sent [of 0] assms(2) by (simp add: call_text_def json_dumps.simps)
  then have "es \<noteq> []" by (auto simp: sent_def)
  then have "slots_of cs es \<noteq> []" using o(2) by (auto simp: slots_of_def)
  then show ?thesis using fed fin sorted by (simp add: finalize_def asm_of_def)
qed

section \<open>Witnesses\<close>

definition two_calls :: "planned_call list" where
  "two_calls = [\<lparr>pl_index = 0, pl_id = ''c0'', pl_name = ''bash'', pl_args = []\<rparr>,
     \<lparr>pl_index = 3, pl_id = ''c1'', pl_name = ''grep'', pl_args = [(''p'', PyInt 7)]\<rparr>]"

definition two_stream :: "call_event list" where
  "two_stream = [(1, ''{'' @ [CHR 0x22]), (0, []), (1, ''p''), (0, ''{''), (1, [CHR 0x22] @ '':''), (0, ''}''), (1, ''7}''), (0, [])]"

theorem interleaved_calls_assembled_witness:
  "finalize (Some ''tool_calls'') (feed (render two_calls [] two_stream) empty_assembler)
     = Inr [call_of two_calls 1, call_of two_calls 0]"
proof -
  have "stream_ok two_calls two_stream" "two_calls \<noteq> []" by code_simp+
  then have "finalize (Some ''tool_calls'') (feed (render two_calls [] two_stream) empty_assembler)
      = Inr (map (call_of two_calls) (order_of two_stream))" by (rule interleaved_calls_assembled)
  moreover have "order_of two_stream = [1, 0]" by code_simp
  ultimately show ?thesis by simp
qed

theorem assembled_calls_well_formed_witness:
  "\<exists>calls. finalize None (feed [first_chunk (two_calls ! 1) (call_text two_calls 1)] empty_assembler) = Inr calls
     \<and> distinct (map ca_id calls)"
proof -
  let ?a = "feed [first_chunk (two_calls ! 1) (call_text two_calls 1)] empty_assembler"
  have one: "length (as_slots ?a) = 1" "as_invalid_reason ?a = None" by code_simp+
  then obtain s where s: "as_slots ?a = [s]" by (auto simp: length_Suc_conv)
  have "\<not> isl (finalize_slots [] (as_slots ?a))" by code_simp
  then obtain calls where "finalize None ?a = Inr calls"
    using one(2) s by (cases "finalize_slots [] [s]") (auto simp: finalize_def)
  then show ?thesis using assembled_calls_well_formed [of None "[first_chunk (two_calls ! 1) (call_text two_calls 1)]" calls] by auto
qed

end
