(* ===== verification/Contract_Store.thy ===== *)
theory Contract_Store
  imports Perm_Types Complex_Main
begin

text \<open>
  \<^verbatim>\<open>tools/cloud/aliyun/contract_store.py\<close>: the store that hands the contract a user approved over to the
  execution of the tool call, once. A snapshot is first live, may be moved to the recoverable ones when it expires or
  is evicted (its contract is forgotten, the approval is kept), and ends terminal. An \<^verbatim>\<open>OrderedDict\<close> is an
  association list in insertion order. The contract itself is any type; times are rational numbers of seconds; the clock
  reading and the candidate tokens the token factories yield are arguments of the operations that ask for them. The
  critical sections of the lock are the operations.
\<close>

section \<open>Snapshots\<close>

record 'c ResolvedContractSnapshot =
  sn_binding :: InvocationBinding
  sn_contract :: 'c
  sn_security_digest :: string
  sn_execution_class :: ExecutionClass
  sn_authorized_read_paths :: "(string \<times> string) list"

record 'c StoredSnapshot =
  st_snapshot :: "'c ResolvedContractSnapshot"
  st_expires_at :: rat

datatype recovery_state = Evicted | Expired | Recovering

record RecoverableSnapshot =
  rc_binding :: InvocationBinding
  rc_security_digest :: string
  rc_execution_class :: ExecutionClass
  rc_authorized_read_paths :: "(string \<times> string) list"
  rc_state :: recovery_state
  rc_claim_id :: "string option"

record ResolvedContractRecovery =
  rr_binding :: InvocationBinding
  rr_security_digest :: string
  rr_execution_class :: ExecutionClass
  rr_authorized_read_paths :: "(string \<times> string) list"
  rr_claim_id :: string

datatype contract_error =
    ResolvedContractError string "string option"  \<comment> \<open>the message and the lifecycle\<close>
  | GenerationFailed string  \<comment> \<open>the \<^verbatim>\<open>RuntimeError\<close> of the token generators\<close>

record 'c ResolvedContractStore =
  cs_max_entries :: nat
  cs_ttl_seconds :: rat
  cs_entries :: "(string \<times> 'c StoredSnapshot) list"
  cs_recoverable :: "(string \<times> RecoverableSnapshot) list"
  cs_terminal :: "(string \<times> string) list"

definition new_store :: "int \<Rightarrow> rat \<Rightarrow> py_error + 'c ResolvedContractStore" where
  "new_store max_entries ttl_seconds =
     (if max_entries < 1 then Inl (ValueError ''max_entries must be positive'')
      else if ttl_seconds \<le> 0 then Inl (ValueError ''ttl_seconds must be positive'')
      else Inr \<lparr>cs_max_entries = nat max_entries, cs_ttl_seconds = ttl_seconds,
        cs_entries = [], cs_recoverable = [], cs_terminal = []\<rparr>)"

section \<open>Internal operations\<close>

lemma dict_del_length: "k \<in> fst ` set d \<Longrightarrow> length (dict_del k d) < length d"
proof (induction d)
  case (Cons p d)
  then show ?case by (cases p) force
qed simp

lemma find_fst_in: "find P d = Some (k, v) \<Longrightarrow> k \<in> fst ` set d"
  by (auto simp: find_Some_iff image_iff) (metis fst_conv nth_mem)

function make_room :: "nat \<Rightarrow> (string \<times> RecoverableSnapshot) list \<Rightarrow> bool \<times> (string \<times> RecoverableSnapshot) list" where
  \<comment> \<open>the loop of \<^verbatim>\<open>_remember_recoverable\<close>\<close>
  "make_room max_entries r =
     (if max_entries \<le> length r then
        (case find (\<lambda>(key, v). rc_state v \<noteq> Recovering) r of
           None \<Rightarrow> (False, r)
         | Some (removable, v) \<Rightarrow> make_room max_entries (dict_del removable r))
      else (True, r))"
  by pat_completeness auto
termination by (relation "measure (length \<circ> snd)") (auto intro: dict_del_length dest: find_fst_in)

declare make_room.simps [simp del]

definition remember_recoverable :: "string \<Rightarrow> 'c ResolvedContractSnapshot \<Rightarrow> recovery_state \<Rightarrow> 'c ResolvedContractStore
    \<Rightarrow> bool \<times> 'c ResolvedContractStore" where
  "remember_recoverable snapshot_id snapshot state s =
     (if snapshot_id \<in> fst ` set (cs_terminal s) then (False, s)
      else
        case make_room (cs_max_entries s) (dict_del snapshot_id (cs_recoverable s)) of
          (False, r) \<Rightarrow> (False, s\<lparr>cs_recoverable := r\<rparr>)
        | (True, r) \<Rightarrow>
            (True, s\<lparr>cs_recoverable := dict_set snapshot_id
               \<lparr>rc_binding = sn_binding snapshot, rc_security_digest = sn_security_digest snapshot,
                rc_execution_class = sn_execution_class snapshot,
                rc_authorized_read_paths = sn_authorized_read_paths snapshot,
                rc_state = state, rc_claim_id = None\<rparr> r\<rparr>))"

definition pop_entry :: "string \<Rightarrow> 'c ResolvedContractStore \<Rightarrow> 'c ResolvedContractStore" where
  "pop_entry snapshot_id s = s\<lparr>cs_entries := dict_del snapshot_id (cs_entries s)\<rparr>"

definition retire_entry :: "string \<Rightarrow> 'c ResolvedContractSnapshot \<Rightarrow> recovery_state \<Rightarrow> 'c ResolvedContractStore
    \<Rightarrow> bool \<times> 'c ResolvedContractStore" where
  \<comment> \<open>\<^verbatim>\<open>if self._remember_recoverable(key, snapshot, state=...): self._entries.pop(key, None)\<close>\<close>
  "retire_entry snapshot_id snapshot state s =
     (case remember_recoverable snapshot_id snapshot state s of
        (False, s1) \<Rightarrow> (False, s1) | (True, s1) \<Rightarrow> (True, pop_entry snapshot_id s1))"

fun trim_terminal :: "nat \<Rightarrow> (string \<times> string) list \<Rightarrow> (string \<times> string) list" where
  "trim_terminal max_entries [] = []"
| "trim_terminal max_entries (p # t) = (if max_entries < length (p # t) then trim_terminal max_entries t else p # t)"

definition remember_terminal :: "string \<Rightarrow> string \<Rightarrow> 'c ResolvedContractStore \<Rightarrow> 'c ResolvedContractStore" where
  "remember_terminal snapshot_id state s =
     s\<lparr>cs_entries := dict_del snapshot_id (cs_entries s), cs_recoverable := dict_del snapshot_id (cs_recoverable s),
       cs_terminal := trim_terminal (cs_max_entries s) (dict_set snapshot_id state (dict_del snapshot_id (cs_terminal s)))\<rparr>"

definition remove_expired :: "rat \<Rightarrow> 'c ResolvedContractStore \<Rightarrow> 'c ResolvedContractStore" where
  "remove_expired now s =
     (let expired = map fst (filter (\<lambda>(key, v). st_expires_at v \<le> now) (cs_entries s)) in
      fold (\<lambda>key s'. case map_of (cs_entries s') key of
          None \<Rightarrow> s'
        | Some stored \<Rightarrow> snd (retire_entry key (st_snapshot stored) Expired s')) expired s)"

definition validate_approval :: "string \<Rightarrow> InvocationBinding \<Rightarrow> string \<Rightarrow> InvocationBinding \<Rightarrow> string
    \<Rightarrow> 'c ResolvedContractStore \<Rightarrow> contract_error option \<times> 'c ResolvedContractStore" where
  "validate_approval snapshot_id binding security_digest approved_binding approved_digest s =
     (if approved_binding \<noteq> binding then
        (Some (ResolvedContractError ''snapshot_binding_mismatch'' (Some ''rejected'')),
         remember_terminal snapshot_id ''rejected'' s)
      else if approved_digest \<noteq> security_digest then
        (Some (ResolvedContractError ''snapshot_digest_mismatch'' (Some ''rejected'')),
         remember_terminal snapshot_id ''rejected'' s)
      else (None, s))"

definition unique_token :: "string list \<Rightarrow> 'c ResolvedContractStore \<Rightarrow> string option" where
  "unique_token candidates s =
     find (\<lambda>c. c \<noteq> [] \<and> c \<notin> fst ` set (cs_entries s) \<and> c \<notin> fst ` set (cs_recoverable s)
         \<and> c \<notin> fst ` set (cs_terminal s)) (take 16 candidates)"

definition unique_claim_token :: "string list \<Rightarrow> 'c ResolvedContractStore \<Rightarrow> string option" where
  "unique_claim_token candidates s =
     find (\<lambda>c. c \<noteq> [] \<and> Some c \<notin> rc_claim_id ` snd ` set (cs_recoverable s)) (take 16 candidates)"

definition claim_recovery :: "string list \<Rightarrow> string \<Rightarrow> RecoverableSnapshot \<Rightarrow> 'c ResolvedContractStore
    \<Rightarrow> (contract_error + ResolvedContractRecovery) \<times> 'c ResolvedContractStore" where
  "claim_recovery claims snapshot_id recoverable s =
     (case unique_claim_token claims s of
        None \<Rightarrow> (Inl (GenerationFailed ''snapshot_claim_generation_failed''), s)
      | Some claim_id \<Rightarrow>
          let claimed = recoverable\<lparr>rc_state := Recovering, rc_claim_id := Some claim_id\<rparr> in
          (Inr \<lparr>rr_binding = rc_binding claimed, rr_security_digest = rc_security_digest claimed,
                rr_execution_class = rc_execution_class claimed,
                rr_authorized_read_paths = rc_authorized_read_paths claimed, rr_claim_id = claim_id\<rparr>,
           s\<lparr>cs_recoverable := dict_del snapshot_id (cs_recoverable s) @ [(snapshot_id, claimed)]\<rparr>))"

definition holds_claim :: "string \<Rightarrow> RecoverableSnapshot option \<Rightarrow> bool" where
  \<comment> \<open>the recovery is under way under this claim\<close>
  "holds_claim claim_id r =
     (case r of None \<Rightarrow> False | Some rc \<Rightarrow> rc_state rc = Recovering \<and> rc_claim_id rc = Some claim_id)"

section \<open>The interface\<close>

definition store_size :: "rat \<Rightarrow> 'c ResolvedContractStore \<Rightarrow> nat \<times> 'c ResolvedContractStore" where
  "store_size now s = (let s1 = remove_expired now s in (length (cs_entries s1), s1))"

fun evict :: "nat \<Rightarrow> 'c ResolvedContractStore \<Rightarrow> contract_error option \<times> 'c ResolvedContractStore" where
  \<comment> \<open>the loop of \<^verbatim>\<open>create\<close>; every round takes one entry away, so that as many rounds as there are entries are enough\<close>
  "evict 0 s = (None, s)"
| "evict (Suc fuel) s =
     (if cs_max_entries s \<le> length (cs_entries s) then
        (case cs_entries s of
           [] \<Rightarrow> (None, s)
         | (evicted_id, evicted) # _ \<Rightarrow>
             (case retire_entry evicted_id (st_snapshot evicted) Evicted s of
                (False, s1) \<Rightarrow> (Some (ResolvedContractError ''snapshot_capacity_exhausted'' None), s1)
              | (True, s1) \<Rightarrow> evict fuel s1))
      else (None, s))"

definition create_snapshot :: "rat \<Rightarrow> string list \<Rightarrow> 'c ResolvedContractSnapshot \<Rightarrow> 'c ResolvedContractStore
    \<Rightarrow> (contract_error + string) \<times> 'c ResolvedContractStore" where
  "create_snapshot now tokens snapshot s =
     (let s1 = remove_expired now s in
      case evict (length (cs_entries s1)) s1 of
        (Some e, s2) \<Rightarrow> (Inl e, s2)
      | (None, s2) \<Rightarrow>
          (case unique_token tokens s2 of
             None \<Rightarrow> (Inl (GenerationFailed ''snapshot_id_generation_failed''), s2)
           | Some snapshot_id \<Rightarrow>
               (Inr snapshot_id, s2\<lparr>cs_entries := dict_set snapshot_id
                  \<lparr>st_snapshot = snapshot, st_expires_at = now + cs_ttl_seconds s2\<rparr> (cs_entries s2)\<rparr>)))"

datatype 'c consumed = Snapshot "'c ResolvedContractSnapshot" | Recovery ResolvedContractRecovery

definition consume :: "rat \<Rightarrow> string list \<Rightarrow> string \<Rightarrow> InvocationBinding \<Rightarrow> string \<Rightarrow> 'c ResolvedContractStore
    \<Rightarrow> (contract_error + 'c consumed) \<times> 'c ResolvedContractStore" where
  "consume now claims snapshot_id binding security_digest s =
     (case map_of (cs_entries s) snapshot_id of
        Some stored \<Rightarrow>
          let snapshot = st_snapshot stored in
          (case validate_approval snapshot_id binding security_digest (sn_binding snapshot) (sn_security_digest snapshot) s of
             (Some e, s1) \<Rightarrow> (Inl e, s1)
           | (None, s1) \<Rightarrow>
               if st_expires_at stored \<le> now then
                 (case retire_entry snapshot_id snapshot Expired s1 of
                    (False, s2) \<Rightarrow> (Inl (ResolvedContractError ''snapshot_capacity_exhausted'' (Some ''expired'')), s2)
                  | (True, s2) \<Rightarrow>
                      map_prod (map_sum id Recovery) id
                        (claim_recovery claims snapshot_id (the (map_of (cs_recoverable s2) snapshot_id)) s2))
               else (Inr (Snapshot snapshot), remember_terminal snapshot_id ''consumed'' (pop_entry snapshot_id s1)))
      | None \<Rightarrow>
          (case map_of (cs_recoverable s) snapshot_id of
             Some recoverable \<Rightarrow>
               if rc_state recoverable = Recovering
               then (Inl (ResolvedContractError ''snapshot_not_found'' (Some ''recovering'')), s)
               else
                 (case validate_approval snapshot_id binding security_digest (rc_binding recoverable)
                         (rc_security_digest recoverable) s of
                    (Some e, s1) \<Rightarrow> (Inl e, s1)
                  | (None, s1) \<Rightarrow> map_prod (map_sum id Recovery) id (claim_recovery claims snapshot_id recoverable s1))
           | None \<Rightarrow>
               (case map_of (cs_terminal s) snapshot_id of
                  Some lifecycle \<Rightarrow>
                    (Inl (ResolvedContractError ''snapshot_not_found'' (Some lifecycle)),
                     remember_terminal snapshot_id ''replayed'' s)
                | None \<Rightarrow> (Inl (ResolvedContractError ''snapshot_not_found'' None), s))))"

definition complete_recovery :: "string \<Rightarrow> string \<Rightarrow> InvocationBinding \<Rightarrow> string \<Rightarrow> ExecutionClass
    \<Rightarrow> 'c ResolvedContractStore \<Rightarrow> contract_error option \<times> 'c ResolvedContractStore" where
  "complete_recovery snapshot_id claim_id binding security_digest execution_class s =
     (let recoverable = map_of (cs_recoverable s) snapshot_id in
      if \<not> holds_claim claim_id recoverable then
        (Some (ResolvedContractError ''snapshot_not_found'' (map_of (cs_terminal s) snapshot_id)), s)
      else
        let rc = the recoverable in
        case validate_approval snapshot_id binding security_digest (rc_binding rc) (rc_security_digest rc) s of
          (Some e, s1) \<Rightarrow> (Some e, s1)
        | (None, s1) \<Rightarrow>
            let s2 = s1\<lparr>cs_recoverable := dict_del snapshot_id (cs_recoverable s1)\<rparr> in
            if rc_execution_class rc \<noteq> execution_class then
              (Some (ResolvedContractError ''snapshot_execution_class_mismatch'' (Some ''rejected'')),
               remember_terminal snapshot_id ''rejected'' s2)
            else (None, remember_terminal snapshot_id ''consumed'' s2))"

definition terminalize_pending :: "string \<Rightarrow> string \<Rightarrow> 'c ResolvedContractStore \<Rightarrow> 'c ResolvedContractStore" where
  "terminalize_pending snapshot_id state s =
     (let was_live = map_of (cs_entries s) snapshot_id \<noteq> None;
          s1 = pop_entry snapshot_id s
      in case map_of (cs_recoverable s1) snapshot_id of
           Some rc \<Rightarrow>
             if rc_state rc \<noteq> Recovering
             then remember_terminal snapshot_id state (s1\<lparr>cs_recoverable := dict_del snapshot_id (cs_recoverable s1)\<rparr>)
             else if was_live then remember_terminal snapshot_id state s1 else s1
         | None \<Rightarrow> if was_live then remember_terminal snapshot_id state s1 else s1)"

definition terminalize_recovery :: "string \<Rightarrow> string \<Rightarrow> string \<Rightarrow> 'c ResolvedContractStore \<Rightarrow> 'c ResolvedContractStore" where
  "terminalize_recovery snapshot_id claim_id state s =
     (if \<not> holds_claim claim_id (map_of (cs_recoverable s) snapshot_id) then s
      else remember_terminal snapshot_id state (s\<lparr>cs_recoverable := dict_del snapshot_id (cs_recoverable s)\<rparr>))"

definition cancel_snapshot :: "string \<Rightarrow> 'c ResolvedContractStore \<Rightarrow> 'c ResolvedContractStore" where
  "cancel_snapshot snapshot_id s = terminalize_pending snapshot_id ''cancelled'' s"

definition reject_snapshot :: "string \<Rightarrow> 'c ResolvedContractStore \<Rightarrow> 'c ResolvedContractStore" where
  "reject_snapshot snapshot_id s = terminalize_pending snapshot_id ''rejected'' s"

definition cancel_recovery :: "string \<Rightarrow> string \<Rightarrow> 'c ResolvedContractStore \<Rightarrow> 'c ResolvedContractStore" where
  "cancel_recovery snapshot_id claim_id s = terminalize_recovery snapshot_id claim_id ''cancelled'' s"

definition reject_recovery :: "string \<Rightarrow> string \<Rightarrow> 'c ResolvedContractStore \<Rightarrow> 'c ResolvedContractStore" where
  "reject_recovery snapshot_id claim_id s = terminalize_recovery snapshot_id claim_id ''rejected'' s"

definition is_pending :: "rat \<Rightarrow> string \<Rightarrow> 'c ResolvedContractStore \<Rightarrow> bool \<times> 'c ResolvedContractStore" where
  "is_pending now snapshot_id s =
     (let s1 = (case map_of (cs_entries s) snapshot_id of
          Some stored \<Rightarrow>
            if st_expires_at stored \<le> now then snd (retire_entry snapshot_id (st_snapshot stored) Expired s) else s
        | None \<Rightarrow> s)
      in (snapshot_id \<in> fst ` set (cs_entries s1) \<or> snapshot_id \<in> fst ` set (cs_recoverable s1), s1))"

section \<open>The invariant\<close>

definition disjoint_keys :: "('k \<times> 'v) list \<Rightarrow> ('k \<times> 'w) list \<Rightarrow> bool" where
  "disjoint_keys d e = (fst ` set d \<inter> fst ` set e = {})"

definition store_ok :: "'c ResolvedContractStore \<Rightarrow> bool" where
  "store_ok s =
     (0 < cs_max_entries s
      \<and> distinct (map fst (cs_entries s)) \<and> distinct (map fst (cs_recoverable s)) \<and> distinct (map fst (cs_terminal s))
      \<and> disjoint_keys (cs_entries s) (cs_recoverable s) \<and> disjoint_keys (cs_entries s) (cs_terminal s)
      \<and> disjoint_keys (cs_recoverable s) (cs_terminal s)
      \<and> length (cs_entries s) \<le> cs_max_entries s \<and> length (cs_recoverable s) \<le> cs_max_entries s
      \<and> length (cs_terminal s) \<le> cs_max_entries s)"

type_synonym approval = "InvocationBinding \<times> string \<times> ExecutionClass"

definition approval_of :: "'c ResolvedContractStore \<Rightarrow> string \<Rightarrow> approval option" where
  \<comment> \<open>what the user approved under a snapshot that is still pending\<close>
  "approval_of s snapshot_id =
     (case map_of (cs_entries s) snapshot_id of
        Some st \<Rightarrow> Some (sn_binding (st_snapshot st), sn_security_digest (st_snapshot st), sn_execution_class (st_snapshot st))
      | None \<Rightarrow> map_option (\<lambda>r. (rc_binding r, rc_security_digest r, rc_execution_class r)) (map_of (cs_recoverable s) snapshot_id))"

definition fades :: "'c ResolvedContractStore \<Rightarrow> 'c ResolvedContractStore \<Rightarrow> bool" where
  \<comment> \<open>a step that approves nothing new\<close>
  "fades s s' \<longleftrightarrow> store_ok s' \<and> approval_of s' \<subseteq>\<^sub>m approval_of s
     \<and> cs_max_entries s' = cs_max_entries s \<and> cs_ttl_seconds s' = cs_ttl_seconds s"

lemma fades_refl: "store_ok s \<Longrightarrow> fades s s"
  by (simp add: fades_def)

lemma fades_trans: "fades s s1 \<Longrightarrow> fades s1 s2 \<Longrightarrow> fades s s2"
  by (auto simp: fades_def intro: map_le_trans)

lemma fades_None: "fades s s' \<Longrightarrow> approval_of s i = None \<Longrightarrow> approval_of s' i = None"
  by (force simp: fades_def map_le_def)

lemma dict_del_id: "k \<notin> fst ` set d \<Longrightarrow> dict_del k d = d"
  by (induction d) auto

lemma dict_del_length_le: "length (dict_del k d) \<le> length d"
  by (induction d) auto

lemma fst_dict_del: "distinct (map fst d) \<Longrightarrow> fst ` set (dict_del k d) = fst ` set d - {k}"
  using keys_dict_del [of d k] by simp

lemma map_of_key: "map_of d k = None \<longleftrightarrow> k \<notin> fst ` set d"
  by (rule map_of_eq_None_iff)

lemma map_of_keyD: "map_of d k = Some v \<Longrightarrow> k \<in> fst ` set d"
  by (metis map_of_eq_None_iff option.discI)

lemma dict_set_length: "length (dict_set k v d) = (if k \<in> fst ` set d then length d else Suc (length d))"
  using arg_cong [OF fst_dict_set_keys [of k v d], of length] by (simp split: if_splits)

lemma trim_terminal_length: "length (trim_terminal n t) \<le> n"
  by (induction t) auto

lemma trim_terminal_suffix: "\<exists>u. t = u @ trim_terminal n t"
proof (induction t)
  case (Cons p t)
  then obtain u where "t = u @ trim_terminal n t" by blast
  then show ?case by (cases "n < length (p # t)") (auto intro: exI [of _ "p # u"])
qed simp

lemma trim_terminal_keys:
  "fst ` set (trim_terminal n t) \<subseteq> fst ` set t" "distinct (map fst t) \<Longrightarrow> distinct (map fst (trim_terminal n t))"
  using trim_terminal_suffix [of t n] by (metis image_mono set_append sup_ge2, metis distinct_append map_append)

lemma disjoint_keys_sub:
  "disjoint_keys d e \<Longrightarrow> fst ` set d' \<subseteq> fst ` set d \<Longrightarrow> fst ` set e' \<subseteq> fst ` set e \<Longrightarrow> disjoint_keys d' e'"
  unfolding disjoint_keys_def by blast

lemma disjoint_keys_moved:
  "disjoint_keys d e \<Longrightarrow> i \<notin> fst ` set d' \<Longrightarrow> fst ` set d' \<subseteq> fst ` set d \<Longrightarrow> fst ` set e' \<subseteq> insert i (fst ` set e)
   \<Longrightarrow> disjoint_keys d' e'"
  unfolding disjoint_keys_def by blast

lemma disjoint_keys_sym: "disjoint_keys d e \<Longrightarrow> disjoint_keys e d"
  unfolding disjoint_keys_def by blast

lemma make_room_spec:
  assumes "make_room n r = (ok, r')" and "distinct (map fst r)"
  shows "distinct (map fst r') \<and> map_of r' \<subseteq>\<^sub>m map_of r \<and> length r' \<le> length r \<and> (ok \<longrightarrow> length r' < n)"
  using assms
proof (induction n r arbitrary: ok r' rule: make_room.induct)
  case (1 n r)
  show ?case
  proof (cases "n \<le> length r")
    case True
    show ?thesis
    proof (cases "find (\<lambda>(key, v). rc_state v \<noteq> Recovering) r")
      case None
      then show ?thesis using 1(2,3) True by (simp add: make_room.simps [of n r])
    next
      case (Some p)
      obtain k v where p: "p = (k, v)" by (cases p)
      have "make_room n (dict_del k r) = (ok, r')" using 1(2) True Some p by (simp add: make_room.simps [of n r])
      note ih = 1(1) [OF True Some p [symmetric] this distinct_dict_del [OF 1(3)]]
      have "map_of (dict_del k r) \<subseteq>\<^sub>m map_of r" using 1(3) by (simp add: map_of_dict_del map_le_def)
      then show ?thesis using ih dict_del_length_le [of k r] by (auto intro: map_le_trans)
    qed
  next
    case False
    then show ?thesis using 1(2,3) by (auto simp: make_room.simps [of n r])
  qed
qed

lemma remember_terminal_ok:
  assumes "store_ok s"
  shows "fades s (remember_terminal i state s)" "approval_of (remember_terminal i state s) = (approval_of s)(i := None)"
proof -
  let ?s = "remember_terminal i state s" and ?t = "dict_set i state (dict_del i (cs_terminal s))"
  have keys: "fst ` set (cs_terminal ?s) \<subseteq> insert i (fst ` set (cs_terminal s))"
    using trim_terminal_keys(1) [of "cs_max_entries s" ?t] assms
    by (auto simp: remember_terminal_def store_ok_def fst_dict_set fst_dict_del)
  have dist: "distinct (map fst (cs_terminal ?s))"
    using assms by (simp add: remember_terminal_def store_ok_def trim_terminal_keys(2) distinct_dict_set distinct_dict_del)
  show upd: "approval_of ?s = (approval_of s)(i := None)"
    using assms by (auto simp: fun_eq_iff approval_of_def remember_terminal_def store_ok_def map_of_dict_del split: option.splits)
  have rest: "fst ` set (cs_entries ?s) = fst ` set (cs_entries s) - {i}"
    "fst ` set (cs_recoverable ?s) = fst ` set (cs_recoverable s) - {i}"
    using assms by (simp_all add: remember_terminal_def store_ok_def fst_dict_del)
  have dk: "disjoint_keys (cs_entries s) (cs_recoverable s)" "disjoint_keys (cs_entries s) (cs_terminal s)"
    "disjoint_keys (cs_recoverable s) (cs_terminal s)"
    using assms by (simp_all add: store_ok_def)
  have "disjoint_keys (cs_entries ?s) (cs_recoverable ?s)"
    by (rule disjoint_keys_sub [OF dk(1)]) (simp_all add: rest)
  moreover have "disjoint_keys (cs_entries ?s) (cs_terminal ?s)"
    by (rule disjoint_keys_moved [OF dk(2), of i]) (simp_all add: rest keys)
  moreover have "disjoint_keys (cs_recoverable ?s) (cs_terminal ?s)"
    by (rule disjoint_keys_moved [OF dk(3), of i]) (simp_all add: rest keys)
  ultimately have "store_ok ?s"
    using assms dist trim_terminal_length [of "cs_max_entries s" ?t]
      dict_del_length_le [of i "cs_entries s"] dict_del_length_le [of i "cs_recoverable s"]
    by (simp add: store_ok_def remember_terminal_def distinct_dict_del)
  then show "fades s ?s"
    using upd by (simp add: fades_def map_le_def remember_terminal_def)
qed

lemma retire_entry_ok:
  assumes "store_ok s" and entry: "map_of (cs_entries s) i = Some st" and eq: "retire_entry i (st_snapshot st) state s = (ok, s')"
  shows "fades s s'" and "ok \<Longrightarrow> cs_entries s' = dict_del i (cs_entries s)"
    and "ok \<Longrightarrow> approval_of s' i = approval_of s i" and "ok \<Longrightarrow> map_of (cs_recoverable s') i \<noteq> None"
    and "\<not> ok \<Longrightarrow> cs_entries s' = cs_entries s"
proof -
  have i: "i \<in> fst ` set (cs_entries s)" using entry by (rule map_of_keyD)
  have new: "i \<notin> fst ` set (cs_terminal s)" "i \<notin> fst ` set (cs_recoverable s)"
    using assms(1) i by (auto simp: store_ok_def disjoint_keys_def)
  obtain b r where room: "make_room (cs_max_entries s) (cs_recoverable s) = (b, r)" by fastforce
  have "distinct (map fst (cs_recoverable s))" using assms(1) by (simp add: store_ok_def)
  note r = make_room_spec [OF room this]
  have sub: "fst ` set r \<subseteq> fst ` set (cs_recoverable s)"
    using r by (metis dom_map_of_conv_image_fst map_le_implies_dom_le)
  have s': "(ok, s') = (b, if b then s\<lparr>cs_recoverable := dict_set i
      \<lparr>rc_binding = sn_binding (st_snapshot st), rc_security_digest = sn_security_digest (st_snapshot st),
       rc_execution_class = sn_execution_class (st_snapshot st),
       rc_authorized_read_paths = sn_authorized_read_paths (st_snapshot st),
       rc_state = state, rc_claim_id = None\<rparr> r, cs_entries := dict_del i (cs_entries s)\<rparr> else s\<lparr>cs_recoverable := r\<rparr>)"
    using eq new room by (simp add: retire_entry_def remember_recoverable_def pop_entry_def dict_del_id split: prod.splits bool.splits if_splits)
  then show "ok \<Longrightarrow> cs_entries s' = dict_del i (cs_entries s)" "ok \<Longrightarrow> map_of (cs_recoverable s') i \<noteq> None"
    "\<not> ok \<Longrightarrow> cs_entries s' = cs_entries s"
    by auto
  show "ok \<Longrightarrow> approval_of s' i = approval_of s i"
    using s' entry assms(1) by (simp add: approval_of_def map_of_dict_del store_ok_def)
  have ir: "i \<notin> fst ` set r" using sub new by blast
  have ok: "store_ok s" by (rule assms(1))
  have keys: "fst ` set (dict_set i v r) = insert i (fst ` set r)" for v :: RecoverableSnapshot by (rule fst_dict_set)
  have del: "fst ` set (dict_del i (cs_entries s)) = fst ` set (cs_entries s) - {i}"
    using ok by (simp add: store_ok_def fst_dict_del)
  have dk: "disjoint_keys (cs_entries s) (cs_recoverable s)" "disjoint_keys (cs_entries s) (cs_terminal s)"
    "disjoint_keys (cs_recoverable s) (cs_terminal s)"
    using assms by (simp_all add: store_ok_def)
  have less: "fst ` set (cs_entries s') \<subseteq> fst ` set (cs_entries s)" "cs_terminal s' = cs_terminal s"
    using s' del by (auto split: if_splits)
  have rec: "fst ` set (cs_recoverable s') \<subseteq> insert i (fst ` set (cs_recoverable s))"
    using s' sub keys by (auto split: if_splits)
  have "disjoint_keys (cs_entries s') (cs_recoverable s')"
  proof (cases b)
    case True
    show ?thesis by (rule disjoint_keys_moved [OF dk(1) _ less(1) rec]) (use True s' del in simp)
  next
    case False
    show ?thesis by (rule disjoint_keys_sub [OF dk(1) less(1)]) (use False s' sub in simp)
  qed
  moreover have "disjoint_keys (cs_entries s') (cs_terminal s')"
    by (rule disjoint_keys_sub [OF dk(2) less(1)]) (simp add: less)
  moreover have "disjoint_keys (cs_recoverable s') (cs_terminal s')"
    by (rule disjoint_keys_sym, rule disjoint_keys_moved [OF disjoint_keys_sym [OF dk(3)] _ _ rec]) (use new less in simp_all)
  ultimately have "store_ok s'"
    using s' r ir ok dict_del_length_le [of i "cs_entries s"]
    by (auto simp: store_ok_def distinct_dict_del distinct_dict_set dict_set_length split: if_splits)
  moreover have "approval_of s' \<subseteq>\<^sub>m approval_of s"
    unfolding map_le_def
  proof
    fix j assume j: "j \<in> dom (approval_of s')"
    show "approval_of s' j = approval_of s j"
    proof (cases "j = i")
      case False
      have rj: "map_of r j = Some x \<Longrightarrow> map_of (cs_recoverable s) j = Some x" for x
        using r by (force simp: map_le_def)
      show ?thesis using False j s' rj assms(1)
        by (auto simp: approval_of_def map_of_dict_del store_ok_def split: option.splits if_splits)
    qed (use s' entry assms(1) in \<open>auto simp: approval_of_def map_of_dict_del store_ok_def split: if_splits\<close>)
  qed
  ultimately show "fades s s'" using s' by (auto simp: fades_def split: if_splits)
qed

lemma remove_expired_ok:
  assumes "store_ok s"
  shows "fades s (remove_expired now s)"
proof -
  have "fades s (fold (\<lambda>key s'. case map_of (cs_entries s') key of None \<Rightarrow> s'
      | Some stored \<Rightarrow> snd (retire_entry key (st_snapshot stored) Expired s')) keys s1)" if "fades s s1" for keys s1
    using that
  proof (induction keys arbitrary: s1)
    case (Cons key keys)
    have ok: "store_ok s1" using Cons.prems by (simp add: fades_def)
    show ?case
    proof (cases "map_of (cs_entries s1) key")
      case None
      then show ?thesis using Cons by simp
    next
      case (Some stored)
      obtain b s2 where r: "retire_entry key (st_snapshot stored) Expired s1 = (b, s2)" by fastforce
      have "fades s s2" by (rule fades_trans [OF Cons.prems retire_entry_ok(1) [OF ok Some r]])
      then show ?thesis using Cons.IH [of s2] Some r by simp
    qed
  qed simp
  then show ?thesis using fades_refl [OF assms] by (simp add: remove_expired_def Let_def)
qed

lemma evict_ok:
  assumes "store_ok s" "evict fuel s = (e, s')" "length (cs_entries s) \<le> fuel"
  shows "fades s s' \<and> (e = None \<longrightarrow> length (cs_entries s') < cs_max_entries s')"
  using assms
proof (induction fuel arbitrary: s)
  case 0
  then show ?case using fades_refl [OF 0(1)] by (simp add: store_ok_def)
next
  case (Suc fuel)
  show ?case
  proof (cases "cs_max_entries s \<le> length (cs_entries s)")
    case True
    then obtain i st rest where en: "cs_entries s = (i, st) # rest"
      using Suc.prems(1) by (cases "cs_entries s") (auto simp: store_ok_def)
    obtain b s1 where r: "retire_entry i (st_snapshot st) Evicted s = (b, s1)" by fastforce
    have live: "map_of (cs_entries s) i = Some st" using en by simp
    note retire = retire_entry_ok [OF Suc.prems(1) live r]
    show ?thesis
    proof (cases b)
      case True
      have "fades s1 s' \<and> (e = None \<longrightarrow> length (cs_entries s') < cs_max_entries s')"
        using Suc.prems \<open>cs_max_entries s \<le> length (cs_entries s)\<close> en r True retire(1,2)
        by (intro Suc.IH) (simp_all add: fades_def)
      then show ?thesis using fades_trans [OF retire(1)] by blast
    next
      case False
      then show ?thesis using Suc.prems(2) \<open>cs_max_entries s \<le> length (cs_entries s)\<close> en r retire(1) by auto
    qed
  next
    case False
    then show ?thesis using Suc.prems fades_refl by auto
  qed
qed

lemma validate_approval_ok:
  assumes "store_ok s" and v: "validate_approval i b d b' d' s = (e, s')"
  shows "fades s s'" and "e = None \<Longrightarrow> b = b' \<and> d = d' \<and> s' = s"
  using v remember_terminal_ok(1) [OF assms(1)] fades_refl [OF assms(1)]
  by (auto simp: validate_approval_def split: if_splits)

lemma claim_recovery_ok:
  assumes "store_ok s" "map_of (cs_entries s) i = None" "map_of (cs_recoverable s) i = Some rc"
    and c: "claim_recovery claims i rc s = (x, s')"
  shows "fades s s'"
proof (cases "unique_claim_token claims s")
  case None
  then show ?thesis using c fades_refl [OF assms(1)] by (simp add: claim_recovery_def)
next
  case (Some t)
  let ?r = "dict_del i (cs_recoverable s) @ [(i, rc\<lparr>rc_state := Recovering, rc_claim_id := Some t\<rparr>)]"
  have s': "s' = s\<lparr>cs_recoverable := ?r\<rparr>" using c Some by (simp add: claim_recovery_def Let_def)
  have i: "i \<in> fst ` set (cs_recoverable s)" using assms(3) by (rule map_of_keyD)
  have dist: "distinct (map fst (cs_recoverable s))" using assms(1) by (simp add: store_ok_def)
  have keys: "fst ` set ?r = fst ` set (cs_recoverable s)" using i dist by (auto simp: fst_dict_del)
  have "distinct (map fst ?r)" using dist by (simp add: distinct_dict_del fst_dict_del)
  moreover have "length ?r \<le> cs_max_entries s"
    using assms(1) dict_del_length [OF i] by (simp add: store_ok_def)
  moreover have dk: "disjoint_keys (cs_entries s) (cs_recoverable s)" "disjoint_keys (cs_recoverable s) (cs_terminal s)"
    using assms(1) by (simp_all add: store_ok_def)
  have "disjoint_keys (cs_entries s) ?r" by (rule disjoint_keys_sub [OF dk(1)]) (simp_all only: keys order_refl)
  moreover have "disjoint_keys ?r (cs_terminal s)" by (rule disjoint_keys_sub [OF dk(2)]) (simp_all only: keys order_refl)
  ultimately have "store_ok s'" using assms(1) s' by (simp add: store_ok_def)
  moreover have "approval_of s' = approval_of s"
    using s' dist assms(2,3) by (auto simp: fun_eq_iff approval_of_def map_of_dict_del map_add_def split: option.splits)
  ultimately show ?thesis using s' by (simp add: fades_def)
qed

section \<open>Runs\<close>

datatype 'c contract_op =
    Create rat "string list" "'c ResolvedContractSnapshot"
  | Consume rat "string list" string InvocationBinding string
  | Complete_Recovery string string InvocationBinding string ExecutionClass
  | Cancel string
  | Reject string
  | Cancel_Recovery string string
  | Reject_Recovery string string
  | Is_Pending rat string
  | Size rat

datatype contract_event =
    Issued (event_id: string) approval  \<comment> \<open>\<^verbatim>\<open>create\<close> returned the snapshot\<close>
  | Granted (event_id: string) approval  \<comment> \<open>\<^verbatim>\<open>consume\<close> returned the contract, or a recovery was completed\<close>
  | Withdrawn (event_id: string)  \<comment> \<open>the snapshot was cancelled or rejected\<close>

definition under_recovery :: "string \<Rightarrow> 'c ResolvedContractStore \<Rightarrow> bool" where
  "under_recovery i s = (case map_of (cs_recoverable s) i of None \<Rightarrow> False | Some rc \<Rightarrow> rc_state rc = Recovering)"

fun contract_exec :: "'c contract_op \<Rightarrow> 'c ResolvedContractStore \<Rightarrow> contract_event list \<times> 'c ResolvedContractStore" where
  "contract_exec (Create now tokens sn) s =
     (case create_snapshot now tokens sn s of
        (Inr i, s') \<Rightarrow> ([Issued i (sn_binding sn, sn_security_digest sn, sn_execution_class sn)], s')
      | (Inl e, s') \<Rightarrow> ([], s'))"
| "contract_exec (Consume now claims i b d) s =
     (case consume now claims i b d s of
        (Inr (Snapshot sn), s') \<Rightarrow> ([Granted i (b, d, sn_execution_class sn)], s')
      | (_, s') \<Rightarrow> ([], s'))"
| "contract_exec (Complete_Recovery i claim b d cls) s =
     (case complete_recovery i claim b d cls s of (None, s') \<Rightarrow> ([Granted i (b, d, cls)], s') | (Some e, s') \<Rightarrow> ([], s'))"
| "contract_exec (Cancel i) s = (if under_recovery i s then [] else [Withdrawn i], cancel_snapshot i s)"
| "contract_exec (Reject i) s = (if under_recovery i s then [] else [Withdrawn i], reject_snapshot i s)"
| "contract_exec (Cancel_Recovery i claim) s =
     (if holds_claim claim (map_of (cs_recoverable s) i) then [Withdrawn i] else [], cancel_recovery i claim s)"
| "contract_exec (Reject_Recovery i claim) s =
     (if holds_claim claim (map_of (cs_recoverable s) i) then [Withdrawn i] else [], reject_recovery i claim s)"
| "contract_exec (Is_Pending now i) s = ([], snd (is_pending now i s))"
| "contract_exec (Size now) s = ([], snd (store_size now s))"

fun contract_run :: "'c contract_op list \<Rightarrow> 'c ResolvedContractStore \<Rightarrow> contract_event list \<times> 'c ResolvedContractStore" where
  "contract_run [] s = ([], s)"
| "contract_run (op # ops) s =
     (let (es, s1) = contract_exec op s; (es', s2) = contract_run ops s1 in (es @ es', s2))"

text \<open>The approvals that are open after a history of events.\<close>

definition open_event :: "contract_event \<Rightarrow> (string \<rightharpoonup> approval) \<Rightarrow> (string \<rightharpoonup> approval)" where
  "open_event e m = (case e of Issued i a \<Rightarrow> m(i \<mapsto> a) | Granted i a \<Rightarrow> m(i := None) | Withdrawn i \<Rightarrow> m(i := None))"

definition open_approvals :: "contract_event list \<Rightarrow> string \<rightharpoonup> approval" where
  "open_approvals es = fold open_event es Map.empty"

definition kept :: "'c ResolvedContractStore \<Rightarrow> 'c ResolvedContractStore \<Rightarrow> bool" where
  "kept s s' = (store_ok s' \<and> cs_max_entries s' = cs_max_entries s)"

lemma map_le_drop: "m \<subseteq>\<^sub>m m' \<Longrightarrow> m j = None \<Longrightarrow> m \<subseteq>\<^sub>m m'(j := None)"
  by (auto simp: map_le_def)

lemma create_ok:
  assumes "store_ok s" and c: "create_snapshot now tokens sn s = (x, s')"
  shows "kept s s'"
    and "approval_of s' \<subseteq>\<^sub>m (case x of Inl e \<Rightarrow> approval_of s
           | Inr i \<Rightarrow> (approval_of s)(i \<mapsto> (sn_binding sn, sn_security_digest sn, sn_execution_class sn)))"
proof -
  let ?s1 = "remove_expired now s"
  obtain e s2 where ev: "evict (length (cs_entries ?s1)) ?s1 = (e, s2)" by fastforce
  have f1: "fades s ?s1" by (rule remove_expired_ok [OF assms(1)])
  then have "store_ok ?s1" by (simp add: fades_def)
  note ev' = evict_ok [OF this ev order_refl]
  have f: "fades s s2" and room: "e = None \<Longrightarrow> length (cs_entries s2) < cs_max_entries s2"
    using fades_trans [OF f1] ev' by blast+
  have "kept s s' \<and> approval_of s' \<subseteq>\<^sub>m (case x of Inl e \<Rightarrow> approval_of s
           | Inr i \<Rightarrow> (approval_of s)(i \<mapsto> (sn_binding sn, sn_security_digest sn, sn_execution_class sn)))"
  proof (cases "e = None \<and> unique_token tokens s2 \<noteq> None")
    case True
    then obtain i where t: "unique_token tokens s2 = Some i" and e: "e = None" by auto
    have i: "i \<notin> fst ` set (cs_entries s2)" "i \<notin> fst ` set (cs_recoverable s2)" "i \<notin> fst ` set (cs_terminal s2)"
      using find_SomeD [OF t [unfolded unique_token_def]] by simp_all
    have x: "x = Inr i" and s': "s' = s2\<lparr>cs_entries := dict_set i
        \<lparr>st_snapshot = sn, st_expires_at = now + cs_ttl_seconds s2\<rparr> (cs_entries s2)\<rparr>"
      using c ev t e by (simp_all add: create_snapshot_def Let_def)
    have ok: "store_ok s2" using f by (simp add: fades_def)
    have dk: "disjoint_keys (cs_entries s2) (cs_recoverable s2)" "disjoint_keys (cs_entries s2) (cs_terminal s2)"
      using ok by (simp_all add: store_ok_def)
    have keys: "fst ` set (cs_entries s') \<subseteq> insert i (fst ` set (cs_entries s2))" using s' by (simp add: fst_dict_set)
    have "disjoint_keys (cs_recoverable s2) (cs_entries s')"
      by (rule disjoint_keys_moved [OF disjoint_keys_sym [OF dk(1)] i(2) order_refl keys])
    moreover have "disjoint_keys (cs_terminal s2) (cs_entries s')"
      by (rule disjoint_keys_moved [OF disjoint_keys_sym [OF dk(2)] i(3) order_refl keys])
    ultimately have "store_ok s'" using ok s' room e i(1)
      by (simp add: store_ok_def distinct_dict_set dict_set_length disjoint_keys_sym)
    moreover have "approval_of s' = (approval_of s2)(i \<mapsto> (sn_binding sn, sn_security_digest sn, sn_execution_class sn))"
      using s' by (auto simp: fun_eq_iff approval_of_def split: option.splits)
    ultimately show ?thesis using f x s' by (auto simp: fades_def kept_def map_le_def)
  next
    case False
    then have "s' = s2 \<and> (\<exists>e. x = Inl e)"
      using c ev by (auto simp: create_snapshot_def Let_def split: option.splits)
    then show ?thesis using f by (auto simp: fades_def kept_def)
  qed
  then show "kept s s'" and "approval_of s' \<subseteq>\<^sub>m (case x of Inl e \<Rightarrow> approval_of s
           | Inr i \<Rightarrow> (approval_of s)(i \<mapsto> (sn_binding sn, sn_security_digest sn, sn_execution_class sn)))"
    by blast+
qed

lemma store_ok_pop: "store_ok s \<Longrightarrow> map_of (cs_entries s) i = Some st \<Longrightarrow> store_ok (pop_entry i s)"
  using dict_del_length_le [of i "cs_entries s"]
  by (auto simp: store_ok_def pop_entry_def distinct_dict_del disjoint_keys_def fst_dict_del)

lemma store_ok_del: "store_ok s \<Longrightarrow> store_ok (s\<lparr>cs_recoverable := dict_del i (cs_recoverable s)\<rparr>)"
  using dict_del_length_le [of i "cs_recoverable s"]
  by (auto simp: store_ok_def distinct_dict_del disjoint_keys_def fst_dict_del)

lemma remember_terminal_del: "store_ok s \<Longrightarrow>
  remember_terminal i state (s\<lparr>cs_recoverable := dict_del i (cs_recoverable s)\<rparr>) = remember_terminal i state s"
  by (simp add: remember_terminal_def store_ok_def dict_del_id fst_dict_del)

lemma remember_terminal_pop: "store_ok s \<Longrightarrow> remember_terminal i state (pop_entry i s) = remember_terminal i state s"
  by (simp add: remember_terminal_def pop_entry_def store_ok_def dict_del_id fst_dict_del)

lemma recoverable_pop: "cs_recoverable (pop_entry i s) = cs_recoverable s"
  by (simp add: pop_entry_def)

lemma pop_absent: "map_of (cs_entries s) i = None \<Longrightarrow> pop_entry i s = s"
  by (simp add: pop_entry_def dict_del_id map_of_eq_None_iff)

lemma recoverable_not_live: "store_ok s \<Longrightarrow> map_of (cs_recoverable s) i = Some rc \<Longrightarrow> map_of (cs_entries s) i = None"
  using map_of_keyD [of "cs_recoverable s" i rc] by (auto simp: store_ok_def disjoint_keys_def map_of_key)

lemma consume_ok:
  assumes ok: "store_ok s" and c: "consume now claims i b d s = (x, s')"
  shows "fades s s'"
    and "x = Inr (Snapshot sn) \<Longrightarrow> approval_of s i = Some (b, d, sn_execution_class sn) \<and> approval_of s' i = None"
proof -
  have "fades s s' \<and> (x = Inr (Snapshot sn) \<longrightarrow> approval_of s i = Some (b, d, sn_execution_class sn) \<and> approval_of s' i = None)" for sn
  proof (cases "map_of (cs_entries s) i")
    case None
    show ?thesis
    proof (cases "map_of (cs_recoverable s) i")
      case rNone: None
      show ?thesis using c None rNone fades_refl [OF ok] remember_terminal_ok(1) [OF ok]
        by (auto simp: consume_def split: option.splits)
    next
      case (Some rc)
      obtain e s1 where v: "validate_approval i b d (rc_binding rc) (rc_security_digest rc) s = (e, s1)" by fastforce
      obtain y s2 where cl: "claim_recovery claims i rc s = (y, s2)" by fastforce
      show ?thesis
        using c None Some v cl fades_refl [OF ok] validate_approval_ok [OF ok v] claim_recovery_ok [OF ok None Some cl]
        by (cases e; cases y) (auto simp: consume_def split: if_splits)
    qed
  next
    case (Some st)
    let ?sn = "st_snapshot st"
    obtain e s1 where v: "validate_approval i b d (sn_binding ?sn) (sn_security_digest ?sn) s = (e, s1)" by fastforce
    note v' = validate_approval_ok [OF ok v]
    show ?thesis
    proof (cases e)
      case (Some err)
      then show ?thesis using c v v'(1) \<open>map_of (cs_entries s) i = Some st\<close> by (auto simp: consume_def)
    next
      case None
      then have s1: "s1 = s" and eq: "b = sn_binding ?sn" "d = sn_security_digest ?sn" using v'(2) by simp_all
      show ?thesis
      proof (cases "st_expires_at st \<le> now")
        case True
        obtain r s2 where re: "retire_entry i ?sn Expired s = (r, s2)" by fastforce
        note re' = retire_entry_ok [OF ok Some re]
        show ?thesis
        proof (cases r)
          case rTrue: True
          obtain rc where rc: "map_of (cs_recoverable s2) i = Some rc" using re'(4) rTrue by blast
          obtain y s3 where cl: "claim_recovery claims i rc s2 = (y, s3)" by fastforce
          have ok2: "store_ok s2" using re'(1) by (simp add: fades_def)
          have "fades s s3"
            by (rule fades_trans [OF re'(1) claim_recovery_ok [OF ok2 recoverable_not_live [OF ok2 rc] rc cl]])
          then show ?thesis using c Some v None s1 True re rTrue rc cl by (cases y) (auto simp: consume_def)
        next
          case False
          then show ?thesis using c Some v None s1 True re re'(1) by (auto simp: consume_def)
        qed
      next
        case False
        then have "x = Inr (Snapshot ?sn)" "s' = remember_terminal i ''consumed'' s"
          using c Some v None s1 by (simp_all add: consume_def remember_terminal_pop [OF ok])
        then show ?thesis using remember_terminal_ok [OF ok] Some eq by (simp add: approval_of_def)
      qed
    qed
  qed
  then show "fades s s'" "x = Inr (Snapshot sn) \<Longrightarrow> approval_of s i = Some (b, d, sn_execution_class sn) \<and> approval_of s' i = None"
    by blast+
qed

lemma complete_recovery_ok:
  assumes ok: "store_ok s" and c: "complete_recovery i claim b d cls s = (e, s')"
  shows "fades s s'" and "e = None \<Longrightarrow> approval_of s i = Some (b, d, cls) \<and> approval_of s' i = None"
proof -
  have "fades s s' \<and> (e = None \<longrightarrow> approval_of s i = Some (b, d, cls) \<and> approval_of s' i = None)"
  proof (cases "holds_claim claim (map_of (cs_recoverable s) i)")
    case False
    then show ?thesis using c fades_refl [OF ok] by (auto simp: complete_recovery_def Let_def)
  next
    case True
    then obtain rc where rc: "map_of (cs_recoverable s) i = Some rc" by (auto simp: holds_claim_def split: option.splits)
    obtain e1 s1 where v: "validate_approval i b d (rc_binding rc) (rc_security_digest rc) s = (e1, s1)" by fastforce
    note v' = validate_approval_ok [OF ok v]
    have "approval_of s i = Some (rc_binding rc, rc_security_digest rc, rc_execution_class rc)"
      using rc recoverable_not_live [OF ok rc] by (simp add: approval_of_def)
    then show ?thesis
      using c True rc v v' remember_terminal_ok [OF ok]
      by (cases e1) (auto simp: complete_recovery_def Let_def remember_terminal_del [OF ok] split: if_splits)
  qed
  then show "fades s s'" and "e = None \<Longrightarrow> approval_of s i = Some (b, d, cls) \<and> approval_of s' i = None" by blast+
qed

lemma terminalize_pending_ok:
  assumes "store_ok s"
  shows "fades s (terminalize_pending i state s)"
    and "\<not> under_recovery i s \<Longrightarrow> approval_of (terminalize_pending i state s) i = None"
proof -
  have eq: "terminalize_pending i state s =
     (if map_of (cs_entries s) i \<noteq> None \<or> (map_of (cs_recoverable s) i \<noteq> None \<and> \<not> under_recovery i s)
      then remember_terminal i state s else s)"
    using assms recoverable_not_live [OF assms, of i]
    by (auto simp: terminalize_pending_def Let_def under_recovery_def remember_terminal_pop remember_terminal_del pop_absent
      recoverable_pop split: option.splits)
  have none: "approval_of s i = None \<longleftrightarrow> map_of (cs_entries s) i = None \<and> map_of (cs_recoverable s) i = None"
    by (auto simp: approval_of_def split: option.splits)
  show "fades s (terminalize_pending i state s)"
    using remember_terminal_ok(1) [OF assms] fades_refl [OF assms] by (simp add: eq)
  show "\<not> under_recovery i s \<Longrightarrow> approval_of (terminalize_pending i state s) i = None"
    using remember_terminal_ok(2) [OF assms, of i state] none by (auto simp: eq)
qed

lemma terminalize_recovery_ok:
  assumes "store_ok s"
  shows "fades s (terminalize_recovery i claim state s)"
    and "holds_claim claim (map_of (cs_recoverable s) i) \<Longrightarrow> approval_of (terminalize_recovery i claim state s) i = None"
  using remember_terminal_ok [OF assms] fades_refl [OF assms]
  by (simp_all add: terminalize_recovery_def remember_terminal_del [OF assms])

lemma is_pending_ok:
  assumes "store_ok s"
  shows "fades s (snd (is_pending now i s))"
proof (cases "\<exists>st. map_of (cs_entries s) i = Some st \<and> st_expires_at st \<le> now")
  case True
  then obtain st where st: "map_of (cs_entries s) i = Some st" "st_expires_at st \<le> now" by blast
  obtain b s1 where r: "retire_entry i (st_snapshot st) Expired s = (b, s1)" by fastforce
  show ?thesis using retire_entry_ok(1) [OF assms st(1) r] st r by (simp add: is_pending_def Let_def)
next
  case False
  then show ?thesis using fades_refl [OF assms] by (auto simp: is_pending_def Let_def split: option.splits)
qed

lemma contract_exec_ok:
  assumes "store_ok s" and "approval_of s \<subseteq>\<^sub>m open_approvals es" and "contract_exec op s = (new, s')"
  shows "kept s s' \<and> approval_of s' \<subseteq>\<^sub>m open_approvals (es @ new)"
    and "new = [Granted i a] \<Longrightarrow> open_approvals es i = Some a"
proof -
  have fold: "open_approvals (es @ [e]) = open_event e (open_approvals es)" for e by (simp add: open_approvals_def)
  have faded: "fades s s1 \<Longrightarrow> kept s s1 \<and> approval_of s1 \<subseteq>\<^sub>m open_approvals es" for s1
    using map_le_trans [OF _ assms(2)] by (simp add: fades_def kept_def)
  have closed: "fades s s1 \<Longrightarrow> approval_of s1 j = None \<Longrightarrow> kept s s1 \<and> approval_of s1 \<subseteq>\<^sub>m (open_approvals es)(j := None)" for s1 j
    using faded [of s1] map_le_drop [of "approval_of s1" "open_approvals es" j] by simp
  have known: "approval_of s j = Some b \<Longrightarrow> open_approvals es j = Some b" for j b
    using assms(2) domI [of "approval_of s" j b] by (simp add: map_le_def)
  have grant: "kept s s' \<and> approval_of s' \<subseteq>\<^sub>m open_approvals (es @ [Granted j b]) \<and> open_approvals es j = Some b"
    if "fades s s'" "approval_of s j = Some b \<and> approval_of s' j = None" for j b
    using closed [of s' j] known that by (simp add: fold open_event_def)
  have "kept s s' \<and> approval_of s' \<subseteq>\<^sub>m open_approvals (es @ new) \<and> (\<forall>i a. new = [Granted i a] \<longrightarrow> open_approvals es i = Some a)"
  proof (cases op)
    case (Create now tokens sn)
    obtain x s1 where c: "create_snapshot now tokens sn s = (x, s1)" by fastforce
    note created = create_ok [OF assms(1) c]
    show ?thesis
    proof (cases x)
      case (Inl e)
      then have "new = []" "s' = s1" using assms(3) Create c by simp_all
      moreover have "approval_of s1 \<subseteq>\<^sub>m open_approvals es"
        using created(2) Inl by (intro map_le_trans [OF _ assms(2)]) simp
      ultimately show ?thesis using created(1) by simp
    next
      case (Inr i)
      let ?a = "(sn_binding sn, sn_security_digest sn, sn_execution_class sn)"
      have new: "new = [Issued i ?a]" "s' = s1" using assms(3) Create c Inr by simp_all
      have "approval_of s1 \<subseteq>\<^sub>m (approval_of s)(i \<mapsto> ?a)" using created(2) Inr by simp
      moreover have "(approval_of s)(i \<mapsto> ?a) \<subseteq>\<^sub>m (open_approvals es)(i \<mapsto> ?a)"
        using assms(2) by (rule map_le_upd)
      ultimately have "approval_of s1 \<subseteq>\<^sub>m (open_approvals es)(i \<mapsto> ?a)" by (rule map_le_trans)
      then show ?thesis using created(1) new by (simp add: fold open_event_def)
    qed
  next
    case (Consume now claims i b d)
    obtain x s1 where c: "consume now claims i b d s = (x, s1)" by fastforce
    show ?thesis
    proof (cases "\<exists>sn. x = Inr (Snapshot sn)")
      case True
      then obtain sn where x: "x = Inr (Snapshot sn)" by blast
      then show ?thesis
        using grant [of i "(b, d, sn_execution_class sn)"] consume_ok [OF assms(1) c] assms(3) Consume c by auto
    next
      case False
      then have "new = [] \<and> s' = s1"
        using assms(3) Consume c by (auto split: sum.splits consumed.splits)
      then show ?thesis using faded [OF consume_ok(1) [OF assms(1) c]] by simp
    qed
  next
    case (Complete_Recovery i claim b d cls)
    obtain e s1 where c: "complete_recovery i claim b d cls s = (e, s1)" by fastforce
    show ?thesis
      using grant [of i "(b, d, cls)"] complete_recovery_ok [OF assms(1) c] faded [of s1] assms(3) Complete_Recovery c
      by (cases e) auto
  next
    case (Cancel i)
    show ?thesis
      using terminalize_pending_ok [OF assms(1), of i "''cancelled''"] faded closed [of s' i] assms(3) Cancel
      by (auto simp: cancel_snapshot_def fold open_event_def split: if_splits)
  next
    case (Reject i)
    show ?thesis
      using terminalize_pending_ok [OF assms(1), of i "''rejected''"] faded closed [of s' i] assms(3) Reject
      by (auto simp: reject_snapshot_def fold open_event_def split: if_splits)
  next
    case (Cancel_Recovery i claim)
    show ?thesis
      using terminalize_recovery_ok(1) [OF assms(1), of i claim "''cancelled''"]
        terminalize_recovery_ok(2) [OF assms(1), of claim i "''cancelled''"] faded closed [of s' i] assms(3) Cancel_Recovery
      by (auto simp: cancel_recovery_def fold open_event_def split: if_splits)
  next
    case (Reject_Recovery i claim)
    show ?thesis
      using terminalize_recovery_ok(1) [OF assms(1), of i claim "''rejected''"]
        terminalize_recovery_ok(2) [OF assms(1), of claim i "''rejected''"] faded closed [of s' i] assms(3) Reject_Recovery
      by (auto simp: reject_recovery_def fold open_event_def split: if_splits)
  next
    case (Is_Pending now i)
    then show ?thesis using faded [OF is_pending_ok [OF assms(1)]] assms(3) by auto
  next
    case (Size now)
    then show ?thesis using faded [OF remove_expired_ok [OF assms(1)]] assms(3) by (auto simp: store_size_def Let_def)
  qed
  then show "kept s s' \<and> approval_of s' \<subseteq>\<^sub>m open_approvals (es @ new)"
    and "new = [Granted i a] \<Longrightarrow> open_approvals es i = Some a" by blast+
qed

lemma open_approvals_last:
  "open_approvals es i = Some a \<Longrightarrow> \<exists>pre post. es = pre @ [Issued i a] @ post \<and> i \<notin> event_id ` set post"
proof (induction es rule: rev_induct)
  case (snoc e es)
  show ?case
  proof (cases "event_id e = i")
    case True
    then have "e = Issued i a" using snoc.prems by (auto simp: open_approvals_def open_event_def split: contract_event.splits)
    then show ?thesis by fastforce
  next
    case False
    then have "open_approvals es i = Some a"
      using snoc.prems by (auto simp: open_approvals_def open_event_def split: contract_event.splits)
    then obtain pre post where "es = pre @ [Issued i a] @ post" "i \<notin> event_id ` set post" using snoc.IH by blast
    then show ?thesis using False by (intro exI [of _ pre] exI [of _ "post @ [e]"]) auto
  qed
qed (simp add: open_approvals_def)

lemma contract_run_ok:
  assumes "store_ok s" and "approval_of s \<subseteq>\<^sub>m open_approvals es" and "contract_run ops s = (new, s')"
  shows "kept s s' \<and> (\<forall>pre i a post. new = pre @ [Granted i a] @ post \<longrightarrow> open_approvals (es @ pre) i = Some a)"
  using assms
proof (induction ops arbitrary: s es new)
  case Nil
  then show ?case by (simp add: kept_def)
next
  case (Cons op ops)
  obtain e1 s1 where x: "contract_exec op s = (e1, s1)" by fastforce
  obtain e2 s2 where r: "contract_run ops s1 = (e2, s2)" by fastforce
  have new: "new = e1 @ e2" "s' = s2" using Cons.prems(3) x r by simp_all
  note step = contract_exec_ok [OF Cons.prems(1,2) x]
  have ih: "kept s1 s2 \<and> (\<forall>pre i a post. e2 = pre @ [Granted i a] @ post \<longrightarrow> open_approvals ((es @ e1) @ pre) i = Some a)"
    using Cons.IH [of s1 "es @ e1" e2] step(1) r new by (simp add: kept_def)
  have one: "e1 = [] \<or> (\<exists>e. e1 = [e])"
    using x by (cases op) (auto split: prod.splits sum.splits option.splits consumed.splits if_splits)
  have "open_approvals (es @ pre) i = Some a" if eq: "e1 @ e2 = pre @ [Granted i a] @ post" for pre i a post
  proof (cases "e1 = [] \<or> pre \<noteq> []")
    case True
    then obtain pre' where "pre = e1 @ pre'" "e2 = pre' @ [Granted i a] @ post" using one eq by (cases pre) auto
    then show ?thesis using conjunct2 [OF ih, rule_format, of pre' i a post] by simp
  next
    case False
    then show ?thesis using one eq step(2) [of i a] by auto
  qed
  then show ?case using ih step(1) new by (auto simp: kept_def)
qed

lemma new_store_ok: "new_store n ttl = Inr s \<Longrightarrow> store_ok s \<and> approval_of s = Map.empty \<and> cs_max_entries s = nat n"
  by (auto simp: new_store_def store_ok_def disjoint_keys_def approval_of_def fun_eq_iff split: if_splits)

text \<open>
  C9: The store hands an approval out at most once, and only to the call it was given for. In every run (contracts are
  created, consumed, recovered, cancelled and rejected in any order, with any clock readings and any tokens), an
  execution that is granted under a snapshot, either directly or through a completed recovery, answers an earlier
  \<^verbatim>\<open>create\<close> of that snapshot with the same invocation binding, security digest and execution class, and since then the
  snapshot was neither granted nor cancelled nor rejected (nor created again).
\<close>

theorem contract_granted_once:
  assumes "new_store max_entries ttl = Inr s" and "fst (contract_run ops s) = pre @ [Granted i a] @ post"
  shows "\<exists>before after. pre = before @ [Issued i a] @ after \<and> i \<notin> event_id ` set after"
proof -
  note s = new_store_ok [OF assms(1)]
  have "open_approvals ([] @ pre) i = Some a"
    using contract_run_ok [of s "[]" ops] s assms(2) by (metis map_le_empty prod.collapse)
  then show ?thesis using open_approvals_last by simp
qed

text \<open>
  However the store is used, it never holds more than \<^verbatim>\<open>max_entries\<close> live, recoverable or terminal snapshots, and a
  snapshot is never in two of these states.
\<close>

theorem contract_store_bounded:
  assumes "new_store max_entries ttl = Inr s" and "snd (contract_run ops s) = s'"
  shows "int (length (cs_entries s')) \<le> max_entries \<and> int (length (cs_recoverable s')) \<le> max_entries
    \<and> int (length (cs_terminal s')) \<le> max_entries
    \<and> distinct (map fst (cs_entries s') @ map fst (cs_recoverable s') @ map fst (cs_terminal s'))"
proof -
  have "kept s s'" using contract_run_ok [of s "[]" ops] new_store_ok [OF assms(1)] assms(2)
    by (metis map_le_empty prod.collapse)
  then show ?thesis using new_store_ok [OF assms(1)]
    by (auto simp: kept_def store_ok_def disjoint_keys_def)
qed

text \<open>Two contracts in a store of one: the second evicts the first, which is then recovered.\<close>

definition sample_binding :: "string \<Rightarrow> InvocationBinding" where
  "sample_binding use_id =
     \<lparr>runtime_nonce = ''n'', session_id = ''s'', tool_use_id = use_id, binding_tool_name = ''aliyun_api'',
      canonical_input_sha256 = ''h''\<rparr>"

definition sample_snapshot :: "string \<Rightarrow> nat ResolvedContractSnapshot" where
  "sample_snapshot use_id =
     \<lparr>sn_binding = sample_binding use_id, sn_contract = 7, sn_security_digest = ''d'', sn_execution_class = Serial,
      sn_authorized_read_paths = []\<rparr>"

definition sample_contract_ops :: "nat contract_op list" where
  "sample_contract_ops =
     [Create 0 [''a''] (sample_snapshot ''1''), Create 1 [''a'', ''b''] (sample_snapshot ''2''),
      Consume 2 [''k''] ''a'' (sample_binding ''1'') ''d'',
      Complete_Recovery ''a'' ''k'' (sample_binding ''1'') ''d'' Serial,
      Consume 3 [] ''a'' (sample_binding ''1'') ''d'']"

definition sample_store :: "nat ResolvedContractStore" where
  "sample_store = \<lparr>cs_max_entries = 1, cs_ttl_seconds = 900, cs_entries = [], cs_recoverable = [], cs_terminal = []\<rparr>"

lemma sample_store_new: "new_store 1 900 = Inr sample_store"
  by (simp add: new_store_def sample_store_def)

lemma sample_contract_run:
  "fst (contract_run sample_contract_ops sample_store) =
     [Issued ''a'' (sample_binding ''1'', ''d'', Serial), Issued ''b'' (sample_binding ''2'', ''d'', Serial)]
     @ [Granted ''a'' (sample_binding ''1'', ''d'', Serial)] @ []"
  by (simp add: sample_contract_ops_def sample_store_def create_snapshot_def consume_def complete_recovery_def
    remove_expired_def retire_entry_def remember_recoverable_def make_room.simps pop_entry_def unique_token_def
    unique_claim_token_def validate_approval_def claim_recovery_def remember_terminal_def holds_claim_def
    sample_snapshot_def sample_binding_def Let_def numeral_eq_Suc)

theorem contract_granted_once_witness:
  "\<exists>before after. [Issued ''a'' (sample_binding ''1'', ''d'', Serial), Issued ''b'' (sample_binding ''2'', ''d'', Serial)]
     = before @ [Issued ''a'' (sample_binding ''1'', ''d'', Serial)] @ after \<and> ''a'' \<notin> event_id ` set after"
  by (rule contract_granted_once [OF sample_store_new sample_contract_run])

theorem contract_store_bounded_witness:
  "int (length (cs_terminal (snd (contract_run sample_contract_ops sample_store)))) \<le> 1"
  using contract_store_bounded [OF sample_store_new refl, of sample_contract_ops] by blast

end
