(* ===== verification/Messages.thy ===== *)
theory Messages
  imports Py_Data Py_Regex
begin

text \<open>
  \<^verbatim>\<open>src/src/iac_code/agent/message.py\<close>: content blocks, messages and the conversation, with the
  hidden messages (recalled memories, continuations, compaction markers) told apart by their
  metadata; and \<^verbatim>\<open>fold_pipeline_user_history\<close> of \<^verbatim>\<open>services/pipeline_handoff_context.py\<close>. A
  message carries the identity of its object (\<^verbatim>\<open>id(m)\<close>), which the compaction compares; the
  elapsed time, which no modelled code reads, is left out.
\<close>

section \<open>Messages\<close>

datatype role = RoleUser | RoleAssistant

fun role_value :: "role \<Rightarrow> string" where
  "role_value RoleUser = ''user''"
| "role_value RoleAssistant = ''assistant''"

datatype ContentBlock =
    TextBlock (tb_text: string)
  | ToolUseBlock (tu_id: string) (tu_name: string) (tu_input: pydict) (tu_provider_metadata: pydict)
  | ToolResultBlock (tr_tool_use_id: string) (tr_content: string) (tr_is_error: bool) (tr_metadata: pydict)
  | ThinkingBlock (th_thinking: string) (th_provider_metadata: pydict)
  | RedactedThinkingBlock (rt_data: string) (rt_provider_metadata: pydict)
  | ImageBlock (im_media_type: string) (im_data: string) (im_ref_id: "int option")

datatype msg_content = TextContent string | Blocks "ContentBlock list"

record Message =
  ms_object :: nat
  ms_role :: role
  ms_content :: msg_content
  ms_token_count :: int
  ms_elapsed_seconds :: string  \<comment> \<open>the literal of a float\<close>
  ms_metadata :: pydict

definition message_blocks :: "Message \<Rightarrow> ContentBlock list" where
  "message_blocks m = (case ms_content m of TextContent _ \<Rightarrow> [] | Blocks bs \<Rightarrow> bs)"

definition get_text :: "Message \<Rightarrow> string" where
  "get_text m =
     (case ms_content m of
        TextContent s \<Rightarrow> s
      | Blocks bs \<Rightarrow> join_with [newline] (map tb_text (filter is_TextBlock bs)))"

definition get_tool_use_blocks :: "Message \<Rightarrow> ContentBlock list" where
  "get_tool_use_blocks m = filter is_ToolUseBlock (message_blocks m)"

definition has_tool_use :: "Message \<Rightarrow> bool" where
  "has_tool_use m = (length (get_tool_use_blocks m) > 0)"

definition with_metadata :: "pydict \<Rightarrow> pydict \<Rightarrow> pydict" where
  "with_metadata item md = (if md \<noteq> [] then item @ [(''provider_metadata'', PyDict md)] else item)"

fun block_api :: "ContentBlock \<Rightarrow> pydict" where
  "block_api (TextBlock t) = [(''type'', PyStr ''text''), (''text'', PyStr t)]"
| "block_api (ToolUseBlock i n inp md) =
     with_metadata [(''type'', PyStr ''tool_use''), (''id'', PyStr i), (''name'', PyStr n), (''input'', PyDict inp)] md"
| "block_api (ToolResultBlock i c e md) =
     [(''type'', PyStr ''tool_result''), (''tool_use_id'', PyStr i), (''content'', PyStr c), (''is_error'', PyBool e)]"
| "block_api (ThinkingBlock t md) = with_metadata [(''type'', PyStr ''thinking''), (''thinking'', PyStr t)] md"
| "block_api (RedactedThinkingBlock d md) =
     with_metadata [(''type'', PyStr ''redacted_thinking''), (''data'', PyStr d)] md"
| "block_api (ImageBlock mt d r) = [(''type'', PyStr ''image''), (''media_type'', PyStr mt), (''data'', PyStr d)]"

definition to_api_format :: "Message \<Rightarrow> pydict" where
  "to_api_format m =
     [(''role'', PyStr (role_value (ms_role m))),
      (''content'', case ms_content m of
          TextContent s \<Rightarrow> PyStr s
        | Blocks bs \<Rightarrow> PyList (map (\<lambda>b. PyDict (block_api b)) bs))]"

section \<open>Hidden messages\<close>

definition RECALLED_MEMORY_METADATA_TYPE :: string where
  "RECALLED_MEMORY_METADATA_TYPE = ''recalled_memory''"

definition RECALLED_MEMORY_MARKER :: string where
  "RECALLED_MEMORY_MARKER = ''Relevant persistent memories recalled for this conversation''"

definition OUTPUT_LIMIT_CONTINUATION_METADATA_TYPE :: string where
  "OUTPUT_LIMIT_CONTINUATION_METADATA_TYPE = ''output_limit_continuation''"

definition HIDDEN_CONTEXT_METADATA_TYPES :: "string list" where
  "HIDDEN_CONTEXT_METADATA_TYPES = [RECALLED_MEMORY_METADATA_TYPE, OUTPUT_LIMIT_CONTINUATION_METADATA_TYPE]"

definition COMPACTION_SUMMARY_METADATA_TYPE :: string where
  "COMPACTION_SUMMARY_METADATA_TYPE = ''compaction_summary''"

definition COMPACTION_SUMMARY_TAIL_METADATA_KEY :: string where
  "COMPACTION_SUMMARY_TAIL_METADATA_KEY = ''preserved_tail''"

definition CLEANUP_PROMPT_METADATA_TYPE :: string where
  "CLEANUP_PROMPT_METADATA_TYPE = ''pipeline_cleanup_prompt''"

fun normalize_filenames_from :: "string list \<Rightarrow> string list \<Rightarrow> string list" where
  "normalize_filenames_from seen [] = []"
| "normalize_filenames_from seen (filename # rest) =
     (let name = strip filename in
      if name = [] \<or> slash \<in> set name \<or> CHR 0x5C \<in> set name then normalize_filenames_from seen rest
      else
        let name' = (if endswith name ''.md'' then name else name @ ''.md'') in
        if name' \<in> set seen then normalize_filenames_from seen rest
        else name' # normalize_filenames_from (name' # seen) rest)"

definition normalize_recalled_memory_filenames :: "string list \<Rightarrow> string list" where
  "normalize_recalled_memory_filenames filenames = normalize_filenames_from [] filenames"

definition format_recalled_memory_message :: "string \<Rightarrow> string" where
  "format_recalled_memory_message content =
     ''<system-reminder>'' @ [newline] @ RECALLED_MEMORY_MARKER @ '':'' @ [newline, newline] @ strip content
     @ [newline] @ ''</system-reminder>''"

definition new_message :: "nat \<Rightarrow> role \<Rightarrow> msg_content \<Rightarrow> pydict \<Rightarrow> Message" where
  \<comment> \<open>\<^verbatim>\<open>Message(role=..., content=..., metadata=...)\<close> as the object \<open>uid\<close>\<close>
  "new_message uid r c md = \<lparr>ms_object = uid, ms_role = r, ms_content = c, ms_token_count = 0, ms_elapsed_seconds = ''0.0'', ms_metadata = md\<rparr>"

definition create_recalled_memory_message :: "nat \<Rightarrow> string \<Rightarrow> string list \<Rightarrow> Message" where
  "create_recalled_memory_message uid content selected_files =
     new_message uid RoleUser (TextContent (format_recalled_memory_message content))
       [(''type'', PyStr RECALLED_MEMORY_METADATA_TYPE), (''source'', PyStr ''auto_memory''),
        (''selected_files'', PyList (map PyStr (normalize_recalled_memory_filenames selected_files)))]"

definition metadata_type_is :: "Message \<Rightarrow> string \<Rightarrow> bool" where
  "metadata_type_is m t = (map_of (ms_metadata m) ''type'' = Some (PyStr t))"

definition is_recalled_memory_message :: "Message \<Rightarrow> bool" where
  "is_recalled_memory_message m = metadata_type_is m RECALLED_MEMORY_METADATA_TYPE"

definition is_hidden_context_message :: "Message \<Rightarrow> bool" where
  "is_hidden_context_message m = list_ex (metadata_type_is m) HIDDEN_CONTEXT_METADATA_TYPES"

definition is_compaction_summary_message :: "Message \<Rightarrow> bool" where
  "is_compaction_summary_message m = metadata_type_is m COMPACTION_SUMMARY_METADATA_TYPE"

definition is_cleanup_prompt_message :: "Message \<Rightarrow> bool" where
  "is_cleanup_prompt_message m = metadata_type_is m CLEANUP_PROMPT_METADATA_TYPE"

definition LEGACY_COMPACTION_SUMMARY_PREFIX :: string where
  "LEGACY_COMPACTION_SUMMARY_PREFIX = ''[Conversation Summary]''"

definition create_compaction_summary_message :: "nat \<Rightarrow> string \<Rightarrow> Message" where
  "create_compaction_summary_message uid summary =
     new_message uid RoleUser (TextContent (LEGACY_COMPACTION_SUMMARY_PREFIX @ [newline] @ summary))
       [(''type'', PyStr COMPACTION_SUMMARY_METADATA_TYPE)]"

definition compaction_summary_tail_count :: "Message \<Rightarrow> int" where
  \<comment> \<open>a \<^verbatim>\<open>bool\<close> is an \<^verbatim>\<open>int\<close> in Python: \<^verbatim>\<open>True\<close> counts as 1\<close>
  "compaction_summary_tail_count m =
     (case map_of (ms_metadata m) COMPACTION_SUMMARY_TAIL_METADATA_KEY of
        Some (PyInt n) \<Rightarrow> (if n > 0 then n else 0)
      | Some (PyBool True) \<Rightarrow> 1
      | _ \<Rightarrow> 0)"

definition get_recalled_memory_files :: "Message \<Rightarrow> string list" where
  "get_recalled_memory_files m =
     (if \<not> is_recalled_memory_message m then []
      else (case map_of (ms_metadata m) ''selected_files'' of
          Some (PyList vs) \<Rightarrow> normalize_recalled_memory_filenames
            (List.map_filter (\<lambda>v. case v of PyStr s \<Rightarrow> Some s | _ \<Rightarrow> None) vs)
        | _ \<Rightarrow> []))"

section \<open>Rows of older versions\<close>

definition SEMVER_PREFIX_RE :: rx where
  "SEMVER_PREFIX_RE = rx_seq
     [RGroup 1 (rx_plus (RClass re_digit)), rx_lit ''.'', RGroup 2 (rx_plus (RClass re_digit)), rx_lit ''.'',
      RGroup 3 (rx_plus (RClass re_digit))]"

definition nat_of_digits :: "string \<Rightarrow> nat" where
  "nat_of_digits s = fold (\<lambda>c n. 10 * n + (code c - 48)) s 0"

definition COMPACTION_METADATA_INTRODUCED_VERSION :: "nat list" where
  "COMPACTION_METADATA_INTRODUCED_VERSION = [0, 9, 1]"

fun lex_less :: "nat list \<Rightarrow> nat list \<Rightarrow> bool" where
  \<comment> \<open>comparison of tuples\<close>
  "lex_less xs [] = False"
| "lex_less [] (y # ys) = True"
| "lex_less (x # xs) (y # ys) = (x < y \<or> (x = y \<and> lex_less xs ys))"

definition is_legacy_compaction_summary_storage_row :: "pydict \<Rightarrow> bool" where
  "is_legacy_compaction_summary_storage_row data =
     (if (case map_of data ''metadata'' of
            Some (PyDict md) \<Rightarrow> map_of md ''type'' = Some (PyStr COMPACTION_SUMMARY_METADATA_TYPE)
          | _ \<Rightarrow> False) then False
      else if map_of data ''role'' \<noteq> Some (PyStr ''user'') then False
      else (case map_of data ''content'' of
          Some (PyStr content) \<Rightarrow>
            if \<not> startswith content LEGACY_COMPACTION_SUMMARY_PREFIX then False
            else (case map_of data ''version'' of
                Some (PyStr version) \<Rightarrow>
                  (case rx_match SEMVER_PREFIX_RE version of
                     None \<Rightarrow> False
                   | Some m \<Rightarrow> lex_less (map (\<lambda>k. nat_of_digits (ms_group k m)) [1, 2, 3])
                                  COMPACTION_METADATA_INTRODUCED_VERSION)
              | _ \<Rightarrow> False)
        | _ \<Rightarrow> False))"

section \<open>The conversation\<close>

definition add_user_message :: "nat \<Rightarrow> msg_content \<Rightarrow> Message list \<Rightarrow> Message list" where
  "add_user_message uid content messages = messages @ [new_message uid RoleUser content []]"

definition add_assistant_message :: "nat \<Rightarrow> msg_content \<Rightarrow> Message list \<Rightarrow> Message list" where
  "add_assistant_message uid content messages = messages @ [new_message uid RoleAssistant content []]"

definition add_tool_results :: "nat \<Rightarrow> ContentBlock list \<Rightarrow> Message list \<Rightarrow> Message list" where
  "add_tool_results uid tool_results messages = messages @ [new_message uid RoleUser (Blocks tool_results) []]"

definition conversation_total_tokens :: "Message list \<Rightarrow> int" where
  "conversation_total_tokens messages = sum_list (map ms_token_count messages)"

section \<open>Inputs covered by a pipeline handoff\<close>

definition PIPELINE_USER_HISTORY_KEY :: string where
  "PIPELINE_USER_HISTORY_KEY = ''a2a_pipeline_user_input''"

definition HANDOFF_METADATA_TYPE :: string where
  "HANDOFF_METADATA_TYPE = ''pipeline_handoff_context''"

definition history_message_id :: "Message \<Rightarrow> string option" where
  "history_message_id m =
     (case map_of (ms_metadata m) PIPELINE_USER_HISTORY_KEY of
        Some (PyDict identity) \<Rightarrow> (case map_of identity ''message_id'' of Some (PyStr s) \<Rightarrow> Some s | _ \<Rightarrow> None)
      | _ \<Rightarrow> None)"

definition pipeline_inputs :: "Message list \<Rightarrow> Message list" where
  "pipeline_inputs messages =
     filter (\<lambda>m. ms_role m = RoleUser
       \<and> (case ms_content m of TextContent s \<Rightarrow> strip s \<noteq> [] | Blocks _ \<Rightarrow> False)
       \<and> (case history_message_id m of None \<Rightarrow> False | Some i \<Rightarrow> i \<noteq> [])) messages"

definition covered_ids :: "Message \<Rightarrow> string list" where
  "covered_ids m =
     (if ms_role m = RoleUser \<and> metadata_type_is m HANDOFF_METADATA_TYPE then
        (case map_of (ms_metadata m) ''pipeline_user_input_ids'' of
           Some (PyList vs) \<Rightarrow> List.map_filter (\<lambda>v. case v of PyStr s \<Rightarrow> Some s | _ \<Rightarrow> None) vs
         | _ \<Rightarrow> [])
      else [])"

fun fold_from_end :: "string list \<Rightarrow> Message list \<Rightarrow> Message list" where
  \<comment> \<open>the loop over the reversed messages, producing the visible ones latest first\<close>
  "fold_from_end covered [] = []"
| "fold_from_end covered (m # ms) =
     (let covered' = covered_ids m @ covered in
      if ms_role m = RoleUser \<and> (case history_message_id m of None \<Rightarrow> False | Some i \<Rightarrow> i \<in> set covered')
      then fold_from_end covered' ms else m # fold_from_end covered' ms)"

definition fold_pipeline_user_history :: "Message list \<Rightarrow> Message list" where
  "fold_pipeline_user_history messages =
     (if \<not> list_ex (\<lambda>m. metadata_type_is m HANDOFF_METADATA_TYPE) messages then messages
      else rev (fold_from_end [] (rev messages)))"

section \<open>Facts\<close>

lemma normalize_filenames_props:
  "distinct (normalize_filenames_from seen fs) \<and> set (normalize_filenames_from seen fs) \<inter> set seen = {}"
  by (induction seen fs rule: normalize_filenames_from.induct) (auto simp: Let_def)

lemma fold_from_end_set: "set (fold_from_end covered ms) \<subseteq> set ms"
  by (induction covered ms rule: fold_from_end.induct) (auto simp: Let_def)

lemma fold_pipeline_set: "set (fold_pipeline_user_history ms) \<subseteq> set ms"
  using fold_from_end_set [of "[]" "rev ms"] by (auto simp: fold_pipeline_user_history_def)

lemma fold_pipeline_id:
  "\<not> list_ex (\<lambda>m. metadata_type_is m HANDOFF_METADATA_TYPE) ms \<Longrightarrow> fold_pipeline_user_history ms = ms"
  by (simp add: fold_pipeline_user_history_def)

end
