(* ===== verification/Permission_Phase.thy ===== *)
theory Permission_Phase
  imports Permission_Pipeline Tool_Executor Contract_Store Messages
begin

text \<open>
  The permission phase of one batch of tool calls in \<^verbatim>\<open>_run_streaming_inner\<close> of \<^verbatim>\<open>agent/agent_loop.py\<close>: which of
  the calls of a response run, which are answered with an error, and the continuation frame that lets a batch go on after
  it was suspended at a prompt.

  The world a tool acts on is the record \<open>agent_world\<close>: the store of approved contracts (\<open>Contract_Store\<close>), the
  snapshots the loop owns, and everything else as the type variable. A tool is its permission side as seen in a world,
  its execution, and the effect of its permission check on the world. Arguments of the model (fields of \<open>agent_env\<close>) are
  the clock, the hash functions, the writer of audit rows, the caller identity of the cloud credentials and the answers
  to the prompts. Directories that the checks add to the execution context of the tools are not modelled, since a tool
  here has its context built in.
\<close>

section \<open>The world of the agent\<close>

record ('u, 'c) agent_world =
  wd_user :: 'u
  wd_contracts :: "'c ResolvedContractStore"
  wd_owned :: "string list"  \<comment> \<open>\<^verbatim>\<open>_owned_contract_snapshot_ids\<close>\<close>

record ('w, 'p) AgentTool =
  at_exec :: "('w, 'p) ExecTool"
  at_view :: "'w \<Rightarrow> Tool"
  at_checked :: "pydict \<Rightarrow> ToolPermissionContext \<Rightarrow> 'w \<Rightarrow> 'w"
  at_prepare :: "pydict \<Rightarrow> pydict"  \<comment> \<open>\<^verbatim>\<open>prepare_invocation_input\<close>, the identity where the tool has none\<close>

record AgentRequest = ToolCallRequest +
  ar_invocation_binding :: InvocationBinding
  ar_snapshot_id :: "string option"
  ar_security_digest :: "string option"

datatype decision_state = Not_Evaluated | Pending | Allowed | Denied

record continuation_decision =
  cd_tool_use_id :: string
  cd_state :: decision_state
  cd_source :: "string option"
  cd_denied_result :: "string option"
  cd_identity :: "(string option \<times> string option) option"  \<comment> \<open>\<^verbatim>\<open>principalRef\<close> and \<^verbatim>\<open>region\<close>, when present\<close>

record continuation_frame =
  cf_message_ref :: string
  cf_message_digest :: string
  cf_ordered_ids :: "string list"
  cf_current_index :: int
  cf_payload_digest :: string
  cf_decisions :: "continuation_decision list"

datatype wait_outcome = Approved | Refused | Automatic_Deny | Suspend

record ('u, 'c, 'p) agent_env =
  ae_tools :: "(string \<times> (('u, 'c) agent_world, 'p) AgentTool) list"
  ae_context_getter :: "(('u, 'c) agent_world \<Rightarrow> ToolPermissionContext option) option"
  ae_permission_context :: "ToolPermissionContext option"
  ae_cwd :: string
  ae_trusted_read_directories :: "string list"
  ae_relative_read_directories :: "string list"
  ae_pipeline_mode :: bool
  ae_runtime_nonce :: string
  ae_session_id :: string
  ae_input_sha256 :: "pydict \<Rightarrow> string"
  ae_message_digest :: "ContentBlock list \<Rightarrow> string"
  ae_payload_digest :: "string \<Rightarrow> pydict \<Rightarrow> string"
  ae_clock :: "('u, 'c) agent_world \<Rightarrow> rat"
  ae_write_audit :: "AgentRequest \<Rightarrow> PermissionAuditMetadata \<Rightarrow> behavior \<Rightarrow> ('u, 'c) agent_world \<Rightarrow> bool \<times> ('u, 'c) agent_world"
  ae_identity :: "AgentRequest \<Rightarrow> PermissionAuditMetadata option \<Rightarrow> ('u, 'c) agent_world \<Rightarrow> string option \<times> string option"
  ae_ask :: "AgentRequest \<Rightarrow> PermissionResult \<Rightarrow> continuation_frame \<Rightarrow> ('u, 'c) agent_world
    \<Rightarrow> wait_outcome \<times> ('u, 'c) agent_world"

section \<open>Checking one call\<close>

definition extend_unique :: "string list \<Rightarrow> string list \<Rightarrow> string list" where
  "extend_unique target vals = fold (\<lambda>v t. if v \<in> set t then t else t @ [v]) vals target"

definition with_tool_read_directories :: "string list \<Rightarrow> string list \<Rightarrow> ToolPermissionContext \<Rightarrow> ToolPermissionContext" where
  "with_tool_read_directories trusted relative ctx =
     (if trusted = [] \<and> relative = [] then ctx
      else
        let trusted_read = extend_unique (cx_trusted_read_directories ctx) trusted;
            relative_read = extend_unique (cx_relative_read_directories ctx) relative
        in if length trusted_read = length (cx_trusted_read_directories ctx)
              \<and> length relative_read = length (cx_relative_read_directories ctx) then ctx
           else ctx\<lparr>cx_trusted_read_directories := trusted_read, cx_relative_read_directories := relative_read\<rparr>)"

definition with_prompt_permission_metadata :: "Tool \<Rightarrow> pydict \<Rightarrow> PermissionResult \<Rightarrow> PermissionResult" where
  "with_prompt_permission_metadata tool tool_input permission =
     (let oper = tl_permission_audit_operation tool tool_input in
      case pr_audit permission of
        Some a \<Rightarrow>
          if oper = [] then permission
          else
            let merged_operation = dict_update (au_operation a) oper in
            if merged_operation = au_operation a then permission
            else permission\<lparr>pr_audit := Some (a\<lparr>au_operation := merged_operation\<rparr>)\<rparr>
      | None \<Rightarrow>
          if pr_behavior permission \<noteq> Ask then permission
          else
            let (reason_type, reason_detail) =
              (case pr_reason permission of None \<Rightarrow> (''prompt_required'', ''prompt_required'') | Some r \<Rightarrow> (dr_type r, dr_detail r))
            in permission\<lparr>pr_audit := Some
                 \<lparr>au_scope = ''once'', au_source = ''permission_pipeline'', au_rule_source = None, au_rule = None,
                  au_reason_type = Some reason_type, au_reason_detail = Some reason_detail,
                  au_is_read_only = Some (tl_is_read_only tool tool_input), au_operation = oper\<rparr>\<rparr>)"

definition current_context :: "('u, 'c, 'p) agent_env \<Rightarrow> ('u, 'c) agent_world \<Rightarrow> ToolPermissionContext option" where
  "current_context env w =
     (case (case ae_context_getter env of None \<Rightarrow> None | Some getter \<Rightarrow> getter w) of
        None \<Rightarrow> ae_permission_context env | Some ctx \<Rightarrow> Some ctx)"

definition effective_context :: "('u, 'c, 'p) agent_env \<Rightarrow> AgentRequest \<Rightarrow> ToolPermissionContext option \<Rightarrow> ToolPermissionContext" where
  "effective_context env req perm_ctx =
     (case perm_ctx of
        Some ctx \<Rightarrow>
          (with_tool_read_directories (ae_trusted_read_directories env) (ae_relative_read_directories env) ctx)
            \<lparr>cx_invocation_binding := Some (ar_invocation_binding req), cx_pipeline_mode := ae_pipeline_mode env\<rparr>
      | None \<Rightarrow>
          default_context\<lparr>cx_cwd := ae_cwd env, cx_invocation_binding := Some (ar_invocation_binding req),
            cx_pipeline_mode := ae_pipeline_mode env\<rparr>)"

definition request_permission :: "('u, 'c, 'p) agent_env \<Rightarrow> (('u, 'c) agent_world, 'p) AgentTool \<Rightarrow> AgentRequest
    \<Rightarrow> ('u, 'c) agent_world \<Rightarrow> PermissionResult" where
  "request_permission env tool req w =
     (let ctx = effective_context env req (current_context env w); view = at_view tool w in
      with_prompt_permission_metadata view (tc_input req)
        (if current_context env w = None then tl_check_permissions view (tc_input req) ctx
         else check_tool_permission view (tc_input req) ctx))"

definition bind_permission :: "PermissionResult \<Rightarrow> AgentRequest \<Rightarrow> AgentRequest" where
  "bind_permission permission req =
     req\<lparr>ar_snapshot_id := pr_snapshot_id permission, ar_security_digest := pr_security_digest permission,
         tc_execution_class := pr_execution_class permission,
         ar_invocation_binding := (case pr_invocation_binding permission of
             None \<Rightarrow> ar_invocation_binding req | Some b \<Rightarrow> b)\<rparr>"

definition own_snapshot :: "string option \<Rightarrow> ('u, 'c) agent_world \<Rightarrow> ('u, 'c) agent_world" where
  "own_snapshot snapshot_id w =
     (case snapshot_id of None \<Rightarrow> w | Some i \<Rightarrow> w\<lparr>wd_owned := List.insert i (wd_owned w)\<rparr>)"

definition check_request :: "('u, 'c, 'p) agent_env \<Rightarrow> (('u, 'c) agent_world, 'p) AgentTool \<Rightarrow> AgentRequest \<Rightarrow> ('u, 'c) agent_world
    \<Rightarrow> PermissionResult \<times> AgentRequest \<times> ('u, 'c) agent_world" where
  "check_request env tool req w =
     (let permission = request_permission env tool req w;
          w1 = at_checked tool (tc_input req) (effective_context env req (current_context env w)) w;
          req1 = bind_permission permission req
      in (permission, req1, own_snapshot (ar_snapshot_id req1) w1))"

definition reject_owned_contract_snapshot :: "('u, 'c, 'p) agent_env \<Rightarrow> string option \<Rightarrow> ('u, 'c) agent_world \<Rightarrow> ('u, 'c) agent_world" where
  "reject_owned_contract_snapshot env snapshot_id w =
     (case snapshot_id of
        None \<Rightarrow> w
      | Some i \<Rightarrow>
          let (pending, store) = is_pending (ae_clock env w) i (wd_contracts w) in
          w\<lparr>wd_contracts := (if pending then reject_snapshot i store else store), wd_owned := List.removeAll i (wd_owned w)\<rparr>)"

section \<open>Audit rows\<close>

definition MAX_PERMISSION_AUDIT_ITEMS :: nat where
  "MAX_PERMISSION_AUDIT_ITEMS = 8"

definition permission_audits :: "PermissionResult \<Rightarrow> bool \<Rightarrow> PermissionAuditMetadata list" where
  "permission_audits permission include_primary =
     fold (\<lambda>a audits. if Some a = pr_audit permission \<or> a \<in> set audits then audits else audits @ [a])
       (take MAX_PERMISSION_AUDIT_ITEMS (pr_audit_items permission))
       (if include_primary then (case pr_audit permission of None \<Rightarrow> [] | Some a \<Rightarrow> [a]) else [])"

definition is_mcp_operation_metadata :: "PermissionAuditMetadata \<Rightarrow> bool" where
  "is_mcp_operation_metadata a =
     list_all (\<lambda>key. map_of (au_operation a) key \<noteq> None) [''publicName'', ''originalServerName'', ''originalToolName'']"

definition is_routine_read_only_allow :: "behavior \<Rightarrow> PermissionAuditMetadata \<Rightarrow> bool" where
  "is_routine_read_only_allow decision a =
     (decision = Allow \<and> au_is_read_only a = Some True \<and> au_scope a = ''read_only'' \<and> \<not> is_mcp_operation_metadata a)"

fun emit_permission_audit_items :: "('u, 'c, 'p) agent_env \<Rightarrow> AgentRequest \<Rightarrow> behavior \<Rightarrow> PermissionAuditMetadata list
    \<Rightarrow> ('u, 'c) agent_world \<Rightarrow> bool \<times> ('u, 'c) agent_world" where
  "emit_permission_audit_items env req decision [] w = (True, w)"
| "emit_permission_audit_items env req decision (a # audits) w =
     (if is_routine_read_only_allow decision a then emit_permission_audit_items env req decision audits w
      else
        let (written, w1) = ae_write_audit env req a decision w;
            (rest, w2) = emit_permission_audit_items env req decision audits w1
        in (written \<and> rest, w2))"

definition emit_no_prompt_permission_audit :: "('u, 'c, 'p) agent_env \<Rightarrow> AgentRequest \<Rightarrow> PermissionResult \<Rightarrow> behavior
    \<Rightarrow> ('u, 'c) agent_world \<Rightarrow> bool \<times> ('u, 'c) agent_world" where
  "emit_no_prompt_permission_audit env req permission decision w =
     emit_permission_audit_items env req decision (permission_audits permission True) w"

definition user_denied_tool_result :: string where
  "user_denied_tool_result =
     ''The user explicitly denied this tool operation. This is not a cloud API or IAM permission error. ''
     @ ''Do not retry this operation or perform the same action with another tool unless the user asks again.''"

definition permission_denied :: string where
  "permission_denied = ''Permission denied.''"

section \<open>The requests of a response\<close>

definition make_request :: "('u, 'c, 'p) agent_env \<Rightarrow> ContentBlock \<Rightarrow> AgentRequest" where
  "make_request env tu =
     (let invocation_input = (case map_of (ae_tools env) (tu_name tu) of None \<Rightarrow> tu_input tu | Some t \<Rightarrow> at_prepare t (tu_input tu)) in
      \<lparr>tc_id = tu_id tu, tc_name = tu_name tu, tc_input = invocation_input, tc_execution_class = None,
       ar_invocation_binding =
         \<lparr>runtime_nonce = ae_runtime_nonce env, session_id = ae_session_id env, tool_use_id = tu_id tu,
          binding_tool_name = tu_name tu, canonical_input_sha256 = ae_input_sha256 env invocation_input\<rparr>,
       ar_snapshot_id = None, ar_security_digest = None\<rparr>)"

definition fresh_decision :: "AgentRequest \<Rightarrow> continuation_decision" where
  "fresh_decision req =
     \<lparr>cd_tool_use_id = tc_id req, cd_state = Not_Evaluated, cd_source = None, cd_denied_result = None, cd_identity = None\<rparr>"

definition decide :: "decision_state \<Rightarrow> string \<Rightarrow> string option \<Rightarrow> continuation_decision \<Rightarrow> continuation_decision" where
  \<comment> \<open>\<^verbatim>\<open>decision.update(state=..., source=..., deniedResult=...)\<close>, the last only when given\<close>
  "decide state source denied d =
     d\<lparr>cd_state := state, cd_source := Some source,
       cd_denied_result := (case denied of None \<Rightarrow> cd_denied_result d | Some r \<Rightarrow> Some r)\<rparr>"

definition selector_batch_error :: string where
  "selector_batch_error =
     ''select_cloud_resource must be called alone. Retry it as a standalone tool call; ''
     @ ''no tool in this batch was executed.''"

definition selector_in_batch :: "AgentRequest list \<Rightarrow> bool" where
  "selector_in_batch requests = (1 < length requests \<and> list_ex (\<lambda>r. tc_name r = ''select_cloud_resource'') requests)"

definition initial_decisions :: "(string \<times> string) list \<Rightarrow> AgentRequest list \<Rightarrow> continuation_decision list" where
  \<comment> \<open>an input error is a non-empty text\<close>
  "initial_decisions input_errors requests =
     map (\<lambda>d. case map_of input_errors (cd_tool_use_id d) of
         None \<Rightarrow> d | Some e \<Rightarrow> decide Denied ''input_error'' (Some e) d)
       (map (\<lambda>r. if selector_in_batch requests
              then decide Denied ''invalid_tool_batch'' (Some selector_batch_error) (fresh_decision r)
              else fresh_decision r) requests)"

section \<open>The phase\<close>

record ('u, 'c) permission_phase_state =
  ph_allowed :: "AgentRequest list"
  ph_denied :: "(AgentRequest \<times> ToolResult) list"
  ph_decisions :: "continuation_decision list"
  ph_world :: "('u, 'c) agent_world"

definition phase_allow :: "nat \<Rightarrow> AgentRequest \<Rightarrow> string \<Rightarrow> (string option \<times> string option) option
    \<Rightarrow> ('u, 'c) permission_phase_state \<Rightarrow> ('u, 'c) permission_phase_state" where
  "phase_allow i req source identity ph =
     ph\<lparr>ph_allowed := ph_allowed ph @ [req],
        ph_decisions := (ph_decisions ph)[i := (decide Allowed source None (ph_decisions ph ! i))
          \<lparr>cd_identity := (case identity of None \<Rightarrow> cd_identity (ph_decisions ph ! i) | Some x \<Rightarrow> Some x)\<rparr>]\<rparr>"

definition phase_deny :: "nat \<Rightarrow> AgentRequest \<Rightarrow> string \<Rightarrow> string \<Rightarrow> ('u, 'c) permission_phase_state \<Rightarrow> ('u, 'c) permission_phase_state" where
  "phase_deny i req source result ph =
     ph\<lparr>ph_denied := ph_denied ph @ [(req, result_error result)],
        ph_decisions := (ph_decisions ph)[i := decide Denied source (Some result) (ph_decisions ph ! i)]\<rparr>"

definition boundary_frame :: "continuation_frame \<Rightarrow> ('u, 'c, 'p) agent_env \<Rightarrow> ContentBlock list \<Rightarrow> nat
    \<Rightarrow> continuation_decision list \<Rightarrow> continuation_frame" where
  \<comment> \<open>the frame of the prompt for the call \<open>i\<close>; the reference, the digest and the ids of the message are those of \<open>fr\<close>\<close>
  "boundary_frame fr env uses i decisions =
     fr\<lparr>cf_current_index := int i, cf_payload_digest := ae_payload_digest env (tu_name (uses ! i)) (tu_input (uses ! i)),
        cf_decisions := decisions[i := (decisions ! i)\<lparr>cd_state := Pending, cd_source := None\<rparr>]\<rparr>"

definition prompt_phase :: "('u, 'c, 'p) agent_env \<Rightarrow> nat \<Rightarrow> AgentRequest \<Rightarrow> PermissionResult \<Rightarrow> wait_outcome
    \<Rightarrow> ('u, 'c) permission_phase_state \<Rightarrow> ('u, 'c) permission_phase_state" where
  \<comment> \<open>what follows the answer to a prompt, other than a suspension\<close>
  "prompt_phase env i req permission outc ph =
     (let approved = (outc = Approved);
          (audited, w1) = emit_permission_audit_items env req (if approved then Allow else Deny)
            (permission_audits permission False) (ph_world ph);
          ph1 = ph\<lparr>ph_world := w1\<rparr>
      in if approved \<and> audited then
           phase_allow i req ''user'' (Some (ae_identity env req (pr_audit permission) w1)) ph1
         else
           let denial_source = (if approved then ''audit_failure'' else if outc = Automatic_Deny then ''automatic'' else ''user'');
               denied_result = (if denial_source = ''user'' then user_denied_tool_result else permission_denied)
           in phase_deny i req denial_source denied_result
                (ph1\<lparr>ph_world := reject_owned_contract_snapshot env (ar_snapshot_id req) w1\<rparr>))"

definition policy_phase :: "('u, 'c, 'p) agent_env \<Rightarrow> nat \<Rightarrow> AgentRequest \<Rightarrow> PermissionResult
    \<Rightarrow> ('u, 'c) permission_phase_state \<Rightarrow> ('u, 'c) permission_phase_state" where
  \<comment> \<open>a call that the policy allows or denies without a prompt\<close>
  "policy_phase env i req permission ph =
     (let (audited, w1) = emit_no_prompt_permission_audit env req permission (pr_behavior permission) (ph_world ph);
          ph1 = ph\<lparr>ph_world := w1\<rparr>; w2 = reject_owned_contract_snapshot env (ar_snapshot_id req) w1
      in if pr_behavior permission = Allow then
           if audited then phase_allow i req ''policy'' None ph1
           else phase_deny i req ''audit_failure'' permission_denied (ph1\<lparr>ph_world := w2\<rparr>)
         else phase_deny i req ''policy''
           (if pr_message permission \<noteq> [] then pr_message permission else permission_denied) (ph1\<lparr>ph_world := w2\<rparr>))"

definition phase_step :: "('u, 'c, 'p) agent_env \<Rightarrow> (string \<times> string) list \<Rightarrow> continuation_frame \<Rightarrow> ContentBlock list \<Rightarrow> nat
    \<Rightarrow> AgentRequest \<Rightarrow> ('u, 'c) permission_phase_state \<Rightarrow> continuation_frame option \<times> ('u, 'c) permission_phase_state" where
  \<comment> \<open>the body of the loop; a frame in the result says that the batch was suspended at this call\<close>
  "phase_step env input_errors fr uses i req ph =
     (case map_of input_errors (tc_id req) of
        Some e \<Rightarrow> (None, phase_deny i req ''input_error'' e ph)
      | None \<Rightarrow>
          (case map_of (ae_tools env) (tc_name req) of
             None \<Rightarrow> (None, ph\<lparr>ph_allowed := ph_allowed ph @ [req]\<rparr>)
           | Some tool \<Rightarrow>
               let (permission, req1, w1) = check_request env tool req (ph_world ph); ph1 = ph\<lparr>ph_world := w1\<rparr> in
               if pr_behavior permission = Allow \<or> pr_behavior permission = Deny
               then (None, policy_phase env i req1 permission ph1)
               else
                 let fr1 = boundary_frame fr env uses i (ph_decisions ph1); (outc, w2) = ae_ask env req1 permission fr1 w1;
                     ph2 = ph1\<lparr>ph_decisions := cf_decisions fr1, ph_world := w2\<rparr>
                 in if outc = Suspend then (Some fr1, ph2) else (None, prompt_phase env i req1 permission outc ph2)))"

fun phase_loop :: "('u, 'c, 'p) agent_env \<Rightarrow> (string \<times> string) list \<Rightarrow> continuation_frame \<Rightarrow> ContentBlock list \<Rightarrow> nat
    \<Rightarrow> AgentRequest list \<Rightarrow> ('u, 'c) permission_phase_state \<Rightarrow> continuation_frame option \<times> ('u, 'c) permission_phase_state" where
  "phase_loop env input_errors fr uses i [] ph = (None, ph)"
| "phase_loop env input_errors fr uses i (req # reqs) ph =
     (case phase_step env input_errors fr uses i req ph of
        (Some fr1, ph1) \<Rightarrow> (Some fr1, ph1)
      | (None, ph1) \<Rightarrow> phase_loop env input_errors fr uses (Suc i) reqs ph1)"

definition permission_phase :: "('u, 'c, 'p) agent_env \<Rightarrow> (string \<times> string) list \<Rightarrow> string \<Rightarrow> string \<Rightarrow> ContentBlock list
    \<Rightarrow> ('u, 'c) agent_world \<Rightarrow> continuation_frame option \<times> ('u, 'c) permission_phase_state" where
  \<comment> \<open>the reference and the digest of the assistant message, and its tool uses\<close>
  "permission_phase env input_errors message_ref message_digest uses w =
     (let requests = map (make_request env) uses;
          ph = \<lparr>ph_allowed = [], ph_denied = (if selector_in_batch requests
                   then map (\<lambda>r. (r, result_error selector_batch_error)) requests else []),
                ph_decisions = initial_decisions input_errors requests, ph_world = w\<rparr>;
          fr = \<lparr>cf_message_ref = message_ref, cf_message_digest = message_digest, cf_ordered_ids = map tc_id requests,
                cf_current_index = 0, cf_payload_digest = [], cf_decisions = []\<rparr>
      in phase_loop env input_errors fr uses 0 (if selector_in_batch requests then [] else requests) ph)"

section \<open>What the phase lets through\<close>

definition granted_at :: "('u, 'c, 'p) agent_env \<Rightarrow> (string \<times> string) list \<Rightarrow> continuation_frame \<Rightarrow> ContentBlock list \<Rightarrow> nat
    \<Rightarrow> AgentRequest \<Rightarrow> ('u, 'c) permission_phase_state \<Rightarrow> AgentRequest \<Rightarrow> bool" where
  \<comment> \<open>the call \<open>i\<close> with request \<open>req\<close>, reached in the state \<open>ph\<close>, may run as \<open>r\<close>: in the world of that state the policy allows
    it, and then every audit row is written; or the policy does not deny it, the user approves the prompt that is shown
    next, and then every audit row is written\<close>
  "granted_at env input_errors fr uses i req ph r \<longleftrightarrow>
     map_of input_errors (tc_id req) = None
     \<and> (case map_of (ae_tools env) (tc_name req) of
          None \<Rightarrow> r = req
        | Some tool \<Rightarrow>
            (case check_request env tool req (ph_world ph) of
               (permission, req1, w1) \<Rightarrow>
                 r = req1
                 \<and> (pr_behavior permission = Allow \<and> fst (emit_permission_audit_items env r Allow (permission_audits permission True) w1)
                    \<or> pr_behavior permission \<notin> {Allow, Deny}
                      \<and> (case ae_ask env r permission (boundary_frame fr env uses i (ph_decisions ph)) w1 of
                           (outc, w2) \<Rightarrow>
                             outc = Approved \<and> fst (emit_permission_audit_items env r Allow (permission_audits permission False) w2)))))"

definition message_frame :: "('u, 'c, 'p) agent_env \<Rightarrow> string \<Rightarrow> string \<Rightarrow> ContentBlock list \<Rightarrow> continuation_frame" where
  "message_frame env message_ref message_digest uses =
     \<lparr>cf_message_ref = message_ref, cf_message_digest = message_digest, cf_ordered_ids = map tc_id (map (make_request env) uses),
      cf_current_index = 0, cf_payload_digest = [], cf_decisions = []\<rparr>"

definition phase_start :: "('u, 'c, 'p) agent_env \<Rightarrow> (string \<times> string) list \<Rightarrow> ContentBlock list \<Rightarrow> ('u, 'c) agent_world
    \<Rightarrow> ('u, 'c) permission_phase_state" where
  "phase_start env input_errors uses w =
     (let requests = map (make_request env) uses in
      \<lparr>ph_allowed = [], ph_denied = (if selector_in_batch requests
         then map (\<lambda>r. (r, result_error selector_batch_error)) requests else []),
       ph_decisions = initial_decisions input_errors requests, ph_world = w\<rparr>)"

definition phase_before :: "('u, 'c, 'p) agent_env \<Rightarrow> (string \<times> string) list \<Rightarrow> string \<Rightarrow> string \<Rightarrow> ContentBlock list
    \<Rightarrow> ('u, 'c) agent_world \<Rightarrow> nat \<Rightarrow> ('u, 'c) permission_phase_state" where
  \<comment> \<open>the state in which the phase of this batch reaches the call \<open>i\<close>\<close>
  "phase_before env input_errors message_ref message_digest uses w i =
     snd (phase_loop env input_errors (message_frame env message_ref message_digest uses) uses 0
       (take i (map (make_request env) uses)) (phase_start env input_errors uses w))"

lemma permission_phase_alt:
  "permission_phase env input_errors message_ref message_digest uses w =
     phase_loop env input_errors (message_frame env message_ref message_digest uses) uses 0
       (if selector_in_batch (map (make_request env) uses) then [] else map (make_request env) uses)
       (phase_start env input_errors uses w)"
  by (simp add: permission_phase_def message_frame_def phase_start_def Let_def)

lemma bind_permission_sel [simp]:
  "tc_id (bind_permission p req) = tc_id req" "tc_name (bind_permission p req) = tc_name req"
  "tc_input (bind_permission p req) = tc_input req"
  by (simp_all add: bind_permission_def)

lemma phase_allow_sel [simp]:
  "ph_allowed (phase_allow i req src x ph) = ph_allowed ph @ [req]" "ph_denied (phase_allow i req src x ph) = ph_denied ph"
  by (simp_all add: phase_allow_def)

lemma phase_deny_sel [simp]:
  "ph_allowed (phase_deny i req src x ph) = ph_allowed ph"
  "ph_denied (phase_deny i req src x ph) = ph_denied ph @ [(req, result_error x)]"
  by (simp_all add: phase_deny_def)

definition one_more :: "('u, 'c, 'p) agent_env \<Rightarrow> (string \<times> string) list \<Rightarrow> continuation_frame \<Rightarrow> ContentBlock list \<Rightarrow> nat
    \<Rightarrow> AgentRequest \<Rightarrow> ('u, 'c) permission_phase_state \<Rightarrow> ('u, 'c) permission_phase_state \<Rightarrow> bool" where
  "one_more env input_errors fr uses i req ph ph' \<longleftrightarrow>
     (\<exists>r. tc_id r = tc_id req
        \<and> (ph_allowed ph' = ph_allowed ph @ [r] \<and> ph_denied ph' = ph_denied ph \<and> granted_at env input_errors fr uses i req ph r
           \<or> (\<exists>e. ph_allowed ph' = ph_allowed ph \<and> ph_denied ph' = ph_denied ph @ [(r, result_error e)])))"

lemma one_more_allowed:
  assumes "tc_id r = tc_id req" and "ph_allowed ph' = ph_allowed ph @ [r]" and "ph_denied ph' = ph_denied ph"
    and "granted_at env input_errors fr uses i req ph r"
  shows "one_more env input_errors fr uses i req ph ph'"
  using assms unfolding one_more_def by blast

lemma one_more_denied:
  assumes "tc_id r = tc_id req" and "ph_allowed ph' = ph_allowed ph" and "ph_denied ph' = ph_denied ph @ [(r, result_error e)]"
  shows "one_more env input_errors fr uses i req ph ph'"
  using assms unfolding one_more_def by blast

lemma policy_phase_result:
  assumes "pr_behavior permission = Allow \<or> pr_behavior permission = Deny"
  shows "if pr_behavior permission = Allow \<and> fst (emit_permission_audit_items env r Allow (permission_audits permission True) (ph_world ph))
    then ph_allowed (policy_phase env i r permission ph) = ph_allowed ph @ [r] \<and> ph_denied (policy_phase env i r permission ph) = ph_denied ph
    else \<exists>e. ph_allowed (policy_phase env i r permission ph) = ph_allowed ph
      \<and> ph_denied (policy_phase env i r permission ph) = ph_denied ph @ [(r, result_error e)]"
  using assms by (auto simp: policy_phase_def emit_no_prompt_permission_audit_def Let_def split: prod.splits)

lemma prompt_phase_result:
  "if outc = Approved \<and> fst (emit_permission_audit_items env r Allow (permission_audits permission False) (ph_world ph))
    then ph_allowed (prompt_phase env i r permission outc ph) = ph_allowed ph @ [r]
      \<and> ph_denied (prompt_phase env i r permission outc ph) = ph_denied ph
    else \<exists>e. ph_allowed (prompt_phase env i r permission outc ph) = ph_allowed ph
      \<and> ph_denied (prompt_phase env i r permission outc ph) = ph_denied ph @ [(r, result_error e)]"
  by (auto simp: prompt_phase_def Let_def split: prod.splits)

lemma phase_step_one:
  assumes "phase_step env input_errors fr uses i req ph = (stop, ph')"
  shows "if stop = None then one_more env input_errors fr uses i req ph ph'
    else ph_allowed ph' = ph_allowed ph \<and> ph_denied ph' = ph_denied ph"
proof (cases "map_of input_errors (tc_id req)")
  case (Some e)
  then show ?thesis using assms by (auto simp: phase_step_def intro: one_more_denied)
next
  case None
  show ?thesis
  proof (cases "map_of (ae_tools env) (tc_name req)")
    case tNone: None
    then show ?thesis using assms None by (auto simp: phase_step_def granted_at_def intro: one_more_allowed)
  next
    case (Some tool)
    obtain p r w1 where c: "check_request env tool req (ph_world ph) = (p, r, w1)" by (rule prod_cases3)
    then have id: "tc_id r = tc_id req" by (auto simp: check_request_def Let_def)
    show ?thesis
    proof (cases "pr_behavior p = Allow \<or> pr_behavior p = Deny")
      case True
      have "ph' = policy_phase env i r p (ph\<lparr>ph_world := w1\<rparr>)" "stop = None"
        using assms None Some c True by (auto simp: phase_step_def Let_def)
      then show ?thesis
        using policy_phase_result [OF True, of env r "ph\<lparr>ph_world := w1\<rparr>" i] None Some c id
        by (auto simp: granted_at_def intro: one_more_allowed one_more_denied split: if_splits)
    next
      case False
      let ?fr = "boundary_frame fr env uses i (ph_decisions ph)"
      obtain outc w2 where a: "ae_ask env r p ?fr w1 = (outc, w2)" by fastforce
      let ?ph = "ph\<lparr>ph_decisions := cf_decisions ?fr, ph_world := w2\<rparr>"
      have step: "(stop, ph') = (if outc = Suspend then (Some ?fr, ?ph) else (None, prompt_phase env i r p outc ?ph))"
        using assms None Some c False a by (simp add: phase_step_def Let_def)
      show ?thesis
        using step prompt_phase_result [of outc env r p ?ph i] None Some c id a False
        by (auto simp: granted_at_def intro: one_more_allowed one_more_denied split: if_splits)
    qed
  qed
qed

lemma phase_loop_sound:
  assumes "phase_loop env input_errors fr uses i reqs ph = (stop, ph')"
  shows "\<exists>A D. ph_allowed ph' = ph_allowed ph @ A \<and> ph_denied ph' = ph_denied ph @ D
    \<and> (\<forall>r \<in> set A. \<exists>k < length reqs. tc_id r = tc_id (reqs ! k)
         \<and> granted_at env input_errors fr uses (i + k) (reqs ! k) (snd (phase_loop env input_errors fr uses i (take k reqs) ph)) r)
    \<and> (\<forall>(r, res) \<in> set D. \<exists>e. res = result_error e)
    \<and> (stop = None \<longrightarrow> mset (map tc_id A @ map (\<lambda>d. tc_id (fst d)) D) = mset (map tc_id reqs))"
  using assms
proof (induction reqs arbitrary: i ph)
  case Nil
  then show ?case by simp
next
  case (Cons req reqs)
  obtain stop1 ph1 where st: "phase_step env input_errors fr uses i req ph = (stop1, ph1)" by fastforce
  note one = phase_step_one [OF st]
  show ?case
  proof (cases stop1)
    case (Some fr1)
    then have "ph_allowed ph' = ph_allowed ph" "ph_denied ph' = ph_denied ph" "stop \<noteq> None"
      using Cons.prems st one by auto
    then show ?thesis by simp
  next
    case None
    let ?at = "\<lambda>k r. tc_id r = tc_id ((req # reqs) ! k) \<and> granted_at env input_errors fr uses (i + k) ((req # reqs) ! k)
        (snd (phase_loop env input_errors fr uses i (take k (req # reqs)) ph)) r"
    have "phase_loop env input_errors fr uses (Suc i) reqs ph1 = (stop, ph')" using Cons.prems st None by simp
    from Cons.IH [OF this] obtain A D where
      ih: "ph_allowed ph' = ph_allowed ph1 @ A" "ph_denied ph' = ph_denied ph1 @ D"
        "\<forall>r \<in> set A. \<exists>k < length reqs. tc_id r = tc_id (reqs ! k) \<and> granted_at env input_errors fr uses (Suc i + k) (reqs ! k)
           (snd (phase_loop env input_errors fr uses (Suc i) (take k reqs) ph1)) r"
        "\<forall>(r, res) \<in> set D. \<exists>e. res = result_error e"
        "stop = None \<longrightarrow> mset (map tc_id A @ map (\<lambda>d. tc_id (fst d)) D) = mset (map tc_id reqs)" by blast
    have later: "\<exists>k < length (req # reqs). ?at k r" if r: "r \<in> set A" for r
    proof -
      obtain k where "k < length reqs" "tc_id r = tc_id (reqs ! k)" "granted_at env input_errors fr uses (Suc i + k) (reqs ! k)
           (snd (phase_loop env input_errors fr uses (Suc i) (take k reqs) ph1)) r" using ih(3) r by blast
      then show ?thesis using st None by (intro exI [of _ "Suc k"]) simp
    qed
    obtain r where r: "tc_id r = tc_id req" and
      "ph_allowed ph1 = ph_allowed ph @ [r] \<and> ph_denied ph1 = ph_denied ph \<and> granted_at env input_errors fr uses i req ph r
       \<or> (\<exists>e. ph_allowed ph1 = ph_allowed ph \<and> ph_denied ph1 = ph_denied ph @ [(r, result_error e)])"
      using one None unfolding one_more_def by auto
    then show ?thesis
    proof (elim disjE exE)
      assume g: "ph_allowed ph1 = ph_allowed ph @ [r] \<and> ph_denied ph1 = ph_denied ph \<and> granted_at env input_errors fr uses i req ph r"
      then have "\<exists>k < length (req # reqs). ?at k r" using r by (intro exI [of _ 0]) simp
      then show ?thesis using ih r g later by (intro exI [of _ "r # A"] exI [of _ D]) auto
    next
      fix e assume "ph_allowed ph1 = ph_allowed ph \<and> ph_denied ph1 = ph_denied ph @ [(r, result_error e)]"
      then show ?thesis using ih r later by (intro exI [of _ A] exI [of _ "(r, result_error e) # D"]) auto
    qed
  qed
qed

lemma make_request_id [simp]: "tc_id (make_request env tu) = tu_id tu" "tc_name (make_request env tu) = tu_name tu"
  by (simp_all add: make_request_def Let_def)

lemma request_ids: "map tc_id (map (make_request env) uses) = map tu_id uses"
  by simp

lemma permission_phase_sound:
  assumes "permission_phase env input_errors message_ref message_digest uses w = (stop, ph)"
  shows "\<forall>r \<in> set (ph_allowed ph). \<exists>k < length uses. tc_id r = tu_id (uses ! k)
      \<and> granted_at env input_errors (message_frame env message_ref message_digest uses) uses k (make_request env (uses ! k))
          (phase_before env input_errors message_ref message_digest uses w k) r"
    and "selector_in_batch (map (make_request env) uses) \<Longrightarrow> ph_allowed ph = []"
    and "\<forall>(r, res) \<in> set (ph_denied ph). \<exists>e. res = result_error e"
    and "stop = None \<Longrightarrow> mset (map tc_id (ph_allowed ph) @ map (\<lambda>d. tc_id (fst d)) (ph_denied ph)) = mset (map tu_id uses)"
proof -
  let ?reqs = "map (make_request env) uses" and ?ph0 = "phase_start env input_errors uses w"
  let ?fr = "message_frame env message_ref message_digest uses"
  have l: "phase_loop env input_errors ?fr uses 0 (if selector_in_batch ?reqs then [] else ?reqs) ?ph0 = (stop, ph)"
    using assms unfolding permission_phase_alt .
  have ph0: "ph_allowed ?ph0 = []"
      "ph_denied ?ph0 = (if selector_in_batch ?reqs then map (\<lambda>r. (r, result_error selector_batch_error)) ?reqs else [])"
    by (simp_all add: phase_start_def Let_def)
  obtain A D where AD: "ph_allowed ph = A" "ph_denied ph = ph_denied ?ph0 @ D"
    "\<forall>r \<in> set A. \<exists>k < length (if selector_in_batch ?reqs then [] else ?reqs). tc_id r = tc_id ((if selector_in_batch ?reqs then [] else ?reqs) ! k)
       \<and> granted_at env input_errors ?fr uses (0 + k) ((if selector_in_batch ?reqs then [] else ?reqs) ! k)
           (snd (phase_loop env input_errors ?fr uses 0 (take k (if selector_in_batch ?reqs then [] else ?reqs)) ?ph0)) r"
    "\<forall>(r, res) \<in> set D. \<exists>e. res = result_error e"
    "stop = None \<longrightarrow> mset (map tc_id A @ map (\<lambda>d. tc_id (fst d)) D) = mset (map tc_id (if selector_in_batch ?reqs then [] else ?reqs))"
    using phase_loop_sound [OF l] ph0 by auto
  show "\<forall>r \<in> set (ph_allowed ph). \<exists>k < length uses. tc_id r = tu_id (uses ! k)
      \<and> granted_at env input_errors ?fr uses k (make_request env (uses ! k)) (phase_before env input_errors message_ref message_digest uses w k) r"
    using AD(1,3) by (cases "selector_in_batch ?reqs") (fastforce simp: phase_before_def)+
  show "selector_in_batch ?reqs \<Longrightarrow> ph_allowed ph = []" using AD(1,3) by (cases A) auto
  show "\<forall>(r, res) \<in> set (ph_denied ph). \<exists>e. res = result_error e" using AD(2,4) ph0(2) by (auto split: if_splits)
  show "stop = None \<Longrightarrow> mset (map tc_id (ph_allowed ph) @ map (\<lambda>d. tc_id (fst d)) (ph_denied ph)) = mset (map tu_id uses)"
    using AD(1,2,5) ph0(2) by (cases "selector_in_batch ?reqs") (simp_all add: comp_def)
qed

text \<open>
  C5: A tool call of a response runs only with a permission that this run obtained for it. If the permission phase lets the
  request r through, then r stems from the call k of the response, whose arguments were readable, and, with the state in
  which this run reaches the call k (after the calls before it were checked, prompted for and audited): unless no tool of that
  name is registered (then the request runs unchanged, and the executor answers with an error), the permission check in the
  world of that state yields r itself, with its binding, contract snapshot and execution class, and either allows it, and the
  audit rows written next are all written, or it does not deny it, the answer to the prompt shown next (with the frame built
  from the decisions so far) is the approval, and the audit rows written after that answer are all written. If the batch mixes
  \<^verbatim>\<open>select_cloud_resource\<close> with other calls, nothing runs.
\<close>

theorem executed_calls_permitted:
  assumes "permission_phase env input_errors message_ref message_digest uses w = (stop, ph)" and "r \<in> set (ph_allowed ph)"
  shows "\<not> selector_in_batch (map (make_request env) uses)
    \<and> (\<exists>k < length uses. tc_id r = tu_id (uses ! k) \<and> map_of input_errors (tu_id (uses ! k)) = None
         \<and> (let req = make_request env (uses ! k); ph_k = phase_before env input_errors message_ref message_digest uses w k in
            case map_of (ae_tools env) (tu_name (uses ! k)) of
              None \<Rightarrow> r = req
            | Some tool \<Rightarrow>
                \<exists>permission w1. check_request env tool req (ph_world ph_k) = (permission, r, w1)
                  \<and> (pr_behavior permission = Allow \<and> fst (emit_permission_audit_items env r Allow (permission_audits permission True) w1)
                     \<or> pr_behavior permission \<notin> {Allow, Deny}
                       \<and> (\<exists>w2. ae_ask env r permission
                              (boundary_frame (message_frame env message_ref message_digest uses) env uses k (ph_decisions ph_k)) w1 = (Approved, w2)
                            \<and> fst (emit_permission_audit_items env r Allow (permission_audits permission False) w2)))))"
proof -
  obtain k where k: "k < length uses" "tc_id r = tu_id (uses ! k)"
      "granted_at env input_errors (message_frame env message_ref message_digest uses) uses k (make_request env (uses ! k))
         (phase_before env input_errors message_ref message_digest uses w k) r"
    using permission_phase_sound(1) [OF assms(1)] assms(2) by blast
  have "\<not> selector_in_batch (map (make_request env) uses)"
    using permission_phase_sound(2) [OF assms(1)] assms(2) by fastforce
  with k show ?thesis
    by (intro conjI exI [of _ k]) (auto simp: granted_at_def Let_def split: option.splits prod.splits)
qed

section \<open>An example\<close>

definition noop_tool :: "string \<Rightarrow> ('w, unit) ExecTool" where
  "noop_tool name =
     \<lparr>et_name = name, et_is_concurrency_safe = (\<lambda>_. False), et_requires_runtime_execution_class = False,
      et_validate_input = (\<lambda>_. (True, [])), et_validation_error_result = (\<lambda>_. None), et_execution_timeout = (\<lambda>_. None),
      et_has_unbounded_execution_wait = (\<lambda>_. False), et_timeout_error_result = (\<lambda>_ _. None),
      et_execute = (\<lambda>_ _ w. (Returned \<lparr>res_content = ''done'', res_is_error = False, res_new_messages = [], res_metadata = None\<rparr>, w))\<rparr>"

definition sample_agent_world :: "(nat, nat) agent_world" where
  "sample_agent_world = \<lparr>wd_user = 0, wd_contracts = sample_store, wd_owned = []\<rparr>"

definition sample_agent :: "wait_outcome \<Rightarrow> (nat, nat, unit) agent_env" where
  \<comment> \<open>one registered tool, an audit log that can be written, and a user who answers every prompt alike\<close>
  "sample_agent outc =
     \<lparr>ae_tools = [(''write_file'', \<lparr>at_exec = noop_tool ''write_file'', at_view = (\<lambda>w. WriteFileTool plain_env),
        at_checked = (\<lambda>_ _ w. w), at_prepare = (\<lambda>x. x)\<rparr>)],
      ae_context_getter = None, ae_permission_context = Some (default_context\<lparr>cx_cwd := ''/p''\<rparr>), ae_cwd = ''/p'',
      ae_trusted_read_directories = [], ae_relative_read_directories = [], ae_pipeline_mode = False,
      ae_runtime_nonce = ''n'', ae_session_id = ''s'', ae_input_sha256 = (\<lambda>_. ''h''), ae_message_digest = (\<lambda>_. ''m''),
      ae_payload_digest = (\<lambda>_ _. ''p''), ae_clock = (\<lambda>_. 0), ae_write_audit = (\<lambda>_ _ _ w. (True, w)),
      ae_identity = (\<lambda>_ _ _. (None, None)), ae_ask = (\<lambda>_ _ _ w. (outc, w))\<rparr>"

definition write_use :: "string \<Rightarrow> string \<Rightarrow> ContentBlock" where
  "write_use i name = ToolUseBlock i name [(''path'', PyStr ''a''), (''content'', PyStr ''x'')] []"

lemma sample_phase_allowed:
  "hd (ph_allowed (snd (permission_phase (sample_agent Approved) [] ''r'' ''m'' [write_use ''1'' ''write_file''] sample_agent_world)))
   \<in> set (ph_allowed (snd (permission_phase (sample_agent Approved) [] ''r'' ''m'' [write_use ''1'' ''write_file''] sample_agent_world)))"
proof -
  have "ph_allowed (snd (permission_phase (sample_agent Approved) [] ''r'' ''m'' [write_use ''1'' ''write_file''] sample_agent_world)) \<noteq> []"
    by code_simp
  then show ?thesis by simp
qed

theorem executed_calls_permitted_witness:
  "(let env = sample_agent Approved; uses = [write_use ''1'' ''write_file''];
        r = hd (ph_allowed (snd (permission_phase env [] ''r'' ''m'' uses sample_agent_world)))
    in tc_id r = ''1'' \<and> \<not> selector_in_batch (map (make_request env) uses))"
  using executed_calls_permitted [OF prod.collapse [symmetric] sample_phase_allowed] by (simp add: Let_def write_use_def)

end
