(* ===== verification/Permission_Resume.thy ===== *)
theory Permission_Resume
  imports Permission_Phase
begin

text \<open>
  \<^verbatim>\<open>resume_permission_boundary\<close> of \<^verbatim>\<open>agent/agent_loop.py\<close>: a batch of tool calls that was suspended at a permission
  prompt goes on from its durable checkpoint, in a new run of the program. Every call is checked again; what the frame
  recorded before the suspension counts only as far as the policy and the caller identity of today agree.

  A checkpoint is the record of the fields the function reads (\<^verbatim>\<open>ck_has_candidate\<close> says that the pipeline coordinates
  hold a candidate); the frame is the one of \<open>Permission_Phase\<close>. What the recovered calls do, and the results they add
  to the conversation, is in the theory of the agent loop.
\<close>

section \<open>The checkpoint\<close>

record permission_checkpoint =
  ck_frame :: "continuation_frame option"
  ck_decision :: "(string \<times> string option) option"  \<comment> \<open>status and value\<close>
  ck_phase :: string
  ck_permission_class :: string
  ck_has_candidate :: bool
  ck_boundary_id :: "string option"
  ck_tool_use_id :: string
  ck_payload_digest :: string
  ck_identity :: "string option \<times> string option"

datatype 'a resumed = Failed py_error | Waiting continuation_frame | Going (going: 'a)

definition resume_invalid :: "string \<Rightarrow> 'a resumed" where
  "resume_invalid reason = Failed (ValueError (''permission_resume_invalid: '' @ reason))"

definition rebuild_wait :: "permission_checkpoint \<Rightarrow> string \<times> string option \<Rightarrow> bool" where
  "rebuild_wait ck decision =
     (ck_phase ck = ''SUSPENDED'' \<and> ck_permission_class ck = ''pipeline'' \<and> ck_has_candidate ck
      \<and> ck_boundary_id ck \<noteq> None \<and> fst decision = ''none'' \<and> snd decision = None)"

definition message_ref_at :: "string option \<Rightarrow> nat \<Rightarrow> string" where
  "message_ref_at transcript_id i =
     (case transcript_id of
        None \<Rightarrow> ''session.jsonl:'' @ nat_str i
      | Some t \<Rightarrow> ''pipeline/transcripts/'' @ t @ ''/session.jsonl:'' @ nat_str i)"

section \<open>One call\<close>

record ('u, 'c) resume_verdict =
  rv_state :: decision_state
  rv_source :: "string option"
  rv_record :: continuation_decision
  rv_world :: "('u, 'c) agent_world"

definition verdict :: "decision_state \<Rightarrow> string \<Rightarrow> continuation_decision \<Rightarrow> ('u, 'c) agent_world \<Rightarrow> ('u, 'c) resume_verdict" where
  "verdict state source recorded w = \<lparr>rv_state = state, rv_source = Some source, rv_record = recorded, rv_world = w\<rparr>"

definition refused :: "string \<Rightarrow> string \<Rightarrow> continuation_decision \<Rightarrow> ('u, 'c) agent_world \<Rightarrow> ('u, 'c) resume_verdict" where
  "refused source result recorded w = verdict Denied source (recorded\<lparr>cd_denied_result := Some result\<rparr>) w"

definition answer_current :: "('u, 'c, 'p) agent_env \<Rightarrow> permission_checkpoint \<Rightarrow> wait_outcome \<Rightarrow> AgentRequest \<Rightarrow> PermissionResult
    \<Rightarrow> continuation_decision \<Rightarrow> ('u, 'c) agent_world \<Rightarrow> ('u, 'c) resume_verdict resumed" where
  \<comment> \<open>the call at the boundary, given the decision on it\<close>
  "answer_current env ck outc req permission recorded w =
     (let automatic_deny = (outc = Automatic_Deny); approved = (outc = Approved);
          source = (if automatic_deny then ''automatic'' else ''user'');
          denied_result = (if automatic_deny then permission_denied else user_denied_tool_result);
          identity = ae_identity env req (pr_audit permission) w
      in if approved \<and> identity \<noteq> ck_identity ck then resume_invalid ''cloud execution identity changed''
         else
           let (additional_ok, w1) = (if pr_behavior permission \<noteq> Deny
                 then emit_permission_audit_items env req (if approved then Allow else Deny) (permission_audits permission False) w
                 else (True, w))
           in Going (if \<not> approved then refused source denied_result recorded w1
                     else if \<not> additional_ok then refused ''audit_failure'' permission_denied recorded w1
                     else verdict Allowed source (recorded\<lparr>cd_identity := Some identity\<rparr>) w1))"

definition resume_current :: "('u, 'c, 'p) agent_env \<Rightarrow> permission_checkpoint \<Rightarrow> string \<times> string option \<Rightarrow> continuation_frame
    \<Rightarrow> AgentRequest \<Rightarrow> PermissionResult option \<Rightarrow> continuation_decision \<Rightarrow> ('u, 'c) agent_world
    \<Rightarrow> ('u, 'c) resume_verdict resumed" where
  "resume_current env ck decision fr req perm recorded w =
     (case perm of
        None \<Rightarrow> resume_invalid ''current tool is unavailable''
      | Some permission \<Rightarrow>
          if rebuild_wait ck decision then
            if ae_identity env req (pr_audit permission) w \<noteq> ck_identity ck
            then resume_invalid ''cloud execution identity changed''
            else
              let (outc, w1) = ae_ask env req permission fr w in
              if outc = Suspend then Waiting fr else answer_current env ck outc req permission recorded w1
          else answer_current env ck (if snd decision = Some ''allow_once'' then Approved else Refused) req permission recorded w)"

definition resume_prior :: "('u, 'c, 'p) agent_env \<Rightarrow> AgentRequest \<Rightarrow> PermissionResult option \<Rightarrow> continuation_decision
    \<Rightarrow> ('u, 'c) agent_world \<Rightarrow> ('u, 'c) resume_verdict" where
  \<comment> \<open>a call before the boundary\<close>
  "resume_prior env req perm recorded w =
     (if cd_state recorded \<noteq> Allowed
      then \<lparr>rv_state = cd_state recorded, rv_source = cd_source recorded, rv_record = recorded, rv_world = w\<rparr>
      else (case perm of
          None \<Rightarrow> refused ''missing_tool'' permission_denied recorded w
        | Some permission \<Rightarrow>
            if cd_source recorded = Some ''user'' then
              if cd_identity recorded \<noteq> Some (ae_identity env req (pr_audit permission) w)
              then refused ''identity_changed'' permission_denied recorded w
              else verdict Allowed ''user'' recorded w
            else if cd_source recorded \<noteq> Some ''policy''
            then refused ''permission_changed'' permission_denied recorded w
            else if pr_behavior permission \<noteq> Allow \<and> pr_behavior permission \<noteq> Deny
            then refused ''permission_changed'' permission_denied recorded w
            else verdict Allowed ''policy'' recorded w))"

definition resume_later :: "('u, 'c, 'p) agent_env \<Rightarrow> continuation_frame \<Rightarrow> ContentBlock list \<Rightarrow> nat \<Rightarrow> AgentRequest
    \<Rightarrow> PermissionResult option \<Rightarrow> continuation_decision list \<Rightarrow> ('u, 'c) agent_world \<Rightarrow> ('u, 'c) resume_verdict resumed" where
  \<comment> \<open>a call after the boundary, decided as in a live batch\<close>
  "resume_later env fr uses i req perm decisions w =
     (let recorded = decisions ! i in
      case perm of
        None \<Rightarrow> Going (verdict Allowed ''missing_tool'' recorded w)
      | Some permission \<Rightarrow>
          if pr_behavior permission = Allow then
            let (audit_ok, w1) = emit_no_prompt_permission_audit env req permission Allow w in
            Going (if audit_ok then verdict Allowed ''policy'' recorded w1 else refused ''audit_failure'' permission_denied recorded w1)
          else if pr_behavior permission = Deny then
            let (_, w1) = emit_no_prompt_permission_audit env req permission Deny w in
            Going (refused ''policy'' (if pr_message permission \<noteq> [] then pr_message permission else permission_denied) recorded w1)
          else
            let fr1 = boundary_frame fr env uses i decisions; recorded1 = cf_decisions fr1 ! i;
                (outc, w1) = ae_ask env req permission fr1 w
            in if outc = Suspend then Waiting fr1
               else
                 let approved = (outc = Approved);
                     (additional_ok, w2) = emit_permission_audit_items env req (if approved then Allow else Deny)
                       (permission_audits permission False) w1
                 in Going (if \<not> approved then
                        (if outc = Automatic_Deny then refused ''automatic'' permission_denied recorded1 w2
                         else refused ''user'' user_denied_tool_result recorded1 w2)
                      else if \<not> additional_ok then refused ''audit_failure'' permission_denied recorded1 w2
                      else verdict Allowed ''user''
                        (recorded1\<lparr>cd_identity := Some (ae_identity env req (pr_audit permission) w2)\<rparr>) w2))"

definition enforce_policy :: "('u, 'c, 'p) agent_env \<Rightarrow> AgentRequest \<Rightarrow> PermissionResult option \<Rightarrow> ('u, 'c) resume_verdict
    \<Rightarrow> ('u, 'c) resume_verdict" where
  \<comment> \<open>a recovered decision never overrides a policy that has become a hard deny\<close>
  "enforce_policy env req perm v =
     (case perm of
        Some permission \<Rightarrow>
          if rv_state v = Allowed \<and> pr_behavior permission = Deny then
            let (_, w1) = emit_no_prompt_permission_audit env req permission Deny (rv_world v) in
            refused ''policy'' (if pr_message permission \<noteq> [] then pr_message permission else permission_denied) (rv_record v) w1
          else v
      | None \<Rightarrow> v)"

section \<open>The batch\<close>

record ('u, 'c) resume_state =
  rs_allowed :: "AgentRequest list"
  rs_denied :: "(string \<times> ToolResult) list"  \<comment> \<open>\<^verbatim>\<open>denied_by_id\<close>\<close>
  rs_decisions :: "continuation_decision list"
  rs_world :: "('u, 'c) agent_world"

definition denied_text :: "continuation_decision \<Rightarrow> string" where
  "denied_text d = (case cd_denied_result d of None \<Rightarrow> permission_denied | Some t \<Rightarrow> if t = [] then permission_denied else t)"

definition deny_recovered :: "('u, 'c, 'p) agent_env \<Rightarrow> AgentRequest \<Rightarrow> continuation_decision \<Rightarrow> ('u, 'c) resume_state \<Rightarrow> ('u, 'c) resume_state" where
  "deny_recovered env req d rs =
     rs\<lparr>rs_denied := dict_set (tc_id req) (result_error (denied_text d)) (rs_denied rs),
        rs_world := reject_owned_contract_snapshot env (ar_snapshot_id req) (rs_world rs)\<rparr>"

definition settle_recovered :: "('u, 'c, 'p) agent_env \<Rightarrow> nat \<Rightarrow> AgentRequest \<Rightarrow> ('u, 'c) resume_verdict \<Rightarrow> ('u, 'c) resume_state
    \<Rightarrow> ('u, 'c) resume_state resumed" where
  \<comment> \<open>the end of the loop body\<close>
  "settle_recovered env i req v rs =
     (let d = (rv_record v)\<lparr>cd_identity := (if rv_state v = Denied then None else cd_identity (rv_record v)),
                cd_state := rv_state v, cd_source := rv_source v\<rparr>;
          rs1 = rs\<lparr>rs_decisions := (rs_decisions rs)[i := d], rs_world := rv_world v\<rparr>
      in case rv_state v of
           Allowed \<Rightarrow> Going (rs1\<lparr>rs_allowed := rs_allowed rs1 @ [req]\<rparr>)
         | Denied \<Rightarrow> Going (deny_recovered env req d rs1)
         | _ \<Rightarrow> resume_invalid ''prior tool decision is incomplete'')"

definition check_recovered :: "('u, 'c, 'p) agent_env \<Rightarrow> AgentRequest \<Rightarrow> ('u, 'c) agent_world
    \<Rightarrow> PermissionResult option \<times> AgentRequest \<times> ('u, 'c) agent_world" where
  \<comment> \<open>\<^verbatim>\<open>_permission_for_recovered_request\<close>\<close>
  "check_recovered env req w =
     (case map_of (ae_tools env) (tc_name req) of
        None \<Rightarrow> (None, req, w)
      | Some tool \<Rightarrow> (let (permission, req1, w1) = check_request env tool req w in (Some permission, req1, w1)))"

definition resume_step :: "('u, 'c, 'p) agent_env \<Rightarrow> permission_checkpoint \<Rightarrow> string \<times> string option \<Rightarrow> continuation_frame
    \<Rightarrow> ContentBlock list \<Rightarrow> nat \<Rightarrow> AgentRequest \<Rightarrow> ('u, 'c) resume_state \<Rightarrow> ('u, 'c) resume_state resumed" where
  "resume_step env ck decision fr uses i req rs =
     (let recorded = rs_decisions rs ! i in
      if cd_state recorded = Denied \<and> cd_source recorded = Some ''input_error'' then Going (deny_recovered env req recorded rs)
      else
        let (perm, req1, w1) = check_recovered env req (rs_world rs) in
        case (if int i = cf_current_index fr then resume_current env ck decision fr req1 perm recorded w1
              else if int i < cf_current_index fr then Going (resume_prior env req1 perm recorded w1)
              else resume_later env fr uses i req1 perm (rs_decisions rs) w1) of
          Failed e \<Rightarrow> Failed e
        | Waiting fr1 \<Rightarrow> Waiting fr1
        | Going v \<Rightarrow> settle_recovered env i req1 (enforce_policy env req1 perm v) rs)"

fun resume_loop :: "('u, 'c, 'p) agent_env \<Rightarrow> permission_checkpoint \<Rightarrow> string \<times> string option \<Rightarrow> continuation_frame
    \<Rightarrow> ContentBlock list \<Rightarrow> nat \<Rightarrow> AgentRequest list \<Rightarrow> ('u, 'c) resume_state \<Rightarrow> ('u, 'c) resume_state resumed" where
  "resume_loop env ck decision fr uses i [] rs = Going rs"
| "resume_loop env ck decision fr uses i (req # reqs) rs =
     (case resume_step env ck decision fr uses i req rs of
        Failed e \<Rightarrow> Failed e
      | Waiting fr1 \<Rightarrow> Waiting fr1
      | Going rs1 \<Rightarrow> resume_loop env ck decision fr uses (Suc i) reqs rs1)"

definition resume_batch :: "('u, 'c, 'p) agent_env \<Rightarrow> permission_checkpoint \<Rightarrow> string \<times> string option \<Rightarrow> continuation_frame
    \<Rightarrow> ContentBlock list \<Rightarrow> ('u, 'c) agent_world \<Rightarrow> ('u, 'c) resume_state resumed" where
  "resume_batch env ck decision fr uses w =
     (if length (cf_decisions fr) \<noteq> length uses then resume_invalid ''tool decisions changed''
      else resume_loop env ck decision fr uses 0 (map (make_request env) uses)
        \<lparr>rs_allowed = [], rs_denied = [], rs_decisions = cf_decisions fr, rs_world = w\<rparr>)"

definition resume_permission_boundary :: "('u, 'c, 'p) agent_env \<Rightarrow> string option \<Rightarrow> permission_checkpoint \<Rightarrow> Message list
    \<Rightarrow> ('u, 'c) agent_world \<Rightarrow> ('u, 'c) resume_state resumed" where
  "resume_permission_boundary env transcript_id ck messages w =
     (case (ck_frame ck, ck_decision ck) of
        (Some fr, Some decision) \<Rightarrow>
          if \<not> rebuild_wait ck decision
             \<and> \<not> (fst decision \<in> {''claimed'', ''applied''} \<and> snd decision \<in> {Some ''allow_once'', Some ''deny''})
          then resume_invalid ''permission decision is missing''
          else if messages = [] \<or> ms_role (last messages) \<noteq> RoleAssistant
          then resume_invalid ''assistant tool message is missing''
          else if cf_message_ref fr \<noteq> message_ref_at transcript_id (length messages - 1)
          then resume_invalid ''assistant message reference changed''
          else
            let assistant_message = last messages; uses = get_tool_use_blocks assistant_message in
            if map tu_id uses \<noteq> cf_ordered_ids fr then resume_invalid ''tool ordering changed''
            else if ae_message_digest env (message_blocks assistant_message) \<noteq> cf_message_digest fr
            then resume_invalid ''assistant message changed''
            else if cf_current_index fr < 0 \<or> int (length uses) \<le> cf_current_index fr
            then resume_invalid ''current tool index is invalid''
            else
              let current = uses ! nat (cf_current_index fr) in
              if tu_id current \<noteq> ck_tool_use_id ck then resume_invalid ''current tool correlation changed''
              else if ae_payload_digest env (tu_name current) (tu_input current) \<noteq> ck_payload_digest ck
              then resume_invalid ''tool payload changed''
              else if cf_payload_digest fr \<noteq> ck_payload_digest ck then resume_invalid ''continuation payload changed''
              else resume_batch env ck decision fr uses w
      | _ \<Rightarrow> resume_invalid ''continuation frame is missing'')"

section \<open>What may run after a resume\<close>

definition recovered :: "('u, 'c, 'p) agent_env \<Rightarrow> permission_checkpoint \<Rightarrow> string \<times> string option \<Rightarrow> continuation_frame
    \<Rightarrow> ContentBlock list \<Rightarrow> nat \<Rightarrow> AgentRequest \<Rightarrow> ('u, 'c) resume_state \<Rightarrow> AgentRequest \<Rightarrow> bool" where
  \<comment> \<open>the call \<open>i\<close> with request \<open>req\<close>, reached in the state \<open>rs\<close> of the resumed batch, may run as \<open>r\<close>\<close>
  "recovered env ck decision fr uses i req rs r \<longleftrightarrow>
     (case map_of (ae_tools env) (tc_name req) of
        None \<Rightarrow> r = req \<and> cf_current_index fr < int i
      | Some tool \<Rightarrow>
          (\<exists>permission w1. check_request env tool req (rs_world rs) = (permission, r, w1) \<and> pr_behavior permission \<noteq> Deny
             \<and> (int i < cf_current_index fr \<longrightarrow>
                  cd_state (cf_decisions fr ! i) = Allowed
                  \<and> (cd_source (cf_decisions fr ! i) = Some ''policy'' \<and> pr_behavior permission = Allow
                     \<or> cd_source (cf_decisions fr ! i) = Some ''user''
                       \<and> cd_identity (cf_decisions fr ! i) = Some (ae_identity env r (pr_audit permission) w1)))
             \<and> (int i = cf_current_index fr \<longrightarrow>
                  (\<exists>w2. (if rebuild_wait ck decision then ae_ask env r permission fr w1 = (Approved, w2)
                         else snd decision = Some ''allow_once'' \<and> w2 = w1)
                     \<and> ae_identity env r (pr_audit permission) w2 = ck_identity ck
                     \<and> fst (emit_permission_audit_items env r Allow (permission_audits permission False) w2)))
             \<and> (cf_current_index fr < int i \<longrightarrow>
                  pr_behavior permission = Allow \<and> fst (emit_permission_audit_items env r Allow (permission_audits permission True) w1)
                  \<or> pr_behavior permission \<noteq> Allow
                    \<and> (\<exists>w2. ae_ask env r permission (boundary_frame fr env uses i (rs_decisions rs)) w1 = (Approved, w2)
                          \<and> fst (emit_permission_audit_items env r Allow (permission_audits permission False) w2)))))"

lemma verdict_sel [simp]: "rv_state (verdict st src d w) = st" "rv_record (verdict st src d w) = d"
  by (simp_all add: verdict_def)

lemma refused_state [simp]: "rv_state (refused src res d w) = Denied"
  by (simp add: refused_def)

lemma resume_invalid_Going [simp]: "resume_invalid r \<noteq> Going v" "resume_invalid r \<noteq> Waiting fr"
  by (simp_all add: resume_invalid_def)

lemma answer_current_allowed:
  assumes "answer_current env ck outc req p d w = Going v" "rv_state v = Allowed"
  shows "outc = Approved \<and> ae_identity env req (pr_audit p) w = ck_identity ck
    \<and> (pr_behavior p \<noteq> Deny \<longrightarrow> fst (emit_permission_audit_items env req Allow (permission_audits p False) w))"
  using assms by (auto simp: answer_current_def Let_def split: if_splits prod.splits)

lemma resume_current_allowed:
  assumes "resume_current env ck decision fr req (Some p) d w = Going v" "rv_state v = Allowed" "pr_behavior p \<noteq> Deny"
  shows "\<exists>w2. (if rebuild_wait ck decision then ae_ask env req p fr w = (Approved, w2) else snd decision = Some ''allow_once'' \<and> w2 = w)
    \<and> ae_identity env req (pr_audit p) w2 = ck_identity ck
    \<and> fst (emit_permission_audit_items env req Allow (permission_audits p False) w2)"
proof (cases "rebuild_wait ck decision")
  case True
  obtain outc w1 where a: "ae_ask env req p fr w = (outc, w1)" by fastforce
  then have "answer_current env ck outc req p d w1 = Going v"
    using assms(1) True by (auto simp: resume_current_def split: if_splits)
  from answer_current_allowed [OF this assms(2)] show ?thesis using a True assms(3) by auto
next
  case False
  then have "answer_current env ck (if snd decision = Some ''allow_once'' then Approved else Refused) req p d w = Going v"
    using assms(1) by (simp add: resume_current_def)
  from answer_current_allowed [OF this assms(2)] show ?thesis using False assms(3)
    by (cases "snd decision = Some ''allow_once''") auto
qed

lemma resume_prior_allowed:
  assumes "rv_state (resume_prior env req perm d w) = Allowed"
  shows "\<exists>p. perm = Some p \<and> cd_state d = Allowed
    \<and> (cd_source d = Some ''policy'' \<and> (pr_behavior p = Allow \<or> pr_behavior p = Deny)
       \<or> cd_source d = Some ''user'' \<and> cd_identity d = Some (ae_identity env req (pr_audit p) w))"
  using assms by (auto simp: resume_prior_def split: if_splits option.splits)

lemma resume_later_allowed:
  assumes "resume_later env fr uses i req (Some p) ds w = Going v" "rv_state v = Allowed"
  shows "pr_behavior p = Allow \<and> fst (emit_permission_audit_items env req Allow (permission_audits p True) w)
    \<or> pr_behavior p \<noteq> Allow \<and> (\<exists>w2. ae_ask env req p (boundary_frame fr env uses i ds) w = (Approved, w2)
        \<and> fst (emit_permission_audit_items env req Allow (permission_audits p False) w2))"
  using assms by (auto simp: resume_later_def Let_def emit_no_prompt_permission_audit_def split: if_splits prod.splits)

lemma enforce_policy_allowed:
  "rv_state (enforce_policy env req perm v) = Allowed \<Longrightarrow>
   rv_state v = Allowed \<and> enforce_policy env req perm v = v \<and> (\<forall>p. perm = Some p \<longrightarrow> pr_behavior p \<noteq> Deny)"
  by (auto simp: enforce_policy_def split: option.splits if_splits prod.splits)

lemma settle_cases:
  assumes "settle_recovered env i req v rs = Going rs'"
  shows "rv_state v = Allowed \<and> rs_allowed rs' = rs_allowed rs @ [req] \<and> rs_denied rs' = rs_denied rs
    \<or> (\<exists>e. rs_allowed rs' = rs_allowed rs \<and> rs_denied rs' = dict_set (tc_id req) (result_error e) (rs_denied rs))"
    and "length (rs_decisions rs') = length (rs_decisions rs)" "j \<noteq> i \<Longrightarrow> rs_decisions rs' ! j = rs_decisions rs ! j"
  using assms by (auto simp: settle_recovered_def deny_recovered_def Let_def split: decision_state.splits)

lemma check_recovered_cases:
  assumes "check_recovered env req w = (perm, req1, w1)"
  shows "tc_id req1 = tc_id req"
    and "map_of (ae_tools env) (tc_name req) = None \<Longrightarrow> perm = None \<and> req1 = req"
    and "map_of (ae_tools env) (tc_name req) = Some tool \<Longrightarrow>
      \<exists>p. perm = Some p \<and> check_request env tool req w = (p, req1, w1)"
  using assms by (auto simp: check_recovered_def check_request_def Let_def split: option.splits)

lemma resume_step_one:
  assumes step: "resume_step env ck decision fr uses i req rs = Going rs'" and "rs_decisions rs ! i = cf_decisions fr ! i"
  shows "(\<exists>r. tc_id r = tc_id req \<and> rs_allowed rs' = rs_allowed rs @ [r] \<and> rs_denied rs' = rs_denied rs
             \<and> recovered env ck decision fr uses i req rs r)
    \<or> (\<exists>e. rs_allowed rs' = rs_allowed rs \<and> rs_denied rs' = dict_set (tc_id req) (result_error e) (rs_denied rs))"
    and "j \<noteq> i \<Longrightarrow> rs_decisions rs' ! j = rs_decisions rs ! j"
proof -
  let ?d = "cf_decisions fr ! i"
  have "((\<exists>r. tc_id r = tc_id req \<and> rs_allowed rs' = rs_allowed rs @ [r] \<and> rs_denied rs' = rs_denied rs
             \<and> recovered env ck decision fr uses i req rs r)
    \<or> (\<exists>e. rs_allowed rs' = rs_allowed rs \<and> rs_denied rs' = dict_set (tc_id req) (result_error e) (rs_denied rs)))
    \<and> (\<forall>j. j \<noteq> i \<longrightarrow> rs_decisions rs' ! j = rs_decisions rs ! j)"
  proof (cases "cd_state ?d = Denied \<and> cd_source ?d = Some ''input_error''")
    case True
    then show ?thesis using step assms(2) by (auto simp: resume_step_def deny_recovered_def)
  next
    case False
    obtain perm req1 w1 where c: "check_recovered env req (rs_world rs) = (perm, req1, w1)" by (metis prod_cases3)
    note cc = check_recovered_cases [OF c]
    let ?x = "if int i = cf_current_index fr then resume_current env ck decision fr req1 perm ?d w1
        else if int i < cf_current_index fr then Going (resume_prior env req1 perm ?d w1)
        else resume_later env fr uses i req1 perm (rs_decisions rs) w1"
    have "(case ?x of Failed e \<Rightarrow> Failed e | Waiting fr1 \<Rightarrow> Waiting fr1
        | Going v \<Rightarrow> settle_recovered env i req1 (enforce_policy env req1 perm v) rs) = Going rs'"
      using step False unfolding resume_step_def Let_def assms(2) c by (simp only: if_False prod.case)
    then obtain v where v: "?x = Going v" and settle: "settle_recovered env i req1 (enforce_policy env req1 perm v) rs = Going rs'"
      by (cases ?x) simp_all
    note sc = settle_cases [OF settle]
    have "recovered env ck decision fr uses i req rs req1" if "rv_state (enforce_policy env req1 perm v) = Allowed"
    proof -
      note en = enforce_policy_allowed [OF that]
      show ?thesis
      proof (cases "map_of (ae_tools env) (tc_name req)")
        case None
        then have "cf_current_index fr < int i"
          using v cc(2) en by (auto simp: resume_current_def dest: resume_prior_allowed split: if_splits)
        then show ?thesis using None cc(2) [OF None] by (simp add: recovered_def)
      next
        case (Some tool)
        obtain p where p: "perm = Some p" "check_request env tool req (rs_world rs) = (p, req1, w1)" using cc(3) [OF Some] by blast
        have nd: "pr_behavior p \<noteq> Deny" using en p(1) by simp
        note cur = resume_current_allowed [of env ck decision fr req1 p ?d w1 v]
        note pri = resume_prior_allowed [of env req1 perm ?d w1]
        note lat = resume_later_allowed [of env fr uses i req1 p "rs_decisions rs" w1 v]
        have "int i = cf_current_index fr \<Longrightarrow> resume_current env ck decision fr req1 (Some p) ?d w1 = Going v"
          and "int i < cf_current_index fr \<Longrightarrow> v = resume_prior env req1 (Some p) ?d w1"
          and "cf_current_index fr < int i \<Longrightarrow> resume_later env fr uses i req1 (Some p) (rs_decisions rs) w1 = Going v"
          using v p(1) by auto
        then show ?thesis using Some p nd en cur pri lat by (simp add: recovered_def) blast
      qed
    qed
    then show ?thesis using sc cc(1) by metis
  qed
  then show "(\<exists>r. tc_id r = tc_id req \<and> rs_allowed rs' = rs_allowed rs @ [r] \<and> rs_denied rs' = rs_denied rs
             \<and> recovered env ck decision fr uses i req rs r)
    \<or> (\<exists>e. rs_allowed rs' = rs_allowed rs \<and> rs_denied rs' = dict_set (tc_id req) (result_error e) (rs_denied rs))"
    and "j \<noteq> i \<Longrightarrow> rs_decisions rs' ! j = rs_decisions rs ! j" by blast+
qed

definition recovered_in_run :: "('u, 'c, 'p) agent_env \<Rightarrow> permission_checkpoint \<Rightarrow> string \<times> string option \<Rightarrow> continuation_frame
    \<Rightarrow> ContentBlock list \<Rightarrow> nat \<Rightarrow> AgentRequest list \<Rightarrow> ('u, 'c) resume_state \<Rightarrow> nat \<Rightarrow> AgentRequest \<Rightarrow> bool" where
  \<comment> \<open>\<open>r\<close> is the call \<open>k\<close> of \<open>reqs\<close>, recovered in the state in which the loop over \<open>reqs\<close> reaches it\<close>
  "recovered_in_run env ck decision fr uses i reqs rs k r \<longleftrightarrow>
     k < length reqs \<and> tc_id r = tc_id (reqs ! k)
     \<and> (\<exists>rs_k. resume_loop env ck decision fr uses i (take k reqs) rs = Going rs_k
          \<and> recovered env ck decision fr uses (i + k) (reqs ! k) rs_k r)"

lemma recovered_in_run_Suc:
  assumes "resume_step env ck decision fr uses i req rs = Going rs1"
  shows "recovered_in_run env ck decision fr uses i (req # reqs) rs (Suc k) r
    \<longleftrightarrow> recovered_in_run env ck decision fr uses (Suc i) reqs rs1 k r"
  using assms by (simp add: recovered_in_run_def)

lemma resume_loop_sound:
  assumes "resume_loop env ck decision fr uses i reqs rs = Going rs'"
    and "\<And>j. i \<le> j \<Longrightarrow> rs_decisions rs ! j = cf_decisions fr ! j"
  shows "\<exists>A. rs_allowed rs' = rs_allowed rs @ A
    \<and> (\<forall>r \<in> set A. \<exists>k. recovered_in_run env ck decision fr uses i reqs rs k r)
    \<and> tc_id ` set A \<union> fst ` set (rs_denied rs') = fst ` set (rs_denied rs) \<union> tc_id ` set reqs"
  using assms
proof (induction reqs arbitrary: i rs)
  case Nil
  then show ?case by simp
next
  case (Cons req reqs)
  obtain rs1 where st: "resume_step env ck decision fr uses i req rs = Going rs1"
    and l: "resume_loop env ck decision fr uses (Suc i) reqs rs1 = Going rs'"
    using Cons.prems(1) by (auto split: resumed.splits)
  note one = resume_step_one [OF st Cons.prems(2) [OF order_refl]]
  have "rs_decisions rs1 ! j = cf_decisions fr ! j" if "Suc i \<le> j" for j
    using one(2) [of j] Cons.prems(2) [of j] that by simp
  from Cons.IH [OF l this] obtain A where A: "rs_allowed rs' = rs_allowed rs1 @ A"
    "\<forall>r \<in> set A. \<exists>k. recovered_in_run env ck decision fr uses (Suc i) reqs rs1 k r"
    "tc_id ` set A \<union> fst ` set (rs_denied rs') = fst ` set (rs_denied rs1) \<union> tc_id ` set reqs" by blast
  have later: "\<exists>k. recovered_in_run env ck decision fr uses i (req # reqs) rs k r" if "r \<in> set A" for r
    using A(2) that recovered_in_run_Suc [OF st] by blast
  from one(1) show ?case
  proof (elim disjE exE conjE)
    fix r assume r: "tc_id r = tc_id req" "rs_allowed rs1 = rs_allowed rs @ [r]" "rs_denied rs1 = rs_denied rs"
      "recovered env ck decision fr uses i req rs r"
    have "recovered_in_run env ck decision fr uses i (req # reqs) rs 0 r" using r(1,4) by (simp add: recovered_in_run_def)
    then show ?thesis using A(1,3) r(1-3) later by (intro exI [of _ "r # A"]) auto
  next
    fix e assume "rs_allowed rs1 = rs_allowed rs" "rs_denied rs1 = dict_set (tc_id req) (result_error e) (rs_denied rs)"
    then show ?thesis using A(1,3) later by (intro exI [of _ A]) (auto simp: fst_dict_set)
  qed
qed

text \<open>
  C7: A resumed batch runs only what the policy tolerates when the resumed run reaches the call. If a suspended batch is
  taken up again and goes on, then every call of the assistant message is let through or answered, and each request r that
  is let through is the call k of the message, with the state in which this resumed run reaches the call k: if its tool is
  not registered, it stands behind the boundary and is unchanged (the executor answers with an error); otherwise the
  permission check in the world of that state yields r and does not deny it. Before the boundary the recorded decision is an
  allowance of the policy, and this check still allows it, or of the user, and the caller identity observed right after this
  check is the recorded one. At the boundary the recorded decision is the approval, or, if the prompt is rebuilt, the
  answer given to it after this check is the approval; the caller identity in the world after that is the one of
  the checkpoint, and the audit rows written next are all written. Behind the boundary this check allows it and the
  audit rows written next are all written, or the prompt shown next is approved and the audit rows after it are written.
\<close>

theorem resume_respects_policy:
  assumes "resume_permission_boundary env transcript_id ck messages w = Going rs"
  shows "\<exists>fr decision. ck_frame ck = Some fr \<and> ck_decision ck = Some decision
    \<and> (let uses = get_tool_use_blocks (last messages); reqs = map (make_request env) uses;
           start = \<lparr>rs_allowed = [], rs_denied = [], rs_decisions = cf_decisions fr, rs_world = w\<rparr> in
       (\<forall>r \<in> set (rs_allowed rs). \<exists>k < length uses. tc_id r = tu_id (uses ! k)
          \<and> (\<exists>rs_k. resume_loop env ck decision fr uses 0 (take k reqs) start = Going rs_k
               \<and> recovered env ck decision fr uses k (reqs ! k) rs_k r))
       \<and> tc_id ` set (rs_allowed rs) \<union> fst ` set (rs_denied rs) = tu_id ` set uses)"
proof -
  let ?uses = "get_tool_use_blocks (last messages)"
  let ?reqs = "map (make_request env) ?uses"
  obtain fr decision where fd: "ck_frame ck = Some fr" "ck_decision ck = Some decision"
    using assms by (auto simp: resume_permission_boundary_def split: option.splits)
  let ?start = "\<lparr>rs_allowed = [], rs_denied = [], rs_decisions = cf_decisions fr, rs_world = w\<rparr>"
  have "resume_batch env ck decision fr ?uses w = Going rs"
    using assms fd by (simp add: resume_permission_boundary_def Let_def split: if_splits)
  then have l: "resume_loop env ck decision fr ?uses 0 ?reqs ?start = Going rs"
    by (simp add: resume_batch_def split: if_splits)
  obtain A where A: "rs_allowed rs = A" "\<forall>r \<in> set A. \<exists>k. recovered_in_run env ck decision fr ?uses 0 ?reqs ?start k r"
    "tc_id ` set A \<union> fst ` set (rs_denied rs) = tc_id ` set ?reqs"
    using resume_loop_sound [OF l] by auto
  have "tc_id ` set ?reqs = tu_id ` set ?uses" by force
  moreover have "\<exists>k < length ?uses. tc_id r = tu_id (?uses ! k)
      \<and> (\<exists>rs_k. resume_loop env ck decision fr ?uses 0 (take k ?reqs) ?start = Going rs_k \<and> recovered env ck decision fr ?uses k (?reqs ! k) rs_k r)"
    if r: "r \<in> set A" for r
  proof -
    obtain k where "recovered_in_run env ck decision fr ?uses 0 ?reqs ?start k r" using A(2) r by blast
    then show ?thesis by (intro exI [of _ k]) (auto simp: recovered_in_run_def)
  qed
  ultimately show ?thesis using fd A(1,3) by (simp add: Let_def)
qed

section \<open>A resumed batch against a live one\<close>

text \<open>
  An environment in which nothing changes between the suspension and the resume: permissions, caller identities and
  answers depend on the request only, and audit rows can be written.
\<close>

definition steady :: "('u, 'c, 'p) agent_env \<Rightarrow> (AgentRequest \<Rightarrow> PermissionResult)
    \<Rightarrow> (AgentRequest \<Rightarrow> string option \<times> string option) \<Rightarrow> (string \<Rightarrow> wait_outcome) \<Rightarrow> bool" where
  "steady env perm idn ans \<longleftrightarrow>
     (\<forall>tool req w. map_of (ae_tools env) (tc_name req) = Some tool \<longrightarrow> request_permission env tool req w = perm req)
     \<and> (\<forall>req a d w. fst (ae_write_audit env req a d w)) \<and> (\<forall>req a w. ae_identity env req a w = idn req)
     \<and> (\<forall>req p fr w. fst (ae_ask env req p fr w) = ans (tc_id req))"

definition bound :: "(AgentRequest \<Rightarrow> PermissionResult) \<Rightarrow> (string \<times> string) list \<Rightarrow> AgentRequest \<Rightarrow> AgentRequest" where
  "bound perm errs req = (if map_of errs (tc_id req) = None then bind_permission (perm req) req else req)"

definition deny_message :: "PermissionResult \<Rightarrow> string" where
  "deny_message p = (if pr_message p \<noteq> [] then pr_message p else permission_denied)"

definition refusal :: "(AgentRequest \<Rightarrow> PermissionResult) \<Rightarrow> (string \<Rightarrow> wait_outcome) \<Rightarrow> (string \<times> string) list \<Rightarrow> AgentRequest \<Rightarrow> string option" where
  \<comment> \<open>the text a call is answered with instead of being run\<close>
  "refusal perm ans errs req =
     (case map_of errs (tc_id req) of
        Some e \<Rightarrow> Some e
      | None \<Rightarrow>
          if pr_behavior (perm req) = Allow then None
          else if pr_behavior (perm req) = Deny then Some (deny_message (perm req))
          else (case ans (tc_id req) of Approved \<Rightarrow> None | Refused \<Rightarrow> Some user_denied_tool_result | _ \<Rightarrow> Some permission_denied))"

definition prompts :: "(AgentRequest \<Rightarrow> PermissionResult) \<Rightarrow> (string \<times> string) list \<Rightarrow> AgentRequest \<Rightarrow> bool" where
  "prompts perm errs req \<longleftrightarrow> map_of errs (tc_id req) = None \<and> pr_behavior (perm req) \<notin> {Allow, Deny}"

definition settled :: "(AgentRequest \<Rightarrow> PermissionResult) \<Rightarrow> (AgentRequest \<Rightarrow> string option \<times> string option) \<Rightarrow> (string \<Rightarrow> wait_outcome)
    \<Rightarrow> (string \<times> string) list \<Rightarrow> AgentRequest \<Rightarrow> continuation_decision \<Rightarrow> continuation_decision" where
  \<comment> \<open>what the live batch records for a call\<close>
  "settled perm idn ans errs req d =
     (case map_of errs (tc_id req) of
        Some e \<Rightarrow> decide Denied ''input_error'' (Some e) d
      | None \<Rightarrow>
          if pr_behavior (perm req) = Allow then decide Allowed ''policy'' None d
          else if pr_behavior (perm req) = Deny then decide Denied ''policy'' (Some (deny_message (perm req))) d
          else
            let d1 = d\<lparr>cd_state := Pending, cd_source := None\<rparr> in
            case ans (tc_id req) of
              Approved \<Rightarrow> (decide Allowed ''user'' None d1)\<lparr>cd_identity := Some (idn (bound perm errs req))\<rparr>
            | Refused \<Rightarrow> decide Denied ''user'' (Some user_denied_tool_result) d1
            | _ \<Rightarrow> decide Denied ''automatic'' (Some permission_denied) d1)"

lemma emit_stable: "steady env perm idn ans \<Longrightarrow> fst (emit_permission_audit_items env req d audits w)"
proof (induction audits arbitrary: w)
  case (Cons a audits)
  obtain b w1 where a: "ae_write_audit env req a d w = (b, w1)" by fastforce
  then have "b" using Cons.prems by (metis fst_conv steady_def)
  then show ?case using Cons a by (auto split: prod.splits)
qed simp

lemma live_step:
  assumes st: "steady env perm idn ans" and tool: "map_of (ae_tools env) (tc_name req) = Some tool"
    and go: "prompts perm errs req \<longrightarrow> ans (tc_id req) \<noteq> Suspend" and i: "i < length (ph_decisions ph)"
  shows "\<exists>ph'. phase_step env errs fr uses i req ph = (None, ph')
    \<and> ph_allowed ph' = ph_allowed ph @ (if refusal perm ans errs req = None then [bound perm errs req] else [])
    \<and> ph_denied ph' = ph_denied ph @ (case refusal perm ans errs req of None \<Rightarrow> [] | Some t \<Rightarrow> [(bound perm errs req, result_error t)])
    \<and> ph_decisions ph' = (ph_decisions ph)[i := settled perm idn ans errs req (ph_decisions ph ! i)]"
proof (cases "map_of errs (tc_id req)")
  case (Some e)
  then show ?thesis by (simp add: phase_step_def phase_deny_def refusal_def settled_def bound_def)
next
  case None
  let ?r = "bind_permission (perm req) req"
  have p: "request_permission env tool req w = perm req" for w using st tool by (simp add: steady_def)
  obtain w1 where c: "check_request env tool req (ph_world ph) = (perm req, ?r, w1)" by (simp add: check_request_def Let_def p)
  show ?thesis
  proof (cases "pr_behavior (perm req) = Allow \<or> pr_behavior (perm req) = Deny")
    case True
    obtain w2 where e: "emit_no_prompt_permission_audit env ?r (perm req) (pr_behavior (perm req)) w1 = (True, w2)"
      using emit_stable [OF st] by (metis emit_no_prompt_permission_audit_def prod.collapse)
    show ?thesis
      using True None tool c e
      by (auto simp: phase_step_def policy_phase_def phase_allow_def phase_deny_def refusal_def settled_def bound_def deny_message_def
        decide_def Let_def)
  next
    case False
    let ?fr = "boundary_frame fr env uses i (ph_decisions ph)" and ?o = "ans (tc_id req)"
    obtain w2 where a: "ae_ask env ?r (perm req) ?fr w1 = (?o, w2)"
      using st surjective_pairing [of "ae_ask env ?r (perm req) ?fr w1"] by (simp add: steady_def)
    obtain w3 where e: "emit_permission_audit_items env ?r (if ?o = Approved then Allow else Deny) (permission_audits (perm req) False) w2 = (True, w3)"
      using emit_stable [OF st, of ?r "if ?o = Approved then Allow else Deny" "permission_audits (perm req) False" w2]
        by (cases "emit_permission_audit_items env ?r (if ?o = Approved then Allow else Deny) (permission_audits (perm req) False) w2") auto
    have idn: "ae_identity env q b w = idn q" for q b w using st by (simp add: steady_def)
    have nosus: "?o \<noteq> Suspend" using go False None by (simp add: prompts_def)
    show ?thesis
      using False None tool c a e idn nosus i
      by (cases ?o) (auto simp: phase_step_def prompt_phase_def phase_allow_def phase_deny_def refusal_def settled_def bound_def
        boundary_frame_def decide_def Let_def)
  qed
qed

definition refusals :: "(AgentRequest \<Rightarrow> PermissionResult) \<Rightarrow> (string \<Rightarrow> wait_outcome) \<Rightarrow> (string \<times> string) list \<Rightarrow> AgentRequest list
    \<Rightarrow> (AgentRequest \<times> ToolResult) list" where
  "refusals perm ans errs reqs =
     concat (map (\<lambda>r. case refusal perm ans errs r of None \<Rightarrow> [] | Some t \<Rightarrow> [(bound perm errs r, result_error t)]) reqs)"

definition runs :: "(AgentRequest \<Rightarrow> PermissionResult) \<Rightarrow> (string \<Rightarrow> wait_outcome) \<Rightarrow> (string \<times> string) list \<Rightarrow> AgentRequest list \<Rightarrow> AgentRequest list" where
  "runs perm ans errs reqs = map (bound perm errs) (filter (\<lambda>r. refusal perm ans errs r = None) reqs)"

lemma live_loop:
  assumes "steady env perm idn ans"
    and "\<forall>req \<in> set reqs. map_of (ae_tools env) (tc_name req) \<noteq> None \<and> (prompts perm errs req \<longrightarrow> ans (tc_id req) \<noteq> Suspend)"
    and "i + length reqs \<le> length (ph_decisions ph)"
  shows "\<exists>ph'. phase_loop env errs fr uses i reqs ph = (None, ph')
    \<and> ph_allowed ph' = ph_allowed ph @ runs perm ans errs reqs \<and> ph_denied ph' = ph_denied ph @ refusals perm ans errs reqs
    \<and> length (ph_decisions ph') = length (ph_decisions ph)
    \<and> (\<forall>j. ph_decisions ph' ! j = (if i \<le> j \<and> j < i + length reqs
          then settled perm idn ans errs (reqs ! (j - i)) (ph_decisions ph ! j) else ph_decisions ph ! j))"
  using assms(2,3)
proof (induction reqs arbitrary: i ph)
  case Nil
  then show ?case by (auto simp: runs_def refusals_def)
next
  case (Cons req reqs)
  obtain tool where tool: "map_of (ae_tools env) (tc_name req) = Some tool" using Cons.prems(1) by auto
  obtain ph1 where st: "phase_step env errs fr uses i req ph = (None, ph1)"
    "ph_allowed ph1 = ph_allowed ph @ (if refusal perm ans errs req = None then [bound perm errs req] else [])"
    "ph_denied ph1 = ph_denied ph @ (case refusal perm ans errs req of None \<Rightarrow> [] | Some t \<Rightarrow> [(bound perm errs req, result_error t)])"
    "ph_decisions ph1 = (ph_decisions ph)[i := settled perm idn ans errs req (ph_decisions ph ! i)]"
    using live_step [OF assms(1) tool, of errs i ph fr uses] Cons.prems by auto
  obtain ph' where l: "phase_loop env errs fr uses (Suc i) reqs ph1 = (None, ph')"
    "ph_allowed ph' = ph_allowed ph1 @ runs perm ans errs reqs" "ph_denied ph' = ph_denied ph1 @ refusals perm ans errs reqs"
    "length (ph_decisions ph') = length (ph_decisions ph1)"
    "\<forall>j. ph_decisions ph' ! j = (if Suc i \<le> j \<and> j < Suc i + length reqs
          then settled perm idn ans errs (reqs ! (j - Suc i)) (ph_decisions ph1 ! j) else ph_decisions ph1 ! j)"
    using Cons.IH [of "Suc i" ph1] Cons.prems st(4) by auto
  have "ph_decisions ph' ! j = (if i \<le> j \<and> j < i + length (req # reqs)
          then settled perm idn ans errs ((req # reqs) ! (j - i)) (ph_decisions ph ! j) else ph_decisions ph ! j)" for j
    using l(5) [rule_format, of j] st(4) Cons.prems(2)
    by (cases "j = i"; cases "Suc i \<le> j") (auto simp: nth_list_update nth_Cons' Suc_diff_le)
  then show ?case using l(1-4) st by (auto simp: runs_def refusals_def)
qed

lemma suspended_step:
  assumes st: "steady env perm idn ans" and tool: "map_of (ae_tools env) (tc_name req) = Some tool"
    and go: "prompts perm errs req" "ans (tc_id req) = Suspend"
  shows "\<exists>ph'. phase_step env errs fr uses i req ph = (Some (boundary_frame fr env uses i (ph_decisions ph)), ph')"
proof -
  let ?r = "bind_permission (perm req) req" and ?fr = "boundary_frame fr env uses i (ph_decisions ph)"
  have p: "request_permission env tool req w = perm req" for w using st tool by (simp add: steady_def)
  obtain w1 where c: "check_request env tool req (ph_world ph) = (perm req, ?r, w1)" by (simp add: check_request_def Let_def p)
  obtain w2 where "ae_ask env ?r (perm req) ?fr w1 = (Suspend, w2)"
    using st go surjective_pairing [of "ae_ask env ?r (perm req) ?fr w1"] by (simp add: steady_def)
  then show ?thesis using go tool c by (auto simp: phase_step_def prompts_def Let_def)
qed

lemma phase_loop_append:
  "phase_loop env errs fr uses i (xs @ ys) ph =
     (case phase_loop env errs fr uses i xs ph of
        (Some fr1, ph1) \<Rightarrow> (Some fr1, ph1) | (None, ph1) \<Rightarrow> phase_loop env errs fr uses (i + length xs) ys ph1)"
  by (induction xs arbitrary: i ph) (auto split: prod.splits option.splits)

lemma suspended_loop:
  assumes st: "steady env perm idn ans"
    and pre: "\<forall>req \<in> set pre. map_of (ae_tools env) (tc_name req) \<noteq> None \<and> (prompts perm errs req \<longrightarrow> ans (tc_id req) \<noteq> Suspend)"
    and cur: "map_of (ae_tools env) (tc_name req) \<noteq> None" "prompts perm errs req" "ans (tc_id req) = Suspend"
    and len: "length pre < length (ph_decisions ph)"
  shows "\<exists>fr1 ph'. phase_loop env errs fr uses 0 (pre @ req # post) ph = (Some fr1, ph') \<and> cf_current_index fr1 = int (length pre)
    \<and> length (cf_decisions fr1) = length (ph_decisions ph)
    \<and> (\<forall>j. j < length pre \<longrightarrow> cf_decisions fr1 ! j = settled perm idn ans errs (pre ! j) (ph_decisions ph ! j))
    \<and> cd_state (cf_decisions fr1 ! length pre) = Pending
    \<and> (\<forall>j. length pre < j \<longrightarrow> cf_decisions fr1 ! j = ph_decisions ph ! j)"
proof -
  obtain ph1 where l: "phase_loop env errs fr uses 0 pre ph = (None, ph1)" "length (ph_decisions ph1) = length (ph_decisions ph)"
    "\<forall>j. ph_decisions ph1 ! j = (if j < length pre then settled perm idn ans errs (pre ! j) (ph_decisions ph ! j) else ph_decisions ph ! j)"
    using live_loop [OF st pre, of 0 ph fr uses] len by auto
  obtain tool where "map_of (ae_tools env) (tc_name req) = Some tool" using cur(1) by blast
  from suspended_step [OF st this cur(2,3), of fr uses "length pre" ph1] obtain ph' where
    "phase_step env errs fr uses (length pre) req ph1 = (Some (boundary_frame fr env uses (length pre) (ph_decisions ph1)), ph')" by blast
  then have "phase_loop env errs fr uses 0 (pre @ req # post) ph = (Some (boundary_frame fr env uses (length pre) (ph_decisions ph1)), ph')"
    using l(1) by (simp add: phase_loop_append)
  then show ?thesis using l(2,3) len by (auto simp: boundary_frame_def nth_list_update)
qed

definition ready :: "(AgentRequest \<Rightarrow> PermissionResult) \<Rightarrow> (AgentRequest \<Rightarrow> string option \<times> string option) \<Rightarrow> (string \<Rightarrow> wait_outcome)
    \<Rightarrow> (string \<times> string) list \<Rightarrow> nat \<Rightarrow> nat \<Rightarrow> AgentRequest \<Rightarrow> continuation_decision \<Rightarrow> bool" where
  \<comment> \<open>what a frame suspended at the call \<open>k\<close> records for the call \<open>j\<close>\<close>
  "ready perm idn ans errs k j req d \<longleftrightarrow>
     (if j < k then \<exists>d0. d = settled perm idn ans errs req d0
      else (case map_of errs (tc_id req) of
          Some e \<Rightarrow> cd_state d = Denied \<and> cd_source d = Some ''input_error'' \<and> cd_denied_result d = Some e
        | None \<Rightarrow> cd_state d \<noteq> Denied))"

lemma permission_denied_nonempty [simp]: "permission_denied \<noteq> []" "user_denied_tool_result \<noteq> []"
  by (simp_all add: permission_denied_def user_denied_tool_result_def)

lemma deny_message_nonempty [simp]: "deny_message p \<noteq> []"
  by (simp add: deny_message_def)

lemma emit_stable_pair:
  assumes "steady env perm idn ans"
  shows "\<exists>w1. emit_permission_audit_items env req d audits w = (True, w1)"
  using emit_stable [OF assms, of req d audits w] by (cases "emit_permission_audit_items env req d audits w") auto

definition resumed_as :: "string option \<Rightarrow> AgentRequest \<Rightarrow> nat \<Rightarrow> ('u, 'c) resume_state \<Rightarrow> ('u, 'c) resume_state \<Rightarrow> bool" where
  "resumed_as ref r j rs rs' \<longleftrightarrow>
     rs_allowed rs' = rs_allowed rs @ (if ref = None then [r] else [])
     \<and> rs_denied rs' = (case ref of None \<Rightarrow> rs_denied rs | Some t \<Rightarrow> dict_set (tc_id r) (result_error t) (rs_denied rs))
     \<and> (\<forall>j'. j' \<noteq> j \<longrightarrow> rs_decisions rs' ! j' = rs_decisions rs ! j')"

lemma settle_as:
  assumes "case ref of None \<Rightarrow> rv_state v = Allowed | Some t \<Rightarrow> rv_state v = Denied \<and> denied_text (rv_record v) = t"
  shows "\<exists>rs'. settle_recovered env j r v rs = Going rs' \<and> resumed_as ref r j rs rs'"
  using assms by (cases ref) (auto simp: settle_recovered_def deny_recovered_def resumed_as_def denied_text_def Let_def)

lemma enforce_id: "rv_state v \<noteq> Allowed \<or> pr_behavior p \<noteq> Deny \<Longrightarrow> enforce_policy env r (Some p) v = v"
  by (auto simp: enforce_policy_def)

lemma refused_text [simp]: "denied_text (rv_record (refused src t d w)) = (if t = [] then permission_denied else t)"
  by (simp add: refused_def denied_text_def)

lemma prior_as:
  assumes st: "steady env perm idn ans" and d: "d = settled perm idn ans errs req d0" and none: "map_of errs (tc_id req) = None"
    and p: "r = bind_permission (perm req) req" and nosus: "prompts perm errs req \<longrightarrow> ans (tc_id req) \<noteq> Suspend"
  shows "case refusal perm ans errs req of None \<Rightarrow> rv_state (enforce_policy env r (Some (perm req)) (resume_prior env r (Some (perm req)) d w)) = Allowed
    | Some t \<Rightarrow> rv_state (enforce_policy env r (Some (perm req)) (resume_prior env r (Some (perm req)) d w)) = Denied
        \<and> denied_text (rv_record (enforce_policy env r (Some (perm req)) (resume_prior env r (Some (perm req)) d w))) = t"
proof -
  have idn: "ae_identity env q b w = idn q" for q b w using st by (simp add: steady_def)
  show ?thesis
  proof (cases "pr_behavior (perm req) = Allow \<or> pr_behavior (perm req) = Deny")
    case True
    then show ?thesis using none unfolding d
      by (elim disjE) (simp_all add: refusal_def settled_def resume_prior_def decide_def enforce_id denied_text_def)
  next
    case False
    then have "ans (tc_id req) \<noteq> Suspend" using nosus none by (simp add: prompts_def)
    then show ?thesis using False none unfolding d p
      by (cases "ans (tc_id req)")
        (simp_all add: refusal_def settled_def resume_prior_def decide_def enforce_id denied_text_def idn bound_def Let_def)
  qed
qed

lemma current_as:
  assumes st: "steady env perm idn ans" and pr: "prompts perm errs req" and p: "r = bind_permission (perm req) req"
    and id: "idn r = ck_identity ck" and nw: "\<not> rebuild_wait ck decision"
    and ans: "ans (tc_id req) = (if snd decision = Some ''allow_once'' then Approved else Refused)"
  shows "\<exists>v. resume_current env ck decision fr r (Some (perm req)) d w = Going v
    \<and> (case refusal perm ans errs req of None \<Rightarrow> rv_state (enforce_policy env r (Some (perm req)) v) = Allowed
      | Some t \<Rightarrow> rv_state (enforce_policy env r (Some (perm req)) v) = Denied
          \<and> denied_text (rv_record (enforce_policy env r (Some (perm req)) v)) = t)"
proof -
  have idn: "ae_identity env q b w = idn q" for q b w using st by (simp add: steady_def)
  have beh: "pr_behavior (perm req) \<noteq> Allow" "pr_behavior (perm req) \<noteq> Deny" "map_of errs (tc_id req) = None"
    using pr by (auto simp: prompts_def)
  obtain w1 where e: "emit_permission_audit_items env r (if ans (tc_id req) = Approved then Allow else Deny)
      (permission_audits (perm req) False) w = (True, w1)" using emit_stable_pair [OF st] by blast
  show ?thesis
    using nw ans beh e id
    by (cases "snd decision = Some ''allow_once''")
      (simp_all add: resume_current_def answer_current_def idn refusal_def enforce_id)
qed

lemma later_as:
  assumes st: "steady env perm idn ans" and none: "map_of errs (tc_id req) = None" and p: "r = bind_permission (perm req) req"
    and nosus: "prompts perm errs req \<longrightarrow> ans (tc_id req) \<noteq> Suspend"
  shows "\<exists>v. resume_later env fr uses j r (Some (perm req)) ds w = Going v
    \<and> (case refusal perm ans errs req of None \<Rightarrow> rv_state (enforce_policy env r (Some (perm req)) v) = Allowed
      | Some t \<Rightarrow> rv_state (enforce_policy env r (Some (perm req)) v) = Denied
          \<and> denied_text (rv_record (enforce_policy env r (Some (perm req)) v)) = t)"
proof (cases "pr_behavior (perm req) = Allow \<or> pr_behavior (perm req) = Deny")
  case True
  obtain w1 where e: "emit_permission_audit_items env r (pr_behavior (perm req)) (permission_audits (perm req) True) w = (True, w1)"
    using emit_stable_pair [OF st] by blast
  then show ?thesis using True none
    by (elim disjE) (simp_all add: resume_later_def emit_no_prompt_permission_audit_def refusal_def enforce_id deny_message_def)
next
  case False
  let ?fr = "boundary_frame fr env uses j ds" and ?o = "ans (tc_id req)"
  obtain w1 where a: "ae_ask env r (perm req) ?fr w = (?o, w1)"
    using st p surjective_pairing [of "ae_ask env r (perm req) ?fr w"] by (simp add: steady_def)
  obtain w2 where e: "emit_permission_audit_items env r (if ?o = Approved then Allow else Deny)
      (permission_audits (perm req) False) w1 = (True, w2)" using emit_stable_pair [OF st] by blast
  have "?o \<noteq> Suspend" using nosus False none by (simp add: prompts_def)
  then show ?thesis using False none a e
    by (cases ?o) (simp_all add: resume_later_def refusal_def enforce_id Let_def)
qed

lemma resume_step_as:
  assumes st: "steady env perm idn ans" and tool: "map_of (ae_tools env) (tc_name req) \<noteq> None"
    and errs: "\<forall>e \<in> snd ` set errs. e \<noteq> []" and nosus: "\<And>i. ans i \<noteq> Suspend"
    and k: "cf_current_index fr = int k" "j = k \<Longrightarrow> prompts perm errs req" "j = k \<Longrightarrow> idn (bound perm errs req) = ck_identity ck"
      "j = k \<Longrightarrow> ans (tc_id req) = (if snd decision = Some ''allow_once'' then Approved else Refused)"
    and nw: "\<not> rebuild_wait ck decision" and d: "ready perm idn ans errs k j req (rs_decisions rs ! j)"
  shows "\<exists>rs'. resume_step env ck decision fr uses j req rs = Going rs'
    \<and> resumed_as (refusal perm ans errs req) (bound perm errs req) j rs rs'"
proof (cases "map_of errs (tc_id req)")
  case (Some e)
  have "e \<noteq> []" using errs map_of_SomeD [OF Some] by force
  moreover have "cd_state (rs_decisions rs ! j) = Denied" "cd_source (rs_decisions rs ! j) = Some ''input_error''"
    "cd_denied_result (rs_decisions rs ! j) = Some e"
    using d Some by (auto simp: ready_def settled_def decide_def split: if_splits)
  ultimately show ?thesis using Some
    by (simp add: resume_step_def deny_recovered_def resumed_as_def refusal_def bound_def denied_text_def)
next
  case None
  let ?d = "rs_decisions rs ! j" and ?r = "bind_permission (perm req) req"
  obtain t where t: "map_of (ae_tools env) (tc_name req) = Some t" using tool by blast
  then have p: "request_permission env t req w = perm req" for w using st by (simp add: steady_def)
  obtain w1 where c: "check_recovered env req (rs_world rs) = (Some (perm req), ?r, w1)"
    using t by (simp add: check_recovered_def check_request_def Let_def p)
  have ne: "\<not> (cd_state ?d = Denied \<and> cd_source ?d = Some ''input_error'')"
    using d None nosus [of "tc_id req"]
    by (auto simp: ready_def settled_def decide_def Let_def split: if_splits wait_outcome.splits)
  have bound: "bound perm errs req = ?r" using None by (simp add: bound_def)
  define x where "x = (if int j = cf_current_index fr then resume_current env ck decision fr ?r (Some (perm req)) ?d w1
     else if int j < cf_current_index fr then Going (resume_prior env ?r (Some (perm req)) ?d w1)
     else resume_later env fr uses j ?r (Some (perm req)) (rs_decisions rs) w1)"
  have "\<exists>v. x = Going v \<and> (case refusal perm ans errs req of None \<Rightarrow> rv_state (enforce_policy env ?r (Some (perm req)) v) = Allowed
      | Some t \<Rightarrow> rv_state (enforce_policy env ?r (Some (perm req)) v) = Denied
          \<and> denied_text (rv_record (enforce_policy env ?r (Some (perm req)) v)) = t)"
  proof -
    consider "j = k" | "j < k" | "k < j" by linarith
    then show ?thesis
    proof cases
      case 1
      then show ?thesis using current_as [OF st k(2) refl k(3) [unfolded bound] nw k(4)] k(1) by (simp add: x_def)
    next
      case 2
      then obtain d0 where d0: "?d = settled perm idn ans errs req d0" using d by (auto simp: ready_def)
      have "prompts perm errs req \<longrightarrow> ans (tc_id req) \<noteq> Suspend" using nosus by blast
      then show ?thesis using prior_as [OF st d0 None refl] 2 k(1) by (simp add: x_def)
    next
      case 3
      have "prompts perm errs req \<longrightarrow> ans (tc_id req) \<noteq> Suspend" using nosus by blast
      then show ?thesis using later_as [OF st None refl] 3 k(1) by (simp add: x_def)
    qed
  qed
  then obtain v where v: "x = Going v" "case refusal perm ans errs req of None \<Rightarrow> rv_state (enforce_policy env ?r (Some (perm req)) v) = Allowed
      | Some t \<Rightarrow> rv_state (enforce_policy env ?r (Some (perm req)) v) = Denied
          \<and> denied_text (rv_record (enforce_policy env ?r (Some (perm req)) v)) = t" by blast
  have "resume_step env ck decision fr uses j req rs = settle_recovered env j ?r (enforce_policy env ?r (Some (perm req)) v) rs"
    using c ne v(1) unfolding resume_step_def x_def Let_def by auto
  then show ?thesis using settle_as [OF v(2)] bound by simp
qed

lemma resume_loop_as:
  assumes st: "steady env perm idn ans" and errs: "\<forall>e \<in> snd ` set errs. e \<noteq> []" and nosus: "\<And>i. ans i \<noteq> Suspend"
    and k: "cf_current_index fr = int k" and nw: "\<not> rebuild_wait ck decision"
  shows "distinct (map tc_id reqs) \<Longrightarrow> set (map tc_id reqs) \<inter> fst ` set (rs_denied rs) = {}
    \<Longrightarrow> \<forall>j < length reqs. map_of (ae_tools env) (tc_name (reqs ! j)) \<noteq> None
          \<and> ready perm idn ans errs k (i + j) (reqs ! j) (rs_decisions rs ! (i + j))
          \<and> (i + j = k \<longrightarrow> prompts perm errs (reqs ! j) \<and> idn (bound perm errs (reqs ! j)) = ck_identity ck
             \<and> ans (tc_id (reqs ! j)) = (if snd decision = Some ''allow_once'' then Approved else Refused))
    \<Longrightarrow> \<exists>rs'. resume_loop env ck decision fr uses i reqs rs = Going rs'
      \<and> rs_allowed rs' = rs_allowed rs @ runs perm ans errs reqs
      \<and> rs_denied rs' = rs_denied rs @ map (\<lambda>(r, res). (tc_id r, res)) (refusals perm ans errs reqs)"
proof (induction reqs arbitrary: i rs)
  case Nil
  then show ?case by (simp add: runs_def refusals_def)
next
  case (Cons req reqs)
  have h: "map_of (ae_tools env) (tc_name req) \<noteq> None" "ready perm idn ans errs k i req (rs_decisions rs ! i)"
    "i = k \<Longrightarrow> prompts perm errs req" "i = k \<Longrightarrow> idn (bound perm errs req) = ck_identity ck"
    "i = k \<Longrightarrow> ans (tc_id req) = (if snd decision = Some ''allow_once'' then Approved else Refused)"
    using Cons.prems(3) [rule_format, of 0] by auto
  obtain rs1 where s: "resume_step env ck decision fr uses i req rs = Going rs1"
    and as: "resumed_as (refusal perm ans errs req) (bound perm errs req) i rs rs1"
    using resume_step_as [OF st h(1) errs nosus k h(3,4,5) nw h(2)] by blast
  have id: "tc_id (bound perm errs req) = tc_id req" by (simp add: bound_def)
  have den: "rs_denied rs1 = rs_denied rs @ (case refusal perm ans errs req of None \<Rightarrow> [] | Some t \<Rightarrow> [(tc_id req, result_error t)])"
  proof -
    have "dict_set (tc_id req) x (rs_denied rs) = rs_denied rs @ [(tc_id req, x)]" for x :: ToolResult
      using Cons.prems(2) dict_set_snoc [of "tc_id req" "rs_denied rs" x] by auto
    then show ?thesis using as id by (auto simp: resumed_as_def split: option.splits)
  qed
  have "\<forall>j < length reqs. map_of (ae_tools env) (tc_name (reqs ! j)) \<noteq> None
          \<and> ready perm idn ans errs k (Suc i + j) (reqs ! j) (rs_decisions rs1 ! (Suc i + j))
          \<and> (Suc i + j = k \<longrightarrow> prompts perm errs (reqs ! j) \<and> idn (bound perm errs (reqs ! j)) = ck_identity ck
             \<and> ans (tc_id (reqs ! j)) = (if snd decision = Some ''allow_once'' then Approved else Refused))"
  proof (intro allI impI)
    fix j assume "j < length reqs"
    then show "map_of (ae_tools env) (tc_name (reqs ! j)) \<noteq> None
          \<and> ready perm idn ans errs k (Suc i + j) (reqs ! j) (rs_decisions rs1 ! (Suc i + j))
          \<and> (Suc i + j = k \<longrightarrow> prompts perm errs (reqs ! j) \<and> idn (bound perm errs (reqs ! j)) = ck_identity ck
             \<and> ans (tc_id (reqs ! j)) = (if snd decision = Some ''allow_once'' then Approved else Refused))"
      using Cons.prems(3) [rule_format, of "Suc j"] as by (simp add: resumed_as_def)
  qed
  moreover have "set (map tc_id reqs) \<inter> fst ` set (rs_denied rs1) = {}"
    using Cons.prems(1,2) den by (auto split: option.splits)
  ultimately obtain rs' where "resume_loop env ck decision fr uses (Suc i) reqs rs1 = Going rs'"
    "rs_allowed rs' = rs_allowed rs1 @ runs perm ans errs reqs"
    "rs_denied rs' = rs_denied rs1 @ map (\<lambda>(r, res). (tc_id r, res)) (refusals perm ans errs reqs)"
    using Cons.IH [of rs1 "Suc i"] Cons.prems(1) by auto
  then show ?case using s as den id
    by (auto simp: runs_def refusals_def resumed_as_def split: option.splits)
qed

lemma context_ask:
  "current_context (env\<lparr>ae_ask := f\<rparr>) w = current_context env w"
  "effective_context (env\<lparr>ae_ask := f\<rparr>) req c = effective_context env req c"
  by (auto simp: current_context_def effective_context_def split: option.splits)

lemma request_permission_ask [simp]: "request_permission (env\<lparr>ae_ask := f\<rparr>) tool req w = request_permission env tool req w"
  by (simp add: request_permission_def context_ask)

lemma make_request_ask [simp]: "make_request (env\<lparr>ae_ask := f\<rparr>) = make_request env"
  by (auto simp: fun_eq_iff make_request_def Let_def split: option.splits)

definition suspend_at :: "string \<Rightarrow> ('u, 'c, 'p) agent_env \<Rightarrow> ('u, 'c, 'p) agent_env" where
  \<comment> \<open>the prompt for one call is left unanswered\<close>
  "suspend_at sid env = env\<lparr>ae_ask := \<lambda>req p fr w. if tc_id req = sid then (Suspend, w) else ae_ask env req p fr w\<rparr>"

lemma suspend_at_sel [simp]: "ae_tools (suspend_at sid env) = ae_tools env" "make_request (suspend_at sid env) = make_request env"
  by (simp_all add: suspend_at_def)

lemma stable_suspend:
  assumes "steady env perm idn ans"
  shows "steady (suspend_at sid env) perm idn (ans(sid := Suspend))"
  using assms by (simp add: steady_def suspend_at_def)

lemma initial_decision:
  assumes "j < length reqs" "\<not> selector_in_batch reqs"
  shows "case map_of errs (tc_id (reqs ! j)) of
      Some e \<Rightarrow> cd_state (initial_decisions errs reqs ! j) = Denied \<and> cd_source (initial_decisions errs reqs ! j) = Some ''input_error''
        \<and> cd_denied_result (initial_decisions errs reqs ! j) = Some e
    | None \<Rightarrow> cd_state (initial_decisions errs reqs ! j) = Not_Evaluated"
  using assms by (auto simp: initial_decisions_def fresh_decision_def decide_def split: option.splits)

lemma settled_other: "ans (tc_id req) = ans' (tc_id req) \<Longrightarrow> settled perm idn ans errs req d = settled perm idn ans' errs req d"
  by (auto simp: settled_def Let_def split: option.splits)

lemma suspended_frame:
  assumes st: "steady env perm idn ans" and nosus: "\<And>i. ans i \<noteq> Suspend"
    and tools: "\<forall>tu \<in> set uses. map_of (ae_tools env) (tu_name tu) \<noteq> None" and dist: "distinct (map tu_id uses)"
    and frame: "fst (permission_phase (suspend_at sid env) errs ref digest uses w) = Some fr"
  shows "\<exists>k < length uses. cf_current_index fr = int k \<and> length (cf_decisions fr) = length uses
    \<and> prompts perm errs (make_request env (uses ! k)) \<and> tu_id (uses ! k) = sid
    \<and> (\<forall>j < length uses. ready perm idn ans errs k j (make_request env (uses ! j)) (cf_decisions fr ! j))
    \<and> \<not> selector_in_batch (map (make_request env) uses)"
proof -
  let ?env = "suspend_at sid env"
    and ?reqs = "map (make_request env) uses" and ?ans = "ans(sid := Suspend)"
  note st' = stable_suspend [OF st, of sid]
  have reg: "\<forall>req \<in> set ?reqs. map_of (ae_tools env) (tc_name req) \<noteq> None" using tools by simp
  have ids: "distinct (map tc_id ?reqs)" using dist by (simp add: comp_def)
  have len: "length (initial_decisions errs ?reqs) = length uses" by (simp add: initial_decisions_def)
  obtain fr0 where f: "fst (phase_loop ?env errs fr0 uses 0 (if selector_in_batch ?reqs then [] else ?reqs)
      \<lparr>ph_allowed = [], ph_denied = (if selector_in_batch ?reqs then map (\<lambda>r. (r, result_error selector_batch_error)) ?reqs else []),
       ph_decisions = initial_decisions errs ?reqs, ph_world = w\<rparr>) = Some fr"
    using frame by (auto simp: permission_phase_def Let_def)
  then have sel: "\<not> selector_in_batch ?reqs" by (auto split: if_splits)
  define ph0 :: "('a, 'b) agent_world \<Rightarrow> ('a, 'b) permission_phase_state"
    where "ph0 = (\<lambda>w. \<lparr>ph_allowed = [], ph_denied = [], ph_decisions = initial_decisions errs ?reqs, ph_world = w\<rparr>)"
  have ph0: "ph_allowed (ph0 w) = []" "ph_denied (ph0 w) = []" "ph_decisions (ph0 w) = initial_decisions errs ?reqs" for w
    by (simp_all add: ph0_def)
  have f': "fst (phase_loop ?env errs fr0 uses 0 ?reqs (ph0 w)) = Some fr" using f sel by (simp add: ph0_def)
  have "\<exists>req \<in> set ?reqs. prompts perm errs req \<and> tc_id req = sid"
  proof (rule ccontr)
    assume "\<not> (\<exists>req \<in> set ?reqs. prompts perm errs req \<and> tc_id req = sid)"
    then have "\<forall>req \<in> set ?reqs. map_of (ae_tools ?env) (tc_name req) \<noteq> None \<and> (prompts perm errs req \<longrightarrow> ?ans (tc_id req) \<noteq> Suspend)"
      using reg nosus by auto
    from live_loop [OF st' this, of 0 "ph0 w" fr0 uses] f' len show False by (auto simp: ph0)
  qed
  then obtain pre req post where split: "?reqs = pre @ req # post" and cur: "prompts perm errs req" "tc_id req = sid"
    by (meson split_list)
  have other: "r \<in> set pre \<union> set post \<Longrightarrow> tc_id r \<noteq> sid" for r using ids cur(2) unfolding split by (auto simp: image_iff)
  have pre: "\<forall>r \<in> set pre. map_of (ae_tools ?env) (tc_name r) \<noteq> None \<and> (prompts perm errs r \<longrightarrow> ?ans (tc_id r) \<noteq> Suspend)"
    using reg other nosus unfolding split by auto
  have lp: "length pre < length uses" using arg_cong [OF split, of length] by simp
  have c1: "map_of (ae_tools ?env) (tc_name req) \<noteq> None" using reg unfolding split by simp
  have c3: "?ans (tc_id req) = Suspend" using cur(2) by simp
  have c4: "length pre < length (ph_decisions (ph0 w))" using lp len by (simp add: ph0)
  obtain fr1 ph' where l: "phase_loop ?env errs fr0 uses 0 (pre @ req # post) (ph0 w) = (Some fr1, ph')"
    "cf_current_index fr1 = int (length pre)" "length (cf_decisions fr1) = length uses"
    "\<forall>j < length pre. cf_decisions fr1 ! j = settled perm idn ?ans errs (pre ! j) (initial_decisions errs ?reqs ! j)"
    "cd_state (cf_decisions fr1 ! length pre) = Pending"
    "\<forall>j > length pre. cf_decisions fr1 ! j = initial_decisions errs ?reqs ! j"
    using suspended_loop [OF st' pre c1 cur(1) c3 c4, of fr0 uses post] unfolding ph0 len by blast
  have fr: "fr = fr1" using f' l(1) by (simp add: split)
  have ready: "ready perm idn ans errs (length pre) j (?reqs ! j) (cf_decisions fr1 ! j)" if j: "j < length uses" for j
  proof -
    consider "j < length pre" | "j = length pre" | "length pre < j" by linarith
    then show ?thesis
    proof cases
      case 1
      have "pre ! j \<in> set pre" using 1 by simp
      then have "settled perm idn ?ans errs (pre ! j) d = settled perm idn ans errs (pre ! j) d" for d
        using other by (intro settled_other) auto
      then show ?thesis using 1 l(4) unfolding split by (auto simp: ready_def nth_append)
    next
      case 2
      then show ?thesis using l(5) cur unfolding split by (simp add: ready_def prompts_def nth_append)
    next
      case 3
      then show ?thesis using l(6) initial_decision [of j ?reqs errs] j sel by (auto simp: ready_def split: option.splits)
    qed
  qed
  have "?reqs ! length pre = req" unfolding split by (simp add: nth_append)
  then have "prompts perm errs (make_request env (uses ! length pre))" "tu_id (uses ! length pre) = sid"
    using cur lp by (auto simp: nth_map)
  then show ?thesis using lp l(2,3) ready sel fr by (intro exI [of _ "length pre"]) simp
qed

lemma live_batch:
  assumes st: "steady env perm idn ans" and nosus: "\<And>i. ans i \<noteq> Suspend"
    and tools: "\<forall>tu \<in> set uses. map_of (ae_tools env) (tu_name tu) \<noteq> None"
    and sel: "\<not> selector_in_batch (map (make_request env) uses)"
  shows "\<exists>live. permission_phase env errs ref digest uses w = (None, live)
    \<and> ph_allowed live = runs perm ans errs (map (make_request env) uses)
    \<and> ph_denied live = refusals perm ans errs (map (make_request env) uses)"
proof -
  have all: "\<forall>r \<in> set (map (make_request env) uses). map_of (ae_tools env) (tc_name r) \<noteq> None \<and> (prompts perm errs r \<longrightarrow> ans (tc_id r) \<noteq> Suspend)"
    using tools nosus by simp
  have len: "length (initial_decisions errs (map (make_request env) uses)) = length uses" by (simp add: initial_decisions_def)
  note live = live_loop [OF st all, of 0 "\<lparr>ph_allowed = [], ph_denied = [],
    ph_decisions = initial_decisions errs (map (make_request env) uses), ph_world = w\<rparr>"
    "\<lparr>cf_message_ref = ref, cf_message_digest = digest, cf_ordered_ids = map tc_id (map (make_request env) uses),
      cf_current_index = 0, cf_payload_digest = [], cf_decisions = []\<rparr>" uses]
  show ?thesis using live len sel by (auto simp: permission_phase_def Let_def)
qed

text \<open>
  C8: To be suspended at a prompt costs a batch nothing. Take a batch whose tools are registered and whose
  environment does not change, and let it be suspended at the prompt for the call \<open>sid\<close> while the other prompts are answered.
  When the frame is taken up again with the user's decision, the batch runs exactly the calls, and answers the others
  with exactly the refusals, of a live batch in which the user answers that prompt with the same decision at once.
\<close>

theorem resume_like_live:
  assumes st: "steady env perm idn ans" and nosus: "\<And>i. ans i \<noteq> Suspend"
    and tools: "\<forall>tu \<in> set uses. map_of (ae_tools env) (tu_name tu) \<noteq> None" and dist: "distinct (map tu_id uses)"
    and errs: "\<forall>e \<in> snd ` set errs. e \<noteq> []"
    and frame: "fst (permission_phase (suspend_at sid env) errs ref digest uses w) = Some fr"
    and decided: "status \<noteq> ''none''" "ans sid = (if answer = Some ''allow_once'' then Approved else Refused)"
    and same: "\<And>req. tc_id req = sid \<Longrightarrow> idn req = ck_identity ck"
  shows "\<exists>rs live. resume_batch env ck (status, answer) fr uses w' = Going rs
    \<and> permission_phase env errs ref digest uses w'' = (None, live)
    \<and> rs_allowed rs = ph_allowed live \<and> rs_denied rs = map (\<lambda>(r, res). (tc_id r, res)) (ph_denied live)"
proof -
  let ?reqs = "map (make_request env) uses" and ?rs = "\<lparr>rs_allowed = [], rs_denied = [], rs_decisions = cf_decisions fr, rs_world = w'\<rparr>"
  obtain k where k: "k < length uses" "cf_current_index fr = int k" "length (cf_decisions fr) = length uses"
    "prompts perm errs (make_request env (uses ! k))" "tu_id (uses ! k) = sid"
    "\<forall>j < length uses. ready perm idn ans errs k j (make_request env (uses ! j)) (cf_decisions fr ! j)"
    "\<not> selector_in_batch ?reqs"
    using suspended_frame [OF st nosus tools dist frame] by blast
  have nw: "\<not> rebuild_wait ck (status, answer)" using decided(1) by (simp add: rebuild_wait_def)
  have "distinct (map tc_id ?reqs)" using dist by (simp add: comp_def)
  moreover have "idn (bound perm errs (make_request env (uses ! k))) = ck_identity ck" using same k(5) by (simp add: bound_def)
  ultimately obtain rs where rs: "resume_loop env ck (status, answer) fr uses 0 ?reqs ?rs = Going rs"
    "rs_allowed rs = runs perm ans errs ?reqs" "rs_denied rs = map (\<lambda>(r, res). (tc_id r, res)) (refusals perm ans errs ?reqs)"
    using resume_loop_as [OF st errs nosus k(2) nw, of ?reqs ?rs 0 uses] tools k(4-6) decided(2) by auto
  then have "resume_batch env ck (status, answer) fr uses w' = Going rs" using k(3) by (simp add: resume_batch_def)
  then show ?thesis using rs(2,3) live_batch [OF st nosus tools k(7), of errs ref digest w''] by auto
qed

section \<open>Examples\<close>


definition sample_checkpoint :: permission_checkpoint where
  "sample_checkpoint =
     \<lparr>ck_frame = None, ck_decision = Some (''claimed'', Some ''allow_once''), ck_phase = ''DECIDED'', ck_permission_class = ''normal'',
      ck_has_candidate = False, ck_boundary_id = None, ck_tool_use_id = ''1'', ck_payload_digest = ''p'', ck_identity = (None, None)\<rparr>"

definition two_writes :: "ContentBlock list" where
  "two_writes = [write_use ''1'' ''write_file'', write_use ''2'' ''write_file'']"

definition sample_frame :: "ContentBlock list \<Rightarrow> continuation_frame" where
  "sample_frame uses = the (fst (permission_phase (suspend_at ''1'' (sample_agent Approved)) [] ''session.jsonl:0'' ''m'' uses sample_agent_world))"

definition sample_messages :: "Message list" where
  "sample_messages = [new_message 0 RoleAssistant (Blocks two_writes) []]"

definition sample_resume :: "(nat, nat) resume_state resumed" where
  "sample_resume = resume_permission_boundary (sample_agent Approved) None (sample_checkpoint\<lparr>ck_frame := Some (sample_frame two_writes)\<rparr>)
     sample_messages sample_agent_world"

lemma sample_resume_going: "sample_resume = Going (going sample_resume)"
proof -
  have "is_Going sample_resume" by code_simp
  then show ?thesis by (rule resumed.collapse(3) [symmetric])
qed

theorem resume_respects_policy_witness:
  "tc_id ` set (rs_allowed (going sample_resume)) \<union> fst ` set (rs_denied (going sample_resume)) = {''1'', ''2''}"
proof -
  have "tu_id ` set (get_tool_use_blocks (last sample_messages)) = {''1'', ''2''}"
    by (auto simp: sample_messages_def new_message_def get_tool_use_blocks_def message_blocks_def two_writes_def write_use_def)
  moreover have "tc_id ` set (rs_allowed (going sample_resume)) \<union> fst ` set (rs_denied (going sample_resume))
      = tu_id ` set (get_tool_use_blocks (last sample_messages))"
    using resume_respects_policy [OF sample_resume_going [unfolded sample_resume_def]] unfolding Let_def sample_resume_def by blast
  ultimately show ?thesis by simp
qed

lemma sample_agent_steady:
  "steady (sample_agent outc) (\<lambda>req. request_permission (sample_agent outc) (snd (hd (ae_tools (sample_agent outc)))) req sample_agent_world)
     (\<lambda>req. (None, None)) (\<lambda>i. outc)"
  by (auto simp: steady_def sample_agent_def request_permission_def current_context_def split: if_splits)

theorem resume_like_live_witness:
  "\<exists>rs live. resume_batch (sample_agent Approved) sample_checkpoint (''claimed'', Some ''allow_once'') (sample_frame two_writes) two_writes
       sample_agent_world = Going rs
     \<and> permission_phase (sample_agent Approved) [] ''session.jsonl:0'' ''m'' two_writes sample_agent_world = (None, live)
     \<and> rs_allowed rs = ph_allowed live \<and> rs_denied rs = map (\<lambda>(r, res). (tc_id r, res)) (ph_denied live)"
proof (rule resume_like_live [OF sample_agent_steady, where sid = "''1''"])
  show "fst (permission_phase (suspend_at ''1'' (sample_agent Approved)) [] ''session.jsonl:0'' ''m'' two_writes sample_agent_world)
      = Some (sample_frame two_writes)"
  proof -
    have "fst (permission_phase (suspend_at ''1'' (sample_agent Approved)) [] ''session.jsonl:0'' ''m'' two_writes sample_agent_world) \<noteq> None"
      by code_simp
    then show ?thesis by (auto simp: sample_frame_def)
  qed
qed (simp_all add: two_writes_def write_use_def sample_agent_def sample_checkpoint_def)

text \<open>
  A call of an unregistered tool is let through without a record of it: its decision stays \<^verbatim>\<open>not_evaluated\<close>. If a later
  call of the batch is suspended at a prompt, the live batch would run both, but the frame cannot be taken up again.
\<close>

theorem unknown_tool_blocks_resume:
  "let uses = [write_use ''0'' ''gone'', write_use ''1'' ''write_file''] in
   map tc_id (ph_allowed (snd (permission_phase (sample_agent Approved) [] ''session.jsonl:0'' ''m'' uses sample_agent_world))) = [''0'', ''1'']
   \<and> (case resume_batch (sample_agent Approved) sample_checkpoint (''claimed'', Some ''allow_once'') (sample_frame uses) uses sample_agent_world of
        Failed e \<Rightarrow> e = ValueError ''permission_resume_invalid: prior tool decision is incomplete'' | _ \<Rightarrow> False)"
  by code_simp

end
