(* ===== verification/Compaction.thy ===== *)
theory Compaction
  imports Messages
begin

text \<open>
  \<^verbatim>\<open>src/src/iac_code/services/context_manager.py\<close>: the token account of a conversation and its
  compaction, which replaces the older part of the effective context by a summary. The token
  counter is a third-party tokenizer, so the count of a message is an argument; the product of the
  context window with the threshold 0.93, a float that is only compared with integers, is the field
  \<open>cc_compact_limit\<close>, its integral part. The text of the summary prompt is not modelled.
\<close>

section \<open>State\<close>

record ContextWindowConfig =
  cc_context_window :: int
  cc_compact_limit :: int
  cc_preserve_recent_turns :: nat

record ContextManager =
  cm_messages :: "Message list"
  cm_config :: ContextWindowConfig
  cm_system_prompt_tokens :: int
  cm_tool_definition_tokens :: int

definition last_compaction_index :: "ContextManager \<Rightarrow> nat option" where
  "last_compaction_index cm =
     List.find (\<lambda>i. is_compaction_summary_message (cm_messages cm ! i)) (rev [0..<length (cm_messages cm)])"

definition get_context_messages :: "ContextManager \<Rightarrow> Message list" where
  "get_context_messages cm =
     fold_pipeline_user_history
       (case last_compaction_index cm of None \<Rightarrow> cm_messages cm | Some i \<Rightarrow> drop i (cm_messages cm))"

definition get_total_tokens :: "ContextManager \<Rightarrow> int" where
  "get_total_tokens cm =
     cm_system_prompt_tokens cm + cm_tool_definition_tokens cm
     + sum_list (map ms_token_count (get_context_messages cm))"

record usage =
  us_user :: int
  us_assistant :: int
  us_tool_result :: int
  us_total :: int
  us_message_count :: nat

definition carries_tool_result :: "Message \<Rightarrow> bool" where
  "carries_tool_result m = list_ex is_ToolResultBlock (message_blocks m)"

definition get_usage :: "ContextManager \<Rightarrow> usage" where
  "get_usage cm =
     (let msgs = get_context_messages cm;
          sum_of = (\<lambda>P. sum_list (map ms_token_count (filter P msgs)));
          user = sum_of (\<lambda>m. ms_role m = RoleUser \<and> \<not> carries_tool_result m);
          assistant = sum_of (\<lambda>m. ms_role m = RoleAssistant);
          tool_result = sum_of (\<lambda>m. ms_role m = RoleUser \<and> carries_tool_result m)
      in \<lparr>us_user = user, us_assistant = assistant, us_tool_result = tool_result,
          us_total = cm_system_prompt_tokens cm + cm_tool_definition_tokens cm + user + assistant + tool_result,
          us_message_count = length msgs\<rparr>)"

section \<open>The split point\<close>

definition tool_use_ids :: "Message \<Rightarrow> string list" where
  "tool_use_ids m = map tu_id (filter is_ToolUseBlock (message_blocks m))"

definition tool_result_ids :: "Message \<Rightarrow> string list" where
  "tool_result_ids m = map tr_tool_use_id (filter is_ToolResultBlock (message_blocks m))"

definition is_user_turn_start :: "Message \<Rightarrow> bool" where
  "is_user_turn_start m = (ms_role m = RoleUser \<and> tool_result_ids m = [])"

definition is_safe_tail_start :: "Message \<Rightarrow> bool \<Rightarrow> bool" where
  "is_safe_tail_start m allow_assistant_start =
     (if allow_assistant_start then tool_result_ids m = [] else is_user_turn_start m)"

fun back_to_safe :: "Message list \<Rightarrow> bool \<Rightarrow> nat \<Rightarrow> nat" where
  \<comment> \<open>the inner loop\<close>
  "back_to_safe messages allow_assistant_start 0 = 0"
| "back_to_safe messages allow_assistant_start (Suc n) =
     (if is_safe_tail_start (messages ! Suc n) allow_assistant_start then Suc n
      else back_to_safe messages allow_assistant_start n)"

definition setdefault :: "'k \<Rightarrow> 'v \<Rightarrow> ('k \<times> 'v) list \<Rightarrow> ('k \<times> 'v) list" where
  "setdefault k v d = (if k \<in> fst ` set d then d else d @ [(k, v)])"

fun collect_tool_uses :: "nat \<Rightarrow> Message list \<Rightarrow> (string \<times> nat) list \<Rightarrow> (string \<times> nat) list" where
  \<comment> \<open>\<^verbatim>\<open>old_tool_uses\<close>: each id with the index of the first message that uses it\<close>
  "collect_tool_uses index [] d = d"
| "collect_tool_uses index (m # ms) d =
     collect_tool_uses (Suc index) ms (fold (\<lambda>tid. setdefault tid index) (tool_use_ids m) d)"

definition old_tool_results :: "Message list \<Rightarrow> string list" where
  "old_tool_results ms = concat (map tool_result_ids ms)"

definition unpaired_indices :: "Message list \<Rightarrow> nat list" where
  \<comment> \<open>the indices recorded for the unpaired tool uses of the old messages\<close>
  "unpaired_indices old =
     map snd (filter (\<lambda>(tid, i). tid \<notin> set (old_tool_results old)) (collect_tool_uses 0 old []))"

lemma fold_setdefault:
  "(k, v) \<in> set (fold (\<lambda>tid. setdefault tid i) tids d) \<longleftrightarrow>
     (k, v) \<in> set d \<or> (k \<in> set tids \<and> v = i \<and> k \<notin> fst ` set d)"
proof (induction tids arbitrary: d)
  case (Cons t tids)
  then show ?case by (cases "t \<in> fst ` set d") (auto simp: setdefault_def rev_image_eqI)
qed simp

lemma collect_tool_uses_bound:
  "(k, v) \<in> set (collect_tool_uses index ms d) \<Longrightarrow>
     (k, v) \<in> set d \<or> (\<exists>j < length ms. v = index + j \<and> k \<in> set (tool_use_ids (ms ! j)))"
proof (induction ms arbitrary: index d)
  case (Cons m ms)
  from Cons.IH [OF Cons.prems [simplified]] show ?case
  proof
    assume "(k, v) \<in> set (fold (\<lambda>tid. setdefault tid index) (tool_use_ids m) d)"
    then show ?thesis by (auto simp: fold_setdefault)
  next
    assume "\<exists>j < length ms. v = Suc index + j \<and> k \<in> set (tool_use_ids (ms ! j))"
    then obtain j where "j < length ms" "v = Suc index + j" "k \<in> set (tool_use_ids (ms ! j))" by blast
    then show ?thesis by (intro disjI2 exI [of _ "Suc j"]) simp
  qed
qed simp

lemma unpaired_indices_less: "i \<in> set (unpaired_indices old) \<Longrightarrow> i < length old"
  by (auto simp: unpaired_indices_def dest!: collect_tool_uses_bound)

lemma back_to_safe_le: "back_to_safe ms relaxed s \<le> s"
  by (induction s) (auto intro: le_SucI)

function split_loop :: "Message list \<Rightarrow> bool \<Rightarrow> nat \<Rightarrow> nat" where
  "split_loop messages relaxed split_point =
     (if split_point = 0 then 0
      else
        let sp = back_to_safe messages relaxed split_point in
        if sp = 0 then 0
        else
          let unpaired = unpaired_indices (take sp messages) in
          if unpaired = [] then sp else split_loop messages relaxed (Min (set unpaired)))"
  by pat_completeness auto
termination
proof (relation "measure (\<lambda>(_, _, s). s)", goal_cases)
  case (2 messages relaxed split_point sp unpaired)
  then have "Min (set unpaired) \<in> set unpaired" by (intro Min_in) auto
  then have "Min (set unpaired) < length (take sp messages)" using 2(4) unpaired_indices_less by blast
  also have "\<dots> \<le> split_point" using 2(2) back_to_safe_le [of messages relaxed split_point] by simp
  finally show ?case by simp
qed simp

declare split_loop.simps [simp del]

definition find_safe_compaction_split :: "Message list \<Rightarrow> int \<Rightarrow> bool \<Rightarrow> nat" where
  "find_safe_compaction_split messages split_point allow_assistant_start =
     (let sp = nat (max 0 (min split_point (int (length messages)))) in
      if sp \<ge> length messages then sp else split_loop messages allow_assistant_start sp)"

definition has_compactible_content :: "Message list \<Rightarrow> bool" where
  "has_compactible_content messages =
     list_ex (\<lambda>m. \<not> (is_compaction_summary_message m \<or> is_recalled_memory_message m \<or> is_cleanup_prompt_message m))
       messages"

definition split_messages_for_compaction :: "ContextManager \<Rightarrow> Message list \<times> Message list" where
  "split_messages_for_compaction cm =
     (let messages = get_context_messages cm;
          preserve_count = cc_preserve_recent_turns (cm_config cm) * 2
      in if length messages \<le> preserve_count then ([], messages)
         else
           let naive_split = int (length messages - preserve_count);
               strict_split = find_safe_compaction_split messages naive_split False;
               strict_old = take strict_split messages
           in if strict_split > 0 \<and> has_compactible_content strict_old
              then (strict_old, drop strict_split messages)
              else
                let relaxed_split = find_safe_compaction_split messages naive_split True in
                if relaxed_split > strict_split
                then (take relaxed_split messages, drop relaxed_split messages)
                else (strict_old, drop strict_split messages))"

definition needs_compaction :: "ContextManager \<Rightarrow> int \<Rightarrow> bool" where
  "needs_compaction cm reserved_output_tokens =
     (let total = get_total_tokens cm in
      if total \<le> cc_compact_limit (cm_config cm)
         \<and> total + reserved_output_tokens \<le> cc_context_window (cm_config cm) then False
      else fst (split_messages_for_compaction cm) \<noteq> [])"

section \<open>Compaction\<close>

definition compaction_marker :: "(Message \<Rightarrow> int) \<Rightarrow> nat \<Rightarrow> string \<Rightarrow> nat \<Rightarrow> Message" where
  \<comment> \<open>the marker with its token count, taken before the tail count is recorded in its metadata\<close>
  "compaction_marker count_message uid summary tail =
     (let m = create_compaction_summary_message uid summary in
      m\<lparr>ms_token_count := count_message m,
        ms_metadata := dict_set COMPACTION_SUMMARY_TAIL_METADATA_KEY (PyInt (int tail)) (ms_metadata m)\<rparr>)"

definition apply_compaction :: "(Message \<Rightarrow> int) \<Rightarrow> nat \<Rightarrow> string \<Rightarrow> ContextManager \<Rightarrow> (int \<times> int) \<times> ContextManager" where
  "apply_compaction count_message uid summary cm =
     (let original_tokens = get_total_tokens cm;
          (old, recent) = split_messages_for_compaction cm
      in if old = [] then ((original_tokens, original_tokens), cm)
         else
           let preserved_hidden = filter is_cleanup_prompt_message old;
               preserved_ids = map ms_object preserved_hidden;
               messages = cm_messages cm;
               insert_index = length messages - length recent;
               head = filter (\<lambda>m. ms_object m \<notin> set preserved_ids) (take insert_index messages);
               marker = compaction_marker count_message uid summary (length preserved_hidden + length recent);
               cm' = cm\<lparr>cm_messages := head @ [marker] @ preserved_hidden @ recent\<rparr>
           in ((original_tokens, get_total_tokens cm'), cm'))"

definition remove_cleanup_prompt_messages :: "ContextManager \<Rightarrow> nat \<times> ContextManager" where
  "remove_cleanup_prompt_messages cm =
     (let kept = filter (\<lambda>m. \<not> is_cleanup_prompt_message m) (cm_messages cm);
          removed = length (cm_messages cm) - length kept
      in (removed, if removed \<noteq> 0 then cm\<lparr>cm_messages := kept\<rparr> else cm))"

definition get_surfaced_memory_files :: "ContextManager \<Rightarrow> string set" where
  "get_surfaced_memory_files cm = set (concat (map get_recalled_memory_files (get_context_messages cm)))"

definition add_message :: "(Message \<Rightarrow> int) \<Rightarrow> Message \<Rightarrow> ContextManager \<Rightarrow> ContextManager" where
  \<comment> \<open>shared by \<^verbatim>\<open>add_user_message\<close>, \<^verbatim>\<open>add_assistant_message\<close>, \<^verbatim>\<open>add_tool_results\<close> and the others\<close>
  "add_message count_message m cm = cm\<lparr>cm_messages := cm_messages cm @ [m\<lparr>ms_token_count := count_message m\<rparr>]\<rparr>"

definition load_messages :: "(Message \<Rightarrow> int) \<Rightarrow> Message list \<Rightarrow> ContextManager \<Rightarrow> ContextManager" where
  "load_messages count_message messages cm =
     cm\<lparr>cm_messages := cm_messages cm @ map (\<lambda>m. if ms_token_count m = 0 then m\<lparr>ms_token_count := count_message m\<rparr> else m) messages\<rparr>"

section \<open>The split is the latest safe one\<close>

text \<open>
  A split point is safe when it is the start of the context, or when the tail begins at a message it
  may begin at and every tool call of the older part has its result there too.
\<close>

definition paired_prefix :: "Message list \<Rightarrow> nat \<Rightarrow> bool" where
  "paired_prefix ms s \<longleftrightarrow>
     (\<forall>i < s. \<forall>tid \<in> set (tool_use_ids (ms ! i)). \<exists>j < s. tid \<in> set (tool_result_ids (ms ! j)))"

definition safe_split :: "Message list \<Rightarrow> bool \<Rightarrow> nat \<Rightarrow> bool" where
  "safe_split ms relaxed s \<longleftrightarrow> s = 0 \<or> (is_safe_tail_start (ms ! s) relaxed \<and> paired_prefix ms s)"

lemma old_tool_results_iff:
  "s \<le> length ms \<Longrightarrow> tid \<in> set (old_tool_results (take s ms)) \<longleftrightarrow> (\<exists>j < s. tid \<in> set (tool_result_ids (ms ! j)))"
proof -
  assume s: "s \<le> length ms"
  have "tid \<in> set (old_tool_results (take s ms)) \<longleftrightarrow> (\<exists>m \<in> set (take s ms). tid \<in> set (tool_result_ids m))"
    by (auto simp: old_tool_results_def)
  also have "\<dots> \<longleftrightarrow> (\<exists>j < s. tid \<in> set (tool_result_ids (ms ! j)))"
    unfolding nth_image [OF s, symmetric] by fastforce
  finally show ?thesis .
qed

lemma collect_tool_uses_keeps: "(k, v) \<in> set d \<Longrightarrow> (k, v) \<in> set (collect_tool_uses index ms d)"
  by (induction ms arbitrary: index d) (simp_all add: fold_setdefault)

lemma collect_tool_uses_complete:
  "j < length ms \<Longrightarrow> k \<in> set (tool_use_ids (ms ! j)) \<Longrightarrow> \<forall>(k', v) \<in> set d. v \<le> index \<Longrightarrow>
     \<exists>v \<le> index + j. (k, v) \<in> set (collect_tool_uses index ms d)"
proof (induction ms arbitrary: index d j)
  case (Cons m ms)
  let ?d = "fold (\<lambda>tid. setdefault tid index) (tool_use_ids m) d"
  have d: "\<forall>(k', v) \<in> set ?d. v \<le> Suc index" using Cons.prems(3) by (fastforce simp: fold_setdefault)
  show ?case
  proof (cases j)
    case 0
    with Cons.prems obtain v where "v \<le> index" "(k, v) \<in> set ?d"
      by (cases "k \<in> fst ` set d") (auto simp: fold_setdefault)
    then show ?thesis using collect_tool_uses_keeps 0 by fastforce
  next
    case (Suc j')
    with Cons.IH [OF _ _ d, of j'] Cons.prems show ?thesis by auto
  qed
qed simp

lemma unpaired_indices_iff:
  assumes "s \<le> length ms"
  shows "unpaired_indices (take s ms) = [] \<longleftrightarrow> paired_prefix ms s"
proof
  assume empty: "unpaired_indices (take s ms) = []"
  show "paired_prefix ms s"
    unfolding paired_prefix_def
  proof (intro allI impI ballI)
    fix i tid assume i: "i < s" and tid: "tid \<in> set (tool_use_ids (ms ! i))"
    then obtain v where "(tid, v) \<in> set (collect_tool_uses 0 (take s ms) [])"
      using collect_tool_uses_complete [of i "take s ms" tid "[]" 0] assms by auto
    with empty have "tid \<in> set (old_tool_results (take s ms))"
      by (auto simp: unpaired_indices_def filter_empty_conv)
    then show "\<exists>j < s. tid \<in> set (tool_result_ids (ms ! j))" using assms by (simp add: old_tool_results_iff)
  qed
next
  assume p: "paired_prefix ms s"
  show "unpaired_indices (take s ms) = []"
  proof (rule ccontr)
    assume "unpaired_indices (take s ms) \<noteq> []"
    then obtain tid v where "(tid, v) \<in> set (collect_tool_uses 0 (take s ms) [])"
      and "tid \<notin> set (old_tool_results (take s ms))"
      by (auto simp: unpaired_indices_def filter_empty_conv)
    with collect_tool_uses_bound [OF this(1)] assms
    have "v < s" "tid \<in> set (tool_use_ids (ms ! v))" "\<not> (\<exists>j < s. tid \<in> set (tool_result_ids (ms ! j)))"
      by (auto simp: old_tool_results_iff)
    with p show False unfolding paired_prefix_def by blast
  qed
qed

lemma unpaired_start_unsafe:
  assumes "i \<in> set (unpaired_indices (take s ms))" and "i < t" "t \<le> s" "s \<le> length ms"
  shows "\<not> paired_prefix ms t"
proof
  assume p: "paired_prefix ms t"
  from assms(1) obtain tid where "(tid, i) \<in> set (collect_tool_uses 0 (take s ms) [])"
    and un: "tid \<notin> set (old_tool_results (take s ms))"
    by (auto simp: unpaired_indices_def)
  from collect_tool_uses_bound [OF this(1)] assms have "tid \<in> set (tool_use_ids (ms ! i))" by auto
  with p assms(2,3) obtain j where "j < t" "tid \<in> set (tool_result_ids (ms ! j))" by (auto simp: paired_prefix_def)
  with un assms show False by (auto simp: old_tool_results_iff)
qed

lemma back_to_safe_spec:
  "(back_to_safe ms relaxed s = 0 \<or> is_safe_tail_start (ms ! back_to_safe ms relaxed s) relaxed)
   \<and> (\<forall>t. back_to_safe ms relaxed s < t \<and> t \<le> s \<longrightarrow> \<not> is_safe_tail_start (ms ! t) relaxed)"
  by (induction s) (auto simp: le_Suc_eq)

lemma split_loop_spec:
  assumes "s < length ms"
  shows "safe_split ms relaxed (split_loop ms relaxed s) \<and> split_loop ms relaxed s \<le> s
     \<and> (\<forall>t \<le> s. safe_split ms relaxed t \<longrightarrow> t \<le> split_loop ms relaxed s)"
  using assms
proof (induction ms relaxed s rule: split_loop.induct)
  case (1 ms relaxed s)
  let ?sp = "back_to_safe ms relaxed s"
  have sp: "?sp \<le> s" by (rule back_to_safe_le)
  have above: "\<not> safe_split ms relaxed t" if "?sp < t" "t \<le> s" for t
    using back_to_safe_spec [of ms relaxed s] that by (auto simp: safe_split_def)
  show ?case
  proof (cases "s = 0 \<or> ?sp = 0")
    case True
    then have "split_loop ms relaxed s = 0" and "?sp = 0" using sp by (auto simp: split_loop.simps [of ms relaxed s])
    moreover have "t = 0" if "t \<le> s" "safe_split ms relaxed t" for t
      using above [of t] that \<open>?sp = 0\<close> by (cases t) auto
    ultimately show ?thesis by (simp add: safe_split_def)
  next
    case False
    let ?un = "unpaired_indices (take ?sp ms)"
    have len: "?sp \<le> length ms" using sp 1(2) by simp
    show ?thesis
    proof (cases "?un = []")
      case True
      then have "split_loop ms relaxed s = ?sp" using False by (simp add: split_loop.simps [of ms relaxed s] Let_def)
      moreover have "safe_split ms relaxed ?sp"
        using True False back_to_safe_spec [of ms relaxed s] unpaired_indices_iff [OF len] by (simp add: safe_split_def)
      ultimately show ?thesis using sp above by (auto simp: not_less [symmetric])
    next
      case un: False
      let ?m = "Min (set ?un)"
      have eq: "split_loop ms relaxed s = split_loop ms relaxed ?m"
        using un False by (simp add: split_loop.simps [of ms relaxed s] Let_def)
      have m_in: "?m \<in> set ?un" using un by (intro Min_in) auto
      then have m: "?m < ?sp" using unpaired_indices_less [OF m_in] len by simp
      have mid: "\<not> safe_split ms relaxed t" if "?m < t" "t \<le> ?sp" for t
        using unpaired_start_unsafe [OF m_in that len] that by (simp add: safe_split_def)
      have IH: "safe_split ms relaxed (split_loop ms relaxed ?m) \<and> split_loop ms relaxed ?m \<le> ?m
          \<and> (\<forall>t \<le> ?m. safe_split ms relaxed t \<longrightarrow> t \<le> split_loop ms relaxed ?m)"
        using 1(1) [OF _ refl _ refl un] False m sp 1(2) by simp
      have "t \<le> split_loop ms relaxed ?m" if "t \<le> s" "safe_split ms relaxed t" for t
        using IH above [of t] mid [of t] that by (metis linorder_not_less)
      then show ?thesis using IH m sp eq by simp
    qed
  qed
qed

section \<open>Properties\<close>

lemma find_split_loop:
  "n < length ms \<Longrightarrow> find_safe_compaction_split ms (int n) relaxed = split_loop ms relaxed n"
  by (simp add: find_safe_compaction_split_def Let_def)

text \<open>
  C32: the search for a split point ends at the latest safe one. Of all the points up to the requested one
  it returns the greatest at which the tail begins where it may begin and no tool call of the older part
  is separated from its result; when there is none it returns the start.
\<close>

theorem safe_split_is_latest:
  assumes "0 \<le> sp" and "sp < int (length ms)"
  shows "safe_split ms relaxed (find_safe_compaction_split ms sp relaxed)
     \<and> int (find_safe_compaction_split ms sp relaxed) \<le> sp
     \<and> (\<forall>t. int t \<le> sp \<and> safe_split ms relaxed t \<longrightarrow> t \<le> find_safe_compaction_split ms sp relaxed)"
proof -
  have "find_safe_compaction_split ms sp relaxed = split_loop ms relaxed (nat sp)"
    using find_split_loop [of "nat sp" ms relaxed] assms by simp
  with split_loop_spec [of "nat sp" ms relaxed] assms show ?thesis by (auto simp: le_nat_iff nat_le_iff)
qed

definition text_msg :: "nat \<Rightarrow> role \<Rightarrow> string \<Rightarrow> Message" where
  "text_msg uid r s = new_message uid r (TextContent s) []"

definition call_msg :: "nat \<Rightarrow> string \<Rightarrow> Message" where
  "call_msg uid i = new_message uid RoleAssistant (Blocks [ToolUseBlock i ''bash'' [] []]) []"

definition result_msg :: "nat \<Rightarrow> string \<Rightarrow> Message" where
  "result_msg uid i = new_message uid RoleUser (Blocks [ToolResultBlock i ''ok'' False []]) []"

definition sample_history :: "Message list" where
  "sample_history = [text_msg 0 RoleUser ''deploy a vpc'', call_msg 1 ''t1'', result_msg 2 ''t1'', text_msg 3 RoleAssistant ''done'',
     text_msg 4 RoleUser ''add oss'', call_msg 5 ''t2'', result_msg 6 ''t2'', text_msg 7 RoleAssistant ''ok'']"

theorem safe_split_is_latest_witness:
  "find_safe_compaction_split sample_history 6 False = 4 \<and> safe_split sample_history False 4"
proof -
  have len: "6 < int (length sample_history)" by code_simp
  have r: "find_safe_compaction_split sample_history 6 False = 4" by code_simp
  from safe_split_is_latest [OF _ len, of False] show ?thesis by (simp add: r)
qed

text \<open>Facts on the split of the effective context.\<close>

lemma split_messages_parts:
  assumes "split_messages_for_compaction cm = (old, recent)"
  shows "old @ recent = get_context_messages cm"
  using assms by (auto simp: split_messages_for_compaction_def Let_def split: if_splits)

lemma find_split_naive:
  assumes "0 < p" and "p < length ms"
  shows "find_safe_compaction_split ms (int (length ms - p)) relaxed \<le> length ms - p
     \<and> safe_split ms relaxed (find_safe_compaction_split ms (int (length ms - p)) relaxed)"
proof -
  have "find_safe_compaction_split ms (int (length ms - p)) relaxed = split_loop ms relaxed (length ms - p)"
    using assms by (intro find_split_loop) simp
  then show ?thesis using split_loop_spec [of "length ms - p" ms relaxed] assms by simp
qed

lemma safe_split_relaxed: "safe_split ms False s \<Longrightarrow> safe_split ms True s"
  by (auto simp: safe_split_def is_safe_tail_start_def is_user_turn_start_def)

lemma split_messages_old:
  assumes "split_messages_for_compaction cm = (old, recent)" and "old \<noteq> []"
    and "0 < cc_preserve_recent_turns (cm_config cm)"
  obtains s where "0 < s" "s \<le> length (get_context_messages cm) - 2 * cc_preserve_recent_turns (cm_config cm)"
    "2 * cc_preserve_recent_turns (cm_config cm) < length (get_context_messages cm)"
    "old = take s (get_context_messages cm)" "recent = drop s (get_context_messages cm)"
    "safe_split (get_context_messages cm) True s"
proof -
  let ?ms = "get_context_messages cm" and ?p = "2 * cc_preserve_recent_turns (cm_config cm)"
  let ?find = "find_safe_compaction_split ?ms (int (length ?ms - ?p))"
  have long: "?p < length ?ms"
    using assms(1,2) by (auto simp: split_messages_for_compaction_def Let_def mult.commute split: if_splits)
  have "\<exists>relaxed. old = take (?find relaxed) ?ms \<and> recent = drop (?find relaxed) ?ms"
    using assms(1) long by (auto simp: split_messages_for_compaction_def Let_def mult.commute split: if_splits)
  then obtain relaxed where r: "old = take (?find relaxed) ?ms" "recent = drop (?find relaxed) ?ms" by blast
  have f: "?find relaxed \<le> length ?ms - ?p \<and> safe_split ?ms relaxed (?find relaxed)"
    using assms(3) long by (intro find_split_naive) simp_all
  moreover have "0 < ?find relaxed" using assms(2) r(1) by (cases "?find relaxed") auto
  moreover have "safe_split ?ms True (?find relaxed)"
    using f safe_split_relaxed by (cases relaxed) auto
  ultimately show ?thesis using that r long by blast
qed


text \<open>
  A compaction never breaks the conversation apart. When there is something to compact, the older and
  the recent part make up the effective context, the recent part keeps at least the configured turns and
  does not begin with a tool result, and every tool call of the older part has its result there.
\<close>

theorem compaction_split_sound:
  assumes "split_messages_for_compaction cm = (old, recent)" and "old \<noteq> []"
    and "0 < cc_preserve_recent_turns (cm_config cm)"
  shows "old @ recent = get_context_messages cm
     \<and> 2 * cc_preserve_recent_turns (cm_config cm) \<le> length recent
     \<and> tool_result_ids (hd recent) = []
     \<and> (\<forall>m \<in> set old. \<forall>tid \<in> set (tool_use_ids m). \<exists>m' \<in> set old. tid \<in> set (tool_result_ids m'))"
proof -
  let ?ms = "get_context_messages cm"
  from split_messages_old [OF assms] obtain s where s: "0 < s" "s \<le> length ?ms - 2 * cc_preserve_recent_turns (cm_config cm)"
    "2 * cc_preserve_recent_turns (cm_config cm) < length ?ms"
    "old = take s ?ms" "recent = drop s ?ms" "safe_split ?ms True s" by blast
  have lt: "s < length ?ms" using s assms(3) by linarith
  then have "hd recent = ?ms ! s" using s(5) by (simp add: hd_drop_conv_nth)
  then have "tool_result_ids (hd recent) = []" using s(1,6) by (simp add: safe_split_def is_safe_tail_start_def)
  moreover have "\<exists>m' \<in> set old. tid \<in> set (tool_result_ids m')"
    if m: "m \<in> set old" and tid: "tid \<in> set (tool_use_ids m)" for m tid
  proof -
    obtain i where "i < s" "m = ?ms ! i" using m s(4) lt by (auto simp: in_set_conv_nth)
    then obtain j where "j < s" "tid \<in> set (tool_result_ids (?ms ! j))"
      using s(1,6) tid by (auto simp: safe_split_def paired_prefix_def)
    then show ?thesis using s(4) lt by (metis length_take less_imp_le_nat min.absorb2 nth_mem nth_take)
  qed
  moreover have "length recent = length ?ms - s" using s(5) by simp
  ultimately show ?thesis using split_messages_parts [OF assms(1)] s(2,3) by auto
qed

definition sample_manager :: "Message list \<Rightarrow> ContextManager" where
  "sample_manager ms = \<lparr>cm_messages = ms,
     cm_config = \<lparr>cc_context_window = 128000, cc_compact_limit = 119040, cc_preserve_recent_turns = 1\<rparr>,
     cm_system_prompt_tokens = 0, cm_tool_definition_tokens = 0\<rparr>"

theorem compaction_split_sound_witness:
  "\<exists>old recent. split_messages_for_compaction (sample_manager sample_history) = (old, recent) \<and> length old = 4
     \<and> tool_result_ids (hd recent) = []"
proof -
  let ?s = "split_messages_for_compaction (sample_manager sample_history)"
  have split: "?s = (fst ?s, snd ?s)" by simp
  have old: "length (fst ?s) = 4" by code_simp
  then have ne: "fst ?s \<noteq> []" by auto
  have turns: "0 < cc_preserve_recent_turns (cm_config (sample_manager sample_history))" by code_simp
  from compaction_split_sound [OF split ne turns] old split show ?thesis by blast
qed

section \<open>What a compaction does to the history\<close>

lemma find_rev_upt:
  "List.find P (rev [0..<n]) = (if \<exists>i < n. P i then Some (Max {i. i < n \<and> P i}) else None)"
proof (induction n)
  case (Suc n)
  show ?case
  proof (cases "P n")
    case True
    have "Max {i. i < Suc n \<and> P i} = n" using True by (intro Max_eqI) auto
    then show ?thesis using True by auto
  next
    case False
    then have "{i. i < Suc n \<and> P i} = {i. i < n \<and> P i}" by (auto simp: less_Suc_eq)
    moreover have "(\<exists>i < Suc n. P i) \<longleftrightarrow> (\<exists>i < n. P i)" using False by (auto simp: less_Suc_eq)
    ultimately show ?thesis using False Suc by simp
  qed
qed simp

definition has_handoff :: "Message list \<Rightarrow> bool" where
  "has_handoff ms = list_ex (\<lambda>m. metadata_type_is m HANDOFF_METADATA_TYPE) ms"

lemma context_at_marker:
  assumes "cm_messages cm = pre @ m # post" and "is_compaction_summary_message m"
    and "\<forall>x \<in> set post. \<not> is_compaction_summary_message x" and "\<not> has_handoff (m # post)"
  shows "get_context_messages cm = m # post"
proof -
  let ?P = "\<lambda>i. is_compaction_summary_message (cm_messages cm ! i)"
  have len: "length (cm_messages cm) = length pre + Suc (length post)" using assms(1) by simp
  have here: "?P (length pre)" using assms(1,2) by simp
  have after: "i \<le> length pre" if "i < length (cm_messages cm)" "?P i" for i
  proof (rule ccontr)
    assume "\<not> i \<le> length pre"
    then have "cm_messages cm ! i = post ! (i - Suc (length pre))" "i - Suc (length pre) < length post"
      using assms(1) that(1) len by (auto simp: nth_append nth_Cons')
    with that(2) assms(3) show False by (metis nth_mem)
  qed
  have "Max {i. i < length (cm_messages cm) \<and> ?P i} = length pre"
    using here after len by (intro Max_eqI) auto
  moreover have "\<exists>i < length (cm_messages cm). ?P i" using here len by (intro exI [of _ "length pre"]) simp
  ultimately have "last_compaction_index cm = Some (length pre)"
    by (simp add: last_compaction_index_def find_rev_upt)
  then show ?thesis
    using assms(1,4) by (simp add: get_context_messages_def fold_pipeline_id has_handoff_def)
qed

text \<open>Without handoff messages the effective context is the history from its last marker on.\<close>

lemma context_suffix:
  assumes "\<not> has_handoff (cm_messages cm)"
  obtains pre where "cm_messages cm = pre @ get_context_messages cm"
    "\<forall>x \<in> set (tl (get_context_messages cm)). \<not> is_compaction_summary_message x"
proof (cases "last_compaction_index cm")
  case None
  then have ctx: "get_context_messages cm = cm_messages cm"
    using assms by (simp add: get_context_messages_def fold_pipeline_id has_handoff_def)
  have "\<forall>i < length (cm_messages cm). \<not> is_compaction_summary_message (cm_messages cm ! i)"
    using None by (auto simp: last_compaction_index_def find_rev_upt split: if_splits)
  then have "\<forall>x \<in> set (cm_messages cm). \<not> is_compaction_summary_message x" by (metis in_set_conv_nth)
  then have "\<forall>x \<in> set (tl (cm_messages cm)). \<not> is_compaction_summary_message x"
    by (metis list.sel(2) list.set_sel(2))
  with that [of "[]"] ctx show ?thesis by simp
next
  case (Some i)
  let ?P = "\<lambda>i. is_compaction_summary_message (cm_messages cm ! i)" and ?S = "{i. i < length (cm_messages cm) \<and>
      is_compaction_summary_message (cm_messages cm ! i)}"
  have i: "i = Max ?S" and ne: "?S \<noteq> {}"
    using Some by (auto simp: last_compaction_index_def find_rev_upt split: if_splits)
  have "i \<in> ?S" unfolding i using ne by (intro Max_in) auto
  then have lt: "i < length (cm_messages cm)" by simp
  have later: "\<not> ?P j" if "i < j" "j < length (cm_messages cm)" for j
  proof
    assume "?P j"
    then have "j \<le> i" unfolding i using that(2) by (intro Max_ge) auto
    with that(1) show False by simp
  qed
  have "\<not> has_handoff (drop i (cm_messages cm))"
    using assms by (auto simp: has_handoff_def list_ex_iff dest: in_set_dropD)
  then have ctx: "get_context_messages cm = drop i (cm_messages cm)"
    using Some by (simp add: get_context_messages_def fold_pipeline_id has_handoff_def)
  have "\<not> is_compaction_summary_message x" if "x \<in> set (tl (drop i (cm_messages cm)))" for x
  proof -
    have "x \<in> set (drop (Suc i) (cm_messages cm))" using that by (simp add: tl_drop drop_Suc)
    then obtain k where "k < length (cm_messages cm) - Suc i" "x = cm_messages cm ! (Suc i + k)"
      by (auto simp: in_set_conv_nth)
    with later [of "Suc i + k"] show ?thesis by simp
  qed
  with that [of "take i (cm_messages cm)"] ctx show ?thesis by simp
qed

lemma marker_facts:
  "is_compaction_summary_message (compaction_marker cnt uid summary n)"
  "\<not> metadata_type_is (compaction_marker cnt uid summary n) HANDOFF_METADATA_TYPE"
  by (simp_all add: compaction_marker_def create_compaction_summary_message_def new_message_def Let_def
      is_compaction_summary_message_def metadata_type_is_def COMPACTION_SUMMARY_TAIL_METADATA_KEY_def
      HANDOFF_METADATA_TYPE_def COMPACTION_SUMMARY_METADATA_TYPE_def)

lemma cleanup_not_marker: "is_cleanup_prompt_message m \<Longrightarrow> \<not> is_compaction_summary_message m"
  by (simp add: is_cleanup_prompt_message_def is_compaction_summary_message_def metadata_type_is_def
      CLEANUP_PROMPT_METADATA_TYPE_def COMPACTION_SUMMARY_METADATA_TYPE_def)

text \<open>
  C33: a compaction keeps the whole history. In a conversation without handoff messages it moves the hidden
  cleanup prompts of the older part behind a new marker and changes nothing else; the effective context
  becomes the marker, those prompts and the recent part, and the new token total counts exactly these.
\<close>

theorem compaction_preserves_history:
  assumes "\<not> has_handoff (cm_messages cm)" and "distinct (map ms_object (cm_messages cm))"
    and "split_messages_for_compaction cm = (old, recent)" and "old \<noteq> []"
    and "0 < cc_preserve_recent_turns (cm_config cm)"
    and "apply_compaction cnt uid summary cm = ((before, after), cm')"
  shows "\<exists>pre. let hidden = filter is_cleanup_prompt_message old;
         marker = compaction_marker cnt uid summary (length hidden + length recent) in
       cm_messages cm = pre @ old @ recent
       \<and> cm_messages cm' = pre @ filter (\<lambda>m. \<not> is_cleanup_prompt_message m) old @ [marker] @ hidden @ recent
       \<and> get_context_messages cm' = [marker] @ hidden @ recent
       \<and> after = cm_system_prompt_tokens cm + cm_tool_definition_tokens cm
           + sum_list (map ms_token_count ([marker] @ hidden @ recent))"
proof -
  let ?hidden = "filter is_cleanup_prompt_message old"
  let ?marker = "compaction_marker cnt uid summary (length ?hidden + length recent)"
  from context_suffix [OF assms(1)] obtain pre where pre: "cm_messages cm = pre @ get_context_messages cm"
    and no_marker: "\<forall>x \<in> set (tl (get_context_messages cm)). \<not> is_compaction_summary_message x" by blast
  have ctx: "get_context_messages cm = old @ recent" using split_messages_parts [OF assms(3)] by simp
  have all: "cm_messages cm = pre @ old @ recent" using pre ctx by simp
  have objs: "distinct (map ms_object (pre @ old))" using assms(2) unfolding all by (auto simp: Int_Un_distrib)
  have head_old: "filter (\<lambda>m. ms_object m \<notin> set (map ms_object ?hidden)) old = filter (\<lambda>m. \<not> is_cleanup_prompt_message m) old"
  proof (rule filter_cong [OF refl])
    fix m assume "m \<in> set old"
    then show "(ms_object m \<notin> set (map ms_object ?hidden)) = (\<not> is_cleanup_prompt_message m)"
      using objs by (auto simp: distinct_map inj_on_def)
  qed
  have head_pre: "filter (\<lambda>m. ms_object m \<notin> set (map ms_object ?hidden)) pre = pre"
    using objs by (intro filter_True) (auto simp: distinct_append)
  have cm': "cm' = cm\<lparr>cm_messages := pre @ filter (\<lambda>m. \<not> is_cleanup_prompt_message m) old @ [?marker] @ ?hidden @ recent\<rparr>"
      and after: "after = get_total_tokens cm'"
    using assms(3,4,6) head_old head_pre by (auto simp: apply_compaction_def Let_def all)
  have "\<forall>x \<in> set (?hidden @ recent). \<not> is_compaction_summary_message x"
    using no_marker assms(4) by (cases old) (auto simp: ctx dest: cleanup_not_marker)
  moreover have "\<not> has_handoff (?marker # ?hidden @ recent)"
    using assms(1) marker_facts(2) by (auto simp: has_handoff_def all list_ex_iff)
  ultimately have "get_context_messages cm' = ?marker # ?hidden @ recent"
    by (intro context_at_marker [of _ "pre @ filter (\<lambda>m. \<not> is_cleanup_prompt_message m) old"])
       (simp_all add: cm' marker_facts(1))
  moreover from this have "after = cm_system_prompt_tokens cm + cm_tool_definition_tokens cm
      + sum_list (map ms_token_count ([?marker] @ ?hidden @ recent))"
    unfolding after get_total_tokens_def by (simp add: cm')
  ultimately show ?thesis
    using all by (intro exI [of _ pre]) (simp add: Let_def cm')
qed

theorem compaction_preserves_history_witness:
  "\<exists>pre rest. get_context_messages (snd (apply_compaction (\<lambda>_. 5) 99 ''s'' (sample_manager sample_history))) = pre # rest
     \<and> is_compaction_summary_message pre \<and> length rest = 4"
proof -
  let ?cm = "sample_manager sample_history"
  let ?s = "split_messages_for_compaction ?cm"
  let ?r = "apply_compaction (\<lambda>_. 5) 99 ''s'' ?cm"
  have a: "\<not> has_handoff (cm_messages ?cm)" and b: "distinct (map ms_object (cm_messages ?cm))" by code_simp+
  have split: "?s = (fst ?s, snd ?s)" by simp
  have len: "length (fst ?s) = 4" "length (filter is_cleanup_prompt_message (fst ?s)) = 0" "length (snd ?s) = 4"
    by code_simp+
  then have ne: "fst ?s \<noteq> []" by auto
  have turns: "0 < cc_preserve_recent_turns (cm_config ?cm)" by code_simp
  have r: "?r = ((fst (fst ?r), snd (fst ?r)), snd ?r)" by simp
  from compaction_preserves_history [OF a b split ne turns r] len marker_facts(1) show ?thesis
    by (auto simp: Let_def)
qed

section \<open>A handoff in the recent part\<close>

definition handoff_history :: "Message list" where
  \<comment> \<open>message 4 is a pipeline input, message 6 the handoff that covers it\<close>
  "handoff_history =
     [text_msg 0 RoleUser ''a'', text_msg 1 RoleAssistant ''b'', text_msg 2 RoleUser ''c'', text_msg 3 RoleAssistant ''d'',
      new_message 4 RoleUser (TextContent ''vpc'') [(PIPELINE_USER_HISTORY_KEY, PyDict [(''message_id'', PyStr ''u1'')])],
      text_msg 5 RoleAssistant ''e'',
      new_message 6 RoleUser (TextContent ''handoff'')
        [(''type'', PyStr HANDOFF_METADATA_TYPE), (''pipeline_user_input_ids'', PyList [PyStr ''u1''])],
      text_msg 7 RoleAssistant ''f'', text_msg 8 RoleUser ''g'', text_msg 9 RoleAssistant ''h'']"

definition default_manager :: "Message list \<Rightarrow> ContextManager" where
  "default_manager ms = \<lparr>cm_messages = ms,
     cm_config = \<lparr>cc_context_window = 128000, cc_compact_limit = 119040, cc_preserve_recent_turns = 3\<rparr>,
     cm_system_prompt_tokens = 0, cm_tool_definition_tokens = 0\<rparr>"

text \<open>
  When a handoff hides an input inside the recent part, the compaction counts the recent part from the
  end of the full history, which is longer than the effective one: with the default settings a message
  then stands twice in the history, before and after the marker, and the hidden input is lost.
\<close>

theorem compaction_loses_covered_input:
  "map ms_object (cm_messages (default_manager handoff_history)) = [0, 1, 2, 3, 4, 5, 6, 7, 8, 9]
   \<and> map ms_object (cm_messages (snd (apply_compaction (\<lambda>_. 5) 99 ''s'' (default_manager handoff_history))))
     = [0, 1, 2, 99, 2, 3, 5, 6, 7, 8, 9]"
proof
  show "map ms_object (cm_messages (default_manager handoff_history)) = [0, 1, 2, 3, 4, 5, 6, 7, 8, 9]" by code_simp
  show "map ms_object (cm_messages (snd (apply_compaction (\<lambda>_. 5) 99 ''s'' (default_manager handoff_history))))
     = [0, 1, 2, 99, 2, 3, 5, 6, 7, 8, 9]" by code_simp
qed

text \<open>
  The usage report adds up: the user, assistant and tool-result tokens together with the fixed parts are
  the total that decides about compaction, since every message falls in exactly one of the classes.
\<close>

theorem usage_adds_up: "us_total (get_usage cm) = get_total_tokens cm"
proof -
  have "sum_list (map ms_token_count (filter (\<lambda>m. ms_role m = RoleUser \<and> \<not> carries_tool_result m) ms))
      + sum_list (map ms_token_count (filter (\<lambda>m. ms_role m = RoleAssistant) ms))
      + sum_list (map ms_token_count (filter (\<lambda>m. ms_role m = RoleUser \<and> carries_tool_result m) ms))
      = sum_list (map ms_token_count ms)" for ms
  proof (induction ms)
    case (Cons m ms)
    then show ?case by (cases "ms_role m"; cases "carries_tool_result m") simp_all
  qed simp
  from this [of "get_context_messages cm"] show ?thesis by (simp add: get_usage_def get_total_tokens_def Let_def)
qed

end
