(* ===== verification/Agent_Loop.thy ===== *)
theory Agent_Loop
  imports Permission_Resume Compaction "HOL-Library.Sublist"
begin

text \<open>
  The loop of the agent: \<^verbatim>\<open>_run_streaming_inner\<close> of \<^verbatim>\<open>agent/agent_loop.py\<close> with what it calls of the same class, and
  the externalisation of large results (\<^verbatim>\<open>tools/result_storage.py\<close>). One round asks the model for a response
  (\<open>collect\<close> folds its stream of events), adds the assistant message to the conversation, decides on its tool calls
  (\<open>Permission_Phase\<close>), runs the permitted ones (\<open>Tool_Executor\<close>) and adds their results.

  Arguments (fields of \<open>loop_env\<close>): the model as a function from the round, the context and the world to a list of
  stream events, the summary of a compaction, the token counter, the scheduler of concurrent calls, what users type while
  a round is under way, and the metadata that the event and the stored block of a result carry. The conversation is
  persisted in a session storage, which keeps separate copies of the messages of users and tools. The loop has no memory service and no skills that trigger by themselves; telemetry, request leases, progress
  events of running tools, cancellation and the pause between rounds are not modelled.
\<close>

section \<open>The stream of a response\<close>

datatype stream_event =
    MessageStartEvent string
  | TextDeltaEvent string
  | ThinkingDeltaEvent string int bool "pydict option"  \<comment> \<open>text, block index, redacted, provider metadata\<close>
  | ToolUseStartEvent string string "pydict option"  \<comment> \<open>id, name, provider metadata\<close>
  | ToolInputDeltaEvent string string
  | ToolUseEndEvent string string pydict "pydict option" "string option"  \<comment> \<open>id, name, input, provider metadata, input error\<close>
  | TombstoneEvent string "string list"
  | MessageEndEvent string pydict  \<comment> \<open>stop reason, provider metadata\<close>
  | ErrorEvent string bool  \<comment> \<open>message, context limit exceeded\<close>

record pending_use =
  pu_id :: string
  pu_name :: string
  pu_input :: "pydict option"
  pu_input_error :: "string option"
  pu_provider_metadata :: pydict

record thinking_part =
  tp_redacted :: bool
  tp_text :: string
  tp_provider_metadata :: pydict

record turn_data =
  tn_pending :: "(string \<times> pending_use) list"
  tn_text :: string
  tn_thinking :: "(int \<times> thinking_part) list"
  tn_ended :: bool
  tn_message_id :: "string option"
  tn_stop_reason :: string
  tn_provider_metadata :: pydict

definition empty_turn :: turn_data where
  "empty_turn =
     \<lparr>tn_pending = [], tn_text = [], tn_thinking = [], tn_ended = False, tn_message_id = None, tn_stop_reason = ''stop'',
      tn_provider_metadata = []\<rparr>"

definition given :: "pydict option \<Rightarrow> pydict \<Rightarrow> pydict" where
  \<comment> \<open>\<^verbatim>\<open>if metadata: target = dict(metadata)\<close>\<close>
  "given md old = (case md of None \<Rightarrow> old | Some d \<Rightarrow> if d = [] then old else d)"

definition merge_thinking_metadata :: "pydict \<Rightarrow> pydict \<Rightarrow> pydict" where
  "merge_thinking_metadata md old =
     fold (\<lambda>(key, v) d. dict_set key
         (case (v, map_of d key) of
            (PyStr new, Some (PyStr so_far)) \<Rightarrow> if key = ''signature'' then PyStr (so_far @ new) else v
          | _ \<Rightarrow> v) d) md old"

definition pending_of :: "string \<Rightarrow> string \<Rightarrow> turn_data \<Rightarrow> pending_use" where
  \<comment> \<open>\<^verbatim>\<open>setdefault(tool_use_id, {})\<close> with the id and the name set\<close>
  "pending_of i name tn =
     (case map_of (tn_pending tn) i of
        None \<Rightarrow> \<lparr>pu_id = i, pu_name = name, pu_input = None, pu_input_error = None, pu_provider_metadata = []\<rparr>
      | Some u \<Rightarrow> u\<lparr>pu_id := i, pu_name := name\<rparr>)"

fun collect_event :: "stream_event \<Rightarrow> turn_data \<Rightarrow> turn_data" where
  "collect_event (MessageStartEvent i) tn = tn\<lparr>tn_message_id := Some i\<rparr>"
| "collect_event (TextDeltaEvent t) tn = tn\<lparr>tn_text := tn_text tn @ t\<rparr>"
| "collect_event (ThinkingDeltaEvent t ix redacted md) tn =
     (let part = (case map_of (tn_thinking tn) ix of
          None \<Rightarrow> \<lparr>tp_redacted = redacted, tp_text = [], tp_provider_metadata = []\<rparr> | Some p \<Rightarrow> p)
      in tn\<lparr>tn_thinking := dict_set ix
           (part\<lparr>tp_redacted := redacted, tp_text := tp_text part @ t,
                 tp_provider_metadata := merge_thinking_metadata (case md of None \<Rightarrow> [] | Some d \<Rightarrow> d) (tp_provider_metadata part)\<rparr>)
           (tn_thinking tn)\<rparr>)"
| "collect_event (ToolUseStartEvent i name md) tn =
     (let u = pending_of i name tn in
      tn\<lparr>tn_pending := dict_set i (u\<lparr>pu_provider_metadata := given md (pu_provider_metadata u)\<rparr>) (tn_pending tn)\<rparr>)"
| "collect_event (ToolInputDeltaEvent i t) tn = tn"
| "collect_event (ToolUseEndEvent i name inp md err) tn =
     (let u = pending_of i name tn in
      tn\<lparr>tn_pending := dict_set i
           (u\<lparr>pu_input := Some inp,
              pu_input_error := (case err of None \<Rightarrow> pu_input_error u | Some e \<Rightarrow> if e = [] then pu_input_error u else Some e),
              pu_provider_metadata := given md (pu_provider_metadata u)\<rparr>) (tn_pending tn)\<rparr>)"
| "collect_event (TombstoneEvent i ids) tn =
     tn\<lparr>tn_pending := [], tn_text := [], tn_thinking := [], tn_provider_metadata := []\<rparr>"
| "collect_event (MessageEndEvent reason md) tn = tn\<lparr>tn_ended := True, tn_stop_reason := reason, tn_provider_metadata := md\<rparr>"
| "collect_event (ErrorEvent e limit) tn = tn"

definition collect :: "stream_event list \<Rightarrow> turn_data" where
  "collect events = fold collect_event events empty_turn"

definition thinking_blocks :: "turn_data \<Rightarrow> ContentBlock list" where
  "thinking_blocks tn =
     concat (map (\<lambda>ix. case map_of (tn_thinking tn) ix of
         None \<Rightarrow> []
       | Some p \<Rightarrow>
           let md = tp_provider_metadata p in
           if tp_redacted p then
             (case map_of md ''data'' of Some (PyStr d) \<Rightarrow> if d \<noteq> [] then [RedactedThinkingBlock d md] else [] | _ \<Rightarrow> [])
           else if tp_text p \<noteq> [] \<or> md \<noteq> [] then [ThinkingBlock (tp_text p) md] else []) (sort (map fst (tn_thinking tn))))"

definition completed_tools :: "turn_data \<Rightarrow> pending_use list" where
  "completed_tools tn = filter (\<lambda>u. pu_input u \<noteq> None) (map snd (tn_pending tn))"

definition tool_use_block :: "pending_use \<Rightarrow> ContentBlock" where
  "tool_use_block u = ToolUseBlock (pu_id u) (pu_name u) (the (pu_input u)) (pu_provider_metadata u)"

definition assistant_blocks :: "turn_data \<Rightarrow> ContentBlock list" where
  "assistant_blocks tn =
     (if tn_stop_reason tn = ''max_tokens'' then [] else thinking_blocks tn)
     @ (if tn_text tn \<noteq> [] then [TextBlock (tn_text tn)] else []) @ map tool_use_block (completed_tools tn)"

definition turn_metadata :: "turn_data \<Rightarrow> pydict" where
  "turn_metadata tn = (if tn_stop_reason tn = ''max_tokens'' then [] else tn_provider_metadata tn)"

definition input_errors_of :: "turn_data \<Rightarrow> (string \<times> string) list" where
  "input_errors_of tn =
     concat (map (\<lambda>u. case pu_input_error u of None \<Rightarrow> [] | Some e \<Rightarrow> [(pu_id u, e)]) (completed_tools tn))"

section \<open>The state of the loop\<close>

datatype agent_event =
    Provider_Event stream_event
  | ToolResultEvent string string string bool  \<comment> \<open>id, tool name, result, is error\<close>
  | Response_Dropped string "string list"  \<comment> \<open>a \<^verbatim>\<open>TombstoneEvent\<close> of the loop\<close>
  | Output_Limit_Error
  | Message_End string  \<comment> \<open>a \<^verbatim>\<open>MessageEndEvent\<close> of the loop\<close>
  | Compaction_Started
  | Compaction_Finished string
  | Compaction_Failed
  | QueuedInputSubmittedEvent string string

type_synonym injection = "msg_content \<times> pydict"

datatype typing_phase = While_Streaming | While_Asking | While_Executing | While_Reporting

record ('u, 'c) loop_state =
  lp_context :: ContextManager
  lp_stored :: "Message list"  \<comment> \<open>the transcript in the session storage\<close>
  lp_next_object :: nat
  lp_pending_injections :: "injection list"
  lp_accepting :: bool
  lp_model_request_count :: nat
  lp_world :: "('u, 'c) agent_world"
  lp_events :: "agent_event list"
  lp_accepted :: "injection list"  \<comment> \<open>a log of the accepted input, kept for the statements below; the code has none\<close>

record ('u, 'c, 'p) loop_env =
  le_agent :: "('u, 'c, 'p) agent_env"
  le_max_turns :: nat
  le_transcript_id :: "string option"
  le_count_message :: "Message \<Rightarrow> int"
  le_reserved_output_tokens :: "int option"  \<comment> \<open>given when the provider uses only a part of its window\<close>
  le_respond :: "nat \<Rightarrow> Message list \<Rightarrow> ('u, 'c) agent_world \<Rightarrow> stream_event list \<times> ('u, 'c) agent_world"
  le_summarize :: "Message list \<Rightarrow> ('u, 'c) agent_world \<Rightarrow> string option \<times> ('u, 'c) agent_world"
  le_typed :: "nat \<Rightarrow> typing_phase \<Rightarrow> ('u, 'c) agent_world \<Rightarrow> injection list"
  le_queued_inputs :: "nat \<Rightarrow> ('u, 'c) agent_world \<Rightarrow> string list"
  le_new_id :: "nat \<Rightarrow> string"
  le_attach :: "ToolResult \<Rightarrow> 'p \<Rightarrow> ToolResult"
  le_tool_timeout :: string
  le_scheduler :: scheduler
  le_storage_dir :: string
  le_result_digest :: "string \<Rightarrow> string"
  le_max_inline_chars :: nat
  le_preview_chars :: nat
  le_event_metadata :: "AgentRequest \<Rightarrow> string option \<Rightarrow> ToolResult \<Rightarrow> pydict option"  \<comment> \<open>\<^verbatim>\<open>result_metadata\<close>\<close>
  le_block_metadata :: "string option \<Rightarrow> pydict option \<Rightarrow> pydict"  \<comment> \<open>\<^verbatim>\<open>_tool_result_block_metadata\<close>\<close>
  le_parse_blocks :: "pyval \<Rightarrow> ContentBlock list"

definition emit :: "agent_event list \<Rightarrow> ('u, 'c) loop_state \<Rightarrow> ('u, 'c) loop_state" where
  "emit es st = st\<lparr>lp_events := lp_events st @ es\<rparr>"

definition close_input :: "('u, 'c) loop_state \<Rightarrow> ('u, 'c) loop_state" where
  "close_input st = st\<lparr>lp_accepting := False\<rparr>"

definition record_message :: "('u, 'c, 'p) loop_env \<Rightarrow> role \<Rightarrow> msg_content \<Rightarrow> pydict \<Rightarrow> ('u, 'c) loop_state \<Rightarrow> ('u, 'c) loop_state" where
  \<comment> \<open>a message is added to the context and counted, gets its metadata, and is itself appended to the session storage\<close>
  "record_message env role content md st =
     (let m = new_message (lp_next_object st) role content [];
          counted = m\<lparr>ms_token_count := le_count_message env m, ms_metadata := md\<rparr>
      in st\<lparr>lp_context := (lp_context st)\<lparr>cm_messages := cm_messages (lp_context st) @ [counted]\<rparr>,
            lp_stored := lp_stored st @ [counted], lp_next_object := Suc (lp_next_object st)\<rparr>)"

definition record_copy :: "('u, 'c, 'p) loop_env \<Rightarrow> msg_content \<Rightarrow> ('u, 'c) loop_state \<Rightarrow> ('u, 'c) loop_state" where
  \<comment> \<open>user input and tool results: a message is added to the context and counted, and a second one, \<^verbatim>\<open>Message(role="user", content=...)\<close>
    with no token count, is appended to the session storage\<close>
  "record_copy env content st =
     (let m = new_message (lp_next_object st) RoleUser content [];
          copy = new_message (Suc (lp_next_object st)) RoleUser content []
      in st\<lparr>lp_context := (lp_context st)\<lparr>cm_messages := cm_messages (lp_context st) @ [m\<lparr>ms_token_count := le_count_message env m\<rparr>]\<rparr>,
            lp_stored := lp_stored st @ [copy], lp_next_object := Suc (Suc (lp_next_object st))\<rparr>)"

definition try_inject_user_message :: "injection \<Rightarrow> ('u, 'c) loop_state \<Rightarrow> bool \<times> ('u, 'c) loop_state" where
  "try_inject_user_message msg st =
     (if \<not> lp_accepting st then (False, st) else (True, st\<lparr>lp_pending_injections := lp_pending_injections st @ [msg], lp_accepted := lp_accepted st @ [msg]\<rparr>))"

definition user_types :: "('u, 'c, 'p) loop_env \<Rightarrow> nat \<Rightarrow> typing_phase \<Rightarrow> ('u, 'c) loop_state \<Rightarrow> ('u, 'c) loop_state" where
  \<comment> \<open>what is typed in this phase of a round is offered to the loop\<close>
  "user_types env turn phase st =
     fold (\<lambda>m s. snd (try_inject_user_message m s)) (le_typed env turn phase (lp_world st)) st"

fun drain :: "('u, 'c, 'p) loop_env \<Rightarrow> injection list \<Rightarrow> ('u, 'c) loop_state \<Rightarrow> ('u, 'c) loop_state" where
  "drain env [] st = st"
| "drain env ((content, md) # rest) st = drain env rest (record_message env RoleUser content md st)"

definition drain_pending_injections :: "('u, 'c, 'p) loop_env \<Rightarrow> ('u, 'c) loop_state \<Rightarrow> ('u, 'c) loop_state" where
  "drain_pending_injections env st = (drain env (lp_pending_injections st) st)\<lparr>lp_pending_injections := []\<rparr>"

definition auto_compact :: "('u, 'c, 'p) loop_env \<Rightarrow> ('u, 'c) loop_state \<Rightarrow> string option \<times> ('u, 'c) loop_state" where
  \<comment> \<open>\<open>None\<close> when there is nothing to summarise or the request for the summary failed\<close>
  "auto_compact env st =
     (let old = fst (split_messages_for_compaction (lp_context st)) in
      if old = [] then (None, st)
      else
        let (summary, w) = le_summarize env old (lp_world st); st1 = st\<lparr>lp_world := w\<rparr> in
        case summary of
          None \<Rightarrow> (None, st1)
        | Some text \<Rightarrow>
            if text = [] then (None, st1)
            else
              let cm = snd (apply_compaction (le_count_message env) (lp_next_object st1) text (lp_context st1)) in
              (Some text, st1\<lparr>lp_context := cm, lp_stored := cm_messages cm, lp_next_object := Suc (lp_next_object st1)\<rparr>))"

definition compact_round :: "('u, 'c, 'p) loop_env \<Rightarrow> ('u, 'c) loop_state \<Rightarrow> bool \<times> ('u, 'c) loop_state" where
  "compact_round env st =
     (let (summary, st1) = auto_compact env (emit [Compaction_Started] st) in
      case summary of None \<Rightarrow> (False, emit [Compaction_Failed] st1) | Some t \<Rightarrow> (True, emit [Compaction_Finished t] st1))"

definition compact_if_needed :: "('u, 'c, 'p) loop_env \<Rightarrow> ('u, 'c) loop_state \<Rightarrow> ('u, 'c) loop_state" where
  "compact_if_needed env st =
     (if needs_compaction (lp_context st) (case le_reserved_output_tokens env of None \<Rightarrow> 0 | Some n \<Rightarrow> n)
      then snd (compact_round env st) else st)"

section \<open>A request to the model\<close>

definition over_budget :: "('u, 'c, 'p) loop_env \<Rightarrow> ('u, 'c) loop_state \<Rightarrow> bool" where
  "over_budget env st =
     (case le_reserved_output_tokens env of
        None \<Rightarrow> False
      | Some limit \<Rightarrow> get_total_tokens (lp_context st) + limit > cc_context_window (cm_config (lp_context st)))"

definition ask_model :: "('u, 'c, 'p) loop_env \<Rightarrow> nat \<Rightarrow> ('u, 'c) loop_state \<Rightarrow> stream_event list \<times> ('u, 'c) loop_state" where
  "ask_model env turn st =
     (if over_budget env st
      then ([ErrorEvent ''Responses input exceeds the safe context budget after local compaction.'' False], st)
      else
        let (es, w) = le_respond env turn (get_context_messages (lp_context st)) (lp_world st) in
        (es, user_types env turn While_Streaming
               (st\<lparr>lp_world := w, lp_model_request_count := Suc (lp_model_request_count st)\<rparr>)))"

definition is_context_error :: "stream_event \<Rightarrow> bool" where
  "is_context_error e = (case e of ErrorEvent _ limit \<Rightarrow> limit | _ \<Rightarrow> False)"

definition is_metadata_only :: "stream_event \<Rightarrow> bool" where
  "is_metadata_only e = (case e of ThinkingDeltaEvent t _ _ (Some md) \<Rightarrow> t = [] \<and> md \<noteq> [] | _ \<Rightarrow> False)"

definition forward :: "stream_event list \<Rightarrow> ('u, 'c) loop_state \<Rightarrow> ('u, 'c) loop_state" where
  "forward es st = emit (map Provider_Event (filter (\<lambda>e. \<not> is_metadata_only e) es)) st"

definition stream_provider :: "('u, 'c, 'p) loop_env \<Rightarrow> nat \<Rightarrow> ('u, 'c) loop_state \<Rightarrow> stream_event list \<times> ('u, 'c) loop_state" where
  \<comment> \<open>\<^verbatim>\<open>_stream_provider_with_execution_control\<close>: when the context was too long, it is compacted and the request repeated once\<close>
  "stream_provider env turn st =
     (let (es, st1) = ask_model env turn st;
          passed = filter (\<lambda>e. \<not> is_context_error e) es;
          st2 = forward passed st1
      in if \<not> list_ex is_context_error es then (passed, st2)
         else
           case compact_round env st2 of
             (False, st3) \<Rightarrow> let err = last (filter is_context_error es) in (passed @ [err], forward [err] st3)
           | (True, st3) \<Rightarrow> let (es', st4) = ask_model env turn st3 in (passed @ es', forward es' st4))"

section \<open>Results\<close>

definition safe_id_char :: "char \<Rightarrow> bool" where
  "safe_id_char c = (c \<in> set ''ABCDEFGHIJKLMNOPQRSTUVWXYZabcdefghijklmnopqrstuvwxyz0123456789_.-'')"

definition result_filename :: "(string \<Rightarrow> string) \<Rightarrow> string \<Rightarrow> string" where
  "result_filename digest use_id =
     (let cleaned = strip use_id in
      if cleaned \<noteq> [] \<and> cleaned \<noteq> ''.'' \<and> cleaned \<noteq> ''..'' \<and> slash \<notin> set cleaned \<and> CHR 0x5C \<notin> set cleaned
         \<and> \<not> contains ''..'' cleaned \<and> \<not> startswith cleaned [slash] \<and> list_all safe_id_char cleaned
      then cleaned @ ''.txt'' else ''tool_result_'' @ digest use_id @ ''.txt'')"

definition process_result :: "('u, 'c, 'p) loop_env \<Rightarrow> string \<Rightarrow> string \<Rightarrow> string \<times> string option" where
  \<comment> \<open>\<^verbatim>\<open>ResultStorage.process\<close>: the content that stays inline, and the file of a large result; the dash of the notice is an em dash in the source\<close>
  "process_result env use_id content =
     (if length content \<le> le_max_inline_chars env then (content, None)
      else
        let path = le_storage_dir env @ [slash] @ result_filename (le_result_digest env) use_id in
        (take (le_preview_chars env) content @ [newline, newline] @ ''... [truncated - full output (''
           @ nat_str (length content) @ '' chars) saved to '' @ path @ '']'', Some path))"

definition py_true :: "pyval \<Rightarrow> bool" where
  "py_true v = (case v of
     PyNone \<Rightarrow> False | PyBool b \<Rightarrow> b | PyInt n \<Rightarrow> n \<noteq> 0 | PyFloat t \<Rightarrow> list_ex (\<lambda>c. c \<in> set ''123456789in'') (takeWhile (\<lambda>c. c \<noteq> CHR ''e'') t)
   | PyStr s \<Rightarrow> s \<noteq> [] | PyList xs \<Rightarrow> xs \<noteq> [] | PyDict d \<Rightarrow> d \<noteq> [])"

definition is_terminal_step_result :: "ToolResult \<Rightarrow> bool" where
  "is_terminal_step_result r =
     (case res_metadata r of
        None \<Rightarrow> False
      | Some md \<Rightarrow>
          (case map_of md ''step_result'' of None \<Rightarrow> False | Some v \<Rightarrow> v \<noteq> PyNone)
          \<and> (case map_of md ''complete_step_terminal'' of None \<Rightarrow> True | Some v \<Rightarrow> py_true v))"

definition superseded_result :: "ToolResult \<Rightarrow> ToolResult" where
  "superseded_result r =
     r\<lparr>res_content := ''New user input arrived before step completion was committed. ''
         @ ''Reconsider the step with that input, then call complete_step again.'',
       res_is_error := True, res_metadata := None\<rparr>"

definition commit_result :: "bool \<Rightarrow> ToolResult \<Rightarrow> ToolResult" where
  \<comment> \<open>a terminal result gives way to input that arrived before\<close>
  "commit_result input_waiting r = (if is_terminal_step_result r \<and> input_waiting then superseded_result r else r)"

definition result_block :: "('u, 'c, 'p) loop_env \<Rightarrow> AgentRequest \<Rightarrow> ToolResult \<Rightarrow> ContentBlock" where
  "result_block env req r =
     (let (content, path) = process_result env (tc_id req) (res_content r) in
      ToolResultBlock (tc_id req) content (res_is_error r) (le_block_metadata env path (le_event_metadata env req path r)))"

definition denied_block :: "AgentRequest \<times> ToolResult \<Rightarrow> ContentBlock" where
  "denied_block d = ToolResultBlock (tc_id (fst d)) (res_content (snd d)) True []"

definition denied_event :: "AgentRequest \<times> ToolResult \<Rightarrow> agent_event" where
  "denied_event d = ToolResultEvent (tc_id (fst d)) (tc_name (fst d)) (res_content (snd d)) True"

definition result_event :: "('u, 'c, 'p) loop_env \<Rightarrow> AgentRequest \<Rightarrow> ToolResult \<Rightarrow> agent_event" where
  "result_event env req r = ToolResultEvent (tc_id req) (tc_name req) (fst (process_result env (tc_id req) (res_content r))) (res_is_error r)"

definition raw_message :: "('u, 'c, 'p) loop_env \<Rightarrow> pydict \<Rightarrow> role \<times> msg_content \<times> pydict" where
  \<comment> \<open>\<^verbatim>\<open>add_raw_message\<close>\<close>
  "raw_message env d =
     (if map_of d ''role'' = Some (PyStr ''assistant'') then RoleAssistant else RoleUser,
      case map_of d ''content'' of None \<Rightarrow> TextContent [] | Some (PyStr s) \<Rightarrow> TextContent s | Some v \<Rightarrow> Blocks (le_parse_blocks env v),
      case map_of d ''metadata'' of Some (PyDict md) \<Rightarrow> md | _ \<Rightarrow> [])"

fun record_raw :: "('u, 'c, 'p) loop_env \<Rightarrow> pydict list \<Rightarrow> ('u, 'c) loop_state \<Rightarrow> ('u, 'c) loop_state" where
  "record_raw env [] st = st"
| "record_raw env (d # ds) st =
     (case raw_message env d of (role, content, md) \<Rightarrow> record_raw env ds (record_message env role content md st))"

fun submit_queued :: "('u, 'c, 'p) loop_env \<Rightarrow> string list \<Rightarrow> ('u, 'c) loop_state \<Rightarrow> ('u, 'c) loop_state" where
  \<comment> \<open>\<^verbatim>\<open>_submit_queued_inputs_after_tool_call\<close>\<close>
  "submit_queued env [] st = st"
| "submit_queued env (raw # raws) st =
     (let t = strip raw in
      if t = [] then submit_queued env raws st
      else
        let i = ''queued-'' @ le_new_id env (lp_next_object st);
            st1 = record_message env RoleUser (TextContent t) [(''messageId'', PyStr i)] st
        in submit_queued env raws (emit [QueuedInputSubmittedEvent t i] st1))"

section \<open>A round\<close>

datatype loop_error = Permission_Suspended continuation_frame | Loop_Error py_error

datatype turn_outcome = Continue nat | Break | Raise loop_error
  \<comment> \<open>\<open>Continue\<close> carries the number of continuations after an output limit so far\<close>

definition MAX_OUTPUT_LIMIT_CONTINUATIONS :: nat where
  "MAX_OUTPUT_LIMIT_CONTINUATIONS = 3"

definition OUTPUT_LIMIT_CONTINUATION_PROMPT :: string where
  "OUTPUT_LIMIT_CONTINUATION_PROMPT = ''Continue from where you stopped. Do not repeat completed work.''"

definition more_turns :: "('u, 'c, 'p) loop_env \<Rightarrow> nat \<Rightarrow> bool" where
  "more_turns env turn = (Suc turn < le_max_turns env)"

definition may_continue :: "('u, 'c, 'p) loop_env \<Rightarrow> nat \<Rightarrow> nat \<Rightarrow> bool" where
  "may_continue env turn conts = (conts < MAX_OUTPUT_LIMIT_CONTINUATIONS \<and> more_turns env turn)"

definition drop_response :: "turn_data \<Rightarrow> ('u, 'c) loop_state \<Rightarrow> ('u, 'c) loop_state" where
  "drop_response tn st =
     (case tn_message_id tn of None \<Rightarrow> st | Some i \<Rightarrow> emit [Response_Dropped i (map fst (tn_pending tn))] st)"

definition output_limit_stop :: "('u, 'c) loop_state \<Rightarrow> turn_outcome \<times> ('u, 'c) loop_state" where
  "output_limit_stop st = (Break, emit [Output_Limit_Error] (close_input st))"

definition truncated_tools :: "('u, 'c, 'p) loop_env \<Rightarrow> nat \<Rightarrow> nat \<Rightarrow> turn_data \<Rightarrow> ('u, 'c) loop_state
    \<Rightarrow> turn_outcome \<times> ('u, 'c) loop_state" where
  \<comment> \<open>a truncated response cannot authorise any of its tool calls\<close>
  "truncated_tools env turn conts tn st =
     (let st1 = drop_response tn st in
      if may_continue env turn conts then (Continue (Suc conts), st1) else output_limit_stop st1)"

definition truncated_text :: "('u, 'c, 'p) loop_env \<Rightarrow> nat \<Rightarrow> nat \<Rightarrow> ('u, 'c) loop_state \<Rightarrow> turn_outcome \<times> ('u, 'c) loop_state" where
  "truncated_text env turn conts st =
     (if may_continue env turn conts then
        (Continue (Suc conts), record_message env RoleUser (TextContent OUTPUT_LIMIT_CONTINUATION_PROMPT)
           [(''type'', PyStr OUTPUT_LIMIT_CONTINUATION_METADATA_TYPE)] st)
      else output_limit_stop st)"

definition record_assistant :: "('u, 'c, 'p) loop_env \<Rightarrow> nat \<Rightarrow> turn_data \<Rightarrow> ('u, 'c) loop_state \<Rightarrow> ('u, 'c) loop_state" where
  "record_assistant env turn tn st =
     (let st1 = st\<lparr>lp_accepting := completed_tools tn \<noteq> [] \<and> more_turns env turn\<rparr> in
      if assistant_blocks tn \<noteq> [] \<or> turn_metadata tn \<noteq> []
      then record_message env RoleAssistant (Blocks (assistant_blocks tn)) (turn_metadata tn) st1 else st1)"

definition assistant_message_ref :: "('u, 'c, 'p) loop_env \<Rightarrow> string \<Rightarrow> string list \<Rightarrow> ('u, 'c) loop_state \<Rightarrow> string" where
  \<comment> \<open>\<^verbatim>\<open>_canonical_permission_assistant_message_ref\<close>\<close>
  "assistant_message_ref env digest ids st =
     (let persisted = lp_stored st in
      message_ref_at (le_transcript_id env)
        (if persisted \<noteq> [] \<and> ms_role (last persisted) = RoleAssistant
            \<and> ae_message_digest (le_agent env) (message_blocks (last persisted)) = digest
            \<and> map tu_id (get_tool_use_blocks (last persisted)) = ids
         then length persisted - 1 else length (cm_messages (lp_context st)) - 1))"

definition release_settled :: "('u, 'c, 'p) agent_env \<Rightarrow> AgentRequest \<Rightarrow> ('u, 'c) agent_world \<Rightarrow> ('u, 'c) agent_world" where
  "release_settled env req w =
     (case ar_snapshot_id req of
        None \<Rightarrow> w
      | Some i \<Rightarrow>
          let (pending, store) = is_pending (ae_clock env w) i (wd_contracts w); w1 = w\<lparr>wd_contracts := store\<rparr> in
          if pending then w1 else w1\<lparr>wd_owned := List.removeAll i (wd_owned w1)\<rparr>)"

definition report_results :: "('u, 'c, 'p) loop_env \<Rightarrow> nat \<Rightarrow> (AgentRequest \<times> ToolResult) list \<Rightarrow> AgentRequest list
    \<Rightarrow> ToolResult list \<Rightarrow> ('u, 'c) loop_state \<Rightarrow> turn_outcome \<times> ('u, 'c) loop_state" where
  \<comment> \<open>what follows the execution of the batch\<close>
  "report_results env turn denied requests results st =
     (let committed = map (commit_result (lp_pending_injections st \<noteq> [])) results;
          terminal = list_ex is_terminal_step_result committed;
          st1 = (if terminal then close_input st else st);
          st2 = record_copy env (Blocks (map denied_block denied @ map2 (result_block env) requests committed)) st1;
          st3 = record_raw env (concat (map res_new_messages committed)) st2;
          st4 = user_types env turn While_Reporting (emit (map2 (result_event env) requests committed) st3);
          st5 = submit_queued env (le_queued_inputs env turn (lp_world st4)) st4
      in if terminal then (Break, close_input st5) else (Continue 0, st5))"

definition execute_tools :: "('u, 'c, 'p) loop_env \<Rightarrow> nat \<Rightarrow> (AgentRequest \<times> ToolResult) list \<Rightarrow> AgentRequest list
    \<Rightarrow> ('u, 'c) loop_state \<Rightarrow> turn_outcome \<times> ('u, 'c) loop_state" where
  "execute_tools env turn denied requests st =
     (let (outcome, w) = execute_batch (le_attach env) (le_tool_timeout env)
            (map (\<lambda>(n, t). (n, at_exec t)) (ae_tools (le_agent env))) (le_scheduler env)
            (map ToolCallRequest.truncate requests) (lp_world st)
      in case outcome of
           Inl e \<Rightarrow> (Raise (Loop_Error e), st\<lparr>lp_world := w\<rparr>)
         | Inr results \<Rightarrow>
             report_results env turn denied requests results
               (user_types env turn While_Executing
                  (st\<lparr>lp_world := fold (release_settled (le_agent env)) requests w\<rparr>)))"

definition answer_denied :: "('u, 'c, 'p) loop_env \<Rightarrow> nat \<Rightarrow> (AgentRequest \<times> ToolResult) list \<Rightarrow> ('u, 'c) loop_state
    \<Rightarrow> turn_outcome \<times> ('u, 'c) loop_state" where
  \<comment> \<open>no call of the batch was allowed\<close>
  "answer_denied env turn denied st =
     (Continue 0,
      if denied = [] then st
      else submit_queued env (le_queued_inputs env turn (lp_world st))
        (record_copy env (Blocks (map denied_block denied)) st))"

definition call_tools :: "('u, 'c, 'p) loop_env \<Rightarrow> nat \<Rightarrow> turn_data \<Rightarrow> ('u, 'c) loop_state \<Rightarrow> turn_outcome \<times> ('u, 'c) loop_state" where
  "call_tools env turn tn st =
     (let uses = map tool_use_block (completed_tools tn);
          digest = ae_message_digest (le_agent env) (assistant_blocks tn);
          (stop, ph) = permission_phase (le_agent env) (input_errors_of tn)
            (assistant_message_ref env digest (map tu_id uses) st) digest uses (lp_world st);
          st1 = st\<lparr>lp_world := ph_world ph\<rparr>
      in case stop of
           Some fr \<Rightarrow> (Raise (Permission_Suspended fr), st1)
         | None \<Rightarrow>
             let st2 = user_types env turn While_Asking (emit (map denied_event (ph_denied ph)) st1) in
             if ph_allowed ph = [] then answer_denied env turn (ph_denied ph) st2
             else execute_tools env turn (ph_denied ph) (ph_allowed ph) st2)"

definition handle_response :: "('u, 'c, 'p) loop_env \<Rightarrow> nat \<Rightarrow> nat \<Rightarrow> turn_data \<Rightarrow> ('u, 'c) loop_state
    \<Rightarrow> turn_outcome \<times> ('u, 'c) loop_state" where
  "handle_response env turn conts tn st =
     (if \<not> tn_ended tn then (Break, emit [Message_End ''stream_error''] (close_input st))
      else if tn_stop_reason tn = ''max_tokens'' \<and> tn_pending tn \<noteq> [] then truncated_tools env turn conts tn st
      else if tn_stop_reason tn = ''max_tokens'' \<and> tn_text tn = [] then output_limit_stop (drop_response tn st)
      else
        let st1 = record_assistant env turn tn st in
        if tn_stop_reason tn = ''max_tokens'' then truncated_text env turn conts st1
        else if completed_tools tn = [] then
          if lp_pending_injections st1 \<noteq> [] \<and> more_turns env turn then (Continue 0, st1) else (Break, close_input st1)
        else call_tools env turn tn st1)"

definition run_turn :: "('u, 'c, 'p) loop_env \<Rightarrow> nat \<Rightarrow> nat \<Rightarrow> ('u, 'c) loop_state \<Rightarrow> turn_outcome \<times> ('u, 'c) loop_state" where
  "run_turn env turn conts st =
     (let st1 = drain_pending_injections env (st\<lparr>lp_accepting := more_turns env turn\<rparr>);
          (es, st2) = stream_provider env turn (compact_if_needed env st1)
      in handle_response env turn conts (collect es) st2)"

fun run_turns :: "('u, 'c, 'p) loop_env \<Rightarrow> nat list \<Rightarrow> nat \<Rightarrow> ('u, 'c) loop_state \<Rightarrow> loop_error option \<times> ('u, 'c) loop_state" where
  "run_turns env [] conts st = (None, emit [Message_End ''max_turns''] (close_input st))"
| "run_turns env (turn # turns) conts st =
     (case run_turn env turn conts st of
        (Continue n, st1) \<Rightarrow> run_turns env turns n st1
      | (Break, st1) \<Rightarrow> (None, st1)
      | (Raise e, st1) \<Rightarrow> (Some e, st1))"

definition cancel_owned_contract_snapshots :: "('u, 'c, 'p) agent_env \<Rightarrow> ('u, 'c) agent_world \<Rightarrow> ('u, 'c) agent_world" where
  "cancel_owned_contract_snapshots env w =
     fold (\<lambda>i w.
         let (pending, store) = is_pending (ae_clock env w) i (wd_contracts w) in
         w\<lparr>wd_contracts := (if pending then cancel_snapshot i store else store)\<rparr>)
       (wd_owned w) (w\<lparr>wd_owned := []\<rparr>)"

definition run_streaming :: "('u, 'c, 'p) loop_env \<Rightarrow> msg_content \<Rightarrow> ('u, 'c) loop_state \<Rightarrow> loop_error option \<times> ('u, 'c) loop_state" where
  "run_streaming env user_input st =
     (let (e, st1) = run_turns env [0..<le_max_turns env] 0 (record_copy env user_input st);
          st2 = close_input st1
      in (e, st2\<lparr>lp_world := cancel_owned_contract_snapshots (le_agent env) (lp_world st2)\<rparr>))"

abbreviation history :: "('u, 'c) loop_state \<Rightarrow> Message list" where
  "history st \<equiv> cm_messages (lp_context st)"

section \<open>Going on after a prompt\<close>

definition continue_streaming :: "('u, 'c, 'p) loop_env \<Rightarrow> ('u, 'c) loop_state \<Rightarrow> loop_error option \<times> ('u, 'c) loop_state" where
  \<comment> \<open>no new user message, and no queue of inputs\<close>
  "continue_streaming env st =
     (let (e, st1) = run_turns (env\<lparr>le_queued_inputs := (\<lambda>_ _. [])\<rparr>) [0..<le_max_turns env] 0 st;
          st2 = close_input st1
      in (e, st2\<lparr>lp_world := cancel_owned_contract_snapshots (le_agent env) (lp_world st2)\<rparr>))"

definition processed :: "('u, 'c, 'p) loop_env \<Rightarrow> AgentRequest \<Rightarrow> ToolResult \<Rightarrow> ToolResult" where
  \<comment> \<open>the result with its content and metadata replaced, as the resumed batch keeps it\<close>
  "processed env req r =
     (let (content, path) = process_result env (tc_id req) (res_content r) in
      r\<lparr>res_content := content, res_metadata := le_event_metadata env req path r\<rparr>)"

definition resumed_block :: "(string \<times> ToolResult) list \<Rightarrow> (string \<times> ToolResult) list \<Rightarrow> AgentRequest \<Rightarrow> ContentBlock option" where
  "resumed_block denied_by_id executed_by_id req =
     (case map_of denied_by_id (tc_id req) of
        Some d \<Rightarrow> Some (denied_block (req, d))
      | None \<Rightarrow>
          map_option (\<lambda>r. ToolResultBlock (tc_id req) (res_content r) (res_is_error r)
              (case res_metadata r of None \<Rightarrow> [] | Some md \<Rightarrow> md)) (map_of executed_by_id (tc_id req)))"

definition report_resumed :: "('u, 'c, 'p) loop_env \<Rightarrow> AgentRequest list \<Rightarrow> (string \<times> ToolResult) list \<Rightarrow> AgentRequest list
    \<Rightarrow> ToolResult list \<Rightarrow> ('u, 'c) loop_state \<Rightarrow> loop_error option \<times> ('u, 'c) loop_state" where
  "report_resumed env requests denied_by_id allowed results st =
     (let executed_by_id = fold (\<lambda>(r, x). dict_set (tc_id r) (processed env r x)) (zip allowed results) [];
          st1 = emit (map2 (result_event env) allowed results) st;
          blocks = map (resumed_block denied_by_id executed_by_id) requests
      in if None \<in> set blocks then (Some (Loop_Error (ValueError ''permission_resume_invalid: tool result is missing'')), st1)
         else
           let st2 = record_copy env (Blocks (map the blocks)) st1;
               added = concat (map (\<lambda>r. case map_of executed_by_id (tc_id r) of None \<Rightarrow> [] | Some x \<Rightarrow> res_new_messages x) requests)
           in continue_streaming env (record_raw env added st2))"

definition run_recovered :: "('u, 'c, 'p) loop_env \<Rightarrow> ContentBlock list \<Rightarrow> ('u, 'c) resume_state \<Rightarrow> ('u, 'c) loop_state
    \<Rightarrow> loop_error option \<times> ('u, 'c) loop_state" where
  \<comment> \<open>the end of \<^verbatim>\<open>resume_permission_boundary\<close>: the calls that may run do, and the loop goes on\<close>
  "run_recovered env uses rs st =
     (let requests = map (make_request (le_agent env)) uses;
          denied_events = concat (map (\<lambda>r. case map_of (rs_denied rs) (tc_id r) of None \<Rightarrow> [] | Some d \<Rightarrow> [denied_event (r, d)]) requests);
          st1 = emit denied_events (st\<lparr>lp_world := rs_world rs\<rparr>)
      in if rs_allowed rs = [] then report_resumed env requests (rs_denied rs) [] [] st1
         else
           let (outcome, w) = execute_batch (le_attach env) (le_tool_timeout env)
                 (map (\<lambda>(n, t). (n, at_exec t)) (ae_tools (le_agent env))) (le_scheduler env)
                 (map ToolCallRequest.truncate (rs_allowed rs)) (lp_world st1);
               st2 = st1\<lparr>lp_world := w\<rparr>
           in case outcome of
                Inl e \<Rightarrow> (Some (Loop_Error e), st2)
              | Inr results \<Rightarrow> report_resumed env requests (rs_denied rs) (rs_allowed rs) results st2)"

definition resume_run :: "('u, 'c, 'p) loop_env \<Rightarrow> permission_checkpoint \<Rightarrow> ('u, 'c) loop_state \<Rightarrow> loop_error option \<times> ('u, 'c) loop_state" where
  \<comment> \<open>\<^verbatim>\<open>resume_permission_boundary\<close> as a whole; what the checks did to the world is not kept when they give up\<close>
  "resume_run env ck st =
     (case resume_permission_boundary (le_agent env) (le_transcript_id env) ck (history st) (lp_world st) of
        Failed e \<Rightarrow> (Some (Loop_Error e), st)
      | Waiting fr \<Rightarrow> (Some (Permission_Suspended fr), st)
      | Going rs \<Rightarrow> run_recovered env (get_tool_use_blocks (last (history st))) rs st)"

fun stamp_first :: "string \<Rightarrow> Message list \<Rightarrow> Message list option" where
  \<comment> \<open>the loop over the messages, from the last one on\<close>
  "stamp_first elapsed [] = None"
| "stamp_first elapsed (m # ms) =
     (if ms_role m = RoleAssistant then Some (m\<lparr>ms_elapsed_seconds := elapsed\<rparr> # ms) else map_option (Cons m) (stamp_first elapsed ms))"

definition stamp_last_turn_elapsed :: "string \<Rightarrow> ('u, 'c) loop_state \<Rightarrow> ('u, 'c) loop_state" where
  \<comment> \<open>called by the user interface after a run: the duration goes to the last assistant message, and the session is rewritten\<close>
  "stamp_last_turn_elapsed elapsed st =
     (case stamp_first elapsed (rev (history st)) of
        None \<Rightarrow> st
      | Some ms \<Rightarrow> st\<lparr>lp_context := (lp_context st)\<lparr>cm_messages := rev ms\<rparr>, lp_stored := rev ms\<rparr>)"

section \<open>What the parts of a round leave alone\<close>

lemma emit_sel [simp]:
  "lp_next_object (emit es st) = lp_next_object st"
  "lp_context (emit es st) = lp_context st" "lp_stored (emit es st) = lp_stored st" "lp_world (emit es st) = lp_world st"
  "lp_pending_injections (emit es st) = lp_pending_injections st" "lp_accepting (emit es st) = lp_accepting st"
  "lp_model_request_count (emit es st) = lp_model_request_count st" "lp_events (emit es st) = lp_events st @ es"
  "lp_accepted (emit es st) = lp_accepted st"
  by (simp_all add: emit_def)

lemma close_input_sel [simp]:
  "lp_next_object (close_input st) = lp_next_object st"
  "lp_context (close_input st) = lp_context st" "lp_stored (close_input st) = lp_stored st"
  "lp_world (close_input st) = lp_world st" "lp_pending_injections (close_input st) = lp_pending_injections st"
  "\<not> lp_accepting (close_input st)" "lp_model_request_count (close_input st) = lp_model_request_count st"
  "lp_events (close_input st) = lp_events st" "lp_accepted (close_input st) = lp_accepted st"
  by (simp_all add: close_input_def)

lemma record_message_sel [simp]:
  "lp_world (record_message env r c md st) = lp_world st"
  "lp_pending_injections (record_message env r c md st) = lp_pending_injections st"
  "lp_accepting (record_message env r c md st) = lp_accepting st"
  "lp_model_request_count (record_message env r c md st) = lp_model_request_count st"
  "lp_events (record_message env r c md st) = lp_events st" "lp_accepted (record_message env r c md st) = lp_accepted st"
  "cm_config (lp_context (record_message env r c md st)) = cm_config (lp_context st)"
  by (simp_all add: record_message_def Let_def)

lemma record_copy_sel [simp]:
  "lp_world (record_copy env c st) = lp_world st" "lp_pending_injections (record_copy env c st) = lp_pending_injections st"
  "lp_accepting (record_copy env c st) = lp_accepting st"
  "lp_model_request_count (record_copy env c st) = lp_model_request_count st"
  "lp_events (record_copy env c st) = lp_events st" "lp_accepted (record_copy env c st) = lp_accepted st"
  "cm_config (lp_context (record_copy env c st)) = cm_config (lp_context st)"
  by (simp_all add: record_copy_def Let_def)

lemma user_types_sel [simp]:
  "lp_next_object (user_types env t ph st) = lp_next_object st"
  "lp_context (user_types env t ph st) = lp_context st" "lp_stored (user_types env t ph st) = lp_stored st"
  "lp_world (user_types env t ph st) = lp_world st" "lp_accepting (user_types env t ph st) = lp_accepting st"
  "lp_model_request_count (user_types env t ph st) = lp_model_request_count st"
  "lp_events (user_types env t ph st) = lp_events st"
proof -
  have "lp_context (fold (\<lambda>m s. snd (try_inject_user_message m s)) ms st) = lp_context st
    \<and> lp_stored (fold (\<lambda>m s. snd (try_inject_user_message m s)) ms st) = lp_stored st
    \<and> lp_world (fold (\<lambda>m s. snd (try_inject_user_message m s)) ms st) = lp_world st
    \<and> lp_accepting (fold (\<lambda>m s. snd (try_inject_user_message m s)) ms st) = lp_accepting st
    \<and> lp_model_request_count (fold (\<lambda>m s. snd (try_inject_user_message m s)) ms st) = lp_model_request_count st
    \<and> lp_next_object (fold (\<lambda>m s. snd (try_inject_user_message m s)) ms st) = lp_next_object st
    \<and> lp_events (fold (\<lambda>m s. snd (try_inject_user_message m s)) ms st) = lp_events st" for ms
    by (induction ms arbitrary: st) (simp_all add: try_inject_user_message_def)
  then show "lp_next_object (user_types env t ph st) = lp_next_object st" "lp_context (user_types env t ph st) = lp_context st" "lp_stored (user_types env t ph st) = lp_stored st"
    "lp_world (user_types env t ph st) = lp_world st" "lp_accepting (user_types env t ph st) = lp_accepting st"
    "lp_model_request_count (user_types env t ph st) = lp_model_request_count st"
    "lp_events (user_types env t ph st) = lp_events st"
    by (simp_all add: user_types_def)
qed

lemma pending_user_types:
  "lp_pending_injections (user_types env t ph st)
     = lp_pending_injections st @ (if lp_accepting st then le_typed env t ph (lp_world st) else [])"
  "lp_accepted (user_types env t ph st) = lp_accepted st @ (if lp_accepting st then le_typed env t ph (lp_world st) else [])"
proof -
  have "lp_pending_injections (fold (\<lambda>m s. snd (try_inject_user_message m s)) ms st)
      = lp_pending_injections st @ (if lp_accepting st then ms else [])
    \<and> lp_accepted (fold (\<lambda>m s. snd (try_inject_user_message m s)) ms st) = lp_accepted st @ (if lp_accepting st then ms else [])" for ms
    by (induction ms arbitrary: st) (simp_all add: try_inject_user_message_def)
  then show "lp_pending_injections (user_types env t ph st)
     = lp_pending_injections st @ (if lp_accepting st then le_typed env t ph (lp_world st) else [])"
    "lp_accepted (user_types env t ph st) = lp_accepted st @ (if lp_accepting st then le_typed env t ph (lp_world st) else [])"
    by (simp_all add: user_types_def)
qed

lemma drain_sel [simp]:
  "lp_world (drain env ms st) = lp_world st" "lp_pending_injections (drain env ms st) = lp_pending_injections st"
  "lp_accepting (drain env ms st) = lp_accepting st" "lp_events (drain env ms st) = lp_events st" "lp_accepted (drain env ms st) = lp_accepted st"
  "lp_model_request_count (drain env ms st) = lp_model_request_count st"
  "cm_config (lp_context (drain env ms st)) = cm_config (lp_context st)"
  by (induction env ms st rule: drain.induct) simp_all

lemma record_raw_sel [simp]:
  "lp_world (record_raw env ds st) = lp_world st" "lp_pending_injections (record_raw env ds st) = lp_pending_injections st"
  "lp_accepting (record_raw env ds st) = lp_accepting st" "lp_events (record_raw env ds st) = lp_events st" "lp_accepted (record_raw env ds st) = lp_accepted st"
  "lp_model_request_count (record_raw env ds st) = lp_model_request_count st"
  "cm_config (lp_context (record_raw env ds st)) = cm_config (lp_context st)"
  by (induction env ds st rule: record_raw.induct) (simp_all split: prod.splits)

lemma submit_queued_sel [simp]:
  "lp_world (submit_queued env qs st) = lp_world st"
  "lp_pending_injections (submit_queued env qs st) = lp_pending_injections st"
  "lp_accepting (submit_queued env qs st) = lp_accepting st" "lp_accepted (submit_queued env qs st) = lp_accepted st"
  "lp_model_request_count (submit_queued env qs st) = lp_model_request_count st"
  "cm_config (lp_context (submit_queued env qs st)) = cm_config (lp_context st)"
  by (induction env qs st rule: submit_queued.induct) (simp_all add: Let_def)

lemma compact_round_sel [simp]:
  "lp_pending_injections (snd (compact_round env st)) = lp_pending_injections st"
  "lp_accepting (snd (compact_round env st)) = lp_accepting st"
  "lp_model_request_count (snd (compact_round env st)) = lp_model_request_count st"
  "lp_accepted (snd (compact_round env st)) = lp_accepted st"
  by (simp_all add: compact_round_def auto_compact_def Let_def split: prod.splits option.splits)

lemma compact_if_needed_sel [simp]:
  "lp_pending_injections (compact_if_needed env st) = lp_pending_injections st"
  "lp_accepting (compact_if_needed env st) = lp_accepting st" "lp_accepted (compact_if_needed env st) = lp_accepted st"
  "lp_model_request_count (compact_if_needed env st) = lp_model_request_count st"
  by (simp_all add: compact_if_needed_def)

lemma forward_sel [simp]:
  "lp_next_object (forward es st) = lp_next_object st"
  "lp_context (forward es st) = lp_context st" "lp_stored (forward es st) = lp_stored st" "lp_world (forward es st) = lp_world st"
  "lp_pending_injections (forward es st) = lp_pending_injections st" "lp_accepting (forward es st) = lp_accepting st"
  "lp_model_request_count (forward es st) = lp_model_request_count st" "lp_accepted (forward es st) = lp_accepted st"
  by (simp_all add: forward_def)

lemma drop_response_sel [simp]:
  "lp_next_object (drop_response tn st) = lp_next_object st"
  "lp_context (drop_response tn st) = lp_context st" "lp_stored (drop_response tn st) = lp_stored st"
  "lp_world (drop_response tn st) = lp_world st" "lp_pending_injections (drop_response tn st) = lp_pending_injections st"
  "lp_accepting (drop_response tn st) = lp_accepting st" "lp_accepted (drop_response tn st) = lp_accepted st"
  "lp_model_request_count (drop_response tn st) = lp_model_request_count st"
  by (simp_all add: drop_response_def split: option.splits)

lemma drain_pending_sel [simp]:
  "lp_pending_injections (drain_pending_injections env st) = []"
  "lp_accepting (drain_pending_injections env st) = lp_accepting st"
  "lp_model_request_count (drain_pending_injections env st) = lp_model_request_count st"
  "lp_world (drain_pending_injections env st) = lp_world st"
  by (simp_all add: drain_pending_injections_def)

section \<open>Requests and accepted input\<close>

lemma ask_model_requests:
  "lp_model_request_count (snd (ask_model env turn st)) \<le> Suc (lp_model_request_count st)"
  by (simp add: ask_model_def split: prod.splits)

lemma stream_provider_requests:
  "lp_model_request_count (snd (stream_provider env turn st)) \<le> Suc (Suc (lp_model_request_count st))"
proof -
  obtain es st1 where a: "ask_model env turn st = (es, st1)" by fastforce
  have one: "lp_model_request_count st1 \<le> Suc (lp_model_request_count st)" using ask_model_requests [of env turn st] a by simp
  let ?st2 = "forward (filter (\<lambda>e. \<not> is_context_error e) es) st1"
  obtain b st3 where c: "compact_round env ?st2 = (b, st3)" by fastforce
  have "lp_model_request_count st3 = lp_model_request_count st1" using compact_round_sel(3) [of env ?st2] c by simp
  with one ask_model_requests [of env turn st3] show ?thesis
    by (cases b) (auto simp: stream_provider_def a c Let_def split: prod.splits)
qed

lemma report_results_requests [simp]:
  "lp_model_request_count (snd (report_results env turn denied reqs results st)) = lp_model_request_count st"
  by (simp add: report_results_def Let_def)

lemma execute_tools_requests [simp]:
  "lp_model_request_count (snd (execute_tools env turn denied reqs st)) = lp_model_request_count st"
  unfolding execute_tools_def by (cases "execute_batch (le_attach env) (le_tool_timeout env)
    (map (\<lambda>(n, t). (n, at_exec t)) (ae_tools (le_agent env))) (le_scheduler env) (map ToolCallRequest.truncate reqs) (lp_world st)")
     (simp split: sum.splits)

lemma answer_denied_requests [simp]:
  "lp_model_request_count (snd (answer_denied env turn denied st)) = lp_model_request_count st"
  by (simp add: answer_denied_def)

lemma call_tools_requests [simp]:
  "lp_model_request_count (snd (call_tools env turn tn st)) = lp_model_request_count st"
  unfolding call_tools_def Let_def by (simp add: case_prod_beta split: option.split)

lemma handle_response_requests [simp]:
  "lp_model_request_count (snd (handle_response env turn conts tn st)) = lp_model_request_count st"
  by (simp add: handle_response_def truncated_tools_def output_limit_stop_def truncated_text_def record_assistant_def Let_def)

lemma run_turn_requests:
  "lp_model_request_count (snd (run_turn env turn conts st)) \<le> Suc (Suc (lp_model_request_count st))"
  using stream_provider_requests [of env turn "compact_if_needed env (drain_pending_injections env (st\<lparr>lp_accepting := more_turns env turn\<rparr>))"]
  by (simp add: run_turn_def Let_def case_prod_beta)

lemma run_turns_requests:
  "lp_model_request_count (snd (run_turns env turns conts st)) \<le> lp_model_request_count st + 2 * length turns"
proof (induction turns arbitrary: conts st)
  case (Cons turn turns)
  obtain out st1 where r: "run_turn env turn conts st = (out, st1)" by fastforce
  have one: "lp_model_request_count st1 \<le> Suc (Suc (lp_model_request_count st))" using run_turn_requests [of env turn conts st] r by simp
  show ?case
  proof (cases out)
    case (Continue n)
    then show ?thesis using Cons.IH [of n st1] one by (simp add: r)
  qed (use one in \<open>simp_all add: r\<close>)
qed simp

lemma commit_not_terminal: "\<not> is_terminal_step_result (commit_result True r)"
  by (simp add: commit_result_def superseded_result_def is_terminal_step_result_def)

lemma closed_user_types: "\<not> lp_accepting st \<Longrightarrow> lp_pending_injections (user_types env t ph st) = lp_pending_injections st"
  by (simp add: pending_user_types)

lemma report_results_pending:
  assumes "report_results env turn denied reqs results st = (out, st')"
  shows "out = Break \<Longrightarrow> lp_pending_injections st' = []"
    and "\<not> lp_accepting st \<Longrightarrow> lp_pending_injections st' = lp_pending_injections st"
proof -
  let ?committed = "map (commit_result (lp_pending_injections st \<noteq> [])) results"
  let ?st1 = "if list_ex is_terminal_step_result ?committed then close_input st else st"
  let ?st2 = "record_copy env (Blocks (map denied_block denied @ map2 (result_block env) reqs ?committed)) ?st1"
  let ?st3 = "emit (map2 (result_event env) reqs ?committed) (record_raw env (concat (map res_new_messages ?committed)) ?st2)"
  have st': "lp_pending_injections st' = lp_pending_injections (user_types env turn While_Reporting ?st3)"
    using assms by (auto simp: report_results_def Let_def simp del: list.map split: if_splits)
  show "lp_pending_injections st' = []" if "out = Break"
  proof -
    have t: "list_ex is_terminal_step_result ?committed"
      using assms that by (auto simp: report_results_def Let_def split: if_splits)
    then have "lp_pending_injections st = []"
      using commit_not_terminal by (cases "lp_pending_injections st") (auto simp: list_ex_iff)
    then show ?thesis using t by (simp add: st' closed_user_types)
  qed
  show "lp_pending_injections st' = lp_pending_injections st" if "\<not> lp_accepting st"
    using that by (simp add: st' closed_user_types)
qed

lemma execute_tools_pending:
  assumes "execute_tools env turn denied reqs st = (out, st')"
  shows "out = Break \<Longrightarrow> lp_pending_injections st' = []"
    and "\<not> lp_accepting st \<Longrightarrow> lp_pending_injections st' = lp_pending_injections st"
proof -
  obtain res w where b: "execute_batch (le_attach env) (le_tool_timeout env) (map (\<lambda>(n, t). (n, at_exec t)) (ae_tools (le_agent env)))
      (le_scheduler env) (map ToolCallRequest.truncate reqs) (lp_world st) = (res, w)" by fastforce
  let ?st1 = "user_types env turn While_Executing (st\<lparr>lp_world := fold (release_settled (le_agent env)) reqs w\<rparr>)"
  show "out = Break \<Longrightarrow> lp_pending_injections st' = []"
    using assms report_results_pending(1) by (auto simp: execute_tools_def b split: sum.splits)
  show "lp_pending_injections st' = lp_pending_injections st" if "\<not> lp_accepting st"
    using assms that report_results_pending(2) [of env turn denied reqs _ ?st1 out st']
    by (cases res) (auto simp: execute_tools_def b closed_user_types)
qed

lemma call_tools_pending:
  assumes "call_tools env turn tn st = (out, st')"
  shows "out = Break \<Longrightarrow> lp_pending_injections st' = []"
    and "\<not> lp_accepting st \<Longrightarrow> lp_pending_injections st' = lp_pending_injections st"
proof -
  let ?uses = "map tool_use_block (completed_tools tn)" and ?digest = "ae_message_digest (le_agent env) (assistant_blocks tn)"
  obtain stop ph where p: "permission_phase (le_agent env) (input_errors_of tn)
      (assistant_message_ref env ?digest (map tu_id ?uses) st) ?digest ?uses (lp_world st) = (stop, ph)" by fastforce
  let ?st2 = "user_types env turn While_Asking (emit (map denied_event (ph_denied ph)) (st\<lparr>lp_world := ph_world ph\<rparr>))"
  have run: "(out, st') = (case stop of Some fr \<Rightarrow> (Raise (Permission_Suspended fr), st\<lparr>lp_world := ph_world ph\<rparr>)
     | None \<Rightarrow> if ph_allowed ph = [] then answer_denied env turn (ph_denied ph) ?st2
               else execute_tools env turn (ph_denied ph) (ph_allowed ph) ?st2)"
    using assms unfolding call_tools_def Let_def p by (simp split: option.splits)
  show "lp_pending_injections st' = []" if "out = Break"
    using run that execute_tools_pending(1) [of env turn "ph_denied ph" "ph_allowed ph" ?st2 out st']
    by (cases stop) (auto simp: answer_denied_def split: if_splits)
  show "lp_pending_injections st' = lp_pending_injections st" if "\<not> lp_accepting st"
    using run that execute_tools_pending(2) [of env turn "ph_denied ph" "ph_allowed ph" ?st2 out st']
    by (cases stop) (auto simp: answer_denied_def closed_user_types split: if_splits)
qed

definition input_lost :: "('u, 'c) loop_state \<Rightarrow> bool" where
  \<comment> \<open>the run ended with an error of the stream or of the output limit\<close>
  "input_lost st = (Output_Limit_Error \<in> set (lp_events st) \<or> Message_End ''stream_error'' \<in> set (lp_events st))"

definition closed_at :: "('u, 'c, 'p) loop_env \<Rightarrow> nat \<Rightarrow> ('u, 'c) loop_state \<Rightarrow> bool" where
  \<comment> \<open>in the last round no input is accepted\<close>
  "closed_at env turn st = (more_turns env turn \<or> \<not> lp_accepting st \<and> lp_pending_injections st = [])"

lemma ask_model_closed: "closed_at env turn st \<Longrightarrow> closed_at env turn (snd (ask_model env turn st))"
  by (auto simp: closed_at_def ask_model_def closed_user_types split: prod.splits)

lemma stream_provider_closed:
  assumes "closed_at env turn st" shows "closed_at env turn (snd (stream_provider env turn st))"
proof -
  obtain es st1 where a: "ask_model env turn st = (es, st1)" by fastforce
  have one: "closed_at env turn st1" using ask_model_closed [OF assms] a by simp
  let ?st2 = "forward (filter (\<lambda>e. \<not> is_context_error e) es) st1"
  obtain b st3 where c: "compact_round env ?st2 = (b, st3)" by fastforce
  have three: "closed_at env turn st3"
    using one compact_round_sel(1,2) [of env ?st2] c by (simp add: closed_at_def)
  show ?thesis
    using one three ask_model_closed [OF three]
    by (cases b) (auto simp: stream_provider_def a c Let_def closed_at_def split: prod.splits)
qed

lemma handle_response_pending:
  assumes "handle_response env turn conts tn st = (out, st')" and "closed_at env turn st"
  shows "out = Break \<Longrightarrow> input_lost st' \<or> lp_pending_injections st' = []"
    and "\<not> more_turns env turn \<Longrightarrow> lp_pending_injections st' = []"
proof -
  let ?st1 = "record_assistant env turn tn st"
  have st1: "lp_pending_injections ?st1 = lp_pending_injections st" "lp_accepting ?st1 = (completed_tools tn \<noteq> [] \<and> more_turns env turn)"
    by (simp_all add: record_assistant_def Let_def)
  note defs = handle_response_def truncated_tools_def output_limit_stop_def truncated_text_def Let_def
  show "input_lost st' \<or> lp_pending_injections st' = []" if "out = Break"
    using assms that call_tools_pending(1) [of env turn tn ?st1 out st'] st1
    by (auto simp: defs input_lost_def closed_at_def split: if_splits)
  show "lp_pending_injections st' = []" if "\<not> more_turns env turn"
    using assms that call_tools_pending(2) [of env turn tn ?st1 out st'] st1
    by (auto simp: defs closed_at_def split: if_splits)
qed

lemma run_turn_pending:
  assumes "run_turn env turn conts st = (out, st')"
  shows "out = Break \<Longrightarrow> input_lost st' \<or> lp_pending_injections st' = []"
    and "\<not> more_turns env turn \<Longrightarrow> lp_pending_injections st' = []"
proof -
  let ?st1 = "compact_if_needed env (drain_pending_injections env (st\<lparr>lp_accepting := more_turns env turn\<rparr>))"
  obtain es st2 where s: "stream_provider env turn ?st1 = (es, st2)" by fastforce
  have "closed_at env turn ?st1" by (simp add: closed_at_def)
  then have c: "closed_at env turn st2" using stream_provider_closed [of env turn ?st1] s by simp
  have h: "handle_response env turn conts (collect es) st2 = (out, st')" using assms by (simp add: run_turn_def Let_def s)
  show "out = Break \<Longrightarrow> input_lost st' \<or> lp_pending_injections st' = []" by (rule handle_response_pending(1) [OF h c])
  show "\<not> more_turns env turn \<Longrightarrow> lp_pending_injections st' = []" by (rule handle_response_pending(2) [OF h c])
qed

lemma run_turns_pending:
  assumes "run_turns env [k..<le_max_turns env] conts st = (None, st')" and "k \<le> le_max_turns env"
    and "k = le_max_turns env \<Longrightarrow> lp_pending_injections st = []"
  shows "input_lost st' \<or> lp_pending_injections st' = []"
  using assms
proof (induction "le_max_turns env - k" arbitrary: k conts st)
  case 0
  then show ?case by auto
next
  case (Suc n)
  then have k: "[k..<le_max_turns env] = k # [Suc k..<le_max_turns env]" by (simp add: upt_conv_Cons)
  obtain out st1 where r: "run_turn env k conts st = (out, st1)" by fastforce
  show ?case
  proof (cases out)
    case (Continue c)
    have "lp_pending_injections st1 = []" if "Suc k = le_max_turns env"
      using run_turn_pending(2) [OF r] that by (simp add: more_turns_def)
    then show ?thesis using Suc.hyps(1) [of "Suc k" c st1] Suc.hyps(2) Suc.prems Continue by (simp add: k r)
  next
    case Break
    then show ?thesis using run_turn_pending(1) [OF r] Suc.prems(1) by (simp add: k r)
  next
    case (Raise e)
    then show ?thesis using Suc.prems(1) by (simp add: k r)
  qed
qed

section \<open>What holds of the conversation throughout\<close>

text \<open>
  A property of the conversation that survives a new message and a compaction, and does not look at anything else,
  survives every run.
\<close>

definition same_message :: "Message \<Rightarrow> Message \<Rightarrow> bool" where
  \<comment> \<open>a message of the transcript against one of the history: role, content, metadata and duration agree, and the token count may be missing\<close>
  "same_message m' m \<longleftrightarrow> ms_role m' = ms_role m \<and> ms_content m' = ms_content m \<and> ms_metadata m' = ms_metadata m
     \<and> ms_elapsed_seconds m' = ms_elapsed_seconds m \<and> (ms_token_count m' = ms_token_count m \<or> ms_token_count m' = 0)"

lemma same_message_refl: "same_message m m"
  by (simp add: same_message_def)

locale conversation_invariant =
  fixes conv :: "('u, 'c) loop_state \<Rightarrow> bool"
  assumes conv_only: "lp_context st' = lp_context st \<Longrightarrow> lp_stored st' = lp_stored st
      \<Longrightarrow> lp_next_object st' = lp_next_object st \<Longrightarrow> conv st \<Longrightarrow> conv st'"
    and conv_added: "conv st \<Longrightarrow> ms_object m = lp_next_object st \<Longrightarrow> lp_next_object st < n \<Longrightarrow> same_message m' m
      \<Longrightarrow> conv (st\<lparr>lp_context := (lp_context st)\<lparr>cm_messages := history st @ [m]\<rparr>, lp_stored := lp_stored st @ [m'],
            lp_next_object := n\<rparr>)"
    and conv_compacted: "conv st \<Longrightarrow> cm = snd (apply_compaction count_message (lp_next_object st) summary (lp_context st))
      \<Longrightarrow> conv (st\<lparr>lp_context := cm, lp_stored := cm_messages cm, lp_next_object := Suc (lp_next_object st)\<rparr>)"
begin

lemma conv_record: "conv st \<Longrightarrow> conv (record_message env r c md st)"
  unfolding record_message_def Let_def by (rule conv_added) (simp_all add: new_message_def same_message_refl)

lemma conv_copy: "conv st \<Longrightarrow> conv (record_copy env c st)"
  unfolding record_copy_def Let_def by (rule conv_added) (simp_all add: new_message_def same_message_def)

lemma conv_sel [simp]:
  "conv (emit es st) \<longleftrightarrow> conv st" "conv (close_input st) \<longleftrightarrow> conv st" "conv (user_types env t ph st) \<longleftrightarrow> conv st"
  "conv (forward ses st) \<longleftrightarrow> conv st" "conv (drop_response tn st) \<longleftrightarrow> conv st"
  "conv (st\<lparr>lp_world := w\<rparr>) \<longleftrightarrow> conv st" "conv (st\<lparr>lp_accepting := b\<rparr>) \<longleftrightarrow> conv st"
  "conv (st\<lparr>lp_pending_injections := ps\<rparr>) \<longleftrightarrow> conv st" "conv (st\<lparr>lp_model_request_count := n\<rparr>) \<longleftrightarrow> conv st"
  by (rule iffI; rule conv_only; simp; fail)+

lemma conv_folds:
  assumes "conv st"
  shows "conv (drain env ms st)" "conv (record_raw env ds st)" "conv (submit_queued env qs st)"
proof -
  show "conv (drain env ms st)" using assms by (induction env ms st rule: drain.induct) (simp_all add: conv_record)
  show "conv (record_raw env ds st)"
    using assms by (induction env ds st rule: record_raw.induct) (simp_all add: conv_record split: prod.splits)
  show "conv (submit_queued env qs st)"
    using assms by (induction env qs st rule: submit_queued.induct) (simp_all add: conv_record Let_def)
qed

lemma conv_compact: "conv st \<Longrightarrow> conv (snd (compact_round env st))"
proof -
  assume "conv st"
  moreover have "conv ((emit es st)\<lparr>lp_world := w, lp_context := cm, lp_stored := cm_messages cm, lp_next_object := Suc (lp_next_object st)\<rparr>)"
    if "conv st" "cm = snd (apply_compaction cnt (lp_next_object st) summary (lp_context st))" for w cm summary cnt es
    using conv_compacted [of "(emit es st)\<lparr>lp_world := w\<rparr>" cm cnt summary] that by simp
  ultimately show ?thesis
    by (auto simp: compact_round_def auto_compact_def Let_def split: prod.splits option.splits)
qed

lemma conv_ask: "conv st \<Longrightarrow> conv (snd (ask_model env turn st))"
  by (simp add: ask_model_def split: prod.splits)

lemma conv_stream:
  assumes "conv st"
  shows "conv (snd (stream_provider env turn st))"
proof -
  obtain es st1 where a: "ask_model env turn st = (es, st1)" by fastforce
  have one: "conv st1" using conv_ask [OF assms, of env turn] a by simp
  let ?st2 = "forward (filter (\<lambda>e. \<not> is_context_error e) es) st1"
  obtain b st3 where c: "compact_round env ?st2 = (b, st3)" by fastforce
  have three: "conv st3" using conv_compact [of ?st2 env] one c by simp
  show ?thesis
    using one three conv_ask [OF three, of env turn]
    by (cases b) (auto simp: stream_provider_def a c Let_def split: prod.splits)
qed

lemma conv_report: "conv st \<Longrightarrow> conv (snd (report_results env turn denied reqs results st))"
  by (simp add: report_results_def Let_def conv_folds conv_copy)

lemma conv_execute: "conv st \<Longrightarrow> conv (snd (execute_tools env turn denied reqs st))"
  unfolding execute_tools_def by (cases "execute_batch (le_attach env) (le_tool_timeout env)
    (map (\<lambda>(n, t). (n, at_exec t)) (ae_tools (le_agent env))) (le_scheduler env) (map ToolCallRequest.truncate reqs) (lp_world st)")
     (simp add: conv_report split: sum.splits)

lemma conv_call: "conv st \<Longrightarrow> conv (snd (call_tools env turn tn st))"
  unfolding call_tools_def Let_def
  by (simp add: case_prod_beta answer_denied_def conv_execute conv_folds conv_copy split: option.split)

lemma conv_handle: "conv st \<Longrightarrow> conv (snd (handle_response env turn conts tn st))"
  by (simp add: handle_response_def truncated_tools_def output_limit_stop_def truncated_text_def record_assistant_def Let_def
      conv_call conv_record)

lemma conv_turn: "conv st \<Longrightarrow> conv (snd (run_turn env turn conts st))"
  by (simp add: run_turn_def Let_def case_prod_beta conv_handle conv_stream conv_compact conv_folds compact_if_needed_def
      drain_pending_injections_def)

lemma conv_turns: "conv st \<Longrightarrow> conv (snd (run_turns env turns conts st))"
proof (induction turns arbitrary: conts st)
  case (Cons turn turns)
  obtain out st1 where r: "run_turn env turn conts st = (out, st1)" by fastforce
  with conv_turn [OF Cons.prems, of env turn conts] Cons.IH [of st1] show ?case by (cases out) simp_all
qed simp

lemma conv_run: "conv st \<Longrightarrow> conv (snd (run_streaming env user_input st))"
  by (simp add: run_streaming_def Let_def case_prod_beta conv_turns conv_copy)

lemma conv_continue: "conv st \<Longrightarrow> conv (snd (continue_streaming env st))"
  by (simp add: continue_streaming_def Let_def case_prod_beta conv_turns)

lemma conv_resumed:
  "conv st \<Longrightarrow> conv (snd (report_resumed env reqs denied allowed results st))"
  by (simp add: report_resumed_def Let_def conv_continue conv_folds conv_copy)

lemma conv_recovered: "conv st \<Longrightarrow> conv (snd (run_recovered env uses rs st))"
  unfolding run_recovered_def Let_def by (simp add: case_prod_beta conv_resumed split: sum.split)

lemma conv_resume: "conv st \<Longrightarrow> conv (snd (resume_run env ck st))"
  by (simp add: resume_run_def conv_recovered split: resumed.split)

end

definition mirrored :: "('u, 'c) loop_state \<Rightarrow> bool" where
  "mirrored st = list_all2 same_message (lp_stored st) (history st)"

definition allocated :: "('u, 'c) loop_state \<Rightarrow> bool" where
  \<comment> \<open>the next object of a message is a new one\<close>
  "allocated st = (\<forall>m \<in> set (history st). ms_object m < lp_next_object st)"

interpretation transcript: conversation_invariant mirrored
  by unfold_locales (auto simp: mirrored_def same_message_refl intro: list_all2_appendI list.rel_refl)

lemma compacted_objects:
  assumes "m \<in> set (cm_messages (snd (apply_compaction cnt uid summary cm)))"
  shows "m \<in> set (cm_messages cm) \<or> ms_object m = uid"
proof -
  obtain old recent where split: "split_messages_for_compaction cm = (old, recent)" by fastforce
  have "set (old @ recent) \<subseteq> set (cm_messages cm)"
    using split_messages_parts [OF split] fold_pipeline_set
    by (force simp: get_context_messages_def split: option.splits dest: in_set_dropD)
  then show ?thesis
    using assms
    by (auto simp: apply_compaction_def split Let_def compaction_marker_def create_compaction_summary_message_def new_message_def
        split: if_splits dest: in_set_takeD)
qed

interpretation objects: conversation_invariant allocated
proof
  fix st :: "('a, 'b) loop_state" and cm cnt summary
  assume "allocated st" and "cm = snd (apply_compaction cnt (lp_next_object st) summary (lp_context st))"
  then show "allocated (st\<lparr>lp_context := cm, lp_stored := cm_messages cm, lp_next_object := Suc (lp_next_object st)\<rparr>)"
    by (auto simp: allocated_def less_Suc_eq dest!: compacted_objects)
qed (auto simp: allocated_def less_Suc_eq)

section \<open>Calls and results stay together\<close>

text \<open>
  A history is paired when every message with tool calls is followed at once by a user message with the results of
  exactly these calls, and no other message carries results.
\<close>

fun paired :: "Message list \<Rightarrow> bool" where
  "paired [] \<longleftrightarrow> True"
| "paired [m] \<longleftrightarrow> tool_use_ids m = [] \<and> tool_result_ids m = []"
| "paired (m # r # ms) \<longleftrightarrow>
     tool_result_ids m = []
     \<and> (if tool_use_ids m = [] then paired (r # ms)
        else ms_role m = RoleAssistant \<and> ms_role r = RoleUser \<and> tool_use_ids r = []
          \<and> mset (tool_result_ids r) = mset (tool_use_ids m) \<and> paired ms)"

definition exchange :: "Message \<Rightarrow> Message \<Rightarrow> bool" where
  "exchange a r \<longleftrightarrow> ms_role a = RoleAssistant \<and> tool_use_ids a \<noteq> [] \<and> tool_result_ids a = []
     \<and> ms_role r = RoleUser \<and> tool_use_ids r = [] \<and> mset (tool_result_ids r) = mset (tool_use_ids a)"

definition plain :: "Message \<Rightarrow> bool" where
  "plain m \<longleftrightarrow> tool_use_ids m = [] \<and> tool_result_ids m = []"

definition visible :: "Message \<Rightarrow> bool" where
  \<comment> \<open>neither a cleanup prompt nor the handoff of a pipeline\<close>
  "visible m \<longleftrightarrow> \<not> is_cleanup_prompt_message m \<and> \<not> metadata_type_is m HANDOFF_METADATA_TYPE"

lemma paired_Cons_plain: "plain m \<Longrightarrow> paired (m # ms) \<longleftrightarrow> paired ms"
  by (cases ms) (simp_all add: plain_def)

lemma paired_append: "paired xs \<Longrightarrow> paired ys \<Longrightarrow> paired (xs @ ys)"
proof (induction xs rule: paired.induct)
  case (2 m)
  then show ?case using paired_Cons_plain [of m ys] by (simp add: plain_def)
next
  case (3 m r ms)
  then show ?case by (auto split: if_splits)
qed simp

lemma paired_plain: "list_all plain ms \<Longrightarrow> paired ms"
  by (induction ms) (simp_all add: paired_Cons_plain)

lemma paired_exchange: "exchange a r \<Longrightarrow> paired [a, r]"
  by (simp add: exchange_def)

lemma paired_split:
  "paired ms \<Longrightarrow> k < length ms \<Longrightarrow> tool_result_ids (ms ! k) = [] \<Longrightarrow> paired (take k ms) \<and> paired (drop k ms)"
proof (induction ms arbitrary: k rule: paired.induct)
  case (2 m)
  then show ?case by (cases k) simp_all
next
  case (3 m r ms)
  show ?case
  proof (cases "tool_use_ids m = []")
    case True
    then have m: "plain m" using 3(3) by (simp add: plain_def)
    show ?thesis
    proof (cases k)
      case (Suc j)
      then show ?thesis using 3(1) [OF True, of j] 3(3-5) True m by (simp add: paired_Cons_plain)
    qed (use 3(3) in simp)
  next
    case False
    then have r: "mset (tool_result_ids r) = mset (tool_use_ids m)" using 3(3) by simp
    then have ne: "tool_result_ids r \<noteq> []" using False by (metis mset_zero_iff)
    consider "k = 0" | "k = 1" | j where "k = Suc (Suc j)" by (metis One_nat_def not0_implies_Suc)
    then show ?thesis
    proof cases
      case 1
      then show ?thesis using 3(3) by simp
    next
      case 2
      then show ?thesis using 3(5) ne by simp
    next
      case (3 j)
      then show ?thesis using "3.IH"(2) [OF False, of j] "3.prems" False by simp
    qed
  qed
qed simp

definition sound_history :: "Message list \<Rightarrow> bool" where
  "sound_history ms \<longleftrightarrow> paired ms \<and> list_all visible ms"

lemma sound_append: "sound_history xs \<Longrightarrow> sound_history ys \<Longrightarrow> sound_history (xs @ ys)"
  by (simp add: sound_history_def paired_append)

lemma sound_plain: "list_all (\<lambda>m. plain m \<and> visible m) ms \<Longrightarrow> sound_history ms"
  by (auto simp: sound_history_def list_all_iff intro!: paired_plain)

lemma marker_sound: "sound_history [compaction_marker cnt uid summary n]"
proof (rule sound_plain, simp, intro conjI)
  let ?m = "compaction_marker cnt uid summary n"
  show "plain ?m"
    by (simp add: plain_def compaction_marker_def create_compaction_summary_message_def new_message_def Let_def
        tool_use_ids_def tool_result_ids_def message_blocks_def)
  show "visible ?m" using marker_facts [of cnt uid summary n] cleanup_not_marker by (auto simp: visible_def)
qed

lemma compaction_sound:
  assumes "sound_history (cm_messages cm)" and "0 < cc_preserve_recent_turns (cm_config cm)"
  shows "sound_history (cm_messages (snd (apply_compaction cnt uid summary cm)))"
    and "cm_config (snd (apply_compaction cnt uid summary cm)) = cm_config cm"
    and "subseq (cm_messages cm) (cm_messages (snd (apply_compaction cnt uid summary cm)))"
proof -
  obtain old recent where split: "split_messages_for_compaction cm = (old, recent)" by fastforce
  show "cm_config (snd (apply_compaction cnt uid summary cm)) = cm_config cm"
    by (simp add: apply_compaction_def Let_def split: prod.splits)
  have "\<not> has_handoff (cm_messages cm)"
    using assms(1) by (auto simp: sound_history_def has_handoff_def visible_def list_ex_iff list_all_iff)
  then obtain pre where pre: "cm_messages cm = pre @ get_context_messages cm" using context_suffix by blast
  have all: "cm_messages cm = (pre @ old) @ recent" using pre split_messages_parts [OF split] by simp
  have hidden: "filter is_cleanup_prompt_message old = []"
    using assms(1) by (auto simp: sound_history_def all visible_def list_all_iff filter_empty_conv)
  have "sound_history (cm_messages (snd (apply_compaction cnt uid summary cm)))
    \<and> subseq (cm_messages cm) (cm_messages (snd (apply_compaction cnt uid summary cm)))"
  proof (cases "old = []")
    case True
    then show ?thesis using assms(1) by (simp add: apply_compaction_def split Let_def)
  next
    case False
    from split_messages_old [OF split this assms(2)] obtain s where s: "0 < s"
      "s \<le> length (get_context_messages cm) - 2 * cc_preserve_recent_turns (cm_config cm)"
      "2 * cc_preserve_recent_turns (cm_config cm) < length (get_context_messages cm)"
      "old = take s (get_context_messages cm)" "recent = drop s (get_context_messages cm)"
      "safe_split (get_context_messages cm) True s" by blast
    let ?k = "length pre + s"
    have len: "s < length (get_context_messages cm)" using s(2,3) assms(2) by linarith
    have "tool_result_ids (cm_messages cm ! ?k) = []"
      using s(1,6) by (simp add: pre nth_append safe_split_def is_safe_tail_start_def)
    moreover have "?k < length (cm_messages cm)" using len by (subst pre) simp
    moreover have "take ?k (cm_messages cm) = pre @ old" "drop ?k (cm_messages cm) = recent"
      using s(4,5) pre by (metis append_take_drop_id take_add append_eq_conv_conj, metis drop_drop append_eq_conv_conj add.commute)
    ultimately have "paired (pre @ old)" "paired recent"
      using paired_split [of "cm_messages cm" ?k] assms(1) by (simp_all add: sound_history_def)
    then have parts: "sound_history (pre @ old)" "sound_history recent"
      using assms(1) by (simp_all add: sound_history_def all)
    have "cm_messages (snd (apply_compaction cnt uid summary cm))
        = (pre @ old) @ [compaction_marker cnt uid summary (length recent)] @ recent"
      using False hidden by (simp add: apply_compaction_def split Let_def all)
    moreover have "subseq ((pre @ old) @ recent) ((pre @ old) @ [compaction_marker cnt uid summary (length recent)] @ recent)"
      unfolding subseq_append' by (rule subseq_drop_many) simp
    ultimately show ?thesis using parts marker_sound all by (metis sound_append)
  qed
  then show "sound_history (cm_messages (snd (apply_compaction cnt uid summary cm)))"
    and "subseq (cm_messages cm) (cm_messages (snd (apply_compaction cnt uid summary cm)))" by simp_all
qed

subsection \<open>Results of a batch\<close>

lemma run_tasks_all:
  assumes "\<And>c w. P (fst (run c w))"
  shows "\<forall>(i, r) \<in> set (fst (run_tasks run calls es w)). P r"
proof (induction es arbitrary: w)
  case (Cons e es)
  show ?case
  proof (cases e)
    case (Release i)
    then show ?thesis
      using assms [of "calls ! i" w] Cons.IH [of "snd (run (calls ! i) w)"] by (simp add: Let_def split_beta)
  qed (use Cons.IH in simp)
qed simp

lemma execute_concurrent_all:
  assumes "fair k sched" and "\<And>c w. P (fst (run c w))"
  shows "\<forall>(i, r) \<in> set (fst (execute_concurrent run sched calls w)). P r"
proof (cases "calls = []")
  case False
  let ?rs = "fst (run_tasks run calls (sched calls) w)"
  have "P (the (map_of ?rs i))" if "i < length calls" for i
  proof -
    have "i \<in> set (map fst ?rs)" using fair_set [OF assms(1), of calls] that by (simp add: run_tasks_fst)
    then obtain r where r: "map_of ?rs i = Some r" by (metis list.set_map map_of_eq_None_iff option.exhaust)
    then have "(i, r) \<in> set ?rs" by (rule map_of_SomeD)
    then show ?thesis using run_tasks_all [of P run calls "sched calls" w] assms(2) r by auto
  qed
  then show ?thesis using False by (auto simp: execute_concurrent_def Let_def split_beta)
qed (simp add: execute_concurrent_def)

lemma batch_results_all:
  assumes "fair k sched" and "\<And>c w. P (fst (run c w))"
  shows "\<forall>(i, r) \<in> set (fst (batch_results conc run sched calls batch w)). P r"
proof (induction calls arbitrary: batch w)
  case Nil
  then show ?case using execute_concurrent_all [where P = P and run = run, OF assms] by simp
next
  case (Cons c calls)
  let ?c = "execute_concurrent run sched batch w"
  let ?r = "run c (snd ?c)"
  have first: "\<forall>(i, r) \<in> set (fst ?c). P r" using execute_concurrent_all [where P = P and run = run, OF assms] .
  have "P (fst ?r)" by (rule assms(2))
  then show ?case using first Cons.IH [of "batch @ [c]" w] Cons.IH [of "[]" "snd ?r"] by (simp add: Let_def split_beta ball_Un)
qed

lemma execute_batch_all:
  assumes "distinct (map tc_id calls)" and "fair k sched" and "\<And>c w. P (fst (validate_and_execute attach limit reg c w))"
  obtains results w' where "execute_batch attach limit reg sched calls w = (Inr results, w')"
    "length results = length calls" "list_all P results"
proof -
  let ?b = "batch_results (is_concurrent reg) (validate_and_execute attach limit reg) sched calls [] w"
  have "execute_batch attach limit reg sched calls w = (Inr (map snd (fst ?b)), snd ?b)"
    using execute_batch_results [OF assms(1)] by (simp add: Let_def split_beta)
  moreover have "length (map snd (fst ?b)) = length calls"
    using arg_cong [where f = length, OF batch_results_ids [of "is_concurrent reg" "validate_and_execute attach limit reg" sched calls "[]" w]]
    by simp
  moreover have "list_all P (map snd (fst ?b))"
    using batch_results_all [OF assms(2), of P "validate_and_execute attach limit reg" "is_concurrent reg" calls "[]" w] assms(3)
    by (auto simp: list_all_iff)
  ultimately show ?thesis by (rule that)
qed

subsection \<open>Assumptions on the surroundings\<close>

definition no_tool_blocks :: "msg_content \<Rightarrow> bool" where
  "no_tool_blocks c = (case c of TextContent _ \<Rightarrow> True | Blocks bs \<Rightarrow> list_all (\<lambda>b. \<not> is_ToolUseBlock b \<and> \<not> is_ToolResultBlock b) bs)"

definition visible_metadata :: "pydict \<Rightarrow> bool" where
  "visible_metadata md \<longleftrightarrow>
     map_of md ''type'' \<noteq> Some (PyStr CLEANUP_PROMPT_METADATA_TYPE) \<and> map_of md ''type'' \<noteq> Some (PyStr HANDOFF_METADATA_TYPE)"

definition ordinary :: "injection \<Rightarrow> bool" where
  "ordinary msg \<longleftrightarrow> no_tool_blocks (fst msg) \<and> visible_metadata (snd msg)"

definition ordinary_result :: "('u, 'c, 'p) loop_env \<Rightarrow> ToolResult \<Rightarrow> bool" where
  \<comment> \<open>the messages a tool adds to the conversation are ordinary\<close>
  "ordinary_result env r \<longleftrightarrow> list_all (\<lambda>d. ordinary (snd (raw_message env d))) (res_new_messages r)"

definition ordinary_tool :: "('u, 'c, 'p) loop_env \<Rightarrow> ('w, 'p) ExecTool \<Rightarrow> bool" where
  "ordinary_tool env t \<longleftrightarrow>
     (\<forall>i r. et_validation_error_result t i = Some r \<longrightarrow> ordinary_result env r)
     \<and> (\<forall>i limit w r. fst (et_execute t i limit w) = Returned r \<longrightarrow> ordinary_result env r)
     \<and> (\<forall>i limit r. et_timeout_error_result t i limit = Some r \<longrightarrow> ordinary_result env r)"

definition cooperative :: "('u, 'c, 'p) loop_env \<Rightarrow> bool" where
  \<comment> \<open>the scheduler finishes every batch; nothing typed, no tool and no end of a response forges tool blocks or hidden messages\<close>
  "cooperative env \<longleftrightarrow>
     (\<exists>k. fair k (le_scheduler env))
     \<and> (\<forall>turn ph w. list_all ordinary (le_typed env turn ph w))
     \<and> (\<forall>turn ms w reason md. MessageEndEvent reason md \<in> set (fst (le_respond env turn ms w)) \<longrightarrow> visible_metadata md)
     \<and> (\<forall>(n, t) \<in> set (ae_tools (le_agent env)). ordinary_tool env (at_exec t))
     \<and> (\<forall>r p. ordinary_result env r \<longrightarrow> ordinary_result env (le_attach env r p))"

lemma ordinary_error: "ordinary_result env (result_error e)"
  by (simp add: ordinary_result_def result_error_def)

lemma validate_and_execute_ordinary:
  assumes "cooperative env"
  shows "ordinary_result env (fst (validate_and_execute (le_attach env) limit (map (\<lambda>(n, t). (n, at_exec t)) (ae_tools (le_agent env))) c w))"
proof (cases "registry_get (map (\<lambda>(n, t). (n, at_exec t)) (ae_tools (le_agent env))) (tc_name c)")
  case None
  then show ?thesis by (simp add: validate_and_execute_def ordinary_error)
next
  case (Some t)
  then have "t \<in> at_exec ` snd ` set (ae_tools (le_agent env))"
    by (auto simp: registry_get_def map_of_map dest!: map_of_SomeD intro!: imageI rev_image_eqI)
  then have t: "ordinary_tool env t" using assms by (auto simp: cooperative_def)
  have att: "ordinary_result env (attach_ros_preflight (le_attach env) r p)" if "ordinary_result env r" for r p
    using assms that by (auto simp: attach_ros_preflight_def cooperative_def split: option.splits)
  obtain ok err where v: "et_validate_input t (tc_input c) = (ok, err)" by fastforce
  show ?thesis
  proof (cases ok)
    case False
    then show ?thesis using t
      by (simp add: validate_and_execute_def Some v ordinary_tool_def ordinary_error split: option.splits)
  next
    case True
    obtain out w' where e: "et_execute t (tc_input c) (call_timeout limit t (tc_input c)) w = (out, w')" by fastforce
    show ?thesis
    proof (cases out)
      case (Returned r)
      then have "ordinary_result env r" using t e unfolding ordinary_tool_def by (metis fst_conv)
      then show ?thesis using True by (simp add: validate_and_execute_def Some v e Let_def Returned)
    next
      case (TimedOut p)
      have "ordinary_result env (case et_timeout_error_result t (tc_input c) s of Some r \<Rightarrow> r | None \<Rightarrow> result_error x)" for s x
        using t by (auto simp: ordinary_tool_def ordinary_error split: option.splits)
      then show ?thesis using True att by (simp add: validate_and_execute_def Some v e Let_def TimedOut)
    next
      case (Raised x p)
      then show ?thesis using True att by (simp add: validate_and_execute_def Some v e Let_def ordinary_error)
    qed
  qed
qed

subsection \<open>Messages that the loop records\<close>

definition recorded :: "('u, 'c, 'p) loop_env \<Rightarrow> role \<Rightarrow> msg_content \<Rightarrow> pydict \<Rightarrow> nat \<Rightarrow> Message" where
  "recorded env role content md uid =
     (new_message uid role content [])\<lparr>ms_token_count := le_count_message env (new_message uid role content []), ms_metadata := md\<rparr>"

lemma history_record: "history (record_message env r c md st) = history st @ [recorded env r c md (lp_next_object st)]"
  by (simp add: record_message_def recorded_def Let_def)

lemma history_copy: "history (record_copy env c st) = history st @ [recorded env RoleUser c [] (lp_next_object st)]"
  by (simp add: record_copy_def recorded_def new_message_def Let_def)

lemma recorded_sel [simp]:
  "ms_role (recorded env r c md uid) = r"
  "tool_use_ids (recorded env r (Blocks bs) md uid) = map tu_id (filter is_ToolUseBlock bs)"
  "tool_result_ids (recorded env r (Blocks bs) md uid) = map tr_tool_use_id (filter is_ToolResultBlock bs)"
  by (simp_all add: recorded_def new_message_def tool_use_ids_def tool_result_ids_def message_blocks_def)

lemma recorded_visible: "visible_metadata md \<Longrightarrow> visible (recorded env r c md uid)"
  by (simp add: visible_def visible_metadata_def recorded_def is_cleanup_prompt_message_def metadata_type_is_def)

lemma recorded_plain: "no_tool_blocks c \<Longrightarrow> plain (recorded env r c md uid)"
  by (auto simp: no_tool_blocks_def plain_def recorded_def new_message_def tool_use_ids_def tool_result_ids_def message_blocks_def
      list_all_iff filter_empty_conv split: msg_content.splits)

lemma sound_record:
  "sound_history (history st) \<Longrightarrow> ordinary (c, md) \<Longrightarrow> sound_history (history (record_message env r c md st))"
  unfolding history_record
  by (rule sound_append [OF _ sound_plain]) (simp_all add: recorded_plain recorded_visible ordinary_def)

lemma sound_copy:
  "sound_history (history st) \<Longrightarrow> no_tool_blocks c \<Longrightarrow> sound_history (history (record_copy env c st))"
  unfolding history_copy
  by (rule sound_append [OF _ sound_plain]) (simp_all add: recorded_plain recorded_visible visible_metadata_def)

lemma sound_drain:
  "sound_history (history st) \<Longrightarrow> list_all ordinary ms \<Longrightarrow> sound_history (history (drain env ms st))"
  by (induction env ms st rule: drain.induct) (simp_all add: sound_record)

lemma sound_record_raw:
  "sound_history (history st) \<Longrightarrow> list_all (\<lambda>d. ordinary (snd (raw_message env d))) ds \<Longrightarrow> sound_history (history (record_raw env ds st))"
  by (induction env ds st rule: record_raw.induct) (auto simp: sound_record split: prod.splits)

lemma sound_submit_queued: "sound_history (history st) \<Longrightarrow> sound_history (history (submit_queued env qs st))"
proof (induction env qs st rule: submit_queued.induct)
  case (2 env raw raws st)
  have "ordinary (TextContent t, [(''messageId'', PyStr i)])" for t i
    by (simp add: ordinary_def no_tool_blocks_def visible_metadata_def)
  then show ?case using 2 by (simp add: Let_def sound_record)
qed simp

subsection \<open>The invariant of the loop\<close>

definition inputs :: "Message list \<Rightarrow> injection list" where
  \<comment> \<open>the content and the metadata of the user messages\<close>
  "inputs ms = map (\<lambda>m. (ms_content m, ms_metadata m)) (filter (\<lambda>m. ms_role m = RoleUser) ms)"

definition tracked :: "Message list \<times> bool \<Rightarrow> ('u, 'c) loop_state \<Rightarrow> bool" where
  \<comment> \<open>the given messages are still there, in their order; and, if asked for, so is all accepted input that does not wait\<close>
  "tracked tr st \<longleftrightarrow> subseq (fst tr) (history st)
     \<and> (snd tr \<longrightarrow> (\<exists>done. lp_accepted st = done @ lp_pending_injections st \<and> subseq done (inputs (history st))))"

definition loop_ok :: "Message list \<times> bool \<Rightarrow> ('u, 'c) loop_state \<Rightarrow> bool" where
  "loop_ok tr st \<longleftrightarrow> tracked tr st \<and> sound_history (history st) \<and> 0 < cc_preserve_recent_turns (cm_config (lp_context st))
     \<and> list_all ordinary (lp_pending_injections st)"

definition open_call :: "Message list \<times> bool \<Rightarrow> Message list \<Rightarrow> Message \<Rightarrow> ('u, 'c) loop_state \<Rightarrow> bool" where
  \<comment> \<open>the last message \<open>a\<close> waits for the results of its calls\<close>
  "open_call tr hs a st \<longleftrightarrow> tracked tr st \<and> history st = hs @ [a] \<and> sound_history hs \<and> visible a
     \<and> ms_role a = RoleAssistant \<and> tool_use_ids a \<noteq> [] \<and> tool_result_ids a = []
     \<and> 0 < cc_preserve_recent_turns (cm_config (lp_context st)) \<and> list_all ordinary (lp_pending_injections st)"

lemma tracked_sel [simp]:
  "tracked tr (emit es st) \<longleftrightarrow> tracked tr st" "tracked tr (close_input st) \<longleftrightarrow> tracked tr st" "tracked tr (forward ses st) \<longleftrightarrow> tracked tr st"
  "tracked tr (drop_response tn st) \<longleftrightarrow> tracked tr st" "tracked tr (st\<lparr>lp_world := w\<rparr>) \<longleftrightarrow> tracked tr st"
  "tracked tr (st\<lparr>lp_accepting := b\<rparr>) \<longleftrightarrow> tracked tr st" "tracked tr (st\<lparr>lp_model_request_count := n\<rparr>) \<longleftrightarrow> tracked tr st"
  "tracked tr (user_types env t ph st) \<longleftrightarrow> tracked tr st"
  by (simp_all add: tracked_def pending_user_types)

lemma tracked_grows:
  assumes "tracked tr st" and "history st' = history st @ ms" and "lp_accepted st' = lp_accepted st"
    and "lp_pending_injections st' = lp_pending_injections st"
  shows "tracked tr st'"
  using assms by (auto simp: tracked_def inputs_def intro: subseq_rev_drop_many)

lemma tracked_compacted:
  assumes "tracked tr st" and "subseq (history st) (history st')" and "lp_accepted st' = lp_accepted st"
    and "lp_pending_injections st' = lp_pending_injections st"
  shows "tracked tr st'"
proof -
  have "subseq (inputs (history st)) (inputs (history st'))"
    unfolding inputs_def by (intro subseq_map subseq_filter assms(2))
  then show ?thesis using assms by (auto simp: tracked_def intro: subseq_order.trans)
qed

lemma loop_ok_sel [simp]:
  "loop_ok tr (emit es st) \<longleftrightarrow> loop_ok tr st" "loop_ok tr (close_input st) \<longleftrightarrow> loop_ok tr st" "loop_ok tr (forward ses st) \<longleftrightarrow> loop_ok tr st"
  "loop_ok tr (drop_response tn st) \<longleftrightarrow> loop_ok tr st" "loop_ok tr (st\<lparr>lp_world := w\<rparr>) \<longleftrightarrow> loop_ok tr st"
  "loop_ok tr (st\<lparr>lp_accepting := b\<rparr>) \<longleftrightarrow> loop_ok tr st" "loop_ok tr (st\<lparr>lp_model_request_count := n\<rparr>) \<longleftrightarrow> loop_ok tr st"
  by (simp_all add: loop_ok_def)

lemma open_call_sel [simp]:
  "open_call tr hs a (emit es st) \<longleftrightarrow> open_call tr hs a st" "open_call tr hs a (close_input st) \<longleftrightarrow> open_call tr hs a st"
  "open_call tr hs a (st\<lparr>lp_world := w\<rparr>) \<longleftrightarrow> open_call tr hs a st"
  by (simp_all add: open_call_def)

lemma typed_ordinary: "cooperative env \<Longrightarrow> list_all ordinary (le_typed env t ph w)"
  by (simp add: cooperative_def)

lemma loop_ok_user_types [simp]: "cooperative env \<Longrightarrow> loop_ok tr (user_types env t ph st) \<longleftrightarrow> loop_ok tr st"
  using typed_ordinary [of env t ph "lp_world st"] by (simp add: loop_ok_def pending_user_types)

lemma open_call_user_types [simp]: "cooperative env \<Longrightarrow> open_call tr hs a (user_types env t ph st) \<longleftrightarrow> open_call tr hs a st"
  using typed_ordinary [of env t ph "lp_world st"] by (simp add: open_call_def pending_user_types)

lemma tracked_record [simp]: "tracked tr st \<Longrightarrow> tracked tr (record_message env r c md st)"
  by (erule tracked_grows [OF _ history_record]) simp_all

lemma tracked_copy [simp]: "tracked tr st \<Longrightarrow> tracked tr (record_copy env c st)"
  by (erule tracked_grows [OF _ history_copy]) simp_all

lemma tracked_folds [simp]:
  assumes "tracked tr st"
  shows "tracked tr (record_raw env ds st)" "tracked tr (submit_queued env qs st)"
proof -
  show "tracked tr (record_raw env ds st)"
    using assms by (induction env ds st rule: record_raw.induct) (simp_all split: prod.splits)
  show "tracked tr (submit_queued env qs st)"
    using assms by (induction env qs st rule: submit_queued.induct) (simp_all add: Let_def)
qed

lemma drain_history:
  "\<exists>ms'. history (drain env ms st) = history st @ ms' \<and> inputs ms' = ms"
proof (induction env ms st rule: drain.induct)
  case (2 env content md rest st)
  then obtain ms' where ms': "history (drain env rest (record_message env RoleUser content md st))
      = history (record_message env RoleUser content md st) @ ms'" "inputs ms' = rest" by blast
  then show ?case
    by (intro exI [of _ "recorded env RoleUser content md (lp_next_object st) # ms'"])
       (simp add: history_record inputs_def recorded_def new_message_def)
qed (simp add: inputs_def)

lemma tracked_drain: "tracked tr st \<Longrightarrow> tracked tr (drain_pending_injections env st)"
proof -
  assume t: "tracked tr st"
  obtain ms' where h: "history (drain env (lp_pending_injections st) st) = history st @ ms'" "inputs ms' = lp_pending_injections st"
    using drain_history by blast
  have i: "inputs (history st @ ms') = inputs (history st) @ lp_pending_injections st" using h(2) by (simp add: inputs_def)
  show ?thesis
    using t by (auto simp: tracked_def drain_pending_injections_def h(1) i intro: subseq_rev_drop_many list_emb_append_mono)
qed

lemma loop_ok_record: "loop_ok tr st \<Longrightarrow> ordinary (c, md) \<Longrightarrow> loop_ok tr (record_message env r c md st)"
  by (simp add: loop_ok_def sound_record)

lemma loop_ok_copy: "loop_ok tr st \<Longrightarrow> no_tool_blocks c \<Longrightarrow> loop_ok tr (record_copy env c st)"
  by (simp add: loop_ok_def sound_copy)

lemma loop_ok_drain: "loop_ok tr st \<Longrightarrow> loop_ok tr (drain_pending_injections env st)"
  using tracked_drain [of tr st env] by (simp add: loop_ok_def) (simp add: drain_pending_injections_def sound_drain)

lemma loop_ok_submit: "loop_ok tr st \<Longrightarrow> loop_ok tr (submit_queued env qs st)"
  by (simp add: loop_ok_def sound_submit_queued)

lemma loop_ok_raw: "loop_ok tr st \<Longrightarrow> list_all (\<lambda>d. ordinary (snd (raw_message env d))) ds \<Longrightarrow> loop_ok tr (record_raw env ds st)"
  by (simp add: loop_ok_def sound_record_raw)

lemma loop_ok_compact: "loop_ok tr st \<Longrightarrow> loop_ok tr (snd (compact_round env st))"
proof -
  assume ok: "loop_ok tr st"
  then have sound: "sound_history (history st)" "0 < cc_preserve_recent_turns (cm_config (lp_context st))"
    by (simp_all add: loop_ok_def)
  note parts = compaction_sound [OF sound]
  have "subseq (history st) (history (snd (compact_round env st)))"
    using parts(3) by (auto simp: compact_round_def auto_compact_def Let_def split: prod.splits option.splits)
  then have "tracked tr (snd (compact_round env st))"
    using ok by - (rule tracked_compacted [of tr st], simp_all add: loop_ok_def)
  then show ?thesis
    using ok parts(1,2) by (auto simp: loop_ok_def compact_round_def auto_compact_def Let_def split: prod.splits option.splits)
qed

definition visible_ends :: "stream_event list \<Rightarrow> bool" where
  "visible_ends es \<longleftrightarrow> (\<forall>reason md. MessageEndEvent reason md \<in> set es \<longrightarrow> visible_metadata md)"

lemma visible_ends_append: "visible_ends (es @ es') \<longleftrightarrow> visible_ends es \<and> visible_ends es'"
  by (auto simp: visible_ends_def)

lemma ask_model_ok:
  "cooperative env \<Longrightarrow> loop_ok tr st \<Longrightarrow> loop_ok tr (snd (ask_model env turn st)) \<and> visible_ends (fst (ask_model env turn st))"
  unfolding ask_model_def visible_ends_def Let_def case_prod_beta by (simp add: cooperative_def [of env])

lemma stream_provider_ok:
  assumes "cooperative env" and "loop_ok tr st"
  shows "loop_ok tr (snd (stream_provider env turn st)) \<and> visible_ends (fst (stream_provider env turn st))"
proof -
  obtain es st1 where a: "ask_model env turn st = (es, st1)" by fastforce
  have one: "loop_ok tr st1" "visible_ends es" using ask_model_ok [OF assms, of turn] a by simp_all
  let ?passed = "filter (\<lambda>e. \<not> is_context_error e) es"
  let ?st2 = "forward ?passed st1"
  have passed: "visible_ends ?passed" using one(2) by (auto simp: visible_ends_def)
  obtain b st3 where c: "compact_round env ?st2 = (b, st3)" by fastforce
  have three: "loop_ok tr st3" using loop_ok_compact [of tr ?st2 env] one c by simp
  have err: "visible_ends [last (filter is_context_error es)]" if "list_ex is_context_error es"
  proof -
    have "is_context_error (last (filter is_context_error es))"
      using that last_in_set [of "filter is_context_error es"] by (auto simp: list_ex_iff filter_empty_conv)
    then show ?thesis by (cases "last (filter is_context_error es)") (simp_all add: visible_ends_def is_context_error_def)
  qed
  obtain es' st4 where d: "ask_model env turn st3 = (es', st4)" by fastforce
  have four: "loop_ok tr st4" "visible_ends es'" using ask_model_ok [OF assms(1) three, of turn] d by simp_all
  show ?thesis
  proof (cases "list_ex is_context_error es")
    case True
    then show ?thesis
      using three four passed err
      by (cases b) (simp_all add: stream_provider_def a c d Let_def visible_ends_append)
  next
    case False
    then show ?thesis using one passed by (simp add: stream_provider_def a Let_def)
  qed
qed

subsection \<open>The response\<close>

definition wf_pending :: "turn_data \<Rightarrow> bool" where
  "wf_pending tn \<longleftrightarrow> distinct (map fst (tn_pending tn)) \<and> (\<forall>(i, u) \<in> set (tn_pending tn). pu_id u = i)"

lemma wf_pending_set: "wf_pending tn \<Longrightarrow> pu_id u = i \<Longrightarrow> wf_pending (tn\<lparr>tn_pending := dict_set i u (tn_pending tn)\<rparr>)"
  by (auto simp: wf_pending_def distinct_dict_set dest!: dict_set_in)

lemma pending_of_id: "pu_id (pending_of i name tn) = i"
  by (simp add: pending_of_def split: option.splits)

lemma collect_event_wf: "wf_pending tn \<Longrightarrow> wf_pending (collect_event e tn)"
  by (cases "(e, tn)" rule: collect_event.cases)
     (simp_all add: Let_def wf_pending_set pending_of_id, simp_all add: wf_pending_def)

lemma collect_event_metadata:
  "visible_metadata (tn_provider_metadata tn) \<Longrightarrow> visible_ends [e] \<Longrightarrow> visible_metadata (tn_provider_metadata (collect_event e tn))"
  by (cases "(e, tn)" rule: collect_event.cases) (auto simp: Let_def visible_ends_def visible_metadata_def)

lemma collect_ok:
  assumes "visible_ends es"
  shows "wf_pending (collect es)" and "visible_metadata (tn_provider_metadata (collect es))"
proof -
  have "wf_pending tn \<Longrightarrow> wf_pending (fold collect_event es tn)" for tn
    by (induction es arbitrary: tn) (simp_all add: collect_event_wf)
  moreover have "wf_pending empty_turn" by (simp add: empty_turn_def wf_pending_def)
  ultimately show "wf_pending (collect es)" by (simp add: collect_def)
  have "visible_ends es \<Longrightarrow> visible_metadata (tn_provider_metadata tn) \<Longrightarrow> visible_metadata (tn_provider_metadata (fold collect_event es tn))" for tn
  proof (induction es arbitrary: tn)
    case (Cons e es)
    then have "visible_ends [e]" "visible_ends es" using visible_ends_append [of "[e]" es] by simp_all
    then show ?case using Cons.IH collect_event_metadata [OF Cons.prems(2)] by simp
  qed simp
  then show "visible_metadata (tn_provider_metadata (collect es))"
    using assms by (simp add: collect_def empty_turn_def visible_metadata_def)
qed

lemma completed_distinct:
  assumes "wf_pending tn" shows "distinct (map pu_id (completed_tools tn))"
proof -
  have "map pu_id (map snd (tn_pending tn)) = map fst (tn_pending tn)" using assms by (auto simp: wf_pending_def)
  then have "distinct (map pu_id (map snd (tn_pending tn)))" using assms unfolding wf_pending_def by metis
  then show ?thesis unfolding completed_tools_def by (rule distinct_map_filter)
qed

lemma thinking_no_tools:
  "filter is_ToolUseBlock (thinking_blocks tn) = []" "filter is_ToolResultBlock (thinking_blocks tn) = []"
  by (auto simp: thinking_blocks_def filter_empty_conv Let_def split: option.splits if_splits pyval.splits)

lemma assistant_uses:
  "map tu_id (filter is_ToolUseBlock (assistant_blocks tn)) = map pu_id (completed_tools tn)"
  "filter is_ToolResultBlock (assistant_blocks tn) = []"
  by (simp_all add: assistant_blocks_def thinking_no_tools filter_map comp_def tool_use_block_def)

subsection \<open>Calling the tools\<close>

lemma result_block_simps [simp]:
  "is_ToolResultBlock (result_block env req r)" "tr_tool_use_id (result_block env req r) = tc_id req"
  "is_ToolResultBlock (denied_block d)" "tr_tool_use_id (denied_block d) = tc_id (fst d)"
  "\<not> is_ToolUseBlock (result_block env req r)" "\<not> is_ToolUseBlock (denied_block d)"
  by (simp_all add: result_block_def denied_block_def split_beta)

lemma results_message:
  assumes "length results = length reqs"
  shows "tool_use_ids (recorded env RoleUser (Blocks (map denied_block denied @ map2 (result_block env) reqs results)) [] uid) = []"
    and "tool_result_ids (recorded env RoleUser (Blocks (map denied_block denied @ map2 (result_block env) reqs results)) [] uid)
       = map (\<lambda>d. tc_id (fst d)) denied @ map tc_id reqs"
proof -
  let ?bs = "map denied_block denied @ map2 (result_block env) reqs results"
  have all: "\<forall>b \<in> set ?bs. is_ToolResultBlock b \<and> \<not> is_ToolUseBlock b" by auto
  then have f: "filter is_ToolUseBlock ?bs = []" "filter is_ToolResultBlock ?bs = ?bs"
    by (auto simp: filter_empty_conv simp del: set_append intro!: filter_True)
  show "tool_use_ids (recorded env RoleUser (Blocks ?bs) [] uid) = []" by (simp only: recorded_sel f list.map)
  have "map tr_tool_use_id (map2 (result_block env) reqs results) = map tc_id reqs"
    using assms by (induction reqs results rule: list_induct2') simp_all
  then show "tool_result_ids (recorded env RoleUser (Blocks ?bs) [] uid) = map (\<lambda>d. tc_id (fst d)) denied @ map tc_id reqs"
    by (simp only: recorded_sel f map_append map_map) (simp add: comp_def)
qed

lemma answer_closes:
  assumes "open_call tr hs a st" and "length results = length reqs"
    and "mset (map tc_id reqs @ map (\<lambda>d. tc_id (fst d)) denied) = mset (tool_use_ids a)"
  shows "loop_ok tr (record_copy env (Blocks (map denied_block denied @ map2 (result_block env) reqs results)) st)"
proof -
  let ?bs = "map denied_block denied @ map2 (result_block env) reqs results"
  let ?r = "recorded env RoleUser (Blocks ?bs) [] (lp_next_object st)"
  have u: "tool_use_ids ?r = []" and v: "tool_result_ids ?r = map (\<lambda>d. tc_id (fst d)) denied @ map tc_id reqs"
    by (rule results_message [OF assms(2)])+
  have "exchange a ?r"
    unfolding exchange_def u v using assms(1,3) by (simp add: open_call_def ac_simps)
  moreover have "visible ?r" by (rule recorded_visible) (simp add: visible_metadata_def)
  ultimately have "sound_history [a, ?r]" using assms(1) by (simp add: sound_history_def paired_exchange open_call_def del: paired.simps)
  then have "sound_history (hs @ [a, ?r])" using assms(1) by (intro sound_append) (simp_all add: open_call_def)
  then show ?thesis using assms(1) by (simp add: loop_ok_def history_copy open_call_def)
qed

lemma commit_ordinary: "ordinary_result env r \<Longrightarrow> ordinary_result env (commit_result b r)"
  by (simp add: ordinary_result_def commit_result_def superseded_result_def)

lemma report_results_ok:
  assumes "cooperative env" and "open_call tr hs a st" and "length results = length reqs" and "list_all (ordinary_result env) results"
    and "mset (map tc_id reqs @ map (\<lambda>d. tc_id (fst d)) denied) = mset (tool_use_ids a)"
    and "report_results env turn denied reqs results st = (out, st')"
  shows "loop_ok tr st' \<and> (out = Break \<or> out = Continue 0)"
proof -
  let ?committed = "map (commit_result (lp_pending_injections st \<noteq> [])) results"
  let ?st1 = "if list_ex is_terminal_step_result ?committed then close_input st else st"
  let ?st2 = "record_copy env (Blocks (map denied_block denied @ map2 (result_block env) reqs ?committed)) ?st1"
  have "loop_ok tr ?st2" using assms(2,3,5) by (intro answer_closes) auto
  moreover have "list_all (\<lambda>d. ordinary (snd (raw_message env d))) (concat (map res_new_messages ?committed))"
    using assms(4) commit_ordinary by (fastforce simp: list_all_iff ordinary_result_def)
  ultimately have "loop_ok tr (record_raw env (concat (map res_new_messages ?committed)) ?st2)" by (rule loop_ok_raw)
  then show ?thesis
    using assms(1,6) by (auto simp: report_results_def Let_def loop_ok_submit split: if_splits)
qed

lemma truncate_id [simp]: "tc_id (ToolCallRequest.truncate r) = tc_id r"
  by (simp add: ToolCallRequest.truncate_def)

lemma execute_tools_ok:
  assumes "cooperative env" and "open_call tr hs a st" and "distinct (map tc_id reqs)"
    and "mset (map tc_id reqs @ map (\<lambda>d. tc_id (fst d)) denied) = mset (tool_use_ids a)"
    and "execute_tools env turn denied reqs st = (out, st')"
  shows "loop_ok tr st' \<and> (out = Break \<or> out = Continue 0)"
proof -
  obtain k where k: "fair k (le_scheduler env)" using assms(1) by (auto simp: cooperative_def)
  let ?reg = "map (\<lambda>(n, t). (n, at_exec t)) (ae_tools (le_agent env))" and ?calls = "map ToolCallRequest.truncate reqs"
  have "distinct (map tc_id ?calls)" using assms(3) by (simp add: comp_def)
  from execute_batch_all [where P = "ordinary_result env" and w = "lp_world st", OF this k validate_and_execute_ordinary [OF assms(1)]]
  obtain results w where b: "execute_batch (le_attach env) (le_tool_timeout env) ?reg (le_scheduler env) ?calls (lp_world st) = (Inr results, w)"
    and len': "length results = length ?calls" and ord: "list_all (ordinary_result env) results" by blast
  have len: "length results = length reqs" using len' by simp
  let ?st1 = "user_types env turn While_Executing (st\<lparr>lp_world := fold (release_settled (le_agent env)) reqs w\<rparr>)"
  have "report_results env turn denied reqs results ?st1 = (out, st')" using assms(5) by (simp add: execute_tools_def b)
  moreover have "open_call tr hs a ?st1" using assms(1,2) by simp
  ultimately show ?thesis using report_results_ok [OF assms(1) _ len ord assms(4)] by blast
qed

lemma phase_loop_frame:
  "phase_loop env errs fr uses i reqs ph = (Some fr', ph') \<Longrightarrow> cf_ordered_ids fr' = cf_ordered_ids fr"
proof (induction reqs arbitrary: i ph)
  case (Cons req reqs)
  obtain stop ph1 where s: "phase_step env errs fr uses i req ph = (stop, ph1)" by fastforce
  show ?case
  proof (cases stop)
    case None
    then show ?thesis using Cons s by simp
  next
    case (Some fr1)
    then have "cf_ordered_ids fr1 = cf_ordered_ids fr"
      using s by (auto simp: phase_step_def boundary_frame_def Let_def split: option.splits prod.splits if_splits)
    then show ?thesis using Cons.prems s Some by simp
  qed
qed simp

lemma permission_phase_frame:
  "permission_phase env errs ref dig uses w = (Some fr, ph) \<Longrightarrow> cf_ordered_ids fr = map tu_id uses"
  unfolding permission_phase_def Let_def by (drule phase_loop_frame) (simp add: comp_def)

definition settled_or_suspended :: "Message list \<times> bool \<Rightarrow> turn_outcome \<Rightarrow> ('u, 'c) loop_state \<Rightarrow> bool" where
  \<comment> \<open>the round closed its calls, or waits for the answer to a prompt with nothing after the message that made the calls\<close>
  "settled_or_suspended tr out st \<longleftrightarrow>
     (case out of
        Raise e \<Rightarrow> (\<exists>fr hs a. e = Permission_Suspended fr \<and> history st = hs @ [a] \<and> tool_use_ids a = cf_ordered_ids fr
          \<and> sound_history hs \<and> tracked tr st)
      | _ \<Rightarrow> loop_ok tr st)"

lemma call_tools_ok:
  assumes "cooperative env" and "open_call tr hs a st" and "wf_pending tn" and "tool_use_ids a = map pu_id (completed_tools tn)"
    and "call_tools env turn tn st = (out, st')"
  shows "settled_or_suspended tr out st'"
proof -
  let ?uses = "map tool_use_block (completed_tools tn)" and ?digest = "ae_message_digest (le_agent env) (assistant_blocks tn)"
  obtain stop ph where p: "permission_phase (le_agent env) (input_errors_of tn)
      (assistant_message_ref env ?digest (map tu_id ?uses) st) ?digest ?uses (lp_world st) = (stop, ph)" by fastforce
  have ids: "map tu_id ?uses = tool_use_ids a" using assms(4) by (simp add: comp_def tool_use_block_def)
  let ?st2 = "user_types env turn While_Asking (emit (map denied_event (ph_denied ph)) (st\<lparr>lp_world := ph_world ph\<rparr>))"
  have run: "(out, st') = (case stop of Some fr \<Rightarrow> (Raise (Permission_Suspended fr), st\<lparr>lp_world := ph_world ph\<rparr>)
     | None \<Rightarrow> if ph_allowed ph = [] then answer_denied env turn (ph_denied ph) ?st2
               else execute_tools env turn (ph_denied ph) (ph_allowed ph) ?st2)"
    using assms(5) unfolding call_tools_def Let_def p by (simp split: option.splits)
  show ?thesis
  proof (cases stop)
    case (Some fr)
    then show ?thesis
      using run assms(2) permission_phase_frame [of "le_agent env"] p ids by (auto simp: settled_or_suspended_def open_call_def)
  next
    case None
    have bal: "mset (map tc_id (ph_allowed ph) @ map (\<lambda>d. tc_id (fst d)) (ph_denied ph)) = mset (tool_use_ids a)"
      using permission_phase_sound(4) [OF p None] unfolding ids .
    have op: "open_call tr hs a ?st2" using assms(1,2) by simp
    show ?thesis
    proof (cases "ph_allowed ph = []")
      case True
      then have d: "mset (map tc_id [] @ map (\<lambda>d. tc_id (fst d)) (ph_denied ph)) = mset (tool_use_ids a)" using bal by simp
      then have "ph_denied ph \<noteq> []" using assms(2) by (auto simp: open_call_def)
      then show ?thesis
        using run None True answer_closes [OF op _ d, of "[]" env]
        by (simp add: answer_denied_def settled_or_suspended_def loop_ok_submit)
    next
      case False
      have "distinct (map tc_id (ph_allowed ph) @ map (\<lambda>d. tc_id (fst d)) (ph_denied ph))"
        using completed_distinct [OF assms(3)] assms(4) bal by (metis mset_eq_imp_distinct_iff)
      then have dis: "distinct (map tc_id (ph_allowed ph))" by simp
      have "execute_tools env turn (ph_denied ph) (ph_allowed ph) ?st2 = (out, st')" using run None False by simp
      from execute_tools_ok [OF assms(1) op dis bal this] show ?thesis by (auto simp: settled_or_suspended_def)
    qed
  qed
qed

lemma record_assistant_history:
  "history (record_assistant env turn tn st)
     = history st @ (if assistant_blocks tn \<noteq> [] \<or> turn_metadata tn \<noteq> []
         then [recorded env RoleAssistant (Blocks (assistant_blocks tn)) (turn_metadata tn) (lp_next_object st)] else [])"
  by (simp add: record_assistant_def Let_def record_message_def recorded_def)

lemma record_assistant_sel [simp]:
  "lp_pending_injections (record_assistant env turn tn st) = lp_pending_injections st"
  "lp_world (record_assistant env turn tn st) = lp_world st"
  "cm_config (lp_context (record_assistant env turn tn st)) = cm_config (lp_context st)"
  by (simp_all add: record_assistant_def Let_def)

lemma tracked_assistant [simp]: "tracked tr st \<Longrightarrow> tracked tr (record_assistant env turn tn st)"
  by (simp add: record_assistant_def Let_def)

lemma turn_metadata_visible: "visible_metadata (tn_provider_metadata tn) \<Longrightarrow> visible_metadata (turn_metadata tn)"
  by (simp add: turn_metadata_def visible_metadata_def)

lemma record_assistant_ok:
  assumes "loop_ok tr st" and "visible_metadata (tn_provider_metadata tn)" and "completed_tools tn = []"
  shows "loop_ok tr (record_assistant env turn tn st)"
proof -
  let ?m = "recorded env RoleAssistant (Blocks (assistant_blocks tn)) (turn_metadata tn) (lp_next_object st)"
  have "plain ?m" using assistant_uses [of tn] assms(3) by (simp add: plain_def)
  moreover have "visible ?m" using assms(2) by (intro recorded_visible turn_metadata_visible)
  ultimately have "sound_history [?m]" by (intro sound_plain) simp
  then show ?thesis using assms(1) by (simp add: loop_ok_def record_assistant_history sound_append)
qed

lemma record_assistant_open:
  assumes "loop_ok tr st" and "visible_metadata (tn_provider_metadata tn)" and "completed_tools tn \<noteq> []"
  shows "open_call tr (history st) (recorded env RoleAssistant (Blocks (assistant_blocks tn)) (turn_metadata tn) (lp_next_object st))
    (record_assistant env turn tn st)"
proof -
  have ne: "assistant_blocks tn \<noteq> []" using assms(3) by (simp add: assistant_blocks_def)
  have "map pu_id (completed_tools tn) \<noteq> []" using assms(3) by simp
  then show ?thesis
    using assms(1,2) ne assistant_uses [of tn]
    by (simp add: open_call_def loop_ok_def record_assistant_history recorded_visible turn_metadata_visible)
qed

lemma handle_response_ok:
  assumes "cooperative env" and "loop_ok tr st" and "wf_pending tn" and "visible_metadata (tn_provider_metadata tn)"
    and "handle_response env turn conts tn st = (out, st')"
  shows "settled_or_suspended tr out st'"
proof (cases "tn_ended tn \<and> tn_stop_reason tn \<noteq> ''max_tokens'' \<and> completed_tools tn \<noteq> []")
  case True
  let ?a = "recorded env RoleAssistant (Blocks (assistant_blocks tn)) (turn_metadata tn) (lp_next_object st)"
  have "call_tools env turn tn (record_assistant env turn tn st) = (out, st')"
    using assms(5) True by (simp add: handle_response_def Let_def)
  moreover have "tool_use_ids ?a = map pu_id (completed_tools tn)" using assistant_uses [of tn] by simp
  ultimately show ?thesis
    using call_tools_ok [OF assms(1) record_assistant_open [OF assms(2,4)] assms(3)] True by blast
next
  case False
  have tool_free: "completed_tools tn = []" if "tn_pending tn = []" using that by (simp add: completed_tools_def)
  have "ordinary (TextContent t, [(''type'', PyStr OUTPUT_LIMIT_CONTINUATION_METADATA_TYPE)])" for t
    by (simp add: ordinary_def no_tool_blocks_def visible_metadata_def OUTPUT_LIMIT_CONTINUATION_METADATA_TYPE_def
        CLEANUP_PROMPT_METADATA_TYPE_def HANDOFF_METADATA_TYPE_def)
  then show ?thesis
    using assms(2,4,5) False tool_free record_assistant_ok [of tr st tn env turn]
    by (auto simp: handle_response_def truncated_tools_def truncated_text_def output_limit_stop_def Let_def settled_or_suspended_def
        intro!: loop_ok_record split: if_splits)
qed

lemma run_turn_ok:
  assumes "cooperative env" and "loop_ok tr st" and "run_turn env turn conts st = (out, st')"
  shows "settled_or_suspended tr out st'"
proof -
  let ?st1 = "compact_if_needed env (drain_pending_injections env (st\<lparr>lp_accepting := more_turns env turn\<rparr>))"
  obtain es st2 where s: "stream_provider env turn ?st1 = (es, st2)" by fastforce
  have "loop_ok tr ?st1"
    using assms(2) by (simp add: compact_if_needed_def loop_ok_compact loop_ok_drain)
  then have ok: "loop_ok tr st2" "visible_ends es" using stream_provider_ok [OF assms(1), of tr ?st1 turn] s by simp_all
  have "handle_response env turn conts (collect es) st2 = (out, st')" using assms(3) by (simp add: run_turn_def Let_def s)
  then show ?thesis using handle_response_ok [OF assms(1) ok(1)] collect_ok [OF ok(2)] by blast
qed

lemma run_turns_ok:
  assumes "cooperative env" and "loop_ok tr st" and "run_turns env turns conts st = (e, st')"
  shows "settled_or_suspended tr (case e of None \<Rightarrow> Break | Some x \<Rightarrow> Raise x) st'"
  using assms(2,3)
proof (induction turns arbitrary: conts st)
  case Nil
  then show ?case by (auto simp: settled_or_suspended_def)
next
  case (Cons turn turns)
  obtain out st1 where r: "run_turn env turn conts st = (out, st1)" by fastforce
  note ok = run_turn_ok [OF assms(1) Cons.prems(1) r]
  show ?case
  proof (cases out)
    case (Continue n)
    then have "loop_ok tr st1" using ok by (simp add: settled_or_suspended_def)
    then show ?thesis using Cons.IH [of st1 n] Cons.prems(2) Continue r by simp
  next
    case Break
    then show ?thesis using ok Cons.prems(2) r by auto
  next
    case (Raise x)
    then show ?thesis using ok Cons.prems(2) r by auto
  qed
qed

subsection \<open>After a resume\<close>

lemma cooperative_no_queue: "cooperative env \<Longrightarrow> cooperative (env\<lparr>le_queued_inputs := q\<rparr>)"
proof -
  have "raw_message (env\<lparr>le_queued_inputs := q\<rparr>) = raw_message env"
    by (rule ext) (simp add: raw_message_def split: option.split pyval.split)
  then have "ordinary_result (env\<lparr>le_queued_inputs := q\<rparr>) = ordinary_result env" by (simp add: ordinary_result_def fun_eq_iff)
  then show "cooperative env \<Longrightarrow> cooperative (env\<lparr>le_queued_inputs := q\<rparr>)" by (simp add: cooperative_def ordinary_tool_def)
qed

lemma continue_streaming_ok:
  assumes "cooperative env" and "loop_ok tr st" and "continue_streaming env st = (e, st')"
  shows "settled_or_suspended tr (case e of None \<Rightarrow> Break | Some x \<Rightarrow> Raise x) st'"
proof -
  obtain st1 where r: "run_turns (env\<lparr>le_queued_inputs := (\<lambda>_ _. [])\<rparr>) [0..<le_max_turns env] 0 st = (e, st1)"
    and st': "st' = (close_input st1)\<lparr>lp_world := cancel_owned_contract_snapshots (le_agent env) (lp_world (close_input st1))\<rparr>"
    using assms(3) by (auto simp: continue_streaming_def Let_def split: prod.splits)
  from run_turns_ok [OF cooperative_no_queue [OF assms(1)] assms(2) r] show ?thesis
    by (cases e) (auto simp: st' settled_or_suspended_def)
qed

lemma executed_lookup:
  assumes "length results = length allowed"
  shows "map_of (fold (\<lambda>(r, x). dict_set (tc_id r) (f r x)) (zip allowed results) acc) k = None
       \<longleftrightarrow> map_of acc k = None \<and> k \<notin> tc_id ` set allowed"
  using assms by (induction allowed results arbitrary: acc rule: list_induct2') auto

lemma executed_in:
  "map_of (fold (\<lambda>(r, x). dict_set (tc_id r) (f r x)) (zip allowed results) acc) k = Some y
     \<Longrightarrow> map_of acc k = Some y \<or> (\<exists>r. \<exists>x \<in> set results. y = f r x)"
proof (induction allowed results arbitrary: acc rule: list_induct2')
  case (4 r allowed x results)
  have "map_of (dict_set (tc_id r) (f r x) acc) k = Some y \<or> (\<exists>r. \<exists>x \<in> set results. y = f r x)"
    using 4(2) by (intro 4(1)) simp
  then show ?case by (auto split: if_splits)
qed simp_all

lemma processed_messages [simp]: "res_new_messages (processed env req r) = res_new_messages r"
  by (simp add: processed_def split: prod.splits)

lemma record_raw_history:
  "list_all (\<lambda>d. ordinary (snd (raw_message env d))) ds \<Longrightarrow>
   \<exists>ms. history (record_raw env ds st) = history st @ ms \<and> list_all plain ms"
proof (induction env ds st rule: record_raw.induct)
  case (2 env d ds st)
  obtain r c md where raw: "raw_message env d = (r, c, md)" by (rule prod_cases3)
  then obtain ms where ms: "history (record_raw env ds (record_message env r c md st)) = history (record_message env r c md st) @ ms"
      "list_all plain ms"
    using 2 by fastforce
  have "plain (recorded env r c md (lp_next_object st))"
    using 2(2) raw by (intro recorded_plain) (simp add: ordinary_def)
  then show ?case using ms raw by (intro exI [of _ "recorded env r c md (lp_next_object st) # ms"]) (simp add: history_record)
qed simp

definition closed_and_continued :: "('u, 'c, 'p) loop_env \<Rightarrow> Message list \<Rightarrow> Message \<Rightarrow> ('u, 'c) loop_state
    \<Rightarrow> loop_error option \<Rightarrow> ('u, 'c) loop_state \<Rightarrow> bool" where
  \<comment> \<open>the calls of \<open>a\<close> got their results in order, before the loop went on\<close>
  "closed_and_continued env hs a st e st' \<longleftrightarrow>
     (\<exists>r added st1. history st1 = hs @ [a, r] @ added \<and> ms_role r = RoleUser \<and> tool_use_ids r = []
        \<and> tool_result_ids r = tool_use_ids a \<and> list_all plain added
        \<and> lp_model_request_count st1 = lp_model_request_count st \<and> loop_ok (history st1, False) st1
        \<and> continue_streaming env st1 = (e, st'))"

lemma report_resumed_ok:
  assumes "cooperative env" and "open_call tr hs a st" and "map tc_id requests = tool_use_ids a"
    and "length results = length allowed" and "list_all (ordinary_result env) results"
    and "set (map tc_id requests) \<subseteq> fst ` set denied \<union> tc_id ` set allowed"
    and "report_resumed env requests denied allowed results st = (e, st')"
  shows "closed_and_continued env hs a st e st'"
proof -
  let ?done = "fold (\<lambda>(r, x). dict_set (tc_id r) (processed env r x)) (zip allowed results) []"
  let ?blocks = "map (resumed_block denied ?done) requests"
  have found: "resumed_block denied ?done r \<noteq> None" if "r \<in> set requests" for r
  proof (cases "map_of denied (tc_id r)")
    case None
    then have "tc_id r \<notin> fst ` set denied" by (simp add: map_of_eq_None_iff)
    then have "tc_id r \<in> tc_id ` set allowed" using assms(6) that by auto
    then show ?thesis using executed_lookup [OF assms(4), of "processed env" "[]" "tc_id r"] None by (simp add: resumed_block_def)
  qed (simp add: resumed_block_def)
  have block: "is_ToolResultBlock (the (resumed_block denied ?done r)) \<and> \<not> is_ToolUseBlock (the (resumed_block denied ?done r))
      \<and> tr_tool_use_id (the (resumed_block denied ?done r)) = tc_id r" if "r \<in> set requests" for r
    using found [OF that] by (auto simp: resumed_block_def split: option.splits)
  let ?bs = "map (\<lambda>r. the (resumed_block denied ?done r)) requests"
  let ?m = "recorded env RoleUser (Blocks ?bs) [] (lp_next_object st)"
  have f: "filter is_ToolUseBlock ?bs = []" "filter is_ToolResultBlock ?bs = ?bs"
    using block by (auto simp: filter_empty_conv intro!: filter_True)
  have "map tr_tool_use_id ?bs = map tc_id requests" using block by simp
  then have results: "tool_result_ids ?m = tool_use_ids a" and uses: "tool_use_ids ?m = []" and role: "ms_role ?m = RoleUser"
    using assms(3) f by (simp_all add: comp_def)
  then have "exchange a ?m" using assms(2) by (simp add: exchange_def open_call_def)
  moreover have "visible ?m" by (rule recorded_visible) (simp add: visible_metadata_def)
  ultimately have "sound_history [a, ?m]" using assms(2) by (simp add: sound_history_def paired_exchange open_call_def del: paired.simps)
  then have "sound_history (hs @ [a, ?m])" using assms(2) by (intro sound_append) (simp_all add: open_call_def)
  then have ok: "loop_ok tr (record_copy env (Blocks ?bs) (emit es st))" for es
    using assms(2) by (simp add: loop_ok_def history_copy open_call_def)
  let ?added = "concat (map (\<lambda>r. case map_of ?done (tc_id r) of None \<Rightarrow> [] | Some x \<Rightarrow> res_new_messages x) requests)"
  have "ordinary_result env x" if "map_of ?done k = Some x" for k x
    using executed_in [of "processed env" allowed results "[]" k x] that assms(5) by (auto simp: list_all_iff ordinary_result_def)
  then have "list_all (\<lambda>d. ordinary (snd (raw_message env d))) (case map_of ?done k of None \<Rightarrow> [] | Some x \<Rightarrow> res_new_messages x)" for k
    by (simp add: ordinary_result_def split: option.split)
  then have plain: "list_all (\<lambda>d. ordinary (snd (raw_message env d))) ?added" by (simp add: list_all_iff)
  let ?st0 = "record_copy env (Blocks ?bs) (emit (map2 (result_event env) allowed results) st)"
  let ?st1 = "record_raw env ?added ?st0"
  have "loop_ok tr ?st1" using ok plain by (intro loop_ok_raw)
  then have ok1: "loop_ok (history ?st1, False) ?st1" by (simp add: loop_ok_def tracked_def)
  obtain ms where ms: "history ?st1 = history ?st0 @ ms" "list_all plain ms" using record_raw_history [OF plain] by blast
  have "\<forall>b \<in> set ?blocks. b \<noteq> None" unfolding set_map using found by (simp only: ball_simps) blast
  then have "None \<notin> set ?blocks" by blast
  then have "continue_streaming env ?st1 = (e, st')" using assms(7) by (simp add: report_resumed_def Let_def comp_def)
  moreover have "history ?st1 = hs @ [a, ?m] @ ms" using ms(1) assms(2) by (simp add: history_copy open_call_def)
  ultimately show ?thesis
    unfolding closed_and_continued_def using results uses role ms(2) ok1
    by (intro exI [of _ ?m] exI [of _ ms] exI [of _ ?st1]) simp
qed

lemma resume_loop_allowed:
  assumes "resume_loop env ck decision fr uses i reqs rs = Going rs'"
    and "\<And>j. i \<le> j \<Longrightarrow> rs_decisions rs ! j = cf_decisions fr ! j"
  shows "\<exists>A. rs_allowed rs' = rs_allowed rs @ A \<and> set (map tc_id A) \<subseteq> set (map tc_id reqs)
    \<and> (distinct (map tc_id reqs) \<longrightarrow> distinct (map tc_id A))"
  using assms
proof (induction reqs arbitrary: i rs)
  case (Cons req reqs)
  obtain rs1 where st: "resume_step env ck decision fr uses i req rs = Going rs1"
    and l: "resume_loop env ck decision fr uses (Suc i) reqs rs1 = Going rs'"
    using Cons.prems(1) by (auto split: resumed.splits)
  have d: "rs_decisions rs ! i = cf_decisions fr ! i" using Cons.prems(2) by simp
  have "rs_decisions rs1 ! j = cf_decisions fr ! j" if "Suc i \<le> j" for j
    using resume_step_one(2) [OF st d, of j] Cons.prems(2) [of j] that by simp
  from Cons.IH [OF l this] obtain A where A: "rs_allowed rs' = rs_allowed rs1 @ A" "set (map tc_id A) \<subseteq> set (map tc_id reqs)"
    "distinct (map tc_id reqs) \<longrightarrow> distinct (map tc_id A)" by auto
  from resume_step_one(1) [OF st d] show ?case
  proof (elim disjE exE conjE)
    fix r assume "tc_id r = tc_id req" "rs_allowed rs1 = rs_allowed rs @ [r]"
    then show ?thesis using A by (intro exI [of _ "r # A"]) auto
  next
    fix e assume "rs_allowed rs1 = rs_allowed rs"
    then show ?thesis using A by (intro exI [of _ A]) auto
  qed
qed simp

lemma resume_current_waiting: "resume_current env ck decision fr req perm d w = Waiting fr' \<Longrightarrow> fr' = fr"
  by (auto simp: resume_current_def answer_current_def resume_invalid_def Let_def split: if_splits option.splits prod.splits)

lemma resume_later_waiting: "resume_later env fr uses i req perm ds w = Waiting fr' \<Longrightarrow> cf_ordered_ids fr' = cf_ordered_ids fr"
  by (auto simp: resume_later_def boundary_frame_def Let_def split: if_splits option.splits prod.splits)

lemma settle_not_waiting: "settle_recovered env i req v rs \<noteq> Waiting fr"
  by (simp add: settle_recovered_def resume_invalid_def Let_def split: decision_state.splits)

lemma resume_step_waiting:
  assumes "resume_step env ck decision fr uses i req rs = Waiting fr'"
  shows "cf_ordered_ids fr' = cf_ordered_ids fr"
proof -
  obtain perm req1 w1 where c: "check_recovered env req (rs_world rs) = (perm, req1, w1)" using prod_cases3 by blast
  show ?thesis
    using assms by (auto simp: resume_step_def c Let_def settle_not_waiting dest: resume_current_waiting resume_later_waiting split: if_splits resumed.splits)
qed

lemma resume_loop_waiting:
  "resume_loop env ck decision fr uses i reqs rs = Waiting fr' \<Longrightarrow> cf_ordered_ids fr' = cf_ordered_ids fr"
proof (induction reqs arbitrary: i rs)
  case (Cons req reqs)
  then show ?case using resume_step_waiting [of env ck decision fr uses i req rs] by (auto split: resumed.splits)
qed simp

lemma resume_waiting_ids:
  assumes "resume_permission_boundary env tid ck ms w = Waiting fr'"
  shows "cf_ordered_ids fr' = map tu_id (get_tool_use_blocks (last ms))"
proof -
  obtain fr decision where fd: "ck_frame ck = Some fr" "ck_decision ck = Some decision"
    using assms by (auto simp: resume_permission_boundary_def resume_invalid_def split: option.splits)
  then have "map tu_id (get_tool_use_blocks (last ms)) = cf_ordered_ids fr"
    and "resume_batch env ck decision fr (get_tool_use_blocks (last ms)) w = Waiting fr'"
    using assms by (simp_all add: resume_permission_boundary_def resume_invalid_def Let_def split: if_splits)
  then show ?thesis by (auto simp: resume_batch_def resume_invalid_def dest: resume_loop_waiting split: if_splits)
qed

lemma run_recovered_ok:
  assumes "cooperative env" and "open_call tr hs a st" and "distinct (tool_use_ids a)"
    and "resume_permission_boundary (le_agent env) (le_transcript_id env) ck (history st) (lp_world st) = Going rs"
    and "run_recovered env (get_tool_use_blocks (last (history st))) rs st = (e, st')"
  shows "closed_and_continued env hs a st e st'"
proof -
  let ?uses = "get_tool_use_blocks (last (history st))" and ?env = "le_agent env"
  let ?reqs = "map (make_request ?env) ?uses"
  have ids: "map tc_id ?reqs = tool_use_ids a"
    using assms(2) by (simp add: open_call_def get_tool_use_blocks_def tool_use_ids_def comp_def)
  obtain fr decision where fd: "ck_frame ck = Some fr" "ck_decision ck = Some decision"
    using assms(4) by (auto simp: resume_permission_boundary_def resume_invalid_def split: option.splits)
  then have "resume_batch ?env ck decision fr ?uses (lp_world st) = Going rs"
    using assms(4) by (simp add: resume_permission_boundary_def resume_invalid_def Let_def split: if_splits)
  then have l: "resume_loop ?env ck decision fr ?uses 0 ?reqs
      \<lparr>rs_allowed = [], rs_denied = [], rs_decisions = cf_decisions fr, rs_world = lp_world st\<rparr> = Going rs"
    by (simp add: resume_batch_def resume_invalid_def split: if_splits)
  have cover: "tc_id ` set (rs_allowed rs) \<union> fst ` set (rs_denied rs) = tc_id ` set ?reqs"
    using resume_loop_sound [OF l] by auto
  have dist: "distinct (map tc_id (rs_allowed rs))"
    using resume_loop_allowed [OF l] ids assms(3) by auto
  have sub: "set (map tc_id ?reqs) \<subseteq> fst ` set (rs_denied rs) \<union> tc_id ` set (rs_allowed rs)"
    unfolding set_map [of tc_id ?reqs] cover [symmetric] by blast
  have op: "open_call tr hs a (emit es (st\<lparr>lp_world := w\<rparr>))" "open_call tr hs a ((emit es (st\<lparr>lp_world := w\<rparr>))\<lparr>lp_world := w'\<rparr>)" for es w w'
    using assms(2) by simp_all
  have count: "closed_and_continued env hs a st1 e st' \<Longrightarrow> lp_model_request_count st1 = lp_model_request_count st
      \<Longrightarrow> closed_and_continued env hs a st e st'" for st1 :: "('a, 'b) loop_state"
    by (simp add: closed_and_continued_def)
  note report = report_resumed_ok [OF assms(1) _ ids _ _ sub]
  show ?thesis
  proof (cases "rs_allowed rs = []")
    case True
    then show ?thesis using assms(5) by (intro count [OF report [OF op(1), of "[]"]]) (simp_all add: run_recovered_def Let_def)
  next
    case False
    obtain k where k: "fair k (le_scheduler env)" using assms(1) by (auto simp: cooperative_def)
    have "distinct (map tc_id (map ToolCallRequest.truncate (rs_allowed rs)))" using dist by (simp add: comp_def)
    from execute_batch_all [where P = "ordinary_result env" and w = "rs_world rs", OF this k validate_and_execute_ordinary [OF assms(1)]]
    obtain results w where b: "execute_batch (le_attach env) (le_tool_timeout env) (map (\<lambda>(n, t). (n, at_exec t)) (ae_tools ?env))
        (le_scheduler env) (map ToolCallRequest.truncate (rs_allowed rs)) (rs_world rs) = (Inr results, w)"
      and len': "length results = length (map ToolCallRequest.truncate (rs_allowed rs))" and ord: "list_all (ordinary_result env) results" by blast
    have len: "length results = length (rs_allowed rs)" using len' by simp
    show ?thesis using assms(5) False by (intro count [OF report [OF op(2) len ord]]) (simp_all add: run_recovered_def Let_def b)
  qed
qed

section \<open>Properties of the loop\<close>

text \<open>
  C6: The history that the loop hands to the model stays paired. Take a conversation that is paired and has no hidden messages
  (cleanup prompts and pipeline handoffs: with these a compaction can separate a call from its result, since it inserts
  its marker at an index of the folded context), a compaction that preserves at least one recent turn, a scheduler that
  finishes every batch, and users, tools and response metadata that do not themselves forge tool blocks or hidden
  messages. When a run ends, every message with tool calls is followed at once by the results of exactly these calls,
  whatever the model answers, whichever calls are denied, fail or time out, whenever the context is compacted and whatever is
  typed meanwhile. The only other way out is a prompt that suspends the run; then the message with the pending calls is the
  last one, and the continuation frame lists its calls in order.
\<close>

theorem history_stays_paired:
  assumes "cooperative env" and "sound_history (history st)" and "0 < cc_preserve_recent_turns (cm_config (lp_context st))"
    and "list_all ordinary (lp_pending_injections st)" and "no_tool_blocks user_input"
    and "run_streaming env user_input st = (e, st')"
  shows "(e = None \<longrightarrow> paired (history st'))
    \<and> (e \<noteq> None \<longrightarrow> (\<exists>fr hs a. e = Some (Permission_Suspended fr) \<and> history st' = hs @ [a] \<and> paired hs
         \<and> tool_use_ids a = cf_ordered_ids fr))"
proof -
  have "loop_ok ([], False) st" using assms(2-4) by (simp add: loop_ok_def tracked_def)
  then have "loop_ok ([], False) (record_copy env user_input st)" using assms(5) by (intro loop_ok_copy)
  moreover obtain st1 where r: "run_turns env [0..<le_max_turns env] 0 (record_copy env user_input st) = (e, st1)"
    and h: "history st' = history st1"
    using assms(6) by (auto simp: run_streaming_def Let_def split: prod.splits)
  ultimately have "settled_or_suspended ([], False) (case e of None \<Rightarrow> Break | Some x \<Rightarrow> Raise x) st1"
    using run_turns_ok [OF assms(1)] by blast
  then show ?thesis by (cases e) (auto simp: settled_or_suspended_def loop_ok_def sound_history_def h)
qed

text \<open>
  C15: A run that was suspended at a prompt is taken up again without breaking the conversation. Let the history end with
  the message a whose calls (with distinct ids) wait for their results, and otherwise be paired and without hidden messages,
  in surroundings as in the property on paired histories. If the checkpoint is refused, the history is as it was; if
  the run stops at a further prompt of the same message, too, and its frame lists the calls of a. Otherwise, before the
  model is asked again, the history is the old one with a as it was, then one message with exactly one result per call of a,
  in the order of the calls, and the ordinary messages the tools added. From there the loop goes on; all of these messages
  stay in the history, in their order, and it is paired at the end, or up to the message at which a later prompt suspends
  the run.
\<close>

theorem resumed_run_closes_calls:
  assumes "cooperative env" and "history st = hs @ [a]" and "sound_history hs" and "visible a" and "ms_role a = RoleAssistant"
    and "tool_use_ids a \<noteq> []" and "tool_result_ids a = []" and "distinct (tool_use_ids a)"
    and "0 < cc_preserve_recent_turns (cm_config (lp_context st))" and "list_all ordinary (lp_pending_injections st)"
    and "resume_run env ck st = (e, st')"
  shows "(\<exists>x. e = Some (Loop_Error x) \<and> history st' = history st)
    \<or> (\<exists>fr. e = Some (Permission_Suspended fr) \<and> history st' = history st \<and> cf_ordered_ids fr = tool_use_ids a)
    \<or> (\<exists>r added st1. history st1 = hs @ [a, r] @ added \<and> ms_role r = RoleUser \<and> tool_use_ids r = []
         \<and> tool_result_ids r = tool_use_ids a \<and> list_all plain added
         \<and> lp_model_request_count st1 = lp_model_request_count st \<and> continue_streaming env st1 = (e, st')
         \<and> subseq (history st1) (history st')
         \<and> (case e of
              None \<Rightarrow> paired (history st')
            | Some (Permission_Suspended fr) \<Rightarrow> \<exists>hs' b. history st' = hs' @ [b] \<and> paired hs' \<and> tool_use_ids b = cf_ordered_ids fr
            | Some (Loop_Error x) \<Rightarrow> False))"
proof (cases "resume_permission_boundary (le_agent env) (le_transcript_id env) ck (history st) (lp_world st)")
  case (Failed x)
  then show ?thesis using assms(11) by (auto simp: resume_run_def)
next
  case (Waiting fr)
  then have "cf_ordered_ids fr = tool_use_ids a"
    using assms(2) resume_waiting_ids [OF Waiting] by (simp add: get_tool_use_blocks_def tool_use_ids_def)
  then show ?thesis using assms(11) Waiting by (auto simp: resume_run_def)
next
  case (Going rs)
  have "open_call ([], False) hs a st" using assms(2-7,9,10) by (simp add: open_call_def tracked_def)
  moreover have "run_recovered env (get_tool_use_blocks (last (history st))) rs st = (e, st')"
    using assms(11) Going by (simp add: resume_run_def)
  ultimately have "closed_and_continued env hs a st e st'" using run_recovered_ok [OF assms(1) _ assms(8) Going] by blast
  then obtain r added st1 where st1: "history st1 = hs @ [a, r] @ added" "ms_role r = RoleUser" "tool_use_ids r = []"
      "tool_result_ids r = tool_use_ids a" "list_all plain added" "lp_model_request_count st1 = lp_model_request_count st"
      "loop_ok (history st1, False) st1" "continue_streaming env st1 = (e, st')"
    unfolding closed_and_continued_def by blast
  have "settled_or_suspended (history st1, False) (case e of None \<Rightarrow> Break | Some x \<Rightarrow> Raise x) st'"
    by (rule continue_streaming_ok [OF assms(1) st1(7,8)])
  then have "subseq (history st1) (history st') \<and> (case e of
              None \<Rightarrow> paired (history st')
            | Some (Permission_Suspended fr) \<Rightarrow> \<exists>hs' b. history st' = hs' @ [b] \<and> paired hs' \<and> tool_use_ids b = cf_ordered_ids fr
            | Some (Loop_Error x) \<Rightarrow> False)"
    by (cases e) (auto simp: settled_or_suspended_def loop_ok_def tracked_def sound_history_def)
  then show ?thesis using st1 by blast
qed

text \<open>
  C14: A response that was cut off by the output limit authorises nothing: no tool runs, whatever calls it seemed to
  contain, the world and the contracts stay as they are, no call or result enters the history, and the loop asks for the
  rest at most three times in a row before it stops with an error.
\<close>

theorem truncated_response_runs_nothing:
  assumes "tn_ended tn" and "tn_stop_reason tn = ''max_tokens''" and "handle_response env turn conts tn st = (out, st')"
  shows "lp_world st' = lp_world st
    \<and> (\<exists>ms. history st' = history st @ ms \<and> list_all plain ms)
    \<and> (out = Continue (Suc conts) \<and> conts < 3 \<or> out = Break \<and> last (lp_events st') = Output_Limit_Error)"
proof (cases "tn_pending tn \<noteq> [] \<or> tn_text tn = []")
  case True
  then show ?thesis
    using assms by (auto simp: handle_response_def truncated_tools_def output_limit_stop_def may_continue_def
        MAX_OUTPUT_LIMIT_CONTINUATIONS_def Let_def split: if_splits)
next
  case False
  then have none: "completed_tools tn = []" by (simp add: completed_tools_def)
  let ?st1 = "record_assistant env turn tn st"
  obtain ms where ms: "history ?st1 = history st @ ms" "list_all plain ms"
    using assistant_uses [of tn] none by (auto simp: record_assistant_history plain_def)
  have "plain (recorded env RoleUser (TextContent t) md i)" for t md i by (rule recorded_plain) (simp add: no_tool_blocks_def)
  then show ?thesis
    using assms False ms
    by (auto simp: handle_response_def truncated_text_def output_limit_stop_def may_continue_def
        MAX_OUTPUT_LIMIT_CONTINUATIONS_def history_record Let_def split: if_splits)
qed

text \<open>
  A run opens at most two streams per round (the second one after a compaction of a context that was too long), so at most twice
  the configured number of rounds; the requests for the summary of a compaction are not streams and come on top.
\<close>

theorem model_requests_bounded:
  "lp_model_request_count (snd (run_streaming env user_input st)) \<le> lp_model_request_count st + 2 * le_max_turns env"
  using run_turns_requests [of env "[0..<le_max_turns env]" 0 "record_copy env user_input st"]
  by (simp add: run_streaming_def Let_def case_prod_beta)

text \<open>
  C16: Input that the loop accepted while it was running is not forgotten. Take a paired conversation without hidden messages, in
  surroundings as in the property on paired histories, and a log of accepted input that starts with the input that waits.
  When a run of at least one round ends without an error of the stream or of the output limit, then nothing that was accepted
  is still waiting, every accepted input is in the history as a user message with its content and its metadata, in the order
  in which the inputs were accepted, and from then on input is refused.
\<close>

theorem accepted_input_consumed:
  assumes "cooperative env" and "sound_history (history st)" and "0 < cc_preserve_recent_turns (cm_config (lp_context st))"
    and "list_all ordinary (lp_pending_injections st)" and "no_tool_blocks user_input" and "lp_accepted st = lp_pending_injections st"
    and "run_streaming env user_input st = (None, st')" and "0 < le_max_turns env"
    and "Output_Limit_Error \<notin> set (lp_events st')" and "Message_End ''stream_error'' \<notin> set (lp_events st')"
  shows "lp_pending_injections st' = [] \<and> subseq (lp_accepted st') (inputs (history st'))
    \<and> \<not> fst (try_inject_user_message msg st')"
proof -
  obtain st1 where r: "run_turns env [0..<le_max_turns env] 0 (record_copy env user_input st) = (None, st1)"
    and s: "lp_pending_injections st' = lp_pending_injections st1" "lp_events st' = lp_events st1" "\<not> lp_accepting st'"
      "lp_accepted st' = lp_accepted st1" "history st' = history st1"
    using assms(7) by (auto simp: run_streaming_def Let_def split: prod.splits)
  have "loop_ok ([], True) st" using assms(2-4,6) by (simp add: loop_ok_def tracked_def)
  then have "loop_ok ([], True) (record_copy env user_input st)" using assms(5) by (intro loop_ok_copy)
  from run_turns_ok [OF assms(1) this r] have "tracked ([], True) st1" by (simp add: settled_or_suspended_def loop_ok_def)
  moreover have "lp_pending_injections st' = []" using run_turns_pending [OF r] assms(8-10) s by (auto simp: input_lost_def)
  ultimately show ?thesis using s by (auto simp: tracked_def try_inject_user_message_def)
qed

lemma stamp_first_objects: "stamp_first elapsed ms = Some ms' \<Longrightarrow> map ms_object ms' = map ms_object ms"
  by (induction ms arbitrary: ms') (auto split: if_splits)

lemma stamp_mirrored:
  assumes "mirrored st" and "allocated st"
  shows "mirrored (stamp_last_turn_elapsed elapsed st)" and "allocated (stamp_last_turn_elapsed elapsed st)"
proof -
  show "mirrored (stamp_last_turn_elapsed elapsed st)"
    using assms(1) by (auto simp: mirrored_def stamp_last_turn_elapsed_def same_message_refl intro: list.rel_refl split: option.splits)
  have "ms_object ` set ms = ms_object ` set (history st)" if "stamp_first elapsed (rev (history st)) = Some ms" for ms
    using arg_cong [where f = set, OF stamp_first_objects [OF that]] by simp
  then show "allocated (stamp_last_turn_elapsed elapsed st)"
    using assms(2) by (auto simp: allocated_def stamp_last_turn_elapsed_def image_iff split: option.splits) (metis image_iff)
qed

text \<open>
  C18: The transcript in the session storage tells the same conversation as the history: if the two agree message by message
  in role, content, metadata and duration (the token count in the transcript being that of the history, or 0, which makes the
  next session count anew), and the next object of a message is a new one, then the same holds after a run, however it ends,
  whether or not it compacts the context, after a run that was suspended and resumed, and after the duration of a run was
  noted.
\<close>

theorem transcript_mirrors_history:
  assumes "list_all2 same_message (lp_stored st) (history st)" and "\<forall>m \<in> set (history st). ms_object m < lp_next_object st"
    and "st' = snd (run_streaming env user_input st) \<or> st' = snd (resume_run env ck st) \<or> st' = stamp_last_turn_elapsed elapsed st"
  shows "list_all2 same_message (lp_stored st') (history st') \<and> (\<forall>m \<in> set (history st'). ms_object m < lp_next_object st')"
proof -
  have "mirrored st" "allocated st" using assms(1,2) by (simp_all add: mirrored_def allocated_def)
  then have "mirrored st' \<and> allocated st'"
    using assms(3) transcript.conv_run objects.conv_run transcript.conv_resume objects.conv_resume stamp_mirrored by metis
  then show ?thesis by (simp add: mirrored_def allocated_def)
qed

lemma unsafe_slash: "\<not> safe_id_char slash"
  by code_simp

text \<open>
  A large result is stored under a plain file name: whatever id the model gave to the call, the name has no
  separator and is not a reference to the directory itself or its parent (the digest being hexadecimal).
\<close>

theorem result_filename_contained:
  assumes "list_all safe_id_char (digest use_id)"
  shows "list_all safe_id_char (result_filename digest use_id) \<and> slash \<notin> set (result_filename digest use_id)
    \<and> result_filename digest use_id \<notin> {[], ''.'', ''..''} \<and> endswith (result_filename digest use_id) ''.txt''"
proof -
  have "list_all safe_id_char (result_filename digest use_id)"
    using assms by (auto simp: result_filename_def Let_def safe_id_char_def list_all_iff)
  moreover from this have "slash \<notin> set (result_filename digest use_id)"
    using unsafe_slash by (auto simp: list_all_iff)
  moreover have "\<exists>stem. result_filename digest use_id = stem @ ''.txt''" by (auto simp: result_filename_def Let_def)
  then obtain stem where "result_filename digest use_id = stem @ ''.txt''" by blast
  moreover have "last (stem @ ''.txt'') = CHR ''t''" by simp
  ultimately show ?thesis by (auto simp: endswith_def)
qed

section \<open>Examples\<close>

definition calls_write :: "nat \<Rightarrow> Message list \<Rightarrow> 'w \<Rightarrow> stream_event list \<times> 'w" where
  "calls_write turn ms w =
     ([MessageStartEvent ''m0'', ToolUseStartEvent ''t1'' ''write_file'' None,
       ToolUseEndEvent ''t1'' ''write_file'' [(''path'', PyStr ''a''), (''content'', PyStr ''x'')] None None,
       MessageEndEvent ''tool_use'' []], w)"

definition says_nothing :: "nat \<Rightarrow> Message list \<Rightarrow> 'w \<Rightarrow> stream_event list \<times> 'w" where
  "says_nothing turn ms w = ([MessageEndEvent ''stop'' []], w)"

definition sample_loop :: "nat \<Rightarrow> (nat \<Rightarrow> Message list \<Rightarrow> (nat, nat) agent_world \<Rightarrow> stream_event list \<times> (nat, nat) agent_world)
    \<Rightarrow> (nat, nat, unit) loop_env" where
  \<comment> \<open>the user approves every prompt and types something during the first response\<close>
  "sample_loop rounds respond =
     \<lparr>le_agent = sample_agent Approved, le_max_turns = rounds, le_transcript_id = None, le_count_message = (\<lambda>_. 1),
      le_reserved_output_tokens = None, le_respond = respond, le_summarize = (\<lambda>_ w. (Some ''s'', w)),
      le_typed = (\<lambda>turn ph w. if turn = 0 \<and> ph = While_Streaming then [(TextContent ''wait'', [])] else []),
      le_queued_inputs = (\<lambda>_ _. []), le_new_id = nat_str, le_attach = (\<lambda>r _. r), le_tool_timeout = ''120'',
      le_scheduler = last_first, le_storage_dir = ''/r'', le_result_digest = (\<lambda>_. ''0f''), le_max_inline_chars = 50,
      le_preview_chars = 20, le_event_metadata = (\<lambda>_ _ r. res_metadata r), le_block_metadata = (\<lambda>_ _. []), le_parse_blocks = (\<lambda>_. [])\<rparr>"

definition sample_state :: "(nat, nat) loop_state" where
  "sample_state =
     \<lparr>lp_context = sample_manager [], lp_stored = [], lp_next_object = 0, lp_pending_injections = [], lp_accepting = False,
      lp_model_request_count = 0, lp_world = sample_agent_world, lp_events = [], lp_accepted = []\<rparr>"

lemma sample_loop_cooperative: "cooperative (sample_loop n calls_write)"
proof -
  have "ordinary_tool (sample_loop n calls_write) (noop_tool t)" for t
    by (simp add: ordinary_tool_def noop_tool_def ordinary_result_def)
  moreover have "\<exists>k. fair k last_first" using fair_last_first by blast
  ultimately show ?thesis
    by (auto simp: cooperative_def sample_loop_def sample_agent_def calls_write_def ordinary_def no_tool_blocks_def visible_metadata_def)
qed

theorem history_stays_paired_witness:
  "paired (history (snd (run_streaming (sample_loop 1 calls_write) (TextContent ''hi'') sample_state)))
   \<and> length (history (snd (run_streaming (sample_loop 1 calls_write) (TextContent ''hi'') sample_state))) = 3"
proof -
  have "sound_history (history sample_state)" by (simp add: sample_state_def sample_manager_def sound_history_def)
  moreover have "0 < cc_preserve_recent_turns (cm_config (lp_context sample_state))"
    by (simp add: sample_state_def sample_manager_def)
  moreover have "list_all ordinary (lp_pending_injections sample_state)" by (simp add: sample_state_def)
  moreover have "no_tool_blocks (TextContent ''hi'')" by (simp add: no_tool_blocks_def)
  moreover have "fst (run_streaming (sample_loop 1 calls_write) (TextContent ''hi'') sample_state) = None" by code_simp
  ultimately have "paired (history (snd (run_streaming (sample_loop 1 calls_write) (TextContent ''hi'') sample_state)))"
    using history_stays_paired [OF sample_loop_cooperative _ _ _ _ prod.collapse [symmetric]] by blast
  moreover have "length (history (snd (run_streaming (sample_loop 1 calls_write) (TextContent ''hi'') sample_state))) = 3" by code_simp
  ultimately show ?thesis by blast
qed

definition suspended_state :: "(nat, nat) loop_state" where
  "suspended_state = sample_state\<lparr>lp_context := sample_manager sample_messages, lp_stored := sample_messages, lp_next_object := 1\<rparr>"

theorem resumed_run_closes_calls_witness:
  "let a = new_message 0 RoleAssistant (Blocks two_writes) [];
       h = history (snd (resume_run (sample_loop 0 calls_write) (sample_checkpoint\<lparr>ck_frame := Some (sample_frame two_writes)\<rparr>) suspended_state))
   in paired h \<and> (\<exists>r. subseq [a, r] h \<and> tool_result_ids r = [''1'', ''2''])"
proof -
  let ?a = "new_message 0 RoleAssistant (Blocks two_writes) []"
  let ?r = "resume_run (sample_loop 0 calls_write) (sample_checkpoint\<lparr>ck_frame := Some (sample_frame two_writes)\<rparr>) suspended_state"
  have a: "history suspended_state = [] @ [?a]" "visible ?a" "ms_role ?a = RoleAssistant" "tool_use_ids ?a = [''1'', ''2'']" "tool_result_ids ?a = []"
    by (simp_all add: suspended_state_def sample_state_def sample_manager_def sample_messages_def visible_def
        new_message_def is_cleanup_prompt_message_def metadata_type_is_def tool_use_ids_def tool_result_ids_def message_blocks_def
        two_writes_def write_use_def)
  have st: "sound_history []" "0 < cc_preserve_recent_turns (cm_config (lp_context suspended_state))" "list_all ordinary (lp_pending_injections suspended_state)"
    by (simp_all add: sound_history_def suspended_state_def sample_state_def sample_manager_def)
  have e: "fst ?r = None" by code_simp
  have ids: "tool_use_ids ?a \<noteq> []" "distinct (tool_use_ids ?a)" by (simp_all add: a(4))
  from resumed_run_closes_calls [OF sample_loop_cooperative [of 0] a(1) st(1) a(2,3) ids(1) a(5) ids(2) st(2,3) prod.collapse [symmetric],
    of "sample_checkpoint\<lparr>ck_frame := Some (sample_frame two_writes)\<rparr>"]
  have "\<exists>r added (st1 :: (nat, nat) loop_state). history st1 = [] @ [?a, r] @ added \<and> tool_result_ids r = tool_use_ids ?a
      \<and> subseq (history st1) (history (snd ?r)) \<and> paired (history (snd ?r))"
    unfolding e option.case by (simp only: option.distinct simp_thms) blast
  then obtain r added and st1 :: "(nat, nat) loop_state" where st1: "history st1 = [] @ [?a, r] @ added"
      "tool_result_ids r = tool_use_ids ?a" "subseq (history st1) (history (snd ?r))" "paired (history (snd ?r))" by blast
  have "subseq [?a, r] (history st1)" using st1(1) by simp
  then have "subseq [?a, r] (history (snd ?r))" using st1(3) by (rule subseq_order.trans)
  then show ?thesis unfolding Let_def using st1(2,4) a(4) by auto
qed

definition truncated_turn :: turn_data where
  "truncated_turn = collect [MessageStartEvent ''m'', ToolUseEndEvent ''t1'' ''write_file'' [(''path'', PyStr ''a'')] None None,
     MessageEndEvent ''max_tokens'' []]"

theorem truncated_response_runs_nothing_witness:
  "tn_pending truncated_turn \<noteq> []
   \<and> lp_world (snd (handle_response (sample_loop 1 calls_write) 0 0 truncated_turn sample_state)) = sample_agent_world"
proof -
  have "tn_ended truncated_turn" "tn_stop_reason truncated_turn = ''max_tokens''" "tn_pending truncated_turn \<noteq> []" by code_simp+
  with truncated_response_runs_nothing [OF _ _ prod.collapse [symmetric], of truncated_turn "sample_loop 1 calls_write" 0 0 sample_state]
  show ?thesis by (simp add: sample_state_def)
qed

lemma says_nothing_cooperative: "cooperative (sample_loop n says_nothing)"
proof -
  have "ordinary_tool (sample_loop n says_nothing) (noop_tool t)" for t
    by (simp add: ordinary_tool_def noop_tool_def ordinary_result_def)
  moreover have "\<exists>k. fair k last_first" using fair_last_first by blast
  ultimately show ?thesis
    by (auto simp: cooperative_def sample_loop_def sample_agent_def says_nothing_def ordinary_def no_tool_blocks_def visible_metadata_def)
qed

theorem accepted_input_consumed_witness:
  "let st' = snd (run_streaming (sample_loop 2 says_nothing) (TextContent ''hi'') sample_state)
   in lp_accepted st' = [(TextContent ''wait'', [])] \<and> lp_pending_injections st' = []
      \<and> subseq [(TextContent ''wait'', [])] (inputs (history st'))"
proof -
  let ?r = "run_streaming (sample_loop 2 says_nothing) (TextContent ''hi'') sample_state"
  have run: "case ?r of (e, st') \<Rightarrow> e = None \<and> list_all (\<lambda>e. case e of Provider_Event _ \<Rightarrow> True | _ \<Rightarrow> False) (lp_events st')
      \<and> lp_accepted st' = [(TextContent ''wait'', [])]"
    by code_simp
  then have r: "?r = (None, snd ?r)" by (simp add: case_prod_beta prod_eq_iff)
  have st: "sound_history (history sample_state)" "0 < cc_preserve_recent_turns (cm_config (lp_context sample_state))"
      "list_all ordinary (lp_pending_injections sample_state)" "lp_accepted sample_state = lp_pending_injections sample_state"
    by (simp_all add: sample_state_def sample_manager_def sound_history_def)
  have hi: "no_tool_blocks (TextContent ''hi'')" by (simp add: no_tool_blocks_def)
  have turns: "0 < le_max_turns (sample_loop 2 says_nothing)" by (simp add: sample_loop_def)
  have ends: "Output_Limit_Error \<notin> set (lp_events (snd ?r))" "Message_End ''stream_error'' \<notin> set (lp_events (snd ?r))"
    using run by (auto simp: case_prod_beta list_all_iff)
  then show ?thesis
    using run accepted_input_consumed [OF says_nothing_cooperative st(1-3) hi st(4) r turns ends] by (simp add: Let_def case_prod_beta)
qed

theorem transcript_mirrors_history_witness:
  "let st' = snd (run_streaming (sample_loop 1 calls_write) (TextContent ''hi'') sample_state)
   in list_all2 same_message (lp_stored st') (history st') \<and> length (lp_stored st') = 3"
proof -
  have "list_all2 same_message (lp_stored sample_state) (history sample_state)"
    "\<forall>m \<in> set (history sample_state). ms_object m < lp_next_object sample_state"
    by (simp_all add: sample_state_def sample_manager_def)
  from transcript_mirrors_history [OF this disjI1 [OF refl]]
  have "list_all2 same_message (lp_stored (snd (run_streaming (sample_loop 1 calls_write) (TextContent ''hi'') sample_state)))
      (history (snd (run_streaming (sample_loop 1 calls_write) (TextContent ''hi'') sample_state)))" by blast
  moreover have "length (lp_stored (snd (run_streaming (sample_loop 1 calls_write) (TextContent ''hi'') sample_state))) = 3" by code_simp
  ultimately show ?thesis by (simp only: Let_def)
qed

theorem result_filename_contained_witness:
  "result_filename (\<lambda>_. ''0f'') ''../etc/passwd'' = ''tool_result_0f.txt''
   \<and> slash \<notin> set (result_filename (\<lambda>_. ''0f'') ''../etc/passwd'')"
proof -
  have "list_all safe_id_char ((\<lambda>_. ''0f'') ''../etc/passwd'')" by code_simp
  from result_filename_contained [of "\<lambda>_. ''0f''" "''../etc/passwd''", OF this] have "slash \<notin> set (result_filename (\<lambda>_. ''0f'') ''../etc/passwd'')"
    by (elim conjE) assumption
  moreover have "result_filename (\<lambda>_. ''0f'') ''../etc/passwd'' = ''tool_result_0f.txt''" by code_simp
  ultimately show ?thesis by blast
qed

end
