(* ===== verification/Py_Values.thy ===== *)
theory Py_Values
  imports Json "HOL-Library.List_Lexorder" "HOL-Library.Char_ord"
begin

text \<open>
  More of what Python does with dynamic values: truth, \<^verbatim>\<open>dict.get\<close> with \<^verbatim>\<open>None\<close> as the default, and the order of
  \<^verbatim>\<open>json.dumps(..., sort_keys=True)\<close>.
\<close>

fun truthy :: "pyval \<Rightarrow> bool" where
  "truthy PyNone = False"
| "truthy (PyBool b) = b"
| "truthy (PyInt i) = (i \<noteq> 0)"
| "truthy (PyFloat t) = (list_ex (\<lambda>c. is_digit c \<and> c \<noteq> CHR ''0'') (takeWhile (\<lambda>c. c \<notin> {CHR ''e'', CHR ''E''}) t) \<or> t \<in> {''NaN'', ''Infinity'', ''-Infinity''})"
| "truthy (PyStr s) = (s \<noteq> [])"
| "truthy (PyList vs) = (vs \<noteq> [])"
| "truthy (PyDict kvs) = (kvs \<noteq> [])"

definition dict_get :: "string \<Rightarrow> pydict \<Rightarrow> pyval" where
  "dict_get k d = (case map_of d k of None \<Rightarrow> PyNone | Some v \<Rightarrow> v)"

fun sort_keys :: "pyval \<Rightarrow> pyval"
  and sort_elems :: "pyval list \<Rightarrow> pyval list"
  and sort_members :: "pydict \<Rightarrow> pydict" where
  "sort_keys (PyList vs) = PyList (sort_elems vs)"
| "sort_keys (PyDict kvs) = PyDict (sort_key fst (sort_members kvs))"
| "sort_keys v = v"
| "sort_elems [] = []"
| "sort_elems (v # vs) = sort_keys v # sort_elems vs"
| "sort_members [] = []"
| "sort_members ((k, v) # kvs) = (k, sort_keys v) # sort_members kvs"

end
