(* ===== verification/Session_Store.thy ===== *)
theory Session_Store
  imports Py_Values Journal Agent_Loop
begin

text \<open>
  The transcript of a session on disk (\<^verbatim>\<open>services/session_storage.py\<close> with \<^verbatim>\<open>append_jsonl_locked\<close> of
  \<^verbatim>\<open>utils/state_io.py\<close> and \<^verbatim>\<open>Message.from_dict\<close>): JSON rows that are appended one by one, rewritten after a
  compaction, read back when a session is resumed, and repaired when it ended between tool calls and their results.
  \<^verbatim>\<open>pipeline/engine/transcript_storage.py\<close> writes and reads the same rows. The file is its bytes (\<open>None\<close> when it does not
  exist); which path it has, the locks and the permissions of the file are not modelled. \<^verbatim>\<open>model_dump\<close> and
  \<^verbatim>\<open>model_validate\<close> of pydantic are the arguments \<open>dump\<close> and \<open>validate\<close>; what the code relies on is the locale
  \<open>message_schema\<close>, which the reference schema below meets.
\<close>

section \<open>Rows\<close>

datatype session_error =
    Undecodable \<comment> \<open>\<^verbatim>\<open>UnicodeDecodeError\<close>\<close>
  | Not_Serialisable \<comment> \<open>\<^verbatim>\<open>ValueError\<close> of \<^verbatim>\<open>json.dumps\<close> for a number that is not finite\<close>
  | Bad_Meta string

definition VERSION :: string where
  "VERSION = ''0.17.0''"

definition stamp :: "pydict \<Rightarrow> string \<Rightarrow> string \<Rightarrow> string option \<Rightarrow> pydict" where
  "stamp data cwd sid git_branch =
     (let data = dict_set ''cwd'' (PyStr cwd) (dict_set ''session_id'' (PyStr sid) data);
          data = (case git_branch of None \<Rightarrow> data | Some b \<Rightarrow> dict_set ''git_branch'' (PyStr b) data)
      in dict_set ''version'' (PyStr VERSION) data)"

type_synonym dumper = "Message \<Rightarrow> pydict"
type_synonym validator = "nat \<Rightarrow> pydict \<Rightarrow> Message option" \<comment> \<open>the number is the identity of the new object\<close>

definition from_dict :: "validator \<Rightarrow> nat \<Rightarrow> pydict \<Rightarrow> Message option" where
  "from_dict validate uid data =
     validate uid
       (if is_legacy_compaction_summary_storage_row data then
          let metadata = (case map_of data ''metadata'' of Some (PyDict md) \<Rightarrow> md | _ \<Rightarrow> []);
              metadata = dict_set ''type'' (PyStr COMPACTION_SUMMARY_METADATA_TYPE) metadata;
              metadata = dict_set ''legacy'' (PyBool True) metadata
          in dict_set ''metadata'' (PyDict metadata) data
        else data)"

fun has_nonfinite :: "pyval \<Rightarrow> bool" where
  "has_nonfinite (PyFloat t) = nonfinite t"
| "has_nonfinite (PyList vs) = list_ex has_nonfinite vs"
| "has_nonfinite (PyDict kvs) = list_ex (\<lambda>kv. has_nonfinite (snd kv)) kvs"
| "has_nonfinite _ = False"

definition append_jsonl_locked :: "pydict list \<Rightarrow> bytes option \<Rightarrow> session_error + bytes option" where
  "append_jsonl_locked records file =
     (if list_ex (\<lambda>r. has_nonfinite (PyDict r)) records then Inl Not_Serialisable
      else if records = [] then Inr file
      else Inr (Some ((case file of None \<Rightarrow> [] | Some b \<Rightarrow> b)
             @ concat (map (\<lambda>r. utf8_encode (json_dumps (PyDict r) @ [CHR 0x0A])) records))))"

section \<open>Reading\<close>

fun load_lines :: "validator \<Rightarrow> nat \<Rightarrow> string list \<Rightarrow> Message list" where
  "load_lines validate uid [] = []"
| "load_lines validate uid (line # rest) =
     (let line = strip line in
      if line = [] then load_lines validate uid rest
      else
        (case json_loads line of
           Some (PyDict obj) \<Rightarrow>
             if ''role'' \<notin> fst ` set obj then load_lines validate uid rest
             else (case from_dict validate uid obj of
                     None \<Rightarrow> load_lines validate uid rest
                   | Some m \<Rightarrow> m # load_lines validate (Suc uid) rest)
         | _ \<Rightarrow> load_lines validate uid rest))"

definition session_load :: "validator \<Rightarrow> nat \<Rightarrow> bytes option \<Rightarrow> session_error + Message list" where
  \<comment> \<open>the lines of a text file end with a newline, a carriage return or both; the bytes are decoded strictly\<close>
  "session_load validate uid file =
     (case file of
        None \<Rightarrow> Inr []
      | Some raw \<Rightarrow>
          (case utf8_decode raw of
             Inl _ \<Rightarrow> Inl Undecodable
           | Inr text \<Rightarrow> Inr (load_lines validate uid (splitlines_keep bytes_break text))))"

section \<open>Cleanup prompts\<close>

definition cleanup_prompt_identity :: "dumper \<Rightarrow> Message \<Rightarrow> string" where
  "cleanup_prompt_identity dump m =
     (let metadata = ms_metadata m;
          metadata = (if metadata_type_is m CLEANUP_PROMPT_METADATA_TYPE
            then [(''type'', dict_get ''type'' metadata), (''source'', dict_get ''source'' metadata),
                  (''cleanupLedgerPath'',
                     if truthy (dict_get ''cleanupLedgerPath'' metadata) then dict_get ''cleanupLedgerPath'' metadata
                     else dict_get ''cleanup_ledger_path'' metadata)]
            else metadata)
      in dumps_default (sort_keys (PyDict
           [(''role'', PyStr (role_value (ms_role m))), (''content'', dict_get ''content'' (dump m)), (''metadata'', PyDict metadata)])))"

definition merge_preserved_cleanup_prompts :: "dumper \<Rightarrow> Message list \<Rightarrow> Message list \<Rightarrow> Message list" where
  "merge_preserved_cleanup_prompts dump existing messages =
     (let preserved = filter is_cleanup_prompt_message existing in
      if preserved = [] then messages
      else
        let existing_keys = map (cleanup_prompt_identity dump) (filter is_cleanup_prompt_message messages);
            missing = filter (\<lambda>m. cleanup_prompt_identity dump m \<notin> set existing_keys) preserved
        in messages @ missing)"

section \<open>Writing\<close>

text \<open>Where a session is stored: the identifiers that are stamped on each of its rows.\<close>

record session_key =
  sk_cwd :: string
  sk_session_id :: string
  sk_git_branch :: "string option"

definition message_row :: "dumper \<Rightarrow> session_key \<Rightarrow> Message \<Rightarrow> pydict" where
  "message_row dump key m = stamp (dump m) (sk_cwd key) (sk_session_id key) (sk_git_branch key)"

definition session_append :: "dumper \<Rightarrow> session_key \<Rightarrow> Message \<Rightarrow> bytes option \<Rightarrow> session_error + bytes option" where
  "session_append dump key m file = append_jsonl_locked [message_row dump key m] file"

definition append_meta :: "session_key \<Rightarrow> pydict \<Rightarrow> bytes option \<Rightarrow> session_error + bytes option" where
  "append_meta key meta_entry file =
     (if ''type'' \<notin> fst ` set meta_entry then Inl (Bad_Meta ''meta_entry must include a 'type' field'')
      else append_jsonl_locked [dict_set ''session_id'' (PyStr (sk_session_id key)) meta_entry] file)"

definition session_save ::
    "dumper \<Rightarrow> validator \<Rightarrow> session_key \<Rightarrow> nat \<Rightarrow> bool \<Rightarrow> Message list \<Rightarrow> bytes option \<Rightarrow> session_error + bytes option" where
  \<comment> \<open>\<open>uid\<close> numbers the objects that reading the old rows creates\<close>
  "session_save dump validate key uid preserve_cleanup_prompts messages file =
     (case (if preserve_cleanup_prompts \<and> file \<noteq> None
            then map_sum id (\<lambda>old. merge_preserved_cleanup_prompts dump old messages) (session_load validate uid file)
            else Inr messages) of
        Inl e \<Rightarrow> Inl e
      | Inr messages \<Rightarrow>
          Inr (Some (utf8_encode (concat (map (\<lambda>m. dumps_default (PyDict (message_row dump key m)) @ [CHR 0x0A]) messages)))))"

section \<open>Interrupted sessions\<close>

definition detect_interruption :: "Message list \<Rightarrow> bool" where
  "detect_interruption messages =
     (if messages = [] then False else ms_role (last messages) = RoleAssistant \<and> has_tool_use (last messages))"

definition interrupted_result :: "ContentBlock \<Rightarrow> ContentBlock" where
  "interrupted_result tu = ToolResultBlock (tu_id tu) ''Session interrupted before tool execution completed.'' True []"

definition repair_interrupted :: "nat \<Rightarrow> Message list \<Rightarrow> Message list" where
  "repair_interrupted uid messages =
     (if \<not> detect_interruption messages then messages
      else messages @ [new_message uid RoleUser (Blocks (map interrupted_result (get_tool_use_blocks (last messages)))) []])"

section \<open>The schema of a message\<close>

text \<open>
  What the code relies on of pydantic: \<^verbatim>\<open>model_dump\<close> yields the declared fields in order, and \<^verbatim>\<open>model_validate\<close> ignores
  other keys and gives back the message that was dumped. A message has no field for the identity of its object.
\<close>

definition MESSAGE_FIELDS :: "string list" where
  "MESSAGE_FIELDS = [''role'', ''content'', ''token_count'', ''elapsed_seconds'', ''metadata'']"

locale message_schema =
  fixes dump :: dumper and validate :: validator
  assumes dump_fields: "map fst (dump m) = MESSAGE_FIELDS"
    and dump_object: "dump (m\<lparr>ms_object := uid\<rparr>) = dump m"
    and validate_dump: "set (map fst extra) \<inter> set MESSAGE_FIELDS = {} \<Longrightarrow>
      validate uid (dump m @ extra) = Some (m\<lparr>ms_object := uid\<rparr>)"

fun dump_block :: "ContentBlock \<Rightarrow> pydict" where
  "dump_block (TextBlock t) = [(''type'', PyStr ''text''), (''text'', PyStr t)]"
| "dump_block (ToolUseBlock i n inp md) =
     [(''type'', PyStr ''tool_use''), (''id'', PyStr i), (''name'', PyStr n), (''input'', PyDict inp), (''provider_metadata'', PyDict md)]"
| "dump_block (ToolResultBlock i c e md) =
     [(''type'', PyStr ''tool_result''), (''tool_use_id'', PyStr i), (''content'', PyStr c), (''is_error'', PyBool e), (''metadata'', PyDict md)]"
| "dump_block (ThinkingBlock t md) = [(''type'', PyStr ''thinking''), (''thinking'', PyStr t), (''provider_metadata'', PyDict md)]"
| "dump_block (RedactedThinkingBlock d md) =
     [(''type'', PyStr ''redacted_thinking''), (''data'', PyStr d), (''provider_metadata'', PyDict md)]"
| "dump_block (ImageBlock mt d r) =
     [(''type'', PyStr ''image''), (''media_type'', PyStr mt), (''data'', PyStr d),
      (''ref_id'', case r of None \<Rightarrow> PyNone | Some n \<Rightarrow> PyInt n)]"

definition str_field :: "string \<Rightarrow> pydict \<Rightarrow> string option" where
  "str_field k d = (case map_of d k of Some (PyStr s) \<Rightarrow> Some s | _ \<Rightarrow> None)"

definition dict_field :: "string \<Rightarrow> pydict \<Rightarrow> pydict option" where
  "dict_field k d = (case map_of d k of Some (PyDict s) \<Rightarrow> Some s | _ \<Rightarrow> None)"

definition bool_field :: "string \<Rightarrow> pydict \<Rightarrow> bool option" where
  "bool_field k d = (case map_of d k of Some (PyBool s) \<Rightarrow> Some s | _ \<Rightarrow> None)"

definition ref_field :: "string \<Rightarrow> pydict \<Rightarrow> int option option" where
  "ref_field k d = (case map_of d k of Some (PyInt n) \<Rightarrow> Some (Some n) | Some PyNone \<Rightarrow> Some None | _ \<Rightarrow> None)"

definition block_of_type :: "string \<Rightarrow> pydict \<Rightarrow> ContentBlock option" where
  "block_of_type t d =
     (if t = ''text'' then map_option TextBlock (str_field ''text'' d)
      else if t = ''tool_use'' then
        Option.bind (str_field ''id'' d) (\<lambda>i. Option.bind (str_field ''name'' d) (\<lambda>n.
          Option.bind (dict_field ''input'' d) (\<lambda>inp. map_option (ToolUseBlock i n inp) (dict_field ''provider_metadata'' d))))
      else if t = ''tool_result'' then
        Option.bind (str_field ''tool_use_id'' d) (\<lambda>i. Option.bind (str_field ''content'' d) (\<lambda>c.
          Option.bind (bool_field ''is_error'' d) (\<lambda>e. map_option (ToolResultBlock i c e) (dict_field ''metadata'' d))))
      else if t = ''thinking'' then
        Option.bind (str_field ''thinking'' d) (\<lambda>th. map_option (ThinkingBlock th) (dict_field ''provider_metadata'' d))
      else if t = ''redacted_thinking'' then
        Option.bind (str_field ''data'' d) (\<lambda>rt. map_option (RedactedThinkingBlock rt) (dict_field ''provider_metadata'' d))
      else if t = ''image'' then
        Option.bind (str_field ''media_type'' d) (\<lambda>mt. Option.bind (str_field ''data'' d) (\<lambda>dt.
          map_option (ImageBlock mt dt) (ref_field ''ref_id'' d)))
      else None)"

fun read_block :: "pyval \<Rightarrow> ContentBlock option" where
  "read_block (PyDict d) = Option.bind (str_field ''type'' d) (\<lambda>t. block_of_type t d)"
| "read_block _ = None"

lemmas field_defs = str_field_def dict_field_def bool_field_def ref_field_def

fun read_blocks :: "pyval list \<Rightarrow> ContentBlock list option" where
  "read_blocks [] = Some []"
| "read_blocks (v # vs) =
     (case read_block v of None \<Rightarrow> None | Some b \<Rightarrow> map_option (Cons b) (read_blocks vs))"

fun read_content_value :: "pyval \<Rightarrow> msg_content option" where
  "read_content_value (PyStr s) = Some (TextContent s)"
| "read_content_value (PyList vs) = map_option Blocks (read_blocks vs)"
| "read_content_value _ = None"

definition dump_message :: dumper where
  "dump_message m =
     [(''role'', PyStr (role_value (ms_role m))),
      (''content'', case ms_content m of TextContent s \<Rightarrow> PyStr s | Blocks bs \<Rightarrow> PyList (map (\<lambda>b. PyDict (dump_block b)) bs)),
      (''token_count'', PyInt (ms_token_count m)), (''elapsed_seconds'', PyFloat (ms_elapsed_seconds m)), (''metadata'', PyDict (ms_metadata m))]"

definition role_of_value :: "string \<Rightarrow> role option" where
  "role_of_value s = (if s = ''user'' then Some RoleUser else if s = ''assistant'' then Some RoleAssistant else None)"

definition int_field :: "string \<Rightarrow> pydict \<Rightarrow> int option" where
  "int_field k d = (case map_of d k of Some (PyInt n) \<Rightarrow> Some n | _ \<Rightarrow> None)"

definition float_field :: "string \<Rightarrow> pydict \<Rightarrow> string option" where
  "float_field k d = (case map_of d k of Some (PyFloat t) \<Rightarrow> Some t | _ \<Rightarrow> None)"

definition validate_message :: validator where
  "validate_message uid d =
     Option.bind (Option.bind (str_field ''role'' d) role_of_value) (\<lambda>r.
       Option.bind (Option.bind (map_of d ''content'') read_content_value) (\<lambda>c.
         Option.bind (int_field ''token_count'' d) (\<lambda>n.
           Option.bind (float_field ''elapsed_seconds'' d) (\<lambda>t.
             map_option (\<lambda>md. \<lparr>ms_object = uid, ms_role = r, ms_content = c, ms_token_count = n, ms_elapsed_seconds = t, ms_metadata = md\<rparr>)
               (dict_field ''metadata'' d)))))"

lemma read_dump_block: "read_block (PyDict (dump_block b)) = Some b"
  by (cases b) (simp_all add: block_of_type_def field_defs split: option.split)

lemma read_dump_blocks: "read_blocks (map (\<lambda>b. PyDict (dump_block b)) bs) = Some bs"
  by (induction bs) (simp_all add: read_dump_block del: read_block.simps)

interpretation message: message_schema dump_message validate_message
proof
  fix m extra uid
  show "map fst (dump_message m) = MESSAGE_FIELDS" by (simp add: dump_message_def MESSAGE_FIELDS_def)
  show "dump_message (m\<lparr>ms_object := uid\<rparr>) = dump_message m" by (simp add: dump_message_def)
  show "validate_message uid (dump_message m @ extra) = Some (m\<lparr>ms_object := uid\<rparr>)"
    by (cases "ms_role m"; cases "ms_content m"; cases m) (simp_all add: validate_message_def dump_message_def read_dump_blocks
        field_defs int_field_def float_field_def role_of_value_def)
qed

section \<open>A file of complete rows\<close>

type_synonym srow = "string \<times> pydict" \<comment> \<open>the text after the separators and the object\<close>

definition row_text :: "srow \<Rightarrow> string" where
  "row_text r = dumps_with (fst r) (PyDict (snd r))"

definition row_ok :: "srow \<Rightarrow> bool" where
  "row_ok r \<longleftrightarrow> fst r \<in> {[], '' ''} \<and> json_ok (PyDict (snd r))"

definition rows_text :: "srow list \<Rightarrow> string" where
  "rows_text rs = concat (map add_nl (map row_text rs))"

definition row_message :: "validator \<Rightarrow> nat \<Rightarrow> pydict \<Rightarrow> Message option" where
  "row_message validate uid d = (if ''role'' \<notin> fst ` set d then None else from_dict validate uid d)"

fun load_rows :: "validator \<Rightarrow> nat \<Rightarrow> pydict list \<Rightarrow> Message list" where
  "load_rows validate uid [] = []"
| "load_rows validate uid (d # ds) =
     (case row_message validate uid d of None \<Rightarrow> load_rows validate uid ds | Some m \<Rightarrow> m # load_rows validate (Suc uid) ds)"

lemma rows_text_simps:
  "rows_text [] = []" "rows_text (r # rs) = add_nl (row_text r) @ rows_text rs" "rows_text (rs @ qs) = rows_text rs @ rows_text qs"
  by (simp_all add: rows_text_def)

lemma row_separators: "row_ok r \<Longrightarrow> list_all json_space (fst r) \<and> list_all printable (fst r)"
  by (auto simp: row_ok_def json_space_def printable_def)

lemma row_braces: "\<exists>u. row_text r = CHR ''{'' # u @ ''}''"
  by (simp add: row_text_def)

lemma strip_row: "strip (row_text r) = row_text r" "strip (add_nl (row_text r)) = row_text r" "row_text r \<noteq> []"
  using row_braces [of r] by (auto simp: strip_def lstrip_def rstrip_by_def add_nl_def)

lemma row_no_break: "row_ok r \<Longrightarrow> list_all (\<lambda>c. \<not> bytes_break c) (row_text r)"
proof -
  assume r: "row_ok r"
  then have "list_all printable (row_text r)"
    using dumps_printable_with(1) [of "fst r" "PyDict (snd r)"] row_separators [OF r] by (simp add: row_text_def row_ok_def)
  then show ?thesis by (auto simp: list_all_iff printable_def bytes_break_def)
qed

lemma loads_row: "row_ok r \<Longrightarrow> json_loads (row_text r) = Some (PyDict (snd r))"
  using loads_dumps_with [of "fst r" "PyDict (snd r)" "[]" True] row_separators [of r]
  by (simp add: row_text_def row_ok_def)

lemma lines_of_rows:
  assumes "list_all row_ok rs" and "list_all (\<lambda>c. \<not> bytes_break c) p"
  shows "splitlines_keep bytes_break (rows_text rs @ p) = map (add_nl \<circ> row_text) rs @ (if p = [] then [] else [p])"
proof -
  have "list_all (\<lambda>t. list_all (\<lambda>c. \<not> bytes_break c) t) (map row_text rs)"
    using assms(1) row_no_break by (auto simp: list_all_iff)
  then show ?thesis
    using splitlines_keep_lines [of bytes_break p "map row_text rs"] assms(2) str_break_newline by (simp add: rows_text_def)
qed

lemma load_lines_rows:
  "list_all row_ok rs \<Longrightarrow> load_lines validate uid (map (add_nl \<circ> row_text) rs @ ls)
     = (let ms = load_rows validate uid (map snd rs) in ms @ load_lines validate (uid + length ms) ls)"
proof (induction rs arbitrary: uid)
  case (Cons r rs)
  then show ?case
    using loads_row [of r] strip_row [of r] by (simp add: row_message_def Let_def split: option.split)
qed simp

text \<open>What a crash leaves of the last row: a text that is no JSON, or the whole row without its newline.\<close>

lemma strip_row_prefix:
  assumes "row_text r = p @ q" and "p \<noteq> []"
  shows "\<exists>z. p = strip p @ z \<and> strip p \<noteq> []"
proof -
  obtain p' where p: "p = CHR ''{'' # p'" using assms row_braces [of r] by (cases p) auto
  have "\<exists>z. p = rev (dropWhile is_space (rev p)) @ z" by (metis rev_append rev_rev_ident takeWhile_dropWhile_id)
  moreover have "rev (dropWhile is_space (rev p)) \<noteq> []" using p by (simp add: dropWhile_eq_Nil_conv)
  ultimately show ?thesis using p by (simp add: strip_def lstrip_def rstrip_by_def)
qed

lemma load_lines_torn:
  assumes "row_ok r" and "row_text r = p @ q" and "q \<noteq> []"
  shows "load_lines validate uid [p] = []"
proof (cases "p = []")
  case False
  obtain z where z: "p = strip p @ z" "strip p \<noteq> []" using strip_row_prefix [OF assms(2) False] by blast
  have "row_text r = strip p @ z @ q" using assms(2) z(1) by (metis append_assoc)
  then have "json_loads (strip p) = None"
    using loads_prefix_with [of "fst r" "snd r" "strip p" "z @ q" True] row_separators [OF assms(1)] assms(1,3)
    by (simp add: row_text_def row_ok_def del: dumps_with.simps)
  then show ?thesis using z(2) by (simp add: Let_def)
qed (simp add: strip_def lstrip_def rstrip_by_def)

lemma load_rows_append:
  "load_rows validate uid (ds @ es) = (let ms = load_rows validate uid ds in ms @ load_rows validate (uid + length ms) es)"
  by (induction ds arbitrary: uid) (simp_all add: Let_def split: option.split)

lemma load_complete:
  "list_all row_ok rs \<Longrightarrow> session_load validate uid (Some (utf8_encode (rows_text rs))) = Inr (load_rows validate uid (map snd rs))"
  using lines_of_rows [of rs "[]"] load_lines_rows [of rs validate uid "[]"]
  by (simp add: session_load_def utf8_decode_encode Let_def)

lemma load_cut:
  assumes "list_all row_ok rs" and "row_ok r" and "row_text r = p @ q"
  shows "session_load validate uid (Some (utf8_encode (rows_text rs @ p)))
     = Inr (load_rows validate uid (map snd (if q = [] then rs @ [r] else rs)))"
proof -
  have "list_all (\<lambda>c. \<not> bytes_break c) p" using row_no_break [OF assms(2)] assms(3) by simp
  note lines = lines_of_rows [OF assms(1) this]
  show ?thesis
  proof (cases "q = []")
    case True
    then have p: "p = row_text r" using assms(3) by simp
    then have "load_lines validate n [p] = load_rows validate n [snd r]" for n
      using loads_row [OF assms(2)] strip_row [of r] by (simp add: row_message_def split: option.split)
    then show ?thesis
      using lines load_lines_rows [OF assms(1), of validate uid "[p]"] True p strip_row(3)
      by (simp add: session_load_def utf8_decode_encode load_rows_append)
  next
    case False
    then show ?thesis
      using lines load_lines_rows [OF assms(1), of validate uid "[p]"] load_lines_rows [OF assms(1), of validate uid "[]"]
        load_lines_torn [OF assms(2,3)]
      by (simp add: session_load_def utf8_decode_encode Let_def)
  qed
qed

section \<open>Message rows read back\<close>

definition stamped :: "session_key \<Rightarrow> pydict" where
  "stamped key = [(''session_id'', PyStr (sk_session_id key)), (''cwd'', PyStr (sk_cwd key))]
     @ (case sk_git_branch key of None \<Rightarrow> [] | Some b \<Rightarrow> [(''git_branch'', PyStr b)]) @ [(''version'', PyStr VERSION)]"

lemma current_version:
  "(case rx_match SEMVER_PREFIX_RE VERSION of
      None \<Rightarrow> False
    | Some m \<Rightarrow> lex_less (map (\<lambda>k. nat_of_digits (ms_group k m)) [1, 2, 3]) COMPACTION_METADATA_INTRODUCED_VERSION) = False"
  by code_simp

lemma current_not_legacy:
  assumes "map_of d ''version'' = Some (PyStr VERSION)"
  shows "\<not> is_legacy_compaction_summary_storage_row d"
  unfolding is_legacy_compaction_summary_storage_row_def assms option.case pyval.case current_version
  by (simp split: option.split pyval.split)

definition renumber :: "nat \<Rightarrow> Message list \<Rightarrow> Message list" where
  "renumber uid ms = map (\<lambda>(i, m). m\<lparr>ms_object := i\<rparr>) (zip [uid ..< uid + length ms] ms)"

lemma renumber_simps [simp]:
  "renumber uid [] = []" "renumber uid (m # ms) = m\<lparr>ms_object := uid\<rparr> # renumber (Suc uid) ms"
  "length (renumber uid ms) = length ms"
  by (simp_all add: renumber_def upt_conv_Cons del: upt_Suc)

lemma renumber_append: "renumber uid (ms @ ns) = renumber uid ms @ renumber (uid + length ms) ns"
  by (induction ms arbitrary: uid) simp_all

lemma take_renumber: "take n (renumber uid ms) = renumber uid (take n ms)"
proof (induction ms arbitrary: uid n)
  case (Cons m ms)
  then show ?case by (cases n) simp_all
qed simp

context message_schema
begin

lemma row_stamped: "message_row dump key m = dump m @ stamped key"
proof -
  have keys: "fst ` set (dump m) = set MESSAGE_FIELDS" using arg_cong [OF dump_fields, of set] by simp
  then have "''session_id'' \<notin> fst ` set (dump m)" "''cwd'' \<notin> fst ` set (dump m)" "''git_branch'' \<notin> fst ` set (dump m)"
    "''version'' \<notin> fst ` set (dump m)"
    by (simp_all add: MESSAGE_FIELDS_def)
  then show ?thesis
    by (simp add: message_row_def stamp_def stamped_def dict_set_snoc image_Un Let_def split: option.split)
qed

lemma row_read: "row_message validate uid (message_row dump key m) = Some (m\<lparr>ms_object := uid\<rparr>)"
proof -
  have keys: "fst ` set (dump m) = set MESSAGE_FIELDS" using arg_cong [OF dump_fields, of set] by simp
  then have role: "''role'' \<in> fst ` set (message_row dump key m)" by (simp add: row_stamped image_Un MESSAGE_FIELDS_def)
  have "map_of (dump m) ''version'' = None" using keys by (simp add: map_of_eq_None_iff MESSAGE_FIELDS_def)
  then have "map_of (message_row dump key m) ''version'' = Some (PyStr VERSION)"
    by (simp add: row_stamped stamped_def map_add_def split: option.split)
  then have "\<not> is_legacy_compaction_summary_storage_row (message_row dump key m)" by (rule current_not_legacy)
  moreover have "validate uid (dump m @ stamped key) = Some (m\<lparr>ms_object := uid\<rparr>)"
    by (rule validate_dump, cases "sk_git_branch key") (simp_all add: stamped_def MESSAGE_FIELDS_def)
  ultimately show ?thesis using role by (simp add: row_message_def from_dict_def row_stamped)
qed

lemma load_message_rows: "load_rows validate uid (map (message_row dump key) ms) = renumber uid ms"
  by (induction ms arbitrary: uid) (simp_all add: row_read)

lemma identity_object: "cleanup_prompt_identity dump (m\<lparr>ms_object := uid\<rparr>) = cleanup_prompt_identity dump m"
  by (simp add: cleanup_prompt_identity_def dump_object metadata_type_is_def)

lemma row_object: "message_row dump key (m\<lparr>ms_object := uid\<rparr>) = message_row dump key m"
  by (simp add: message_row_def dump_object)

end

section \<open>A sequence of writes\<close>

datatype swrite = Append_Message Message | Append_Meta pydict | Save_Messages bool "Message list"

fun swrite_exec :: "dumper \<Rightarrow> validator \<Rightarrow> session_key \<Rightarrow> nat \<Rightarrow> swrite \<Rightarrow> bytes option \<Rightarrow> session_error + bytes option" where
  "swrite_exec dump validate key uid (Append_Message m) file = session_append dump key m file"
| "swrite_exec dump validate key uid (Append_Meta entry) file = append_meta key entry file"
| "swrite_exec dump validate key uid (Save_Messages preserve ms) file = session_save dump validate key uid preserve ms file"

fun swrite_run :: "dumper \<Rightarrow> validator \<Rightarrow> session_key \<Rightarrow> nat \<Rightarrow> swrite list \<Rightarrow> bytes option \<Rightarrow> session_error + bytes option" where
  "swrite_run dump validate key uid [] file = Inr file"
| "swrite_run dump validate key uid (w # ws) file =
     (case swrite_exec dump validate key uid w file of
        Inl e \<Rightarrow> Inl e | Inr file \<Rightarrow> swrite_run dump validate key uid ws file)"

fun swrite_spec :: "dumper \<Rightarrow> swrite \<Rightarrow> Message list \<Rightarrow> Message list" where
  \<comment> \<open>the messages of the session\<close>
  "swrite_spec dump (Append_Message m) ms = ms @ [m]"
| "swrite_spec dump (Append_Meta entry) ms = ms"
| "swrite_spec dump (Save_Messages preserve ns) ms = (if preserve then merge_preserved_cleanup_prompts dump ms ns else ns)"

definition storable :: "dumper \<Rightarrow> Message \<Rightarrow> bool" where
  \<comment> \<open>the fields of the message hold JSON values\<close>
  "storable dump m \<longleftrightarrow> json_ok (PyDict (dump m))"

fun swrite_ok :: "dumper \<Rightarrow> swrite \<Rightarrow> bool" where
  "swrite_ok dump (Append_Message m) = storable dump m"
| "swrite_ok dump (Append_Meta entry) =
     (json_ok (PyDict entry) \<and> ''type'' \<in> fst ` set entry \<and> ''role'' \<notin> fst ` set entry)"
| "swrite_ok dump (Save_Messages preserve ms) = list_all (storable dump) ms"

definition stores :: "dumper \<Rightarrow> validator \<Rightarrow> bytes option \<Rightarrow> Message list \<Rightarrow> bool" where
  \<comment> \<open>the file consists of rows that read as these messages\<close>
  "stores dump validate file ms \<longleftrightarrow> list_all (storable dump) ms \<and>
     (\<exists>rs. list_all row_ok rs \<and> (file = Some (utf8_encode (rows_text rs)) \<or> file = None \<and> rs = [])
        \<and> (\<forall>uid. load_rows validate uid (map snd rs) = renumber uid ms))"

lemma json_ok_finite: "json_ok v \<Longrightarrow> \<not> has_nonfinite v"
proof (induction v rule: has_nonfinite.induct)
  case (1 t)
  have "\<not> nonfinite t"
  proof
    assume "nonfinite t"
    then consider "t = ''NaN''" | "t = ''Infinity''" | "t = ''-Infinity''" by (auto simp: nonfinite_def)
    then show False using 1 by cases (simp_all add: scan_number_def scan_int_def startswith_def is_digit_def)
  qed
  then show ?case by simp
qed (auto simp: list_all_iff list_ex_iff)

lemma stores_load: "stores dump validate file ms \<Longrightarrow> session_load validate uid file = Inr (renumber uid ms)"
proof -
  assume "stores dump validate file ms"
  then obtain rs where rs: "list_all row_ok rs" "file = Some (utf8_encode (rows_text rs)) \<or> file = None \<and> rs = []"
    "load_rows validate uid (map snd rs) = renumber uid ms"
    unfolding stores_def by blast
  then show ?thesis using load_complete [of rs validate uid] by (auto simp: session_load_def)
qed

lemma storesI:
  "list_all (storable dump) ms \<Longrightarrow> list_all row_ok rs \<Longrightarrow> (\<And>uid. load_rows validate uid (map snd rs) = renumber uid ms)
     \<Longrightarrow> stores dump validate (Some (utf8_encode (rows_text rs))) ms"
  unfolding stores_def by blast

lemma stores_append:
  assumes "stores dump validate file ms" and "json_ok (PyDict d)"
    and "\<forall>uid. load_rows validate uid [d] = renumber uid ns" and "list_all (storable dump) ns"
  shows "\<exists>file'. append_jsonl_locked [d] file = Inr file' \<and> stores dump validate file' (ms @ ns)"
proof -
  obtain rs where rs: "list_all row_ok rs" "file = Some (utf8_encode (rows_text rs)) \<or> file = None \<and> rs = []"
    "\<forall>uid. load_rows validate uid (map snd rs) = renumber uid ms"
    using assms(1) unfolding stores_def by blast
  let ?rs = "rs @ [([], d)]"
  have "append_jsonl_locked [d] file = Inr (Some (utf8_encode (rows_text ?rs)))"
    using rs(2) json_ok_finite [OF assms(2)]
    by (auto simp: append_jsonl_locked_def rows_text_simps row_text_def add_nl_def dumps_compact utf8_encode_simps
        simp del: has_nonfinite.simps dumps_with.simps)
  moreover have "list_all row_ok ?rs" using rs(1) assms(2) by (simp add: row_ok_def)
  moreover have "load_rows validate uid (map snd ?rs) = renumber uid (ms @ ns)" for uid
    using rs(3) assms(3) by (simp only: map_append load_rows_append) (simp add: Let_def renumber_append)
  moreover have "list_all (storable dump) (ms @ ns)" using assms(1,4) by (simp add: stores_def)
  ultimately show ?thesis using storesI [of dump "ms @ ns" ?rs validate] by blast
qed

definition bare :: "Message \<Rightarrow> Message" where
  "bare m = m\<lparr>ms_object := 0\<rparr>"

lemma bare_object: "bare (m\<lparr>ms_object := uid\<rparr>) = bare m"
  by (simp add: bare_def)

lemma renumber_bare: "map bare ms = map bare ns \<Longrightarrow> renumber uid ms = renumber uid ns"
proof (induction ms arbitrary: ns uid)
  case (Cons m ms)
  then obtain n ns' where ns: "ns = n # ns'" "bare m = bare n" "map bare ms = map bare ns'" by (cases ns) auto
  have "m\<lparr>ms_object := uid\<rparr> = (bare m)\<lparr>ms_object := uid\<rparr>" by (simp add: bare_def)
  also have "\<dots> = n\<lparr>ms_object := uid\<rparr>" by (simp add: ns(2)) (simp add: bare_def)
  finally show ?case using Cons.IH [OF ns(3)] ns(1) by simp
qed simp

lemma filter_renumber:
  assumes "\<And>m uid. P (m\<lparr>ms_object := uid\<rparr>) = P m"
  shows "map bare (filter P (renumber uid ms)) = map bare (filter P ms)"
  by (induction ms arbitrary: uid) (simp_all add: assms bare_object)

context message_schema
begin

lemma row_storable: "storable dump m \<Longrightarrow> json_ok (PyDict (message_row dump key m))"
proof -
  assume m: "storable dump m"
  have keys: "map fst (dump m) = MESSAGE_FIELDS" by (rule dump_fields)
  then have "distinct (map fst (message_row dump key m))"
    by (cases "sk_git_branch key") (simp_all add: row_stamped stamped_def MESSAGE_FIELDS_def)
  moreover have "list_all (\<lambda>kv. json_ok (snd kv)) (stamped key)" by (simp add: stamped_def split: option.split)
  ultimately show ?thesis using m by (simp add: storable_def row_stamped)
qed

lemma saved_stores:
  assumes "list_all (storable dump) ms"
  shows "stores dump validate
    (Some (utf8_encode (concat (map (\<lambda>m. dumps_default (PyDict (message_row dump key m)) @ [CHR 0x0A]) ms)))) ms"
proof -
  let ?rs = "map (\<lambda>m. ('' '', message_row dump key m)) ms"
  have "rows_text ?rs = concat (map (\<lambda>m. dumps_default (PyDict (message_row dump key m)) @ [CHR 0x0A]) ms)"
    by (simp add: rows_text_def row_text_def add_nl_def comp_def del: dumps_with.simps)
  moreover have "list_all row_ok ?rs" using assms row_storable by (auto simp: list_all_iff row_ok_def simp del: json_ok.simps)
  moreover have "load_rows validate uid (map snd ?rs) = renumber uid ms" for uid
    using load_message_rows [of uid key ms] by (simp add: comp_def)
  ultimately show ?thesis using storesI [of dump ms ?rs validate] assms by metis
qed

lemma merge_renumber:
  "map bare (merge_preserved_cleanup_prompts dump (renumber uid ms) ns) = map bare (merge_preserved_cleanup_prompts dump ms ns)"
proof -
  let ?keys = "set (map (cleanup_prompt_identity dump) (filter is_cleanup_prompt_message ns))"
  let ?P = "\<lambda>m. is_cleanup_prompt_message m \<and> cleanup_prompt_identity dump m \<notin> ?keys"
  have prompt: "is_cleanup_prompt_message (m\<lparr>ms_object := u\<rparr>) = is_cleanup_prompt_message m" for m u
    by (simp add: is_cleanup_prompt_message_def metadata_type_is_def)
  have "map bare (filter is_cleanup_prompt_message (renumber uid ms)) = map bare (filter is_cleanup_prompt_message ms)"
    by (rule filter_renumber) (rule prompt)
  then have "filter is_cleanup_prompt_message (renumber uid ms) = [] \<longleftrightarrow> filter is_cleanup_prompt_message ms = []"
    by (metis map_is_Nil_conv)
  moreover have "map bare (filter ?P (renumber uid ms)) = map bare (filter ?P ms)"
    by (rule filter_renumber) (simp add: identity_object prompt)
  ultimately show ?thesis by (simp add: merge_preserved_cleanup_prompts_def Let_def del: set_map)
qed

lemma storable_merge:
  "list_all (storable dump) ms \<Longrightarrow> list_all (storable dump) ns \<Longrightarrow>
     list_all (storable dump) (merge_preserved_cleanup_prompts dump ms ns)"
  by (auto simp: merge_preserved_cleanup_prompts_def Let_def list_all_iff)

lemma storable_renumber: "list_all (storable dump) ms \<Longrightarrow> list_all (storable dump) (renumber uid ms)"
  by (induction ms arbitrary: uid) (simp_all add: storable_def dump_object)

lemma stores_bare: "map bare ms = map bare ns \<Longrightarrow> stores dump validate file ms \<Longrightarrow> list_all (storable dump) ns
     \<Longrightarrow> stores dump validate file ns"
  using renumber_bare [of ms ns] by (auto simp: stores_def)

lemma stores_save:
  assumes "stores dump validate file ms" and "list_all (storable dump) ns"
  shows "\<exists>file'. session_save dump validate key uid preserve ns file = Inr file'
     \<and> stores dump validate file' (swrite_spec dump (Save_Messages preserve ns) ms)"
proof (cases "preserve \<and> file \<noteq> None")
  case True
  let ?m = "merge_preserved_cleanup_prompts dump (renumber uid ms) ns"
  have ms: "list_all (storable dump) ms" using assms(1) by (simp add: stores_def)
  have "list_all (storable dump) ?m" by (rule storable_merge [OF storable_renumber [OF ms] assms(2)])
  from stores_bare [OF merge_renumber saved_stores [OF this, of key] storable_merge [OF ms assms(2)]]
  show ?thesis using True stores_load [OF assms(1), of uid] by (simp add: session_save_def)
next
  case False
  have "merge_preserved_cleanup_prompts dump ms ns = ns" if "file = None"
  proof -
    have "ms = []" using stores_load [OF assms(1), of 0] that by (cases ms) (simp_all add: session_load_def)
    then show ?thesis by (simp add: merge_preserved_cleanup_prompts_def)
  qed
  then show ?thesis using False saved_stores [OF assms(2), of key] by (auto simp: session_save_def)
qed

lemma stores_exec:
  assumes "stores dump validate file ms" and "swrite_ok dump w"
  shows "\<exists>file'. swrite_exec dump validate key uid w file = Inr file' \<and> stores dump validate file' (swrite_spec dump w ms)"
proof (cases w)
  case (Append_Message m)
  then have "storable dump m" using assms(2) by simp
  then show ?thesis
    using stores_append [OF assms(1), of "message_row dump key m" "[m]"] row_storable [of m key] row_read
    by (simp add: Append_Message session_append_def del: json_ok.simps)
next
  case (Append_Meta entry)
  let ?d = "dict_set ''session_id'' (PyStr (sk_session_id key)) entry"
  have "json_ok (PyDict ?d)"
    using assms(2) dict_set_in [of _ _ "''session_id''" "PyStr (sk_session_id key)" entry] Append_Meta
    by (force simp: distinct_dict_set list_all_iff)
  moreover have "row_message validate u ?d = None" for u
    using assms(2) Append_Meta by (simp add: row_message_def fst_dict_set)
  ultimately show ?thesis
    using stores_append [OF assms(1), of ?d "[]"] assms(2) by (simp add: Append_Meta append_meta_def del: json_ok.simps)
next
  case (Save_Messages preserve ns)
  then show ?thesis using stores_save [OF assms(1)] assms(2) by simp
qed

lemma stores_run:
  "stores dump validate f ms \<Longrightarrow> list_all (swrite_ok dump) ws \<Longrightarrow>
     \<exists>f'. swrite_run dump validate key uid ws f = Inr f' \<and> stores dump validate f' (fold (swrite_spec dump) ws ms)"
proof (induction ws arbitrary: f ms)
  case (Cons w ws)
  then obtain f' where "swrite_exec dump validate key uid w f = Inr f'" "stores dump validate f' (swrite_spec dump w ms)"
    using stores_exec [OF Cons.prems(1), of w key uid] Cons.prems(2) by auto
  then show ?case using Cons by simp
qed simp

lemma stores_new: "stores dump validate None []"
  by (simp add: stores_def)

end

text \<open>
  C19: The session file refines a list of messages. Take any sequence of writes to a new session (messages appended, metadata
  rows, rewrites after a compaction with or without the cleanup prompts of the old file) in which all values can be written
  as JSON (in particular every number is finite) and every metadata row has a type and no role, as the writer demands, and
  let validating the dump of a message give back the message, as pydantic does. Then no write fails, and reading the session
  back gives exactly the messages that the writes say, with all their fields, as new objects.
\<close>

theorem session_refines_messages:
  assumes "message_schema dump validate" and "list_all (swrite_ok dump) ws"
  shows "\<exists>file. swrite_run dump validate key uid ws None = Inr file
    \<and> session_load validate uid' file = Inr (renumber uid' (fold (swrite_spec dump) ws []))"
  using message_schema.stores_run [OF assms(1) message_schema.stores_new [OF assms(1)] assms(2), of key uid] stores_load by blast

definition demo_key :: session_key where
  "demo_key = \<lparr>sk_cwd = ''/p'', sk_session_id = ''s'', sk_git_branch = Some ''main''\<rparr>"

definition demo_ask :: Message where
  "demo_ask = new_message 1 RoleUser (TextContent ''hi'') []"

definition demo_call :: Message where
  "demo_call = new_message 2 RoleAssistant (Blocks [TextBlock ''ok'', ToolUseBlock ''t1'' ''bash'' [] []]) []"

definition demo_prompt :: Message where
  "demo_prompt = new_message 3 RoleUser (TextContent ''clean up'') [(''type'', PyStr CLEANUP_PROMPT_METADATA_TYPE)]"

definition demo_writes :: "swrite list" where
  "demo_writes = [Append_Message demo_ask, Append_Meta [(''type'', PyStr ''mode'')], Append_Message demo_prompt,
     Save_Messages True [demo_ask], Append_Message demo_call]"

theorem session_refines_messages_witness:
  "\<exists>file. swrite_run dump_message validate_message demo_key 9 demo_writes None = Inr file
    \<and> session_load validate_message 0 file
      = Inr [demo_ask\<lparr>ms_object := 0\<rparr>, demo_prompt\<lparr>ms_object := 1\<rparr>, demo_call\<lparr>ms_object := 2\<rparr>]"
proof -
  have "fold (swrite_spec dump_message) demo_writes [] = [demo_ask, demo_prompt, demo_call]"
    by (simp add: demo_writes_def demo_ask_def demo_prompt_def demo_call_def merge_preserved_cleanup_prompts_def
        new_message_def is_cleanup_prompt_message_def metadata_type_is_def)
  moreover have "list_all (swrite_ok dump_message) demo_writes"
    by (simp add: demo_writes_def demo_ask_def demo_prompt_def demo_call_def storable_def dump_message_def new_message_def
        scan_number_def scan_int_def scan_frac_def scan_exp_def is_digit_def startswith_def Let_def)
  ultimately show ?thesis
    using session_refines_messages [OF message.message_schema_axioms, of demo_writes demo_key 9 0] by (simp add: numeral_2_eq_2)
qed

section \<open>A session that ends early\<close>

definition unfinished :: "Message list \<Rightarrow> bool" where
  \<comment> \<open>paired but for calls in the last message\<close>
  "unfinished ms \<longleftrightarrow> (\<exists>hs a. ms = hs @ [a] \<and> paired hs \<and> ms_role a = RoleAssistant \<and> tool_use_ids a \<noteq> [] \<and> tool_result_ids a = [])"

lemma paired_take: "paired ms \<Longrightarrow> paired (take n ms) \<or> unfinished (take n ms)"
proof (induction ms arbitrary: n rule: paired.induct)
  case (2 m)
  then show ?case by (cases n) simp_all
next
  case (3 m r ms)
  have ext: "unfinished (xs @ ys)" if xs: "paired xs" and ys: "unfinished ys" for xs ys
  proof -
    obtain hs a where "ys = hs @ [a]" "paired hs" "ms_role a = RoleAssistant" "tool_use_ids a \<noteq> []" "tool_result_ids a = []"
      using ys unfolding unfinished_def by blast
    then show ?thesis using paired_append [OF xs, of hs] unfolding unfinished_def by (metis append_assoc)
  qed
  show ?case
  proof (cases "tool_use_ids m = []")
    case True
    then have m: "plain m" "paired (r # ms)" using 3(3) by (simp_all add: plain_def)
    show ?thesis
    proof (cases n)
      case (Suc k)
      have "paired [m]" using m(1) by (simp add: plain_def)
      then show ?thesis
        using 3(1) [OF True m(2), of k] paired_append [of "[m]" "take k (r # ms)"] ext [of "[m]" "take k (r # ms)"] Suc by auto
    qed simp
  next
    case False
    then have ex: "exchange m r" "paired ms" using 3(3) by (simp_all add: exchange_def)
    consider "n = 0" | "n = 1" | k where "n = Suc (Suc k)" by (cases n; cases "n - 1") auto
    then show ?thesis
    proof cases
      case 2
      then have "unfinished (take n (m # r # ms))"
        using ex(1) by (simp add: unfinished_def exchange_def)
      then show ?thesis ..
    next
      case 3
      then show ?thesis
        using "3.IH"(2) [OF False ex(2), of k] paired_append [OF paired_exchange [OF ex(1)], of "take k ms"]
          ext [OF paired_exchange [OF ex(1)], of "take k ms"]
        by auto
    qed simp
  qed
qed simp

lemma has_tool_use_ids: "has_tool_use m \<longleftrightarrow> tool_use_ids m \<noteq> []"
  by (simp add: has_tool_use_def get_tool_use_blocks_def tool_use_ids_def)

lemma paired_last: "paired ms \<Longrightarrow> ms \<noteq> [] \<Longrightarrow> tool_use_ids (last ms) = []"
proof (induction ms rule: paired.induct)
  case (3 m r ms)
  then show ?case by (cases ms) (auto split: if_splits)
qed simp_all

lemma repair_paired: "paired ms \<Longrightarrow> repair_interrupted uid ms = ms"
  using paired_last [of ms] by (simp add: repair_interrupted_def detect_interruption_def has_tool_use_ids)

lemma repair_unfinished: "unfinished ms \<Longrightarrow> paired (repair_interrupted uid ms)"
proof -
  assume "unfinished ms"
  then obtain hs a where ms: "ms = hs @ [a]" and hs: "paired hs"
    and a: "ms_role a = RoleAssistant" "tool_use_ids a \<noteq> []" "tool_result_ids a = []"
    unfolding unfinished_def by blast
  let ?r = "new_message uid RoleUser (Blocks (map interrupted_result (get_tool_use_blocks a))) []"
  have "tool_use_ids ?r = []" "tool_result_ids ?r = tool_use_ids a"
    by (simp_all add: new_message_def tool_use_ids_def tool_result_ids_def message_blocks_def get_tool_use_blocks_def
        interrupted_result_def filter_map comp_def)
  then have "exchange a ?r" using a by (simp add: exchange_def new_message_def)
  moreover have "repair_interrupted uid ms = hs @ [a, ?r]"
    using a ms by (simp add: repair_interrupted_def detect_interruption_def has_tool_use_ids)
  ultimately show ?thesis using paired_append [OF hs paired_exchange] by simp
qed

lemma ids_object [simp]:
  "tool_use_ids (m\<lparr>ms_object := uid\<rparr>) = tool_use_ids m" "tool_result_ids (m\<lparr>ms_object := uid\<rparr>) = tool_result_ids m"
  by (simp_all add: tool_use_ids_def tool_result_ids_def message_blocks_def)

lemma paired_renumber: "paired (renumber uid ms) \<longleftrightarrow> paired ms"
  by (induction ms arbitrary: uid rule: paired.induct) simp_all

lemma unfinished_renumber: "unfinished ms \<Longrightarrow> unfinished (renumber uid ms)"
proof -
  assume "unfinished ms"
  then obtain hs a where "ms = hs @ [a]" "paired hs" "ms_role a = RoleAssistant" "tool_use_ids a \<noteq> []" "tool_result_ids a = []"
    unfolding unfinished_def by blast
  then show ?thesis unfolding unfinished_def
    by (intro exI [of _ "renumber uid hs"] exI [of _ "a\<lparr>ms_object := uid + length hs\<rparr>"]) (simp add: renumber_append paired_renumber)
qed

subsection \<open>The bytes a crash leaves\<close>

lemma take_rows:
  "\<exists>n \<le> length rs. \<exists>p. take m (rows_text rs) = rows_text (take n rs) @ p
     \<and> (if n = length rs then p = [] else \<exists>q. row_text (rs ! n) = p @ q)"
proof (induction rs arbitrary: m)
  case (Cons r rs)
  show ?case
  proof (cases "m \<le> length (row_text r)")
    case True
    then have "take m (rows_text (r # rs)) = take m (row_text r)" by (simp add: rows_text_simps add_nl_def)
    then show ?thesis by (intro exI [of _ 0]) (auto simp: rows_text_simps intro: exI [of _ "drop m (row_text r)"])
  next
    case False
    then have t: "take m (rows_text (r # rs)) = add_nl (row_text r) @ take (m - Suc (length (row_text r))) (rows_text rs)"
      by (simp add: rows_text_simps add_nl_def take_Cons')
    obtain n p where "n \<le> length rs" "take (m - Suc (length (row_text r))) (rows_text rs) = rows_text (take n rs) @ p"
      "if n = length rs then p = [] else \<exists>q. row_text (rs ! n) = p @ q"
      using Cons.IH by blast
    then show ?thesis using t by (intro exI [of _ "Suc n"] conjI exI [of _ p]) (simp_all add: rows_text_simps)
  qed
qed (simp add: rows_text_simps)

lemma cut_in_char:
  assumes "utf8_lead a" and "m < length t" and "take k (utf8_encode t) = utf8_encode (take m t) @ [a]"
  shows "k < length (utf8_encode t) \<and> utf8_cont (utf8_encode t ! k)"
proof -
  have t: "utf8_encode t = utf8_encode (take m t) @ utf8_char (t ! m) @ utf8_encode (drop (Suc m) t)"
    using id_take_nth_drop [OF assms(2)] by (metis utf8_encode_simps(2,3))
  have ne: "utf8_char (t ! m) \<noteq> []" by (simp add: utf8_char_def Let_def)
  have len: "length (take k (utf8_encode t)) = Suc (length (utf8_encode (take m t)))" using assms(3) by simp
  have "a = take k (utf8_encode t) ! length (utf8_encode (take m t))" by (simp add: assms(3))
  also have "\<dots> = utf8_encode t ! length (utf8_encode (take m t))" using len by (intro nth_take) simp
  also have "\<dots> = hd (utf8_char (t ! m))" using ne by (subst t) (simp add: nth_append hd_conv_nth)
  finally have a: "a = hd (utf8_char (t ! m))" .
  have "\<not> of_char (t ! m) < (128 :: nat)"
  proof
    assume "of_char (t ! m) < (128 :: nat)"
    then have "a = t ! m" using a by (simp add: utf8_char_def)
    then show False using assms(1) \<open>of_char (t ! m) < (128 :: nat)\<close> by (simp add: utf8_lead_def)
  qed
  then obtain b where b: "utf8_char (t ! m) = [a, b]" "utf8_cont b" using utf8_char_pair [of "t ! m"] a by fastforce
  have "length (utf8_encode t) > Suc (length (utf8_encode (take m t)))" by (subst t) (simp add: b(1))
  then have "k = Suc (length (utf8_encode (take m t)))" using len by (simp add: min_def split: if_splits)
  then show ?thesis using b by (subst (1 2) t) (simp add: nth_append)
qed

definition append_rows :: "dumper \<Rightarrow> session_key \<Rightarrow> Message list \<Rightarrow> srow list" where
  "append_rows dump key ms = map (\<lambda>m. ([], message_row dump key m)) ms"

context message_schema
begin

lemma append_rows_ok: "list_all (storable dump) ms \<Longrightarrow> list_all row_ok (append_rows dump key ms)"
  using row_storable by (auto simp: append_rows_def list_all_iff row_ok_def simp del: json_ok.simps)

lemma load_append_rows: "load_rows validate uid (map snd (append_rows dump key ms)) = renumber uid ms"
  using load_message_rows [of uid key ms] by (simp add: append_rows_def comp_def)

lemma append_run:
  "list_all (storable dump) ms \<Longrightarrow> swrite_run dump validate key uid (map Append_Message ms) (Some (utf8_encode (rows_text rs)))
     = Inr (Some (utf8_encode (rows_text (rs @ append_rows dump key ms))))"
proof (induction ms arbitrary: rs)
  case (Cons m ms)
  have "session_append dump key m (Some (utf8_encode (rows_text rs)))
      = Inr (Some (utf8_encode (rows_text (rs @ [([], message_row dump key m)]))))"
    using json_ok_finite [OF row_storable [of m key]] Cons.prems
    by (simp add: session_append_def append_jsonl_locked_def rows_text_simps row_text_def add_nl_def dumps_compact utf8_encode_simps
        del: has_nonfinite.simps dumps_with.simps)
  then show ?case using Cons.IH [of "rs @ [([], message_row dump key m)]"] Cons.prems by (simp add: append_rows_def)
qed (simp add: append_rows_def)

lemma appended_file:
  assumes "list_all (storable dump) ms" and "ms \<noteq> []"
  shows "swrite_run dump validate key uid (map Append_Message ms) None = Inr (Some (utf8_encode (rows_text (append_rows dump key ms))))"
proof -
  obtain m ns where ms: "ms = m # ns" using assms(2) by (cases ms) auto
  have "session_append dump key m None = session_append dump key m (Some (utf8_encode (rows_text [])))"
    by (simp add: session_append_def append_jsonl_locked_def rows_text_simps utf8_encode_simps)
  then show ?thesis using append_run [OF assms(1), of key uid "[]"] by (simp add: ms)
qed

lemma load_cut_rows:
  assumes "list_all (storable dump) ms" and "k \<le> length (rows_text (append_rows dump key ms))"
  obtains n where "n \<le> length ms"
    and "session_load validate uid (Some (utf8_encode (take k (rows_text (append_rows dump key ms))))) = Inr (renumber uid (take n ms))"
    and "\<And>j. n < j \<Longrightarrow> j \<le> length ms \<Longrightarrow> k < length (rows_text (append_rows dump key (take j ms)))"
proof -
  let ?R = "append_rows dump key"
  have len: "length (?R xs) = length xs" for xs by (simp add: append_rows_def)
  have sub: "take j (?R ms) = ?R (take j ms)" for j by (simp add: append_rows_def take_map)
  have ok: "list_all row_ok (?R (take j ms))" for j
    using append_rows_ok [of "take j ms"] assms(1) by (auto simp: list_all_iff dest: in_set_takeD)
  obtain n p where n: "n \<le> length ms" and t: "take k (rows_text (?R ms)) = rows_text (?R (take n ms)) @ p"
    and p: "if n = length ms then p = [] else \<exists>q. row_text (?R ms ! n) = p @ q"
    using take_rows [of "?R ms" k] by (auto simp: len sub)
  show thesis
  proof (cases "n = length ms")
    case True
    then show thesis using that [of n] t p load_complete [OF ok [of n], of validate uid] by (simp add: load_append_rows)
  next
    case False
    then obtain q where q: "row_text (?R ms ! n) = p @ q" using p by auto
    have nth: "?R (take (Suc n) ms) = ?R (take n ms) @ [?R ms ! n]"
      using False n take_Suc_conv_app_nth [of n "?R ms"] by (simp add: len sub)
    let ?n = "if q = [] then Suc n else n"
    have "session_load validate uid (Some (utf8_encode (take k (rows_text (?R ms))))) = Inr (renumber uid (take ?n ms))"
      using load_cut [OF ok [of n], of "?R ms ! n" p q validate uid] ok [of "Suc n"] q t nth
        load_append_rows [of uid key "take (Suc n) ms"] load_append_rows [of uid key "take n ms"]
      by (simp split: if_splits)
    moreover have "k < length (rows_text (?R (take j ms)))" if "?n < j" "j \<le> length ms" for j
    proof -
      have "?R (take j ms) = ?R (take (Suc n) ms) @ drop (Suc n) (?R (take j ms))"
        using append_take_drop_id [of "Suc n" "?R (take j ms)"] sub [of "Suc n"] that False
        by (simp add: append_rows_def take_map min_def split: if_splits)
      then have "length (rows_text (?R (take j ms))) \<ge> length (rows_text (?R (take (Suc n) ms)))"
        by (metis length_append le_add1 rows_text_simps(3))
      moreover have "length (rows_text (?R (take (Suc n) ms))) > length (rows_text (?R (take n ms)) @ p)"
        using q by (simp add: nth rows_text_simps add_nl_def)
      moreover have "length (rows_text (?R (take n ms)) @ p) = k" using arg_cong [OF t, of length] assms(2) by simp
      ultimately show ?thesis by linarith
    qed
    moreover have "?n \<le> length ms" using n False by simp
    ultimately show thesis using that by blast
  qed
qed

end

lemma utf8_length_prefix: "m < length u \<Longrightarrow> length (utf8_encode (take m u)) < length (utf8_encode u)"
proof -
  assume "m < length u"
  then have "drop m u \<noteq> []" by simp
  then have "utf8_encode (drop m u) \<noteq> []" using utf8_decode_encode [of "drop m u"] utf8_decode_encode [of "[]"]
    by (metis Inr_inject utf8_encode_simps(1))
  moreover have "utf8_encode u = utf8_encode (take m u) @ utf8_encode (drop m u)"
    by (metis append_take_drop_id utf8_encode_simps(3))
  ultimately show ?thesis by simp
qed

lemma rows_text_prefix: "j \<le> length ms \<Longrightarrow> \<exists>z. rows_text (append_rows dump key ms) = rows_text (append_rows dump key (take j ms)) @ z"
  by (metis append_rows_def append_take_drop_id map_append rows_text_simps(3))

text \<open>
  C20: A session is killed while it appends the messages of a history in which every call has its result, so that the
  first \<open>k\<close> bytes of the file are left. Reading the file gives the messages whose rows are complete (a row counts as
  complete without its newline), and after the repair for interrupted sessions every tool call has exactly one result
  again. The one exception is a cut inside a character: then reading raises the decoding error.\<close>

theorem killed_session_repaired:
  assumes "message_schema dump validate" and "paired ms" and "list_all (storable dump) ms"
    and "swrite_run dump validate key uid (map Append_Message ms) None = Inr (Some file)"
  shows "case session_load validate uid' (Some (take k file)) of
      Inl e \<Rightarrow> e = Undecodable \<and> k < length file \<and> utf8_cont (file ! k)
    | Inr loaded \<Rightarrow> \<exists>n \<le> length ms. loaded = renumber uid' (take n ms) \<and> paired (repair_interrupted uid'' loaded)
        \<and> (\<forall>j \<le> length ms. \<forall>written. swrite_run dump validate key uid (map Append_Message (take j ms)) None = Inr (Some written)
             \<and> length written \<le> k \<longrightarrow> j \<le> n)"
proof -
  let ?R = "append_rows dump key" and ?t = "rows_text (append_rows dump key ms)"
  have "ms \<noteq> []" using assms(4) by auto
  then have fl: "file = utf8_encode ?t" using message_schema.appended_file [OF assms(1,3)] assms(4) by simp
  obtain m where m: "m \<le> length ?t" "take k file = utf8_encode (take m ?t)
      \<or> (\<exists>a. utf8_lead a \<and> m < length ?t \<and> take k file = utf8_encode (take m ?t) @ [a])"
    using take_utf8_encode [of ?t k] fl by auto
  from m(2) show ?thesis
  proof
    assume cut: "take k file = utf8_encode (take m ?t)"
    obtain n where n: "n \<le> length ms" "session_load validate uid' (Some (utf8_encode (take m ?t))) = Inr (renumber uid' (take n ms))"
      "\<And>j. n < j \<Longrightarrow> j \<le> length ms \<Longrightarrow> m < length (rows_text (?R (take j ms)))"
      using message_schema.load_cut_rows [OF assms(1,3) m(1)] by blast
    have "paired (repair_interrupted uid'' (renumber uid' (take n ms)))"
      using paired_take [OF assms(2), of n] unfinished_renumber repair_unfinished paired_renumber repair_paired by metis
    moreover have "j \<le> n" if j: "j \<le> length ms" and w: "swrite_run dump validate key uid (map Append_Message (take j ms)) None = Inr (Some w)"
        and short: "length w \<le> k" for j w
    proof (rule ccontr)
      assume "\<not> j \<le> n"
      then have less: "m < length (rows_text (?R (take j ms)))" using n(3) j by simp
      obtain z where z: "?t = rows_text (?R (take j ms)) @ z" using rows_text_prefix [OF j] by blast
      have "take j ms \<noteq> []"
      proof
        assume "take j ms = []"
        with w show False by (simp only: list.map swrite_run.simps) simp
      qed
      moreover have "list_all (storable dump) (take j ms)" using assms(3) by (auto simp: list_all_iff dest: in_set_takeD)
      ultimately have "w = utf8_encode (rows_text (?R (take j ms)))"
        using message_schema.appended_file [OF assms(1)] w by fastforce
      then have "length (take k file) < length w"
        using utf8_length_prefix [OF less] less z by (simp add: cut)
      moreover have "length w \<le> length file" using z fl \<open>w = _\<close> by (simp add: utf8_encode_simps)
      ultimately show False using short by simp
    qed
    ultimately show ?thesis using n(1,2) cut by auto
  next
    assume "\<exists>a. utf8_lead a \<and> m < length ?t \<and> take k file = utf8_encode (take m ?t) @ [a]"
    then obtain a where a: "utf8_lead a" "m < length ?t" "take k file = utf8_encode (take m ?t) @ [a]" by blast
    then show ?thesis
      using utf8_decode_torn [OF a(1), of "take m ?t"] cut_in_char [OF a(1,2), of k] fl by (simp add: session_load_def)
  qed
qed

definition demo_result :: Message where
  "demo_result = new_message 3 RoleUser (Blocks [ToolResultBlock ''t1'' ''done'' False []]) []"

theorem killed_session_repaired_witness:
  "\<exists>file. swrite_run dump_message validate_message demo_key 9 (map Append_Message [demo_ask, demo_call, demo_result]) None = Inr (Some file)
     \<and> (case session_load validate_message 0 (Some (take 400 file)) of
          Inl e \<Rightarrow> e = Undecodable \<and> 400 < length file \<and> utf8_cont (file ! 400)
        | Inr loaded \<Rightarrow> \<exists>n \<le> 3. loaded = renumber 0 (take n [demo_ask, demo_call, demo_result]) \<and> paired (repair_interrupted 7 loaded))"
proof -
  let ?ms = "[demo_ask, demo_call, demo_result]"
  have ok: "list_all (storable dump_message) ?ms"
    by (simp add: demo_ask_def demo_result_def demo_call_def storable_def dump_message_def new_message_def
        scan_number_def scan_int_def scan_frac_def scan_exp_def is_digit_def startswith_def Let_def)
  have paired: "paired ?ms"
    by (simp add: demo_ask_def demo_result_def demo_call_def new_message_def tool_use_ids_def tool_result_ids_def message_blocks_def)
  obtain f where f: "swrite_run dump_message validate_message demo_key 9 (map Append_Message ?ms) None = Inr (Some f)"
    using message.appended_file [OF ok] by blast
  note killed_session_repaired [OF message.message_schema_axioms paired ok f, where k = 400 and uid' = 0 and uid'' = 7]
  then show ?thesis
    by (intro exI [of _ f] conjI f) (cases "session_load validate_message 0 (Some (take 400 f))"; auto simp: numeral_3_eq_3)
qed

text \<open>
  A row is appended without looking at the end of the file. After a crash that left the first byte of a row, the next
  message that is appended continues this line, is reported as written, and is missing when the session is read.\<close>

theorem append_after_torn_row_lost:
  assumes "message_schema dump validate" and "list_all (storable dump) (ms @ [m])"
    and "swrite_run dump validate key uid (map Append_Message ms) None = Inr (Some file)"
  shows "\<exists>file'. session_append dump key m (Some (file @ ''{'')) = Inr (Some file')
    \<and> session_load validate uid' (Some file') = Inr (renumber uid' ms)"
proof -
  let ?R = "append_rows dump key" and ?r = "([], message_row dump key m)"
  have ms: "list_all (storable dump) ms" "storable dump m" "ms \<noteq> []" using assms(2,3) by auto
  have fl: "file = utf8_encode (rows_text (?R ms))" using message_schema.appended_file [OF assms(1) ms(1,3)] assms(3) by simp
  have row: "json_ok (PyDict (message_row dump key m))" by (rule message_schema.row_storable [OF assms(1) ms(2)])
  then have r: "row_ok ?r" by (simp add: row_ok_def)
  let ?p = "CHR ''{'' # row_text ?r"
  let ?file = "utf8_encode (rows_text (?R ms) @ add_nl ?p)"
  have enc: "utf8_encode ''{'' = ''{''" by (simp add: utf8_encode_simps utf8_char_def)
  have "session_append dump key m (Some (file @ ''{'')) = Inr (Some ?file)"
    using json_ok_finite [OF row] enc fl
    by (simp add: session_append_def append_jsonl_locked_def row_text_def add_nl_def dumps_compact utf8_encode_simps
        del: has_nonfinite.simps dumps_with.simps)
  moreover have "session_load validate uid' (Some ?file) = Inr (renumber uid' ms)"
  proof -
    have rows: "list_all (\<lambda>t. list_all (\<lambda>c. \<not> bytes_break c) t) (map row_text (?R ms))"
      using message_schema.append_rows_ok [OF assms(1) ms(1), of key] row_no_break by (auto simp: list_all_iff)
    have "list_all (\<lambda>c. \<not> bytes_break c) ?p" using row_no_break [OF r] by (simp add: bytes_break_def)
    then have lines: "splitlines_keep bytes_break (rows_text (?R ms) @ add_nl ?p) = map (add_nl \<circ> row_text) (?R ms) @ [add_nl ?p]"
      using splitlines_keep_lines [of bytes_break "[]" "map row_text (?R ms) @ [?p]"] rows str_break_newline
      by (simp add: rows_text_def)
    obtain u where u: "row_text ?r = CHR ''{'' # u @ ''}''" using row_braces by blast
    have "strip (add_nl ?p) = ?p" by (simp add: strip_def lstrip_def rstrip_by_def add_nl_def u)
    moreover have "json_loads ?p = None"
      by (simp add: u json_loads_with_def parse_value.simps parse_members.simps startswith_def)
    ultimately have "load_lines validate n [add_nl ?p] = []" for n by (simp add: Let_def)
    then show ?thesis
      using load_lines_rows [OF message_schema.append_rows_ok [OF assms(1) ms(1)], of validate uid' key "[add_nl ?p]"] lines
        message_schema.load_append_rows [OF assms(1), of uid' key ms]
      by (simp add: session_load_def utf8_decode_encode Let_def)
  qed
  ultimately show ?thesis by blast
qed

theorem append_after_torn_row_lost_witness:
  "\<exists>file file'. swrite_run dump_message validate_message demo_key 9 (map Append_Message [demo_ask]) None = Inr (Some file)
     \<and> session_append dump_message demo_key demo_call (Some (file @ ''{'')) = Inr (Some file')
     \<and> session_load validate_message 0 (Some file') = Inr (renumber 0 [demo_ask])"
proof -
  have ok: "list_all (storable dump_message) ([demo_ask] @ [demo_call])"
    by (simp add: demo_ask_def demo_call_def storable_def dump_message_def new_message_def
        scan_number_def scan_int_def scan_frac_def scan_exp_def is_digit_def startswith_def Let_def)
  then obtain f where "swrite_run dump_message validate_message demo_key 9 (map Append_Message [demo_ask]) None = Inr (Some f)"
    using message.appended_file [of "[demo_ask]" demo_key 9] by auto
  then show ?thesis using append_after_torn_row_lost [OF message.message_schema_axioms ok] by blast
qed

end
