(* ===== verification/Step_Recovery.thy ===== *)
theory Step_Recovery
  imports Session_Store State_Machine
begin

text \<open>
  How a pipeline step resumes from the transcript of its agent: \<^verbatim>\<open>pipeline/engine/resume_recovery.py\<close> merges the repaired
  transcript with the messages of the sidecar (an answer that arrived while the process was down),
  \<^verbatim>\<open>pipeline/engine/recovery.py\<close> finds the result of a step that was already completed, and
  \<^verbatim>\<open>pipeline/engine/completion_guard_state.py\<close> rebuilds the evidence the completion guards look at. The content of a
  result is a text, as it is in a transcript; reading an externalised result, \<^verbatim>\<open>expanduser\<close> with \<^verbatim>\<open>expandvars\<close>,
  \<^verbatim>\<open>realpath\<close> and the ellipsis character (which is not in the modelled alphabet) are arguments, and so is \<^verbatim>\<open>str\<close> of
  a value that is no string.
\<close>

section \<open>Reconciling transcript and sidecar\<close>

definition message_key :: "dumper \<Rightarrow> Message \<Rightarrow> string" where
  "message_key dump m = dumps_default (sort_keys (PyDict (dump m)))"

definition seen_result_ids :: "Message \<Rightarrow> string list" where
  \<comment> \<open>\<^verbatim>\<open>_tool_result_ids\<close>\<close>
  "seen_result_ids m = filter (\<lambda>i. i \<noteq> []) (tool_result_ids m)"

definition keep_blocks :: "(ContentBlock \<Rightarrow> bool) \<Rightarrow> Message \<Rightarrow> Message option" where
  \<comment> \<open>the message with the blocks kept, the message itself when all are, nothing when none is\<close>
  "keep_blocks P m =
     (case ms_content m of
        TextContent _ \<Rightarrow> Some m
      | Blocks bs \<Rightarrow>
          let content = filter P bs in
          if content = [] then None
          else if length content = length bs then Some m
          else Some (m\<lparr>ms_content := Blocks content\<rparr>))"

definition without_seen_tool_results :: "string list \<Rightarrow> Message \<Rightarrow> Message option" where
  "without_seen_tool_results seen m =
     keep_blocks (\<lambda>b. \<not> is_ToolResultBlock b \<or> tr_tool_use_id b \<notin> set seen) m"

definition sidecar_successes :: "Message list \<Rightarrow> string list" where
  \<comment> \<open>\<^verbatim>\<open>_successful_tool_result_ids\<close> of \<^verbatim>\<open>resume_recovery.py\<close>\<close>
  "sidecar_successes ms = concat (map (\<lambda>m. map tr_tool_use_id
     (filter (\<lambda>b. is_ToolResultBlock b \<and> tr_tool_use_id b \<noteq> [] \<and> \<not> tr_is_error b) (message_blocks m))) ms)"

definition without_overridden_error_results :: "string list \<Rightarrow> Message \<Rightarrow> Message option" where
  "without_overridden_error_results successful m =
     keep_blocks (\<lambda>b. \<not> (is_ToolResultBlock b \<and> tr_is_error b \<and> tr_tool_use_id b \<in> set successful)) m"

fun merge_sidecar :: "dumper \<Rightarrow> string list \<Rightarrow> string list \<Rightarrow> Message list \<Rightarrow> Message list \<Rightarrow> Message list" where
  "merge_sidecar dump seen_keys seen_ids merged [] = merged"
| "merge_sidecar dump seen_keys seen_ids merged (m # ms) =
     (if message_key dump m \<in> set seen_keys then merge_sidecar dump seen_keys seen_ids merged ms
      else
        (case without_seen_tool_results seen_ids m of
           None \<Rightarrow> merge_sidecar dump seen_keys seen_ids merged ms
         | Some f \<Rightarrow> merge_sidecar dump (message_key dump f # seen_keys) (seen_result_ids f @ seen_ids) (merged @ [f]) ms))"

definition none_if_empty :: "'a list \<Rightarrow> 'a list option" where
  "none_if_empty xs = (if xs = [] then None else Some xs)"

definition reconcile_resume_messages :: "dumper \<Rightarrow> Message list option \<Rightarrow> Message list option \<Rightarrow> Message list option" where
  "reconcile_resume_messages dump transcript_messages sidecar_messages =
     (let merged = (case transcript_messages of None \<Rightarrow> [] | Some ms \<Rightarrow> ms) in
      case sidecar_messages of
        None \<Rightarrow> none_if_empty merged
      | Some sidecar \<Rightarrow>
          if sidecar = [] then none_if_empty merged
          else if merged = [] then Some sidecar
          else
            let successful = sidecar_successes sidecar;
                merged = (if successful \<noteq> [] then List.map_filter (without_overridden_error_results successful) merged else merged)
            in none_if_empty (merge_sidecar dump (map (message_key dump) merged) (concat (map seen_result_ids merged)) merged sidecar))"

definition user_message_already_in_resume :: "dumper \<Rightarrow> nat \<Rightarrow> msg_content option \<Rightarrow> Message list option \<Rightarrow> bool" where
  "user_message_already_in_resume dump uid user_message resume_messages =
     (case (user_message, resume_messages) of
        (Some content, Some ms) \<Rightarrow>
          ms \<noteq> [] \<and> list_ex (\<lambda>m. message_key dump m = message_key dump (new_message uid RoleUser content [])) ms
      | _ \<Rightarrow> False)"

section \<open>The result of a completed step\<close>

definition tool_uses_by_id :: "Message list \<Rightarrow> (string \<times> ContentBlock) list" where
  "tool_uses_by_id ms = fold (\<lambda>m d. if ms_role m = RoleAssistant
     then fold (\<lambda>b d. dict_set (tu_id b) b d) (get_tool_use_blocks m) d else d) ms []"

definition user_results :: "Message list \<Rightarrow> ContentBlock list" where
  \<comment> \<open>the result blocks of the user messages, in order\<close>
  "user_results ms = concat (map (\<lambda>m. if ms_role m = RoleUser then filter is_ToolResultBlock (message_blocks m) else []) ms)"

definition successful_tool_result_ids :: "Message list \<Rightarrow> string list" where
  "successful_tool_result_ids ms = map tr_tool_use_id (filter (\<lambda>b. \<not> tr_is_error b) (user_results ms))"

definition last_successful_tool_input :: "Message list \<Rightarrow> string \<Rightarrow> pydict option" where
  "last_successful_tool_input ms tool_name =
     first_some (\<lambda>i. case map_of (tool_uses_by_id ms) i of
         None \<Rightarrow> None
       | Some tu \<Rightarrow> if tu_name tu = tool_name then Some (tu_input tu) else None)
       (rev (successful_tool_result_ids ms))"

record StepResult =
  sr_step_id :: string
  sr_status :: StepStatus
  sr_conclusion :: pydict
  sr_rollback_request :: "(string \<times> string) option"

definition py_str :: "(pyval \<Rightarrow> string) \<Rightarrow> pyval \<Rightarrow> string" where
  "py_str str_of v = (case v of PyStr s \<Rightarrow> s | _ \<Rightarrow> str_of v)"

definition reconstruct_step_result :: "(pyval \<Rightarrow> string) \<Rightarrow> Message list \<Rightarrow> string \<Rightarrow> StepResult option" where
  "reconstruct_step_result str_of ms step =
     (case last_successful_tool_input ms ''complete_step'' of
        None \<Rightarrow> None
      | Some tool_input \<Rightarrow>
          Some \<lparr>sr_step_id = step, sr_status = COMPLETED,
            sr_conclusion = (case map_of tool_input ''conclusion'' of Some (PyDict c) \<Rightarrow> c | _ \<Rightarrow> []),
            sr_rollback_request =
              (case map_of tool_input ''rollback_request'' of
                 Some (PyDict rb) \<Rightarrow>
                   if truthy (dict_get ''target_step'' rb) \<and> truthy (dict_get ''reason'' rb)
                   then Some (py_str str_of (dict_get ''target_step'' rb), py_str str_of (dict_get ''reason'' rb))
                   else None
               | _ \<Rightarrow> None)\<rparr>)"

section \<open>Evidence for the completion guards\<close>

record guard_state =
  gs_successful_tools :: "string list" \<comment> \<open>a set\<close>
  gs_tool_results :: "(string \<times> pydict) list"
  gs_tool_result_records :: "pydict list"
  gs_completion_record_contract :: "string option"
  gs_cwd :: "string option"
  gs_ros_deploy_owned_stack_ids :: "(string \<times> string) list" \<comment> \<open>stack and action\<close>

datatype file_read = Read_Text string | Read_OSError | Read_Undecodable

record guard_env =
  ge_read_text :: "string \<Rightarrow> file_read"
  ge_expand :: "string \<Rightarrow> string" \<comment> \<open>\<^verbatim>\<open>expandvars(expanduser(path))\<close>\<close>
  ge_canonical :: "string \<Rightarrow> string" \<comment> \<open>\<^verbatim>\<open>normcase(realpath(abspath(path)))\<close>\<close>
  ge_ellipsis :: string

definition FILE_MUTATION_TOOLS :: "string list" where
  "FILE_MUTATION_TOOLS = [''write_file'', ''edit_file'']"

definition SOLUTION_FIRST_ROS_RESULT_TOOLS :: "string list" where
  "SOLUTION_FIRST_ROS_RESULT_TOOLS =
     [''ros_get_template_parameter_constraints'', ''ros_preview_template'', ''ros_estimate_template_cost'']"

definition ROS_PREFLIGHT_RESULT_TOOLS :: "string list" where
  "ROS_PREFLIGHT_RESULT_TOOLS = [''ros_deploy'', ''ros_stack'', ''ros_validate_template''] @ SOLUTION_FIRST_ROS_RESULT_TOOLS"

definition ensure_completion_guard_state :: guard_state where
  \<comment> \<open>of an empty state\<close>
  "ensure_completion_guard_state = \<lparr>gs_successful_tools = [], gs_tool_results = [], gs_tool_result_records = [],
     gs_completion_record_contract = None, gs_cwd = None, gs_ros_deploy_owned_stack_ids = []\<rparr>"

definition stack_result_from_metadata :: "pydict option \<Rightarrow> pydict option" where
  "stack_result_from_metadata metadata =
     (case metadata of
        None \<Rightarrow> None
      | Some md \<Rightarrow> (case map_of md ''stack_result'' of Some (PyDict r) \<Rightarrow> Some r | _ \<Rightarrow> None))"

definition json_object_before_ros_preflight_suffix :: "string \<Rightarrow> pydict option" where
  "json_object_before_ros_preflight_suffix val =
     (case raw_decode (lstrip val) of
        Some (PyDict parsed, rest) \<Rightarrow>
          let trailing = dropWhile (\<lambda>c. c \<in> {CHR 0x0D, CHR 0x0A}) rest in
          if \<not> startswith trailing (''---'' @ [newline]) then None
          else
            let body = drop 4 trailing;
                header = (if body = [] then [] else hd (splitlines str_break body))
            in if contains ''ROS'' header then Some parsed else None
      | _ \<Rightarrow> None)"

definition json_object :: "bool \<Rightarrow> string \<Rightarrow> pydict option" where
  "json_object allow_ros_preflight_suffix val =
     (if val = [] then None
      else
        (case json_loads val of
           None \<Rightarrow> if allow_ros_preflight_suffix then json_object_before_ros_preflight_suffix val else None
         | Some (PyDict d) \<Rightarrow> Some d
         | Some _ \<Rightarrow> None))"

definition or_value :: "pyval \<Rightarrow> pyval \<Rightarrow> pyval" where
  "or_value a b = (if truthy a then a else b)"

definition add_canonical_file_path :: "guard_env \<Rightarrow> pydict \<Rightarrow> string option \<Rightarrow> pydict \<Rightarrow> pydict" where
  "add_canonical_file_path env tool_input cwd result =
     (case or_value (or_value (dict_get ''file_path'' result) (dict_get ''path'' tool_input)) (dict_get ''file_path'' tool_input) of
        PyStr path \<Rightarrow>
          (case cwd of
             Some dir \<Rightarrow>
               if path = [] \<or> contains ''://'' path \<or> dir = [] then result
               else
                 let expanded = ge_expand env path;
                     expanded = (if path_isabs expanded then expanded else path_join dir expanded)
                 in if ''canonical_file_path'' \<in> fst ` set result then result
                    else dict_set ''canonical_file_path'' (PyStr (ge_canonical env expanded)) result
           | None \<Rightarrow> result)
      | _ \<Rightarrow> result)"

definition file_mutation_result :: "guard_env \<Rightarrow> pydict \<Rightarrow> string option \<Rightarrow> pydict option" where
  "file_mutation_result env tool_input cwd =
     (case or_value (dict_get ''path'' tool_input) (dict_get ''file_path'' tool_input) of
        PyStr path \<Rightarrow> if path = [] then None else Some (add_canonical_file_path env tool_input cwd [(''file_path'', PyStr path)])
      | _ \<Rightarrow> None)"

definition bounded_error_summary :: "guard_env \<Rightarrow> string \<Rightarrow> string" where
  "bounded_error_summary env content =
     (let text = filter (\<lambda>c. c \<noteq> CHR 0x00) (strip content) in
      if length text \<le> 500 then text else take 500 text @ ge_ellipsis env)"

definition nonempty_str :: "pydict \<Rightarrow> string \<Rightarrow> string option" where
  "nonempty_str d k = (case map_of d k of Some (PyStr s) \<Rightarrow> if s = [] then None else Some s | _ \<Rightarrow> None)"

definition effective_region_id :: "pydict \<Rightarrow> pydict option \<Rightarrow> pydict option \<Rightarrow> string" where
  "effective_region_id tool_input metadata result =
     (case first_some (\<lambda>source. first_some (nonempty_str source) [''effective_region_id'', ''region_id'', ''RegionId'', ''regionId''])
         [case metadata of None \<Rightarrow> [] | Some md \<Rightarrow> md, case result of None \<Rightarrow> [] | Some r \<Rightarrow> r, tool_input] of
        None \<Rightarrow> [] | Some s \<Rightarrow> s)"

definition owning_action :: "pydict \<Rightarrow> string option" where
  "owning_action tool_input =
     (case map_of tool_input ''action'' of
        Some (PyStr a) \<Rightarrow> if a \<in> {''create'', ''delete_and_create''} then Some a else None
      | _ \<Rightarrow> None)"

definition record_ros_deploy_owned_stack :: "pydict \<Rightarrow> pydict \<Rightarrow> guard_state \<Rightarrow> guard_state" where
  "record_ros_deploy_owned_stack tool_input result gs =
     (case (owning_action tool_input, nonempty_str result ''stack_id'') of
        (Some action, Some stack) \<Rightarrow>
          gs\<lparr>gs_ros_deploy_owned_stack_ids := dict_set stack action (gs_ros_deploy_owned_stack_ids gs)\<rparr>
      | _ \<Rightarrow> gs)"

definition record_ros_deploy_observed_stack :: "pydict \<Rightarrow> string \<Rightarrow> guard_state \<Rightarrow> guard_state" where
  "record_ros_deploy_observed_stack tool_input stack gs =
     (case owning_action tool_input of
        Some action \<Rightarrow>
          if stack = [] then gs
          else gs\<lparr>gs_ros_deploy_owned_stack_ids := dict_set stack action (gs_ros_deploy_owned_stack_ids gs)\<rparr>
      | None \<Rightarrow> gs)"

definition add_successful :: "string \<Rightarrow> guard_state \<Rightarrow> guard_state" where
  "add_successful t gs = gs\<lparr>gs_successful_tools := List.insert t (gs_successful_tools gs)\<rparr>"

definition add_record :: "pydict \<Rightarrow> guard_state \<Rightarrow> guard_state" where
  "add_record r gs = gs\<lparr>gs_tool_result_records := gs_tool_result_records gs @ [r]\<rparr>"

definition is_v2 :: "guard_state \<Rightarrow> bool" where
  "is_v2 gs = (gs_completion_record_contract gs = Some ''v2'')"

definition v2_fields :: "guard_state \<Rightarrow> string option \<Rightarrow> string \<Rightarrow> pydict" where
  "v2_fields gs record_id error_summary =
     (let sequence = Suc (length (gs_tool_result_records gs)) in
      [(''record_id'', PyStr (case record_id of Some i \<Rightarrow> if i = [] then ''record-'' @ nat_str sequence else i
                                 | None \<Rightarrow> ''record-'' @ nat_str sequence)),
       (''sequence'', PyInt (int sequence)), (''error_summary'', PyStr error_summary)])"

definition record_ask_user_question ::
    "guard_env \<Rightarrow> pydict \<Rightarrow> string \<Rightarrow> bool \<Rightarrow> string option \<Rightarrow> guard_state \<Rightarrow> guard_state" where
  "record_ask_user_question env tool_input content is_error record_id gs =
     (if is_error then
        (if is_v2 gs then
           add_record (let v2 = v2_fields gs record_id (bounded_error_summary env content) in
             take 2 v2 @ [(''tool_name'', PyStr ''ask_user_question''), (''input'', PyDict tool_input), (''result'', PyDict []),
               (''is_error'', PyBool True)] @ drop 2 v2) gs
         else gs)
      else
        let parsed = (case json_object False content of
               Some d \<Rightarrow> d
             | None \<Rightarrow> [(''selected_id'', PyStr []), (''selected_label'', PyStr []), (''free_text'', PyStr content)]);
            gs1 = add_successful ''ask_user_question'' gs;
            gs2 = gs1\<lparr>gs_tool_results := dict_set ''ask_user_question'' parsed (gs_tool_results gs1)\<rparr>
        in add_record ([(''tool_name'', PyStr ''ask_user_question''), (''input'', PyDict tool_input), (''result'', PyDict parsed),
               (''is_error'', PyBool False)] @ (if is_v2 gs then v2_fields gs record_id [] else [])) gs2)"

definition parse_result ::
    "guard_env \<Rightarrow> string \<Rightarrow> pydict \<Rightarrow> string \<Rightarrow> string option \<Rightarrow> pydict option \<Rightarrow> pydict option" where
  \<comment> \<open>\<open>parsed\<close> of \<^verbatim>\<open>record_completion_guard_tool_result\<close>\<close>
  "parse_result env tool_name tool_input content cwd metadata =
     (let parsed = (if tool_name \<in> {''ros_deploy'', ''ros_stack''} then
              (case stack_result_from_metadata metadata of
                 Some r \<Rightarrow> Some r
               | None \<Rightarrow> (case metadata of
                     Some md \<Rightarrow> map_option (\<lambda>stack. [(''stack_id'', PyStr stack)]) (nonempty_str md ''stack_id'')
                   | None \<Rightarrow> None))
            else None);
          parsed = (case parsed of Some r \<Rightarrow> Some r | None \<Rightarrow> json_object (tool_name \<in> set ROS_PREFLIGHT_RESULT_TOOLS) content)
      in case parsed of
           None \<Rightarrow> if tool_name \<in> set FILE_MUTATION_TOOLS then file_mutation_result env tool_input cwd else None
         | Some r \<Rightarrow> Some (add_canonical_file_path env tool_input cwd r))"

definition result_record ::
    "guard_env \<Rightarrow> string \<Rightarrow> pydict \<Rightarrow> string \<Rightarrow> bool \<Rightarrow> pydict option \<Rightarrow> string option \<Rightarrow> pydict option \<Rightarrow> guard_state \<Rightarrow> pydict" where
  "result_record env tool_name tool_input content is_error metadata record_id parsed gs =
     [(''tool_name'', PyStr tool_name), (''input'', PyDict tool_input),
      (''result'', PyDict (case parsed of Some r \<Rightarrow> r | None \<Rightarrow> [])), (''is_error'', PyBool is_error)]
     @ (if is_v2 gs then
          v2_fields gs record_id (if is_error \<or> parsed = None then bounded_error_summary env content else [])
          @ (case metadata of
               Some md \<Rightarrow> (case nonempty_str md ''candidate_set_id'' of Some c \<Rightarrow> [(''candidate_set_id'', PyStr c)] | None \<Rightarrow> [])
             | None \<Rightarrow> [])
          @ (let region = effective_region_id tool_input metadata parsed in
             if region \<noteq> [] then [(''effective_region_id'', PyStr region)] else [])
        else [])"

definition record_parsed ::
    "guard_env \<Rightarrow> string \<Rightarrow> pydict \<Rightarrow> string \<Rightarrow> bool \<Rightarrow> pydict option \<Rightarrow> string option \<Rightarrow> pydict option \<Rightarrow> guard_state \<Rightarrow> guard_state" where
  \<comment> \<open>\<^verbatim>\<open>record_completion_guard_tool_result\<close> from the decision whether there is anything to record\<close>
  "record_parsed env tool_name tool_input content is_error metadata record_id parsed gs =
     (if parsed = None \<and> \<not> is_v2 gs then gs
      else
        let gs1 = add_record (result_record env tool_name tool_input content is_error metadata record_id parsed gs) gs;
            gs2 = (case parsed of
                Some r \<Rightarrow> if \<not> is_v2 gs \<or> \<not> is_error then gs1\<lparr>gs_tool_results := dict_set tool_name r (gs_tool_results gs1)\<rparr> else gs1
              | None \<Rightarrow> gs1);
            gs3 = (case parsed of
                Some r \<Rightarrow> if tool_name = ''ros_deploy'' then record_ros_deploy_owned_stack tool_input r gs2 else gs2
              | None \<Rightarrow> gs2)
        in if \<not> is_error then add_successful tool_name gs3 else gs3)"

definition set_guard_cwd :: "string option \<Rightarrow> guard_state \<Rightarrow> guard_state" where
  "set_guard_cwd cwd gs = (case cwd of Some dir \<Rightarrow> if dir = [] then gs else gs\<lparr>gs_cwd := Some dir\<rparr> | None \<Rightarrow> gs)"

definition record_completion_guard_tool_result ::
    "guard_env \<Rightarrow> string \<Rightarrow> pydict \<Rightarrow> string \<Rightarrow> bool \<Rightarrow> string option \<Rightarrow> pydict option \<Rightarrow> string option \<Rightarrow> guard_state \<Rightarrow> guard_state" where
  "record_completion_guard_tool_result env tool_name tool_input content is_error cwd metadata record_id gs =
     (if tool_name = ''ask_user_question''
      then record_ask_user_question env tool_input content is_error record_id (set_guard_cwd cwd gs)
      else record_parsed env tool_name tool_input content is_error metadata record_id
             (parse_result env tool_name tool_input content cwd metadata) (set_guard_cwd cwd gs))"

definition EXTERNALIZED_RESULT_PATH_METADATA_KEY :: string where
  "EXTERNALIZED_RESULT_PATH_METADATA_KEY = ''_iac_code_externalized_result_path''"

definition tool_result_content_for_recovery :: "guard_env \<Rightarrow> ContentBlock \<Rightarrow> py_error + string \<times> bool" where
  "tool_result_content_for_recovery env b =
     (case nonempty_str (tr_metadata b) EXTERNALIZED_RESULT_PATH_METADATA_KEY of
        None \<Rightarrow> Inr (tr_content b, False)
      | Some raw_path \<Rightarrow>
          (case ge_read_text env raw_path of
             Read_Text t \<Rightarrow> Inr (t, False)
           | Read_OSError \<Rightarrow> Inr (tr_content b, True)
           | Read_Undecodable \<Rightarrow> Inl (ValueError ''UnicodeDecodeError'')))"

definition recover_result :: "guard_env \<Rightarrow> (string \<times> ContentBlock) list \<Rightarrow> ContentBlock \<Rightarrow> guard_state \<Rightarrow> py_error + guard_state" where
  "recover_result env tool_uses b gs =
     (case map_of tool_uses (tr_tool_use_id b) of
        None \<Rightarrow> Inr gs
      | Some tu \<Rightarrow>
          (case tool_result_content_for_recovery env b of
             Inl e \<Rightarrow> Inl e
           | Inr (content, evidence_unavailable) \<Rightarrow>
               let unavailable = (evidence_unavailable \<and> is_v2 gs);
                   content = (if unavailable then ''evidence_unavailable: externalized tool result cannot be restored'' else content)
               in Inr (record_completion_guard_tool_result env (tu_name tu) (tu_input tu) content (tr_is_error b \<or> unavailable)
                         None (Some (tr_metadata b)) (Some (tr_tool_use_id b)) gs)))"

fun recover_results :: "guard_env \<Rightarrow> (string \<times> ContentBlock) list \<Rightarrow> ContentBlock list \<Rightarrow> guard_state \<Rightarrow> py_error + guard_state" where
  "recover_results env tool_uses [] gs = Inr gs"
| "recover_results env tool_uses (b # bs) gs =
     (case recover_result env tool_uses b gs of Inl e \<Rightarrow> Inl e | Inr gs \<Rightarrow> recover_results env tool_uses bs gs)"

definition reconstruct_completion_guard_state :: "guard_env \<Rightarrow> string option \<Rightarrow> Message list \<Rightarrow> py_error + guard_state" where
  "reconstruct_completion_guard_state env contract ms =
     recover_results env (tool_uses_by_id ms) (user_results ms)
       (ensure_completion_guard_state\<lparr>gs_completion_record_contract := contract\<rparr>)"

section \<open>Interrupted calls are no evidence\<close>

lemma uses_append:
  "tool_uses_by_id (xs @ ys) = fold (\<lambda>m d. if ms_role m = RoleAssistant
     then fold (\<lambda>b d. dict_set (tu_id b) b d) (get_tool_use_blocks m) d else d) ys (tool_uses_by_id xs)"
  by (simp add: tool_uses_by_id_def)

lemma uses_snoc_user: "ms_role m = RoleUser \<Longrightarrow> tool_uses_by_id (ms @ [m]) = tool_uses_by_id ms"
  by (simp add: uses_append)

lemma user_results_append: "user_results (xs @ ys) = user_results xs @ user_results ys"
  by (simp add: user_results_def)

lemma repair_uses: "tool_uses_by_id (repair_interrupted uid ms) = tool_uses_by_id ms"
  by (simp add: repair_interrupted_def uses_snoc_user new_message_def)

lemma repair_successes: "successful_tool_result_ids (repair_interrupted uid ms) = successful_tool_result_ids ms"
  by (simp add: repair_interrupted_def successful_tool_result_ids_def user_results_append)
    (simp add: user_results_def new_message_def message_blocks_def interrupted_result_def filter_map comp_def)

lemma repair_input: "last_successful_tool_input (repair_interrupted uid ms) t = last_successful_tool_input ms t"
  by (simp add: last_successful_tool_input_def repair_uses repair_successes)

text \<open>What a successful tool of the recovered state rests on.\<close>

definition succeeded :: "Message list \<Rightarrow> string \<Rightarrow> bool" where
  \<comment> \<open>some call of the tool has a result without an error\<close>
  "succeeded ms t \<longleftrightarrow> (\<exists>a b i. a \<in> set ms \<and> ms_role a = RoleAssistant \<and> b \<in> set (get_tool_use_blocks a)
     \<and> tu_id b = i \<and> tu_name b = t \<and> i \<in> set (successful_tool_result_ids ms))"

lemma uses_origin:
  "map_of (tool_uses_by_id ms) i = Some b \<Longrightarrow>
     \<exists>a \<in> set ms. ms_role a = RoleAssistant \<and> b \<in> set (get_tool_use_blocks a) \<and> tu_id b = i"
proof (induction ms rule: rev_induct)
  case (snoc m ms)
  have inner: "map_of (fold (\<lambda>b d. dict_set (tu_id b) b d) bs d) i = Some b \<Longrightarrow> (b \<in> set bs \<and> tu_id b = i) \<or> map_of d i = Some b" for bs d
    by (induction bs arbitrary: d) (force split: if_splits)+
  show ?case
  proof (cases "ms_role m = RoleAssistant")
    case True
    then show ?thesis using snoc inner [of "get_tool_use_blocks m" "tool_uses_by_id ms"] by (auto simp: uses_append)
  next
    case False
    then show ?thesis using snoc by (auto simp: uses_append)
  qed
qed (simp add: tool_uses_by_id_def)

lemma succeededI: "map_of (tool_uses_by_id ms) i = Some tu \<Longrightarrow> i \<in> set (successful_tool_result_ids ms) \<Longrightarrow> succeeded ms (tu_name tu)"
  using uses_origin [of ms i tu] unfolding succeeded_def by metis

lemma guard_parts [simp]:
  "gs_successful_tools (add_record r gs) = gs_successful_tools gs"
  "gs_completion_record_contract (add_record r gs) = gs_completion_record_contract gs"
  "gs_completion_record_contract (add_successful t gs) = gs_completion_record_contract gs"
  "set (gs_successful_tools (add_successful t gs)) = insert t (set (gs_successful_tools gs))"
  "gs_successful_tools (record_ros_deploy_owned_stack inp r gs) = gs_successful_tools gs"
  "gs_completion_record_contract (record_ros_deploy_owned_stack inp r gs) = gs_completion_record_contract gs"
  by (simp_all add: add_record_def add_successful_def record_ros_deploy_owned_stack_def split: option.split)

lemma record_question:
  "set (gs_successful_tools (record_ask_user_question env inp c e i gs))
     = set (gs_successful_tools gs) \<union> (if e then {} else {''ask_user_question''})"
  "gs_completion_record_contract (record_ask_user_question env inp c e i gs) = gs_completion_record_contract gs"
  by (simp_all add: record_ask_user_question_def Let_def)

lemma guard_cwd [simp]:
  "gs_successful_tools (set_guard_cwd cwd gs) = gs_successful_tools gs"
  "gs_completion_record_contract (set_guard_cwd cwd gs) = gs_completion_record_contract gs"
  by (simp_all add: set_guard_cwd_def split: option.split)

lemma record_parsed_tools:
  "set (gs_successful_tools (record_parsed env t inp c e md i parsed gs)) \<subseteq> set (gs_successful_tools gs) \<union> (if e then {} else {t})"
  "gs_completion_record_contract (record_parsed env t inp c e md i parsed gs) = gs_completion_record_contract gs"
  by (cases parsed; cases e; simp add: record_parsed_def Let_def subset_insertI)+

lemma record_tools:
  "set (gs_successful_tools (record_completion_guard_tool_result env t inp c e cwd md i gs))
     \<subseteq> set (gs_successful_tools gs) \<union> (if e then {} else {t})"
  "gs_completion_record_contract (record_completion_guard_tool_result env t inp c e cwd md i gs) = gs_completion_record_contract gs"
  using record_parsed_tools [of env t inp c e md i "parse_result env t inp c cwd md" "set_guard_cwd cwd gs"]
  by (cases e; simp add: record_completion_guard_tool_result_def record_question)+

lemma recover_tools:
  "recover_results env uses bs gs = Inr gs' \<Longrightarrow> t \<in> set (gs_successful_tools gs') \<Longrightarrow>
     t \<in> set (gs_successful_tools gs) \<or>
     (\<exists>b tu. b \<in> set bs \<and> \<not> tr_is_error b \<and> map_of uses (tr_tool_use_id b) = Some tu \<and> tu_name tu = t)"
proof (induction env uses bs gs rule: recover_results.induct)
  case (2 env uses b bs gs)
  then obtain gs1 where one: "recover_result env uses b gs = Inr gs1" by (auto split: sum.splits)
  then have "t \<in> set (gs_successful_tools gs1) \<or> (\<exists>b tu. b \<in> set bs \<and> \<not> tr_is_error b
      \<and> map_of uses (tr_tool_use_id b) = Some tu \<and> tu_name tu = t)"
    using 2 by simp
  moreover have "t \<in> set (gs_successful_tools gs) \<or> (\<not> tr_is_error b \<and> (\<exists>tu. map_of uses (tr_tool_use_id b) = Some tu \<and> tu_name tu = t))"
    if "t \<in> set (gs_successful_tools gs1)"
  proof (cases "map_of uses (tr_tool_use_id b)")
    case None
    then show ?thesis using one that by (simp add: recover_result_def)
  next
    case (Some tu)
    then obtain content un where c: "tool_result_content_for_recovery env b = Inr (content, un)"
      using one by (auto simp: recover_result_def split: sum.splits)
    show ?thesis
      using one that Some c record_tools(1) [of env "tu_name tu" "tu_input tu"
        "if un \<and> is_v2 gs then ''evidence_unavailable: externalized tool result cannot be restored'' else content"
        "tr_is_error b \<or> un \<and> is_v2 gs" None "Some (tr_metadata b)" "Some (tr_tool_use_id b)" gs]
      by (auto simp: recover_result_def Let_def split: if_splits)
  qed
  ultimately show ?case by auto
qed simp

text \<open>
  C27: A step that resumes from the transcript of a killed session (after the repair for interrupted calls) takes a tool for
  successful, and a step for completed, only if a call of that tool has a result without an error in the transcript
  itself: the results that the repair invents count for nothing.\<close>

theorem recovered_success_backed:
  assumes "reconstruct_completion_guard_state env contract (repair_interrupted uid ms) = Inr gs"
    and "t \<in> set (gs_successful_tools gs)
      \<or> t = ''complete_step'' \<and> reconstruct_step_result str_of (repair_interrupted uid ms) step \<noteq> None"
  shows "succeeded ms t"
  using assms(2)
proof
  assume t: "t \<in> set (gs_successful_tools gs)"
  have "recover_results env (tool_uses_by_id ms) (user_results (repair_interrupted uid ms))
      (ensure_completion_guard_state\<lparr>gs_completion_record_contract := contract\<rparr>) = Inr gs"
    using assms(1) by (simp add: reconstruct_completion_guard_state_def repair_uses)
  from recover_tools [OF this t] obtain b tu where b: "b \<in> set (user_results (repair_interrupted uid ms))" "\<not> tr_is_error b"
    "map_of (tool_uses_by_id ms) (tr_tool_use_id b) = Some tu" "tu_name tu = t"
    by (auto simp: ensure_completion_guard_state_def)
  then have "tr_tool_use_id b \<in> set (successful_tool_result_ids (repair_interrupted uid ms))"
    by (auto simp: successful_tool_result_ids_def)
  then show ?thesis using succeededI [OF b(3)] b(4) by (simp add: repair_successes)
next
  assume c: "t = ''complete_step'' \<and> reconstruct_step_result str_of (repair_interrupted uid ms) step \<noteq> None"
  then obtain inp where "last_successful_tool_input ms ''complete_step'' = Some inp"
    by (auto simp: reconstruct_step_result_def repair_input split: option.splits)
  then obtain i tu where "i \<in> set (successful_tool_result_ids ms)" "map_of (tool_uses_by_id ms) i = Some tu" "tu_name tu = ''complete_step''"
    by (auto simp: last_successful_tool_input_def dest!: first_some_SomeD split: option.splits if_splits)
  then show ?thesis using succeededI [of ms i tu] c by simp
qed

definition demo_guard_env :: guard_env where
  "demo_guard_env = \<lparr>ge_read_text = (\<lambda>_. Read_OSError), ge_expand = id, ge_canonical = id, ge_ellipsis = ''...''\<rparr>"

definition demo_step :: "Message list" where
  "demo_step =
     [new_message 1 RoleAssistant (Blocks [ToolUseBlock ''a'' ''write_file'' [(''path'', PyStr ''x'')] []]) [],
      new_message 2 RoleUser (Blocks [ToolResultBlock ''a'' ''ok'' False []]) [],
      new_message 3 RoleAssistant (Blocks [ToolUseBlock ''b'' ''complete_step'' [] []]) []]"

theorem recovered_success_backed_witness:
  "\<exists>gs. reconstruct_completion_guard_state demo_guard_env None (repair_interrupted 9 demo_step) = Inr gs
     \<and> gs_successful_tools gs = [''write_file''] \<and> succeeded demo_step ''write_file''
     \<and> reconstruct_step_result (\<lambda>_. []) (repair_interrupted 9 demo_step) ''s'' = None"
proof -
  have "(case reconstruct_completion_guard_state demo_guard_env None (repair_interrupted 9 demo_step) of
      Inl _ \<Rightarrow> False | Inr gs \<Rightarrow> gs_successful_tools gs = [''write_file''])"
    by code_simp
  then obtain gs where gs: "reconstruct_completion_guard_state demo_guard_env None (repair_interrupted 9 demo_step) = Inr gs"
    "gs_successful_tools gs = [''write_file'']"
    by (auto split: sum.splits)
  moreover have "reconstruct_step_result (\<lambda>_. []) (repair_interrupted 9 demo_step) ''s'' = None" by code_simp
  ultimately show ?thesis using recovered_success_backed [OF gs(1), of "''write_file''"] by auto
qed

section \<open>Results are not repeated\<close>

lemma filter_full: "length (filter P xs) = length xs \<Longrightarrow> filter P xs = xs"
  by (metis filter_True length_filter_less less_irrefl)

lemma keep_blocks_results:
  assumes "keep_blocks P m = Some f"
  shows "tool_result_ids f = map tr_tool_use_id (filter (\<lambda>b. P b \<and> is_ToolResultBlock b) (message_blocks m))"
proof (cases "ms_content m")
  case (Blocks bs)
  have "message_blocks f = filter P bs"
    using assms Blocks filter_full [of P bs]
    by (cases "length (filter P bs) = length bs") (auto simp: keep_blocks_def Let_def message_blocks_def split: if_splits)
  then show ?thesis by (simp add: tool_result_ids_def message_blocks_def Blocks conj_commute)
qed (use assms in \<open>auto simp: keep_blocks_def tool_result_ids_def message_blocks_def\<close>)

lemma map_tr_filter: "map tr_tool_use_id (filter (\<lambda>b. Q (tr_tool_use_id b) \<and> is_ToolResultBlock b) (message_blocks m))
    = filter Q (tool_result_ids m)"
  by (simp add: tool_result_ids_def filter_map comp_def conj_commute)

lemma without_seen_ids:
  assumes "without_seen_tool_results seen m = Some f"
  shows "tool_result_ids f = filter (\<lambda>i. i \<notin> set seen) (tool_result_ids m)"
proof -
  have "tool_result_ids f = map tr_tool_use_id (filter (\<lambda>b. (\<not> is_ToolResultBlock b \<or> tr_tool_use_id b \<notin> set seen) \<and> is_ToolResultBlock b)
      (message_blocks m))"
    using keep_blocks_results [OF assms [unfolded without_seen_tool_results_def]] .
  also have "\<dots> = map tr_tool_use_id (filter (\<lambda>b. tr_tool_use_id b \<notin> set seen \<and> is_ToolResultBlock b) (message_blocks m))"
    by (rule arg_cong [where f = "map tr_tool_use_id"], rule filter_cong) auto
  finally show ?thesis using map_tr_filter [of "\<lambda>i. i \<notin> set seen" m] by simp
qed

abbreviation all_results :: "Message list \<Rightarrow> string list" where
  "all_results ms \<equiv> concat (map tool_result_ids ms)"

lemma merge_sidecar_distinct:
  "distinct (all_results merged) \<Longrightarrow> set (all_results merged) \<subseteq> set seen_ids \<Longrightarrow>
     list_all (\<lambda>m. distinct (tool_result_ids m) \<and> [] \<notin> set (tool_result_ids m)) ms \<Longrightarrow>
     distinct (all_results (merge_sidecar dump seen_keys seen_ids merged ms))"
proof (induction dump seen_keys seen_ids merged ms rule: merge_sidecar.induct)
  case (2 dump seen_keys seen_ids merged m ms)
  show ?case
  proof (cases "message_key dump m \<in> set seen_keys")
    case True
    then show ?thesis using 2(1) [OF True 2(4,5)] 2(6) by simp
  next
    case False
    show ?thesis
    proof (cases "without_seen_tool_results seen_ids m")
      case None
      then show ?thesis using 2(2) [OF False None 2(4,5)] 2(6) False by simp
    next
      case (Some f)
      have f: "tool_result_ids f = filter (\<lambda>i. i \<notin> set seen_ids) (tool_result_ids m)" by (rule without_seen_ids [OF Some])
      then have "distinct (all_results (merged @ [f]))" using 2(4-6) by auto
      moreover have "set (all_results (merged @ [f])) \<subseteq> set (seen_result_ids f @ seen_ids)"
        using 2(5,6) f by (auto simp: seen_result_ids_def)
      ultimately show ?thesis using 2(3) [OF False Some] 2(6) False Some by simp
    qed
  qed
qed simp

lemma overridden_distinct:
  assumes "distinct (all_results ms)"
  shows "distinct (all_results (List.map_filter (without_overridden_error_results ids) ms))"
    and "set (all_results (List.map_filter (without_overridden_error_results ids) ms)) \<subseteq> set (all_results ms)"
proof -
  have one: "distinct (tool_result_ids m) \<Longrightarrow> distinct (tool_result_ids f)" "set (tool_result_ids f) \<subseteq> set (tool_result_ids m)"
    if "without_overridden_error_results ids m = Some f" for m f
  proof -
    have "tool_result_ids f = map tr_tool_use_id (filter (\<lambda>b. \<not> (is_ToolResultBlock b \<and> tr_is_error b \<and> tr_tool_use_id b \<in> set ids))
        (filter is_ToolResultBlock (message_blocks m)))"
      using keep_blocks_results [OF that [unfolded without_overridden_error_results_def]] by (simp only: filter_filter conj_commute)
    then show "distinct (tool_result_ids m) \<Longrightarrow> distinct (tool_result_ids f)" "set (tool_result_ids f) \<subseteq> set (tool_result_ids m)"
      using distinct_map_filter [of tr_tool_use_id "filter is_ToolResultBlock (message_blocks m)"]
      by (auto simp: tool_result_ids_def)
  qed
  have both: "distinct (all_results ms) \<longrightarrow> distinct (all_results (List.map_filter (without_overridden_error_results ids) ms))
      \<and> set (all_results (List.map_filter (without_overridden_error_results ids) ms)) \<subseteq> set (all_results ms)"
  proof (induction ms)
    case (Cons m ms)
    show ?case
    proof (cases "without_overridden_error_results ids m")
      case (Some f)
      then show ?thesis using Cons one [OF Some] by (auto simp: map_filter_simps) blast
    qed (use Cons in \<open>auto simp: map_filter_simps\<close>)
  qed (simp add: map_filter_simps)
  then show "distinct (all_results (List.map_filter (without_overridden_error_results ids) ms))"
    "set (all_results (List.map_filter (without_overridden_error_results ids) ms)) \<subseteq> set (all_results ms)"
    using assms by auto
qed

text \<open>
  Merging the messages of the sidecar into a transcript never makes a tool call answered twice: when no identifier has
  two results in the transcript or within one message of the sidecar, no identifier has two results in what the step
  resumes with.\<close>

theorem reconciled_results_once:
  assumes "reconcile_resume_messages dump (Some transcript) (Some sidecar) = Some ms" and "transcript \<noteq> []"
    and "distinct (all_results transcript)" and "[] \<notin> set (all_results transcript)"
    and "list_all (\<lambda>m. distinct (tool_result_ids m) \<and> [] \<notin> set (tool_result_ids m)) sidecar"
  shows "distinct (all_results ms)"
proof -
  let ?t = "if sidecar_successes sidecar \<noteq> [] then List.map_filter (without_overridden_error_results (sidecar_successes sidecar)) transcript
    else transcript"
  have d: "distinct (all_results ?t)" "[] \<notin> set (all_results ?t)"
    using overridden_distinct [OF assms(3), of "sidecar_successes sidecar"] assms(3,4) by auto
  then have "set (all_results ?t) \<subseteq> set (concat (map seen_result_ids ?t))" by (auto simp: seen_result_ids_def)
  note merged = merge_sidecar_distinct [OF d(1) this assms(5), of dump "map (message_key dump) ?t"]
  show ?thesis
  proof (cases "sidecar = []")
    case True
    then show ?thesis using assms(1-3) by (simp add: reconcile_resume_messages_def none_if_empty_def)
  next
    case False
    then have "ms = merge_sidecar dump (map (message_key dump) ?t) (concat (map seen_result_ids ?t)) ?t sidecar"
      using assms(1,2) by (simp add: reconcile_resume_messages_def none_if_empty_def Let_def split: if_splits)
    then show ?thesis using merged by simp
  qed
qed

theorem reconciled_results_once_witness:
  "\<exists>ms. reconcile_resume_messages dump_message (Some (repair_interrupted 9 demo_step))
       (Some [new_message 4 RoleUser (Blocks [ToolResultBlock ''b'' ''done'' False []]) []]) = Some ms
     \<and> length ms = 4 \<and> distinct (all_results ms)"
proof -
  let ?s = "[new_message 4 RoleUser (Blocks [ToolResultBlock ''b'' ''done'' False []]) []]"
  have "case reconcile_resume_messages dump_message (Some (repair_interrupted 9 demo_step)) (Some ?s) of
      None \<Rightarrow> False | Some ms \<Rightarrow> length ms = 4"
    by code_simp
  then obtain ms where ms: "reconcile_resume_messages dump_message (Some (repair_interrupted 9 demo_step)) (Some ?s) = Some ms" "length ms = 4"
    by (auto split: option.splits)
  have t: "all_results (repair_interrupted 9 demo_step) = [''a'', ''b'']" "repair_interrupted 9 demo_step \<noteq> []" by code_simp+
  have s: "list_all (\<lambda>m. distinct (tool_result_ids m) \<and> [] \<notin> set (tool_result_ids m)) ?s" by code_simp
  show ?thesis
    using reconciled_results_once [OF ms(1) t(2) _ _ s] ms t(1) by auto
qed

section \<open>An answer that arrived while the process was down\<close>

lemma keep_all: "(\<And>b. b \<in> set (message_blocks m) \<Longrightarrow> P b) \<Longrightarrow> message_blocks m \<noteq> [] \<or> (\<exists>s. ms_content m = TextContent s)
    \<Longrightarrow> keep_blocks P m = Some m"
  by (auto simp: keep_blocks_def Let_def message_blocks_def filter_empty_conv split: msg_content.splits)

definition has_content :: "Message \<Rightarrow> bool" where
  \<comment> \<open>a text or at least one block\<close>
  "has_content m \<longleftrightarrow> ms_content m \<noteq> Blocks []"

definition answers :: "Message \<Rightarrow> Message \<Rightarrow> bool" where
  \<comment> \<open>a user message that consists of one successful result for each call\<close>
  "answers a r \<longleftrightarrow> exchange a r \<and> list_all (\<lambda>b. is_ToolResultBlock b \<and> \<not> tr_is_error b) (message_blocks r)"

lemma answers_calls:
  assumes "answers a r"
  shows "ms_role a = RoleAssistant" "tool_use_ids a \<noteq> []" "tool_result_ids a = []" "set (tool_result_ids r) = set (tool_use_ids a)"
    "tool_result_ids r = map tr_tool_use_id (message_blocks r)"
proof -
  show "ms_role a = RoleAssistant" "tool_use_ids a \<noteq> []" "tool_result_ids a = []" "set (tool_result_ids r) = set (tool_use_ids a)"
    using assms by (auto simp: answers_def exchange_def dest: mset_eq_setD)
  have "filter is_ToolResultBlock (message_blocks r) = message_blocks r"
    using assms by (simp add: answers_def list_all_iff filter_id_conv)
  then show "tool_result_ids r = map tr_tool_use_id (message_blocks r)" by (simp add: tool_result_ids_def)
qed

lemma answers_successes:
  assumes "answers a r" and "[] \<notin> set (tool_use_ids a)"
  shows "set (sidecar_successes [r]) = set (tool_use_ids a)"
proof -
  note r = answers_calls [OF assms(1)]
  have "filter (\<lambda>b. is_ToolResultBlock b \<and> tr_tool_use_id b \<noteq> [] \<and> \<not> tr_is_error b) (message_blocks r) = message_blocks r"
  proof (rule filter_True, rule ballI)
    fix b
    assume b: "b \<in> set (message_blocks r)"
    then have "tr_tool_use_id b \<in> set (tool_use_ids a)" using r(4,5) by auto
    then have "tr_tool_use_id b \<noteq> []" using assms(2) by metis
    then show "is_ToolResultBlock b \<and> tr_tool_use_id b \<noteq> [] \<and> \<not> tr_is_error b" using assms(1) b by (simp add: answers_def list_all_iff)
  qed
  then show ?thesis using r(4,5) by (simp add: sidecar_successes_def)
qed

lemma unrelated_kept:
  assumes "has_content m" and "set (tool_result_ids m) \<inter> set ids = {}"
  shows "without_overridden_error_results ids m = Some m" and "without_seen_tool_results ids m = Some m"
proof -
  have c: "message_blocks m \<noteq> [] \<or> (\<exists>s. ms_content m = TextContent s)"
    using assms(1) by (cases "ms_content m") (auto simp: has_content_def message_blocks_def)
  have "tr_tool_use_id b \<notin> set ids" if "b \<in> set (message_blocks m)" "is_ToolResultBlock b" for b
    using assms(2) that by (auto simp: tool_result_ids_def)
  then show "without_overridden_error_results ids m = Some m" "without_seen_tool_results ids m = Some m"
    unfolding without_overridden_error_results_def without_seen_tool_results_def by (auto intro!: keep_all [OF _ c])
qed

lemma synthetic_dropped:
  "set (tool_use_ids a) \<subseteq> set ids
    \<Longrightarrow> without_overridden_error_results ids (new_message uid RoleUser (Blocks (map interrupted_result (get_tool_use_blocks a))) []) = None"
  by (auto simp: without_overridden_error_results_def keep_blocks_def new_message_def interrupted_result_def filter_empty_conv
      tool_use_ids_def get_tool_use_blocks_def Let_def image_subset_iff)

lemma contentless_dropped:
  "\<not> has_content m \<Longrightarrow> without_overridden_error_results ids m = None"
  by (simp add: has_content_def without_overridden_error_results_def keep_blocks_def)

lemma contentless_plain: "\<not> has_content m \<Longrightarrow> tool_use_ids m = [] \<and> tool_result_ids m = []"
  by (simp add: has_content_def tool_use_ids_def tool_result_ids_def get_tool_use_blocks_def message_blocks_def)

lemma map_filter_filter:
  "(\<And>x. x \<in> set xs \<Longrightarrow> f x = (if P x then Some x else None)) \<Longrightarrow> List.map_filter f xs = filter P xs"
  by (induction xs) (simp_all add: map_filter_simps)

lemma paired_has_content: "paired ms \<Longrightarrow> paired (filter has_content ms)"
  by (induction ms rule: paired.induct) (auto simp: paired_Cons_plain [unfolded plain_def] dest: contentless_plain split: if_splits)

text \<open>
  C28: A session was killed after the message \<open>a\<close> with tool calls, and the sidecar holds the message \<open>r\<close> with one
  successful result for each of these calls. Hypotheses: the history before \<open>a\<close> is paired, the identifiers of the calls
  are not empty and have no result in it yet, and \<open>r\<close> has not the key of a message of the transcript. What the step
  resumes with (the transcript repaired and merged with the sidecar) is the history with the real results in place: the
  results that the repair invents are gone, every call has exactly one result, and of the other messages those without
  any content are dropped and all others are kept as they are, in order.\<close>

theorem sidecar_answer_resumes:
  assumes "paired hs" and "answers a r"
    and "set (tool_use_ids a) \<inter> set (all_results hs) = {}" and "[] \<notin> set (tool_use_ids a)"
    and "message_key dump r \<notin> message_key dump ` set (hs @ [a])"
  shows "reconcile_resume_messages dump (Some (repair_interrupted uid (hs @ [a]))) (Some [r])
      = Some (filter has_content hs @ [a, r])
    \<and> paired (filter has_content hs @ [a, r])"
proof -
  let ?syn = "new_message uid RoleUser (Blocks (map interrupted_result (get_tool_use_blocks a))) []"
  note calls = answers_calls [OF assms(2)] and succ = answers_successes [OF assms(2,4)]
  have a: "has_content a" using calls(2) contentless_plain by blast
  have rep: "repair_interrupted uid (hs @ [a]) = hs @ [a, ?syn]"
    using calls(1,2) by (simp add: repair_interrupted_def detect_interruption_def has_tool_use_ids)
  let ?f = "without_overridden_error_results (sidecar_successes [r])" and ?t = "filter has_content hs @ [a]"
  have kept: "?f m = (if has_content m then Some m else None)" if "m \<in> set (hs @ [a])" for m
  proof (cases "has_content m")
    case True
    then show ?thesis using that assms(3) calls(3) succ by (simp, intro unrelated_kept(1)) auto
  qed (simp add: contentless_dropped)
  have "?f ?syn = None" using synthetic_dropped succ by blast
  then have merged: "List.map_filter ?f (hs @ [a, ?syn]) = ?t"
    using map_filter_filter [of "hs @ [a]" ?f has_content] kept a by (simp add: map_filter_def)
  have "has_content r" using calls(2,4) contentless_plain by fastforce
  moreover have "set (tool_result_ids r) \<inter> set (concat (map seen_result_ids ?t)) = {}"
    using assms(3) calls(3,4) by (auto simp: seen_result_ids_def)
  ultimately have "without_seen_tool_results (concat (map seen_result_ids ?t)) r = Some r" by (rule unrelated_kept(2))
  moreover have "paired (filter has_content hs @ [a, r])"
    using paired_append [OF paired_has_content [OF assms(1)] paired_exchange] assms(2) by (simp add: answers_def)
  moreover have "sidecar_successes [r] \<noteq> []" using succ calls(2) by auto
  moreover have "message_key dump r \<notin> message_key dump ` set ?t" using assms(5) by auto
  ultimately show ?thesis
    using rep merged by (simp add: reconcile_resume_messages_def none_if_empty_def Let_def)
qed

definition demo_answer :: Message where
  "demo_answer = new_message 4 RoleUser (Blocks [ToolResultBlock ''b'' ''done'' False []]) []"

theorem sidecar_answer_resumes_witness:
  "reconcile_resume_messages dump_message (Some (repair_interrupted 9 demo_step)) (Some [demo_answer]) = Some (demo_step @ [demo_answer])
     \<and> paired (demo_step @ [demo_answer])"
proof -
  let ?hs = "butlast demo_step" and ?a = "last demo_step"
  have "paired ?hs" "exchange ?a demo_answer" unfolding exchange_def
    by (simp_all add: demo_step_def demo_answer_def new_message_def tool_use_ids_def tool_result_ids_def message_blocks_def)
  moreover have "list_all (\<lambda>b. is_ToolResultBlock b \<and> \<not> tr_is_error b) (message_blocks demo_answer)" by code_simp
  moreover have "set (tool_use_ids ?a) \<inter> set (all_results ?hs) = {}" "[] \<notin> set (tool_use_ids ?a)" by code_simp+
  moreover have "list_all (\<lambda>m. message_key dump_message demo_answer \<noteq> message_key dump_message m) (?hs @ [?a])" by code_simp
  then have "message_key dump_message demo_answer \<notin> message_key dump_message ` set (?hs @ [?a])" by (auto simp: list_all_iff)
  ultimately have "reconcile_resume_messages dump_message (Some (repair_interrupted 9 (?hs @ [?a]))) (Some [demo_answer])
      = Some (filter has_content ?hs @ [?a, demo_answer]) \<and> paired (filter has_content ?hs @ [?a, demo_answer])"
    by (intro sidecar_answer_resumes) (simp_all only: answers_def not_False_eq_True conj_absorb simp_thms)
  moreover have "filter has_content ?hs = ?hs" by (simp add: demo_step_def new_message_def has_content_def)
  moreover have "?hs @ [?a] = demo_step" "?hs @ [?a, demo_answer] = demo_step @ [demo_answer]" by (simp_all add: demo_step_def)
  ultimately show ?thesis by (simp only:)
qed

text \<open>
  An error is not taken over: when the sidecar holds a result that is an error, the result invented by the repair stays
  and the real one is dropped.\<close>

theorem sidecar_error_dropped:
  assumes "exchange a r" and "list_all (\<lambda>b. is_ToolResultBlock b \<and> tr_is_error b) (message_blocks r)"
    and "[] \<notin> set (tool_use_ids a)"
  shows "reconcile_resume_messages dump (Some (repair_interrupted uid (hs @ [a]))) (Some [r]) = Some (repair_interrupted uid (hs @ [a]))"
proof -
  let ?syn = "new_message uid RoleUser (Blocks (map interrupted_result (get_tool_use_blocks a))) []"
  let ?ms = "hs @ [a, ?syn]"
  have a: "ms_role a = RoleAssistant" "tool_use_ids a \<noteq> []" and r: "set (tool_result_ids r) = set (tool_use_ids a)"
    using assms(1) by (auto simp: exchange_def dest: mset_eq_setD)
  have rep: "repair_interrupted uid (hs @ [a]) = ?ms"
    using a by (simp add: repair_interrupted_def detect_interruption_def has_tool_use_ids)
  have none: "sidecar_successes [r] = []" using assms(2) by (auto simp: sidecar_successes_def list_all_iff filter_empty_conv)
  have "tool_result_ids ?syn = tool_use_ids a"
    by (simp add: new_message_def tool_use_ids_def tool_result_ids_def message_blocks_def get_tool_use_blocks_def
        interrupted_result_def filter_map comp_def)
  then have seen: "set (tool_result_ids r) \<subseteq> set (concat (map seen_result_ids ?ms))"
    using r assms(3) by (auto simp: seen_result_ids_def)
  have "without_seen_tool_results (concat (map seen_result_ids ?ms)) r = None"
  proof (cases "ms_content r")
    case (TextContent s)
    then show ?thesis using r a(2) by (simp add: tool_result_ids_def message_blocks_def)
  next
    case (Blocks bs)
    have "filter (\<lambda>b. \<not> is_ToolResultBlock b \<or> tr_tool_use_id b \<notin> set (concat (map seen_result_ids ?ms))) bs = []"
      using assms(2) seen Blocks by (fastforce simp: filter_empty_conv list_all_iff message_blocks_def tool_result_ids_def)
    then show ?thesis by (simp add: without_seen_tool_results_def keep_blocks_def Blocks)
  qed
  then show ?thesis
    by (simp add: reconcile_resume_messages_def rep none none_if_empty_def Let_def)
qed

end
