(* ===== verification/Interrupt_Judge.thy ===== *)
theory Interrupt_Judge
  imports Py_Values
begin

text \<open>
  What happens to a message the user types while a pipeline runs: a second model call judges it
  (\<^verbatim>\<open>pipeline/engine/interrupt.py\<close>), and a judge that fails is handled by the policy of the current step (the first half
  of \<^verbatim>\<open>handle_user_interrupt\<close> of \<^verbatim>\<open>pipeline/engine/pipeline_runner.py\<close>). The model is an argument, one reply for each
  call; so are the texts of \<^verbatim>\<open>repr\<close>, of the error for a reason that cannot be sliced and of the elapsed time. The prompts
  of the judge are not modelled.
\<close>

section \<open>Verdicts\<close>

definition ALLOWED_INTERRUPT_ACTIONS :: "string list" where
  "ALLOWED_INTERRUPT_ACTIONS = [''continue'', ''supplement'', ''hard_interrupt'', ''ignored'']"

record InterruptVerdict =
  iv_action :: string
  iv_reason :: pyval
  iv_rollback_target :: pyval
  iv_candidate_scope :: pyval
  iv_supplement_target :: pyval
  iv_rollback_context :: pyval
  iv_paused :: bool

definition continue_verdict :: "string \<Rightarrow> InterruptVerdict" where
  "continue_verdict reason = \<lparr>iv_action = ''continue'', iv_reason = PyStr reason, iv_rollback_target = PyNone,
     iv_candidate_scope = PyNone, iv_supplement_target = PyNone, iv_rollback_context = PyNone, iv_paused = False\<rparr>"

definition is_null_text :: "pyval \<Rightarrow> bool" where
  "is_null_text v = (case v of PyStr s \<Rightarrow> map lower_char (strip s) = ''null'' | _ \<Rightarrow> False)"

definition coerce_null :: "pyval \<Rightarrow> pyval" where
  "coerce_null v = (if is_null_text v then PyNone else v)"

definition verdict_of :: "string \<Rightarrow> pydict \<Rightarrow> InterruptVerdict" where
  \<comment> \<open>the constructor call that \<^verbatim>\<open>_parse_verdict\<close> and the fallback share\<close>
  "verdict_of action data = \<lparr>iv_action = action,
     iv_reason = (case map_of data ''reason'' of None \<Rightarrow> PyStr [] | Some v \<Rightarrow> v),
     iv_rollback_target = coerce_null (dict_get ''rollback_target'' data),
     iv_candidate_scope = coerce_null (dict_get ''candidate_scope'' data),
     iv_supplement_target = coerce_null (dict_get ''supplement_target'' data),
     iv_rollback_context = coerce_null (dict_get ''rollback_context'' data), iv_paused = False\<rparr>"

record judge_env =
  je_repr :: "pyval \<Rightarrow> string"
  je_slice_error :: "pyval \<Rightarrow> string" \<comment> \<open>type and text of the exception that \<^verbatim>\<open>reason[:200]\<close> raises\<close>
  je_elapsed :: string

section \<open>The reply of the judge\<close>

definition fence :: string where
  "fence = replicate 3 (CHR 0x60)"

definition strip_fences :: "string \<Rightarrow> string" where
  \<comment> \<open>\<^verbatim>\<open>text.strip()\<close> and the two substitutions for a code block: its opening line and its closing line\<close>
  "strip_fences text =
     (let t = strip text;
          body = dropWhile is_word (drop 3 t);
          t = (if startswith t fence \<and> startswith body [newline] then tl body else t);
          r = rstrip_by is_space t
      in if endswith r (newline # fence) then take (length r - 4) r else t)"

definition action_of :: "string \<Rightarrow> pydict \<Rightarrow> string option" where
  \<comment> \<open>\<^verbatim>\<open>data.get("action", default)\<close> when it is an allowed action\<close>
  "action_of dflt data =
     (case map_of data ''action'' of
        None \<Rightarrow> Some dflt
      | Some (PyStr a) \<Rightarrow> if a \<in> set ALLOWED_INTERRUPT_ACTIONS then Some a else None
      | _ \<Rightarrow> None)"

definition parse_verdict :: "judge_env \<Rightarrow> bool \<Rightarrow> string \<Rightarrow> InterruptVerdict option" where
  "parse_verdict env retry_invalid text =
     (let text = strip_fences text in
      case json_loads text of
        None \<Rightarrow>
          if retry_invalid then None
          else Some (continue_verdict (''parse failed: not JSON. raw='' @ je_repr env (PyStr (take 120 text))))
      | Some (PyDict data) \<Rightarrow>
          (case action_of ''continue'' data of
             None \<Rightarrow>
               if retry_invalid then None
               else Some (continue_verdict (''parse failed: invalid action '' @ je_repr env (dict_get ''action'' data)))
           | Some action \<Rightarrow>
               if action = ''hard_interrupt'' \<and> \<not> truthy (coerce_null (dict_get ''rollback_context'' data)) then None
               else Some (verdict_of action data))
      | Some _ \<Rightarrow>
          if retry_invalid then None else Some (continue_verdict ''parse failed: expected JSON object''))"

section \<open>The calls of the judge\<close>

datatype judge_reply = Reply string | Raises string | Times_Out
  \<comment> \<open>the text of the response, an exception (type and text), or the time limit of all calls together\<close>

datatype judge_outcome = Judged InterruptVerdict | Judge_Raised string | Judge_Timeout

definition fallback_verdict :: "judge_env \<Rightarrow> string \<Rightarrow> judge_outcome" where
  \<comment> \<open>after the last attempt\<close>
  "fallback_verdict env last_response =
     (let text = strip_fences last_response in
      case json_loads text of
        None \<Rightarrow> Judged (continue_verdict (''fallback parse failed: not JSON. raw='' @ je_repr env (PyStr (take 120 text))))
      | Some (PyDict data) \<Rightarrow>
          Judged (verdict_of (case action_of ''hard_interrupt'' data of Some a \<Rightarrow> a | None \<Rightarrow> ''hard_interrupt'') data)
      | Some _ \<Rightarrow> Judge_Raised ''AttributeError'')"

definition MAX_ATTEMPTS :: nat where
  "MAX_ATTEMPTS = 2"

fun judge_attempts :: "judge_env \<Rightarrow> (nat \<Rightarrow> judge_reply) \<Rightarrow> nat list \<Rightarrow> string \<Rightarrow> judge_outcome \<times> nat" where
  \<comment> \<open>the outcome and the number of model calls\<close>
  "judge_attempts env complete [] last_response = (fallback_verdict env last_response, 0)"
| "judge_attempts env complete (attempt # rest) last_response =
     (case complete attempt of
        Raises e \<Rightarrow> (Judge_Raised e, 1)
      | Times_Out \<Rightarrow> (Judge_Timeout, 1)
      | Reply text \<Rightarrow>
          (case parse_verdict env (attempt < MAX_ATTEMPTS - 1) text of
             Some v \<Rightarrow> (Judged v, 1)
           | None \<Rightarrow> map_prod id Suc (judge_attempts env complete rest text)))"

definition call_judge_llm :: "judge_env \<Rightarrow> (nat \<Rightarrow> judge_reply) \<Rightarrow> judge_outcome \<times> nat" where
  "call_judge_llm env complete = judge_attempts env complete [0 ..< MAX_ATTEMPTS] []"

definition sliceable :: "pyval \<Rightarrow> bool" where
  "sliceable v = (case v of PyStr _ \<Rightarrow> True | PyList _ \<Rightarrow> True | _ \<Rightarrow> False)"

definition judge :: "judge_env \<Rightarrow> (nat \<Rightarrow> judge_reply) \<Rightarrow> InterruptVerdict \<times> nat" where
  \<comment> \<open>the log line for a verdict takes \<^verbatim>\<open>reason[:200]\<close> inside the \<^verbatim>\<open>try\<close>\<close>
  "judge env complete =
     (case call_judge_llm env complete of
        (Judged v, n) \<Rightarrow>
          (if sliceable (iv_reason v) then v else continue_verdict (''judge failed: '' @ je_slice_error env (iv_reason v)), n)
      | (Judge_Timeout, n) \<Rightarrow> (continue_verdict (''judge failed: timeout after '' @ je_elapsed env @ ''s''), n)
      | (Judge_Raised e, n) \<Rightarrow> (continue_verdict (''judge failed: '' @ e), n))"

section \<open>The policy for a judge that fails\<close>

definition is_judgment_error_verdict :: "InterruptVerdict \<Rightarrow> bool option" where
  \<comment> \<open>\<open>None\<close> is the \<^verbatim>\<open>AttributeError\<close> of \<^verbatim>\<open>startswith\<close> on a reason that is no text\<close>
  "is_judgment_error_verdict v =
     (if iv_action v \<noteq> ''continue'' then Some False
      else
        (case iv_reason v of
           PyStr r \<Rightarrow> Some (list_ex (startswith r) [''judge failed'', ''parse failed'', ''fallback parse failed''])
         | r \<Rightarrow> if truthy r then None else Some False))"

definition reason_text :: "judge_env \<Rightarrow> InterruptVerdict \<Rightarrow> string" where
  \<comment> \<open>the reason in an f-string\<close>
  "reason_text env v = (case iv_reason v of PyStr s \<Rightarrow> s | r \<Rightarrow> je_repr env r)"

definition apply_interrupt_judge_failure_policy :: "judge_env \<Rightarrow> string \<Rightarrow> string \<Rightarrow> InterruptVerdict \<Rightarrow> InterruptVerdict" where
  "apply_interrupt_judge_failure_policy env policy step v =
     (if policy = ''pause'' then
        v\<lparr>iv_paused := True, iv_reason := PyStr (''judge failed while executing side-effect step '' @ je_repr env (PyStr step)
          @ ''; pipeline paused for safety. '' @ reason_text env v)\<rparr>
      else if policy = ''hard_interrupt'' then
        v\<lparr>iv_action := ''hard_interrupt'',
          iv_rollback_target := (if step \<noteq> [] then PyStr step else iv_rollback_target v),
          iv_rollback_context := PyStr (''Interrupt judge failed while executing side-effect step '' @ je_repr env (PyStr step)
            @ ''; restart this step for safety.''),
          iv_reason := PyStr (''judge failed; applying hard interrupt for safety. '' @ reason_text env v)\<rparr>
      else v)"

definition judged_interrupt :: "judge_env \<Rightarrow> (nat \<Rightarrow> judge_reply) \<Rightarrow> string \<Rightarrow> string \<Rightarrow> InterruptVerdict option" where
  \<comment> \<open>\<^verbatim>\<open>handle_user_interrupt\<close> up to the injection of a supplement, for a current step and its policy\<close>
  "judged_interrupt env complete policy step =
     (let v = fst (judge env complete) in
      case is_judgment_error_verdict v of
        None \<Rightarrow> None
      | Some True \<Rightarrow> Some (apply_interrupt_judge_failure_policy env policy step v)
      | Some False \<Rightarrow> Some v)"

section \<open>Facts\<close>

lemma verdict_of_sel [simp]: "iv_action (verdict_of a d) = a" "iv_action (continue_verdict r) = ''continue''"
  by (simp_all add: verdict_of_def continue_verdict_def)

lemma action_of_allowed: "action_of dflt d = Some a \<Longrightarrow> dflt \<in> set ALLOWED_INTERRUPT_ACTIONS \<Longrightarrow> a \<in> set ALLOWED_INTERRUPT_ACTIONS"
  by (auto simp: action_of_def split: option.splits pyval.splits if_splits)

lemma action_of_given: "action_of dflt d = Some a \<Longrightarrow> a \<noteq> dflt \<Longrightarrow> map_of d ''action'' = Some (PyStr a)"
  by (auto simp: action_of_def split: option.splits pyval.splits if_splits)

definition says :: "judge_reply \<Rightarrow> string \<Rightarrow> pydict \<Rightarrow> bool" where
  \<comment> \<open>the reply is a JSON object with this action\<close>
  "says reply action d \<longleftrightarrow> (\<exists>t. reply = Reply t \<and> json_loads (strip_fences t) = Some (PyDict d) \<and> map_of d ''action'' = Some (PyStr action))"

lemma parse_verdict_Some:
  assumes "parse_verdict env retry t = Some v"
  shows "(\<exists>r. v = continue_verdict r)
    \<or> (\<exists>a d. v = verdict_of a d \<and> a \<in> set ALLOWED_INTERRUPT_ACTIONS \<and> (a \<noteq> ''continue'' \<longrightarrow> says (Reply t) a d)
        \<and> (a = ''hard_interrupt'' \<longrightarrow> truthy (iv_rollback_context v)))"
proof (cases "json_loads (strip_fences t)")
  case None
  then show ?thesis using assms by (auto simp: parse_verdict_def Let_def split: if_splits)
next
  case (Some val)
  show ?thesis
  proof (cases val)
    case (PyDict d)
    show ?thesis
    proof (cases "action_of ''continue'' d")
      case None
      then show ?thesis using assms Some PyDict by (auto simp: parse_verdict_def Let_def split: if_splits)
    next
      case a: (Some a)
      then have "v = verdict_of a d" "a = ''hard_interrupt'' \<longrightarrow> truthy (coerce_null (dict_get ''rollback_context'' d))"
        using assms Some PyDict by (auto simp: parse_verdict_def Let_def split: if_splits)
      moreover have "a \<in> set ALLOWED_INTERRUPT_ACTIONS"
        by (rule action_of_allowed [OF a]) (simp add: ALLOWED_INTERRUPT_ACTIONS_def)
      moreover have "a \<noteq> ''continue'' \<longrightarrow> says (Reply t) a d" using action_of_given [OF a] Some PyDict by (simp add: says_def)
      ultimately show ?thesis by (auto simp: verdict_of_def)
    qed
  qed (use assms Some in \<open>auto simp: parse_verdict_def Let_def split: if_splits\<close>)
qed

lemma parse_verdict_last:
  assumes "parse_verdict env False t = None"
  obtains d where "says (Reply t) ''hard_interrupt'' d" "fallback_verdict env t = Judged (verdict_of ''hard_interrupt'' d)"
proof -
  obtain d where d: "json_loads (strip_fences t) = Some (PyDict d)" "action_of ''continue'' d = Some ''hard_interrupt''"
    using assms by (auto simp: parse_verdict_def Let_def split: option.splits pyval.splits if_splits)
  then have given: "map_of d ''action'' = Some (PyStr ''hard_interrupt'')" by (intro action_of_given [OF d(2)]) simp
  then have "action_of ''hard_interrupt'' d = Some ''hard_interrupt''" by (simp add: action_of_def ALLOWED_INTERRUPT_ACTIONS_def)
  then show thesis using that d given by (simp add: says_def fallback_verdict_def)
qed

lemma call_judge_unfold:
  "call_judge_llm env complete =
     (case complete 0 of
        Raises e \<Rightarrow> (Judge_Raised e, 1)
      | Times_Out \<Rightarrow> (Judge_Timeout, 1)
      | Reply t \<Rightarrow>
          (case parse_verdict env True t of
             Some v \<Rightarrow> (Judged v, 1)
           | None \<Rightarrow>
              (case complete 1 of
                 Raises e \<Rightarrow> (Judge_Raised e, 2)
               | Times_Out \<Rightarrow> (Judge_Timeout, 2)
               | Reply t \<Rightarrow> (case parse_verdict env False t of Some v \<Rightarrow> (Judged v, 2) | None \<Rightarrow> (fallback_verdict env t, 2)))))"
  by (simp add: call_judge_llm_def MAX_ATTEMPTS_def upt_rec numeral_2_eq_2 split: judge_reply.split option.split)

lemma call_judge_cases:
  assumes "call_judge_llm env complete = (r, n)"
  shows "n \<in> {1, 2}"
    and "r = Judged v \<Longrightarrow> (\<exists>reason. v = continue_verdict reason)
      \<or> (\<exists>k < n. \<exists>a d. v = verdict_of a d \<and> a \<in> set ALLOWED_INTERRUPT_ACTIONS \<and> (a \<noteq> ''continue'' \<longrightarrow> says (complete k) a d)
          \<and> (a = ''hard_interrupt'' \<and> \<not> truthy (iv_rollback_context v) \<longrightarrow> n = 2))"
proof -
  show "n \<in> {1, 2}"
    using assms by (auto simp: call_judge_unfold split: judge_reply.splits option.splits)
  have parsed: "(\<exists>reason. v = continue_verdict reason)
      \<or> (\<exists>k < n. \<exists>a d. v = verdict_of a d \<and> a \<in> set ALLOWED_INTERRUPT_ACTIONS \<and> (a \<noteq> ''continue'' \<longrightarrow> says (complete k) a d)
          \<and> (a = ''hard_interrupt'' \<and> \<not> truthy (iv_rollback_context v) \<longrightarrow> n = 2))"
    if "complete k = Reply t" "k < n" "parse_verdict env b t = Some v" for k t b
    using parse_verdict_Some [OF that(3)] that(1,2) by metis
  assume v: "r = Judged v"
  consider t where "complete 0 = Reply t" "parse_verdict env True t = Some v" "n = 1"
    | t where "complete 1 = Reply t" "parse_verdict env False t = Some v" "n = 2"
    | t where "complete 1 = Reply t" "parse_verdict env False t = None" "fallback_verdict env t = Judged v" "n = 2"
    using assms v by (auto simp: call_judge_unfold split: judge_reply.splits option.splits)
  then show "(\<exists>reason. v = continue_verdict reason)
      \<or> (\<exists>k < n. \<exists>a d. v = verdict_of a d \<and> a \<in> set ALLOWED_INTERRUPT_ACTIONS \<and> (a \<noteq> ''continue'' \<longrightarrow> says (complete k) a d)
          \<and> (a = ''hard_interrupt'' \<and> \<not> truthy (iv_rollback_context v) \<longrightarrow> n = 2))"
  proof cases
    case 1
    show ?thesis using parsed [OF 1(1) _ 1(2)] 1(3) by simp
  next
    case 2
    show ?thesis using parsed [OF 2(1) _ 2(2)] 2(3) by simp
  next
    case (3 t)
    from 3(2) obtain d where "says (Reply t) ''hard_interrupt'' d" "fallback_verdict env t = Judged (verdict_of ''hard_interrupt'' d)"
      by (rule parse_verdict_last)
    then show ?thesis using 3 by (intro disjI2 exI [of _ 1]) (auto simp: ALLOWED_INTERRUPT_ACTIONS_def)
  qed
qed

lemma coerced: "\<not> is_null_text (coerce_null v)"
  by (simp add: coerce_null_def is_null_text_def)

text \<open>
  C29: Whatever the model answers, raises or however long it takes, the judge returns a verdict after at most two calls. Its
  action is one of the four known ones; an action other than continuing is one that a reply of the model names; an
  interrupt without a rollback context needs two replies; and the rollback target, the rollback context, the candidate
  scope and the target of a supplement are never the text null (the reason is handed on as the model wrote it).\<close>

theorem judge_acts_on_reply:
  assumes "judge env complete = (v, n)"
  shows "1 \<le> n \<and> n \<le> 2 \<and> iv_action v \<in> set ALLOWED_INTERRUPT_ACTIONS
    \<and> (iv_action v \<noteq> ''continue'' \<longrightarrow> (\<exists>k < n. \<exists>d. says (complete k) (iv_action v) d))
    \<and> (iv_action v = ''hard_interrupt'' \<and> \<not> truthy (iv_rollback_context v) \<longrightarrow> n = 2)
    \<and> \<not> is_null_text (iv_rollback_target v) \<and> \<not> is_null_text (iv_rollback_context v)
    \<and> \<not> is_null_text (iv_candidate_scope v) \<and> \<not> is_null_text (iv_supplement_target v)"
proof -
  obtain r m where call: "call_judge_llm env complete = (r, m)" by fastforce
  have m: "n = m" using assms call by (auto simp: judge_def split: judge_outcome.splits if_splits)
  have cont: "''continue'' \<in> set ALLOWED_INTERRUPT_ACTIONS" by (simp add: ALLOWED_INTERRUPT_ACTIONS_def)
  have bound: "1 \<le> n \<and> n \<le> 2" using call_judge_cases(1) [OF call] m by auto
  have "(\<exists>reason. v = continue_verdict reason) \<or> r = Judged v"
    using assms call by (auto simp: judge_def split: judge_outcome.splits if_splits)
  then have "(\<exists>reason. v = continue_verdict reason)
      \<or> (\<exists>k < n. \<exists>a d. v = verdict_of a d \<and> a \<in> set ALLOWED_INTERRUPT_ACTIONS \<and> (a \<noteq> ''continue'' \<longrightarrow> says (complete k) a d)
          \<and> (a = ''hard_interrupt'' \<and> \<not> truthy (iv_rollback_context v) \<longrightarrow> n = 2))"
    using call_judge_cases(2) [OF call, of v] m by blast
  then show ?thesis
  proof
    assume "\<exists>reason. v = continue_verdict reason"
    then show ?thesis using bound cont by (auto simp: continue_verdict_def is_null_text_def)
  next
    assume "\<exists>k < n. \<exists>a d. v = verdict_of a d \<and> a \<in> set ALLOWED_INTERRUPT_ACTIONS \<and> (a \<noteq> ''continue'' \<longrightarrow> says (complete k) a d)
          \<and> (a = ''hard_interrupt'' \<and> \<not> truthy (iv_rollback_context v) \<longrightarrow> n = 2)"
    then obtain k a d where v: "k < n" "v = verdict_of a d" "a \<in> set ALLOWED_INTERRUPT_ACTIONS" "a \<noteq> ''continue'' \<longrightarrow> says (complete k) a d"
      "a = ''hard_interrupt'' \<and> \<not> truthy (iv_rollback_context v) \<longrightarrow> n = 2"
      by blast
    have "\<not> is_null_text (iv_rollback_target v)" "\<not> is_null_text (iv_rollback_context v)"
      "\<not> is_null_text (iv_candidate_scope v)" "\<not> is_null_text (iv_supplement_target v)"
      by (simp_all add: v(2) verdict_of_def coerced)
    moreover have "iv_action v = a" by (simp add: v(2))
    ultimately show ?thesis using bound v by blast
  qed
qed

definition demo_judge :: judge_env where
  "demo_judge = \<lparr>je_repr = json_dumps, je_slice_error = (\<lambda>_. ''TypeError: not subscriptable''), je_elapsed = ''1.0''\<rparr>"

definition demo_replies :: "nat \<Rightarrow> judge_reply" where
  "demo_replies k = Reply (fence @ ''json'' @ [newline] @ json_dumps (PyDict
     [(''action'', PyStr ''hard_interrupt''), (''rollback_target'', PyStr ''plan''), (''rollback_context'', PyStr ''NULL'')]) @ [newline] @ fence)"

theorem judge_acts_on_reply_witness:
  "(case judge demo_judge demo_replies of (v, n) \<Rightarrow>
      n = 2 \<and> iv_action v = ''hard_interrupt'' \<and> iv_rollback_target v = PyStr ''plan'' \<and> iv_rollback_context v = PyNone)
   \<and> (\<exists>k < 2. \<exists>d. says (demo_replies k) ''hard_interrupt'' d)"
proof -
  obtain v n where j: "judge demo_judge demo_replies = (v, n)" by fastforce
  have "(case judge demo_judge demo_replies of (v, n) \<Rightarrow>
      n = 2 \<and> iv_action v = ''hard_interrupt'' \<and> iv_rollback_target v = PyStr ''plan'' \<and> iv_rollback_context v = PyNone)"
    by code_simp
  with j judge_acts_on_reply [OF j] show ?thesis by auto
qed

text \<open>
  When the judge cannot be asked or times out on its first call, the policy of the current step decides: a step with the
  policy to pause is paused, a step with the policy to interrupt is restarted with a context, and only a step without
  such a policy continues.\<close>

theorem judge_failure_follows_policy:
  assumes "complete 0 = Times_Out \<or> (\<exists>e. complete 0 = Raises e)"
  shows "\<exists>v. judged_interrupt env complete policy step = Some v
    \<and> (policy = ''pause'' \<longrightarrow> iv_paused v)
    \<and> (policy = ''hard_interrupt'' \<longrightarrow> iv_action v = ''hard_interrupt'' \<and> truthy (iv_rollback_context v)
         \<and> (step \<noteq> [] \<longrightarrow> iv_rollback_target v = PyStr step))
    \<and> (policy \<notin> {''pause'', ''hard_interrupt''} \<longrightarrow> iv_action v = ''continue'' \<and> \<not> iv_paused v)"
proof -
  have "call_judge_llm env complete = (Judge_Timeout, 1) \<or> (\<exists>e. call_judge_llm env complete = (Judge_Raised e, 1))"
    using assms by (auto simp: call_judge_unfold)
  then have "\<exists>t. fst (judge env complete) = continue_verdict (''judge failed: '' @ t)"
    by (auto simp: judge_def)
  then obtain t where t: "fst (judge env complete) = continue_verdict (''judge failed: '' @ t)" ..
  have "is_judgment_error_verdict (continue_verdict (''judge failed: '' @ t)) = Some True"
    by (simp add: is_judgment_error_verdict_def continue_verdict_def startswith_def)
  then show ?thesis
    using t by (auto simp: judged_interrupt_def Let_def apply_interrupt_judge_failure_policy_def continue_verdict_def)
qed

theorem judge_failure_follows_policy_witness:
  "\<exists>v. judged_interrupt demo_judge (\<lambda>_. Times_Out) ''hard_interrupt'' ''deploy'' = Some v
    \<and> iv_action v = ''hard_interrupt'' \<and> iv_rollback_target v = PyStr ''deploy''"
  using judge_failure_follows_policy [of "\<lambda>_. Times_Out" demo_judge "''hard_interrupt''" "''deploy''"] by auto

text \<open>
  A verdict whose reason is null (or a number, or an object) is lost: the log line slices the reason, the exception is
  caught, and what is returned is the verdict to continue.\<close>

theorem null_reason_discards_verdict:
  assumes "complete 0 = Reply t" and "json_loads (strip_fences t) = Some (PyDict d)"
    and "map_of d ''action'' = Some (PyStr ''hard_interrupt'')" and "map_of d ''rollback_context'' = Some (PyStr c)"
    and "c \<noteq> []" and "\<not> is_null_text (PyStr c)" and "map_of d ''reason'' = Some PyNone"
  shows "iv_action (fst (judge env complete)) = ''continue''"
proof -
  have "action_of ''continue'' d = Some ''hard_interrupt''" using assms(3) by (simp add: action_of_def ALLOWED_INTERRUPT_ACTIONS_def)
  moreover have "truthy (coerce_null (dict_get ''rollback_context'' d))" using assms(4-6) by (simp add: coerce_null_def dict_get_def)
  ultimately have "parse_verdict env True t = Some (verdict_of ''hard_interrupt'' d)" using assms(2) by (simp add: parse_verdict_def Let_def)
  then have "call_judge_llm env complete = (Judged (verdict_of ''hard_interrupt'' d), 1)" using assms(1) by (simp add: call_judge_unfold)
  moreover have "\<not> sliceable (iv_reason (verdict_of ''hard_interrupt'' d))" using assms(7) by (simp add: verdict_of_def sliceable_def)
  ultimately show ?thesis by (simp add: judge_def)
qed

end
