(* ===== verification/Retry.thy ===== *)
theory Retry
  imports Complex_Main
begin

text \<open>
  The retry strategy of the model providers, \<^verbatim>\<open>src/src/iac_code/providers/retry.py\<close>. The operation is an argument that
  gives the outcome of each of its calls; so are the random numbers of the jitter, between 0 and 1, and the callback.
  Delays are rational numbers. The trace lists what the caller and the clock see.
\<close>

section \<open>Configuration and delays\<close>

record RetryConfig =
  rc_max_retries :: int
  rc_base_delay :: rat
  rc_max_delay :: rat
  rc_jitter_factor :: rat

definition default_config :: RetryConfig where
  "default_config = \<lparr>rc_max_retries = 5, rc_base_delay = 1/2, rc_max_delay = 32, rc_jitter_factor = 1/4\<rparr>"

definition base_delay :: "RetryConfig \<Rightarrow> nat \<Rightarrow> rat" where
  "base_delay config attempt = min (rc_base_delay config * 2 ^ attempt) (rc_max_delay config)"

definition calculate_delay :: "RetryConfig \<Rightarrow> rat \<Rightarrow> nat \<Rightarrow> rat" where
  \<comment> \<open>\<open>rnd\<close> is \<^verbatim>\<open>random.random()\<close>\<close>
  "calculate_delay config rnd attempt =
     (let base = base_delay config attempt; jitter = rnd * rc_jitter_factor config * base in base + jitter)"

section \<open>The loop\<close>

datatype ('e, 'a) call_outcome = Returns 'a | is_Retryable: Retryable 'e | NonRetryable 'e | Other_Error 'e

datatype 'e retry_error = Error_Raised 'e | Assertion_Failed

datatype 'e retry_event = Called | On_Retry nat 'e rat | Slept rat

type_synonym 'e on_retry = "nat \<Rightarrow> 'e \<Rightarrow> rat \<Rightarrow> 'e option" \<comment> \<open>what the callback raises\<close>

fun retry_loop ::
    "(nat \<Rightarrow> ('e, 'a) call_outcome) \<Rightarrow> RetryConfig \<Rightarrow> (nat \<Rightarrow> rat) \<Rightarrow> 'e on_retry option \<Rightarrow> nat list \<Rightarrow> 'e option
      \<Rightarrow> ('e retry_error + 'a) \<times> 'e retry_event list" where
  "retry_loop operation config rnd on_retry [] last_error =
     (case last_error of None \<Rightarrow> Inl Assertion_Failed | Some e \<Rightarrow> Inl (Error_Raised e), [])"
| "retry_loop operation config rnd on_retry (attempt # rest) last_error =
     (case operation attempt of
        Returns x \<Rightarrow> (Inr x, [Called])
      | NonRetryable e \<Rightarrow> (Inl (Error_Raised e), [Called])
      | Other_Error e \<Rightarrow> (Inl (Error_Raised e), [Called])
      | Retryable e \<Rightarrow>
          if int attempt \<ge> rc_max_retries config then (Inl (Error_Raised e), [Called])
          else
            let delay = calculate_delay config (rnd attempt) attempt in
            (case on_retry of
               None \<Rightarrow> apsnd (\<lambda>tr. Called # Slept delay # tr) (retry_loop operation config rnd on_retry rest (Some e))
             | Some callback \<Rightarrow>
                 (case callback (Suc attempt) e delay of
                    Some err \<Rightarrow> (Inl (Error_Raised err), [Called, On_Retry (Suc attempt) e delay])
                  | None \<Rightarrow> apsnd (\<lambda>tr. Called # On_Retry (Suc attempt) e delay # Slept delay # tr)
                      (retry_loop operation config rnd on_retry rest (Some e)))))"

definition with_retry ::
    "(nat \<Rightarrow> ('e, 'a) call_outcome) \<Rightarrow> RetryConfig \<Rightarrow> (nat \<Rightarrow> rat) \<Rightarrow> 'e on_retry option \<Rightarrow> ('e retry_error + 'a) \<times> 'e retry_event list" where
  "with_retry operation config rnd on_retry = retry_loop operation config rnd on_retry [0 ..< nat (rc_max_retries config + 1)] None"

section \<open>Facts\<close>

definition slept :: "'e retry_event list \<Rightarrow> rat list" where
  "slept tr = List.map_filter (\<lambda>ev. case ev of Slept d \<Rightarrow> Some d | _ \<Rightarrow> None) tr"

definition calls :: "'e retry_event list \<Rightarrow> nat" where
  "calls tr = length (filter (\<lambda>ev. ev = Called) tr)"

lemma trace_simps [simp]:
  "calls [] = 0" "calls (Called # tr) = Suc (calls tr)" "calls (Slept d # tr) = calls tr" "calls (On_Retry n e d # tr) = calls tr"
  "slept [] = []" "slept (Called # tr) = slept tr" "slept (Slept d # tr) = d # slept tr" "slept (On_Retry n e d # tr) = slept tr"
  by (simp_all add: calls_def slept_def List.map_filter_def)

definition sane :: "RetryConfig \<Rightarrow> (nat \<Rightarrow> rat) \<Rightarrow> bool" where
  \<comment> \<open>no negative durations, not so many retries that \<^verbatim>\<open>math.pow\<close> overflows, and random numbers between 0 and 1\<close>
  "sane config rnd \<longleftrightarrow> 0 \<le> rc_max_retries config \<and> rc_max_retries config \<le> 1024 \<and> 0 \<le> rc_base_delay config \<and> 0 \<le> rc_max_delay config \<and> 0 \<le> rc_jitter_factor config
     \<and> (\<forall>n. 0 \<le> rnd n \<and> rnd n < 1)"

definition longest_delay :: "RetryConfig \<Rightarrow> rat" where
  "longest_delay config = rc_max_delay config * (1 + rc_jitter_factor config)"

lemma delay_bounds:
  assumes "sane config rnd"
  shows "base_delay config n \<le> calculate_delay config (rnd n) n" "calculate_delay config (rnd n) n \<le> longest_delay config"
    "0 \<le> base_delay config n"
proof -
  have c: "0 \<le> rc_base_delay config" "0 \<le> rc_max_delay config" "0 \<le> rc_jitter_factor config" "0 \<le> rnd n" "rnd n \<le> 1"
    using assms by (auto simp: sane_def less_imp_le)
  let ?b = "base_delay config n"
  show b: "0 \<le> base_delay config n" using c by (simp add: base_delay_def)
  have j: "0 \<le> rnd n * rc_jitter_factor config" "rnd n * rc_jitter_factor config \<le> rc_jitter_factor config"
    using c by (simp_all add: mult_left_le_one_le)
  then show "base_delay config n \<le> calculate_delay config (rnd n) n" using b by (simp add: calculate_delay_def Let_def)
  have "calculate_delay config (rnd n) n = ?b * (1 + rnd n * rc_jitter_factor config)"
    by (simp add: calculate_delay_def Let_def algebra_simps)
  also have "\<dots> \<le> rc_max_delay config * (1 + rc_jitter_factor config)"
    using b j c by (intro mult_mono) (simp_all add: base_delay_def)
  finally show "calculate_delay config (rnd n) n \<le> longest_delay config" by (simp add: longest_delay_def)
qed

lemma retry_loop_bounds:
  assumes "sane config rnd"
  shows "calls (snd (retry_loop operation config rnd on_retry attempts last_error)) \<le> length attempts"
    and "list_all (\<lambda>d. 0 \<le> d \<and> d \<le> longest_delay config) (slept (snd (retry_loop operation config rnd on_retry attempts last_error)))"
proof (induction attempts arbitrary: last_error)
  case (Cons n rest)
  have "0 \<le> calculate_delay config (rnd n) n" "calculate_delay config (rnd n) n \<le> longest_delay config"
    using delay_bounds [OF assms, of n] by auto
  {
    case 1
    show ?case using Cons.IH(1) by (cases on_retry) (simp_all add: Let_def split: call_outcome.split option.split)
  next
    case 2
    show ?case using Cons.IH(2) \<open>0 \<le> _\<close> \<open>_ \<le> longest_delay config\<close>
      by (cases on_retry) (simp_all add: Let_def split: call_outcome.split option.split)
  }
qed simp_all

fun final :: "('e, 'a) call_outcome \<Rightarrow> 'e retry_error + 'a" where
  "final (Returns x) = Inr x"
| "final (Retryable e) = Inl (Error_Raised e)"
| "final (NonRetryable e) = Inl (Error_Raised e)"
| "final (Other_Error e) = Inl (Error_Raised e)"

definition quiet :: "'e on_retry option \<Rightarrow> bool" where
  \<comment> \<open>the callback, if any, does not raise\<close>
  "quiet on_retry \<longleftrightarrow> (\<forall>callback n e d. on_retry = Some callback \<longrightarrow> callback n e d = None)"

lemma retry_loop_until:
  assumes "quiet on_retry" and "k < m" and "rc_max_retries config = int m - 1" and "\<not> is_Retryable (operation k) \<or> Suc k = m"
  shows "j \<le> k \<Longrightarrow> \<forall>i. j \<le> i \<and> i < k \<longrightarrow> is_Retryable (operation i) \<Longrightarrow>
     fst (retry_loop operation config rnd on_retry [j ..< m] last_error) = final (operation k)
     \<and> calls (snd (retry_loop operation config rnd on_retry [j ..< m] last_error)) = Suc (k - j)
     \<and> length (slept (snd (retry_loop operation config rnd on_retry [j ..< m] last_error))) = k - j"
proof (induction "k - j" arbitrary: j last_error)
  case 0
  then have "j = k" by simp
  moreover have "[k ..< m] = k # [Suc k ..< m]" using assms(2) by (rule upt_conv_Cons)
  ultimately show ?case using assms(3,4) by (cases "operation k") auto
next
  case (Suc d)
  then have j: "j < k" and retry: "is_Retryable (operation j)" by auto
  then obtain e where e: "operation j = Retryable e" by (cases "operation j") auto
  have "[j ..< m] = j # [Suc j ..< m]" using j assms(2) by (intro upt_conv_Cons) simp
  moreover have "\<not> rc_max_retries config \<le> int j" using j assms(2,3) by simp
  moreover have "Suc d = Suc (k - Suc j)" using Suc(2) j by simp
  moreover note Suc(1) [of "Suc j" "Some e"]
  ultimately show ?case
    using Suc(2-4) j e assms(1) by (auto simp: Let_def quiet_def Suc_diff_Suc split: option.split)
qed

text \<open>
  C17: For a configuration without negative values and with at most 1024 retries, and a callback that does not raise (delays
  being exact rational numbers): of at most \<open>max_retries + 1\<close> calls, the first that does not fail with a retryable error decides: its value is returned,
  its error is raised at once, and no later call is made; if every call fails with a retryable error, the error of the last
  one is raised. Between two calls there is exactly one pause, never longer than the largest delay with its jitter.\<close>

theorem retry_first_settled:
  assumes "sane config rnd" and "quiet on_retry" and "int k \<le> rc_max_retries config"
    and "\<forall>i < k. is_Retryable (operation i)" and "\<not> is_Retryable (operation k) \<or> int k = rc_max_retries config"
  shows "fst (with_retry operation config rnd on_retry) = final (operation k)
    \<and> calls (snd (with_retry operation config rnd on_retry)) = Suc k
    \<and> length (slept (snd (with_retry operation config rnd on_retry))) = k
    \<and> list_all (\<lambda>d. 0 \<le> d \<and> d \<le> longest_delay config) (slept (snd (with_retry operation config rnd on_retry)))"
proof -
  let ?m = "nat (rc_max_retries config + 1)"
  have m: "k < ?m" "rc_max_retries config = int ?m - 1" using assms(3) by auto
  have "\<not> is_Retryable (operation k) \<or> Suc k = ?m" using assms(3,5) by auto
  from retry_loop_until [where operation = operation, OF assms(2) m this, where j = 0 and last_error = None and rnd = rnd] retry_loop_bounds(2) [OF assms(1), of operation on_retry "[0 ..< ?m]" None] assms(4)
  show ?thesis by (simp add: with_retry_def)
qed

definition demo_operation :: "nat \<Rightarrow> (string, nat) call_outcome" where
  "demo_operation n = (if n < 2 then Retryable ''overloaded'' else Returns n)"

theorem retry_first_settled_witness:
  "fst (with_retry demo_operation default_config (\<lambda>_. 1/2) None) = Inr 2
    \<and> calls (snd (with_retry demo_operation default_config (\<lambda>_. 1/2) None)) = 3
    \<and> slept (snd (with_retry demo_operation default_config (\<lambda>_. 1/2) None)) = [9/16, 9/8]
    \<and> list_all (\<lambda>d. 0 \<le> d \<and> d \<le> 40) (slept (snd (with_retry demo_operation default_config (\<lambda>_. 1/2) None)))"
proof -
  have "sane default_config (\<lambda>_. 1/2)" by (simp add: sane_def default_config_def)
  moreover have "quiet None" by (simp add: quiet_def)
  moreover have "slept (snd (with_retry demo_operation default_config (\<lambda>_. 1/2) None)) = [9/16, 9/8]" by code_simp
  ultimately show ?thesis
    using retry_first_settled [of default_config "\<lambda>_. 1/2" None 2 demo_operation]
    by (simp add: demo_operation_def default_config_def longest_delay_def)
qed

text \<open>A negative number of retries makes no call at all; the assertion after the loop fails.\<close>

lemma negative_retries: "rc_max_retries config < 0 \<Longrightarrow> with_retry operation config rnd on_retry = (Inl Assertion_Failed, [])"
  by (simp add: with_retry_def)

end
