(* ===== verification/Env_Expansion.thy ===== *)
theory Env_Expansion
  imports Py_Data
begin

text \<open>
  References to environment variables in the configuration of MCP servers, \<^verbatim>\<open>src/src/iac_code/mcp/env_expansion.py\<close>. The
  pattern \<^verbatim>\<open>\$\{([A-Za-z_][A-Za-z0-9_]*)(?::-(.*?))?\}\<close> is a scanner: the name is as long as possible (a shorter one is
  followed by neither a colon nor a brace), and the lazy default ends at the first closing brace, before any newline. The
  environment is a map.
\<close>

section \<open>References\<close>

definition env_reference :: "string \<Rightarrow> (string \<times> string option \<times> string) option" where
  \<comment> \<open>a match at the start of the text: the two groups and what follows\<close>
  "env_reference s =
     (if \<not> startswith s ''${'' then None
      else
        let name = takeWhile is_name_char (drop 2 s);
            rest = dropWhile is_name_char (drop 2 s);
            dflt = takeWhile (\<lambda>c. c \<noteq> CHR ''}'' \<and> c \<noteq> newline) (drop 2 rest);
            after = dropWhile (\<lambda>c. c \<noteq> CHR ''}'' \<and> c \<noteq> newline) (drop 2 rest)
        in if name = [] \<or> \<not> is_name_start (hd name) then None
           else if startswith rest ''}'' then Some (name, None, tl rest)
           else if startswith rest '':-'' \<and> startswith after ''}'' then Some (name, Some dflt, tl after)
           else None)"

record MCPConfigWarning =
  cw_source :: string
  cw_server_name :: "string option"
  cw_code :: string
  cw_message :: string

definition missing_env :: "string \<Rightarrow> string option \<Rightarrow> string \<Rightarrow> MCPConfigWarning" where
  "missing_env source server_name name = \<lparr>cw_source = source, cw_server_name = server_name, cw_code = ''missing_env'',
     cw_message = ''Environment variable '' @ [CHR 0x27] @ name @ [CHR 0x27] @ '' is not set for MCP config.''\<rparr>"

definition replace_reference ::
    "(string \<rightharpoonup> string) \<Rightarrow> string \<Rightarrow> string option \<Rightarrow> string \<Rightarrow> string option \<Rightarrow> string \<Rightarrow> string \<times> MCPConfigWarning list" where
  "replace_reference env source server_name name dflt matched =
     (case (env name, dflt) of
        (Some current, None) \<Rightarrow> (current, [])
      | (Some current, Some d) \<Rightarrow> (if current \<noteq> [] then current else d, [])
      | (None, Some d) \<Rightarrow> (d, [])
      | (None, None) \<Rightarrow> (matched, [missing_env source server_name name]))"

lemma env_reference_shorter: "env_reference s = Some (name, dflt, rest) \<Longrightarrow> length rest < length s"
proof -
  assume r: "env_reference s = Some (name, dflt, rest)"
  let ?rest = "dropWhile is_name_char (drop 2 s)"
  let ?after = "dropWhile (\<lambda>c. c \<noteq> CHR ''}'' \<and> c \<noteq> newline) (drop 2 ?rest)"
  have s: "startswith s ''${''" using r by (simp add: env_reference_def split: if_splits)
  have l: "length ?rest \<le> length s - 2" using length_dropWhile_le [of is_name_char "drop 2 s"] by simp
  have "length ?after \<le> length ?rest" using length_dropWhile_le [of _ "drop 2 ?rest"] by (metis diff_le_self le_trans length_drop)
  moreover have "2 \<le> length s" using s by (auto simp: startswith_def dest: arg_cong [of _ _ length])
  moreover have "rest = tl ?rest \<or> rest = tl ?after" using r by (auto simp: env_reference_def Let_def split: if_splits)
  ultimately show ?thesis using l by auto
qed

function expand_string ::
    "(string \<rightharpoonup> string) \<Rightarrow> string \<Rightarrow> string option \<Rightarrow> string \<Rightarrow> string \<times> MCPConfigWarning list" where
  "expand_string env source server_name s =
     (case env_reference s of
        Some (name, dflt, rest) \<Rightarrow>
          let (text, ws) = replace_reference env source server_name name dflt (take (length s - length rest) s);
              (text', ws') = expand_string env source server_name rest
          in (text @ text', ws @ ws')
      | None \<Rightarrow>
          (case s of
             [] \<Rightarrow> ([], [])
           | c # cs \<Rightarrow> apfst (Cons c) (expand_string env source server_name cs)))"
  by pat_completeness auto
termination
  by (relation "measure (\<lambda>(_, _, _, s). length s)") (auto dest: env_reference_shorter)

declare expand_string.simps [simp del]

fun expand_one :: "(string \<rightharpoonup> string) \<Rightarrow> string \<Rightarrow> string option \<Rightarrow> pyval \<Rightarrow> pyval \<times> MCPConfigWarning list"
  and expand_list :: "(string \<rightharpoonup> string) \<Rightarrow> string \<Rightarrow> string option \<Rightarrow> pyval list \<Rightarrow> pyval list \<times> MCPConfigWarning list"
  and expand_dict :: "(string \<rightharpoonup> string) \<Rightarrow> string \<Rightarrow> string option \<Rightarrow> pydict \<Rightarrow> pydict \<times> MCPConfigWarning list" where
  "expand_one env source server_name (PyStr s) = apfst PyStr (expand_string env source server_name s)"
| "expand_one env source server_name (PyList vs) = apfst PyList (expand_list env source server_name vs)"
| "expand_one env source server_name (PyDict kvs) = apfst PyDict (expand_dict env source server_name kvs)"
| "expand_one env source server_name v = (v, [])"
| "expand_list env source server_name [] = ([], [])"
| "expand_list env source server_name (v # vs) =
     (let (v', ws) = expand_one env source server_name v; (vs', ws') = expand_list env source server_name vs in (v' # vs', ws @ ws'))"
| "expand_dict env source server_name [] = ([], [])"
| "expand_dict env source server_name ((k, v) # kvs) =
     (let (v', ws) = expand_one env source server_name v; (kvs', ws') = expand_dict env source server_name kvs
      in ((k, v') # kvs', ws @ ws'))"

definition expand_env :: "(string \<rightharpoonup> string) \<Rightarrow> string \<Rightarrow> string option \<Rightarrow> pyval \<Rightarrow> pyval \<times> MCPConfigWarning list" where
  "expand_env env source server_name v = expand_one env source server_name v"

section \<open>Templates\<close>

text \<open>A text written as literal parts and references, and what it stands for.\<close>

datatype piece = Lit string | Ref string "string option"

fun render_piece :: "piece \<Rightarrow> string" where
  "render_piece (Lit s) = s"
| "render_piece (Ref name None) = ''${'' @ name @ ''}''"
| "render_piece (Ref name (Some d)) = ''${'' @ name @ '':-'' @ d @ ''}''"

fun piece_ok :: "piece \<Rightarrow> bool" where
  "piece_ok (Lit s) \<longleftrightarrow> CHR ''$'' \<notin> set s"
| "piece_ok (Ref name dflt) \<longleftrightarrow> name \<noteq> [] \<and> is_name_start (hd name) \<and> list_all is_name_char name
     \<and> (\<forall>d. dflt = Some d \<longrightarrow> CHR ''}'' \<notin> set d \<and> newline \<notin> set d)"

fun piece_value :: "(string \<rightharpoonup> string) \<Rightarrow> piece \<Rightarrow> string" where
  "piece_value env (Lit s) = s"
| "piece_value env (Ref name None) = (case env name of Some v \<Rightarrow> v | None \<Rightarrow> render_piece (Ref name None))"
| "piece_value env (Ref name (Some d)) = (case env name of Some v \<Rightarrow> if v \<noteq> [] then v else d | None \<Rightarrow> d)"

fun piece_missing :: "(string \<rightharpoonup> string) \<Rightarrow> piece \<Rightarrow> string option" where
  "piece_missing env (Ref name None) = (if env name = None then Some name else None)"
| "piece_missing env _ = None"

lemma name_char_punct: "\<not> is_name_char (CHR ''}'')" "\<not> is_name_char (CHR '':'')"
  by (simp_all add: is_name_char_def is_name_start_def re_digit_def code_def)

lemma env_reference_render:
  assumes "piece_ok (Ref name dflt)"
  shows "env_reference (render_piece (Ref name dflt) @ s) = Some (name, dflt, s)"
proof (cases dflt)
  case None
  have "takeWhile is_name_char (name @ CHR ''}'' # s) = name" "dropWhile is_name_char (name @ CHR ''}'' # s) = CHR ''}'' # s"
    using assms name_char_punct by (simp_all add: takeWhile_append2 dropWhile_append2 list_all_iff)
  then show ?thesis using assms None by (simp add: env_reference_def startswith_def Let_def)
next
  case (Some d)
  have "takeWhile is_name_char (name @ CHR '':'' # CHR ''-'' # d @ CHR ''}'' # s) = name"
    "dropWhile is_name_char (name @ CHR '':'' # CHR ''-'' # d @ CHR ''}'' # s) = CHR '':'' # CHR ''-'' # d @ CHR ''}'' # s"
    using assms name_char_punct by (simp_all add: takeWhile_append2 dropWhile_append2 list_all_iff)
  moreover have "takeWhile (\<lambda>c. c \<noteq> CHR ''}'' \<and> c \<noteq> newline) (d @ CHR ''}'' # s) = d"
    "dropWhile (\<lambda>c. c \<noteq> CHR ''}'' \<and> c \<noteq> newline) (d @ CHR ''}'' # s) = CHR ''}'' # s"
    using assms Some by (subst takeWhile_append2 dropWhile_append2; auto)+
  ultimately show ?thesis using assms Some by (simp add: env_reference_def startswith_def Let_def)
qed

lemma expand_literal:
  "CHR ''$'' \<notin> set l \<Longrightarrow> expand_string env source server_name (l @ s) = apfst (append l) (expand_string env source server_name s)"
proof (induction l)
  case (Cons c l)
  then have "env_reference (c # l @ s) = None" by (auto simp: env_reference_def startswith_def)
  then show ?case using Cons by (subst expand_string.simps) (cases "expand_string env source server_name s", simp)
qed (cases "expand_string env source server_name s", simp)

lemma expand_nil: "expand_string env source server_name [] = ([], [])"
  by (simp add: expand_string.simps env_reference_def startswith_def)

lemma expand_ref:
  assumes "piece_ok (Ref name dflt)"
  shows "expand_string env source server_name (render_piece (Ref name dflt) @ s)
    = (case expand_string env source server_name s of (t, ws) \<Rightarrow>
        (piece_value env (Ref name dflt) @ t,
         (case piece_missing env (Ref name dflt) of None \<Rightarrow> [] | Some n \<Rightarrow> [missing_env source server_name n]) @ ws))"
proof -
  let ?r = "render_piece (Ref name dflt)"
  have "take (length (?r @ s) - length s) (?r @ s) = ?r" by (simp del: render_piece.simps)
  then have "expand_string env source server_name (?r @ s) =
      (let (text, ws) = replace_reference env source server_name name dflt ?r;
           (text', ws') = expand_string env source server_name s in (text @ text', ws @ ws'))"
    by (subst expand_string.simps) (simp only: env_reference_render [OF assms] option.case prod.case)
  then show ?thesis by (cases dflt) (simp_all add: replace_reference_def split: option.split prod.split)
qed

text \<open>
  A configuration text made of literal parts and references expands to the text that each part stands for: a variable
  that is set gives its value, an empty one its default if there is one, a missing one its default or, without a default,
  the reference itself. A warning is given for exactly the references of the last kind, in their order.\<close>

theorem env_expansion_exact:
  assumes "list_all piece_ok ps"
  shows "expand_string env source server_name (concat (map render_piece ps))
    = (concat (map (piece_value env) ps), map (missing_env source server_name) (List.map_filter (piece_missing env) ps))"
  using assms
proof (induction ps)
  case Nil
  then show ?case by (simp add: expand_nil map_filter_simps)
next
  case (Cons p ps)
  then show ?case
  proof (cases p)
    case (Lit s)
    then show ?thesis using Cons by (simp add: expand_literal map_filter_simps)
  next
    case (Ref name dflt)
    then show ?thesis
      using Cons expand_ref [of name dflt env source server_name "concat (map render_piece ps)"]
      by (simp add: map_filter_simps split: option.split)
  qed
qed

theorem env_expansion_exact_witness:
  "expand_string [''HOME'' \<mapsto> ''/h'', ''E'' \<mapsto> []] ''user'' None ''a${HOME}/${E:-x}${B:-}${C}''
    = (''a/h/x${C}'', [missing_env ''user'' None ''C''])"
  using env_expansion_exact [of "[Lit ''a'', Ref ''HOME'' None, Lit ''/'', Ref ''E'' (Some ''x''), Ref ''B'' (Some []), Ref ''C'' None]"
      "[''HOME'' \<mapsto> ''/h'', ''E'' \<mapsto> []]" "''user''" None]
  by (simp add: map_filter_simps is_name_char_def is_name_start_def re_digit_def code_def newline_def)

text \<open>Expanding a whole document keeps its shape and changes only texts.\<close>

fun same_shape :: "pyval \<Rightarrow> pyval \<Rightarrow> bool"
  and same_shapes :: "pyval list \<Rightarrow> pyval list \<Rightarrow> bool"
  and same_members :: "pydict \<Rightarrow> pydict \<Rightarrow> bool" where
  "same_shape (PyStr s) w \<longleftrightarrow> (\<exists>t. w = PyStr t)"
| "same_shape (PyList vs) w \<longleftrightarrow> (\<exists>ws. w = PyList ws \<and> same_shapes vs ws)"
| "same_shape (PyDict kvs) w \<longleftrightarrow> (\<exists>kws. w = PyDict kws \<and> same_members kvs kws)"
| "same_shape v w \<longleftrightarrow> w = v"
| "same_shapes [] ws \<longleftrightarrow> ws = []"
| "same_shapes (v # vs) ws \<longleftrightarrow> (\<exists>w ws'. ws = w # ws' \<and> same_shape v w \<and> same_shapes vs ws')"
| "same_members [] ws \<longleftrightarrow> ws = []"
| "same_members ((k, v) # kvs) ws \<longleftrightarrow> (\<exists>w ws'. ws = (k, w) # ws' \<and> same_shape v w \<and> same_members kvs ws')"

lemma expand_shape:
  "same_shape v (fst (expand_one env source server_name v))"
  "same_shapes vs (fst (expand_list env source server_name vs))"
  "same_members kvs (fst (expand_dict env source server_name kvs))"
  by (induction env source server_name v and env source server_name vs and env source server_name kvs
      rule: expand_one_expand_list_expand_dict.induct)
    (auto split: prod.splits)

end
