(* ===== verification/Py_Equality.thy ===== *)
theory Py_Equality
  imports Py_Values Complex_Main
begin

text \<open>
  Equality, membership in a set of texts and \<^verbatim>\<open>int\<close> on dynamic values. Numbers are equal when their values are: \<^verbatim>\<open>True\<close>
  equals 1 and 1.0. The value of a float is the decimal number that its literal denotes; dictionaries are equal whatever
  their order.
\<close>

definition float_value :: "string \<Rightarrow> rat option" where
  "float_value t =
     (if t \<in> {''NaN'', ''Infinity'', ''-Infinity''} then None
      else
        let mantissa = takeWhile (\<lambda>c. c \<notin> {CHR ''e'', CHR ''E''}) t;
            frac = tl (dropWhile (\<lambda>c. c \<noteq> CHR ''.'') mantissa);
            exponent = (case py_int (tl (dropWhile (\<lambda>c. c \<notin> {CHR ''e'', CHR ''E''}) t)) of Some e \<Rightarrow> e | None \<Rightarrow> 0);
            shift = exponent - int (length frac);
            m = of_nat (digits_val (filter is_digit mantissa));
            v = (if shift \<ge> 0 then m * 10 ^ nat shift else m / 10 ^ nat (- shift))
        in Some (if startswith t ''-'' then - v else v))"

fun number_value :: "pyval \<Rightarrow> rat option" where
  "number_value (PyBool b) = Some (if b then 1 else 0)"
| "number_value (PyInt i) = Some (of_int i)"
| "number_value (PyFloat t) = float_value t"
| "number_value _ = None"

fun py_eq :: "pyval \<Rightarrow> pyval \<Rightarrow> bool"
  and py_eq_list :: "pyval list \<Rightarrow> pyval list \<Rightarrow> bool"
  and py_eq_members :: "pydict \<Rightarrow> pydict \<Rightarrow> bool" where
  "py_eq PyNone b = (b = PyNone)"
| "py_eq (PyStr s) b = (b = PyStr s)"
| "py_eq (PyList xs) b = (case b of PyList ys \<Rightarrow> py_eq_list xs ys | _ \<Rightarrow> False)"
| "py_eq (PyDict d) b = (case b of PyDict e \<Rightarrow> length d = length e \<and> py_eq_members d e | _ \<Rightarrow> False)"
| "py_eq (PyInt i) (PyInt j) = (i = j)"
| "py_eq a b = (case (number_value a, number_value b) of
      (Some x, Some y) \<Rightarrow> x = y
    | _ \<Rightarrow> a = b \<and> a \<noteq> PyFloat ''NaN'')"
| "py_eq_list [] ys = (ys = [])"
| "py_eq_list (x # xs) ys = (case ys of [] \<Rightarrow> False | y # ys \<Rightarrow> py_eq x y \<and> py_eq_list xs ys)"
| "py_eq_members [] e = True"
| "py_eq_members ((k, v) # d) e = ((case map_of e k of None \<Rightarrow> False | Some w \<Rightarrow> py_eq v w) \<and> py_eq_members d e)"

definition test_in :: "pyval \<Rightarrow> string list \<Rightarrow> py_error + 'a \<Rightarrow> py_error + 'a \<Rightarrow> py_error + 'a" where
  \<comment> \<open>\<^verbatim>\<open>if v in {...}: yes else: no\<close> for a set of texts; a list or a dictionary cannot be hashed\<close>
  "test_in v texts yes no =
     (case v of
        PyStr s \<Rightarrow> if s \<in> set texts then yes else no
      | PyList _ \<Rightarrow> Inl (TypeError ''unhashable type'')
      | PyDict _ \<Rightarrow> Inl (TypeError ''unhashable type'')
      | _ \<Rightarrow> no)"

definition int_of_value :: "pyval \<Rightarrow> py_error + int" where
  \<comment> \<open>\<^verbatim>\<open>int(v)\<close>\<close>
  "int_of_value v =
     (case v of
        PyInt i \<Rightarrow> Inr i
      | PyBool b \<Rightarrow> Inr (if b then 1 else 0)
      | PyStr s \<Rightarrow> (case py_int s of Some i \<Rightarrow> Inr i | None \<Rightarrow> Inl (ValueError ''invalid literal for int()''))
      | PyFloat t \<Rightarrow>
          (case float_value t of
             Some x \<Rightarrow> Inr (if x < 0 then - \<lfloor>- x\<rfloor> else \<lfloor>x\<rfloor>)
           | None \<Rightarrow> Inl (ValueError ''cannot convert float to integer''))
      | _ \<Rightarrow> Inl (TypeError ''int() argument must be a string or a number''))"

lemma py_eq_text [simp]: "py_eq a (PyStr s) \<longleftrightarrow> a = PyStr s"
  by (cases a) (auto split: option.splits)

lemma py_eq_none [simp]: "py_eq a PyNone \<longleftrightarrow> a = PyNone"
  by (cases a) (auto split: option.splits)

lemma test_in_text [simp]: "test_in (PyStr s) texts yes no = (if s \<in> set texts then yes else no)"
  by (simp add: test_in_def)

lemma test_in_Inr:
  "test_in v texts yes no = Inr x \<longleftrightarrow> (\<exists>s. v = PyStr s \<and> s \<in> set texts \<and> yes = Inr x)
     \<or> (\<forall>s. v = PyStr s \<longrightarrow> s \<notin> set texts) \<and> (\<forall>xs. v \<noteq> PyList xs) \<and> (\<forall>d. v \<noteq> PyDict d) \<and> no = Inr x"
  by (cases v) (auto simp: test_in_def)

end
