(* ===== verification/Permission_Wait.thy ===== *)
theory Permission_Wait
  imports Py_Equality Permission_Resume
begin

text \<open>
  The durable checkpoints of permission prompts: \<^verbatim>\<open>PermissionWaitCheckpointStore\<close> and \<^verbatim>\<open>build_permission_checkpoint\<close> of
  \<^verbatim>\<open>services/permission_wait.py\<close>. A prompt that outlives its process is a JSON record in the directory of the session;
  answers, audits, timeouts, suspensions and cancellations of any number of processes are atomic changes of that record
  under a lock, which are the operations here. A record is a dynamic value, as in the code, since a file may hold
  anything.

  The directory maps the stem of a file name to its content. Times are microseconds; \<^verbatim>\<open>isoformat\<close> of a time in UTC and
  \<^verbatim>\<open>fromisoformat\<close> (a time without a zone is read as UTC) are arguments, as are \<^verbatim>\<open>str\<close> of a value that is no text, the
  digest and the fresh identifiers. The lock that serialises the operations and the coordinator of the processes that
  wait are not modelled.
\<close>

section \<open>Records\<close>

datatype wait_file = Broken | Record pydict \<comment> \<open>unreadable or no object, and an object\<close>

type_synonym wait_files = "(string \<times> wait_file) list"

definition PHASES :: "string list" where
  "PHASES = [''WAITING'', ''TIMEOUT_GRACE'', ''SUSPENDING'', ''SUSPENDED'', ''RESTORING'', ''RESOLVED'', ''CANCELED'']"

definition ACTIVE_PHASES :: "string list" where
  "ACTIVE_PHASES = [''WAITING'', ''TIMEOUT_GRACE'', ''SUSPENDING'', ''SUSPENDED'', ''RESTORING'']"

definition CONTINUATION_IDENTITY_FIELDS :: "string list" where
  "CONTINUATION_IDENTITY_FIELDS = [''taskId'', ''contextId'', ''sessionId'', ''inputId'', ''toolUseId'', ''toolName'',
     ''payloadDigest'', ''principalRef'', ''principalKind'', ''identitySchemaVersion'', ''region'', ''permissionClass'',
     ''continuationFrame'', ''pipelineCoordinates'']"

definition ascii_alnum :: "char \<Rightarrow> bool" where
  "ascii_alnum c \<longleftrightarrow> is_digit c \<or> 65 \<le> (of_char c :: nat) \<and> of_char c \<le> (90 :: nat) \<or> 97 \<le> (of_char c :: nat) \<and> of_char c \<le> (122 :: nat)"

definition is_boundary_id :: "string \<Rightarrow> bool" where
  "is_boundary_id s \<longleftrightarrow> 8 \<le> length s \<and> length s \<le> 128 \<and> list_all (\<lambda>c. ascii_alnum c \<or> c = CHR ''_'' \<or> c = CHR ''-'') s"

definition is_sha256 :: "string \<Rightarrow> bool" where
  "is_sha256 s \<longleftrightarrow> length s = 64 \<and> list_all (\<lambda>c. c \<in> set ''0123456789abcdef'') s"

section \<open>References to messages\<close>

definition message_number :: "string \<Rightarrow> nat option" where
  \<comment> \<open>\<^verbatim>\<open>0|[1-9][0-9]*\<close>\<close>
  "message_number s = (if s \<noteq> [] \<and> list_all is_digit s \<and> (hd s = CHR ''0'' \<longrightarrow> length s = 1) then Some (digits_val s) else None)"

definition WINDOWS_RESERVED_BASENAMES :: "string list" where
  "WINDOWS_RESERVED_BASENAMES = [''CON'', ''PRN'', ''AUX'', ''NUL'']
     @ map (\<lambda>i. ''COM'' @ nat_str i) [1 ..< 10] @ map (\<lambda>i. ''LPT'' @ nat_str i) [1 ..< 10]"

definition is_unsafe_windows_path_component :: "string \<Rightarrow> bool" where
  \<comment> \<open>of a text over letters, digits, underscore, hyphen and full stop, where no digit is superscript\<close>
  "is_unsafe_windows_path_component s \<longleftrightarrow>
     endswith s '' '' \<or> endswith s ''.''
     \<or> map (\<lambda>c. if 97 \<le> (of_char c :: nat) \<and> of_char c \<le> (122 :: nat) then char_of (of_char c - 32 :: nat) else c)
         (takeWhile (\<lambda>c. c \<noteq> CHR ''.'') s) \<in> set WINDOWS_RESERVED_BASENAMES"

definition validate_transcript_id :: "string \<Rightarrow> py_error + string" where
  "validate_transcript_id s =
     (if s = [] \<or> s \<in> {''.'', ''..''} \<or> CHR ''/'' \<in> set s \<or> CHR 0x5C \<in> set s \<or> contains ''..'' s
        \<or> \<not> list_all (\<lambda>c. ascii_alnum c \<or> c \<in> {CHR ''_'', CHR ''.'', CHR ''-''}) s \<or> is_unsafe_windows_path_component s
      then Inl (ValueError ''unsafe transcript id'') else Inr s)"

definition bad_reference :: "py_error + 'a" where
  "bad_reference = Inl (ValueError ''invalid permission continuation message reference'')"

definition parse_permission_message_ref :: "pyval \<Rightarrow> py_error + (string option \<times> nat)" where
  "parse_permission_message_ref v =
     (case v of
        PyStr s \<Rightarrow>
          if startswith s ''session.jsonl:'' \<and> message_number (drop 14 s) \<noteq> None
          then Inr (None, the (message_number (drop 14 s)))
          else if startswith s ''pipeline/transcripts/'' then
            let rest = drop 21 s;
                tid = takeWhile (\<lambda>c. ascii_alnum c \<or> c \<in> {CHR ''_'', CHR ''.'', CHR ''-''}) rest;
                tail = drop (length tid) rest
            in if tid \<noteq> [] \<and> startswith tail ''/session.jsonl:'' then
                 (case message_number (drop 15 tail) of
                    None \<Rightarrow> bad_reference
                  | Some n \<Rightarrow> map_sum id (\<lambda>tid. (Some tid, n)) (validate_transcript_id tid))
               else bad_reference
          else bad_reference
      | _ \<Rightarrow> bad_reference)"

definition canonicalize_permission_continuation_frame :: "pydict \<Rightarrow> pydict option \<Rightarrow> py_error + pydict" where
  "canonicalize_permission_continuation_frame fr audit_context =
     (case parse_permission_message_ref (dict_get ''assistantMessageRef'' fr) of
        Inl e \<Rightarrow> Inl e
      | Inr (referenced_transcript, message_index) \<Rightarrow>
          (case (case audit_context of None \<Rightarrow> PyNone | Some c \<Rightarrow> dict_get ''transcript_id'' c) of
             PyNone \<Rightarrow>
               if referenced_transcript \<noteq> None then Inl (ValueError ''invalid permission continuation transcript context'') else Inr fr
           | PyStr transcript \<Rightarrow>
               if transcript = [] then Inl (ValueError ''invalid permission continuation transcript context'')
               else
                 (case validate_transcript_id transcript of
                    Inl e \<Rightarrow> Inl e
                  | Inr _ \<Rightarrow>
                      if referenced_transcript \<noteq> None \<and> referenced_transcript \<noteq> Some transcript
                      then Inl (ValueError ''invalid permission continuation transcript context'')
                      else Inr (dict_set ''assistantMessageRef''
                             (PyStr (''pipeline/transcripts/'' @ transcript @ ''/session.jsonl:'' @ nat_str message_index)) fr))
           | _ \<Rightarrow> Inl (ValueError ''invalid permission continuation transcript context'')))"

section \<open>Validation\<close>

definition identity_given :: "pydict \<Rightarrow> bool" where
  \<comment> \<open>the identity of a user's approval: both keys, each null or a text\<close>
  "identity_given d \<longleftrightarrow> (\<forall>k \<in> {''principalRef'', ''region''}. case map_of d k of Some PyNone \<Rightarrow> True | Some (PyStr _) \<Rightarrow> True | _ \<Rightarrow> False)"

fun pending_indexes :: "nat \<Rightarrow> string list \<Rightarrow> pyval list \<Rightarrow> py_error + nat list" where
  \<comment> \<open>the loop over the decisions\<close>
  "pending_indexes i (tid # ids) (v # vs) =
     (case v of
        PyDict d \<Rightarrow>
          if dict_get ''toolUseId'' d \<noteq> PyStr tid then Inl (ValueError ''invalid permission continuation decision correlation'')
          else test_in (dict_get ''state'' d) [''not_evaluated'', ''pending'', ''allow'', ''deny'']
            (if dict_get ''state'' d = PyStr ''allow'' \<and> dict_get ''source'' d = PyStr ''user'' \<and> \<not> identity_given d
             then Inl (ValueError ''invalid permission continuation user identity'')
             else map_sum id (\<lambda>is. if dict_get ''state'' d = PyStr ''pending'' then i # is else is) (pending_indexes (Suc i) ids vs))
            (Inl (ValueError ''invalid permission continuation decision state''))
      | _ \<Rightarrow> Inl (ValueError ''invalid permission continuation decision correlation''))"
| "pending_indexes i _ _ = Inr []"

fun texts_of :: "pyval list \<Rightarrow> string list option" where
  \<comment> \<open>a list of texts that are not empty\<close>
  "texts_of [] = Some []"
| "texts_of (PyStr s # vs) = (if s = [] then None else map_option (Cons s) (texts_of vs))"
| "texts_of _ = None"

definition validate_decisions :: "pydict \<Rightarrow> pydict \<Rightarrow> string list \<Rightarrow> py_error + unit" where
  \<comment> \<open>\<^verbatim>\<open>_validate_continuation_frame\<close> from the current index on\<close>
  "validate_decisions r fr ids =
     (case dict_get ''currentIndex'' fr of
        PyInt i \<Rightarrow>
          if i < 0 \<or> i \<ge> int (length ids) then Inl (ValueError ''invalid permission continuation current index'')
          else
            (case dict_get ''currentPayloadDigest'' fr of
               PyStr s \<Rightarrow>
                 if \<not> is_sha256 s \<or> dict_get ''payloadDigest'' r \<noteq> PyStr s
                 then Inl (ValueError ''invalid permission continuation payload digest'')
                 else
                   (case dict_get ''decisions'' fr of
                      PyList ds \<Rightarrow>
                        if length ds \<noteq> length ids then Inl (ValueError ''invalid permission continuation decisions'')
                        else
                          (case pending_indexes 0 ids ds of
                             Inl e \<Rightarrow> Inl e
                           | Inr is \<Rightarrow>
                               if is \<noteq> [nat i] \<or> dict_get ''toolUseId'' r \<noteq> PyStr (ids ! nat i)
                               then Inl (ValueError ''invalid permission continuation pending boundary'') else Inr ())
                    | _ \<Rightarrow> Inl (ValueError ''invalid permission continuation decisions''))
             | _ \<Rightarrow> Inl (ValueError ''invalid permission continuation payload digest''))
      | _ \<Rightarrow> Inl (ValueError ''invalid permission continuation current index''))"

definition validate_continuation_frame :: "pydict \<Rightarrow> py_error + unit" where
  "validate_continuation_frame r =
     (case dict_get ''continuationFrame'' r of
        PyDict fr \<Rightarrow>
          (case dict_get ''assistantMessageRef'' fr of
             PyStr ref \<Rightarrow>
               (case (if ref = [] then bad_reference else parse_permission_message_ref (PyStr ref)) of
                  Inl e \<Rightarrow> Inl e
                | Inr (transcript, _) \<Rightarrow>
                    if dict_get ''permissionClass'' r = PyStr ''normal'' \<and> transcript \<noteq> None
                       \<or> dict_get ''permissionClass'' r = PyStr ''pipeline'' \<and> transcript = None
                    then Inl (ValueError ''invalid permission continuation transcript class'')
                    else
                      (case dict_get ''assistantMessageDigest'' fr of
                         PyStr s \<Rightarrow>
                           if \<not> is_sha256 s then Inl (ValueError ''invalid permission continuation message digest'')
                           else
                             (case dict_get ''orderedToolUseIds'' fr of
                                PyList vs \<Rightarrow>
                                  (case texts_of vs of
                                     Some ids \<Rightarrow>
                                       if ids = [] \<or> \<not> distinct ids then Inl (ValueError ''invalid permission continuation tool ordering'')
                                       else validate_decisions r fr ids
                                   | None \<Rightarrow> Inl (ValueError ''invalid permission continuation tool ordering''))
                              | _ \<Rightarrow> Inl (ValueError ''invalid permission continuation tool ordering''))
                       | _ \<Rightarrow> Inl (ValueError ''invalid permission continuation message digest'')))
           | _ \<Rightarrow> bad_reference)
      | _ \<Rightarrow> Inl (ValueError ''invalid permission continuation frame''))"

definition hashable :: "pyval \<Rightarrow> bool" where
  "hashable v = (case v of PyList _ \<Rightarrow> False | PyDict _ \<Rightarrow> False | _ \<Rightarrow> True)"

definition validate_identity :: "pydict \<Rightarrow> py_error + unit" where
  \<comment> \<open>\<^verbatim>\<open>_validate_record\<close>, the schema of the identity and the kind of the principal\<close>
  "validate_identity r =
     (let identity_schema = dict_get ''identitySchemaVersion'' r; principal_kind = dict_get ''principalKind'' r in
      if \<not> hashable identity_schema then Inl (TypeError ''unhashable type'')
      else if identity_schema \<noteq> PyNone \<and> \<not> py_eq identity_schema (PyInt 1)
      then Inl (ValueError ''invalid permission identity schema'')
      else if principal_kind = PyNone then Inr ()
      else test_in principal_kind [''account'', ''ram_user'', ''ram_role''] (Inr ())
             (Inl (ValueError ''invalid permission principal kind'')))"

definition validate_record :: "string \<Rightarrow> pydict \<Rightarrow> py_error + string" where
  "validate_record sid r =
     (case dict_get ''boundaryId'' r of
        PyStr b \<Rightarrow>
          if \<not> is_boundary_id b then Inl (ValueError ''invalid permission boundary id'')
          else if \<not> py_eq (dict_get ''schemaVersion'' r) (PyInt 1) \<or> dict_get ''sessionId'' r \<noteq> PyStr sid
          then Inl (ValueError ''invalid permission checkpoint identity'')
          else test_in (dict_get ''phase'' r) PHASES
            (case dict_get ''generation'' r of
               PyInt g \<Rightarrow>
                 if g < 1 then Inl (ValueError ''invalid permission checkpoint generation'')
                 else
                   (case dict_get ''payloadDigest'' r of
                      PyStr s \<Rightarrow>
                        if \<not> is_sha256 s then Inl (ValueError ''invalid permission payload digest'')
                        else
                          (case validate_identity r of
                             Inl e \<Rightarrow> Inl e
                           | Inr _ \<Rightarrow>
                               test_in (dict_get ''phase'' r) ACTIVE_PHASES
                                 (test_in (dict_get ''permissionClass'' r) [''normal'', ''pipeline'']
                                    (if dict_get ''mode'' r \<noteq> dict_get ''permissionClass'' r
                                     then Inl (ValueError ''invalid permission checkpoint class'')
                                     else map_sum id (\<lambda>_. b) (validate_continuation_frame r))
                                    (Inl (ValueError ''invalid permission checkpoint class'')))
                                 (Inr b))
                    | _ \<Rightarrow> Inl (ValueError ''invalid permission payload digest''))
             | _ \<Rightarrow> Inl (ValueError ''invalid permission checkpoint generation''))
            (Inl (ValueError ''invalid permission checkpoint phase''))
      | _ \<Rightarrow> Inl (ValueError ''invalid permission boundary id''))"

section \<open>Times\<close>

function replace_text :: "string \<Rightarrow> string \<Rightarrow> string \<Rightarrow> string" where
  \<comment> \<open>\<^verbatim>\<open>s.replace(old, new)\<close> for an \<open>old\<close> that is not empty\<close>
  "replace_text old new [] = []"
| "replace_text old new (c # s) =
     (if old \<noteq> [] \<and> startswith (c # s) old then new @ replace_text old new (drop (length old) (c # s))
      else c # replace_text old new s)"
  by pat_completeness auto
termination
  by (relation "measure (\<lambda>(_, _, s). length s)") (auto simp: neq_Nil_conv)

record wait_env =
  we_isoformat :: "int \<Rightarrow> string"
  we_fromisoformat :: "string \<Rightarrow> int option"
  we_str :: "pyval \<Rightarrow> string" \<comment> \<open>of a value that is no text\<close>

definition format_utc :: "wait_env \<Rightarrow> int \<Rightarrow> string" where
  "format_utc env t = replace_text ''+00:00'' ''Z'' (we_isoformat env t)"

definition parse_utc :: "wait_env \<Rightarrow> pyval \<Rightarrow> int option" where
  "parse_utc env v =
     (case v of
        PyStr s \<Rightarrow> if s = [] then None else we_fromisoformat env (replace_text ''Z'' ''+00:00'' s)
      | _ \<Rightarrow> None)"

section \<open>Changes of a record\<close>

definition generation_of :: "pydict \<Rightarrow> py_error + int" where
  \<comment> \<open>\<^verbatim>\<open>int(record["generation"])\<close>\<close>
  "generation_of r = (case map_of r ''generation'' of None \<Rightarrow> Inl (KeyError ''generation'') | Some v \<Rightarrow> int_of_value v)"

definition advance_generation :: "wait_env \<Rightarrow> int \<Rightarrow> pydict \<Rightarrow> py_error + pydict option" where
  \<comment> \<open>the generation plus one, and the time of the update\<close>
  "advance_generation env now r =
     map_sum id (\<lambda>g. Some (dict_set ''updatedAt'' (PyStr (format_utc env now)) (dict_set ''generation'' (PyInt (g + 1)) r)))
       (generation_of r)"

definition set_phase :: "wait_env \<Rightarrow> int \<Rightarrow> string \<Rightarrow> pydict \<Rightarrow> py_error + pydict option" where
  "set_phase env now phase r = advance_generation env now (dict_set ''phase'' (PyStr phase) r)"

definition expect_generation :: "int option \<Rightarrow> pydict \<Rightarrow> py_error + 'a \<Rightarrow> py_error + 'a" where
  \<comment> \<open>the check of \<^verbatim>\<open>expected_generation\<close>, a missing generation counting as 0\<close>
  "expect_generation expected r k =
     (case expected of
        None \<Rightarrow> k
      | Some g \<Rightarrow>
          (case (case map_of r ''generation'' of None \<Rightarrow> Inr 0 | Some v \<Rightarrow> int_of_value v) of
             Inl e \<Rightarrow> Inl e
           | Inr n \<Rightarrow> if n \<noteq> g then Inl (ValueError ''permission generation changed'') else k))"

definition decision_status :: "pydict \<Rightarrow> pyval" where
  "decision_status r = (case dict_get ''decision'' r of PyDict d \<Rightarrow> dict_get ''status'' d | _ \<Rightarrow> PyNone)"

definition reactivate_record :: "string \<Rightarrow> pydict \<Rightarrow> pydict \<Rightarrow> py_error + pydict option" where
  "reactivate_record boundary replacement current =
     (if dict_get ''phase'' current \<noteq> PyStr ''SUSPENDED'' \<or> decision_status current \<noteq> PyStr ''none''
      then Inl (ValueError ''permission boundary is not an unanswered suspended card'')
      else if list_ex (\<lambda>k. \<not> py_eq (dict_get k current) (dict_get k replacement)) CONTINUATION_IDENTITY_FIELDS
      then Inl (ValueError ''restored permission identity changed'')
      else
        (case map_of current ''createdAt'' of
           None \<Rightarrow> Inl (KeyError ''createdAt'')
         | Some created \<Rightarrow>
             map_sum id (\<lambda>g. Some (dict_set ''generation'' (PyInt (g + 1))
               (dict_set ''createdAt'' created (dict_set ''boundaryId'' (PyStr boundary) replacement)))) (generation_of current)))"

definition deadline_record ::
    "wait_env \<Rightarrow> int \<Rightarrow> int \<Rightarrow> bool \<Rightarrow> int option \<Rightarrow> bool \<Rightarrow> pydict \<Rightarrow> py_error + pydict option" where
  \<comment> \<open>\<^verbatim>\<open>mutate\<close> of \<^verbatim>\<open>reconcile_deadline\<close>\<close>
  "deadline_record env observed_at grace live_owner expected allow_suspend r =
     expect_generation expected r
       (let phase = dict_get ''phase'' r; unanswered = (decision_status r = PyStr ''none'');
            suspending = (if live_owner then ''SUSPENDING'' else ''SUSPENDED'');
            deadlines =
              (let resident = parse_utc env (dict_get ''residentDeadlineAt'' r) in
               if phase = PyStr ''WAITING'' \<and> resident \<noteq> None \<and> observed_at \<ge> the resident then
                 set_phase env observed_at (if unanswered \<and> grace = 0 \<and> allow_suspend then suspending else ''TIMEOUT_GRACE'')
                   (dict_set ''graceDeadlineAt'' (PyStr (format_utc env (observed_at + grace))) r)
               else
                 let grace_deadline = parse_utc env (dict_get ''graceDeadlineAt'' r) in
                 if phase = PyStr ''TIMEOUT_GRACE'' \<and> allow_suspend \<and> unanswered \<and> grace_deadline \<noteq> None
                    \<and> observed_at \<ge> the grace_deadline
                 then set_phase env observed_at suspending r
                 else Inr None)
        in if live_owner then deadlines
           else test_in phase [''WAITING'', ''TIMEOUT_GRACE'', ''SUSPENDING''] (set_phase env observed_at ''SUSPENDED'' r) deadlines)"

definition claim_record :: "wait_env \<Rightarrow> int \<Rightarrow> string \<Rightarrow> string \<Rightarrow> string \<Rightarrow> int option \<Rightarrow> pydict \<Rightarrow> py_error + pydict option" where
  \<comment> \<open>\<^verbatim>\<open>mutate\<close> of \<^verbatim>\<open>claim_decision\<close>\<close>
  "claim_record env now val source claim expected r =
     expect_generation expected r
       (test_in (dict_get ''phase'' r) [''CANCELED''] (Inl (ValueError ''permission boundary is canceled''))
          (case dict_get ''decision'' r of
             PyDict d \<Rightarrow>
               test_in (dict_get ''status'' d) [''claimed'', ''applied'']
                 (if dict_get ''value'' d \<noteq> PyStr val
                  then Inl (ValueError ''permission response conflicts with the recorded decision'') else Inr None)
                 (if dict_get ''status'' d \<noteq> PyStr ''none'' then Inl (ValueError ''invalid permission decision state'')
                  else advance_generation env now (dict_set ''decision''
                    (PyDict [(''status'', PyStr ''claimed''), (''value'', PyStr val), (''source'', PyStr source),
                       (''claimId'', PyStr claim), (''auditStatus'', PyStr ''pending''), (''backupStatus'', PyStr ''pending'')]) r))
           | _ \<Rightarrow> Inl (ValueError ''invalid permission decision state'')))"

definition with_claim :: "string \<Rightarrow> pydict \<Rightarrow> (pydict \<Rightarrow> py_error + 'a) \<Rightarrow> py_error + 'a" where
  \<comment> \<open>the decision of the record, which has to be the one of the claim\<close>
  "with_claim claim r k =
     (case dict_get ''decision'' r of
        PyDict d \<Rightarrow> if dict_get ''claimId'' d \<noteq> PyStr claim then Inl (ValueError ''permission claim changed'') else k d
      | _ \<Rightarrow> Inl (ValueError ''permission claim changed''))"

definition applied_record :: "wait_env \<Rightarrow> int \<Rightarrow> string \<Rightarrow> pydict \<Rightarrow> py_error + pydict option" where
  "applied_record env now claim r =
     with_claim claim r (\<lambda>d.
       if dict_get ''status'' d = PyStr ''applied'' then Inr None
       else if dict_get ''status'' d \<noteq> PyStr ''claimed'' then Inl (ValueError ''permission claim is not pending delivery'')
       else advance_generation env now (dict_set ''decision'' (PyDict (dict_set ''status'' (PyStr ''applied'') d)) r))"

definition backed_up_record :: "wait_env \<Rightarrow> int \<Rightarrow> string \<Rightarrow> pydict \<Rightarrow> py_error + pydict option" where
  "backed_up_record env now claim r =
     with_claim claim r (\<lambda>d.
       if dict_get ''backupStatus'' d = PyStr ''committed'' then Inr None
       else test_in (dict_get ''status'' d) [''claimed'', ''applied'']
         (advance_generation env now (dict_set ''decision'' (PyDict (dict_set ''backupStatus'' (PyStr ''committed'') d)) r))
         (Inl (ValueError ''permission claim is not available for backup'')))"

definition suspended_record :: "wait_env \<Rightarrow> int \<Rightarrow> int option \<Rightarrow> pydict \<Rightarrow> py_error + pydict option" where
  "suspended_record env now expected r =
     expect_generation expected r
       (if dict_get ''phase'' r = PyStr ''SUSPENDED'' then Inr None
        else test_in (dict_get ''phase'' r) [''SUSPENDING'', ''WAITING'', ''TIMEOUT_GRACE''] (set_phase env now ''SUSPENDED'' r)
               (Inl (ValueError ''permission boundary cannot be suspended'')))"

definition restoring_record :: "wait_env \<Rightarrow> int \<Rightarrow> pydict \<Rightarrow> py_error + pydict option" where
  "restoring_record env now r =
     test_in (dict_get ''phase'' r) [''SUSPENDED'', ''SUSPENDING'']
       (case dict_get ''decision'' r of
          PyDict d \<Rightarrow> test_in (dict_get ''status'' d) [''claimed'', ''applied''] (set_phase env now ''RESTORING'' r)
            (Inl (ValueError ''permission boundary has no decision to recover''))
        | _ \<Rightarrow> Inl (ValueError ''permission boundary has no decision to recover''))
       (Inl (ValueError ''permission boundary is not recoverable''))"

definition receipt :: "pydict \<Rightarrow> pyval \<Rightarrow> pydict \<Rightarrow> pydict \<Rightarrow> py_error + pydict" where
  \<comment> \<open>the compact record of a resolved boundary, with the fields that differ between the two places that write one\<close>
  "receipt r decision tail_fields stamp_fields =
     (case first_some (\<lambda>k. if map_of r k = None then Some k else None)
         [''boundaryId'', ''inputId'', ''sessionId'', ''toolUseId'', ''payloadDigest''] of
        Some k \<Rightarrow> Inl (KeyError k)
      | None \<Rightarrow>
          map_sum id (\<lambda>g.
            [(''schemaVersion'', PyInt 1), (''boundaryId'', dict_get ''boundaryId'' r), (''inputId'', dict_get ''inputId'' r),
             (''taskId'', dict_get ''taskId'' r), (''contextId'', dict_get ''contextId'' r), (''sessionId'', dict_get ''sessionId'' r),
             (''toolUseId'', dict_get ''toolUseId'' r), (''payloadDigest'', dict_get ''payloadDigest'' r),
             (''phase'', PyStr ''RESOLVED''), (''generation'', PyInt (g + 1)), (''decision'', decision)]
            @ tail_fields @ stamp_fields) (generation_of r))"

definition resolved_record :: "wait_env \<Rightarrow> int \<Rightarrow> string \<Rightarrow> pydict \<Rightarrow> pydict \<Rightarrow> py_error + pydict option" where
  "resolved_record env now result_digest ack r =
     (if dict_get ''phase'' r = PyStr ''RESOLVED'' then Inr None
      else map_sum id Some (receipt r (dict_get ''decision'' r) [(''resultDigest'', PyStr result_digest), (''ack'', PyDict ack)]
             [(''resolvedAt'', PyStr (format_utc env now))]))"

definition canceled_record :: "wait_env \<Rightarrow> int \<Rightarrow> int option \<Rightarrow> bool \<Rightarrow> pydict \<Rightarrow> py_error + pydict option" where
  "canceled_record env now expected allow_unreleased_claim r =
     expect_generation expected r
       (if dict_get ''phase'' r = PyStr ''CANCELED'' then Inr None
        else if dict_get ''phase'' r = PyStr ''RESOLVED'' then Inl (ValueError ''resolved permission cannot be canceled'')
        else
          let cancel = (\<lambda>unreleased.
                 case dict_get ''decision'' r of
                   PyDict d \<Rightarrow>
                     if dict_get ''status'' d \<noteq> PyStr ''none'' \<and> \<not> (unreleased \<and> dict_get ''status'' d = PyStr ''claimed'')
                     then Inl (ValueError ''permission decision already claimed'') else set_phase env now ''CANCELED'' r
                 | _ \<Rightarrow> set_phase env now ''CANCELED'' r)
          in if allow_unreleased_claim then test_in (dict_get ''phase'' r) [''WAITING'', ''TIMEOUT_GRACE''] (cancel True) (cancel False)
             else cancel False)"

definition canceled_restore_record :: "wait_env \<Rightarrow> int \<Rightarrow> string \<Rightarrow> pydict \<Rightarrow> py_error + pydict option" where
  "canceled_restore_record env now claim r =
     (case dict_get ''decision'' r of
        PyDict d \<Rightarrow>
          if claim = [] \<or> dict_get ''claimId'' d \<noteq> PyStr claim then Inl (ValueError ''permission recovery claim changed'')
          else if dict_get ''phase'' r = PyStr ''CANCELED'' then Inr None
          else if dict_get ''phase'' r \<noteq> PyStr ''RESTORING'' then Inl (ValueError ''permission recovery is not restoring'')
          else set_phase env now ''CANCELED'' r
      | _ \<Rightarrow> Inl (ValueError ''permission recovery claim changed''))"

section \<open>Operations\<close>

definition read_record :: "wait_files \<Rightarrow> string \<Rightarrow> py_error + pydict option" where
  \<comment> \<open>\<^verbatim>\<open>_record_path\<close> and \<^verbatim>\<open>_read\<close>\<close>
  "read_record files boundary =
     (if \<not> is_boundary_id boundary then Inl (ValueError ''invalid permission boundary id'')
      else
        (case map_of files boundary of
           None \<Rightarrow> Inr None
         | Some Broken \<Rightarrow> Inl (ValueError ''invalid permission checkpoint'')
         | Some (Record r) \<Rightarrow> Inr (Some r)))"

type_synonym 'a wait_result = "(py_error + 'a) \<times> wait_files"

definition wait_create :: "string \<Rightarrow> pydict \<Rightarrow> wait_files \<Rightarrow> pydict wait_result" where
  "wait_create sid r files =
     (case validate_record sid r of
        Inl e \<Rightarrow> (Inl e, files)
      | Inr boundary \<Rightarrow>
          if map_of files boundary \<noteq> None then (Inl (ValueError ''permission boundary already exists''), files)
          else (Inr r, dict_set boundary (Record r) files))"

definition successor_receipt :: "wait_env \<Rightarrow> int \<Rightarrow> string \<Rightarrow> pydict \<Rightarrow> py_error + pydict" where
  \<comment> \<open>what \<^verbatim>\<open>create_successor\<close> makes of the record of the previous boundary\<close>
  "successor_receipt env now boundary previous =
     test_in (dict_get ''phase'' previous) [''RESOLVED'', ''CANCELED'']
       (Inl (ValueError ''previous permission boundary is not active''))
       (case dict_get ''decision'' previous of
          PyDict d \<Rightarrow> test_in (dict_get ''status'' d) [''claimed'', ''applied'']
            (receipt previous (PyDict d)
               [(''resultDigest'', PyStr []), (''nextBoundaryId'', PyStr boundary),
                (''ack'', PyDict [(''decision'', dict_get ''value'' d), (''accepted'', PyBool True), (''nextBoundaryId'', PyStr boundary)])]
               [(''resolvedAt'', PyStr (format_utc env now))])
            (Inl (ValueError ''previous permission decision is not available''))
        | _ \<Rightarrow> Inl (ValueError ''previous permission decision is not available''))"

definition create_successor :: "wait_env \<Rightarrow> int \<Rightarrow> string \<Rightarrow> pydict \<Rightarrow> string \<Rightarrow> wait_files \<Rightarrow> pydict wait_result" where
  "create_successor env now sid r previous_boundary files =
     (case validate_record sid r of
        Inl e \<Rightarrow> (Inl e, files)
      | Inr boundary \<Rightarrow>
          if \<not> is_boundary_id previous_boundary then (Inl (ValueError ''invalid permission boundary id''), files)
          else if map_of files boundary \<noteq> None then (Inl (ValueError ''permission boundary already exists''), files)
          else
            (case read_record files previous_boundary of
               Inl e \<Rightarrow> (Inl e, files)
             | Inr None \<Rightarrow> (Inl (ValueError ''previous permission boundary is not active''), files)
             | Inr (Some previous) \<Rightarrow>
                 (case successor_receipt env now boundary previous of
                    Inl e \<Rightarrow> (Inl e, files)
                  | Inr done_record \<Rightarrow> (Inr r, dict_set previous_boundary (Record done_record) (dict_set boundary (Record r) files)))))"

definition transact :: "string \<Rightarrow> (pydict \<Rightarrow> py_error + pydict option) \<Rightarrow> string \<Rightarrow> wait_files \<Rightarrow> (pydict \<times> bool) wait_result" where
  \<comment> \<open>\<^verbatim>\<open>transaction\<close>, and whether the record was changed\<close>
  "transact sid mutate boundary files =
     (case read_record files boundary of
        Inl e \<Rightarrow> (Inl e, files)
      | Inr None \<Rightarrow> (Inl (ValueError ''permission boundary not found''), files)
      | Inr (Some current) \<Rightarrow>
          (case mutate current of
             Inl e \<Rightarrow> (Inl e, files)
           | Inr None \<Rightarrow> (Inr (current, False), files)
           | Inr (Some updated) \<Rightarrow>
               (case validate_record sid updated of
                  Inl e \<Rightarrow> (Inl e, files)
                | Inr _ \<Rightarrow> (Inr (updated, True), dict_set boundary (Record updated) files))))"

definition transaction :: "string \<Rightarrow> (pydict \<Rightarrow> py_error + pydict option) \<Rightarrow> string \<Rightarrow> wait_files \<Rightarrow> pydict wait_result" where
  "transaction sid mutate boundary files = apfst (map_sum id fst) (transact sid mutate boundary files)"

definition reactivate where
  "reactivate sid boundary replacement = transaction sid (reactivate_record boundary replacement) boundary"

definition reconcile_deadline where
  "reconcile_deadline env sid boundary observed_at grace live_owner expected allow_suspend =
     transaction sid (deadline_record env observed_at grace live_owner expected allow_suspend) boundary"

definition claim_decision where
  \<comment> \<open>the flag of the result says that the decision was recorded by this call\<close>
  "claim_decision env now sid boundary val source claim expected =
     transact sid (claim_record env now val source claim expected) boundary"

definition mark_applied where
  "mark_applied env now sid boundary claim = transaction sid (applied_record env now claim) boundary"

definition mark_claim_backed_up where
  "mark_claim_backed_up env now sid boundary claim = transaction sid (backed_up_record env now claim) boundary"

definition mark_suspended where
  "mark_suspended env now sid boundary expected = transaction sid (suspended_record env now expected) boundary"

definition begin_restore where
  "begin_restore env now sid boundary = transaction sid (restoring_record env now) boundary"

definition wait_resolve where
  "wait_resolve env now sid boundary result_digest ack = transaction sid (resolved_record env now result_digest ack) boundary"

definition wait_cancel where
  "wait_cancel env now sid boundary expected allow_unreleased_claim =
     transaction sid (canceled_record env now expected allow_unreleased_claim) boundary"

definition cancel_restore where
  "cancel_restore env now sid boundary claim = transaction sid (canceled_restore_record env now claim) boundary"

definition audited_decision :: "bool \<Rightarrow> pydict \<Rightarrow> pydict" where
  \<comment> \<open>an approval whose audit failed becomes a refusal\<close>
  "audited_decision succeeded d =
     dict_set ''auditStatus'' (PyStr (if succeeded then ''recorded'' else ''failed''))
       (if \<not> succeeded \<and> dict_get ''value'' d = PyStr ''allow_once'' then dict_set ''value'' (PyStr ''deny'') d else d)"

definition delivered_value :: "wait_env \<Rightarrow> pydict \<Rightarrow> string" where
  "delivered_value env d = (case dict_get ''value'' d of PyStr s \<Rightarrow> s | v \<Rightarrow> if truthy v then we_str env v else [])"

definition audit_record :: "wait_env \<Rightarrow> int \<Rightarrow> string \<Rightarrow> (string \<Rightarrow> bool) \<Rightarrow> pydict \<Rightarrow> py_error + pydict option" where
  \<comment> \<open>the body of \<^verbatim>\<open>run_claim_audit_once\<close>; \<open>write_audit\<close> is false where the callback raises\<close>
  "audit_record env now claim write_audit r =
     with_claim claim r (\<lambda>d.
       test_in (dict_get ''status'' d) [''claimed'', ''applied'']
         (let audit_status = (case map_of d ''auditStatus'' of None \<Rightarrow> PyStr ''pending'' | Some v \<Rightarrow> v) in
          test_in audit_status [''recorded'', ''failed''] (Inr None)
            (if audit_status \<noteq> PyStr ''pending'' then Inl (ValueError ''invalid permission claim audit state'')
             else advance_generation env now (dict_set ''decision'' (PyDict (audited_decision (write_audit (delivered_value env d)) d)) r)))
         (Inl (ValueError ''permission claim is not available for audit'')))"

definition run_claim_audit_once where
  \<comment> \<open>the flag of the result says that the audit ran\<close>
  "run_claim_audit_once env now sid boundary claim write_audit = transact sid (audit_record env now claim write_audit) boundary"

definition run_generation_fenced :: "string \<Rightarrow> int \<Rightarrow> (wait_files \<Rightarrow> 'a \<times> wait_files) \<Rightarrow> wait_files \<Rightarrow> 'a wait_result" where
  "run_generation_fenced boundary expected operation files =
     (let fenced = (\<lambda>files. case read_record files boundary of
            Inl e \<Rightarrow> Inl e
          | Inr None \<Rightarrow> Inl (ValueError ''permission generation changed'')
          | Inr (Some r) \<Rightarrow> expect_generation (Some expected) r (Inr ()))
      in case fenced files of
           Inl e \<Rightarrow> (Inl e, files)
         | Inr _ \<Rightarrow> let (x, files1) = operation files in (map_sum id (\<lambda>_. x) (fenced files1), files1))"

definition sorted_records :: "wait_files \<Rightarrow> wait_file list" where
  \<comment> \<open>the files \<^verbatim>\<open>pwb_*.json\<close> in the order of their paths\<close>
  "sorted_records files = map snd (sort_key (\<lambda>bf. fst bf @ ''.json'') (filter (\<lambda>bf. startswith (fst bf) ''pwb_'') files))"

fun active_records :: "string list \<Rightarrow> wait_file list \<Rightarrow> py_error + pydict list" where
  "active_records phases [] = Inr []"
| "active_records phases (Broken # fs) = Inl (ValueError ''invalid permission checkpoint'')"
| "active_records phases (Record r # fs) =
     test_in (dict_get ''phase'' r) phases (map_sum id (Cons r) (active_records phases fs)) (active_records phases fs)"

definition list_active :: "bool \<Rightarrow> wait_files \<Rightarrow> py_error + pydict list" where
  "list_active include_canceled files =
     active_records (ACTIVE_PHASES @ (if include_canceled then [''CANCELED''] else [])) (sorted_records files)"

fun first_record :: "(pydict \<Rightarrow> bool) \<Rightarrow> wait_file list \<Rightarrow> py_error + pydict option" where
  \<comment> \<open>the search stops at the first record that fits\<close>
  "first_record P [] = Inr None"
| "first_record P (Broken # fs) = Inl (ValueError ''invalid permission checkpoint'')"
| "first_record P (Record r # fs) = (if P r then Inr (Some r) else first_record P fs)"

definition wait_find :: "string \<Rightarrow> string \<Rightarrow> string \<Rightarrow> string \<Rightarrow> wait_files \<Rightarrow> py_error + pydict option" where
  "wait_find task context_id input_id tool files =
     first_record (\<lambda>r. dict_get ''taskId'' r = PyStr task \<and> dict_get ''contextId'' r = PyStr context_id
       \<and> dict_get ''inputId'' r = PyStr input_id \<and> dict_get ''toolUseId'' r = PyStr tool) (sorted_records files)"

definition find_by_input_id :: "string \<Rightarrow> wait_files \<Rightarrow> py_error + pydict option" where
  "find_by_input_id input_id files = first_record (\<lambda>r. dict_get ''inputId'' r = PyStr input_id) (sorted_records files)"

section \<open>New checkpoints\<close>

record PermissionWaitPolicy =
  wp_resident_timeout :: "int option"
  wp_sub_pipeline_timeout :: "int option"
  wp_timeout_grace :: int

record checkpoint_request =
  cr_session_id :: string
  cr_task_id :: "string option"
  cr_context_id :: string
  cr_input_id :: string
  cr_tool_use_id :: string
  cr_tool_name :: string
  cr_tool_input :: pydict
  cr_permission_class :: string
  cr_principal_ref :: "string option"
  cr_principal_kind :: "string option"
  cr_region :: "string option"
  cr_pipeline_coordinates :: "pydict option"

definition opt_text :: "string option \<Rightarrow> pyval" where
  "opt_text x = (case x of None \<Rightarrow> PyNone | Some s \<Rightarrow> PyStr s)"

definition build_permission_checkpoint ::
    "wait_env \<Rightarrow> (pyval \<Rightarrow> string) \<Rightarrow> string \<Rightarrow> int \<Rightarrow> checkpoint_request \<Rightarrow> pydict \<Rightarrow> PermissionWaitPolicy \<Rightarrow> py_error + pydict" where
  \<comment> \<open>\<open>digest\<close> is \<^verbatim>\<open>canonical_digest\<close>, \<open>boundary\<close> the identifier of \<^verbatim>\<open>new_boundary_id\<close>\<close>
  "build_permission_checkpoint env digest boundary created cr continuation_frame policy =
     (let payload = (case map_of continuation_frame ''currentPayloadDigest'' of
            None \<Rightarrow> PyStr (digest (PyDict [(''name'', PyStr (cr_tool_name cr)), (''input'', PyDict (cr_tool_input cr))]))
          | Some v \<Rightarrow> v)
      in case payload of
           PyStr s \<Rightarrow>
             if \<not> is_sha256 s then Inl (ValueError ''invalid permission continuation payload digest'')
             else Inr
               [(''schemaVersion'', PyInt 1), (''boundaryId'', PyStr boundary), (''inputId'', PyStr (cr_input_id cr)),
                (''taskId'', opt_text (cr_task_id cr)), (''contextId'', PyStr (cr_context_id cr)),
                (''sessionId'', PyStr (cr_session_id cr)), (''identitySchemaVersion'', PyInt 1),
                (''principalRef'', opt_text (cr_principal_ref cr)), (''principalKind'', opt_text (cr_principal_kind cr)),
                (''region'', opt_text (cr_region cr)),
                (''mode'', PyStr (if cr_permission_class cr = ''normal'' then ''normal'' else ''pipeline'')),
                (''permissionClass'', PyStr (cr_permission_class cr)), (''toolUseId'', PyStr (cr_tool_use_id cr)),
                (''toolName'', PyStr (cr_tool_name cr)), (''payloadDigest'', PyStr s),
                (''pipelineCoordinates'', case cr_pipeline_coordinates cr of None \<Rightarrow> PyNone | Some c \<Rightarrow> PyDict c),
                (''continuationFrame'', PyDict (dict_set ''currentPayloadDigest'' (PyStr s) continuation_frame)),
                (''phase'', PyStr ''WAITING''), (''generation'', PyInt 1), (''createdAt'', PyStr (format_utc env created)),
                (''updatedAt'', PyStr (format_utc env created)),
                (''residentDeadlineAt'', case wp_resident_timeout policy of None \<Rightarrow> PyNone
                   | Some t \<Rightarrow> PyStr (format_utc env (created + t))),
                (''graceDeadlineAt'', PyNone),
                (''decision'', PyDict [(''status'', PyStr ''none''), (''value'', PyNone), (''source'', PyNone), (''claimId'', PyNone)])]
         | _ \<Rightarrow> Inl (ValueError ''invalid permission continuation payload digest''))"

definition save_preparing_record :: "wait_env \<Rightarrow> (string \<times> int) list \<Rightarrow> pyval \<Rightarrow> pydict \<Rightarrow> py_error + pydict option" where
  \<comment> \<open>\<^verbatim>\<open>_save_preparing\<close> of \<^verbatim>\<open>a2a/permission_handoff.py\<close>, for the boundaries and the document of its proof\<close>
  "save_preparing_record env boundaries document r =
     (case dict_get ''generation'' r of
        PyInt g \<Rightarrow>
          if map_of boundaries (case dict_get ''boundaryId'' r of PyStr b \<Rightarrow> b | v \<Rightarrow> we_str env v) \<noteq> Some g
          then Inl (ValueError ''permission generation changed before handoff'')
          else test_in (dict_get ''phase'' r) [''SUSPENDED'', ''CANCELED''] (Inr (Some (dict_set ''executionHandoff'' document r)))
                 (Inl (ValueError ''permission generation changed before handoff''))
      | _ \<Rightarrow> Inl (ValueError ''permission generation changed before handoff''))"

section \<open>Runs\<close>

text \<open>All that is ever done to the records of a session, by any process, in the order of the lock.\<close>

datatype wait_op =
    Create pydict
  | Successor int pydict string
  | Reactivate string pydict
  | Deadline string int int bool "int option" bool
  | Claim int string string string string "int option"
  | Applied int string string
  | Backed_Up int string string
  | Audit int string string "string \<Rightarrow> bool"
  | Suspend_Record int string "int option"
  | Restore int string
  | Resolve int string string pydict
  | Cancel int string "int option" bool
  | Cancel_Restore int string string
  | Save_Preparing string "(string \<times> int) list" pyval

fun wait_exec :: "wait_env \<Rightarrow> string \<Rightarrow> wait_op \<Rightarrow> wait_files \<Rightarrow> wait_files" where
  "wait_exec env sid (Create r) files = snd (wait_create sid r files)"
| "wait_exec env sid (Successor now r previous) files = snd (create_successor env now sid r previous files)"
| "wait_exec env sid (Reactivate b replacement) files = snd (reactivate sid b replacement files)"
| "wait_exec env sid (Deadline b now grace live expected allow) files = snd (reconcile_deadline env sid b now grace live expected allow files)"
| "wait_exec env sid (Claim now b val source claim expected) files = snd (claim_decision env now sid b val source claim expected files)"
| "wait_exec env sid (Applied now b claim) files = snd (mark_applied env now sid b claim files)"
| "wait_exec env sid (Backed_Up now b claim) files = snd (mark_claim_backed_up env now sid b claim files)"
| "wait_exec env sid (Audit now b claim write_audit) files = snd (run_claim_audit_once env now sid b claim write_audit files)"
| "wait_exec env sid (Suspend_Record now b expected) files = snd (mark_suspended env now sid b expected files)"
| "wait_exec env sid (Restore now b) files = snd (begin_restore env now sid b files)"
| "wait_exec env sid (Resolve now b digest ack) files = snd (wait_resolve env now sid b digest ack files)"
| "wait_exec env sid (Cancel now b expected allow) files = snd (wait_cancel env now sid b expected allow files)"
| "wait_exec env sid (Cancel_Restore now b claim) files = snd (cancel_restore env now sid b claim files)"
| "wait_exec env sid (Save_Preparing b boundaries document) files =
     snd (transaction sid (save_preparing_record env boundaries document) b files)"

definition wait_run :: "wait_env \<Rightarrow> string \<Rightarrow> wait_op list \<Rightarrow> wait_files \<Rightarrow> wait_files" where
  "wait_run env sid ops files = fold (wait_exec env sid) ops files"

section \<open>How a record may change\<close>

definition claimed :: "pydict \<Rightarrow> bool" where
  "claimed d \<longleftrightarrow> dict_get ''status'' d \<in> {PyStr ''claimed'', PyStr ''applied''}"

definition audit_done :: "pydict \<Rightarrow> bool" where
  "audit_done d \<longleftrightarrow> dict_get ''auditStatus'' d \<in> {PyStr ''recorded'', PyStr ''failed''}"

definition keeps_answer :: "pydict \<Rightarrow> pydict \<Rightarrow> bool" where
  \<comment> \<open>only a failed audit turns an approval into a refusal, once\<close>
  "keeps_answer d e \<longleftrightarrow> claimed e
     \<and> (dict_get ''status'' d = PyStr ''applied'' \<longrightarrow> dict_get ''status'' e = PyStr ''applied'')
     \<and> dict_get ''claimId'' e = dict_get ''claimId'' d \<and> dict_get ''source'' e = dict_get ''source'' d
     \<and> (audit_done d \<longrightarrow> dict_get ''auditStatus'' e = dict_get ''auditStatus'' d \<and> dict_get ''value'' e = dict_get ''value'' d)
     \<and> (dict_get ''value'' e = dict_get ''value'' d
        \<or> dict_get ''value'' d = PyStr ''allow_once'' \<and> dict_get ''value'' e = PyStr ''deny''
          \<and> dict_get ''auditStatus'' e = PyStr ''failed'')"

definition settled_by :: "pyval \<Rightarrow> pyval \<Rightarrow> bool" where
  \<comment> \<open>a decision that was claimed stays\<close>
  "settled_by v w \<longleftrightarrow> (\<forall>d. v = PyDict d \<and> claimed d \<longrightarrow> (\<exists>e. w = PyDict e \<and> keeps_answer d e))"

definition ends_by :: "pyval \<Rightarrow> pyval \<Rightarrow> bool" where
  "ends_by p q \<longleftrightarrow> (p = PyStr ''RESOLVED'' \<longrightarrow> q = PyStr ''RESOLVED'')
     \<and> (p = PyStr ''CANCELED'' \<longrightarrow> q \<in> {PyStr ''CANCELED'', PyStr ''RESOLVED''})"

definition sound_record :: "pydict \<Rightarrow> bool" where
  "sound_record r \<longleftrightarrow> (\<exists>g p. dict_get ''generation'' r = PyInt g \<and> dict_get ''phase'' r = PyStr p)"

definition generation_at :: "pydict \<Rightarrow> int" where
  "generation_at r = (case dict_get ''generation'' r of PyInt g \<Rightarrow> g | _ \<Rightarrow> 0)"

definition later :: "pydict \<Rightarrow> pydict \<Rightarrow> bool" where
  "later r r' \<longleftrightarrow> generation_at r \<le> generation_at r'
     \<and> (generation_at r = generation_at r' \<longrightarrow> (\<forall>k. k \<noteq> ''executionHandoff'' \<longrightarrow> map_of r' k = map_of r k))
     \<and> settled_by (dict_get ''decision'' r) (dict_get ''decision'' r') \<and> ends_by (dict_get ''phase'' r) (dict_get ''phase'' r')"

lemma dict_get_set [simp]: "dict_get k (dict_set k' v d) = (if k = k' then v else dict_get k d)"
  by (simp add: dict_get_def)

lemma keeps_refl: "claimed d \<Longrightarrow> keeps_answer d d"
  by (simp add: keeps_answer_def)

lemma keeps_trans:
  assumes "keeps_answer d e" and "keeps_answer e f"
  shows "keeps_answer d f"
  using assms unfolding keeps_answer_def audit_done_def by auto

lemma keeps_answer_claimed: "keeps_answer d e \<Longrightarrow> claimed e"
  by (simp add: keeps_answer_def)

lemma settled_refl [simp]: "settled_by v v"
  by (auto simp: settled_by_def keeps_refl)

lemma settled_trans: "settled_by u v \<Longrightarrow> settled_by v w \<Longrightarrow> settled_by u w"
  unfolding settled_by_def by (metis keeps_answer_claimed keeps_trans)

lemma ends_refl [simp]: "ends_by p p"
  by (simp add: ends_by_def)

lemma ends_trans: "ends_by p q \<Longrightarrow> ends_by q s \<Longrightarrow> ends_by p s"
  by (auto simp: ends_by_def)

lemma later_refl [simp]: "later r r"
  by (simp add: later_def)

lemma later_trans: "later r s \<Longrightarrow> later s t \<Longrightarrow> later r t"
  unfolding later_def by (auto intro: settled_trans ends_trans)

section \<open>Every change is one of these\<close>

definition moves :: "pydict \<Rightarrow> pydict \<Rightarrow> bool" where
  "moves r r' \<longleftrightarrow> sound_record r' \<and> later r r'"

lemma generation_of_sound: "dict_get ''generation'' r = PyInt g \<Longrightarrow> generation_of r = Inr g"
  by (auto simp: dict_get_def generation_of_def int_of_value_def split: option.splits)

lemma movesI:
  assumes "dict_get ''generation'' r = PyInt g" and "dict_get ''generation'' r' = PyInt (g + 1)" and "dict_get ''phase'' r' = PyStr p"
    and "settled_by (dict_get ''decision'' r) (dict_get ''decision'' r')" and "ends_by (dict_get ''phase'' r) (PyStr p)"
  shows "moves r r'"
  using assms by (simp add: moves_def sound_record_def later_def generation_at_def)

lemma advance_moves:
  assumes "advance_generation env now r1 = Inr (Some r')" and "sound_record r" and "dict_get ''generation'' r1 = dict_get ''generation'' r"
    and "\<exists>p. dict_get ''phase'' r1 = PyStr p" and "settled_by (dict_get ''decision'' r) (dict_get ''decision'' r1)"
    and "ends_by (dict_get ''phase'' r) (dict_get ''phase'' r1)"
  shows "moves r r'"
proof -
  obtain g p where g: "dict_get ''generation'' r = PyInt g" "dict_get ''phase'' r1 = PyStr p"
    using assms(2,4) by (auto simp: sound_record_def)
  then have "r' = dict_set ''updatedAt'' (PyStr (format_utc env now)) (dict_set ''generation'' (PyInt (g + 1)) r1)"
    using assms(1,3) generation_of_sound [of r1 g] by (simp add: advance_generation_def)
  then show ?thesis using assms(5,6) g by (intro movesI [OF g(1)]) auto
qed

lemma set_phase_moves:
  assumes "set_phase env now p r1 = Inr (Some r')" and "sound_record r" and "dict_get ''generation'' r1 = dict_get ''generation'' r"
    and "dict_get ''decision'' r1 = dict_get ''decision'' r" and "ends_by (dict_get ''phase'' r) (PyStr p)"
  shows "moves r r'"
  by (rule advance_moves [OF assms(1) [unfolded set_phase_def]]) (use assms in auto)

lemma expect_generation_Inr: "expect_generation expected r k = Inr x \<Longrightarrow> k = Inr x"
  by (auto simp: expect_generation_def split: option.splits sum.splits if_splits)

lemma with_claim_Inr: "with_claim claim r k = Inr x \<Longrightarrow> \<exists>d. dict_get ''decision'' r = PyDict d \<and> k d = Inr x"
  by (auto simp: with_claim_def split: pyval.splits if_splits)

lemma deadline_moves:
  assumes "deadline_record env now grace live expected allow r = Inr (Some r')" and "sound_record r"
  shows "moves r r'"
proof -
  have ends: "p \<in> {''WAITING'', ''TIMEOUT_GRACE'', ''SUSPENDING''} \<Longrightarrow> ends_by (PyStr p) q" for p q by (auto simp: ends_by_def)
  show ?thesis
    using expect_generation_Inr [OF assms(1) [unfolded deadline_record_def]] assms(2)
    by (auto simp: Let_def test_in_Inr split: if_splits elim!: set_phase_moves intro: ends)
qed

lemma claim_moves:
  assumes "claim_record env now val source claim expected r = Inr (Some r')" and "sound_record r"
  shows "moves r r'"
proof -
  from expect_generation_Inr [OF assms(1) [unfolded claim_record_def]] obtain d where
    d: "dict_get ''decision'' r = PyDict d" "dict_get ''status'' d = PyStr ''none''"
    and adv: "advance_generation env now (dict_set ''decision''
      (PyDict [(''status'', PyStr ''claimed''), (''value'', PyStr val), (''source'', PyStr source),
         (''claimId'', PyStr claim), (''auditStatus'', PyStr ''pending''), (''backupStatus'', PyStr ''pending'')]) r) = Inr (Some r')"
    by (auto simp: test_in_Inr split: pyval.splits if_splits)
  show ?thesis
    by (rule advance_moves [OF adv assms(2)]) (use assms(2) d in \<open>auto simp: sound_record_def settled_by_def claimed_def\<close>)
qed

lemma decision_moves:
  assumes "advance_generation env now (dict_set ''decision'' (PyDict e) r) = Inr (Some r')" and "sound_record r"
    and "dict_get ''decision'' r = PyDict d" and "claimed d \<Longrightarrow> keeps_answer d e"
  shows "moves r r'"
  by (rule advance_moves [OF assms(1,2)]) (use assms(2-4) in \<open>auto simp: sound_record_def settled_by_def\<close>)

lemma applied_moves:
  assumes "applied_record env now claim r = Inr (Some r')" and "sound_record r"
  shows "moves r r'"
proof -
  from with_claim_Inr [OF assms(1) [unfolded applied_record_def]] obtain d where
    d: "dict_get ''decision'' r = PyDict d" "dict_get ''status'' d = PyStr ''claimed''"
    and adv: "advance_generation env now (dict_set ''decision'' (PyDict (dict_set ''status'' (PyStr ''applied'') d)) r) = Inr (Some r')"
    by (auto split: if_splits)
  show ?thesis by (rule decision_moves [OF adv assms(2) d(1)]) (use d in \<open>auto simp: keeps_answer_def claimed_def audit_done_def\<close>)
qed

lemma backed_up_moves:
  assumes "backed_up_record env now claim r = Inr (Some r')" and "sound_record r"
  shows "moves r r'"
proof -
  from with_claim_Inr [OF assms(1) [unfolded backed_up_record_def]] obtain d where
    d: "dict_get ''decision'' r = PyDict d"
    and adv: "advance_generation env now (dict_set ''decision'' (PyDict (dict_set ''backupStatus'' (PyStr ''committed'') d)) r) = Inr (Some r')"
    by (auto simp: test_in_Inr split: if_splits)
  show ?thesis by (rule decision_moves [OF adv assms(2) d]) (auto simp: keeps_answer_def claimed_def audit_done_def)
qed

lemma audited_keeps: "claimed d \<Longrightarrow> \<not> audit_done d \<Longrightarrow> keeps_answer d (audited_decision ok d)"
  by (auto simp: keeps_answer_def claimed_def audited_decision_def)

lemma audit_record_Some:
  assumes "audit_record env now claim write_audit r = Inr (Some r')"
  obtains d where "dict_get ''decision'' r = PyDict d" "claimed d" "\<not> audit_done d"
    "advance_generation env now (dict_set ''decision'' (PyDict (audited_decision (write_audit (delivered_value env d)) d)) r) = Inr (Some r')"
  using with_claim_Inr [OF assms [unfolded audit_record_def]]
  by (auto simp: test_in_Inr Let_def claimed_def audit_done_def dict_get_def split: if_splits option.splits)

lemma audit_moves:
  assumes "audit_record env now claim write_audit r = Inr (Some r')" and "sound_record r"
  shows "moves r r'"
  using audit_record_Some [OF assms(1)] by (metis decision_moves [OF _ assms(2)] audited_keeps)

lemma phase_moves:
  assumes "sound_record r"
  shows "suspended_record env now expected r = Inr (Some r') \<Longrightarrow> moves r r'"
    and "restoring_record env now r = Inr (Some r') \<Longrightarrow> moves r r'"
    and "canceled_record env now expected allow r = Inr (Some r') \<Longrightarrow> moves r r'"
    and "canceled_restore_record env now claim r = Inr (Some r') \<Longrightarrow> moves r r'"
proof -
  show "moves r r'" if "suspended_record env now expected r = Inr (Some r')"
    using expect_generation_Inr [OF that [unfolded suspended_record_def]] assms
    by (auto simp: test_in_Inr ends_by_def split: if_splits elim!: set_phase_moves)
  show "moves r r'" if "restoring_record env now r = Inr (Some r')"
    using that assms by (auto simp: restoring_record_def test_in_Inr ends_by_def split: pyval.splits elim!: set_phase_moves)
  show "moves r r'" if "canceled_record env now expected allow r = Inr (Some r')"
    using expect_generation_Inr [OF that [unfolded canceled_record_def]] assms
    by (auto simp: Let_def test_in_Inr ends_by_def split: if_splits pyval.splits elim!: set_phase_moves)
  show "moves r r'" if "canceled_restore_record env now claim r = Inr (Some r')"
    using that assms by (auto simp: canceled_restore_record_def ends_by_def split: if_splits pyval.splits elim!: set_phase_moves)
qed

lemma receipt_moves:
  assumes "receipt r dec xs ys = Inr r'" and "sound_record r" and "settled_by (dict_get ''decision'' r) dec"
    and "dict_get ''phase'' r \<noteq> PyStr ''RESOLVED''"
  shows "moves r r'"
proof -
  obtain g where g: "dict_get ''generation'' r = PyInt g" using assms(2) by (auto simp: sound_record_def)
  then have "dict_get ''generation'' r' = PyInt (g + 1)" "dict_get ''phase'' r' = PyStr ''RESOLVED''" "dict_get ''decision'' r' = dec"
    using assms(1) generation_of_sound [OF g] by (auto simp: receipt_def dict_get_def split: option.splits)
  then show ?thesis using assms(3,4) by (intro movesI [OF g]) (auto simp: ends_by_def)
qed

lemma resolved_moves:
  assumes "resolved_record env now digest ack r = Inr (Some r')" and "sound_record r"
  shows "moves r r'"
proof -
  have "dict_get ''phase'' r \<noteq> PyStr ''RESOLVED''" using assms(1) by (auto simp: resolved_record_def)
  moreover obtain xs ys where "receipt r (dict_get ''decision'' r) xs ys = Inr r'"
    using assms(1) by (auto simp: resolved_record_def map_sum_def split: if_splits sum.splits)
  ultimately show ?thesis using assms(2) receipt_moves by simp
qed

lemma successor_moves:
  assumes "successor_receipt env now b r = Inr r'" and "sound_record r"
  shows "moves r r'"
proof -
  obtain d xs ys where "dict_get ''decision'' r = PyDict d" "receipt r (PyDict d) xs ys = Inr r'" "dict_get ''phase'' r \<noteq> PyStr ''RESOLVED''"
    using assms by (auto simp: successor_receipt_def test_in_Inr sound_record_def split: pyval.splits)
  then show ?thesis using assms(2) receipt_moves by simp
qed

lemma reactivate_moves:
  assumes "reactivate_record b replacement r = Inr (Some r')" and "sound_record r" and "\<exists>p. dict_get ''phase'' r' = PyStr p"
  shows "moves r r'"
proof -
  obtain g where g: "dict_get ''generation'' r = PyInt g" using assms(2) by (auto simp: sound_record_def)
  then have "dict_get ''generation'' r' = PyInt (g + 1)" "dict_get ''phase'' r = PyStr ''SUSPENDED''" "decision_status r = PyStr ''none''"
    using assms(1) generation_of_sound [OF g] by (auto simp: reactivate_record_def split: if_splits option.splits)
  then show ?thesis using assms(3)
    by (auto intro!: movesI [OF g] simp: settled_by_def ends_by_def claimed_def decision_status_def split: pyval.splits)
qed

lemma save_preparing_moves:
  assumes "save_preparing_record env boundaries document r = Inr (Some r')" and "sound_record r"
  shows "moves r r'"
proof -
  have "r' = dict_set ''executionHandoff'' document r"
    using assms(1) by (auto simp: save_preparing_record_def test_in_Inr split: pyval.splits if_splits)
  then show ?thesis using assms(2) by (auto simp: moves_def later_def sound_record_def generation_at_def)
qed

section \<open>Runs of the store\<close>

lemma validated_sound: "validate_record sid r = Inr b \<Longrightarrow> sound_record r"
  by (auto simp: validate_record_def test_in_Inr sound_record_def split: pyval.splits if_splits)

definition files_ok :: "wait_files \<Rightarrow> bool" where
  "files_ok files \<longleftrightarrow> (\<forall>b f. map_of files b = Some f \<longrightarrow> (\<exists>r. f = Record r \<and> sound_record r))"

definition grows :: "wait_files \<Rightarrow> wait_files \<Rightarrow> bool" where
  \<comment> \<open>no record is lost, and each only moves on\<close>
  "grows files files' \<longleftrightarrow> files_ok files' \<and> (\<forall>b r. map_of files b = Some (Record r) \<longrightarrow> (\<exists>r'. map_of files' b = Some (Record r') \<and> later r r'))"

lemma grows_refl: "files_ok files \<Longrightarrow> grows files files"
  by (simp add: grows_def)

lemma grows_trans: "grows f g \<Longrightarrow> grows g h \<Longrightarrow> grows f h"
  unfolding grows_def by (meson later_trans)

lemma files_ok_set: "files_ok files \<Longrightarrow> sound_record r \<Longrightarrow> files_ok (dict_set b (Record r) files)"
  by (simp add: files_ok_def)

lemma grows_set:
  assumes "files_ok files" and "map_of files b = Some (Record r)" and "moves r r'"
  shows "grows files (dict_set b (Record r') files)"
  using assms by (auto simp: grows_def moves_def files_ok_set)

lemma grows_new:
  assumes "files_ok files" and "map_of files b = None" and "sound_record r"
  shows "grows files (dict_set b (Record r) files)"
  using assms by (auto simp: grows_def files_ok_set)

lemma read_record_Some: "read_record files b = Inr (Some r) \<Longrightarrow> map_of files b = Some (Record r)"
  by (auto simp: read_record_def split: if_splits option.splits wait_file.splits)

lemma transact_grows:
  assumes "files_ok files" and "\<And>r r'. mutate r = Inr (Some r') \<Longrightarrow> sound_record r \<Longrightarrow> sound_record r' \<Longrightarrow> moves r r'"
  shows "grows files (snd (transact sid mutate b files))"
proof (cases "snd (transact sid mutate b files) = files")
  case True
  then show ?thesis using assms(1) grows_refl by simp
next
  case False
  then obtain r r' b' where r: "read_record files b = Inr (Some r)" "mutate r = Inr (Some r')" "validate_record sid r' = Inr b'"
    "snd (transact sid mutate b files) = dict_set b (Record r') files"
    by (auto simp: transact_def split: sum.splits option.splits)
  have "map_of files b = Some (Record r)" by (rule read_record_Some [OF r(1)])
  moreover from this have "sound_record r" using assms(1) by (auto simp: files_ok_def)
  ultimately show ?thesis using grows_set [OF assms(1)] assms(2) [OF r(2)] validated_sound [OF r(3)] r(4) by auto
qed

lemma transaction_grows:
  assumes "files_ok files" and "\<And>r r'. mutate r = Inr (Some r') \<Longrightarrow> sound_record r \<Longrightarrow> sound_record r' \<Longrightarrow> moves r r'"
  shows "grows files (snd (transaction sid mutate b files))"
  using transact_grows [OF assms] by (simp add: transaction_def)

lemma create_grows: "files_ok files \<Longrightarrow> grows files (snd (wait_create sid r files))"
  by (auto simp: wait_create_def grows_refl intro: grows_new validated_sound split: sum.splits)

lemma successor_grows:
  assumes "files_ok files"
  shows "grows files (snd (create_successor env now sid r prev files))"
proof (cases "snd (create_successor env now sid r prev files) = files")
  case True
  then show ?thesis using assms grows_refl by simp
next
  case False
  then obtain b p p' where v: "validate_record sid r = Inr b" "map_of files b = None" "read_record files prev = Inr (Some p)"
    "successor_receipt env now b p = Inr p'"
    and new: "snd (create_successor env now sid r prev files) = dict_set prev (Record p') (dict_set b (Record r) files)"
    by (auto simp: create_successor_def split: sum.splits option.splits if_splits)
  let ?f = "dict_set b (Record r) files"
  have p: "map_of files prev = Some (Record p)" by (rule read_record_Some [OF v(3)])
  then have "sound_record p" using assms by (auto simp: files_ok_def)
  then have m: "moves p p'" by (rule successor_moves [OF v(4)])
  have g: "grows files ?f" by (rule grows_new [OF assms v(2) validated_sound [OF v(1)]])
  moreover have "grows ?f (dict_set prev (Record p') ?f)"
    using g p v(2) m by (intro grows_set) (auto simp: grows_def)
  ultimately show ?thesis using new grows_trans by simp
qed

lemma exec_grows:
  assumes "files_ok files"
  shows "grows files (wait_exec env sid op files)"
proof (cases op)
  case (Reactivate b replacement)
  then show ?thesis using transaction_grows [OF assms, of "reactivate_record b replacement"] reactivate_moves
    by (auto simp: reactivate_def sound_record_def)
qed (auto simp: create_grows successor_grows assms reconcile_deadline_def claim_decision_def mark_applied_def mark_claim_backed_up_def
  run_claim_audit_once_def mark_suspended_def begin_restore_def wait_resolve_def wait_cancel_def cancel_restore_def
  intro!: transaction_grows [OF assms] transact_grows [OF assms]
  intro: deadline_moves claim_moves applied_moves backed_up_moves audit_moves phase_moves resolved_moves save_preparing_moves)

lemma run_grows: "files_ok files \<Longrightarrow> grows files (wait_run env sid ops files)"
  unfolding wait_run_def
proof (induction ops arbitrary: files)
  case (Cons op ops)
  have g: "grows files (wait_exec env sid op files)" by (rule exec_grows [OF Cons.prems])
  then have "files_ok (wait_exec env sid op files)" by (simp add: grows_def)
  from grows_trans [OF g Cons.IH [OF this]] show ?case by simp
qed (simp add: grows_refl)

lemma new_files: "files_ok []"
  by (simp add: files_ok_def)

lemma run_append: "wait_run env sid (ops @ ops') files = wait_run env sid ops' (wait_run env sid ops files)"
  by (simp add: wait_run_def)

lemma run_later:
  assumes "map_of (wait_run env sid ops []) b = Some (Record r)"
  shows "\<exists>r'. map_of (wait_run env sid (ops @ ops') []) b = Some (Record r') \<and> later r r' \<and> sound_record r \<and> sound_record r'"
proof -
  have "files_ok (wait_run env sid ops [])" using run_grows [OF new_files] by (simp add: grows_def)
  from run_grows [OF this, of env sid ops'] this show ?thesis using assms by (fastforce simp: run_append grows_def files_ok_def)
qed

definition same_record :: "pydict \<Rightarrow> pydict \<Rightarrow> bool" where
  \<comment> \<open>the proof of a handoff, which grants nothing, is the one field that changes without a new generation\<close>
  "same_record r r' \<longleftrightarrow> (\<forall>k. k \<noteq> ''executionHandoff'' \<longrightarrow> map_of r' k = map_of r k)"

inductive fenced :: "wait_env \<Rightarrow> int \<Rightarrow> (pydict \<Rightarrow> py_error + pydict option) \<Rightarrow> bool" for env g where
  "fenced env g (claim_record env now val source claim (Some g))"
| "fenced env g (deadline_record env now grace live (Some g) allow)"
| "fenced env g (suspended_record env now (Some g))"
| "fenced env g (canceled_record env now (Some g) allow)"

lemma expect_generation_Some:
  "expect_generation (Some g) r k = Inr x \<Longrightarrow> sound_record r \<Longrightarrow> generation_at r = g"
  by (auto simp: expect_generation_def sound_record_def generation_at_def dict_get_def int_of_value_def
    split: sum.splits if_splits option.splits)

lemma fenced_generation:
  assumes "fenced env g mutate" and "mutate r = Inr x" and "sound_record r"
  shows "generation_at r = g"
  using assms by cases (auto simp: claim_record_def deadline_record_def suspended_record_def canceled_record_def dest: expect_generation_Some)

text \<open>
  C11: The generation of a record is a sound fence. Whatever is done to the store after a record was seen, the record is still
  there, its generation has not gone down, and as long as it is the same nothing has changed (but for the proof of a
  handoff). So an answer, a timeout, a suspension or a cancellation that names the generation its caller has seen takes
  effect on exactly the record that the caller has seen, or fails.
\<close>

theorem generation_fences:
  assumes "map_of (wait_run env sid ops []) b = Some (Record r)"
  shows "\<exists>r'. map_of (wait_run env sid (ops @ ops') []) b = Some (Record r') \<and> generation_at r \<le> generation_at r'
    \<and> (generation_at r = generation_at r' \<longrightarrow> same_record r r')
    \<and> (\<forall>mutate res. fenced env (generation_at r) mutate
         \<and> fst (transact sid mutate b (wait_run env sid (ops @ ops') [])) = Inr res \<longrightarrow> same_record r r')"
proof -
  obtain r' where r': "map_of (wait_run env sid (ops @ ops') []) b = Some (Record r')" "later r r'" "sound_record r'"
    using run_later [OF assms] by blast
  have same: "generation_at r = generation_at r' \<Longrightarrow> same_record r r'" using r'(2) by (simp add: later_def same_record_def)
  have "same_record r r'" if f: "fenced env (generation_at r) mutate"
    and t: "fst (transact sid mutate b (wait_run env sid (ops @ ops') [])) = Inr res" for mutate res
  proof -
    from t r'(1) obtain x where "mutate r' = Inr x" by (auto simp: transact_def read_record_def split: sum.splits if_splits)
    from fenced_generation [OF f this r'(3)] show ?thesis using same by simp
  qed
  then show ?thesis using r' same by (auto simp: later_def)
qed

lemma claim_settled:
  assumes "dict_get ''decision'' r = PyDict d" and "claimed d"
  shows "claim_record env now val source claim expected r \<noteq> Inr (Some r')"
proof
  assume "claim_record env now val source claim expected r = Inr (Some r')"
  then show False
    using expect_generation_Inr [of expected r] assms by (fastforce simp: claim_record_def test_in_Inr claimed_def split: if_splits)
qed

text \<open>
  C10: An answer is final. Once a decision was claimed, whatever happens to the store, the claim and its source stay, the
  decision is never taken back, a boundary that was resolved stays resolved, and the value changes at most once, from an
  approval to a refusal, because the approval could not be audited. No later answer is recorded, by whomever and with
  whatever value.
\<close>

theorem answer_is_final:
  assumes "map_of (wait_run env sid ops []) b = Some (Record r)" and "dict_get ''decision'' r = PyDict d" and "claimed d"
  shows "\<exists>r' e. map_of (wait_run env sid (ops @ ops') []) b = Some (Record r') \<and> dict_get ''decision'' r' = PyDict e
    \<and> keeps_answer d e \<and> (dict_get ''phase'' r = PyStr ''RESOLVED'' \<longrightarrow> dict_get ''phase'' r' = PyStr ''RESOLVED'')
    \<and> (\<forall>now val source claim expected r''.
         fst (claim_decision env now sid b val source claim expected (wait_run env sid (ops @ ops') [])) \<noteq> Inr (r'', True))"
proof -
  obtain r' where r': "map_of (wait_run env sid (ops @ ops') []) b = Some (Record r')" "later r r'"
    using run_later [OF assms(1)] by blast
  then obtain e where e: "dict_get ''decision'' r' = PyDict e" "keeps_answer d e"
    using assms(2,3) by (auto simp: later_def settled_by_def)
  have "fst (claim_decision env now sid b val source claim expected (wait_run env sid (ops @ ops') [])) \<noteq> Inr (r'', True)"
    for now val source claim expected r''
    using r'(1) claim_settled [OF e(1) keeps_answer_claimed [OF e(2)]]
    by (auto simp: claim_decision_def transact_def read_record_def split: sum.splits option.splits)
  then show ?thesis using r' e by (auto simp: later_def ends_by_def)
qed

section \<open>Audits\<close>

definition audited_boundary :: "wait_env \<Rightarrow> string \<Rightarrow> wait_op \<Rightarrow> wait_files \<Rightarrow> string option" where
  \<comment> \<open>the boundary whose audit the operation runs\<close>
  "audited_boundary env sid op files =
     (case op of
        Audit now b claim write_audit \<Rightarrow>
          (case fst (run_claim_audit_once env now sid b claim write_audit files) of Inr (_, True) \<Rightarrow> Some b | _ \<Rightarrow> None)
      | _ \<Rightarrow> None)"

fun wait_audits :: "wait_env \<Rightarrow> string \<Rightarrow> wait_op list \<Rightarrow> wait_files \<Rightarrow> string list" where
  "wait_audits env sid [] files = []"
| "wait_audits env sid (op # ops) files =
     (case audited_boundary env sid op files of None \<Rightarrow> [] | Some b \<Rightarrow> [b]) @ wait_audits env sid ops (wait_exec env sid op files)"

definition audit_settled :: "string \<Rightarrow> wait_files \<Rightarrow> bool" where
  \<comment> \<open>the audit of the decision is over, and an approval that stands was recorded\<close>
  "audit_settled b files \<longleftrightarrow> (\<exists>r d. map_of files b = Some (Record r) \<and> dict_get ''decision'' r = PyDict d \<and> claimed d \<and> audit_done d
     \<and> (dict_get ''value'' d = PyStr ''allow_once'' \<longrightarrow> dict_get ''auditStatus'' d = PyStr ''recorded''))"

lemma audit_settled_grows:
  assumes "audit_settled b files" and "grows files files'"
  shows "audit_settled b files'"
proof -
  obtain r d where r: "map_of files b = Some (Record r)" "dict_get ''decision'' r = PyDict d" "claimed d" "audit_done d"
    "dict_get ''value'' d = PyStr ''allow_once'' \<longrightarrow> dict_get ''auditStatus'' d = PyStr ''recorded''"
    using assms(1) by (auto simp: audit_settled_def)
  obtain r' where r': "map_of files' b = Some (Record r')" "later r r'" using assms(2) r(1) by (auto simp: grows_def)
  then obtain e where "dict_get ''decision'' r' = PyDict e" "keeps_answer d e" using r by (auto simp: later_def settled_by_def)
  then show ?thesis using r r' by (auto simp: audit_settled_def keeps_answer_def audit_done_def)
qed

lemma audited_boundary_Some:
  assumes "audited_boundary env sid op files = Some b"
  shows "\<not> audit_settled b files \<and> audit_settled b (wait_exec env sid op files)"
proof -
  obtain now claim w res where op: "op = Audit now b claim w" "fst (run_claim_audit_once env now sid b claim w files) = Inr (res, True)"
    using assms by (auto simp: audited_boundary_def split: wait_op.splits sum.splits prod.splits bool.splits)
  then obtain r r' where r: "read_record files b = Inr (Some r)" "audit_record env now claim w r = Inr (Some r')"
    "wait_exec env sid op files = dict_set b (Record r') files"
    by (auto simp: run_claim_audit_once_def transact_def split: sum.splits option.splits)
  from audit_record_Some [OF r(2)] obtain d where d: "dict_get ''decision'' r = PyDict d" "claimed d" "\<not> audit_done d"
    and adv: "advance_generation env now (dict_set ''decision'' (PyDict (audited_decision (w (delivered_value env d)) d)) r) = Inr (Some r')" .
  have "dict_get ''decision'' r' = PyDict (audited_decision (w (delivered_value env d)) d)"
    using adv by (auto simp: advance_generation_def map_sum_def split: sum.splits)
  then have "audit_settled b (wait_exec env sid op files)"
    using d(2) by (auto simp: audit_settled_def r(3) audited_decision_def claimed_def audit_done_def)
  moreover have "\<not> audit_settled b files" using read_record_Some [OF r(1)] d by (auto simp: audit_settled_def)
  ultimately show ?thesis by simp
qed

lemma audits_later:
  assumes "files_ok files"
  shows "distinct (wait_audits env sid ops files)
    \<and> (\<forall>b \<in> set (wait_audits env sid ops files). \<not> audit_settled b files \<and> audit_settled b (wait_run env sid ops files))"
  using assms
proof (induction ops arbitrary: files)
  case (Cons op ops)
  let ?f = "wait_exec env sid op files"
  have g: "grows files ?f" by (rule exec_grows [OF Cons.prems])
  then have ok: "files_ok ?f" by (simp add: grows_def)
  note IH = Cons.IH [OF ok] and g' = run_grows [OF ok, of env sid ops]
  have run: "wait_run env sid (op # ops) files = wait_run env sid ops ?f" by (simp add: wait_run_def)
  have later: "\<not> audit_settled b files" if "\<not> audit_settled b ?f" for b using that audit_settled_grows [OF _ g] by blast
  show ?case
  proof (cases "audited_boundary env sid op files")
    case None
    then show ?thesis using IH later run by auto
  next
    case (Some b)
    from audited_boundary_Some [OF this] have "\<not> audit_settled b files" "audit_settled b ?f" by simp_all
    then show ?thesis using Some IH later run audit_settled_grows [OF _ g'] by auto
  qed
qed simp

text \<open>
  C12: Every answer is audited at most once, however many processes deliver it and however often they try, and an approval
  whose audit failed is a refusal from then on.
\<close>

theorem audit_runs_once:
  "distinct (wait_audits env sid ops []) \<and> (\<forall>b. b \<in> set (wait_audits env sid ops []) \<longrightarrow> audit_settled b (wait_run env sid ops []))"
  using audits_later [OF new_files] by blast

section \<open>The checkpoint of a suspended batch\<close>

definition state_text :: "decision_state \<Rightarrow> string" where
  "state_text st = (case st of Not_Evaluated \<Rightarrow> ''not_evaluated'' | Pending \<Rightarrow> ''pending'' | Allowed \<Rightarrow> ''allow'' | Denied \<Rightarrow> ''deny'')"

definition decision_dict :: "continuation_decision \<Rightarrow> pydict" where
  \<comment> \<open>the dictionary that a decision of \<open>Permission_Phase\<close> is in the code\<close>
  "decision_dict d =
     [(''toolUseId'', PyStr (cd_tool_use_id d)), (''state'', PyStr (state_text (cd_state d))), (''source'', opt_text (cd_source d)),
      (''deniedResult'', opt_text (cd_denied_result d))]
     @ (case cd_identity d of None \<Rightarrow> [] | Some (p, region) \<Rightarrow> [(''principalRef'', opt_text p), (''region'', opt_text region)])"

definition frame_dict :: "string option \<Rightarrow> continuation_frame \<Rightarrow> pydict" where
  \<comment> \<open>the frame as it is passed on; \<open>previous\<close> is the boundary of the prompt before it in the same batch, if that had one\<close>
  "frame_dict previous fr =
     [(''assistantMessageRef'', PyStr (cf_message_ref fr)), (''assistantMessageDigest'', PyStr (cf_message_digest fr)),
      (''orderedToolUseIds'', PyList (map PyStr (cf_ordered_ids fr))), (''currentIndex'', PyInt (cf_current_index fr)),
      (''currentPayloadDigest'', PyStr (cf_payload_digest fr)), (''decisions'', PyList (map (PyDict \<circ> decision_dict) (cf_decisions fr)))]
     @ (case previous of None \<Rightarrow> [] | Some b \<Rightarrow> [(''previousBoundaryId'', PyStr b)])"

definition decision_ok :: "string \<Rightarrow> continuation_decision \<Rightarrow> bool" where
  "decision_ok tid d \<longleftrightarrow> cd_tool_use_id d = tid \<and> (cd_state d = Allowed \<and> cd_source d = Some ''user'' \<longrightarrow> cd_identity d \<noteq> None)"

definition decisions_ok :: "string list \<Rightarrow> continuation_decision list \<Rightarrow> bool" where
  "decisions_ok ids ds \<longleftrightarrow> list_all2 (\<lambda>tid d. decision_ok tid d \<and> cd_state d \<noteq> Pending) ids ds"

lemma decisions_update: "decisions_ok ids ds \<Longrightarrow> i < length ids \<Longrightarrow> decision_ok (ids ! i) d \<Longrightarrow> cd_state d \<noteq> Pending \<Longrightarrow> decisions_ok ids (ds[i := d])"
  by (auto simp: decisions_ok_def list_all2_conv_all_nth nth_list_update)

lemma policy_decisions:
  assumes "decisions_ok ids (ph_decisions ph)" and "i < length ids"
  shows "decisions_ok ids (ph_decisions (policy_phase env i req p ph))"
proof -
  have "cd_tool_use_id (ph_decisions ph ! i) = ids ! i" using assms by (auto simp: decisions_ok_def decision_ok_def list_all2_conv_all_nth)
  then show ?thesis
    using assms by (auto simp: policy_phase_def phase_allow_def phase_deny_def decide_def decision_ok_def Let_def
      split: prod.splits intro!: decisions_update)
qed

lemma prompt_decisions:
  assumes "decisions_ok ids ds" and "i < length ids" and "ph_decisions ph = ds[i := (ds ! i)\<lparr>cd_state := Pending, cd_source := None\<rparr>]"
  shows "decisions_ok ids (ph_decisions (prompt_phase env i req p out ph))"
proof -
  have "cd_tool_use_id (ds ! i) = ids ! i" "length ds = length ids" using assms by (auto simp: decisions_ok_def decision_ok_def list_all2_conv_all_nth)
  then show ?thesis
    using assms by (auto simp: prompt_phase_def phase_allow_def phase_deny_def decide_def decision_ok_def Let_def
      split: prod.splits intro!: decisions_update)
qed

lemma step_decisions:
  assumes "phase_step env errs fr uses i req ph = (None, ph')" and "decisions_ok ids (ph_decisions ph)" and "i < length ids"
  shows "decisions_ok ids (ph_decisions ph')"
proof -
  have tid: "cd_tool_use_id (ph_decisions ph ! i) = ids ! i" using assms by (auto simp: decisions_ok_def decision_ok_def list_all2_conv_all_nth)
  show ?thesis
    using assms(1) assms(2,3) tid
    by (auto simp: phase_step_def Let_def boundary_frame_def phase_deny_def decide_def decision_ok_def
      split: option.splits prod.splits if_splits intro!: policy_decisions prompt_decisions decisions_update)
qed

lemma step_suspended:
  assumes "phase_step env errs fr uses i req ph = (Some fr', ph')"
  shows "fr' = boundary_frame fr env uses i (ph_decisions ph)"
  using assms by (auto simp: phase_step_def Let_def split: option.splits prod.splits if_splits)

lemma loop_suspended:
  assumes "phase_loop env errs fr uses i reqs ph = (Some fr', ph')" and "decisions_ok ids (ph_decisions ph)" and "i + length reqs \<le> length ids"
  shows "\<exists>j ds. j < length ids \<and> decisions_ok ids ds \<and> fr' = boundary_frame fr env uses j ds"
  using assms
proof (induction reqs arbitrary: i ph)
  case (Cons req reqs)
  obtain stop ph1 where st: "phase_step env errs fr uses i req ph = (stop, ph1)" by fastforce
  show ?case
  proof (cases stop)
    case None
    then have "decisions_ok ids (ph_decisions ph1)" using step_decisions [of env errs fr uses i req ph ph1] st Cons.prems by simp
    then show ?thesis using Cons.IH [of "Suc i" ph1] Cons.prems st None by simp
  next
    case (Some f)
    then have "fr' = boundary_frame fr env uses i (ph_decisions ph)" using step_suspended Cons.prems(1) st by fastforce
    then show ?thesis using Cons.prems(2,3) by (intro exI [of _ i] exI [of _ "ph_decisions ph"]) simp
  qed
qed simp

lemma initial_ok: "decisions_ok (map tc_id reqs) (initial_decisions errs reqs)"
  by (auto simp: decisions_ok_def initial_decisions_def list_all2_conv_all_nth decision_ok_def decide_def fresh_decision_def split: option.splits)

lemma phase_suspended:
  assumes "permission_phase env errs ref dig uses w = (Some fr, ph)"
  shows "\<exists>j ds. j < length uses \<and> decisions_ok (map tu_id uses) ds \<and> cf_message_ref fr = ref \<and> cf_message_digest fr = dig
    \<and> cf_ordered_ids fr = map tu_id uses \<and> cf_current_index fr = int j
    \<and> cf_payload_digest fr = ae_payload_digest env (tu_name (uses ! j)) (tu_input (uses ! j))
    \<and> cf_decisions fr = ds[j := (ds ! j)\<lparr>cd_state := Pending, cd_source := None\<rparr>]"
proof -
  let ?ids = "map tu_id uses"
  have ids: "map tc_id (map (make_request env) uses) = ?ids" by (simp add: comp_def)
  obtain fr0 ph0 reqs where loop: "phase_loop env errs fr0 uses 0 reqs ph0 = (Some fr, ph)" "decisions_ok ?ids (ph_decisions ph0)"
    "length reqs \<le> length ?ids" "cf_message_ref fr0 = ref" "cf_message_digest fr0 = dig" "cf_ordered_ids fr0 = ?ids"
    using assms initial_ok [of "map (make_request env) uses" errs]
    unfolding permission_phase_def Let_def ids by (fastforce simp: comp_def)
  then obtain j ds where "j < length ?ids" "decisions_ok ?ids ds" "fr = boundary_frame fr0 env uses j ds"
    using loop_suspended [OF loop(1,2)] by auto
  then show ?thesis using loop by (auto simp: boundary_frame_def intro!: exI [of _ j] exI [of _ ds])
qed

lemma decision_dict_get:
  "dict_get ''toolUseId'' (decision_dict d) = PyStr (cd_tool_use_id d)"
  "dict_get ''state'' (decision_dict d) = PyStr (state_text (cd_state d))"
  "dict_get ''source'' (decision_dict d) = opt_text (cd_source d)"
  by (simp_all add: decision_dict_def dict_get_def)

lemma state_text_known: "state_text st \<in> {''not_evaluated'', ''pending'', ''allow'', ''deny''}" "state_text st = ''pending'' \<longleftrightarrow> st = Pending"
  "state_text st = ''allow'' \<longleftrightarrow> st = Allowed"
  by (cases st; simp add: state_text_def)+

lemma identity_given_dict: "cd_identity d \<noteq> None \<Longrightarrow> identity_given (decision_dict d)"
  by (auto simp: identity_given_def decision_dict_def opt_text_def split: option.splits)

lemma pending_frame:
  assumes "list_all2 decision_ok ids ds"
  shows "pending_indexes n ids (map (PyDict \<circ> decision_dict) ds)
    = Inr (map ((+) n) (filter (\<lambda>i. cd_state (ds ! i) = Pending) [0 ..< length ds]))"
  using assms
proof (induction ids ds arbitrary: n rule: list_all2_induct)
  case (Cons tid ids d ds)
  have "cd_state d = Allowed \<and> cd_source d = Some ''user'' \<longrightarrow> identity_given (decision_dict d)"
    using Cons(1) identity_given_dict by (auto simp: decision_ok_def)
  moreover have "opt_text (cd_source d) = PyStr ''user'' \<longleftrightarrow> cd_source d = Some ''user''" by (auto simp: opt_text_def split: option.splits)
  moreover have "[0 ..< length (d # ds)] = 0 # map Suc [0 ..< length ds]" by (simp add: upt_conv_Cons map_Suc_upt del: upt_Suc)
  ultimately show ?case
    using Cons state_text_known [of "cd_state d"]
    by (simp add: decision_dict_get decision_ok_def filter_map comp_def)
qed simp

lemma texts_of_map: "[] \<notin> set ids \<Longrightarrow> texts_of (map PyStr ids) = Some ids"
  by (induction ids) auto

lemma pending_at:
  assumes "decisions_ok ids ds" and "j < length ids"
  shows "pending_indexes 0 ids (map (PyDict \<circ> decision_dict) (ds[j := (ds ! j)\<lparr>cd_state := Pending, cd_source := None\<rparr>])) = Inr [j]"
proof -
  let ?ds = "ds[j := (ds ! j)\<lparr>cd_state := Pending, cd_source := None\<rparr>]"
  have len: "length ds = length ids" using assms(1) by (auto simp: decisions_ok_def list_all2_lengthD)
  have "list_all2 decision_ok ids ?ds"
    using assms by (auto simp: decisions_ok_def decision_ok_def list_all2_conv_all_nth nth_list_update)
  moreover have "filter (\<lambda>i. cd_state (?ds ! i) = Pending) [0 ..< length ?ds] = filter (\<lambda>i. i = j) [0 ..< length ds]"
    using assms len by (intro filter_cong) (auto simp: decisions_ok_def list_all2_conv_all_nth nth_list_update)
  moreover have "filter (\<lambda>i. i = j) [0 ..< n] = [j]" if "j < n" for n using that by (induction n) auto
  ultimately show ?thesis using pending_frame assms(2) len by simp
qed

lemma message_number_nat_str: "message_number (nat_str i) = Some i"
proof -
  note ds = nat_str_digits [of i]
  have "length (nat_str i) = 1" if "hd (nat_str i) = CHR ''0''"
    using nat_str_lead [of i] that by (cases i) (simp_all add: nat_str.simps)
  then show ?thesis using ds by (simp add: message_number_def)
qed

lemma message_ref_parsed:
  assumes "transcript = None \<or> (\<exists>t. transcript = Some t \<and> validate_transcript_id t = Inr t)"
  shows "parse_permission_message_ref (PyStr (message_ref_at transcript i)) = Inr (transcript, i)"
proof (cases transcript)
  case None
  then show ?thesis
    by (simp add: parse_permission_message_ref_def message_ref_at_def startswith_def message_number_nat_str)
next
  case (Some t)
  let ?safe = "\<lambda>c. ascii_alnum c \<or> c \<in> {CHR ''_'', CHR ''.'', CHR ''-''}"
  have t: "validate_transcript_id t = Inr t" "t \<noteq> []" "list_all ?safe t"
    using assms Some by (auto simp: validate_transcript_id_def split: if_splits)
  have slash: "\<not> ?safe CHR ''/''" by code_simp
  have tw: "takeWhile ?safe (t @ CHR ''/'' # x) = t" for x
    using t(3) slash by (simp add: takeWhile_append2 list_all_iff)
  then show ?thesis
    using t(1,2) Some by (simp add: parse_permission_message_ref_def message_ref_at_def startswith_def message_number_nat_str Let_def)
qed

lemma message_ref_nonempty: "message_ref_at transcript i \<noteq> []"
  by (simp add: message_ref_at_def split: option.split)

text \<open>
  C13: A suspended batch can be stored. Let the permission phase of a message, referred to in the session or in the transcript
  of a pipeline step (an identifier that is safe as a file name), stop at a prompt, the ids of its calls being distinct and
  not empty and the digests of the message and of the calls being SHA-256 sums. Then the checkpoint that is built from the
  frame for the call at its index, with the permission class of the reference (normal or pipeline), a principal of a known
  kind or none, and with or without the boundary of an earlier prompt of the batch, is accepted by the store under a fresh
  boundary identifier and is read back as it was written; its continuation frame is that frame, with exactly one pending
  call, the one the checkpoint is about.
\<close>

theorem suspended_batch_stored:
  assumes "permission_phase env errs (message_ref_at transcript i) dig uses w = (Some fr, ph)"
    and "transcript = None \<or> (\<exists>t. transcript = Some t \<and> validate_transcript_id t = Inr t)"
    and "is_sha256 dig" and "\<forall>u \<in> set uses. is_sha256 (ae_payload_digest env (tu_name u) (tu_input u))"
    and "distinct (map tu_id uses)" and "[] \<notin> set (map tu_id uses)"
    and "cr_permission_class cr = (if transcript = None then ''normal'' else ''pipeline'')"
    and "cr_tool_use_id cr = cf_ordered_ids fr ! nat (cf_current_index fr)"
    and "cr_principal_kind cr \<in> {None, Some ''account'', Some ''ram_user'', Some ''ram_role''}"
    and "is_boundary_id b" and "map_of files b = None"
  shows "\<exists>r. build_permission_checkpoint wenv digest b created cr (frame_dict previous fr) policy = Inr r
    \<and> wait_create (cr_session_id cr) r files = (Inr r, dict_set b (Record r) files)
    \<and> read_record (dict_set b (Record r) files) b = Inr (Some r)
    \<and> dict_get ''toolUseId'' r = PyStr (tu_id (uses ! nat (cf_current_index fr)))
    \<and> dict_get ''continuationFrame'' r = PyDict (frame_dict previous fr)
    \<and> pending_indexes 0 (map tu_id uses) (map (PyDict \<circ> decision_dict) (cf_decisions fr)) = Inr [nat (cf_current_index fr)]"
proof -
  obtain j ds where fr: "j < length uses" "decisions_ok (map tu_id uses) ds" "cf_message_ref fr = message_ref_at transcript i"
    "cf_message_digest fr = dig" "cf_ordered_ids fr = map tu_id uses" "cf_current_index fr = int j"
    "cf_payload_digest fr = ae_payload_digest env (tu_name (uses ! j)) (tu_input (uses ! j))"
    "cf_decisions fr = ds[j := (ds ! j)\<lparr>cd_state := Pending, cd_source := None\<rparr>]"
    using phase_suspended [OF assms(1)] by auto
  have sha: "is_sha256 (cf_payload_digest fr)" using assms(4) fr(1,7) by auto
  have uses: "uses \<noteq> []" using fr(1) by auto
  define cls where "cls = (if transcript = None then ''normal'' else ''pipeline'')"
  have frame: "dict_get ''assistantMessageRef'' (frame_dict previous fr) = PyStr (message_ref_at transcript i)"
      "dict_get ''assistantMessageDigest'' (frame_dict previous fr) = PyStr dig"
      "dict_get ''orderedToolUseIds'' (frame_dict previous fr) = PyList (map PyStr (map tu_id uses))"
      "dict_get ''currentIndex'' (frame_dict previous fr) = PyInt (int j)"
      "dict_get ''currentPayloadDigest'' (frame_dict previous fr) = PyStr (cf_payload_digest fr)"
      "dict_get ''decisions'' (frame_dict previous fr) = PyList (map (PyDict \<circ> decision_dict) (cf_decisions fr))"
      "map_of (frame_dict previous fr) ''currentPayloadDigest'' = Some (PyStr (cf_payload_digest fr))"
      "dict_set ''currentPayloadDigest'' (PyStr (cf_payload_digest fr)) (frame_dict previous fr) = frame_dict previous fr"
    using fr(3-6) by (simp_all add: frame_dict_def dict_get_def)
  obtain r where r: "build_permission_checkpoint wenv digest b created cr (frame_dict previous fr) policy = Inr r"
    and get: "dict_get ''boundaryId'' r = PyStr b" "dict_get ''schemaVersion'' r = PyInt 1" "dict_get ''sessionId'' r = PyStr (cr_session_id cr)"
      "dict_get ''phase'' r = PyStr ''WAITING''" "dict_get ''generation'' r = PyInt 1" "dict_get ''payloadDigest'' r = PyStr (cf_payload_digest fr)"
      "dict_get ''identitySchemaVersion'' r = PyInt 1" "dict_get ''principalKind'' r = opt_text (cr_principal_kind cr)"
      "dict_get ''permissionClass'' r = PyStr cls" "dict_get ''mode'' r = PyStr cls"
      "dict_get ''toolUseId'' r = PyStr (tu_id (uses ! j))" "dict_get ''continuationFrame'' r = PyDict (frame_dict previous fr)"
    using sha assms(7,8) fr(1,5,6) by (simp add: build_permission_checkpoint_def frame(7,8) dict_get_def cls_def)
  have len: "length (cf_decisions fr) = length uses" using fr(2,8) by (auto simp: decisions_ok_def dest: list_all2_lengthD)
  have pending: "pending_indexes 0 (map tu_id uses) (map (PyDict \<circ> decision_dict) (cf_decisions fr)) = Inr [j]"
    using pending_at [OF fr(2)] fr(1,8) by simp
  have "validate_decisions r (frame_dict previous fr) (map tu_id uses) = Inr ()"
    using pending fr(1) sha get(6,11) len by (simp add: validate_decisions_def frame)
  then have "validate_continuation_frame r = Inr ()"
    using get assms(3,5,6) uses texts_of_map [OF assms(6)] message_ref_parsed [OF assms(2), of i] message_ref_nonempty [of transcript i]
    by (simp add: validate_continuation_frame_def frame cls_def)
  moreover have "validate_identity r = Inr ()"
    using assms(9) get by (auto simp: validate_identity_def hashable_def opt_text_def)
  ultimately have "validate_record (cr_session_id cr) r = Inr b"
    using get assms(10) sha by (simp add: validate_record_def PHASES_def ACTIVE_PHASES_def cls_def)
  then show ?thesis using r get(11,12) fr(6) assms(10,11) pending by (simp add: wait_create_def read_record_def)
qed

section \<open>A run\<close>

definition demo_sha :: string where
  "demo_sha = replicate 64 (CHR ''0'')"

definition demo_wait_env :: wait_env where
  "demo_wait_env = \<lparr>we_isoformat = (\<lambda>t. nat_str (nat t) @ ''+00:00''), we_fromisoformat = (\<lambda>s. py_int (take (length s - 6) s)), we_str = (\<lambda>_. [])\<rparr>"

definition demo_agent :: "(nat, nat, unit) agent_env" where
  "demo_agent = (suspend_at ''2'' (sample_agent Approved))\<lparr>ae_payload_digest := \<lambda>_ _. demo_sha\<rparr>"

definition demo_frame :: continuation_frame where
  "demo_frame = \<lparr>cf_message_ref = ''session.jsonl:0'', cf_message_digest = demo_sha, cf_ordered_ids = [''1'', ''2''], cf_current_index = 1,
     cf_payload_digest = demo_sha,
     cf_decisions = [\<lparr>cd_tool_use_id = ''1'', cd_state = Allowed, cd_source = Some ''user'', cd_denied_result = None, cd_identity = Some (None, None)\<rparr>,
       \<lparr>cd_tool_use_id = ''2'', cd_state = Pending, cd_source = None, cd_denied_result = None, cd_identity = None\<rparr>]\<rparr>"

definition demo_request :: checkpoint_request where
  "demo_request = \<lparr>cr_session_id = ''s'', cr_task_id = None, cr_context_id = ''c'', cr_input_id = ''i'', cr_tool_use_id = ''2'',
     cr_tool_name = ''write_file'', cr_tool_input = [], cr_permission_class = ''normal'', cr_principal_ref = None, cr_principal_kind = None,
     cr_region = None, cr_pipeline_coordinates = None\<rparr>"

definition demo_policy :: PermissionWaitPolicy where
  "demo_policy = \<lparr>wp_resident_timeout = Some 60, wp_sub_pipeline_timeout = None, wp_timeout_grace = 30\<rparr>"

definition demo_checkpoint :: pydict where
  "demo_checkpoint = (case build_permission_checkpoint demo_wait_env (\<lambda>_. []) ''pwb_00000000'' 5 demo_request (frame_dict None demo_frame) demo_policy of
     Inr r \<Rightarrow> r | Inl _ \<Rightarrow> [])"

definition demo_ops :: "wait_op list" where
  "demo_ops = [Create demo_checkpoint, Claim 6 ''pwb_00000000'' ''allow_once'' ''user'' ''k'' (Some 1)]"

definition demo_claimed :: pydict where
  "demo_claimed = (case map_of (wait_run demo_wait_env ''s'' demo_ops []) ''pwb_00000000'' of Some (Record r) \<Rightarrow> r | _ \<Rightarrow> [])"

lemma demo_suspended: "fst (permission_phase demo_agent [] ''session.jsonl:0'' demo_sha two_writes sample_agent_world) = Some demo_frame"
  by code_simp

lemma demo_run: "map_of (wait_run demo_wait_env ''s'' demo_ops []) ''pwb_00000000'' = Some (Record demo_claimed)"
proof -
  have "(case map_of (wait_run demo_wait_env ''s'' demo_ops []) ''pwb_00000000'' of Some (Record r) \<Rightarrow> True | _ \<Rightarrow> False)" by code_simp
  then show ?thesis by (auto simp: demo_claimed_def split: option.splits wait_file.splits)
qed

lemma demo_decision:
  "dict_get ''decision'' demo_claimed = PyDict [(''status'', PyStr ''claimed''), (''value'', PyStr ''allow_once''), (''source'', PyStr ''user''),
     (''claimId'', PyStr ''k''), (''auditStatus'', PyStr ''pending''), (''backupStatus'', PyStr ''pending'')]"
  by code_simp

theorem generation_fences_witness:
  "\<exists>r'. map_of (wait_run demo_wait_env ''s'' (demo_ops @ [Cancel 7 ''pwb_00000000'' (Some 1) True]) []) ''pwb_00000000'' = Some (Record r')
    \<and> (generation_at demo_claimed = generation_at r' \<longrightarrow> same_record demo_claimed r')"
  using generation_fences [OF demo_run] by blast

theorem answer_is_final_witness:
  "\<exists>r' e. map_of (wait_run demo_wait_env ''s'' (demo_ops @ [Audit 7 ''pwb_00000000'' ''k'' (\<lambda>_. False)]) []) ''pwb_00000000'' = Some (Record r')
    \<and> dict_get ''decision'' r' = PyDict e \<and> dict_get ''claimId'' e = PyStr ''k''"
  using answer_is_final [OF demo_run demo_decision, where ops' = "[Audit 7 ''pwb_00000000'' ''k'' (\<lambda>_. False)]"]
  by (auto simp: keeps_answer_def claimed_def dict_get_def)

theorem audit_runs_once_witness:
  "audit_settled ''pwb_00000000'' (wait_run demo_wait_env ''s''
     (demo_ops @ [Audit 7 ''pwb_00000000'' ''k'' (\<lambda>_. False)]) [])"
proof -
  have "''pwb_00000000'' \<in> set (wait_audits demo_wait_env ''s''
     (demo_ops @ [Audit 7 ''pwb_00000000'' ''k'' (\<lambda>_. False)]) [])" by code_simp
  then show ?thesis using audit_runs_once by blast
qed

theorem suspended_batch_stored_witness:
  "\<exists>r. build_permission_checkpoint demo_wait_env (\<lambda>_. []) ''pwb_00000000'' 5 demo_request (frame_dict None demo_frame) demo_policy = Inr r
    \<and> wait_create ''s'' r [] = (Inr r, [(''pwb_00000000'', Record r)]) \<and> dict_get ''toolUseId'' r = PyStr ''2''"
proof -
  have ref: "message_ref_at None 0 = ''session.jsonl:0''" by code_simp
  obtain ph where ph: "permission_phase demo_agent [] (message_ref_at None 0) demo_sha two_writes sample_agent_world = (Some demo_frame, ph)"
    using demo_suspended unfolding ref
    by (cases "permission_phase demo_agent [] ''session.jsonl:0'' demo_sha two_writes sample_agent_world") auto
  have idx: "cf_current_index demo_frame = 1 \<and> cf_ordered_ids demo_frame = [''1'', ''2'']" by (simp add: demo_frame_def)
  have "is_sha256 demo_sha" "is_boundary_id ''pwb_00000000''" by code_simp+
  with suspended_batch_stored [OF ph, where cr = demo_request and b = "''pwb_00000000''" and files = "[]" and previous = None
      and wenv = demo_wait_env and digest = "\<lambda>_. []" and created = 5 and policy = demo_policy] idx
  show ?thesis by (auto simp: demo_agent_def demo_request_def two_writes_def write_use_def)
qed

end
