(* ===== verification/Spec2Isabelle.thy ===== *)
theory Spec2Isabelle
  imports Bash_Boundaries Settings_Loader Pipeline_Context Tasks Journal Tool_Input Push_Queue File_Tools Tool_Calls
    Agent_Loop Session_Store Step_Recovery Interrupt_Judge Retry Env_Expansion Permission_Wait
begin

text \<open>
  A verification library for \<^bold>\<open>iac-code\<close>, an agent that writes and deploys infrastructure as code. All
  files named below lie under \<^verbatim>\<open>src/src/iac_code/\<close>.

  \<^bold>\<open>The program.\<close> A language model proposes tool calls (shell commands, file edits, cloud operations); the
  program decides which of them may run, runs them, feeds the results back and keeps the conversation. The agent loop
  (\<^verbatim>\<open>agent/agent_loop.py\<close>) asks a provider for a response, puts streamed tool calls together, sends every call through
  the permission pipeline (\<^verbatim>\<open>services/permissions/\<close>, and for shell commands \<^verbatim>\<open>tools/bash/\<close>), hands the permitted ones
  to the executor (\<^verbatim>\<open>tools/tool_executor.py\<close>), appends results to the conversation and compacts it when it grows too
  long (\<^verbatim>\<open>services/context_manager.py\<close>). Sessions are stored on disk and resumed (\<^verbatim>\<open>services/session_storage.py\<close>).
  Longer tasks run as pipelines of steps with rollbacks (\<^verbatim>\<open>pipeline/engine/\<close>); a run is published to other agents
  through a journal and push notifications (\<^verbatim>\<open>a2a/\<close>), and sub-agents run in the background (\<^verbatim>\<open>tasks/\<close>).

  \<^bold>\<open>Foundations.\<close>
  \<^item> \<open>Prelude\<close>: Python's strings, lists and POSIX paths. \<open>Py_Regex\<close>: the backtracking semantics of \<^verbatim>\<open>re\<close>.
    \<open>Py_Data\<close>: dynamic values, ordered dictionaries, exceptions as values, and the locale \<open>resumable\<close>. \<open>Json\<close>: encoder
    and decoder of the \<^verbatim>\<open>json\<close> module, with \<open>loads\<close> proved inverse to \<open>dumps\<close> for both kinds of separators.
    \<open>Py_Values\<close> and \<open>Py_Equality\<close>: truth values, \<^verbatim>\<open>dict.get\<close>, sorted keys, equality and \<^verbatim>\<open>int\<close>.

  \<^bold>\<open>Permissions.\<close>
  \<^item> \<open>Perm_Types\<close> (\<^verbatim>\<open>types/permissions.py\<close>), \<open>Settings_Loader\<close> (\<^verbatim>\<open>services/permissions/loader.py\<close>), \<open>Path_Safety\<close>
    (\<^verbatim>\<open>tools/path_safety.py\<close>), \<open>Permission_Pipeline\<close> (\<^verbatim>\<open>services/permissions/pipeline.py\<close>).
  \<^item> The shell: \<open>Command_Parser\<close>, \<open>Sed_Script\<close> and \<open>Argv_Safety\<close>, \<open>Path_Validation\<close>, \<open>Rule_Matching\<close>, \<open>Bash_Checks\<close>,
    \<open>Bash_Permissions\<close>, one theory for each module of \<^verbatim>\<open>tools/bash/\<close>; \<open>Bash_Boundaries\<close> shows where the engine grants
    more than its documentation says.
  \<^item> Shown: an exact characterisation of the commands that run without a prompt, precedence of deny rules, containment
    of the reads and writes that the engine extracts from a command (without a configured \<^verbatim>\<open>bash(**)\<close>), in which situations exactly the pipeline departs from the documented permission modes, its
    sticky asks, and that a deny of any settings layer is enforced. \<open>File_Tools\<close> (\<^verbatim>\<open>execute\<close> of \<^verbatim>\<open>tools/write_file.py\<close> and \<^verbatim>\<open>tools/edit_file.py\<close>) adds that a granted write
    changes only a file that was checked.

  \<^bold>\<open>The agent loop.\<close>
  \<^item> \<open>Messages\<close> (\<^verbatim>\<open>agent/message.py\<close>), \<open>Compaction\<close> (\<^verbatim>\<open>services/context_manager.py\<close>), \<open>Tool_Executor\<close>
    (\<^verbatim>\<open>tools/tool_executor.py\<close>), \<open>Tool_Input\<close> (\<^verbatim>\<open>utils/json_utils.py\<close>, \<^verbatim>\<open>utils/tool_input_parser.py\<close>), \<open>Tool_Calls\<close>
    (\<^verbatim>\<open>providers/qwen_tool_call_parser.py\<close>), \<open>Contract_Store\<close> (\<^verbatim>\<open>tools/cloud/aliyun/contract_store.py\<close>) and \<open>Retry\<close>
    (\<^verbatim>\<open>providers/retry.py\<close>) are the parts.
  \<^item> \<open>Permission_Phase\<close> decides on the calls of one response, \<open>Permission_Resume\<close> takes up a batch that was suspended at
    a prompt, \<open>Agent_Loop\<close> is the loop of rounds around both (all \<^verbatim>\<open>agent/agent_loop.py\<close>).
  \<^item> \<open>Permission_Wait\<close> (\<^verbatim>\<open>services/permission_wait.py\<close>) is the durable record of a prompt that several processes answer,
    time out, suspend and cancel: a suspended batch is always accepted by it, generations fence concurrent changes, an
    answer is final and audited once.
  \<^item> Shown: only calls run that the policy or the user permitted and the audit recorded at that point of the same run; a
    suspended batch ends like a live one and respects today's policy; an approval is used once; a truncated response runs
    nothing; every call in the history keeps exactly one result, in the order of the calls after a resumption, also after
    compaction (of histories without hand-offs and cleanup prompts: with a hand-off inside the tail a compaction can
    separate a call from its result); accepted input reaches the history, in order; the stored transcript holds the
    messages of the history, as copies whose token counts may differ; concurrent batches behave like sequential ones;
    retries are bounded. The ghost field \<open>lp_accepted\<close> of the loop's state logs the input that was accepted.

  \<^bold>\<open>Sessions and recovery.\<close>
  \<^item> \<open>Session_Store\<close> (\<^verbatim>\<open>services/session_storage.py\<close>, \<^verbatim>\<open>append_jsonl_locked\<close> of \<^verbatim>\<open>utils/state_io.py\<close>): what is written
    is what is read, and a session that is killed at any byte is repaired to a conversation with all results.
  \<^item> \<open>Step_Recovery\<close> (\<^verbatim>\<open>pipeline/engine/resume_recovery.py\<close>, \<^verbatim>\<open>recovery.py\<close>, \<^verbatim>\<open>completion_guard_state.py\<close>) builds on
    it: answers from the sidecar replace the results the repair invents, and a recovered step counts as successful only
    what really succeeded.

  \<^bold>\<open>Pipelines.\<close>
  \<^item> \<open>State_Machine\<close>, \<open>Pipeline_Loader\<close>, \<open>Pipeline_Context\<close> and \<open>Interrupt_Judge\<close> (\<^verbatim>\<open>state_machine.py\<close>,
    \<^verbatim>\<open>loader.py\<close>, \<^verbatim>\<open>context.py\<close> and \<^verbatim>\<open>interrupt.py\<close> of \<^verbatim>\<open>pipeline/engine/\<close>). Shown: reachable states are in order, runs
    end when the forward links are linear (a pipeline that leads back to itself runs on), snapshots restore the run, the cycle check is exact, staleness follows the dependencies, and the interrupt judge
    does only what a reply names and otherwise follows the policy of the step.

  \<^bold>\<open>Around the agent.\<close>
  \<^item> \<open>Tasks\<close> (\<^verbatim>\<open>tasks/\<close>), \<open>Journal\<close> (\<^verbatim>\<open>a2a/pipeline_journal.py\<close>), \<open>Push_Queue\<close> (\<^verbatim>\<open>a2a/push_queue.py\<close>,
    \<^verbatim>\<open>a2a/push_worker.py\<close>), \<open>Env_Expansion\<close> (\<^verbatim>\<open>mcp/env_expansion.py\<close>). Shown: a task settles once; the journal refines
    a log under crashes (for records without U+0085 and below 1 MiB); a notification is lost only when a process dies
    between two file operations of one call, right after its file was removed or emptied; leases are exclusive among the
    workers of an event loop; references expand to what they stand for.

  \<^bold>\<open>How code corresponds to definitions.\<close> A function keeps its name (without a leading underscore); a class is
  a record whose fields carry a short prefix; a method that changes its object returns the new object; an exception is the
  left side of a sum or a constructor of an outcome type; a \<^verbatim>\<open>dict\<close> is an association list in insertion order. A part of
  a long function that is a definition of its own is described where it stands.

  \<^bold>\<open>Interfaces.\<close> Where one part relies on another, the contract is a locale that is interpreted on the model:
  \<open>restrictive_merge\<close> (merging the verdicts of subcommands), \<open>file_writing_tool\<close> (both file tools), \<open>tool_registry\<close>,
  \<open>resumable\<close> (state machine and context), \<open>bounded_queue\<close> (notifications), \<open>push_queue\<close> (the queue in a directory, for
  the worker), \<open>conversation_invariant\<close> (what every step of the loop keeps: transcript and object identities) and
  \<open>message_schema\<close> (serialisation of messages).

  \<^bold>\<open>Assumptions.\<close> The host is Linux. Texts range over U+0000 to U+00FF. User-facing texts are those of the
  source language. Arguments stand for what is outside of the sources or of the program: the tree-sitter parser, YAML, the
  tokenizer, pydantic, the operating system, the clock, random numbers and identifiers, hashes, the model, the user, and
  what a tool does. A float is its literal in JSON values and a rational number where the code computes with it. Code
  between two suspension points of \<^verbatim>\<open>asyncio\<close>, and a critical section of a lock, is one step.

  \<^bold>\<open>Termination.\<close> Every function is total: recursions that are not structural have a termination proof; the walk
  over the links of disabled steps, which may run for ever, is a partial function with the value \<open>None\<close> then; the rounds
  of the loop recurse on the configured number of turns, so there is no artificial fuel.

  \<^bold>\<open>Not modelled.\<close> The runner and the step executor of pipelines beyond the parts above (asynchronous
  orchestration of what is modelled), the planning heuristics of the selling pipeline and the analyser for ROS templates
  (driven by large tables of domain data), the providers, MCP and A2A protocol layers (glue around third-party libraries),
  user interfaces, web and desktop applications, commands, telemetry, memory and skills. Within the modelled files:
  locks, file permissions, telemetry, rendering, the Redis queue, the recovery of tool calls written as XML, the reading
  of YAML pipelines and the prompts sent to models.
\<close>

end
